(* ===== verification/Prelude.thy ===== *)
theory Prelude
  imports Complex_Main
begin

text \<open>
  What the components share: the development's fact collections, the results of C code and its
  integers, C's view of a byte string, the
  value of a decimal digit string in both storage orders, truncation of a rational to a number of
  decimal places (the rounding rule of every inexact bcmath operation), the sign-following
  remainder, and a few facts on lists.
\<close>

section \<open>Fact collections\<close>

named_theorems wf_intros \<open>operations establish or keep the well-formedness invariant\<close>
named_theorems val_simps \<open>what an operation does to the abstract value\<close>
named_theorems len_simps \<open>lengths of the buffers an operation fills\<close>

section \<open>Results and C integers\<close>

text \<open>A call returns, ends the process with \<open>zend_error_noreturn\<close>, or has no defined behaviour: an
  access outside an allocation, a loop that does not end, a signed integer that overflows.\<close>

datatype 'a run = Ret 'a | Fatal string | Undef

primrec run_bind :: "'a run \<Rightarrow> ('a \<Rightarrow> 'b run) \<Rightarrow> 'b run" where
  "run_bind (Ret x) f = f x"
| "run_bind (Fatal e) f = Fatal e"
| "run_bind Undef f = Undef"

definition run_of :: "'a option \<Rightarrow> 'a run" where
  "run_of r = (case r of None \<Rightarrow> Undef | Some x \<Rightarrow> Ret x)"

abbreviation ZEND_LONG_MIN :: int where "ZEND_LONG_MIN \<equiv> - 9223372036854775808"
abbreviation ZEND_LONG_MAX :: int where "ZEND_LONG_MAX \<equiv> 9223372036854775807"
abbreviation INT_MIN :: int where "INT_MIN \<equiv> - 2147483648"
abbreviation INT_MAX :: int where "INT_MAX \<equiv> 2147483647"

text \<open>The result of an operation on \<open>int\<close> and on \<open>zend_long\<close>.\<close>

definition c_int :: "int \<Rightarrow> int run" where
  "c_int x = (if INT_MIN \<le> x \<and> x \<le> INT_MAX then Ret x else Undef)"

definition c_long :: "int \<Rightarrow> int run" where
  "c_long x = (if ZEND_LONG_MIN \<le> x \<and> x \<le> ZEND_LONG_MAX then Ret x else Undef)"

text \<open>A \<open>zend_long\<close> that is passed as an \<open>int\<close> keeps its low 32 bits.\<close>

definition int_of_long :: "int \<Rightarrow> int" where
  "int_of_long x = (x + 2147483648) mod 4294967296 - 2147483648"

lemma c_int_Ret [simp]: "INT_MIN \<le> x \<Longrightarrow> x \<le> INT_MAX \<Longrightarrow> c_int x = Ret x"
  by (simp add: c_int_def)

lemma c_long_Ret [simp]: "ZEND_LONG_MIN \<le> x \<Longrightarrow> x \<le> ZEND_LONG_MAX \<Longrightarrow> c_long x = Ret x"
  by (simp add: c_long_def)

lemma int_of_long_id [simp]: "INT_MIN \<le> x \<Longrightarrow> x \<le> INT_MAX \<Longrightarrow> int_of_long x = x"
  by (simp add: int_of_long_def)

section \<open>Printing integers\<close>

text \<open>The digits of a number, and an integer the way \<open>%i\<close> and \<open>zend_long_to_str\<close> print it.\<close>

fun dec :: "nat \<Rightarrow> string" where
  "dec n = (if n < 10 then [char_of (n + 48)] else dec (n div 10) @ [char_of (n mod 10 + 48)])"

declare dec.simps [simp del]

definition sdec :: "int \<Rightarrow> string" where
  "sdec i = (if i < 0 then CHR ''-'' # dec (nat (- i)) else dec (nat i))"

section \<open>C strings\<close>

text \<open>
  A \<open>zend_string\<close> carries its length and may hold NUL bytes; a routine that is handed
  \<open>ZSTR_VAL\<close> and scans to the terminator sees only what precedes the first NUL.
\<close>

definition c_str :: "string \<Rightarrow> string" where
  "c_str s = takeWhile (\<lambda>c. c \<noteq> CHR 0x00) s"

lemma c_str_id [simp]: "CHR 0x00 \<notin> set s \<Longrightarrow> c_str s = s"
  unfolding c_str_def by (subst takeWhile_eq_all_conv) auto

lemma c_str_nul_free [simp]: "CHR 0x00 \<notin> set (c_str s)"
  unfolding c_str_def by (auto dest: set_takeWhileD)

section \<open>Decimal digit strings\<close>

type_synonym digits = "int list"

definition digits_ok :: "digits \<Rightarrow> bool" where
  "digits_ok ds = list_all (\<lambda>d. 0 \<le> d \<and> d \<le> 9) ds"

lemma digits_ok_simps [simp]:
  "digits_ok []"
  "digits_ok (d # ds) \<longleftrightarrow> 0 \<le> d \<and> d \<le> 9 \<and> digits_ok ds"
  "digits_ok (xs @ ys) \<longleftrightarrow> digits_ok xs \<and> digits_ok ys"
  "digits_ok (rev xs) \<longleftrightarrow> digits_ok xs"
  "digits_ok (replicate n 0)"
  by (auto simp: digits_ok_def list_all_iff)

lemma digits_ok_takeI [intro]: "digits_ok xs \<Longrightarrow> digits_ok (take n xs)"
  and digits_ok_dropI [intro]: "digits_ok xs \<Longrightarrow> digits_ok (drop n xs)"
  by (auto simp: digits_ok_def list_all_iff dest: in_set_takeD in_set_dropD)

lemma digits_ok_nth: "digits_ok xs \<Longrightarrow> i < length xs \<Longrightarrow> 0 \<le> xs ! i \<and> xs ! i \<le> 9"
  by (simp add: digits_ok_def list_all_length)

text \<open>Most significant digit first, as \<open>n_value\<close> stores a number.\<close>

definition dval :: "digits \<Rightarrow> int" where
  "dval ds = foldl (\<lambda>a d. 10 * a + d) 0 ds"

text \<open>Least significant digit first, as the loops that walk a pointer downwards meet it.\<close>

primrec lval :: "digits \<Rightarrow> int" where
  "lval [] = 0"
| "lval (d # ds) = d + 10 * lval ds"

lemma foldl_dval: "foldl (\<lambda>a d. 10 * a + d) a ds = a * 10 ^ length ds + dval ds"
  unfolding dval_def
proof (induction ds arbitrary: a)
  case (Cons d ds)
  have "foldl (\<lambda>a d. 10 * a + d) (10 * a + d) ds
          = (10 * a + d) * 10 ^ length ds + foldl (\<lambda>a d. 10 * a + d) 0 ds"
    and "foldl (\<lambda>a d. 10 * a + d) d ds
          = d * 10 ^ length ds + foldl (\<lambda>a d. 10 * a + d) 0 ds"
    by (rule Cons)+
  then show ?case by (simp add: distrib_right)
qed simp

lemma dval_Nil [simp]: "dval [] = 0"
  by (simp add: dval_def)

lemma dval_Cons [simp]: "dval (d # ds) = d * 10 ^ length ds + dval ds"
  using foldl_dval [of d ds] by (simp add: dval_def)

lemma dval_append [simp]: "dval (xs @ ys) = dval xs * 10 ^ length ys + dval ys"
  by (induction xs) (simp_all add: power_add algebra_simps)

lemma dval_zeros [simp]: "dval (replicate n 0) = 0"
  by (induction n) simp_all

lemma lval_append [simp]: "lval (xs @ ys) = lval xs + 10 ^ length xs * lval ys"
  by (induction xs) (simp_all add: algebra_simps)

lemma lval_zeros [simp]: "lval (replicate n 0) = 0"
  by (induction n) simp_all

lemma dval_rev: "dval (rev ds) = lval ds"
  by (induction ds) simp_all

lemma lval_rev: "lval (rev ds) = dval ds"
  using dval_rev [of "rev ds"] by simp

lemma lval_bounds:
  assumes "digits_ok ds"
  shows "0 \<le> lval ds" and "lval ds < 10 ^ length ds"
  using assms by (induction ds) auto

lemma dval_bounds:
  assumes "digits_ok ds"
  shows "0 \<le> dval ds" and "dval ds < 10 ^ length ds"
  using lval_bounds [of "rev ds"] assms by (simp_all add: lval_rev)

lemma dval_eq_0_iff: "digits_ok ds \<Longrightarrow> dval ds = 0 \<longleftrightarrow> list_all (\<lambda>d. d = 0) ds"
proof (induction ds)
  case (Cons d ds)
  then have "0 \<le> dval ds" and "0 \<le> d * 10 ^ length ds" by (auto intro: dval_bounds)
  then have "dval (d # ds) = 0 \<longleftrightarrow> d * 10 ^ length ds = 0 \<and> dval ds = 0"
    unfolding dval_Cons by linarith
  with Cons show ?case by simp
qed simp

lemma dval_take_drop:
  assumes "k \<le> length ds"
  shows "dval ds = dval (take k ds) * 10 ^ (length ds - k) + dval (drop k ds)"
  using dval_append [of "take k ds" "drop k ds"] assms by simp

lemma dval_take:
  assumes "digits_ok ds" and "k \<le> length ds"
  shows "dval (take k ds) = dval ds div 10 ^ (length ds - k)"
proof -
  have "0 \<le> dval (drop k ds)" and "dval (drop k ds) < 10 ^ length (drop k ds)"
    by (rule dval_bounds, rule digits_ok_dropI, rule assms(1))+
  then show ?thesis
    using dval_take_drop [OF assms(2)] assms(2) by simp
qed

lemma dval_lead:
  assumes "digits_ok (d # ds)" and "d \<noteq> 0"
  shows "10 ^ length ds \<le> dval (d # ds)"
proof -
  from assms have "1 \<le> d" by simp
  then have "1 * 10 ^ length ds \<le> d * 10 ^ length ds" by (rule mult_right_mono) simp
  moreover have "0 \<le> dval ds" using assms by (intro dval_bounds) simp
  ultimately show ?thesis unfolding dval_Cons by linarith
qed

section \<open>Truncation and remainder\<close>

definition trunc_int :: "rat \<Rightarrow> int" where
  "trunc_int x = (if 0 \<le> x then \<lfloor>x\<rfloor> else - \<lfloor>- x\<rfloor>)"

definition trunc_to :: "nat \<Rightarrow> rat \<Rightarrow> rat" where
  "trunc_to s x = of_int (trunc_int (x * 10 ^ s)) / 10 ^ s"

definition trem :: "int \<Rightarrow> int \<Rightarrow> int" where
  "trem a m = sgn a * (\<bar>a\<bar> mod \<bar>m\<bar>)"

lemma trunc_int_of_int [simp]: "trunc_int (of_int k) = k"
  by (simp add: trunc_int_def)

lemma trunc_int_frac:
  assumes "0 \<le> a" and "0 < b"
  shows "trunc_int (of_int a / of_int b) = a div b"
  using assms by (simp add: trunc_int_def floor_divide_of_int_eq)

lemma trunc_int_minus: "trunc_int (- x) = - trunc_int x"
  by (cases "x = 0") (auto simp: trunc_int_def)

lemma trunc_int_sgn:
  assumes "s = 1 \<or> s = -1" and "0 \<le> a" and "0 < b"
  shows "trunc_int (of_int (s * a) / of_int b) = s * (a div b)"
  using assms trunc_int_frac [OF assms(2,3)] trunc_int_minus [of "of_int a / of_int b"] by auto

end
