(* ===== verification/BC_Num.thy ===== *)
theory BC_Num
  imports Prelude
begin

text \<open>
  The number type of \<open>ext/bcmath/libbcmath\<close> and its elementary routines: \<open>bcmath.h\<close>,
  \<open>init.c\<close>, \<open>rmzero.c\<close>, \<open>zero.c\<close>, \<open>nearzero.c\<close>, \<open>neg.c\<close>, \<open>int2num.c\<close> and
  \<open>num2long.c\<close>.
\<close>

section \<open>The number record\<close>

text \<open>
  \<open>bc_struct\<close> without its storage fields (\<open>n_refs\<close>, \<open>n_ptr\<close>): a number is never written
  after a second reference to it exists, so sharing is not observable. \<open>n_value\<close> may be longer
  than \<open>n_len + n_scale\<close>: several routines lower \<open>n_scale\<close> and leave the buffer as it is.
\<close>

datatype sign = PLUS | MINUS

record bc_num =
  n_sign :: sign
  n_len :: nat
  n_scale :: nat
  n_value :: digits

abbreviation BASE :: int where "BASE \<equiv> 10"

definition bc_new_num :: "nat \<Rightarrow> nat \<Rightarrow> bc_num" where
  "bc_new_num len scale =
     \<lparr>n_sign = PLUS, n_len = len, n_scale = scale, n_value = replicate (len + scale) 0\<rparr>"

text \<open>The three constants of \<open>bc_init_numbers\<close>.\<close>

definition bc_zero :: bc_num where
  "bc_zero = bc_new_num 1 0"

definition bc_one :: bc_num where
  "bc_one = (bc_new_num 1 0)\<lparr>n_value := [1]\<rparr>"

definition bc_two :: bc_num where
  "bc_two = (bc_new_num 1 0)\<lparr>n_value := [2]\<rparr>"

text \<open>The digits a routine may read, and the number they denote.\<close>

definition bc_digits :: "bc_num \<Rightarrow> digits" where
  "bc_digits n = take (n_len n + n_scale n) (n_value n)"

definition sign_int :: "sign \<Rightarrow> int" where
  "sign_int s = (case s of PLUS \<Rightarrow> 1 | MINUS \<Rightarrow> -1)"

definition bc_mag :: "bc_num \<Rightarrow> int" where
  "bc_mag n = dval (bc_digits n)"

definition bc_int :: "bc_num \<Rightarrow> int" where
  "bc_int n = sign_int (n_sign n) * bc_mag n"

definition bc_val :: "bc_num \<Rightarrow> rat" where
  "bc_val n = of_int (bc_int n) / 10 ^ n_scale n"

section \<open>Elementary routines\<close>

text \<open>\<open>while (*num->n_value == 0 && num->n_len > 1) { num->n_value++; num->n_len--; }\<close>\<close>

primrec rm_leading :: "digits \<Rightarrow> nat \<Rightarrow> nat \<times> digits" where
  "rm_leading [] len = (len, [])"
| "rm_leading (d # ds) len = (if d = 0 \<and> len > 1 then rm_leading ds (len - 1) else (len, d # ds))"

definition bc_rm_leading_zeros :: "bc_num \<Rightarrow> bc_num" where
  "bc_rm_leading_zeros num =
     (let (len, value) = rm_leading (n_value num) (n_len num)
      in num\<lparr>n_len := len, n_value := value\<rparr>)"

text \<open>\<open>while ((count > 0) && (*nptr++ == 0)) count--;\<close>: what is left of \<open>count\<close>, and the
  digits from the first non-zero one on.\<close>

primrec skip_zeros :: "nat \<Rightarrow> digits \<Rightarrow> nat \<times> digits" where
  "skip_zeros 0 ds = (0, ds)"
| "skip_zeros (Suc count) ds =
     (case ds of [] \<Rightarrow> (Suc count, [])
      | d # ds' \<Rightarrow> if d = 0 then skip_zeros count ds' else (Suc count, ds))"

definition bc_is_zero_for_scale :: "bc_num \<Rightarrow> nat \<Rightarrow> bool" where
  "bc_is_zero_for_scale num scale =
     (num = bc_zero \<or> fst (skip_zeros (n_len num + scale) (n_value num)) = 0)"

definition bc_is_zero :: "bc_num \<Rightarrow> bool" where
  "bc_is_zero num = bc_is_zero_for_scale num (n_scale num)"

definition bc_is_near_zero :: "bc_num \<Rightarrow> nat \<Rightarrow> bool" where
  "bc_is_near_zero num scale =
     (let scale = (if scale > n_scale num then n_scale num else scale);
          (count, ds) = skip_zeros (n_len num + scale) (n_value num)
      in \<not> (count \<noteq> 0 \<and> (count \<noteq> 1 \<or> hd ds \<noteq> 1)))"

definition bc_is_neg :: "bc_num \<Rightarrow> bool" where
  "bc_is_neg num = (n_sign num = MINUS)"

text \<open>\<open>bc_int2num\<close>: the digit loop fills \<open>buffer\<close> least significant digit first.\<close>

function int2num_digits :: "int \<Rightarrow> digits" where
  "int2num_digits val = (if val \<le> 0 then [] else val mod BASE # int2num_digits (val div BASE))"
  by pat_completeness auto
termination
  by (relation "measure nat") auto

definition bc_int2num :: "int \<Rightarrow> bc_num" where
  "bc_int2num val =
     (let neg = val < 0; val = (if neg then - val else val);
          buffer = val mod BASE # int2num_digits (val div BASE);
          num = bc_new_num (length buffer) 0
      in num\<lparr>n_sign := (if neg then MINUS else PLUS), n_value := rev buffer\<rparr>)"

text \<open>\<open>bc_num2long\<close> on a 64-bit \<open>long\<close>.\<close>

abbreviation LONG_MAX :: int where "LONG_MAX \<equiv> 0x7fffffffffffffff"

primrec num2long_loop :: "digits \<Rightarrow> int \<Rightarrow> int option" where
  "num2long_loop [] val = Some val"
| "num2long_loop (n # ds) val =
     (if val > LONG_MAX div BASE then None
      else let val = val * BASE
           in if val > LONG_MAX - n then None else num2long_loop ds (val + n))"

definition bc_num2long :: "bc_num \<Rightarrow> int" where
  "bc_num2long num =
     (case num2long_loop (take (n_len num) (n_value num)) 0 of
        None \<Rightarrow> 0
      | Some val \<Rightarrow> if n_sign num = PLUS then val else - val)"

section \<open>Well-formed numbers\<close>

text \<open>
  \<open>bc_ok\<close>: the buffer holds at least the digits the lengths announce, all of them decimal, and
  a number of more than one integer digit has no leading zero, and one of no integer digit (the
  empty upper half of a split operand in the multiplication) has no fraction either. \<open>bc_wf\<close>, the
  invariant every public operation establishes, adds an integer digit and that zero is not negative.
\<close>

definition bc_ok :: "bc_num \<Rightarrow> bool" where
  "bc_ok n = (n_len n + n_scale n \<le> length (n_value n) \<and> digits_ok (n_value n) \<and>
     (1 < n_len n \<longrightarrow> hd (n_value n) \<noteq> 0) \<and> (n_len n = 0 \<longrightarrow> n_scale n = 0))"

definition bc_wf :: "bc_num \<Rightarrow> bool" where
  "bc_wf n = (bc_ok n \<and> 1 \<le> n_len n \<and> (bc_mag n = 0 \<longrightarrow> n_sign n = PLUS))"

lemma bc_wf_ok [wf_intros]: "bc_wf n \<Longrightarrow> bc_ok n"
  by (simp add: bc_wf_def)

lemma bc_digits_ok [simp, intro]: "bc_ok n \<Longrightarrow> digits_ok (bc_digits n)"
  by (auto simp: bc_ok_def bc_digits_def)

lemma length_bc_digits [simp]: "bc_ok n \<Longrightarrow> length (bc_digits n) = n_len n + n_scale n"
  by (simp add: bc_ok_def bc_digits_def)

lemma bc_mag_bounds:
  assumes "bc_ok n"
  shows "0 \<le> bc_mag n" and "bc_mag n < 10 ^ (n_len n + n_scale n)"
  using dval_bounds [of "bc_digits n"] assms by (simp_all add: bc_mag_def)

lemma sign_int_simps [simp]:
  "sign_int PLUS = 1" "sign_int MINUS = -1"
  by (simp_all add: sign_int_def)

lemma sign_int_cases: "sign_int s = 1 \<or> sign_int s = -1"
  by (cases s) simp_all

lemma bc_int_eq_0_iff [simp]: "bc_int n = 0 \<longleftrightarrow> bc_mag n = 0"
  using sign_int_cases [of "n_sign n"] by (auto simp: bc_int_def)

lemma bc_val_eq_0_iff [simp]: "bc_val n = 0 \<longleftrightarrow> bc_mag n = 0"
  by (simp add: bc_val_def)

lemma abs_bc_int: "bc_ok n \<Longrightarrow> \<bar>bc_int n\<bar> = bc_mag n"
  using sign_int_cases [of "n_sign n"] bc_mag_bounds(1) [of n] by (auto simp: bc_int_def)

text \<open>A leading digit that is not zero bounds the magnitude from below.\<close>

lemma bc_mag_lower:
  assumes "bc_ok n" and "1 < n_len n"
  shows "10 ^ (n_len n - 1 + n_scale n) \<le> bc_mag n"
proof -
  from assms obtain d ds where v: "n_value n = d # ds" and "d \<noteq> 0"
    by (cases "n_value n") (auto simp: bc_ok_def)
  from assms have "digits_ok (take (n_len n + n_scale n) (d # ds))"
    by (auto simp: bc_ok_def v)
  moreover have "take (n_len n + n_scale n) (d # ds) = d # take (n_len n - 1 + n_scale n) ds"
    using assms(2) by (cases "n_len n") auto
  moreover have "length (take (n_len n - 1 + n_scale n) ds) = n_len n - 1 + n_scale n"
    using assms by (auto simp: bc_ok_def v)
  ultimately show ?thesis
    using dval_lead [of d "take (n_len n - 1 + n_scale n) ds"] \<open>d \<noteq> 0\<close>
    by (simp add: bc_mag_def bc_digits_def v)
qed

subsection \<open>Constants\<close>

lemma bc_new_num_fields [simp]:
  "n_sign (bc_new_num l s) = PLUS" "n_len (bc_new_num l s) = l"
  "n_scale (bc_new_num l s) = s" "n_value (bc_new_num l s) = replicate (l + s) 0"
  by (simp_all add: bc_new_num_def)

lemma bc_new_num_mag [simp]: "bc_mag (bc_new_num l s) = 0"
  by (simp add: bc_mag_def bc_digits_def)

lemma bc_new_num_val [val_simps]: "bc_val (bc_new_num l s) = 0"
  by simp

lemma bc_new_num_wf [wf_intros]: "bc_wf (bc_new_num 1 s)"
  by (simp add: bc_wf_def bc_ok_def)

lemma bc_const_val [val_simps]: "bc_val bc_zero = 0" "bc_val bc_one = 1" "bc_val bc_two = 2"
  by (simp_all add: bc_zero_def bc_one_def bc_two_def bc_val_def bc_int_def bc_mag_def
      bc_digits_def)

lemma bc_const_mag [simp]: "bc_mag bc_zero = 0" "bc_mag bc_one = 1" "bc_mag bc_two = 2"
  by (simp_all add: bc_zero_def bc_one_def bc_two_def bc_mag_def bc_digits_def)

lemma bc_const_fields [simp]:
  "n_scale bc_zero = 0" "n_scale bc_one = 0" "n_scale bc_two = 0"
  "n_sign bc_zero = PLUS" "n_sign bc_one = PLUS" "n_sign bc_two = PLUS"
  "n_len bc_zero = 1" "n_len bc_one = 1" "n_len bc_two = 1"
  by (simp_all add: bc_zero_def bc_one_def bc_two_def)

lemma bc_const_wf [wf_intros]: "bc_wf bc_zero" "bc_wf bc_one" "bc_wf bc_two"
  by (simp_all add: bc_zero_def bc_one_def bc_two_def bc_wf_def bc_ok_def bc_mag_def bc_digits_def)

subsection \<open>Removing leading zeros\<close>

text \<open>The loop drops \<open>k\<close> zeros from the buffer and shortens the length by \<open>k\<close>.\<close>

lemma rm_leading_drop:
  assumes "len \<le> length ds" and "rm_leading ds len = (len', ds')"
  obtains k where "len' = len - k" and "ds = replicate k 0 @ ds'"
    and "k < len \<or> k = 0" and "1 < len' \<longrightarrow> hd ds' \<noteq> 0"
  using assms
proof (induction ds arbitrary: len thesis)
  case Nil
  then show ?case by (metis Nil.prems add.left_neutral append_Nil diff_zero list.size(3)
        not_one_less_zero le_zero_eq prod.inject replicate_0 rm_leading.simps(1))
next
  case (Cons d ds)
  show ?case
  proof (cases "d = 0 \<and> len > 1")
    case True
    with Cons.prems have "len - 1 \<le> length ds" and "rm_leading ds (len - 1) = (len', ds')"
      by auto
    then obtain k where "len' = len - 1 - k" "ds = replicate k 0 @ ds'"
      "k < len - 1 \<or> k = 0" "1 < len' \<longrightarrow> hd ds' \<noteq> 0"
      using Cons.IH by blast
    with True show ?thesis by (intro Cons.prems(1) [of "Suc k"]) auto
  next
    case False
    with Cons.prems show ?thesis by (intro Cons.prems(1) [of 0]) auto
  qed
qed

lemma bc_rm_leading_zeros_props:
  assumes "n_len n + n_scale n \<le> length (n_value n)" and "digits_ok (n_value n)"
    and "n_len n = 0 \<Longrightarrow> n_scale n = 0"
  shows "bc_ok (bc_rm_leading_zeros n)"
    and "bc_mag (bc_rm_leading_zeros n) = bc_mag n"
    and "n_scale (bc_rm_leading_zeros n) = n_scale n"
    and "n_sign (bc_rm_leading_zeros n) = n_sign n"
    and "n_len (bc_rm_leading_zeros n) \<le> n_len n"
    and "1 \<le> n_len n \<Longrightarrow> 1 \<le> n_len (bc_rm_leading_zeros n)"
proof -
  obtain len ds where r: "rm_leading (n_value n) (n_len n) = (len, ds)"
    by (cases "rm_leading (n_value n) (n_len n)") auto
  from assms(1) have "n_len n \<le> length (n_value n)" by simp
  from this r obtain k where k: "len = n_len n - k" "n_value n = replicate k 0 @ ds"
    "k < n_len n \<or> k = 0" "1 < len \<longrightarrow> hd ds \<noteq> 0"
    by (rule rm_leading_drop)
  have e: "bc_rm_leading_zeros n = n\<lparr>n_len := len, n_value := ds\<rparr>"
    by (simp add: bc_rm_leading_zeros_def r)
  show "bc_ok (bc_rm_leading_zeros n)"
    using assms k by (auto simp: e bc_ok_def)
  show "bc_mag (bc_rm_leading_zeros n) = bc_mag n"
    using k by (auto simp: e bc_mag_def bc_digits_def)
  show "n_scale (bc_rm_leading_zeros n) = n_scale n" "n_sign (bc_rm_leading_zeros n) = n_sign n"
    "n_len (bc_rm_leading_zeros n) \<le> n_len n"
    "1 \<le> n_len n \<Longrightarrow> 1 \<le> n_len (bc_rm_leading_zeros n)"
    using k by (auto simp: e)
qed

subsection \<open>Zero tests\<close>

lemma skip_zeros_all:
  assumes "count \<le> length ds"
  shows "fst (skip_zeros count ds) = 0 \<longleftrightarrow> list_all (\<lambda>d. d = 0) (take count ds)"
  using assms by (induction count arbitrary: ds) (auto split: list.splits)

lemma bc_is_zero_for_scale_iff:
  assumes "bc_ok n" and "s \<le> n_scale n"
  shows "bc_is_zero_for_scale n s \<longleftrightarrow> dval (take (n_len n + s) (n_value n)) = 0"
proof -
  have "digits_ok (take (n_len n + s) (n_value n))" using assms by (auto simp: bc_ok_def)
  moreover have "n_len n + s \<le> length (n_value n)" using assms by (simp add: bc_ok_def)
  moreover have "n = bc_zero \<Longrightarrow> list_all (\<lambda>d. d = 0) (take (n_len n + s) (n_value n))"
    using assms by (simp add: bc_zero_def)
  ultimately show ?thesis
    by (auto simp: bc_is_zero_for_scale_def skip_zeros_all dval_eq_0_iff)
qed

lemma bc_is_zero_iff [simp]: "bc_ok n \<Longrightarrow> bc_is_zero n \<longleftrightarrow> bc_mag n = 0"
  by (simp add: bc_is_zero_def bc_is_zero_for_scale_iff bc_mag_def bc_digits_def)

subsection \<open>Conversions to and from machine integers\<close>

declare int2num_digits.simps [simp del]

lemma int2num_digits_0 [simp]: "val \<le> 0 \<Longrightarrow> int2num_digits val = []"
  by (simp add: int2num_digits.simps)

lemma int2num_digits_props:
  assumes "0 \<le> val"
  shows "digits_ok (int2num_digits val) \<and> lval (int2num_digits val) = val \<and>
    (0 < val \<longrightarrow> int2num_digits val \<noteq> [] \<and> last (int2num_digits val) \<noteq> 0)"
  using assms
proof (induction val rule: int2num_digits.induct)
  case (1 val)
  show ?case
  proof (cases "val = 0")
    case False
    then have pos: "0 < val" using "1.prems" by simp
    then have "0 \<le> val div 10" by (simp only: pos_imp_zdiv_nonneg_iff zero_less_numeral)
    with "1.IH" pos have IH: "digits_ok (int2num_digits (val div 10))"
      "lval (int2num_digits (val div 10)) = val div 10"
      "0 < val div 10 \<longrightarrow> int2num_digits (val div 10) \<noteq> [] \<and> last (int2num_digits (val div 10)) \<noteq> 0"
      by auto
    have e: "int2num_digits val = val mod 10 # int2num_digits (val div 10)"
      using pos by (simp add: int2num_digits.simps [of val])
    have "val mod 10 \<noteq> 0" if "\<not> 0 < val div 10" using that pos by presburger
    moreover have "int2num_digits (val div 10) = []" if "\<not> 0 < val div 10" using that by simp
    moreover have "val mod 10 \<le> 9" using pos_mod_bound [of 10 val] by linarith
    ultimately show ?thesis using IH unfolding e by auto
  qed simp
qed

lemma bc_int2num_val:
  shows "bc_val (bc_int2num val) = of_int val" and "bc_wf (bc_int2num val)"
    and "n_scale (bc_int2num val) = 0"
proof -
  define a ds where "a = \<bar>val\<bar>" and "ds = int2num_digits (a div 10)"
  have "0 \<le> a div 10" by (simp add: a_def)
  note p = int2num_digits_props [OF this, folded ds_def]
  have e: "bc_int2num val = \<lparr>n_sign = (if val < 0 then MINUS else PLUS), n_len = Suc (length ds),
      n_scale = 0, n_value = rev ds @ [a mod 10]\<rparr>"
    by (simp add: bc_int2num_def bc_new_num_def Let_def ds_def a_def abs_if)
  have m: "bc_mag (bc_int2num val) = a" using p by (simp add: e bc_mag_def bc_digits_def dval_rev)
  have "a mod 10 \<le> 9" using pos_mod_bound [of 10 a] by linarith
  moreover have "hd (rev ds) \<noteq> 0" if "ds \<noteq> []"
  proof -
    have "0 < a div 10" using that \<open>0 \<le> a div 10\<close> by (cases "a div 10 = 0") (auto simp: ds_def)
    then show ?thesis using p that by (simp add: hd_rev)
  qed
  ultimately show "bc_wf (bc_int2num val)"
    using p m by (auto simp: bc_wf_def bc_ok_def e a_def hd_append)
  show "bc_val (bc_int2num val) = of_int val"
    using m by (simp add: bc_val_def bc_int_def) (simp add: e a_def)
  show "n_scale (bc_int2num val) = 0" by (simp add: e)
qed

lemma num2long_loop_eq:
  assumes "digits_ok ds" and "0 \<le> val" and "val \<le> LONG_MAX"
  shows "num2long_loop ds val =
    (if val * 10 ^ length ds + dval ds \<le> LONG_MAX then Some (val * 10 ^ length ds + dval ds) else None)"
  using assms
proof (induction ds arbitrary: val)
  case (Cons n ds)
  let ?t = "val * 10 ^ length (n # ds) + dval (n # ds)"
  have t: "?t = (val * 10 + n) * 10 ^ length ds + dval ds" by (simp add: algebra_simps)
  have d: "0 \<le> n" "n \<le> 9" "digits_ok ds" using Cons.prems by auto
  have "0 \<le> val * 10 + n" using Cons.prems d by simp
  then have ge: "val * 10 + n \<le> ?t" unfolding t
    using mult_left_mono [of 1 "10 ^ length ds" "val * 10 + n"] dval_bounds(1) [OF d(3)]
    by (intro add_increasing2) auto
  show ?case
  proof (cases "val > LONG_MAX div 10 \<or> val * 10 > LONG_MAX - n")
    case True
    then have "num2long_loop (n # ds) val = None" by (auto simp: Let_def)
    moreover have "LONG_MAX < val * 10 + n" using True d by auto
    then have "\<not> ?t \<le> LONG_MAX" using ge by linarith
    ultimately show ?thesis by (simp only: if_False)
  next
    case False
    then have "num2long_loop (n # ds) val = num2long_loop ds (val * 10 + n)" by (auto simp: Let_def)
    moreover have "0 \<le> val * 10 + n" "val * 10 + n \<le> LONG_MAX" using False Cons.prems d by auto
    ultimately show ?thesis using Cons.IH [OF d(3)] t by presburger
  qed
qed simp

text \<open>The integer part, or 0 when it does not fit.\<close>

lemma bc_num2long_eq:
  assumes "bc_ok n"
  shows "bc_num2long n =
    (let v = bc_mag n div 10 ^ n_scale n
     in if v \<le> LONG_MAX then sign_int (n_sign n) * v else 0)"
proof -
  have "digits_ok (take (n_len n) (n_value n))" using assms by (auto simp: bc_ok_def)
  moreover have "take (n_len n) (n_value n) = take (n_len n) (bc_digits n)"
    by (simp add: bc_digits_def min_def)
  then have "dval (take (n_len n) (n_value n)) = bc_mag n div 10 ^ n_scale n"
    using dval_take [of "bc_digits n" "n_len n"] assms by (simp add: bc_mag_def)
  ultimately show ?thesis
    using num2long_loop_eq [of "take (n_len n) (n_value n)" 0]
    by (cases "n_sign n") (simp_all add: bc_num2long_def Let_def)
qed

end
