(* ===== verification/BC_AddSub.thy ===== *)
theory BC_AddSub
  imports BC_Num
begin

text \<open>
  Comparison, addition and subtraction of bcmath numbers: \<open>compare.c\<close>, \<open>doaddsub.c\<close>,
  \<open>add.c\<close> and \<open>sub.c\<close>. The loops that walk \<open>n1ptr\<close> and \<open>n2ptr\<close> downwards are recursions over
  the reversed digits; comparison walks upwards.
\<close>

section \<open>Comparison\<close>

text \<open>What every arm of \<open>_bc_do_compare\<close> does once the magnitudes are ordered.\<close>

definition cmp_greater :: "bool \<Rightarrow> bc_num \<Rightarrow> int" where
  "cmp_greater use_sign n1 = (if \<not> use_sign \<or> n_sign n1 = PLUS then 1 else -1)"

definition cmp_less :: "bool \<Rightarrow> bc_num \<Rightarrow> int" where
  "cmp_less use_sign n1 = (if \<not> use_sign \<or> n_sign n1 = PLUS then -1 else 1)"

text \<open>\<open>while ((count > 0) && (*n1ptr == *n2ptr)) { n1ptr++; n2ptr++; count--; }\<close>\<close>

primrec cmp_equal_part :: "nat \<Rightarrow> digits \<Rightarrow> digits \<Rightarrow> nat \<times> digits \<times> digits" where
  "cmp_equal_part 0 xs ys = (0, xs, ys)"
| "cmp_equal_part (Suc count) xs ys =
     (if xs \<noteq> [] \<and> ys \<noteq> [] \<and> hd xs = hd ys then cmp_equal_part count (tl xs) (tl ys)
      else (Suc count, xs, ys))"

definition bc_do_compare :: "bc_num \<Rightarrow> bc_num \<Rightarrow> bool \<Rightarrow> bool \<Rightarrow> int" where
  "bc_do_compare n1 n2 use_sign ignore_last =
     (if use_sign \<and> n_sign n1 \<noteq> n_sign n2 then
        (if n_sign n1 = PLUS then 1 else -1)
      else if n_len n1 \<noteq> n_len n2 then
        (if n_len n1 > n_len n2 then cmp_greater use_sign n1 else cmp_less use_sign n1)
      else
        let (count, n1ptr, n2ptr) =
              cmp_equal_part (n_len n1 + min (n_scale n1) (n_scale n2)) (n_value n1) (n_value n2)
        in if ignore_last \<and> count = 1 \<and> n_scale n1 = n_scale n2 then 0
           else if count \<noteq> 0 then
             (if hd n1ptr > hd n2ptr then cmp_greater use_sign n1 else cmp_less use_sign n1)
           else if n_scale n1 \<noteq> n_scale n2 then
             (if n_scale n1 > n_scale n2 then
                (if \<not> list_all (\<lambda>d. d = 0) (take (n_scale n1 - n_scale n2) n1ptr)
                 then cmp_greater use_sign n1 else 0)
              else
                (if \<not> list_all (\<lambda>d. d = 0) (take (n_scale n2 - n_scale n1) n2ptr)
                 then cmp_less use_sign n1 else 0))
           else 0)"

definition bc_compare :: "bc_num \<Rightarrow> bc_num \<Rightarrow> int" where
  "bc_compare n1 n2 = bc_do_compare n1 n2 True False"

section \<open>Magnitude addition\<close>

text \<open>The carry loop over the longer integer part, and the final carry into the leading digit
  that \<open>bc_new_num\<close> zeroed.\<close>

primrec add_carry :: "digits \<Rightarrow> int \<Rightarrow> digits" where
  "add_carry [] carry = [if carry = 1 then 0 + 1 else 0]"
| "add_carry (a # xs) carry =
     (let s = a + carry
      in if s > BASE - 1 then (s - BASE) # add_carry xs 1 else s # add_carry xs 0)"

text \<open>\<open>while ((n1bytes > 0) && (n2bytes > 0))\<close>, then the carry loop on what is left.\<close>

fun add_both :: "digits \<Rightarrow> digits \<Rightarrow> int \<Rightarrow> digits" where
  "add_both (a # xs) (b # ys) carry =
     (let s = a + b + carry
      in if s > BASE - 1 then (s - BASE) # add_both xs ys 1 else s # add_both xs ys 0)"
| "add_both [] ys carry = add_carry ys carry"
| "add_both xs [] carry = add_carry xs carry"

definition bc_do_add :: "bc_num \<Rightarrow> bc_num \<Rightarrow> nat \<Rightarrow> bc_num" where
  "bc_do_add n1 n2 scale_min =
     (let sum_scale = max (n_scale n1) (n_scale n2);
          sum_digits = max (n_len n1) (n_len n2) + 1;
          sum = bc_new_num sum_digits (max sum_scale scale_min);
          n1rev = rev (bc_digits n1);
          n2rev = rev (bc_digits n2);
          body =
            (if n_scale n1 > n_scale n2 then
               let k = n_scale n1 - n_scale n2
               in take k n1rev @ add_both (drop k n1rev) n2rev 0
             else
               let k = n_scale n2 - n_scale n1
               in take k n2rev @ add_both n1rev (drop k n2rev) 0)
      in bc_rm_leading_zeros
           (sum\<lparr>n_value := rev body @ replicate (scale_min - sum_scale) 0\<rparr>))"

section \<open>Magnitude subtraction\<close>

text \<open>The subtrahend has the longer fraction: \<open>val = - *n2ptr-- - borrow\<close>.\<close>

primrec sub_frac :: "digits \<Rightarrow> int \<Rightarrow> digits \<times> int" where
  "sub_frac [] borrow = ([], borrow)"
| "sub_frac (b # ys) borrow =
     (let val = - b - borrow;
          (val, borrow) = (if val < 0 then (val + BASE, 1) else (val, 0));
          (ds, borrow) = sub_frac ys borrow
      in (val # ds, borrow))"

text \<open>The digits that remain of the minuend alone.\<close>

primrec sub_rest :: "digits \<Rightarrow> int \<Rightarrow> digits" where
  "sub_rest [] borrow = []"
| "sub_rest (a # xs) borrow =
     (let val = a - borrow
      in if val < 0 then (val + BASE) # sub_rest xs 1 else val # sub_rest xs 0)"

text \<open>The equal length part, and then the rest of the minuend. The subtrahend is never the longer
  one here: the routine assumes that \<open>N1\<close> is the larger number.\<close>

fun sub_both :: "digits \<Rightarrow> digits \<Rightarrow> int \<Rightarrow> digits" where
  "sub_both (a # xs) (b # ys) borrow =
     (let val = a - b - borrow
      in if val < 0 then (val + BASE) # sub_both xs ys 1 else val # sub_both xs ys 0)"
| "sub_both xs [] borrow = sub_rest xs borrow"
| "sub_both [] ys borrow = []"

definition bc_do_sub :: "bc_num \<Rightarrow> bc_num \<Rightarrow> nat \<Rightarrow> bc_num" where
  "bc_do_sub n1 n2 scale_min =
     (let diff_len = max (n_len n1) (n_len n2);
          diff_scale = max (n_scale n1) (n_scale n2);
          min_scale = min (n_scale n1) (n_scale n2);
          diff = bc_new_num diff_len (max diff_scale scale_min);
          n1rev = rev (bc_digits n1);
          n2rev = rev (bc_digits n2);
          body =
            (if n_scale n1 \<noteq> min_scale then
               let k = n_scale n1 - min_scale
               in take k n1rev @ sub_both (drop k n1rev) n2rev 0
             else
               let k = n_scale n2 - min_scale;
                   (ds, borrow) = sub_frac (take k n2rev) 0
               in ds @ sub_both n1rev (drop k n2rev) borrow)
      in bc_rm_leading_zeros
           (diff\<lparr>n_value := rev body @ replicate (scale_min - diff_scale) 0\<rparr>))"

section \<open>Signed addition and subtraction\<close>

definition bc_add :: "bc_num \<Rightarrow> bc_num \<Rightarrow> nat \<Rightarrow> bc_num" where
  "bc_add n1 n2 scale_min =
     (if n_sign n1 = n_sign n2 then
        (bc_do_add n1 n2 scale_min)\<lparr>n_sign := n_sign n1\<rparr>
      else
        let cmp_res = bc_do_compare n1 n2 False False
        in if cmp_res = -1 then (bc_do_sub n2 n1 scale_min)\<lparr>n_sign := n_sign n2\<rparr>
           else if cmp_res = 0 then
             bc_new_num 1 (max scale_min (max (n_scale n1) (n_scale n2)))
           else (bc_do_sub n1 n2 scale_min)\<lparr>n_sign := n_sign n1\<rparr>)"

definition bc_sub :: "bc_num \<Rightarrow> bc_num \<Rightarrow> nat \<Rightarrow> bc_num" where
  "bc_sub n1 n2 scale_min =
     (if n_sign n1 \<noteq> n_sign n2 then
        (bc_do_add n1 n2 scale_min)\<lparr>n_sign := n_sign n1\<rparr>
      else
        let cmp_res = bc_do_compare n1 n2 False False
        in if cmp_res = -1 then
             (bc_do_sub n2 n1 scale_min)\<lparr>n_sign := (if n_sign n2 = PLUS then MINUS else PLUS)\<rparr>
           else if cmp_res = 0 then
             bc_new_num 1 (max scale_min (max (n_scale n1) (n_scale n2)))
           else (bc_do_sub n1 n2 scale_min)\<lparr>n_sign := n_sign n1\<rparr>)"

section \<open>Magnitudes at a common scale\<close>

definition bc_at :: "nat \<Rightarrow> bc_num \<Rightarrow> int" where
  "bc_at s n = bc_mag n * 10 ^ (s - n_scale n)"

lemma bc_at_nonneg [simp]: "bc_ok n \<Longrightarrow> 0 \<le> bc_at s n"
  by (simp add: bc_at_def bc_mag_bounds)

lemma bc_at_upper: "bc_ok n \<Longrightarrow> n_scale n \<le> s \<Longrightarrow> bc_at s n < 10 ^ (n_len n + s)"
  using mult_strict_right_mono [OF bc_mag_bounds(2), of n "10 ^ (s - n_scale n)"]
  by (simp add: bc_at_def flip: power_add)

lemma bc_at_lower:
  assumes "bc_ok n" and "n_scale n \<le> s" and "1 < n_len n"
  shows "10 ^ (n_len n - 1 + s) \<le> bc_at s n"
  using mult_right_mono [OF bc_mag_lower [OF assms(1,3)], of "10 ^ (s - n_scale n)"] assms(2)
  by (simp add: bc_at_def flip: power_add)

lemma bc_at_digits:
  assumes "n_scale n \<le> s"
  shows "bc_at s n = dval (bc_digits n @ replicate (s - n_scale n) 0)"
  by (simp add: bc_at_def bc_mag_def)

lemma bc_val_at: "n_scale n \<le> s \<Longrightarrow> bc_val n = of_int (sign_int (n_sign n) * bc_at s n) / 10 ^ s"
proof -
  assume "n_scale n \<le> s"
  then have "(10::rat) ^ s = 10 ^ n_scale n * 10 ^ (s - n_scale n)"
    by (simp flip: power_add)
  then show ?thesis by (simp add: bc_val_def bc_int_def bc_at_def)
qed

lemma bc_at_shift:
  assumes "n_scale n \<le> s" and "s \<le> t"
  shows "bc_at s n * 10 ^ (t - s) = bc_at t n"
  using assms by (simp add: bc_at_def mult.assoc flip: power_add)

lemma bc_at_extend:
  assumes "n_scale n \<le> r"
  shows "bc_at r n * 10 ^ (m - r) = bc_at (max r m) n"
  using bc_at_shift [OF assms, of "max r m"] by (cases "m \<le> r") (simp_all add: max_absorb1 max_absorb2)

lemma lval_take_drop: "k \<le> length xs \<Longrightarrow> lval xs = lval (take k xs) + 10 ^ k * lval (drop k xs)"
  using lval_append [of "take k xs" "drop k xs"] by simp

section \<open>Correctness of addition\<close>

lemma add_carry_props:
  assumes "digits_ok xs" and "c = 0 \<or> c = 1"
  shows "lval (add_carry xs c) = lval xs + c" and "digits_ok (add_carry xs c)"
    and "length (add_carry xs c) = Suc (length xs)"
  using assms by (induction xs arbitrary: c) (auto simp: Let_def)

lemma add_both_props:
  assumes "digits_ok xs" and "digits_ok ys" and "c = 0 \<or> c = 1"
  shows "lval (add_both xs ys c) = lval xs + lval ys + c" and "digits_ok (add_both xs ys c)"
    and "length (add_both xs ys c) = Suc (max (length xs) (length ys))"
  using assms
  by (induction xs ys c rule: add_both.induct)
    (auto simp: Let_def add_carry_props algebra_simps)

lemma bc_do_add_props:
  assumes "bc_ok n1" and "bc_ok n2" and "s = max (max (n_scale n1) (n_scale n2)) m"
  shows "bc_ok (bc_do_add n1 n2 m)" and "1 \<le> n_len (bc_do_add n1 n2 m)"
    and "n_scale (bc_do_add n1 n2 m) = s"
    and "bc_mag (bc_do_add n1 n2 m) = bc_at s n1 + bc_at s n2"
    and "n_len (bc_do_add n1 n2 m) \<le> Suc (max (n_len n1) (n_len n2))"
proof -
  let ?s = "max (n_scale n1) (n_scale n2)"
  let ?l = "max (n_len n1) (n_len n2) + 1"
  let ?r1 = "rev (bc_digits n1)" and ?r2 = "rev (bc_digits n2)"
  define body where "body =
    (if n_scale n1 > n_scale n2 then
       take (n_scale n1 - n_scale n2) ?r1 @ add_both (drop (n_scale n1 - n_scale n2) ?r1) ?r2 0
     else
       take (n_scale n2 - n_scale n1) ?r2 @ add_both ?r1 (drop (n_scale n2 - n_scale n1) ?r2) 0)"
  define sum where "sum = (bc_new_num ?l (max ?s m))\<lparr>n_value := rev body @ replicate (m - ?s) 0\<rparr>"
  have e: "bc_do_add n1 n2 m = bc_rm_leading_zeros sum"
    by (simp add: bc_do_add_def sum_def body_def Let_def)
  have ok: "digits_ok body" and len: "length body = ?l + ?s"
    using assms by (auto simp: body_def add_both_props digits_ok_takeI digits_ok_dropI)
  have val: "lval body = bc_at ?s n1 + bc_at ?s n2"
  proof (cases "n_scale n1 > n_scale n2")
    case True
    then show ?thesis
      using assms lval_take_drop [of "n_scale n1 - n_scale n2" ?r1]
      by (simp add: body_def add_both_props digits_ok_dropI bc_at_def bc_mag_def lval_rev
          algebra_simps)
  next
    case False
    then show ?thesis
      using assms lval_take_drop [of "n_scale n2 - n_scale n1" ?r2]
      by (simp add: body_def add_both_props digits_ok_dropI bc_at_def bc_mag_def lval_rev
          algebra_simps)
  qed
  have sm: "n_len sum + n_scale sum \<le> length (n_value sum)" "digits_ok (n_value sum)"
    "n_len sum = 0 \<Longrightarrow> n_scale sum = 0" "1 \<le> n_len sum"
    using ok len by (auto simp: sum_def)
  have "bc_digits sum = rev body @ replicate (m - ?s) 0"
    using len by (auto simp: sum_def bc_digits_def)
  then have "bc_mag sum = lval body * 10 ^ (m - ?s)"
    by (simp add: bc_mag_def dval_rev)
  also have "\<dots> = bc_at s n1 + bc_at s n2"
    by (simp only: val distrib_right bc_at_extend assms(3) max.cobounded1 max.cobounded2)
  finally have mag: "bc_mag sum = bc_at s n1 + bc_at s n2" .
  show "bc_ok (bc_do_add n1 n2 m)" "1 \<le> n_len (bc_do_add n1 n2 m)"
    "bc_mag (bc_do_add n1 n2 m) = bc_at s n1 + bc_at s n2"
    using bc_rm_leading_zeros_props [OF sm(1-3)] sm(4) by (simp_all only: e mag)
  show "n_scale (bc_do_add n1 n2 m) = s"
    using sm by (simp add: e bc_rm_leading_zeros_props) (simp add: sum_def assms(3))
  show "n_len (bc_do_add n1 n2 m) \<le> Suc (max (n_len n1) (n_len n2))"
    using bc_rm_leading_zeros_props(5) [OF sm(1-3)] by (simp add: e) (simp add: sum_def)
qed

section \<open>Correctness of subtraction\<close>

text \<open>Each loop computes its difference up to a borrow out of the top digit.\<close>

lemma sub_rest_props:
  assumes "digits_ok xs" and "c = 0 \<or> c = 1"
  shows "digits_ok (sub_rest xs c)" and "length (sub_rest xs c) = length xs"
    and "\<exists>b \<in> {0, 1}. lval (sub_rest xs c) = lval xs - c + 10 ^ length xs * b"
proof -
  show "digits_ok (sub_rest xs c)" "length (sub_rest xs c) = length xs"
    using assms by (induction xs arbitrary: c) (auto simp: Let_def)
  show "\<exists>b \<in> {0, 1}. lval (sub_rest xs c) = lval xs - c + 10 ^ length xs * b"
    using assms
  proof (induction xs arbitrary: c)
    case (Cons a xs)
    define c' where "c' = (if a - c < 0 then 1 else (0::int))"
    have "digits_ok xs" "c' = 0 \<or> c' = 1" using Cons.prems by (auto simp: c'_def)
    from Cons.IH [OF this] obtain b where "b \<in> {0, 1}"
      and "lval (sub_rest xs c') = lval xs - c' + 10 ^ length xs * b" by blast
    then show ?case
      by (intro bexI [of _ b]) (auto simp: Let_def c'_def algebra_simps split: if_splits)
  qed auto
qed

lemma sub_both_props:
  assumes "digits_ok xs" and "digits_ok ys" and "length ys \<le> length xs" and "c = 0 \<or> c = 1"
  shows "digits_ok (sub_both xs ys c)" and "length (sub_both xs ys c) = length xs"
    and "\<exists>b \<in> {0, 1}. lval (sub_both xs ys c) = lval xs - lval ys - c + 10 ^ length xs * b"
proof -
  show "digits_ok (sub_both xs ys c)" "length (sub_both xs ys c) = length xs"
    using assms by (induction xs ys c rule: sub_both.induct) (auto simp: Let_def sub_rest_props)
  show "\<exists>b \<in> {0, 1}. lval (sub_both xs ys c) = lval xs - lval ys - c + 10 ^ length xs * b"
    using assms
  proof (induction xs arbitrary: ys c)
    case (Cons a xs)
    show ?case
    proof (cases ys)
      case Nil
      then show ?thesis using sub_rest_props(3) [of "a # xs" c] Cons.prems by simp
    next
      case (Cons d zs)
      define c' where "c' = (if a - d - c < 0 then 1 else (0::int))"
      have "digits_ok xs" "digits_ok zs" "length zs \<le> length xs" "c' = 0 \<or> c' = 1"
        using Cons.prems Cons by (auto simp: c'_def)
      from Cons.IH [OF this] obtain b where "b \<in> {0, 1}"
        and "lval (sub_both xs zs c') = lval xs - lval zs - c' + 10 ^ length xs * b" by blast
      then show ?thesis
        by (intro bexI [of _ b]) (auto simp: Let_def c'_def Cons algebra_simps split: if_splits)
    qed
  qed auto
qed

lemma sub_frac_props:
  assumes "digits_ok ys" and "c = 0 \<or> c = 1" and "sub_frac ys c = (ds, b)"
  shows "digits_ok ds" and "length ds = length ys" and "b = 0 \<or> b = 1"
    and "lval ds = - lval ys - c + 10 ^ length ys * b"
proof -
  have "digits_ok ds \<and> length ds = length ys \<and> (b = 0 \<or> b = 1) \<and>
      lval ds = - lval ys - c + 10 ^ length ys * b"
    using assms
  proof (induction ys arbitrary: c ds b)
    case (Cons y ys)
    define c' where "c' = (if - y - c < 0 then 1 else (0::int))"
    obtain es b' where r: "sub_frac ys c' = (es, b')" by fastforce
    have "digits_ok ys" "c' = 0 \<or> c' = 1" using Cons.prems by (auto simp: c'_def)
    from Cons.IH [OF this r] have
      IH: "digits_ok es" "length es = length ys" "b' = 0 \<or> b' = 1"
        "lval es = - lval ys - c' + 10 ^ length ys * b'"
      by auto
    have "sub_frac (y # ys) c = ((- y - c + (if - y - c < 0 then 10 else 0)) # es, b')"
      using r by (simp add: Let_def c'_def split: if_splits)
    with Cons.prems(3) have "ds = (- y - c + (if - y - c < 0 then 10 else 0)) # es" "b = b'"
      by simp_all
    with IH Cons.prems(1,2) show ?case by (auto simp: c'_def split: if_splits)
  qed simp
  then show "digits_ok ds" "length ds = length ys" "b = 0 \<or> b = 1"
    "lval ds = - lval ys - c + 10 ^ length ys * b"
    by auto
qed

text \<open>A digit string that equals a non-negative number up to a multiple of its modulus is it.\<close>

lemma lval_no_borrow:
  assumes "digits_ok ds" and "lval ds = x + 10 ^ length ds * b" and "b = 0 \<or> b = 1" and "0 \<le> x"
  shows "lval ds = x"
  using lval_bounds [OF assms(1)] assms(2-4) by auto

lemma sub_minuend_longer:
  assumes "digits_ok xs" and "digits_ok ys" and "k + length ys \<le> length xs"
    and "body = take k xs @ sub_both (drop k xs) ys 0"
  shows "digits_ok body" and "length body = length xs"
    and "\<exists>b \<in> {0, 1}. lval body = lval xs - 10 ^ k * lval ys + 10 ^ length xs * b"
proof -
  have p: "digits_ok (drop k xs)" "length ys \<le> length (drop k xs)" using assms by auto
  note q = sub_both_props [OF p(1) assms(2) p(2), of 0, simplified]
  show "digits_ok body" "length body = length xs" using q assms by auto
  from q(3) obtain b where b: "b \<in> {0, 1}"
    "lval (sub_both (drop k xs) ys 0) = lval (drop k xs) - lval ys + 10 ^ (length xs - k) * b"
    by auto
  have "lval body = lval (take k xs) + 10 ^ k * lval (sub_both (drop k xs) ys 0)"
    using assms by simp
  also have "\<dots> = lval xs - 10 ^ k * lval ys + 10 ^ (k + (length xs - k)) * b"
    unfolding power_add
    using assms(3) by (simp add: b(2) lval_take_drop [of k xs] ring_distribs mult.assoc)
  finally show "\<exists>b \<in> {0, 1}. lval body = lval xs - 10 ^ k * lval ys + 10 ^ length xs * b"
    using b(1) assms(3) by (intro bexI [of _ b]) auto
qed

lemma sub_subtrahend_longer:
  assumes "digits_ok xs" and "digits_ok ys" and "k \<le> length ys" and "length ys \<le> k + length xs"
    and "sub_frac (take k ys) 0 = (ds, c)" and "body = ds @ sub_both xs (drop k ys) c"
  shows "digits_ok body" and "length body = k + length xs"
    and "\<exists>b \<in> {0, 1}. lval body = 10 ^ k * lval xs - lval ys + 10 ^ (k + length xs) * b"
proof -
  have "digits_ok (take k ys)" using assms by auto
  note f = sub_frac_props [OF this _ assms(5), simplified]
  have p: "digits_ok (drop k ys)" "length (drop k ys) \<le> length xs" using assms by auto
  note q = sub_both_props [OF assms(1) p f(3)]
  show "digits_ok body" "length body = k + length xs" using q f assms by auto
  from q(3) obtain b where b: "b \<in> {0, 1}"
    "lval (sub_both xs (drop k ys) c) = lval xs - lval (drop k ys) - c + 10 ^ length xs * b"
    by auto
  have "lval body = lval ds + 10 ^ k * lval (sub_both xs (drop k ys) c)"
    using assms f(2) by simp
  also have "\<dots> = 10 ^ k * lval xs - lval ys + 10 ^ (k + length xs) * b"
    using assms(3) by (simp add: b(2) f(4) lval_take_drop [of k ys] power_add ring_distribs mult.assoc)
  finally show "\<exists>b \<in> {0, 1}. lval body = 10 ^ k * lval xs - lval ys + 10 ^ (k + length xs) * b"
    using b(1) by (intro bexI [of _ b]) auto
qed

lemma bc_do_sub_props:
  assumes "bc_ok n1" and "bc_ok n2" and "s = max (max (n_scale n1) (n_scale n2)) m"
    and "n_len n2 \<le> n_len n1" and "1 \<le> n_len n1" and "bc_at s n2 \<le> bc_at s n1"
  shows "bc_ok (bc_do_sub n1 n2 m)"
    and "n_scale (bc_do_sub n1 n2 m) = s"
    and "bc_mag (bc_do_sub n1 n2 m) = bc_at s n1 - bc_at s n2"
    and "n_len (bc_do_sub n1 n2 m) \<le> n_len n1"
    and "1 \<le> n_len (bc_do_sub n1 n2 m)"
proof -
  let ?s = "max (n_scale n1) (n_scale n2)"
  let ?r1 = "rev (bc_digits n1)" and ?r2 = "rev (bc_digits n2)"
  define body where "body =
    (if n_scale n1 > n_scale n2 then
       take (n_scale n1 - n_scale n2) ?r1 @ sub_both (drop (n_scale n1 - n_scale n2) ?r1) ?r2 0
     else
       let (ds, borrow) = sub_frac (take (n_scale n2 - n_scale n1) ?r2) 0
       in ds @ sub_both ?r1 (drop (n_scale n2 - n_scale n1) ?r2) borrow)"
  define diff where
    "diff = (bc_new_num (n_len n1) (max ?s m))\<lparr>n_value := rev body @ replicate (m - ?s) 0\<rparr>"
  have e: "bc_do_sub n1 n2 m = bc_rm_leading_zeros diff"
    using assms(4)
    by (auto simp: bc_do_sub_def diff_def body_def Let_def max_absorb1 split: prod.splits)
  have "\<exists>b \<in> {0, 1}. digits_ok body \<and> length body = n_len n1 + ?s \<and>
      lval body = bc_at ?s n1 - bc_at ?s n2 + 10 ^ length body * b"
  proof (cases "n_scale n1 > n_scale n2")
    case True
    let ?k = "n_scale n1 - n_scale n2"
    have "body = take ?k ?r1 @ sub_both (drop ?k ?r1) ?r2 0" using True by (simp add: body_def)
    from sub_minuend_longer [OF _ _ _ this] True assms(1,2,4) show ?thesis
      by (simp add: bc_at_def bc_mag_def lval_rev mult.commute)
  next
    case False
    let ?k = "n_scale n2 - n_scale n1"
    obtain ds c where f: "sub_frac (take ?k ?r2) 0 = (ds, c)" by fastforce
    have "body = ds @ sub_both ?r1 (drop ?k ?r2) c" using False f by (simp add: body_def)
    from sub_subtrahend_longer [OF _ _ _ _ f this] False assms(1,2,4) show ?thesis
      by (simp add: bc_at_def bc_mag_def lval_rev mult.commute)
  qed
  then obtain b where b: "b = 0 \<or> b = 1" and ok: "digits_ok body"
    and len: "length body = n_len n1 + ?s"
    and lv: "lval body = bc_at ?s n1 - bc_at ?s n2 + 10 ^ length body * b"
    by auto
  have "bc_at ?s n2 * 10 ^ (m - ?s) \<le> bc_at ?s n1 * 10 ^ (m - ?s)"
    using assms(6) by (simp only: bc_at_extend assms(3) max.cobounded1 max.cobounded2)
  then have ge: "0 \<le> bc_at ?s n1 - bc_at ?s n2" by simp
  have val: "lval body = bc_at ?s n1 - bc_at ?s n2"
    by (rule lval_no_borrow [OF ok lv b ge])
  have sm: "n_len diff + n_scale diff \<le> length (n_value diff)" "digits_ok (n_value diff)"
    "n_len diff = 0 \<Longrightarrow> n_scale diff = 0"
    using ok len assms(5) by (auto simp: diff_def)
  have "bc_digits diff = rev body @ replicate (m - ?s) 0"
    using len by (auto simp: diff_def bc_digits_def)
  then have "bc_mag diff = lval body * 10 ^ (m - ?s)"
    by (simp add: bc_mag_def dval_rev)
  also have "\<dots> = bc_at s n1 - bc_at s n2"
    by (simp only: val left_diff_distrib bc_at_extend assms(3) max.cobounded1 max.cobounded2)
  finally have mag: "bc_mag diff = bc_at s n1 - bc_at s n2" .
  show "bc_ok (bc_do_sub n1 n2 m)" "bc_mag (bc_do_sub n1 n2 m) = bc_at s n1 - bc_at s n2"
    using bc_rm_leading_zeros_props [OF sm] by (simp_all only: e mag)
  show "n_scale (bc_do_sub n1 n2 m) = s"
    using sm by (simp add: e bc_rm_leading_zeros_props) (simp add: diff_def assms(3))
  show "n_len (bc_do_sub n1 n2 m) \<le> n_len n1"
    using bc_rm_leading_zeros_props(5) [OF sm] by (simp add: e) (simp add: diff_def)
  show "1 \<le> n_len (bc_do_sub n1 n2 m)"
    unfolding e by (rule bc_rm_leading_zeros_props(6) [OF sm]) (use assms(5) in \<open>simp_all add: diff_def\<close>)
qed

section \<open>Correctness of comparison\<close>

lemma cmp_equal_part_split:
  assumes "c \<le> length xs" and "c \<le> length ys" and "cmp_equal_part c xs ys = (c', xs', ys')"
  obtains p where "xs = p @ xs'" and "ys = p @ ys'" and "c = length p + c'"
    and "c' \<noteq> 0 \<Longrightarrow> hd xs' \<noteq> hd ys'"
  using assms
proof (induction c arbitrary: xs ys thesis)
  case (Suc c)
  from Suc.prems obtain x xt y yt where xy: "xs = x # xt" "ys = y # yt"
    by (cases xs; cases ys) auto
  show ?case
  proof (cases "x = y")
    case True
    with Suc.prems xy have "c \<le> length xt" "c \<le> length yt" "cmp_equal_part c xt yt = (c', xs', ys')"
      by auto
    then obtain p where "xt = p @ xs'" "yt = p @ ys'" "c = length p + c'" "c' \<noteq> 0 \<Longrightarrow> hd xs' \<noteq> hd ys'"
      using Suc.IH by blast
    with True xy show ?thesis by (intro Suc.prems(1) [of "x # p"]) auto
  next
    case False
    with Suc.prems xy show ?thesis by (intro Suc.prems(1) [of "[]"]) auto
  qed
qed auto

lemma dval_less_lex:
  assumes "digits_ok (x # xs)" and "digits_ok (y # ys)" and "length xs = length ys" and "x < y"
  shows "dval (p @ x # xs) < dval (p @ y # ys)"
proof -
  have "dval xs < 10 ^ length xs" "0 \<le> dval ys"
    using dval_bounds [of xs] dval_bounds [of ys] assms by simp_all
  moreover have "(x + 1) * 10 ^ length xs \<le> y * 10 ^ length xs"
    using assms(4) by (intro mult_right_mono) auto
  ultimately show ?thesis using assms(3) by (simp add: distrib_right)
qed

lemma bc_at_prefix:
  assumes "bc_ok n" and "n_value n = p @ x # xs" and "length p < n_len n + n_scale n"
    and "n_scale n \<le> s"
  shows "\<exists>zs. bc_at s n = dval (p @ x # zs) \<and> digits_ok (x # zs) \<and>
    length zs = n_len n + s - length p - 1"
proof -
  let ?zs = "take (n_len n + n_scale n - length p - 1) xs @ replicate (s - n_scale n) 0"
  have "n_len n + n_scale n = length p + Suc (n_len n + n_scale n - length p - 1)"
    using assms(3) by simp
  then have "bc_digits n = p @ x # take (n_len n + n_scale n - length p - 1) xs"
    using assms(2,3) unfolding bc_digits_def by (simp add: take_Cons')
  then have "bc_at s n = dval (p @ x # ?zs)"
    using assms(4) by (simp add: bc_at_digits)
  moreover have "digits_ok (x # ?zs)" "length ?zs = n_len n + s - length p - 1"
    using assms by (auto simp: bc_ok_def)
  ultimately show ?thesis by blast
qed

lemma bc_at_exact_prefix:
  assumes "bc_ok n" and "n_value n = p @ xs" and "length p \<le> n_len n + n_scale n"
    and "n_scale n \<le> s"
  shows "bc_at s n = (dval p * 10 ^ (n_len n + n_scale n - length p) +
    dval (take (n_len n + n_scale n - length p) xs)) * 10 ^ (s - n_scale n)"
proof -
  have "n_len n + n_scale n - length p \<le> length xs" using assms(1,2) by (auto simp: bc_ok_def)
  then have "length (take (n_len n + n_scale n - length p) xs) = n_len n + n_scale n - length p"
    by simp
  moreover have "bc_digits n = p @ take (n_len n + n_scale n - length p) xs"
    using assms(2,3) by (simp add: bc_digits_def)
  ultimately show ?thesis by (simp only: bc_at_def bc_mag_def dval_append)
qed

lemma bc_do_compare_same_len:
  assumes "bc_ok n1" and "bc_ok n2" and "n_len n1 = n_len n2"
    and "s = max (n_scale n1) (n_scale n2)"
  shows "bc_do_compare n1 n2 False False = sgn (bc_at s n1 - bc_at s n2)"
proof -
  let ?c = "n_len n1 + min (n_scale n1) (n_scale n2)"
  obtain c xs ys where r: "cmp_equal_part ?c (n_value n1) (n_value n2) = (c, xs, ys)"
    by (cases "cmp_equal_part ?c (n_value n1) (n_value n2)") auto
  have cmp: "bc_do_compare n1 n2 False False =
     (if c \<noteq> 0 then (if hd xs > hd ys then 1 else -1)
      else if n_scale n1 > n_scale n2 then
        (if list_all (\<lambda>d. d = 0) (take (n_scale n1 - n_scale n2) xs) then 0 else 1)
      else (if list_all (\<lambda>d. d = 0) (take (n_scale n2 - n_scale n1) ys) then 0 else -1))"
    using r assms(3) by (simp add: bc_do_compare_def cmp_greater_def cmp_less_def)
  have "?c \<le> length (n_value n1)" "?c \<le> length (n_value n2)"
    using assms by (auto simp: bc_ok_def)
  from this r obtain p where p: "n_value n1 = p @ xs" "n_value n2 = p @ ys" "?c = length p + c"
    "c \<noteq> 0 \<longrightarrow> hd xs \<noteq> hd ys"
    by (rule cmp_equal_part_split) blast
  have s: "n_scale n1 \<le> s" "n_scale n2 \<le> s" using assms(4) by auto
  show ?thesis
  proof (cases "c = 0")
    case False
    then obtain x xt y yt where xy: "xs = x # xt" "ys = y # yt"
      using p assms by (cases xs; cases ys) (auto simp: bc_ok_def)
    have l: "length p < n_len n1 + n_scale n1" "length p < n_len n2 + n_scale n2"
      using False p(3) assms(3) by auto
    from bc_at_prefix [OF assms(1) p(1) [unfolded xy] l(1) s(1)]
    obtain zs1 where z1: "bc_at s n1 = dval (p @ x # zs1)" "digits_ok (x # zs1)"
      "length zs1 = n_len n1 + s - length p - 1" by blast
    from bc_at_prefix [OF assms(2) p(2) [unfolded xy] l(2) s(2)]
    obtain zs2 where z2: "bc_at s n2 = dval (p @ y # zs2)" "digits_ok (y # zs2)"
      "length zs2 = n_len n2 + s - length p - 1" by blast
    have "x \<noteq> y" using p(4) False xy by simp
    moreover have "y < x \<Longrightarrow> bc_at s n2 < bc_at s n1"
      unfolding z1(1) z2(1) using z1 z2 assms(3) by (intro dval_less_lex) auto
    moreover have "x < y \<Longrightarrow> bc_at s n1 < bc_at s n2"
      unfolding z1(1) z2(1) using z1 z2 assms(3) by (intro dval_less_lex) auto
    ultimately show ?thesis
      using False xy by (cases "y < x") (auto simp: cmp)
  next
    case True
    have l: "length p = ?c" using True p(3) by simp
    let ?t1 = "take (n_scale n1 - n_scale n2) xs" and ?t2 = "take (n_scale n2 - n_scale n1) ys"
    have ok: "digits_ok ?t1" "digits_ok ?t2" using assms(1,2) p by (auto simp: bc_ok_def)
    have a: "bc_at s n1 - bc_at s n2 = dval ?t1 - dval ?t2"
      using bc_at_exact_prefix [OF assms(1) p(1) _ s(1)] bc_at_exact_prefix [OF assms(2) p(2) _ s(2)]
        l assms(3,4)
      by (cases "n_scale n1 \<le> n_scale n2") simp_all
    have "sgn (dval ?t1) = (if list_all (\<lambda>d. d = 0) ?t1 then 0 else 1)"
      "sgn (- dval ?t2) = (if list_all (\<lambda>d. d = 0) ?t2 then 0 else -1)"
      using dval_eq_0_iff [OF ok(1)] dval_eq_0_iff [OF ok(2)]
        dval_bounds(1) [OF ok(1)] dval_bounds(1) [OF ok(2)]
      by (auto simp: sgn_if)
    then show ?thesis
      unfolding a cmp using True by (cases "n_scale n1" "n_scale n2" rule: linorder_cases) auto
  qed
qed

text \<open>
  The order of the magnitudes: exact when both numbers have an integer digit; for an operand with
  none, a number that is not smaller may be reported as larger, which is all the subtraction needs.
\<close>

lemma bc_do_compare_longer:
  assumes "bc_ok n1" and "bc_ok n2" and "n_len n2 < n_len n1"
    and "s = max (n_scale n1) (n_scale n2)"
  shows "bc_at s n2 \<le> bc_at s n1" and "1 \<le> n_len n2 \<Longrightarrow> bc_at s n2 < bc_at s n1"
proof -
  have s: "n_scale n1 \<le> s" "n_scale n2 \<le> s" using assms(4) by auto
  show "bc_at s n2 < bc_at s n1" if "1 \<le> n_len n2"
  proof -
    have "bc_at s n2 < 10 ^ (n_len n2 + s)" using assms(2) s by (intro bc_at_upper)
    also have "\<dots> \<le> 10 ^ (n_len n1 - 1 + s)"
      using assms(3) by (intro power_increasing) auto
    also have "\<dots> \<le> bc_at s n1" using assms s that by (intro bc_at_lower) auto
    finally show ?thesis .
  qed
  moreover have "bc_at s n2 = 0" if "n_len n2 = 0"
    using assms(2) that by (simp add: bc_at_def bc_mag_def bc_digits_def bc_ok_def)
  ultimately show "bc_at s n2 \<le> bc_at s n1"
    using assms(1) by (cases "n_len n2 = 0") (auto simp: less_imp_le)
qed

lemma bc_do_compare_diff_len:
  "n_len n2 < n_len n1 \<Longrightarrow> bc_do_compare n1 n2 False False = 1"
  "n_len n1 < n_len n2 \<Longrightarrow> bc_do_compare n1 n2 False False = -1"
  by (simp_all add: bc_do_compare_def cmp_greater_def cmp_less_def)

lemma bc_do_compare_mag:
  assumes "bc_ok n1" and "bc_ok n2" and "1 \<le> n_len n1" and "1 \<le> n_len n2"
    and "s = max (n_scale n1) (n_scale n2)"
  shows "bc_do_compare n1 n2 False False = sgn (bc_at s n1 - bc_at s n2)"
proof (cases "n_len n1" "n_len n2" rule: linorder_cases)
  case less
  with bc_do_compare_longer(2) [OF assms(2,1) less, of s] assms show ?thesis
    by (simp add: bc_do_compare_diff_len max.commute)
next
  case equal
  with assms show ?thesis by (intro bc_do_compare_same_len)
next
  case greater
  with bc_do_compare_longer(2) [OF assms(1,2) greater, of s] assms show ?thesis
    by (simp add: bc_do_compare_diff_len)
qed

lemma bc_do_compare_sign:
  assumes "n_sign n1 = n_sign n2"
  shows "bc_do_compare n1 n2 True b = sign_int (n_sign n1) * bc_do_compare n1 n2 False b"
  using assms
  by (cases "n_sign n2")
    (auto simp: bc_do_compare_def cmp_greater_def cmp_less_def split: prod.splits)

text \<open>\<open>bc_compare\<close> decides the order of the values.\<close>

lemma bc_compare_val:
  assumes "bc_wf n1" and "bc_wf n2"
  shows "bc_compare n1 n2 = sgn (trunc_int (sgn (bc_val n1 - bc_val n2)))"
proof -
  let ?s = "max (n_scale n1) (n_scale n2)"
  have ok: "bc_ok n1" "bc_ok n2" "1 \<le> n_len n1" "1 \<le> n_len n2" using assms by (auto simp: bc_wf_def)
  have z: "bc_at ?s n1 = 0 \<Longrightarrow> n_sign n1 = PLUS" "bc_at ?s n2 = 0 \<Longrightarrow> n_sign n2 = PLUS"
    using assms by (auto simp: bc_wf_def bc_at_def)
  let ?a = "sign_int (n_sign n1) * bc_at ?s n1" and ?b = "sign_int (n_sign n2) * bc_at ?s n2"
  have nn: "0 \<le> bc_at ?s n1" "0 \<le> bc_at ?s n2" using ok by simp_all
  have "bc_val n1 - bc_val n2 = of_int (?a - ?b) / 10 ^ ?s"
    using bc_val_at [of n1 ?s] bc_val_at [of n2 ?s] by (simp add: diff_divide_distrib)
  then have "sgn (bc_val n1 - bc_val n2) = of_int (sgn (?a - ?b))"
    by (simp add: sgn_if zero_less_divide_iff divide_less_0_iff del: of_int_diff of_int_mult)
  then have v: "sgn (trunc_int (sgn (bc_val n1 - bc_val n2))) = sgn (?a - ?b)"
    by simp
  show ?thesis
  proof (cases "n_sign n1 = n_sign n2")
    case True
    have "bc_compare n1 n2 = sign_int (n_sign n1) * sgn (bc_at ?s n1 - bc_at ?s n2)"
      using True ok by (simp add: bc_compare_def bc_do_compare_sign bc_do_compare_mag)
    also have "\<dots> = sgn (?a - ?b)"
      using True by (cases "n_sign n2") (auto simp: sgn_if)
    finally show ?thesis using v by simp
  next
    case False
    then have "bc_compare n1 n2 = (if n_sign n1 = PLUS then 1 else -1)"
      by (simp add: bc_compare_def bc_do_compare_def)
    with False nn z show ?thesis unfolding v
      by (cases "n_sign n1"; cases "n_sign n2") (auto simp: sgn_if)
  qed
qed

section \<open>Correctness of signed addition and subtraction\<close>

lemma bc_ok_sign [simp]: "bc_ok (n\<lparr>n_sign := sg\<rparr>) = bc_ok n"
  and bc_mag_sign [simp]: "bc_mag (n\<lparr>n_sign := sg\<rparr>) = bc_mag n"
  by (simp_all add: bc_ok_def bc_mag_def bc_digits_def)

text \<open>
  Both routines come to the same three ways of combining the magnitudes; the comparison decides
  between the last two so that the minuend is the larger one.
\<close>

lemma bc_do_compare_cases:
  assumes "bc_ok n1" and "bc_ok n2" and "1 \<le> n_len n1 \<or> 1 \<le> n_len n2"
    and "s = max (max (n_scale n1) (n_scale n2)) m"
  obtains (less) "bc_do_compare n1 n2 False False = -1"
      "n_len n1 \<le> n_len n2" "bc_at s n1 \<le> bc_at s n2" "1 \<le> n_len n2"
      "1 \<le> n_len n1 \<longrightarrow> bc_at s n1 < bc_at s n2"
  | (equal) "bc_do_compare n1 n2 False False = 0" "bc_at s n1 = bc_at s n2"
  | (greater) "bc_do_compare n1 n2 False False = 1"
      "n_len n2 \<le> n_len n1" "bc_at s n2 \<le> bc_at s n1" "1 \<le> n_len n1"
      "1 \<le> n_len n2 \<longrightarrow> bc_at s n2 < bc_at s n1"
proof -
  let ?r = "max (n_scale n1) (n_scale n2)"
  have ext: "bc_at ?r n1 * 10 ^ (m - ?r) = bc_at s n1" "bc_at ?r n2 * 10 ^ (m - ?r) = bc_at s n2"
    by (simp_all only: bc_at_extend assms(4) max.cobounded1 max.cobounded2)
  show thesis
  proof (cases "n_len n1" "n_len n2" rule: linorder_cases)
    case l: less
    then have "bc_at ?r n1 \<le> bc_at ?r n2" "1 \<le> n_len n1 \<longrightarrow> bc_at ?r n1 < bc_at ?r n2"
      using bc_do_compare_longer [OF assms(2,1)] by (simp_all add: max.commute)
    then have "bc_at s n1 \<le> bc_at s n2" "1 \<le> n_len n1 \<longrightarrow> bc_at s n1 < bc_at s n2"
      by (simp_all flip: ext)
    with l show thesis by (intro less) (simp_all add: bc_do_compare_diff_len)
  next
    case l: equal
    with bc_do_compare_same_len [OF assms(1,2) l refl]
    have c: "bc_do_compare n1 n2 False False = sgn (bc_at ?r n1 - bc_at ?r n2)" by simp
    show thesis
    proof (cases "bc_at ?r n1" "bc_at ?r n2" rule: linorder_cases)
      case o: less
      then have "bc_at s n1 < bc_at s n2" by (simp flip: ext)
      with o l c assms(3) show thesis by (intro less) auto
    next
      case o: equal
      then have "bc_at s n1 = bc_at s n2" by (simp flip: ext)
      with o c show thesis by (intro equal) auto
    next
      case o: greater
      then have "bc_at s n2 < bc_at s n1" by (simp flip: ext)
      with o l c assms(3) show thesis by (intro greater) auto
    qed
  next
    case l: greater
    then have "bc_at ?r n2 \<le> bc_at ?r n1" "1 \<le> n_len n2 \<longrightarrow> bc_at ?r n2 < bc_at ?r n1"
      using bc_do_compare_longer [OF assms(1,2)] by simp_all
    then have "bc_at s n2 \<le> bc_at s n1" "1 \<le> n_len n2 \<longrightarrow> bc_at s n2 < bc_at s n1"
      by (simp_all flip: ext)
    with l show thesis by (intro greater) (simp_all add: bc_do_compare_diff_len)
  qed
qed

lemma bc_sub_props:
  assumes "bc_ok n1" and "bc_ok n2" and "1 \<le> n_len n1 \<or> 1 \<le> n_len n2"
    and "s = max (max (n_scale n1) (n_scale n2)) m"
  shows "bc_ok (bc_sub n1 n2 m) \<and> 1 \<le> n_len (bc_sub n1 n2 m) \<and> n_scale (bc_sub n1 n2 m) = s \<and>
    bc_int (bc_sub n1 n2 m) = sign_int (n_sign n1) * bc_at s n1 - sign_int (n_sign n2) * bc_at s n2"
proof (cases "n_sign n1 = n_sign n2")
  case False
  with bc_do_add_props [OF assms(1,2,4)] show ?thesis
    by (cases "n_sign n1"; cases "n_sign n2") (simp_all add: bc_sub_def bc_int_def)
next
  case sg: True
  show ?thesis
    using assms
  proof (cases rule: bc_do_compare_cases)
    case less
    have "s = max (max (n_scale n2) (n_scale n1)) m" using assms(4) by (simp add: max.commute)
    from bc_do_sub_props [OF assms(2,1) this less(2,4,3)] less(1) sg show ?thesis
      by (cases "n_sign n2") (simp_all add: bc_sub_def bc_int_def)
  next
    case equal
    with sg assms(4) bc_new_num_wf show ?thesis
      by (auto simp: bc_sub_def bc_int_def bc_wf_def Let_def max.commute max.left_commute)
  next
    case greater
    from bc_do_sub_props [OF assms(1,2,4) greater(2,4,3)] greater(1) sg show ?thesis
      by (cases "n_sign n2") (simp_all add: bc_sub_def bc_int_def)
  qed
qed

lemma bc_add_props:
  assumes "bc_ok n1" and "bc_ok n2" and "1 \<le> n_len n1 \<or> 1 \<le> n_len n2"
    and "s = max (max (n_scale n1) (n_scale n2)) m"
  shows "bc_ok (bc_add n1 n2 m) \<and> 1 \<le> n_len (bc_add n1 n2 m) \<and> n_scale (bc_add n1 n2 m) = s \<and>
    bc_int (bc_add n1 n2 m) = sign_int (n_sign n1) * bc_at s n1 + sign_int (n_sign n2) * bc_at s n2"
proof (cases "n_sign n1 = n_sign n2")
  case True
  with bc_do_add_props [OF assms(1,2,4)] show ?thesis
    by (cases "n_sign n2") (simp_all add: bc_add_def bc_int_def)
next
  case sg: False
  show ?thesis
    using assms
  proof (cases rule: bc_do_compare_cases)
    case less
    have "s = max (max (n_scale n2) (n_scale n1)) m" using assms(4) by (simp add: max.commute)
    from bc_do_sub_props [OF assms(2,1) this less(2,4,3)] less(1) sg show ?thesis
      by (cases "n_sign n1"; cases "n_sign n2") (simp_all add: bc_add_def bc_int_def)
  next
    case equal
    with sg assms(4) bc_new_num_wf show ?thesis
      by (cases "n_sign n1"; cases "n_sign n2")
        (auto simp: bc_add_def bc_int_def bc_wf_def Let_def max.commute max.left_commute)
  next
    case greater
    from bc_do_sub_props [OF assms(1,2,4) greater(2,4,3)] greater(1) sg show ?thesis
      by (cases "n_sign n1"; cases "n_sign n2") (simp_all add: bc_add_def bc_int_def)
  qed
qed

subsection \<open>Values\<close>

lemma bc_val_from_at:
  assumes "n_scale r = s" and "n_scale n1 \<le> s" and "n_scale n2 \<le> s"
    and "bc_int r = sign_int (n_sign n1) * bc_at s n1 + e * (sign_int (n_sign n2) * bc_at s n2)"
  shows "bc_val r = bc_val n1 + of_int e * bc_val n2"
  using assms bc_val_at [OF assms(2)] bc_val_at [OF assms(3)]
  by (simp add: bc_val_def [of r] add_divide_distrib)

lemma bc_add_val [val_simps]:
  assumes "bc_ok n1" and "bc_ok n2" and "1 \<le> n_len n1"
  shows "bc_val (bc_add n1 n2 m) = bc_val n1 + bc_val n2"
    and "n_scale (bc_add n1 n2 m) = max (max (n_scale n1) (n_scale n2)) m"
  using bc_add_props [OF assms(1,2) _ refl, of m] assms(3)
    bc_val_from_at [of "bc_add n1 n2 m" "max (max (n_scale n1) (n_scale n2)) m" n1 n2 1]
  by simp_all

lemma bc_sub_val [val_simps]:
  assumes "bc_ok n1" and "bc_ok n2" and "1 \<le> n_len n1"
  shows "bc_val (bc_sub n1 n2 m) = bc_val n1 - bc_val n2"
    and "n_scale (bc_sub n1 n2 m) = max (max (n_scale n1) (n_scale n2)) m"
  using bc_sub_props [OF assms(1,2) _ refl, of m] assms(3)
    bc_val_from_at [of "bc_sub n1 n2 m" "max (max (n_scale n1) (n_scale n2)) m" n1 n2 "-1"]
  by simp_all

lemma bc_at_eq_0_iff [simp]: "bc_at s n = 0 \<longleftrightarrow> bc_mag n = 0"
  by (simp add: bc_at_def)

text \<open>No operation makes a negative zero.\<close>

lemma bc_add_wf [wf_intros]:
  assumes "bc_wf n1" and "bc_wf n2"
  shows "bc_wf (bc_add n1 n2 m)"
proof -
  let ?s = "max (max (n_scale n1) (n_scale n2)) m"
  have ok: "bc_ok n1" "bc_ok n2" "1 \<le> n_len n1" "1 \<le> n_len n2" using assms by (auto simp: bc_wf_def)
  have at: "0 \<le> bc_at ?s n1" "0 \<le> bc_at ?s n2" using ok by simp_all
  have "n_sign (bc_add n1 n2 m) = PLUS" if z: "bc_mag (bc_add n1 n2 m) = 0"
  proof (cases "n_sign n1 = n_sign n2")
    case True
    then have "bc_at ?s n1 + bc_at ?s n2 = 0"
      using z bc_do_add_props(4) [OF ok(1,2) refl, of m] by (simp add: bc_add_def)
    then have "bc_at ?s n1 = 0" using at by linarith
    with True assms show ?thesis by (simp add: bc_add_def bc_wf_def)
  next
    case sg: False
    have l: "1 \<le> n_len n1 \<or> 1 \<le> n_len n2" and s: "?s = max (max (n_scale n1) (n_scale n2)) m"
      using ok by simp_all
    from ok(1,2) l s show ?thesis
    proof (cases rule: bc_do_compare_cases)
      case less
      have "?s = max (max (n_scale n2) (n_scale n1)) m" by (simp add: max.commute)
      from bc_do_sub_props(3) [OF ok(2,1) this less(2,4,3)] less z sg ok show ?thesis
        by (simp add: bc_add_def)
    next
      case equal
      with sg show ?thesis by (simp add: bc_add_def)
    next
      case greater
      from bc_do_sub_props(3) [OF ok(1,2) refl greater(2,4,3)] greater z sg ok show ?thesis
        by (simp add: bc_add_def)
    qed
  qed
  with bc_add_props [OF ok(1,2) _ refl, of m] ok(3) show ?thesis by (simp add: bc_wf_def)
qed

lemma bc_sub_wf [wf_intros]:
  assumes "bc_wf n1" and "bc_wf n2"
  shows "bc_wf (bc_sub n1 n2 m)"
proof -
  let ?s = "max (max (n_scale n1) (n_scale n2)) m"
  have ok: "bc_ok n1" "bc_ok n2" "1 \<le> n_len n1" "1 \<le> n_len n2" using assms by (auto simp: bc_wf_def)
  have at: "0 \<le> bc_at ?s n1" "0 \<le> bc_at ?s n2" using ok by simp_all
  have "n_sign (bc_sub n1 n2 m) = PLUS" if z: "bc_mag (bc_sub n1 n2 m) = 0"
  proof (cases "n_sign n1 = n_sign n2")
    case False
    then have "bc_at ?s n1 + bc_at ?s n2 = 0"
      using z bc_do_add_props(4) [OF ok(1,2) refl, of m] by (simp add: bc_sub_def)
    then have "bc_at ?s n1 = 0" using at by linarith
    with False assms show ?thesis by (simp add: bc_sub_def bc_wf_def)
  next
    case sg: True
    have l: "1 \<le> n_len n1 \<or> 1 \<le> n_len n2" and s: "?s = max (max (n_scale n1) (n_scale n2)) m"
      using ok by simp_all
    from ok(1,2) l s show ?thesis
    proof (cases rule: bc_do_compare_cases)
      case less
      have "?s = max (max (n_scale n2) (n_scale n1)) m" by (simp add: max.commute)
      from bc_do_sub_props(3) [OF ok(2,1) this less(2,4,3)] less z sg ok show ?thesis
        by (simp add: bc_sub_def)
    next
      case equal
      with sg show ?thesis by (simp add: bc_sub_def)
    next
      case greater
      from bc_do_sub_props(3) [OF ok(1,2) refl greater(2,4,3)] greater z sg ok show ?thesis
        by (simp add: bc_sub_def)
    qed
  qed
  with bc_sub_props [OF ok(1,2) _ refl, of m] ok(3) show ?thesis by (simp add: bc_wf_def)
qed

end
