(* ===== verification/BC_Mul.thy ===== *)
theory BC_Mul
  imports BC_AddSub "HOL-Library.Monad_Syntax"
begin

text \<open>
  Multiplication, \<open>recmul.c\<close>: the schoolbook product, the shifted in-place addition and
  subtraction, the divide and conquer product built on them, and \<open>bc_multiply\<close>. A write outside
  the accumulator (the failing \<open>assert\<close>, or a carry that runs off its front) is \<open>None\<close>; that it
  never happens is part of the correctness of the product.
\<close>

section \<open>The schoolbook product\<close>

text \<open>
  \<open>while ((n1ptr >= n1->n_value) && (n2ptr <= n2end)) sum += *n1ptr-- * *n2ptr++;\<close>
  over the reversed operands: \<open>i\<close> is the distance of \<open>n1ptr\<close> from \<open>n1end\<close>, and \<open>j\<close> the number of
  digits \<open>n2ptr\<close> still has up to and including \<open>n2end\<close>.
\<close>

fun simp_mul_inner :: "digits \<Rightarrow> digits \<Rightarrow> nat \<Rightarrow> nat \<Rightarrow> int \<Rightarrow> int" where
  "simp_mul_inner a b i 0 s = s"
| "simp_mul_inner a b i (Suc j) s =
     (if i < length a then simp_mul_inner a b (Suc i) j (s + a ! i * b ! j) else s)"

text \<open>\<open>for (indx = 0; indx < prodlen-1; indx++)\<close>, least significant product digit first; the last
  digit written is the carry.\<close>

primrec simp_mul_outer :: "nat \<Rightarrow> digits \<Rightarrow> digits \<Rightarrow> nat \<Rightarrow> int \<Rightarrow> digits" where
  "simp_mul_outer 0 a b indx s = [s]"
| "simp_mul_outer (Suc k) a b indx s =
     (let s = simp_mul_inner a b (Suc indx - length b) (min (Suc indx) (length b)) s
      in s mod BASE # simp_mul_outer k a b (Suc indx) (s div BASE))"

definition bc_simp_mul :: "digits \<Rightarrow> digits \<Rightarrow> digits" where
  "bc_simp_mul n1 n2 = rev (simp_mul_outer (length n1 + length n2) (rev n1) (rev n2) 0 0)"

section \<open>Shifted addition and subtraction\<close>

fun shift_add :: "digits \<Rightarrow> digits \<Rightarrow> int \<Rightarrow> digits option" where
  "shift_add acc [] carry =
     (if carry = 0 then Some acc
      else case acc of [] \<Rightarrow> None
           | a # acc' \<Rightarrow>
               let s = a + carry
               in if s > BASE - 1 then map_option ((#) (s - BASE)) (shift_add acc' [] 1)
                  else Some (s # acc'))"
| "shift_add [] (v # vs) carry = None"
| "shift_add (a # acc) (v # vs) carry =
     (let s = a + (v + carry)
      in if s > BASE - 1 then map_option ((#) (s - BASE)) (shift_add acc vs 1)
         else map_option ((#) s) (shift_add acc vs 0))"

fun shift_sub :: "digits \<Rightarrow> digits \<Rightarrow> int \<Rightarrow> digits option" where
  "shift_sub acc [] carry =
     (if carry = 0 then Some acc
      else case acc of [] \<Rightarrow> None
           | a # acc' \<Rightarrow>
               let s = a - carry
               in if s < 0 then map_option ((#) (s + BASE)) (shift_sub acc' [] 1)
                  else Some (s # acc'))"
| "shift_sub [] (v # vs) carry = None"
| "shift_sub (a # acc) (v # vs) carry =
     (let s = a - (v + carry)
      in if s < 0 then map_option ((#) (s + BASE)) (shift_sub acc vs 1)
         else map_option ((#) s) (shift_sub acc vs 0))"

definition bc_shift_addsub :: "digits \<Rightarrow> digits \<Rightarrow> nat \<Rightarrow> bool \<Rightarrow> digits option" where
  "bc_shift_addsub accum val shift sub =
     (let count = (if hd val = 0 then length val - 1 else length val);
          vs = take count (rev val);
          acc = rev accum
      in if \<not> length accum \<ge> shift + count then None
         else map_option (\<lambda>r. rev (take shift acc @ r))
                (if sub then shift_sub (drop shift acc) vs 0 else shift_add (drop shift acc) vs 0))"

section \<open>The divide and conquer product\<close>

abbreviation mul_base_digits :: nat where "mul_base_digits \<equiv> 80"
abbreviation MUL_SMALL_DIGITS :: nat where "MUL_SMALL_DIGITS \<equiv> mul_base_digits div 4"

definition new_sub_num :: "nat \<Rightarrow> nat \<Rightarrow> digits \<Rightarrow> bc_num" where
  "new_sub_num len scale value =
     \<lparr>n_sign = PLUS, n_len = len, n_scale = scale, n_value = take (len + scale) value\<rparr>"

text \<open>The upper and the lower part of an operand split \<open>n\<close> digits from its end.\<close>

definition split_high :: "digits \<Rightarrow> nat \<Rightarrow> bc_num" where
  "split_high u n = bc_rm_leading_zeros
     (if length u < n then bc_zero else new_sub_num (length u - n) 0 u)"

definition split_low :: "digits \<Rightarrow> nat \<Rightarrow> bc_num" where
  "split_low u n = bc_rm_leading_zeros
     (if length u < n then new_sub_num (length u) 0 u
      else new_sub_num n 0 (drop (length u - n) u))"

lemma rm_leading_len_le: "fst (rm_leading ds len) \<le> len"
proof (induction ds arbitrary: len)
  case (Cons d ds)
  have "fst (rm_leading ds (len - 1)) \<le> len" using Cons [of "len - 1"] by simp
  then show ?case by simp
qed simp

lemma n_len_rm_leading_zeros_le: "n_len (bc_rm_leading_zeros n) \<le> n_len n"
  using rm_leading_len_le [of "n_value n" "n_len n"]
  by (cases "rm_leading (n_value n) (n_len n)") (simp add: bc_rm_leading_zeros_def)

lemma n_fields_rm_leading_zeros [simp]:
  "n_scale (bc_rm_leading_zeros n) = n_scale n" "n_sign (bc_rm_leading_zeros n) = n_sign n"
  by (simp_all add: bc_rm_leading_zeros_def split: prod.splits)

lemma split_fields [simp]:
  "n_scale (split_high u n) = 0" "n_scale (split_low u n) = 0"
  "n_sign (split_high u n) = PLUS" "n_sign (split_low u n) = PLUS"
  by (simp_all add: split_high_def split_low_def new_sub_num_def)

lemma n_len_split:
  "n_len (split_high u n) \<le> (if length u < n then 1 else length u - n)"
  "n_len (split_low u n) \<le> min (length u) n"
  unfolding split_high_def split_low_def
  by (rule order_trans [OF n_len_rm_leading_zeros_le], simp add: new_sub_num_def)+

lemma n_len_sub_diff:
  assumes "n_sign x = PLUS" and "n_sign y = PLUS" and "n_scale x = 0" and "n_scale y = 0"
  shows "n_len (bc_sub x y 0) \<le> max 1 (max (n_len x) (n_len y))" and "n_scale (bc_sub x y 0) = 0"
proof -
  have "n_len (bc_do_sub y x 0) \<le> max (n_len y) (n_len x)" for x y
    unfolding bc_do_sub_def Let_def by (rule order_trans [OF n_len_rm_leading_zeros_le]) simp
  from this [of x y] this [of y x] show "n_len (bc_sub x y 0) \<le> max 1 (max (n_len x) (n_len y))"
    using assms by (auto simp: bc_sub_def Let_def)
  have "n_scale (bc_do_sub y x 0) = max (n_scale y) (n_scale x)" for x y
    by (simp add: bc_do_sub_def Let_def)
  with assms show "n_scale (bc_sub x y 0) = 0" by (simp add: bc_sub_def Let_def)
qed

lemma length_bc_digits_le: "length (bc_digits n) \<le> n_len n + n_scale n"
  by (simp add: bc_digits_def)

lemma rec_mul_shrinks:
  assumes "\<not> (length u + length v < mul_base_digits \<or> length u < MUL_SMALL_DIGITS
      \<or> length v < MUL_SMALL_DIGITS)"
    and "n = (max (length u) (length v) + 1) div 2"
    and "u1 = split_high u n" and "u0 = split_low u n"
    and "v1 = split_high v n" and "v0 = split_low v n"
  shows "length (bc_digits u1) + length (bc_digits v1) < length u + length v"
    and "d1 = bc_sub u1 u0 0 \<Longrightarrow> d2 = bc_sub v0 v1 0 \<Longrightarrow>
      length (bc_digits d1) + length (bc_digits d2) < length u + length v"
    and "length (bc_digits u0) + length (bc_digits v0) < length u + length v"
proof -
  have n: "20 \<le> n" "2 * n < length u + length v" "length u \<le> 2 * n" "length v \<le> 2 * n"
    using assms(1,2) by auto
  have h: "n_len u1 \<le> n" "n_len v1 \<le> n" "n_len u0 \<le> n" "n_len v0 \<le> n"
    using n n_len_split [of u n] n_len_split [of v n] unfolding assms(3-6)
    by (auto split: if_splits)
  have "length (bc_digits u1) \<le> n_len u1" "length (bc_digits v1) \<le> n_len v1"
    "length (bc_digits u0) \<le> n_len u0" "length (bc_digits v0) \<le> n_len v0"
    using length_bc_digits_le [of u1] length_bc_digits_le [of v1]
      length_bc_digits_le [of u0] length_bc_digits_le [of v0] by (simp_all add: assms(3-6))
  with h n show "length (bc_digits u1) + length (bc_digits v1) < length u + length v"
    "length (bc_digits u0) + length (bc_digits v0) < length u + length v"
    by linarith+
  assume d: "d1 = bc_sub u1 u0 0" "d2 = bc_sub v0 v1 0"
  have "length (bc_digits d1) \<le> max 1 (max (n_len u1) (n_len u0))"
    "length (bc_digits d2) \<le> max 1 (max (n_len v0) (n_len v1))"
    using n_len_sub_diff [of u1 u0] n_len_sub_diff [of v0 v1]
      length_bc_digits_le [of d1] length_bc_digits_le [of d2] by (simp_all add: d assms(3-6))
  with h n show "length (bc_digits d1) + length (bc_digits d2) < length u + length v"
    by linarith
qed

function bc_rec_mul :: "digits \<Rightarrow> digits \<Rightarrow> digits option" where
  "bc_rec_mul u v =
     (if length u + length v < mul_base_digits \<or> length u < MUL_SMALL_DIGITS
         \<or> length v < MUL_SMALL_DIGITS
      then Some (bc_simp_mul u v)
      else
        let n = (max (length u) (length v) + 1) div 2;
            u1 = split_high u n; u0 = split_low u n;
            v1 = split_high v n; v0 = split_low v n;
            m1zero = (bc_is_zero u1 \<or> bc_is_zero v1);
            d1 = bc_sub u1 u0 0;
            d2 = bc_sub v0 v1 0
        in do {
          m1 \<leftarrow> (if m1zero then Some (bc_digits bc_zero)
                 else bc_rec_mul (bc_digits u1) (bc_digits v1));
          m2 \<leftarrow> (if bc_is_zero d1 \<or> bc_is_zero d2 then Some (bc_digits bc_zero)
                 else bc_rec_mul (bc_digits d1) (bc_digits d2));
          m3 \<leftarrow> (if bc_is_zero u0 \<or> bc_is_zero v0 then Some (bc_digits bc_zero)
                 else bc_rec_mul (bc_digits u0) (bc_digits v0));
          prod \<leftarrow> Some (replicate (length u + length v + 1) 0);
          prod \<leftarrow> (if m1zero then Some prod
                   else do { p \<leftarrow> bc_shift_addsub prod m1 (2 * n) False;
                             bc_shift_addsub p m1 n False });
          prod \<leftarrow> bc_shift_addsub prod m3 n False;
          prod \<leftarrow> bc_shift_addsub prod m3 0 False;
          bc_shift_addsub prod m2 n (n_sign d1 \<noteq> n_sign d2)
        })"
  by pat_completeness auto
termination
  by (relation "measure (\<lambda>(u, v). length u + length v)")
    (simp_all only: wf_measure in_measure split_conv rec_mul_shrinks not_False_eq_True)

declare bc_rec_mul.simps [simp del]

definition bc_multiply :: "bc_num \<Rightarrow> bc_num \<Rightarrow> nat \<Rightarrow> bc_num option" where
  "bc_multiply n1 n2 scale =
     (let len1 = n_len n1 + n_scale n1;
          len2 = n_len n2 + n_scale n2;
          full_scale = n_scale n1 + n_scale n2;
          prod_scale = min full_scale (max scale (max (n_scale n1) (n_scale n2)))
      in do {
        value \<leftarrow> bc_rec_mul (bc_digits n1) (bc_digits n2);
        pval \<leftarrow> Some (bc_rm_leading_zeros
          \<lparr>n_sign = (if n_sign n1 = n_sign n2 then PLUS else MINUS),
           n_len = len2 + len1 + 1 - full_scale,
           n_scale = prod_scale, n_value = value\<rparr>);
        Some (if bc_is_zero pval then pval\<lparr>n_sign := PLUS\<rparr> else pval)
      })"

section \<open>Correctness of the schoolbook product\<close>

text \<open>Digits beyond the end of an operand count as zero.\<close>

definition coef :: "digits \<Rightarrow> nat \<Rightarrow> int" where
  "coef xs i = (if i < length xs then xs ! i else 0)"

definition conv :: "digits \<Rightarrow> digits \<Rightarrow> nat \<Rightarrow> int" where
  "conv a b k = (\<Sum>i\<le>k. coef a i * coef b (k - i))"

lemma coef_simps [simp]: "coef (x # xs) (Suc i) = coef xs i" "coef (x # xs) 0 = x"
  by (simp_all add: coef_def)

lemma lval_sum: "length xs \<le> n \<Longrightarrow> lval xs = (\<Sum>i<n. coef xs i * 10 ^ i)"
proof (induction xs arbitrary: n)
  case (Cons x xs)
  then obtain m where n: "n = Suc m" and "length xs \<le> m" by (cases n) auto
  have "(\<Sum>i<n. coef (x # xs) i * 10 ^ i) = x + (\<Sum>i<m. coef (x # xs) (Suc i) * 10 ^ Suc i)"
    unfolding n by (subst sum.lessThan_Suc_shift) (simp add: coef_def)
  also have "(\<Sum>i<m. coef (x # xs) (Suc i) * 10 ^ Suc i) = 10 * (\<Sum>i<m. coef xs i * 10 ^ i)"
    by (simp add: sum_distrib_left mult.left_commute)
  finally show ?case using Cons.IH [OF \<open>length xs \<le> m\<close>] by simp
qed (simp add: coef_def)

lemma lval_mult_conv: "lval a * lval b = (\<Sum>k<length a + length b. conv a b k * 10 ^ k)"
proof -
  let ?n = "length a + length b"
  let ?f = "\<lambda>i j. coef a i * coef b j * 10 ^ (i + j)"
  have "lval a * lval b = (\<Sum>i<length a. \<Sum>j<length b. ?f i j)"
    by (simp add: lval_sum [of a "length a"] lval_sum [of b "length b"] sum_product power_add ac_simps)
  also have "\<dots> = (\<Sum>(i, j)\<in>{..<length a} \<times> {..<length b}. ?f i j)"
    by (simp add: sum.cartesian_product)
  also have "\<dots> = (\<Sum>(i, j)\<in>{(i, j). i + j < ?n}. ?f i j)"
  proof (rule sum.mono_neutral_left)
    have "{(i, j). i + j < ?n} \<subseteq> {..<?n} \<times> {..<?n}" by auto
    then show "finite {(i, j). i + j < ?n}" by (rule finite_subset) simp
  qed (auto simp: coef_def split: if_splits)
  also have "\<dots> = (\<Sum>k<?n. \<Sum>i\<le>k. ?f i (k - i))"
    by (rule sum.triangle_reindex)
  also have "\<dots> = (\<Sum>k<?n. conv a b k * 10 ^ k)"
    by (rule sum.cong) (simp_all add: conv_def sum_distrib_right)
  finally show ?thesis .
qed

lemma simp_mul_inner_sum:
  "simp_mul_inner a b i j s = s + (\<Sum>t<j. coef a (i + t) * b ! (j - 1 - t))"
proof (induction a b i j s rule: simp_mul_inner.induct)
  case (2 a b i j s)
  have "(\<Sum>t<Suc j. coef a (i + t) * b ! (Suc j - 1 - t))
      = coef a i * b ! j + (\<Sum>t<j. coef a (Suc i + t) * b ! (j - 1 - t))"
    by (subst sum.lessThan_Suc_shift) simp
  moreover have "\<not> i < length a \<Longrightarrow> coef a (i + t) = 0" for t by (simp add: coef_def)
  ultimately show ?case using 2 by (auto simp: coef_def)
qed simp

lemma simp_mul_inner_conv:
  "simp_mul_inner a b (Suc k - length b) (min (Suc k) (length b)) s = s + conv a b k"
proof -
  let ?i = "Suc k - length b" and ?j = "min (Suc k) (length b)"
  have "conv a b k = (\<Sum>i\<in>{?i..k}. coef a i * coef b (k - i))"
    unfolding conv_def by (rule sum.mono_neutral_right) (auto simp: coef_def)
  also have "\<dots> = (\<Sum>t<?j. coef a (?i + t) * b ! (?j - 1 - t))"
    by (rule sum.reindex_bij_witness [of _ "\<lambda>t. ?i + t" "\<lambda>i. i - ?i"])
      (auto simp: coef_def min_def split: if_splits)
  finally show ?thesis by (simp add: simp_mul_inner_sum)
qed

lemma conv_nonneg: "digits_ok a \<Longrightarrow> digits_ok b \<Longrightarrow> 0 \<le> conv a b k"
  unfolding conv_def
  by (intro sum_nonneg mult_nonneg_nonneg) (auto simp: coef_def dest: digits_ok_nth)

lemma simp_mul_outer_props:
  assumes "digits_ok a" and "digits_ok b" and "0 \<le> s"
  shows "lval (simp_mul_outer k a b i s) = s + (\<Sum>t<k. conv a b (i + t) * 10 ^ t)"
    and "length (simp_mul_outer k a b i s) = Suc k"
    and "\<exists>ds c. simp_mul_outer k a b i s = ds @ [c] \<and> digits_ok ds \<and> length ds = k \<and> 0 \<le> c"
proof -
  have "lval (simp_mul_outer k a b i s) = s + (\<Sum>t<k. conv a b (i + t) * 10 ^ t) \<and>
    (\<exists>ds c. simp_mul_outer k a b i s = ds @ [c] \<and> digits_ok ds \<and> length ds = k \<and> 0 \<le> c)"
    using assms(3)
  proof (induction k arbitrary: i s)
    case (Suc k)
    let ?s = "s + conv a b i"
    have nn: "0 \<le> ?s div 10" using Suc.prems conv_nonneg [OF assms(1,2), of i] by simp
    note IH = Suc.IH [OF nn, of "Suc i"]
    have e: "simp_mul_outer (Suc k) a b i s = ?s mod 10 # simp_mul_outer k a b (Suc i) (?s div 10)"
      by (simp add: simp_mul_inner_conv Let_def)
    have "(\<Sum>t<Suc k. conv a b (i + t) * 10 ^ t)
        = conv a b i + 10 * (\<Sum>t<k. conv a b (Suc i + t) * 10 ^ t)"
      by (subst sum.lessThan_Suc_shift) (simp add: sum_distrib_left mult.left_commute)
    moreover have "?s mod 10 + 10 * (?s div 10) = ?s" by simp
    ultimately have v: "lval (simp_mul_outer (Suc k) a b i s)
        = s + (\<Sum>t<Suc k. conv a b (i + t) * 10 ^ t)"
      using IH unfolding e by simp
    from IH obtain ds c where "simp_mul_outer k a b (Suc i) (?s div 10) = ds @ [c]"
      "digits_ok ds" "length ds = k" "0 \<le> c" by blast
    then have "\<exists>ds c. simp_mul_outer (Suc k) a b i s = ds @ [c] \<and> digits_ok ds \<and>
        length ds = Suc k \<and> 0 \<le> c"
      unfolding e using pos_mod_bound [of 10 ?s]
      by (intro exI [of _ "?s mod 10 # ds"] exI [of _ c]) simp
    with v show ?case by blast
  qed simp
  then show "lval (simp_mul_outer k a b i s) = s + (\<Sum>t<k. conv a b (i + t) * 10 ^ t)"
    "length (simp_mul_outer k a b i s) = Suc k"
    "\<exists>ds c. simp_mul_outer k a b i s = ds @ [c] \<and> digits_ok ds \<and> length ds = k \<and> 0 \<le> c"
    by auto
qed

lemma bc_simp_mul_props:
  assumes "digits_ok u" and "digits_ok v"
  shows "digits_ok (bc_simp_mul u v)" and "length (bc_simp_mul u v) = Suc (length u + length v)"
    and "dval (bc_simp_mul u v) = dval u * dval v"
proof -
  let ?p = "simp_mul_outer (length u + length v) (rev u) (rev v) 0 0"
  have r: "digits_ok (rev u)" "digits_ok (rev v)" using assms by simp_all
  note p = simp_mul_outer_props [OF r, of 0 "length u + length v" 0, simplified]
  show len: "length (bc_simp_mul u v) = Suc (length u + length v)" by (simp add: bc_simp_mul_def p(2))
  have l: "lval ?p = lval (rev u) * lval (rev v)"
    using p(1) lval_mult_conv [of "rev u" "rev v"] by simp
  then show val: "dval (bc_simp_mul u v) = dval u * dval v"
    by (simp add: bc_simp_mul_def dval_rev lval_rev)
  from p(3) obtain ds c where d: "?p = ds @ [c]" "digits_ok ds" "length ds = length u + length v" "0 \<le> c"
    by blast
  have "dval u * dval v < 10 ^ length u * 10 ^ length v"
    using dval_bounds [OF assms(1)] dval_bounds [OF assms(2)] by (intro mult_strict_mono) auto
  moreover have "lval ds + 10 ^ (length u + length v) * c = dval u * dval v"
    using l d(1,3) by (simp add: lval_rev)
  ultimately have "10 ^ (length u + length v) * c < 10 ^ (length u + length v) * (1::int)"
    using lval_bounds(1) [OF d(2)] unfolding power_add by linarith
  then have "c < 1" by (subst (asm) mult_less_cancel_left_pos) auto
  with d show "digits_ok (bc_simp_mul u v)" by (simp add: bc_simp_mul_def)
qed

section \<open>Correctness of the shifted addition and subtraction\<close>

lemma shift_add_correct:
  assumes "digits_ok acc" and "digits_ok vs" and "length vs \<le> length acc" and "c = 0 \<or> c = 1"
    and "lval acc + lval vs + c < 10 ^ length acc"
  shows "\<exists>r. shift_add acc vs c = Some r \<and> digits_ok r \<and> length r = length acc \<and>
    lval r = lval acc + lval vs + c"
  using assms
proof (induction acc arbitrary: vs c)
  case (Cons a acc)
  let ?v = "case vs of [] \<Rightarrow> 0 | v # _ \<Rightarrow> v" and ?vs = "case vs of [] \<Rightarrow> [] | _ # vs \<Rightarrow> vs"
  define s where "s = a + (?v + c)"
  define c' where "c' = (if s > 9 then 1 else 0 :: int)"
  have p: "digits_ok ?vs" "length ?vs \<le> length acc" "c' = 0 \<or> c' = 1" "0 \<le> ?v" "?v \<le> 9"
    using Cons.prems by (auto simp: c'_def split: list.splits)
  have v: "lval vs = ?v + 10 * lval ?vs" by (simp split: list.splits)
  have s: "s = (s - 10 * c') + 10 * c'" "0 \<le> s - 10 * c'" "s - 10 * c' \<le> 9"
    using Cons.prems p(4,5) by (auto simp: c'_def s_def)
  have "10 * (lval acc + lval ?vs + c') < 10 * 10 ^ length acc"
    using Cons.prems(5) v s by (simp add: s_def)
  then have "lval acc + lval ?vs + c' < 10 ^ length acc" by simp
  with Cons.IH [OF _ p(1-3)] Cons.prems(1) obtain r where r: "shift_add acc ?vs c' = Some r"
    "digits_ok r" "length r = length acc" "lval r = lval acc + lval ?vs + c'" by auto
  have "shift_add (a # acc) vs c = Some ((s - 10 * c') # r)"
  proof (cases vs)
    case Nil
    then show ?thesis
      using r(1) Cons.prems(1,4) by (auto simp: s_def c'_def Let_def split: if_splits)
  next
    case (Cons v vt)
    then show ?thesis using r(1) by (auto simp: s_def c'_def Let_def)
  qed
  moreover have "lval ((s - 10 * c') # r) = lval (a # acc) + lval vs + c"
    using r(4) v by (simp add: s_def)
  ultimately show ?case using r s by auto
qed auto

lemma shift_sub_correct:
  assumes "digits_ok acc" and "digits_ok vs" and "length vs \<le> length acc" and "c = 0 \<or> c = 1"
    and "lval vs + c \<le> lval acc"
  shows "\<exists>r. shift_sub acc vs c = Some r \<and> digits_ok r \<and> length r = length acc \<and>
    lval r = lval acc - lval vs - c"
  using assms
proof (induction acc arbitrary: vs c)
  case (Cons a acc)
  let ?v = "case vs of [] \<Rightarrow> 0 | v # _ \<Rightarrow> v" and ?vs = "case vs of [] \<Rightarrow> [] | _ # vs \<Rightarrow> vs"
  define s where "s = a - (?v + c)"
  define c' where "c' = (if s < 0 then 1 else 0 :: int)"
  have p: "digits_ok ?vs" "length ?vs \<le> length acc" "c' = 0 \<or> c' = 1" "0 \<le> ?v" "?v \<le> 9"
    using Cons.prems by (auto simp: c'_def split: list.splits)
  have v: "lval vs = ?v + 10 * lval ?vs" by (simp split: list.splits)
  have s: "0 \<le> s + 10 * c'" "s + 10 * c' \<le> 9"
    using Cons.prems p(4,5) by (auto simp: c'_def s_def)
  have "lval ?vs + c' \<le> lval acc"
    using Cons.prems(5) v s by (simp add: s_def)
  with Cons.IH [OF _ p(1-3)] Cons.prems(1) obtain r where r: "shift_sub acc ?vs c' = Some r"
    "digits_ok r" "length r = length acc" "lval r = lval acc - lval ?vs - c'" by auto
  have "shift_sub (a # acc) vs c = Some ((s + 10 * c') # r)"
  proof (cases vs)
    case Nil
    then show ?thesis
      using r(1) Cons.prems(1,4) by (auto simp: s_def c'_def Let_def split: if_splits)
  next
    case (Cons v vt)
    then show ?thesis using r(1) by (auto simp: s_def c'_def Let_def)
  qed
  moreover have "lval ((s + 10 * c') # r) = lval (a # acc) - lval vs - c"
    using r(4) v by (simp add: s_def)
  ultimately show ?case using r s by auto
qed auto

text \<open>The two routines on numbers: what the caller owes is room for the result.\<close>

lemma bc_shift_addsub_correct:
  assumes "digits_ok acc" and "digits_ok val" and "val \<noteq> []"
    and "shift + length val \<le> length acc \<or> hd val = 0 \<and> shift + length val \<le> Suc (length acc)"
    and "if sub then dval val * 10 ^ shift \<le> dval acc
         else dval acc + dval val * 10 ^ shift < 10 ^ length acc"
  shows "\<exists>r. bc_shift_addsub acc val shift sub = Some r \<and> digits_ok r \<and> length r = length acc \<and>
    dval r = dval acc + (if sub then -1 else 1) * (dval val * 10 ^ shift)"
proof -
  define vs where "vs = take (if hd val = 0 then length val - 1 else length val) (rev val)"
  define lo hi where "lo = take shift (rev acc)" and "hi = drop shift (rev acc)"
  obtain d ds where v: "val = d # ds" using assms(3) by (cases val) auto
  have vs: "digits_ok vs" "lval vs = dval val" "shift + length vs \<le> length acc"
    using assms(2,4) by (auto simp: vs_def v lval_rev split: if_splits)
  have acc: "digits_ok lo" "digits_ok hi" "length lo = shift" "length hi = length acc - shift"
    "dval acc = lval lo + 10 ^ shift * lval hi"
    using assms(1) vs(3) lval_take_drop [of shift "rev acc"]
    by (auto simp: lo_def hi_def lval_rev)
  note lo = lval_bounds [OF acc(1)]
  have len: "length vs \<le> length hi" using vs(3) acc(4) by simp
  have "\<exists>r. (if sub then shift_sub hi vs 0 else shift_add hi vs 0) = Some r \<and> digits_ok r \<and>
      length r = length hi \<and> lval r = lval hi + (if sub then -1 else 1) * lval vs"
  proof (cases sub)
    case True
    then have "dval val * 10 ^ shift \<le> dval acc" using assms(5) by simp
    then have "10 ^ shift * lval vs < 10 ^ shift * (lval hi + 1)"
      unfolding distrib_left mult_1_right vs(2) mult.commute [of "10 ^ shift" "dval val"]
      using lo [unfolded acc(3)] acc(5) by linarith
    then have "lval vs \<le> lval hi" by (subst (asm) mult_less_cancel_left_pos) auto
    with shift_sub_correct [OF acc(2) vs(1) len, of 0] True show ?thesis by auto
  next
    case False
    have "(10::int) ^ length acc = 10 ^ shift * 10 ^ length hi"
      using acc(4) vs(3) by (simp flip: power_add)
    moreover have "dval acc + dval val * 10 ^ shift < 10 ^ length acc" using False assms(5) by simp
    ultimately have "10 ^ shift * (lval hi + lval vs) < 10 ^ shift * 10 ^ length hi"
      unfolding distrib_left vs(2) mult.commute [of "10 ^ shift" "dval val"]
      using lo acc(5) by linarith
    then have "lval hi + lval vs < 10 ^ length hi" by (subst (asm) mult_less_cancel_left_pos) auto
    with shift_add_correct [OF acc(2) vs(1) len, of 0] False show ?thesis by auto
  qed
  then obtain r where r: "(if sub then shift_sub hi vs 0 else shift_add hi vs 0) = Some r"
    "digits_ok r" "length r = length hi" "lval r = lval hi + (if sub then -1 else 1) * lval vs"
    by blast
  have "bc_shift_addsub acc val shift sub = Some (rev (lo @ r))"
    using r(1) vs(3) v by (auto simp: bc_shift_addsub_def Let_def lo_def hi_def vs_def split: if_splits)
  moreover have "dval (rev (lo @ r)) = dval acc + (if sub then -1 else 1) * (dval val * 10 ^ shift)"
    unfolding dval_rev lval_append acc(3,5) r(4) vs(2) by (simp add: algebra_simps)
  ultimately show ?thesis using r(2,3) acc vs(3) by auto
qed

lemmas bc_shift_add_correct = bc_shift_addsub_correct [where sub = False, simplified]

section \<open>Correctness of the divide and conquer product\<close>

lemma split_props:
  assumes "digits_ok u"
  shows "bc_ok (split_high u n)" and "bc_ok (split_low u n)"
    and "dval u = bc_mag (split_high u n) * 10 ^ n + bc_mag (split_low u n)"
    and "u \<noteq> [] \<Longrightarrow> 0 < n \<Longrightarrow> 1 \<le> n_len (split_low u n)"
proof -
  define h l where
    "h = (if length u < n then bc_zero else new_sub_num (length u - n) 0 u)" and
    "l = (if length u < n then new_sub_num (length u) 0 u else new_sub_num n 0 (drop (length u - n) u))"
  have h: "n_len h + n_scale h \<le> length (n_value h)" "digits_ok (n_value h)"
    "n_len h = 0 \<Longrightarrow> n_scale h = 0"
    using assms by (auto simp: h_def new_sub_num_def bc_zero_def)
  have l: "n_len l + n_scale l \<le> length (n_value l)" "digits_ok (n_value l)"
    "n_len l = 0 \<Longrightarrow> n_scale l = 0"
    using assms by (auto simp: l_def new_sub_num_def)
  have e: "split_high u n = bc_rm_leading_zeros h" "split_low u n = bc_rm_leading_zeros l"
    by (simp_all add: split_high_def split_low_def h_def l_def)
  show "bc_ok (split_high u n)" "bc_ok (split_low u n)"
    unfolding e using bc_rm_leading_zeros_props(1) [OF h] bc_rm_leading_zeros_props(1) [OF l]
    by simp_all
  show "dval u = bc_mag (split_high u n) * 10 ^ n + bc_mag (split_low u n)"
  proof (cases "length u < n")
    case True
    then have "bc_mag h = 0" "bc_mag l = dval u"
      by (simp_all add: h_def l_def new_sub_num_def bc_mag_def [of "new_sub_num _ _ _"] bc_mag_def
          bc_digits_def bc_zero_def)
    then show ?thesis
      by (simp add: e bc_rm_leading_zeros_props(2) [OF h] bc_rm_leading_zeros_props(2) [OF l])
  next
    case False
    then have "bc_mag h = dval (take (length u - n) u)" "bc_mag l = dval (drop (length u - n) u)"
      by (simp_all add: h_def l_def new_sub_num_def bc_mag_def bc_digits_def)
    with False dval_take_drop [of "length u - n" u] show ?thesis
      by (simp add: e bc_rm_leading_zeros_props(2) [OF h] bc_rm_leading_zeros_props(2) [OF l])
  qed
  show "1 \<le> n_len (split_low u n)" if "u \<noteq> []" "0 < n"
    unfolding e using that
    by (intro bc_rm_leading_zeros_props(6) [OF l]) (auto simp: l_def new_sub_num_def Suc_le_eq)
qed

lemma split_high_short: "length u < n \<Longrightarrow> bc_mag (split_high u n) = 0"
  by (simp add: split_high_def bc_zero_def bc_rm_leading_zeros_def bc_mag_def bc_digits_def)

text \<open>The partial sums of the five shifted additions fit the product's buffer.\<close>

lemma karatsuba_low_bound:
  fixes U V B P :: int
  assumes "0 \<le> U" and "U < P" and "0 \<le> V" and "V < B" and "1 \<le> B"
  shows "(B + 1) * (U * V) < P * (B * B)"
proof -
  have "(B + 1) * V \<le> (B + 1) * (B - 1)" using assms by (intro mult_left_mono) auto
  then have "(B + 1) * V \<le> B * B - 1" by (simp add: algebra_simps)
  moreover have "0 \<le> B * B - 1" using mult_mono [of 1 B 1 B] assms(5) by simp
  ultimately have "U * ((B + 1) * V) \<le> (P - 1) * (B * B - 1)"
    using assms by (intro mult_mono) auto
  moreover have "(P - 1) * (B * B - 1) < P * (B * B)"
    using assms \<open>0 \<le> B * B - 1\<close> by (simp add: algebra_simps)
  ultimately show ?thesis by (simp add: mult.left_commute)
qed

lemma karatsuba_bound:
  fixes U1 U0 V1 V0 :: int
  assumes n: "n = (max p q + 1) div 2"
    and u: "0 \<le> U1" "0 \<le> U0" "U0 < 10 ^ min p n" "if p < n then U1 = 0 else U1 < 10 ^ (p - n)"
    and v: "0 \<le> V1" "0 \<le> V0" "V0 < 10 ^ min q n" "if q < n then V1 = 0 else V1 < 10 ^ (q - n)"
  shows "(10 ^ n + 1) * (U1 * V1 * 10 ^ n + U0 * V0) < 10 ^ (p + q + 1)"
proof -
  let ?B = "(10::int) ^ n"
  have n2: "2 * n \<le> max p q + 1" "max p q \<le> 2 * n"
    unfolding n by linarith+
  have low: "(?B + 1) * (U0 * V0) < 10 ^ (min p n + min q n + n)"
  proof (cases "n \<le> q")
    case True
    then have "V0 < ?B" using v(3) by (simp add: min_absorb2)
    with karatsuba_low_bound [OF u(2,3) v(2) this] True show ?thesis
      by (simp add: power_add min_absorb2 mult.assoc)
  next
    case False
    then have "n \<le> p" using n by auto
    then have "U0 < ?B" using u(3) by (simp add: min_absorb2)
    with karatsuba_low_bound [OF v(2,3) u(2) this] \<open>n \<le> p\<close> show ?thesis
      by (simp add: power_add min_absorb2 ac_simps)
  qed
  have e: "(?B + 1) * (U1 * V1 * ?B + U0 * V0) = (?B + 1) * (U0 * V0) + U1 * V1 * (?B * (?B + 1))"
    by (simp add: algebra_simps)
  show ?thesis
  proof (cases "U1 = 0 \<or> V1 = 0")
    case True
    have "min p n + min q n + n \<le> p + q + 1"
      using n2 by (auto simp: min_def max_def split: if_splits)
    then have "(10::int) ^ (min p n + min q n + n) \<le> 10 ^ (p + q + 1)"
      by (intro power_increasing) auto
    with low True e show ?thesis by auto
  next
    case False
    then have pq: "\<not> p < n" "\<not> q < n" using u(4) v(4) by (auto split: if_splits)
    then have U: "1 \<le> U1" "U1 < 10 ^ (p - n)" "1 \<le> V1" "V1 < 10 ^ (q - n)"
      using False u v by auto
    then have "p - n \<noteq> 0" "q - n \<noteq> 0" by (auto intro: notI)
    then have "min p n + min q n + n \<le> p + q"
      using n2 pq by (auto simp: min_def max_def split: if_splits)
    then have "(10::int) ^ (min p n + min q n + n) \<le> 10 ^ (p + q)" by (intro power_increasing) auto
    moreover have "U1 * V1 * (?B * (?B + 1)) \<le> 10 ^ (p - n) * 10 ^ (q - n) * (?B * (2 * ?B))"
      using U by (intro mult_mono) auto
    moreover have "10 ^ (p - n) * 10 ^ (q - n) * (?B * (2 * ?B)) = 2 * (10::int) ^ (p + q)"
    proof -
      have "p + q = (p - n) + (q - n) + n + n" using pq by simp
      then show ?thesis by (simp only: power_add)
    qed
    moreover have "(10::int) ^ (p + q + 1) = 10 * 10 ^ (p + q)" "(0::int) < 10 ^ (p + q)" by simp_all
    ultimately show ?thesis using low e by linarith
  qed
qed

lemma dval_hd_zero:
  assumes "digits_ok ds" and "length ds = Suc k" and "dval ds < 10 ^ k"
  shows "hd ds = 0"
proof (cases ds)
  case (Cons d es)
  then show ?thesis using assms dval_lead [of d es] by (cases "d = 0") auto
qed (use assms in simp)

definition mul_spec :: "digits \<Rightarrow> digits \<Rightarrow> digits \<Rightarrow> bool" where
  "mul_spec u v p = (digits_ok p \<and> length p = length u + length v + 1 \<and> dval p = dval u * dval v)"

lemma mul_spec_hd:
  assumes "mul_spec u v p" and "digits_ok u" and "digits_ok v"
  shows "hd p = 0"
proof (rule dval_hd_zero)
  have "dval u * dval v < 10 ^ length u * 10 ^ length v"
    using dval_bounds [OF assms(2)] dval_bounds [OF assms(3)] by (intro mult_strict_mono) auto
  then show "dval p < 10 ^ (length u + length v)"
    using assms(1) by (simp add: mul_spec_def power_add)
qed (use assms(1) in \<open>simp_all add: mul_spec_def\<close>)

text \<open>A sub-product, or zero in its place when a factor is zero.\<close>

lemma sub_product:
  assumes "bc_ok x" and "bc_ok y" and "n_scale x = 0" and "n_scale y = 0"
    and "z \<longleftrightarrow> bc_mag x = 0 \<or> bc_mag y = 0"
    and "\<not> z \<Longrightarrow> bc_digits x \<noteq> [] \<Longrightarrow> bc_digits y \<noteq> [] \<Longrightarrow>
      \<exists>p. bc_rec_mul (bc_digits x) (bc_digits y) = Some p \<and> mul_spec (bc_digits x) (bc_digits y) p"
  obtains m where
    "(if z then Some (bc_digits bc_zero) else bc_rec_mul (bc_digits x) (bc_digits y)) = Some m"
    "digits_ok m" "m \<noteq> []" "hd m = 0" "length m \<le> Suc (n_len x + n_len y)"
    "dval m = bc_mag x * bc_mag y"
proof (cases z)
  case True
  with assms(5) show ?thesis
    by (intro that [of "[0]"]) (auto simp: bc_zero_def bc_digits_def)
next
  case False
  then have "bc_digits x \<noteq> []" "bc_digits y \<noteq> []" using assms(5) by (auto simp: bc_mag_def)
  from assms(6) [OF False this] obtain m where
    m: "bc_rec_mul (bc_digits x) (bc_digits y) = Some m" "mul_spec (bc_digits x) (bc_digits y) m"
    by blast
  have "hd m = 0" using m(2) assms(1,2) by (intro mul_spec_hd) auto
  with m False assms(1-4) show ?thesis
    by (intro that [of m]) (auto simp: mul_spec_def bc_mag_def)
qed

text \<open>The five accumulations, from the three sub-products.\<close>

lemma karatsuba_accumulate:
  fixes B :: int
  assumes "B = 10 ^ n"
    and m1: "digits_ok m1" "m1 \<noteq> []" "hd m1 = 0" "\<not> z \<Longrightarrow> 2 * n + length m1 \<le> Suc L" "z \<Longrightarrow> dval m1 = 0"
    and m2: "digits_ok m2" "m2 \<noteq> []" "hd m2 = 0" "n + length m2 \<le> Suc L"
    and m3: "digits_ok m3" "m3 \<noteq> []" "hd m3 = 0" "n + length m3 \<le> Suc L"
    and bound: "(B + 1) * (dval m1 * B + dval m3) < 10 ^ L"
    and res: "r = (B + 1) * (dval m1 * B + dval m3) + (if sub then -1 else 1) * dval m2 * B"
      "0 \<le> r" "r < 10 ^ L"
  shows "\<exists>p. do {
      prod \<leftarrow> Some (replicate L 0);
      prod \<leftarrow> (if z then Some prod
               else do { p \<leftarrow> bc_shift_addsub prod m1 (2 * n) False; bc_shift_addsub p m1 n False });
      prod \<leftarrow> bc_shift_addsub prod m3 n False;
      prod \<leftarrow> bc_shift_addsub prod m3 0 False;
      bc_shift_addsub prod m2 n sub } = Some p \<and> digits_ok p \<and> length p = L \<and> dval p = r"
proof -
  note B = \<open>B = 10 ^ n\<close>
  have pos: "0 \<le> dval m1" "0 \<le> dval m2" "0 \<le> dval m3" "1 \<le> B"
    using m1(1) m2(1) m3(1) by (auto intro: dval_bounds simp: B)
  then have pr: "0 \<le> dval m1 * B" "0 \<le> dval m3 * B" "0 \<le> dval m1 * (B * B)" by simp_all
  have bd: "dval m1 * (B * B) + dval m1 * B + dval m3 * B + dval m3 < 10 ^ L"
    using bound by (simp add: algebra_simps)
  have room: "k + length m \<le> length acc \<or> hd m = 0 \<and> k + length m \<le> Suc (length acc)"
    if "hd m = 0" "k + length m \<le> Suc L" "length acc = L" for k m and acc :: digits
    using that by simp
  obtain p1 where p1: "(if z then Some (replicate L 0)
      else do { p \<leftarrow> bc_shift_addsub (replicate L 0) m1 (2 * n) False; bc_shift_addsub p m1 n False })
      = Some p1" "digits_ok p1" "length p1 = L" "dval p1 = dval m1 * (B * B) + dval m1 * B"
  proof (cases z)
    case True
    with m1(5) show ?thesis by (intro that [of "replicate L 0"]) simp_all
  next
    case False
    have BB: "(10::int) ^ (2 * n) = B * B" by (simp add: B mult_2 power_add)
    obtain q where q: "bc_shift_addsub (replicate L 0) m1 (2 * n) False = Some q"
      "digits_ok q" "length q = L" "dval q = dval m1 * (B * B)"
      using bc_shift_add_correct [of "replicate L 0" m1 "2 * n"] m1(1-3) room m1(4) [OF False] bd pr pos
      by (auto simp: BB)
    obtain q' where "bc_shift_addsub q m1 n False = Some q'"
      "digits_ok q'" "length q' = L" "dval q' = dval m1 * (B * B) + dval m1 * B"
      using bc_shift_add_correct [of q m1 n] m1(1-3) q m1(4) [OF False] bd pr pos
      by (auto simp flip: B)
    with False q(1) show ?thesis by (intro that [of q']) simp_all
  qed
  obtain p2 where p2: "bc_shift_addsub p1 m3 n False = Some p2" "digits_ok p2" "length p2 = L"
    "dval p2 = dval p1 + dval m3 * B"
    using bc_shift_add_correct [of p1 m3 n] p1 m3 bd pr pos by (auto simp flip: B)
  obtain p3 where p3: "bc_shift_addsub p2 m3 0 False = Some p3" "digits_ok p3" "length p3 = L"
    "dval p3 = dval p2 + dval m3"
    using bc_shift_add_correct [of p2 m3 0] p1 p2 m3 bd pr pos by auto
  have v3: "dval p3 = (B + 1) * (dval m1 * B + dval m3)"
    unfolding p3 p2 p1 by (simp add: algebra_simps)
  obtain p4 where p4: "bc_shift_addsub p3 m2 n sub = Some p4" "digits_ok p4" "length p4 = L"
    "dval p4 = r"
    using bc_shift_addsub_correct [of p3 m2 n sub] p3(2,3) m2 res v3
    by (auto simp flip: B split: if_splits)
  show ?thesis
    using p1(1) p2(1) p3(1) p4 by simp
qed

lemma bc_rec_mul_correct:
  assumes "digits_ok u" and "digits_ok v" and "u \<noteq> []" and "v \<noteq> []"
  shows "\<exists>p. bc_rec_mul u v = Some p \<and> mul_spec u v p"
  using assms
proof (induction "length u + length v" arbitrary: u v rule: less_induct)
  case less
  define base where "base \<longleftrightarrow> length u + length v < mul_base_digits \<or> length u < MUL_SMALL_DIGITS
      \<or> length v < MUL_SMALL_DIGITS"
  show ?case
  proof (cases base)
    case True
    then have "bc_rec_mul u v = Some (bc_simp_mul u v)"
      unfolding base_def by (subst bc_rec_mul.simps) (simp only: if_True)
    then show ?thesis
      using bc_simp_mul_props [OF less.prems(1,2)] by (simp add: mul_spec_def)
  next
    case False
    define n where "n = (max (length u) (length v) + 1) div 2"
    define u1 u0 v1 v0 where "u1 = split_high u n" and "u0 = split_low u n"
      and "v1 = split_high v n" and "v0 = split_low v n"
    define d1 d2 where "d1 = bc_sub u1 u0 0" and "d2 = bc_sub v0 v1 0"
    define B where "B = (10::int) ^ n"
    define L where "L = length u + length v + 1"
    note defs = n_def u1_def u0_def v1_def v0_def d1_def d2_def
    have n: "0 < n" "2 * n \<le> max (length u) (length v) + 1" "max (length u) (length v) \<le> 2 * n"
      using False unfolding base_def n_def by auto
    have ok: "bc_ok u1" "bc_ok u0" "bc_ok v1" "bc_ok v0"
      and U: "dval u = bc_mag u1 * B + bc_mag u0" and V: "dval v = bc_mag v1 * B + bc_mag v0"
      and len0: "1 \<le> n_len u0" "1 \<le> n_len v0"
      and sc: "n_scale u1 = 0" "n_scale u0 = 0" "n_scale v1 = 0" "n_scale v0 = 0"
      and sg: "n_sign u1 = PLUS" "n_sign u0 = PLUS" "n_sign v1 = PLUS" "n_sign v0 = PLUS"
      using split_props [OF less.prems(1), of n] split_props [OF less.prems(2), of n] less.prems(3,4) n
      by (simp_all add: u1_def u0_def v1_def v0_def B_def)
    have len: "n_len u0 \<le> min (length u) n" "n_len v0 \<le> min (length v) n"
      "n_len u1 \<le> (if length u < n then 1 else length u - n)"
      "n_len v1 \<le> (if length v < n then 1 else length v - n)"
      using n_len_split [of u n] n_len_split [of v n] by (simp_all add: u1_def u0_def v1_def v0_def)
    have d: "bc_ok d1" "bc_ok d2" "n_scale d1 = 0" "n_scale d2 = 0"
      "bc_int d1 = bc_mag u1 - bc_mag u0" "bc_int d2 = bc_mag v0 - bc_mag v1"
      using bc_sub_props [OF ok(1,2) _ refl, of 0] bc_sub_props [OF ok(4,3) _ refl, of 0] len0 sc sg
      by (simp_all add: d1_def d2_def bc_at_def)
    note shrink = rec_mul_shrinks [OF False [unfolded base_def] n_def u1_def u0_def v1_def v0_def]
    have IH: "\<exists>p. bc_rec_mul (bc_digits x) (bc_digits y) = Some p \<and> mul_spec (bc_digits x) (bc_digits y) p"
      if "length (bc_digits x) + length (bc_digits y) < length u + length v" "bc_ok x" "bc_ok y"
        "bc_digits x \<noteq> []" "bc_digits y \<noteq> []" for x y
      using that less.hyps by blast
    obtain m1 where m1: "(if bc_is_zero u1 \<or> bc_is_zero v1 then Some (bc_digits bc_zero)
        else bc_rec_mul (bc_digits u1) (bc_digits v1)) = Some m1"
      "digits_ok m1" "m1 \<noteq> []" "hd m1 = 0" "length m1 \<le> Suc (n_len u1 + n_len v1)"
      "dval m1 = bc_mag u1 * bc_mag v1"
      by (rule sub_product [of u1 v1]) (use ok sc IH [OF shrink(1)] in auto)
    obtain m2 where m2: "(if bc_is_zero d1 \<or> bc_is_zero d2 then Some (bc_digits bc_zero)
        else bc_rec_mul (bc_digits d1) (bc_digits d2)) = Some m2"
      "digits_ok m2" "m2 \<noteq> []" "hd m2 = 0" "length m2 \<le> Suc (n_len d1 + n_len d2)"
      "dval m2 = bc_mag d1 * bc_mag d2"
      by (rule sub_product [of d1 d2]) (use d IH [OF shrink(2) [OF d1_def d2_def]] in auto)
    obtain m3 where m3: "(if bc_is_zero u0 \<or> bc_is_zero v0 then Some (bc_digits bc_zero)
        else bc_rec_mul (bc_digits u0) (bc_digits v0)) = Some m3"
      "digits_ok m3" "m3 \<noteq> []" "hd m3 = 0" "length m3 \<le> Suc (n_len u0 + n_len v0)"
      "dval m3 = bc_mag u0 * bc_mag v0"
      by (rule sub_product [of u0 v0]) (use ok sc IH [OF shrink(3)] in auto)
    have mag: "0 \<le> bc_mag u1" "0 \<le> bc_mag u0" "0 \<le> bc_mag v1" "0 \<le> bc_mag v0"
      using ok by (auto intro: bc_mag_bounds)
    have room1: "2 * n + length m1 \<le> Suc L" if "\<not> (bc_is_zero u1 \<or> bc_is_zero v1)"
    proof -
      have "\<not> length u < n" "\<not> length v < n"
        using that ok split_high_short [of u n] split_high_short [of v n] by (auto simp: u1_def v1_def)
      with len(3,4) m1(5) show ?thesis by (simp add: L_def)
    qed
    have "n_len d1 \<le> max 1 (max (n_len u1) (n_len u0))" "n_len d2 \<le> max 1 (max (n_len v0) (n_len v1))"
      using n_len_sub_diff(1) [of u1 u0] n_len_sub_diff(1) [of v0 v1] sc sg
      by (simp_all add: d1_def d2_def)
    moreover have "1 \<le> length u" "1 \<le> length v" using less.prems(3,4) by (simp_all add: Suc_le_eq)
    ultimately have dl: "n_len d1 \<le> min (length u) n" "n_len d2 \<le> min (length v) n"
      using len n by (auto split: if_splits)
    have "n + (min (length u) n + min (length v) n) \<le> L"
      using n(2) unfolding L_def by (auto simp: min_def max_def split: if_splits)
    with dl len(1,2) m2(5) m3(5) have room2: "n + length m2 \<le> Suc L" and room3: "n + length m3 \<le> Suc L"
      by linarith+
    have bound: "(B + 1) * (dval m1 * B + dval m3) < 10 ^ L"
      unfolding m1(6) m3(6) B_def L_def
    proof (rule karatsuba_bound [OF n_def mag(1,2) _ _ mag(3,4)])
      have up: "bc_mag x < 10 ^ k" if "bc_ok x" "n_scale x = 0" "n_len x \<le> k" for x k
        using bc_mag_bounds(2) [OF that(1)] power_increasing [OF that(3), of "10::int"] that(2)
        by (simp del: power_increasing_iff)
      show "bc_mag u0 < 10 ^ min (length u) n" "bc_mag v0 < 10 ^ min (length v) n"
        using up ok sc len(1,2) by simp_all
      show "if length u < n then bc_mag u1 = 0 else bc_mag u1 < 10 ^ (length u - n)"
        using up [OF ok(1) sc(1)] len(3) split_high_short [of u n] by (auto simp: u1_def)
      show "if length v < n then bc_mag v1 = 0 else bc_mag v1 < 10 ^ (length v - n)"
        using up [OF ok(3) sc(3)] len(4) split_high_short [of v n] by (auto simp: v1_def)
    qed
    have res: "dval u * dval v = (B + 1) * (dval m1 * B + dval m3)
        + (if n_sign d1 \<noteq> n_sign d2 then -1 else 1) * dval m2 * B"
    proof -
      have "(if n_sign d1 \<noteq> n_sign d2 then -1 else 1) * dval m2 = bc_int d1 * bc_int d2"
        unfolding m2(6) bc_int_def by (cases "n_sign d1"; cases "n_sign d2") simp_all
      then have e: "(if n_sign d1 \<noteq> n_sign d2 then -1 else 1) * dval m2
          = (bc_mag u1 - bc_mag u0) * (bc_mag v0 - bc_mag v1)"
        by (simp only: d(5,6))
      show ?thesis unfolding e U V m1(6) m3(6) by (simp add: algebra_simps)
    qed
    have "0 \<le> dval u" "dval u < 10 ^ length u" "0 \<le> dval v" "dval v < 10 ^ length v"
      using dval_bounds less.prems(1,2) by blast+
    then have "0 \<le> dval u * dval v" "dval u * dval v < 10 ^ length u * 10 ^ length v"
      by (simp, intro mult_strict_mono) simp_all
    moreover have "(10::int) ^ length u * 10 ^ length v \<le> 10 ^ L"
      unfolding L_def power_add [symmetric] by (intro power_increasing) simp_all
    ultimately have "0 \<le> dval u * dval v" "dval u * dval v < 10 ^ L" by linarith+
    with karatsuba_accumulate [where z = "bc_is_zero u1 \<or> bc_is_zero v1",
        OF B_def m1(2-4) room1 _ m2(2-4) room2 m3(2-4) room3 bound res] m1(6) ok
    obtain p where p: "do {
        prod \<leftarrow> Some (replicate L 0);
        prod \<leftarrow> (if bc_is_zero u1 \<or> bc_is_zero v1 then Some prod
                 else do { p \<leftarrow> bc_shift_addsub prod m1 (2 * n) False; bc_shift_addsub p m1 n False });
        prod \<leftarrow> bc_shift_addsub prod m3 n False;
        prod \<leftarrow> bc_shift_addsub prod m3 0 False;
        bc_shift_addsub prod m2 n (n_sign d1 \<noteq> n_sign d2) } = Some p"
      "digits_ok p" "length p = L" "dval p = dval u * dval v"
      by auto
    have "bc_rec_mul u v = Some p"
      unfolding bc_rec_mul.simps [of u v] base_def [symmetric] Let_def
        n_def [symmetric] u1_def [symmetric] u0_def [symmetric] v1_def [symmetric] v0_def [symmetric]
        d1_def [symmetric] d2_def [symmetric] L_def [symmetric] m1(1) m2(1) m3(1)
      using False p(1) by simp
    with p(2-4) show ?thesis by (simp add: mul_spec_def L_def)
  qed
qed

section \<open>Correctness of the signed product\<close>

text \<open>Cutting a fraction of \<open>f\<close> digits to \<open>p\<close> digits truncates the value.\<close>

lemma trunc_to_cut:
  assumes "s = 1 \<or> s = -1" and "0 \<le> m" and "p \<le> f"
  shows "trunc_to p (of_int (s * m) / 10 ^ f) = of_int (s * (m div 10 ^ (f - p))) / 10 ^ p"
proof -
  have "(10::rat) ^ f = 10 ^ p * 10 ^ (f - p)" using assms(3) by (simp flip: power_add)
  then have "of_int (s * m) / 10 ^ f * 10 ^ p = (of_int (s * m) / of_int (10 ^ (f - p)) :: rat)" by simp
  then show ?thesis
    unfolding trunc_to_def using trunc_int_sgn [OF assms(1,2), of "10 ^ (f - p)"] by simp
qed

lemma bc_multiply_correct:
  assumes "bc_ok n1" and "bc_ok n2" and "1 \<le> n_len n1" and "1 \<le> n_len n2"
    and "ps = min (n_scale n1 + n_scale n2) (max s (max (n_scale n1) (n_scale n2)))"
  obtains r where "bc_multiply n1 n2 s = Some r" and "bc_wf r" and "n_scale r = ps"
    and "bc_val r = trunc_to ps (bc_val n1 * bc_val n2)"
proof -
  let ?f = "n_scale n1 + n_scale n2"
  define sg where "sg = (if n_sign n1 = n_sign n2 then PLUS else MINUS)"
  obtain w where v: "bc_rec_mul (bc_digits n1) (bc_digits n2) = Some w"
    "mul_spec (bc_digits n1) (bc_digits n2) w"
    using bc_rec_mul_correct [of "bc_digits n1" "bc_digits n2"] assms(1-4)
    by (metis bc_digits_ok length_bc_digits length_0_conv add_is_0 not_one_le_zero)
  let ?len = "n_len n2 + n_scale n2 + (n_len n1 + n_scale n1) + 1 - ?f"
  define raw where "raw = \<lparr>n_sign = sg, n_len = ?len, n_scale = ps, n_value = w\<rparr>"
  define pval where "pval = bc_rm_leading_zeros raw"
  define r where "r = (if bc_is_zero pval then pval\<lparr>n_sign := PLUS\<rparr> else pval)"
  have len: "length w = ?len + ?f" and ok: "digits_ok w"
    and val: "dval w = bc_mag n1 * bc_mag n2" and ps: "ps \<le> ?f"
    using v(2) assms by (auto simp: mul_spec_def bc_mag_def)
  have raw: "n_len raw + n_scale raw \<le> length (n_value raw)" "digits_ok (n_value raw)"
    "n_len raw = 0 \<Longrightarrow> n_scale raw = 0" "1 \<le> n_len raw"
    using len ok ps by (auto simp: raw_def)
  note rm = bc_rm_leading_zeros_props [OF raw(1-3)]
  have "bc_digits raw = take (?len + ps) w" by (simp add: bc_digits_def raw_def)
  then have mag: "bc_mag pval = bc_mag n1 * bc_mag n2 div 10 ^ (?f - ps)"
    using rm(2) dval_take [OF ok, of "?len + ps"] len ps val
    by (simp add: pval_def) (simp add: bc_mag_def)
  have pv: "bc_ok pval" "1 \<le> n_len pval" "n_scale pval = ps" "n_sign pval = sg"
    using rm raw(4) by (simp_all add: pval_def) (simp_all add: raw_def)
  have e: "bc_multiply n1 n2 s = Some r"
    by (simp add: bc_multiply_def Let_def v(1) r_def pval_def raw_def sg_def assms(5))
  have wf: "bc_wf r" and sc: "n_scale r = ps"
    using pv by (auto simp: r_def bc_wf_def)
  have "bc_int r = sign_int sg * (bc_mag n1 * bc_mag n2 div 10 ^ (?f - ps))"
    using pv by (auto simp: r_def bc_int_def mag)
  then have "bc_val r = of_int (sign_int sg * (bc_mag n1 * bc_mag n2 div 10 ^ (?f - ps))) / 10 ^ ps"
    by (simp add: bc_val_def sc)
  also have "\<dots> = trunc_to ps (of_int (sign_int sg * (bc_mag n1 * bc_mag n2)) / 10 ^ ?f)"
    using sign_int_cases [of sg] bc_mag_bounds(1) [OF assms(1)] bc_mag_bounds(1) [OF assms(2)] ps
    by (intro trunc_to_cut [symmetric]) simp_all
  also have "of_int (sign_int sg * (bc_mag n1 * bc_mag n2)) / 10 ^ ?f = bc_val n1 * bc_val n2"
    unfolding sg_def bc_val_def bc_int_def
    by (cases "n_sign n1"; cases "n_sign n2") (simp_all add: power_add)
  finally show thesis using that e wf sc by blast
qed

end
