(* ===== verification/BC_Div.thy ===== *)
theory BC_Div
  imports BC_Mul
begin

text \<open>
  Division, \<open>div.c\<close> and \<open>divmod.c\<close>: Knuth's long division on decimal digits, with the quotient
  digit guessed from the leading digits, corrected by the two tests on the third digit and, if the
  subtraction borrows, by adding the divisor back.
\<close>

section \<open>One digit product\<close>

primrec one_mult_loop :: "digits \<Rightarrow> int \<Rightarrow> int \<Rightarrow> digits \<times> int" where
  "one_mult_loop [] digit carry = ([], carry)"
| "one_mult_loop (x # xs) digit carry =
     (let value = x * digit + carry;
          (ds, carry) = one_mult_loop xs digit (value div BASE)
      in (value mod BASE # ds, carry))"

text \<open>The result has as many digits as \<open>num\<close>; a carry that is not zero is stored in the byte
  before it.\<close>

definition one_mult :: "digits \<Rightarrow> int \<Rightarrow> int \<times> digits" where
  "one_mult num digit =
     (if digit = 0 then (0, replicate (length num) 0)
      else if digit = 1 then (0, num)
      else let (ds, carry) = one_mult_loop (rev num) digit 0 in (carry, rev ds))"

section \<open>One quotient digit\<close>

definition qguess_test :: "int \<Rightarrow> int \<Rightarrow> int \<Rightarrow> int \<Rightarrow> int \<Rightarrow> int \<Rightarrow> bool" where
  "qguess_test d0 d1 w0 w1 w2 qguess = (d1 * qguess > (w0 * 10 + w1 - d0 * qguess) * 10 + w2)"

definition qguess :: "digits \<Rightarrow> digits \<Rightarrow> int" where
  "qguess num1 n2 =
     (let d0 = n2 ! 0; d1 = (n2 @ [0]) ! 1;
          w0 = num1 ! 0; w1 = num1 ! 1; w2 = num1 ! 2;
          q = (if d0 = w0 then 9 else (w0 * 10 + w1) div d0)
      in if qguess_test d0 d1 w0 w1 w2 q then
           (if qguess_test d0 d1 w0 w1 w2 (q - 1) then q - 1 - 1 else q - 1)
         else q)"

text \<open>\<open>for (count = 0; count < len2+1; count++)\<close>: subtract \<open>mval\<close> from the window, both least
  significant digit first.\<close>

fun div_sub_loop :: "digits \<Rightarrow> digits \<Rightarrow> int \<Rightarrow> digits \<times> int" where
  "div_sub_loop (w # ws) (m # ms) borrow =
     (let val = w - m - borrow;
          (val, borrow) = (if val < 0 then (val + 10, 1) else (val, 0));
          (ds, borrow) = div_sub_loop ws ms borrow
      in (val # ds, borrow))"
| "div_sub_loop ws ms borrow = ([], borrow)"

text \<open>Adding the divisor back: its \<open>len2\<close> digits, then the carry into the window's first digit.\<close>

fun div_add_loop :: "digits \<Rightarrow> digits \<Rightarrow> int \<Rightarrow> digits" where
  "div_add_loop (w # ws) (d # ds) carry =
     (let val = w + d + carry
      in if val > 9 then (val - 10) # div_add_loop ws ds 1 else val # div_add_loop ws ds 0)"
| "div_add_loop (w # ws) [] carry = (if carry = 1 then (w + 1) mod 10 else w) # ws"
| "div_add_loop [] ds carry = []"

text \<open>The body of the loop; \<open>num1\<close> is the dividend from position \<open>qdig\<close> on.\<close>

definition div_step :: "digits \<Rightarrow> digits \<Rightarrow> int \<times> digits" where
  "div_step num1 n2 =
     (let len2 = length n2;
          window = take (len2 + 1) num1;
          rest = drop (len2 + 1) num1;
          q = qguess num1 n2;
          (window, borrow) =
            (if q \<noteq> 0 then
               let (carry, m) = one_mult n2 q;
                   (ds, borrow) = div_sub_loop (rev window) (rev (carry # m)) 0
               in (rev ds, borrow)
             else (window, 0))
      in if borrow = 1 then (q - 1, rev (div_add_loop (rev window) (rev n2) 0) @ rest)
         else (q, window @ rest))"

text \<open>\<open>while (qdig <= len1+scale-len2)\<close>; the first argument counts the iterations.\<close>

primrec div_loop :: "nat \<Rightarrow> digits \<Rightarrow> digits \<Rightarrow> digits" where
  "div_loop 0 num1 n2 = []"
| "div_loop (Suc k) num1 n2 = (let (q, num1) = div_step num1 n2 in q # div_loop k (tl num1) n2)"

section \<open>The full division\<close>

text \<open>\<open>while ((scale2 > 0) && (*n2ptr-- == 0)) scale2--;\<close>, over the reversed digits.\<close>

primrec trim_scale :: "digits \<Rightarrow> nat \<Rightarrow> nat" where
  "trim_scale [] scale2 = scale2"
| "trim_scale (d # ds) scale2 = (if scale2 > 0 \<and> d = 0 then trim_scale ds (scale2 - 1) else scale2)"

text \<open>Normalisation; a carry out of either operand would be a write before its buffer.\<close>

definition div_normalize :: "digits \<Rightarrow> digits \<Rightarrow> (digits \<times> digits) option" where
  "div_normalize num1 n2 =
     (let norm = 10 div (hd n2 + 1)
      in if norm \<noteq> 1 then
           let (c1, num1) = one_mult num1 norm; (c2, n2) = one_mult n2 norm
           in if c1 \<noteq> 0 \<or> c2 \<noteq> 0 then None else Some (num1, n2)
         else Some (num1, n2))"

datatype div_result = DivByZero | DivOutOfBounds | Quot bc_num

text \<open>
  \<open>bc_divide\<close>. For a divisor of one the code first stores a truncated copy of the dividend in
  \<open>quot\<close> and then goes on: the store is overwritten at the end, so it has no equation here.
\<close>

definition bc_divide :: "bc_num \<Rightarrow> bc_num \<Rightarrow> nat \<Rightarrow> div_result" where
  "bc_divide n1 n2 scale =
     (if bc_is_zero n2 then DivByZero
      else
        let scale2 = trim_scale (rev (bc_digits n2)) (n_scale n2);
            len1 = n_len n1 + scale2;
            scale1 = int (n_scale n1) - int scale2;
            extra = (if scale1 < int scale then nat (int scale - scale1) else 0);
            num1 = 0 # bc_digits n1 @ replicate extra 0;
            n2ptr = dropWhile (\<lambda>d. d = 0) (take (n_len n2 + scale2) (n_value n2));
            len2 = length n2ptr;
            qdigits = (if len2 > len1 then scale + 1 else len1 - len2 + scale + 1);
            qval = bc_new_num (qdigits - scale) scale;
            qdigs =
              (if len2 > len1 + scale then Some (replicate qdigits 0)
               else case div_normalize num1 n2ptr of
                      None \<Rightarrow> None
                    | Some (num1, n2ptr) \<Rightarrow>
                        Some (replicate (len2 - len1) 0 @
                              div_loop (len1 + scale - len2 + 1) (num1 @ [0]) n2ptr))
        in case qdigs of
             None \<Rightarrow> DivOutOfBounds
           | Some qs \<Rightarrow>
               let qval = qval\<lparr>n_value := qs,
                               n_sign := (if n_sign n1 = n_sign n2 then PLUS else MINUS)\<rparr>;
                   qval = (if bc_is_zero qval then qval\<lparr>n_sign := PLUS\<rparr> else qval)
               in Quot (bc_rm_leading_zeros qval))"

text \<open>\<open>bc_divmod\<close> and \<open>bc_modulo\<close>: \<open>None\<close> is the return value \<open>-1\<close>. The result of the inner
  division is not checked by the code; it cannot fail once the divisor is not zero.\<close>

definition bc_divmod :: "bc_num \<Rightarrow> bc_num \<Rightarrow> nat \<Rightarrow> (bc_num \<times> bc_num) option" where
  "bc_divmod num1 num2 scale =
     (if bc_is_zero num2 then None
      else
        let rscale = max (n_scale num1) (n_scale num2 + scale)
        in case bc_divide num1 num2 0 of
             Quot quo \<Rightarrow>
               (case bc_multiply quo num2 rscale of
                  None \<Rightarrow> None
                | Some temp \<Rightarrow> Some (quo, bc_sub num1 temp rscale))
           | _ \<Rightarrow> None)"

definition bc_modulo :: "bc_num \<Rightarrow> bc_num \<Rightarrow> nat \<Rightarrow> bc_num option" where
  "bc_modulo num1 num2 scale = map_option snd (bc_divmod num1 num2 scale)"

section \<open>Correctness of the digit loops\<close>

lemma one_mult_loop_props:
  assumes "digits_ok xs" and "0 \<le> d" and "0 \<le> c" and "one_mult_loop xs d c = (ds, c')"
  shows "digits_ok ds \<and> length ds = length xs \<and> 0 \<le> c' \<and>
    lval ds + 10 ^ length xs * c' = lval xs * d + c"
  using assms
proof (induction xs arbitrary: c ds c')
  case (Cons x xs)
  let ?v = "x * d + c"
  obtain es c1 where r: "one_mult_loop xs d (?v div 10) = (es, c1)" by fastforce
  have v: "0 \<le> ?v" using Cons.prems by simp
  have "digits_ok xs" using Cons.prems by simp
  moreover have "0 \<le> ?v div 10" using v by (simp only: pos_imp_zdiv_nonneg_iff zero_less_numeral)
  ultimately have IH: "digits_ok es \<and> length es = length xs \<and> 0 \<le> c1 \<and>
      lval es + 10 ^ length xs * c1 = lval xs * d + ?v div 10"
    using Cons.IH [OF _ Cons.prems(2) _ r] by blast
  have e: "ds = ?v mod 10 # es" "c' = c1" using Cons.prems(4) r by (simp_all add: Let_def)
  have "lval ds + 10 ^ length (x # xs) * c' = ?v mod 10 + 10 * (lval es + 10 ^ length xs * c1)"
    by (simp add: e)
  also have "\<dots> = ?v mod 10 + 10 * (lval xs * d + ?v div 10)" using IH by (simp only:)
  also have "\<dots> = 10 * (lval xs * d) + ?v"
    using mult_div_mod_eq [of 10 ?v] unfolding distrib_left by linarith
  also have "\<dots> = lval (x # xs) * d + c" by (simp add: algebra_simps)
  finally have "lval ds + 10 ^ length (x # xs) * c' = lval (x # xs) * d + c" .
  moreover have "0 \<le> ?v mod 10 \<and> ?v mod 10 \<le> 9" using pos_mod_bound [of 10 ?v] by simp
  ultimately show ?case using IH by (simp only: e digits_ok_simps list.size simp_thms)
qed simp

lemma one_mult_props:
  assumes "digits_ok num" and "0 \<le> digit" and "one_mult num digit = (c, m)"
  shows "digits_ok m" and "length m = length num" and "0 \<le> c"
    and "c * 10 ^ length num + dval m = dval num * digit"
proof -
  obtain ds c1 where r: "one_mult_loop (rev num) digit 0 = (ds, c1)" by fastforce
  have "digits_ok (rev num)" using assms(1) by simp
  note q = one_mult_loop_props [OF this assms(2) _ r, simplified]
  have "digits_ok m \<and> length m = length num \<and> 0 \<le> c \<and>
      c * 10 ^ length num + dval m = dval num * digit"
  proof (cases "digit = 0 \<or> digit = 1")
    case True
    then show ?thesis using assms by (auto simp: one_mult_def)
  next
    case False
    then have e: "c = c1" "m = rev ds" using assms(3) r by (simp_all add: one_mult_def)
    show ?thesis unfolding e using q by (simp only: dval_rev lval_rev digits_ok_simps length_rev mult.commute [of c1] add.commute [of "_ * c1"] simp_thms)
  qed
  then show "digits_ok m" "length m = length num" "0 \<le> c"
    "c * 10 ^ length num + dval m = dval num * digit" by blast+
qed

lemma div_sub_loop_props:
  assumes "digits_ok ws" and "digits_ok ms" and "length ws = length ms" and "c = 0 \<or> c = 1"
    and "div_sub_loop ws ms c = (ds, b)"
  shows "digits_ok ds \<and> length ds = length ws \<and> (b = 0 \<or> b = 1) \<and>
    lval ds = lval ws - lval ms - c + 10 ^ length ws * b"
  using assms
proof (induction ws arbitrary: ms c ds b)
  case (Cons w ws)
  obtain m mt where m: "ms = m # mt" using Cons.prems(3) by (cases ms) auto
  define v c' where "v = w - m - c" and "c' = (if v < 0 then 1 else (0::int))"
  obtain es b' where r: "div_sub_loop ws mt c' = (es, b')" by fastforce
  have "digits_ok ws" "digits_ok mt" "length ws = length mt" "c' = 0 \<or> c' = 1"
    using Cons.prems(1-4) m by (auto simp: c'_def)
  note IH = Cons.IH [OF this r]
  have e: "ds = (v + 10 * c') # es" "b = b'"
    using Cons.prems(5) r unfolding m
    by (auto simp: Let_def v_def c'_def split: if_splits)
  have "0 \<le> v + 10 * c'" "v + 10 * c' \<le> 9"
    using Cons.prems(1-4) m by (auto simp: v_def c'_def)
  moreover have "lval ds = lval (w # ws) - lval ms - c + 10 ^ length (w # ws) * b"
    using IH by (simp add: e m v_def algebra_simps)
  ultimately show ?case using IH by (simp only: e digits_ok_simps list.size simp_thms)
qed auto

lemma div_add_loop_props:
  assumes "digits_ok ws" and "digits_ok ds" and "length ws = Suc (length ds)" and "c = 0 \<or> c = 1"
  shows "digits_ok (div_add_loop ws ds c) \<and> length (div_add_loop ws ds c) = length ws \<and>
    (\<exists>k. lval (div_add_loop ws ds c) = lval ws + lval ds + c - 10 ^ length ws * k)"
  using assms
proof (induction ds arbitrary: ws c)
  case Nil
  then obtain w where w: "ws = [w]" by (cases ws) auto
  have "(w + c) mod 10 = w + c - 10 * ((w + c) div 10)" by (simp add: minus_mult_div_eq_mod)
  then have "\<exists>k. (w + c) mod 10 = w + c - 10 * k" by blast
  with Nil w show ?case by (auto intro: exI [of _ 0])
next
  case (Cons d ds)
  obtain w wt where w: "ws = w # wt" using Cons.prems(3) by (cases ws) auto
  define v c' where "v = w + d + c" and "c' = (if v > 9 then 1 else (0::int))"
  have "digits_ok wt" "digits_ok ds" "length wt = Suc (length ds)" "c' = 0 \<or> c' = 1"
    using Cons.prems w by (auto simp: c'_def)
  from Cons.IH [OF this] obtain k where IH: "digits_ok (div_add_loop wt ds c')"
    "length (div_add_loop wt ds c') = length wt"
    "lval (div_add_loop wt ds c') = lval wt + lval ds + c' - 10 ^ length wt * k" by blast
  have e: "div_add_loop ws (d # ds) c = (v - 10 * c') # div_add_loop wt ds c'"
    unfolding w by (auto simp: Let_def v_def c'_def)
  have "0 \<le> v - 10 * c'" "v - 10 * c' \<le> 9" using Cons.prems w by (auto simp: v_def c'_def)
  moreover have "lval (div_add_loop ws (d # ds) c) = lval ws + lval (d # ds) + c - 10 ^ length ws * k"
    unfolding e by (simp add: w IH(3) v_def algebra_simps)
  ultimately show ?case using IH(1,2) unfolding e by (auto simp: w)
qed

section \<open>Correctness of the quotient digit\<close>

lemma int_le_div_iff:
  fixes D :: int
  assumes "0 < D"
  shows "k \<le> W div D \<longleftrightarrow> k * D \<le> W"
proof
  have s: "W div D * D + W mod D = W" "0 \<le> W mod D" "W mod D < D" using assms by simp_all
  { assume "k \<le> W div D"
    then have "k * D \<le> W div D * D" using assms by (intro mult_right_mono) auto
    then show "k * D \<le> W" using s by linarith }
  { assume "k * D \<le> W"
    then have "k * D < (W div D + 1) * D" using s unfolding distrib_right by linarith
    then show "k \<le> W div D" using assms by simp }
qed

lemma int_div_less_iff:
  fixes D :: int
  assumes "0 < D"
  shows "W div D < k \<longleftrightarrow> W < k * D"
  using int_le_div_iff [OF assms, of k W] by linarith

text \<open>
  The guess, on numbers. \<open>W\<close> is the window, \<open>D\<close> the normalised divisor, both cut after the
  digits the tests look at: \<open>W = w * Y + r\<close> and \<open>D = d * Y + s\<close> with \<open>r, s < Y\<close>.
\<close>

lemma scaled_le:
  fixes a b Y r :: int
  assumes "a * Y \<le> b * Y + r" and "r < Y" and "0 < Y"
  shows "a \<le> b"
proof (rule ccontr)
  assume "\<not> a \<le> b"
  then have "(b + 1) * Y \<le> a * Y" using assms(3) by (intro mult_right_mono) auto
  then show False using assms unfolding distrib_right by linarith
qed

lemma qguess_test_too_big:
  fixes Y :: int
  assumes W: "W = (w0 * 100 + w1 * 10 + w2) * Y + r" and D: "D = (d0 * 10 + d1) * Y + s"
    and "0 \<le> r" "r < Y" "0 \<le> s" and p: "0 \<le> p" "p \<le> W div D" and "0 < D"
  shows "\<not> qguess_test d0 d1 w0 w1 w2 p"
proof -
  have "p * D \<le> W" using p \<open>0 < D\<close> by (simp add: int_le_div_iff)
  moreover have "p * D = p * (d0 * 10 + d1) * Y + p * s" by (simp add: D algebra_simps)
  moreover have "0 \<le> p * s" using assms by simp
  ultimately have "p * (d0 * 10 + d1) * Y \<le> (w0 * 100 + w1 * 10 + w2) * Y + r"
    using W by linarith
  then have "p * (d0 * 10 + d1) \<le> w0 * 100 + w1 * 10 + w2"
    by (rule scaled_le) (use assms(3,4) in auto)
  then show ?thesis unfolding qguess_test_def by (simp add: algebra_simps)
qed

lemma le_div_plus:
  fixes p D W :: int
  assumes "p * D < W + k * D" and "0 < D"
  shows "p \<le> W div D + k"
  using assms int_div_less_iff [of D W "p - k"] by (simp add: left_diff_distrib)

lemma qguess_test_close:
  fixes Y :: int
  assumes W: "W = (w0 * 100 + w1 * 10 + w2) * Y + r" and D: "D = (d0 * 10 + d1) * Y + s"
    and "0 \<le> r" "0 \<le> s" "s < Y" and p: "0 \<le> p" "p \<le> 9" and "5 \<le> d0" "0 \<le> d1"
    and t: "\<not> qguess_test d0 d1 w0 w1 w2 p"
  shows "p \<le> W div D + 1"
proof (rule le_div_plus)
  have "p * (d0 * 10 + d1) \<le> w0 * 100 + w1 * 10 + w2"
    using t unfolding qguess_test_def by (simp add: algebra_simps)
  then have "p * (d0 * 10 + d1) * Y \<le> (w0 * 100 + w1 * 10 + w2) * Y"
    using assms by (intro mult_right_mono) auto
  then have "p * (d0 * 10 + d1) * Y \<le> W" using W \<open>0 \<le> r\<close> by linarith
  moreover have "p * s \<le> 9 * s" using p assms by (intro mult_right_mono) auto
  moreover have D50: "50 * Y \<le> D - s"
    using assms mult_right_mono [of 50 "d0 * 10 + d1" Y] by simp
  moreover have "p * D = p * (d0 * 10 + d1) * Y + p * s" by (simp add: D algebra_simps)
  ultimately show "p * D < W + 1 * D" using assms(4,5) by linarith
  show "0 < D" using D50 assms(4,5) by linarith
qed

lemma qguess_start:
  fixes Y :: int
  assumes W: "W = (w0 * 10 + w1) * Y + r" and D: "D = d0 * Y + s"
    and "0 \<le> r" "r < Y" "0 \<le> s" "s < Y" and "5 \<le> d0" "w0 \<le> d0"
    and "0 \<le> w0" "0 \<le> w1" "w1 \<le> 9" and "W < 10 * D"
    and q: "q = (if d0 = w0 then 9 else (w0 * 10 + w1) div d0)"
  shows "W div D \<le> q" and "q \<le> 9" and "0 \<le> q" and "q \<le> W div D + 2"
proof -
  have "5 * Y \<le> d0 * Y" using assms by (intro mult_right_mono) auto
  then have "0 < D" using assms unfolding D by linarith
  have WD: "W div D < 10" using \<open>W < 10 * D\<close> \<open>0 < D\<close> by (simp add: int_div_less_iff)
  have "(w0 * 10 + w1) div d0 < 10" if "d0 \<noteq> w0"
    using that assms by (simp add: int_div_less_iff)
  then show "q \<le> 9" using q by auto
  show "0 \<le> q" using q assms by (auto simp: pos_imp_zdiv_nonneg_iff)
  have "0 \<le> W" using assms by simp
  then have "0 \<le> W div D * s" using \<open>0 < D\<close> assms by (simp add: pos_imp_zdiv_nonneg_iff)
  moreover have "W div D * D \<le> W"
    using \<open>0 < D\<close> div_mult_mod_eq [of W D] pos_mod_sign [of D W] by linarith
  ultimately have "W div D * d0 * Y \<le> (w0 * 10 + w1) * Y + r"
    using W D by (simp add: algebra_simps)
  then have "W div D * d0 \<le> w0 * 10 + w1" by (rule scaled_le) (use assms(3,4) in auto)
  then have "W div D \<le> (w0 * 10 + w1) div d0" using assms by (simp add: int_le_div_iff)
  with WD show "W div D \<le> q" using q by auto
  have "q * d0 \<le> w0 * 10 + w1"
    using q assms(7-11) int_le_div_iff [of d0 "(w0 * 10 + w1) div d0" "w0 * 10 + w1"]
    by (auto split: if_splits)
  then have "q * d0 * Y \<le> (w0 * 10 + w1) * Y" using assms by (intro mult_right_mono) auto
  moreover have "q * s \<le> 9 * s" using \<open>q \<le> 9\<close> assms by (intro mult_right_mono) auto
  moreover have "q * D = q * d0 * Y + q * s" by (simp add: D algebra_simps)
  moreover have "(w0 * 10 + w1) * Y \<le> W" "5 * Y + s \<le> D"
    using \<open>5 * Y \<le> d0 * Y\<close> assms(3) by (simp_all add: W D)
  ultimately have "q * D < W + 2 * D" using assms(5,6) by linarith
  then show "q \<le> W div D + 2" using \<open>0 < D\<close> by (rule le_div_plus)
qed

text \<open>The guess on the digits: it is the quotient digit, or one more.\<close>

lemma qguess_props:
  assumes w: "digits_ok num1" and n: "digits_ok n2" "n2 \<noteq> []" "5 \<le> hd n2"
    and len: "length n2 + 1 \<le> length num1" "3 \<le> length num1"
    and W: "W = dval (take (length n2 + 1) num1)" and D: "D = dval n2"
    and lt: "dval (take (length n2) num1) < D"
  shows "qguess num1 n2 = W div D \<or> qguess num1 n2 = W div D + 1 \<and> W div D + 1 \<le> 9"
proof -
  obtain w0 w1 w2 ws where n1: "num1 = w0 # w1 # w2 # ws"
    using len(2) by (auto simp: numeral_3_eq_3 Suc_le_length_iff)
  obtain d0 ds where n2: "n2 = d0 # ds" using n(2) by (cases n2) auto
  have d: "0 \<le> w0" "w0 \<le> 9" "0 \<le> w1" "w1 \<le> 9" "0 \<le> w2" "w2 \<le> 9" "5 \<le> d0" "d0 \<le> 9"
    using w n by (auto simp: n1 n2)
  define q0 where "q0 = (if d0 = w0 then 9 else (w0 * 10 + w1) div d0)"
  show ?thesis
  proof (cases ds)
    case Nil
    then have lt': "w0 < d0" and W': "W = w0 * 10 + w1" and D': "D = d0"
      using lt W D by (simp_all add: n1 n2)
    then have "q0 * d0 \<le> w0 * 10 + w1"
      using int_le_div_iff [of d0 q0 "w0 * 10 + w1"] d by (simp add: q0_def)
    then have "\<not> qguess_test d0 0 w0 w1 w2 q0"
      using d by (simp add: qguess_test_def algebra_simps)
    then have "qguess num1 n2 = q0" by (simp add: qguess_def n1 n2 Nil q0_def Let_def)
    with lt' show ?thesis by (simp add: q0_def W' D')
  next
    case (Cons d1 dt)
    define X where "X = (10::int) ^ length dt"
    define r where "r = dval (take (length dt) ws)"
    have "length dt \<le> length ws" using len(1) by (simp add: n1 n2 Cons)
    then have lr: "length (take (length dt) ws) = length dt" by simp
    have "digits_ok (take (length dt) ws)" "digits_ok dt"
      using w n by (auto simp: n1 n2 Cons)
    from dval_bounds [OF this(1)] dval_bounds [OF this(2)]
    have r: "0 \<le> r" "r < X" and s: "0 \<le> dval dt" "dval dt < X"
      unfolding lr by (simp_all add: X_def r_def)
    have "0 < X" by (simp add: X_def)
    have d1: "0 \<le> d1" "d1 \<le> 9" using n by (auto simp: n2 Cons)
    have W3: "W = (w0 * 100 + w1 * 10 + w2) * X + r"
      using lr by (simp add: W n1 n2 Cons X_def r_def algebra_simps)
    have D2: "D = (d0 * 10 + d1) * X + dval dt"
      by (simp add: D n2 Cons X_def algebra_simps)
    have W2: "W = (w0 * 10 + w1) * (10 * X) + (w2 * X + r)" and D1: "D = d0 * (10 * X) + (d1 * X + dval dt)"
      by (simp_all add: W3 D2 algebra_simps)
    have c: "a * X \<le> 9 * X" "0 \<le> a * X" if "0 \<le> a" "a \<le> 9" for a
      using that \<open>0 < X\<close> by (auto intro: mult_right_mono)
    have b: "0 \<le> w2 * X + r" "w2 * X + r < 10 * X" "0 \<le> d1 * X + dval dt" "d1 * X + dval dt < 10 * X"
      using r s c [OF d(5,6)] c [OF d1] by linarith+
    have Wt: "W = dval (take (length n2) num1) * 10 + num1 ! length n2"
      using len(1) by (simp add: W take_Suc_conv_app_nth)
    have "num1 ! length n2 \<le> 9" using digits_ok_nth [OF w] len(1) by simp
    then have W10: "W < 10 * D" using Wt lt by linarith
    have "50 * X \<le> d0 * (10 * X)" using d(7) \<open>0 < X\<close> by simp
    then have D0: "0 < D" using b \<open>0 < X\<close> unfolding D1 by linarith
    have "w0 \<le> d0"
    proof (rule scaled_le)
      have "0 \<le> w1 * (10 * X)" using d(3) \<open>0 < X\<close> by simp
      moreover have "W = w0 * (10 * X) * 10 + w1 * (10 * X) + (w2 * X + r)"
        by (simp add: W3 algebra_simps)
      ultimately have "w0 * (10 * X) * 10 \<le> W" using b(1) by linarith
      then show "w0 * (10 * X) \<le> d0 * (10 * X) + (d1 * X + dval dt)" using W10 D1 by linarith
    qed (use b \<open>0 < X\<close> in auto)
    note g = qguess_start [OF W2 D1 b d(7) this d(1,3,4) W10 q0_def]
    have q: "qguess num1 n2 = (if qguess_test d0 d1 w0 w1 w2 q0 then
        (if qguess_test d0 d1 w0 w1 w2 (q0 - 1) then q0 - 1 - 1 else q0 - 1) else q0)"
      by (simp add: qguess_def n1 n2 Cons Let_def q0_def)
    note tb = qguess_test_too_big [OF W3 D2 r s(1) _ _ D0]
    note tc = qguess_test_close [OF W3 D2 r(1) s _ _ d(7) d1(1)]
    have "0 \<le> W div D" using W3 r d \<open>0 < X\<close> D0 by (simp add: pos_imp_zdiv_nonneg_iff)
    then have "W div D < q0" if "qguess_test d0 d1 w0 w1 w2 q0"
      using that tb [of q0] g(3) by (meson linorder_not_less)
    moreover have "W div D < q0 - 1" if "qguess_test d0 d1 w0 w1 w2 (q0 - 1)" "W div D < q0"
      using that tb [of "q0 - 1"] \<open>0 \<le> W div D\<close> by force
    ultimately show ?thesis
      using tc [of q0] tc [of "q0 - 1"] g \<open>0 \<le> W div D\<close> unfolding q by force
  qed
qed

text \<open>Two numbers below \<open>B\<close> that differ by a multiple of \<open>B\<close> are equal.\<close>

lemma wrap_unique:
  fixes B :: int
  assumes "x = y + B * k" and "0 \<le> x" "x < B" "0 \<le> y" "y < B"
  shows "x = y"
proof -
  have "x mod B = y mod B" by (simp add: assms(1))
  then show ?thesis using assms(2-5) by (simp only: mod_pos_pos_trivial)
qed

lemma div_mod_eqI:
  fixes D :: int
  assumes "W = D * q + r" and "0 \<le> r" "r < D"
  shows "W div D = q \<and> W mod D = r"
  using assms by auto

text \<open>One round of the loop leaves the quotient digit and, in the window, the remainder.\<close>

lemma div_step_props:
  assumes w: "digits_ok num1" and n: "digits_ok n2" "n2 \<noteq> []" "5 \<le> hd n2"
    and len: "length n2 + 1 \<le> length num1" "3 \<le> length num1"
    and W: "W = dval (take (length n2 + 1) num1)" and D: "D = dval n2"
    and lt: "dval (take (length n2) num1) < D"
  obtains ws where "div_step num1 n2 = (W div D, ws @ drop (length n2 + 1) num1)"
    and "digits_ok ws" and "length ws = length n2 + 1" and "dval ws = W mod D"
    and "0 \<le> W div D" and "W div D \<le> 9"
proof -
  define win q B where "win = take (length n2 + 1) num1" and "q = qguess num1 n2"
    and "B = (10::int) ^ (length n2 + 1)"
  note qg = qguess_props [OF assms, folded q_def]
  have win: "digits_ok win" "length win = length n2 + 1" using w len by (auto simp: win_def)
  have Wb: "0 \<le> W" "W < B" using dval_bounds [OF win(1)] win(2) W by (simp_all add: win_def B_def)
  have Db: "0 \<le> D" "10 * D < B" using dval_bounds [OF n(1)] by (simp_all add: D B_def)
  have "0 \<le> dval (take (length n2) num1)" using w by (intro dval_bounds) auto
  then have D0: "0 < D" using lt by linarith
  have q0: "0 \<le> W div D" using Wb D0 by (simp add: pos_imp_zdiv_nonneg_iff)
  have "W = dval (take (length n2) num1) * 10 + num1 ! length n2"
    using len(1) by (simp add: W take_Suc_conv_app_nth)
  moreover have "num1 ! length n2 \<le> 9" using digits_ok_nth [OF w] len(1) by simp
  ultimately have "W < 10 * D" using lt by linarith
  then have q9: "W div D \<le> 9" using D0 int_div_less_iff [of D W 10] by simp
  have mb: "0 \<le> W mod D" "W mod D < B" using D0 Db pos_mod_bound [OF D0, of W] pos_mod_sign [OF D0, of W] by linarith+
  have WDq: "W = W div D * D + W mod D" by simp
  show thesis
  proof (cases "q = 0")
    case True
    then have "W div D = 0" using qg q0 by auto
    then have "div_step num1 n2 = (W div D, win @ drop (length n2 + 1) num1)" "dval win = W mod D"
      using True WDq by (simp_all add: div_step_def Let_def win_def q_def W)
    then show thesis using that win q0 q9 by blast
  next
    case False
    obtain c m where om: "one_mult n2 q = (c, m)" by fastforce
    have qb: "0 \<le> q" "q \<le> 9" using qg q0 q9 by auto
    note m = one_mult_props [OF n(1) qb(1) om]
    have "D * q \<le> D * 9" using qb Db by (intro mult_left_mono) auto
    moreover have "0 \<le> dval m" using m by (intro dval_bounds)
    ultimately have "c * 10 ^ length n2 < 10 * 10 ^ length n2"
      using m(4) Db unfolding D B_def power_add power_one_right by linarith
    then have c9: "c \<le> 9" by simp
    obtain ds b where sl: "div_sub_loop (rev win) (rev (c # m)) 0 = (ds, b)" by fastforce
    have "digits_ok (rev win)" "digits_ok (rev (c # m))" "length (rev win) = length (rev (c # m))"
      using win m c9 by auto
    from div_sub_loop_props [OF this _ sl]
    have ds: "digits_ok ds" "length ds = length n2 + 1" "b = 0 \<or> b = 1"
      "lval ds = W - (c * 10 ^ length m + dval m) + B * b"
      using win(2) by (simp_all add: lval_rev del: rev.simps) (simp_all add: W win_def B_def)
    have dsv: "lval ds = W - D * q + B * b" using ds(4) m by (simp add: D)
    have dsb: "0 \<le> lval ds" "lval ds < B" using lval_bounds [OF ds(1)] ds(2) by (simp_all add: B_def)
    have st: "div_step num1 n2 = (if b = 1 then (q - 1, rev (div_add_loop ds (rev n2) 0) @ drop (length n2 + 1) num1)
        else (q, rev ds @ drop (length n2 + 1) num1))"
      using False om sl by (simp add: div_step_def Let_def win_def q_def)
    show thesis
    proof (cases "q = W div D")
      case True
      then have v: "W - D * q = W mod D" by (simp add: minus_mult_div_eq_mod)
      then have "lval ds = W mod D" using wrap_unique [of "lval ds" "W mod D" B b] dsv dsb mb by simp
      moreover from this have "b = 0" using dsv v ds(3) Wb by auto
      ultimately show thesis using that [of "rev ds"] st True ds q0 q9 by (simp add: dval_rev)
    next
      case False
      then have q1: "q = W div D + 1" using qg by auto
      then have v: "W - D * q = W mod D - D" using WDq by (simp add: algebra_simps)
      then have b1: "b = 1" using dsv dsb ds(3) pos_mod_bound [OF D0, of W] by force
      have "digits_ok (rev n2)" "length ds = Suc (length (rev n2))" using n ds by auto
      from div_add_loop_props [OF ds(1) this, of 0] obtain k
        where a: "digits_ok (div_add_loop ds (rev n2) 0)"
          "length (div_add_loop ds (rev n2) 0) = length n2 + 1"
          "lval (div_add_loop ds (rev n2) 0) = lval ds + D - B * k"
        using ds(2) by (auto simp: lval_rev D B_def)
      have "lval (div_add_loop ds (rev n2) 0) = W mod D + B * (1 - k)"
        using a(3) dsv v b1 by (simp add: algebra_simps)
      then have "lval (div_add_loop ds (rev n2) 0) = W mod D"
        by (rule wrap_unique) (use lval_bounds [OF a(1)] a(2) mb in \<open>simp_all add: B_def\<close>)
      then show thesis
        using that [of "rev (div_add_loop ds (rev n2) 0)"] st b1 q1 a q0 q9 by (simp add: dval_rev)
    qed
  qed
qed

text \<open>The loop: long division of the digits the windows run over.\<close>

lemma div_mod_shift:
  fixes W D B V :: int
  assumes "D \<noteq> 0"
  shows "(W * B + V) div D = W div D * B + (W mod D * B + V) div D"
proof -
  have "W * B + V = (W mod D * B + V) + W div D * B * D"
    by (metis (no_types, lifting) add.assoc add.commute distrib_right div_mult_mod_eq mult.assoc mult.commute)
  then show ?thesis by (simp only: div_mult_self1 [OF assms])
qed

lemma div_loop_props:
  assumes "digits_ok num1" and n: "digits_ok n2" "n2 \<noteq> []" "5 \<le> hd n2"
    and "length n2 + k + 1 \<le> length num1" and "dval (take (length n2) num1) < dval n2"
  shows "digits_ok (div_loop k num1 n2) \<and> length (div_loop k num1 n2) = k \<and>
    dval (div_loop k num1 n2) = dval (take (length n2 + k) num1) div dval n2"
  using assms(1,5,6)
proof (induction k arbitrary: num1)
  case 0
  have "0 \<le> dval (take (length n2) num1)" using 0 by (intro dval_bounds) auto
  with 0 show ?case by simp
next
  case (Suc k)
  define m D W where "m = length n2" and "D = dval n2" and "W = dval (take (m + 1) num1)"
  have "1 \<le> m" using n(2) by (simp add: m_def Suc_le_eq)
  have len: "m + Suc k + 1 \<le> length num1" using Suc.prems(2) by (simp add: m_def)
  obtain ws where st: "div_step num1 n2 = (W div D, ws @ drop (m + 1) num1)"
    and ws: "digits_ok ws" "length ws = m + 1" "dval ws = W mod D"
    and q: "0 \<le> W div D" "W div D \<le> 9"
    using div_step_props [OF Suc.prems(1) n _ _ W_def [unfolded m_def] D_def] Suc.prems(3) len
      \<open>1 \<le> m\<close> unfolding D_def m_def by auto
  obtain w wt where w: "ws = w # wt" using ws(2) by (cases ws) auto
  have D: "0 < D" "D < 10 ^ m"
    using Suc.prems(3) dval_bounds(1) [OF digits_ok_takeI [OF Suc.prems(1)], of "length n2"]
      dval_bounds [OF n(1)] by (simp_all add: D_def m_def)
  have "w = 0"
  proof (rule ccontr)
    assume "w \<noteq> 0"
    then have "10 ^ m \<le> dval ws" using dval_lead [of w wt] ws w by simp
    then show False using ws(3) D pos_mod_bound [OF D(1), of W] by linarith
  qed
  then have wt: "dval wt = W mod D" "length wt = m" "digits_ok wt" using ws w by auto
  define num' where "num' = wt @ drop (m + 1) num1"
  have lp: "div_loop (Suc k) num1 n2 = W div D # div_loop k num' n2"
    by (simp add: st w num'_def)
  have "digits_ok num'" "m + k + 1 \<le> length num'" "dval (take m num') < D"
    using wt len Suc.prems(1) D by (auto simp: num'_def)
  from Suc.IH [OF this [unfolded m_def D_def]]
  have IH: "digits_ok (div_loop k num' n2)" "length (div_loop k num' n2) = k"
    "dval (div_loop k num' n2) = dval (take (m + k) num') div D"
    by (simp_all add: m_def D_def)
  define V where "V = dval (take k (drop (m + 1) num1))"
  have lV: "length (take k (drop (m + 1) num1)) = k" using len by simp
  have "dval (take (m + k) num') = W mod D * 10 ^ k + V"
    using wt lV by (simp add: num'_def V_def)
  moreover have "take (m + Suc k) num1 = take (m + 1) num1 @ take k (drop (m + 1) num1)"
    using take_add [of "m + 1" k num1] by simp
  then have "dval (take (m + Suc k) num1) = W * 10 ^ k + V"
    using lV by (simp add: W_def V_def)
  ultimately show ?case
    using IH q D div_mod_shift [of D W "10 ^ k" V] by (simp add: lp del: div_loop.simps flip: m_def D_def)
qed

text \<open>The normalised divisor starts with at least five and neither operand overflows.\<close>

lemma norm_bounds:
  fixes d :: int
  assumes "1 \<le> d" and "d \<le> 9"
  shows "5 \<le> 10 div (d + 1) * d" and "10 div (d + 1) * (d + 1) \<le> 10"
    and "1 \<le> 10 div (d + 1)" and "10 div (d + 1) \<le> 5"
proof -
  have "d \<in> {1, 2, 3, 4, 5, 6, 7, 8, 9}" using assms by auto
  then show "5 \<le> 10 div (d + 1) * d" "10 div (d + 1) * (d + 1) \<le> 10" "1 \<le> 10 div (d + 1)"
    "10 div (d + 1) \<le> 5" by auto
qed

lemma one_mult_no_carry:
  assumes "digits_ok num" and "0 \<le> k" and "dval num * k < 10 ^ length num"
  obtains m where "one_mult num k = (0, m)" and "digits_ok m" and "length m = length num"
    and "dval m = dval num * k"
proof -
  obtain c m where om: "one_mult num k = (c, m)" by fastforce
  note p = one_mult_props [OF assms(1,2) om]
  have "0 \<le> dval m" using p by (intro dval_bounds)
  then have "c * 10 ^ length num < 1 * 10 ^ length num" using p(4) assms(3) by linarith
  then have "c = 0" using p(3) by simp
  then show thesis using that om p by simp
qed

lemma div_normalize_props:
  assumes "digits_ok num1" and "digits_ok (d # ds)" and "d \<noteq> 0"
  obtains k num1' n2' where "div_normalize (0 # num1) (d # ds) = Some (num1', n2')"
    and "1 \<le> k" and "digits_ok num1'" and "length num1' = Suc (length num1)" and "dval num1' = dval num1 * k"
    and "digits_ok n2'" and "length n2' = Suc (length ds)" and "dval n2' = dval (d # ds) * k"
    and "5 \<le> hd n2'"
proof -
  define k X where "k = 10 div (d + 1)" and "X = (10::int) ^ length ds"
  have d: "1 \<le> d" "d \<le> 9" and ds: "digits_ok ds" using assms by auto
  note k = norm_bounds [OF d, folded k_def]
  have s: "0 \<le> dval ds" "dval ds < X" "0 < X" using dval_bounds [OF ds] by (simp_all add: X_def)
  have n2: "dval (d # ds) = d * X + dval ds" by (simp add: X_def)
  have "dval (d # ds) * k < (d + 1) * X * k"
    using s k unfolding n2 by (intro mult_strict_right_mono) (auto simp: distrib_right)
  also have "\<dots> = k * (d + 1) * X" by (simp add: ac_simps)
  also have "\<dots> \<le> 10 * X" using k s by (intro mult_right_mono) auto
  finally have n2k: "dval (d # ds) * k < 10 ^ length (d # ds)" by (simp add: X_def)
  have "0 \<le> dval num1" "dval num1 < 10 ^ length num1" using dval_bounds [OF assms(1)] by auto
  moreover have "dval num1 * k \<le> dval num1 * 5" using k calculation by (intro mult_left_mono) auto
  ultimately have n1k: "dval (0 # num1) * k < 10 ^ length (0 # num1)" by simp
  have "digits_ok (0 # num1)" "0 \<le> k" using assms k by auto
  from one_mult_no_carry [OF this n1k] obtain m1 where m1: "one_mult (0 # num1) k = (0, m1)"
    "digits_ok m1" "length m1 = Suc (length num1)" "dval m1 = dval num1 * k" by auto
  from one_mult_no_carry [OF assms(2) \<open>0 \<le> k\<close> n2k] obtain m2 where m2: "one_mult (d # ds) k = (0, m2)"
    "digits_ok m2" "length m2 = Suc (length ds)" "dval m2 = dval (d # ds) * k" by auto
  have "5 \<le> hd m2"
  proof -
    obtain e es where e: "m2 = e # es" using m2(3) by (cases m2) auto
    have "5 * X \<le> d * k * X" using k s by (intro mult_right_mono) (auto simp: mult.commute)
    moreover have "d * k * X \<le> dval m2"
      using s k unfolding m2(4) n2 by (simp add: distrib_right ac_simps)
    moreover have "dval m2 = e * X + dval es" using e m2(3) by (simp add: X_def)
    moreover have "dval es < X" using dval_bounds(2) [of es] m2(2,3) e by (simp add: X_def)
    ultimately have "5 * X \<le> e * X + dval es" "dval es < X" by linarith+
    then have "5 \<le> e" using s(3) by (rule scaled_le)
    then show ?thesis by (simp add: e)
  qed
  moreover have "one_mult xs 1 = (0, xs)" for xs by (simp add: one_mult_def)
  then have "div_normalize (0 # num1) (d # ds) = Some (m1, m2)"
    using m1 m2 by (auto simp: div_normalize_def Let_def k_def [symmetric])
  ultimately show thesis using that m1 m2 k by blast
qed

section \<open>Correctness of the division\<close>

lemma trim_scale_props:
  assumes "trim_scale ds s = s'" and "s \<le> length ds"
  shows "s' \<le> s \<and> lval ds = 10 ^ (s - s') * lval (drop (s - s') ds)"
  using assms
proof (induction ds arbitrary: s)
  case (Cons d ds)
  show ?case
  proof (cases "s > 0 \<and> d = 0")
    case True
    then have "s' \<le> s - 1" "lval ds = 10 ^ (s - 1 - s') * lval (drop (s - 1 - s') ds)"
      using Cons.IH [of "s - 1"] Cons.prems by auto
    moreover from this have "s - s' = Suc (s - 1 - s')" using True by linarith
    ultimately show ?thesis using True by simp
  qed (use Cons.prems in auto)
qed simp

lemma trim_scale_dval:
  assumes "trim_scale (rev ds) s = s'" and "s \<le> length ds"
  shows "s' \<le> s" and "dval ds = dval (take (length ds - (s - s')) ds) * 10 ^ (s - s')"
  using trim_scale_props [OF assms(1)] assms(2) by (simp_all add: lval_rev drop_rev mult.commute)

lemma dval_dropWhile: "dval (dropWhile (\<lambda>d. d = 0) ds) = dval ds"
  by (induction ds) auto

lemma dropWhile_nonzero:
  assumes "digits_ok ds" and "dval ds \<noteq> 0"
  obtains e es where "dropWhile (\<lambda>d. d = 0) ds = e # es" and "e \<noteq> 0" and "digits_ok (e # es)"
    and "length (e # es) \<le> length ds"
proof (cases "dropWhile (\<lambda>d. d = 0) ds")
  case Nil
  then show thesis using assms(2) dval_dropWhile [of ds, unfolded Nil] by simp
next
  case (Cons e es)
  have "e \<noteq> 0" using hd_dropWhile [of "\<lambda>d. d = 0" ds] Cons by simp
  moreover have "digits_ok (e # es)"
    using assms(1) Cons set_dropWhileD [of _ "\<lambda>d. d = 0" ds] by (auto simp: digits_ok_def list_all_iff)
  moreover have "length (e # es) \<le> length ds" by (metis Cons length_dropWhile_le)
  ultimately show thesis using that Cons by blast
qed

text \<open>The quotient digits: \<open>len1 + scale\<close> digits of the dividend are divided, rounding down.\<close>

lemma quotient_digits:
  assumes num: "digits_ok num" and n2: "digits_ok (d # ds)" "d \<noteq> 0"
    and L: "L \<le> length num" and k: "Suc (length ds) \<le> L"
  obtains num1' n2' where "div_normalize (0 # num) (d # ds) = Some (num1', n2')"
    and "digits_ok (div_loop (L - Suc (length ds) + 1) (num1' @ [0]) n2')"
    and "length (div_loop (L - Suc (length ds) + 1) (num1' @ [0]) n2') = L - Suc (length ds) + 1"
    and "dval (div_loop (L - Suc (length ds) + 1) (num1' @ [0]) n2')
           = dval num div (10 ^ (length num - L) * dval (d # ds))"
proof -
  define m where "m = Suc (length ds)"
  obtain k' num1' n2' where nz: "div_normalize (0 # num) (d # ds) = Some (num1', n2')"
    and k': "1 \<le> k'" and n1': "digits_ok num1'" "length num1' = Suc (length num)"
      "dval num1' = dval num * k'"
    and n2': "digits_ok n2'" "length n2' = m" "dval n2' = dval (d # ds) * k'" "5 \<le> hd n2'"
    unfolding m_def by (rule div_normalize_props [OF num n2])
  have tk: "dval (take j (num1' @ [0])) = dval num * k' div 10 ^ (Suc (length num) - j)"
    if "j \<le> Suc (length num)" for j
    using that n1' dval_take [OF n1'(1), of j] by simp
  have mL: "m \<le> L" using k by (simp add: m_def)
  have "dval num * k' < 10 ^ length num * k'"
    using dval_bounds [OF num] k' by (intro mult_strict_right_mono) auto
  also have "\<dots> = 10 ^ length ds * k' * 10 ^ (Suc (length num) - m)"
    using k L by (simp add: m_def mult.commute mult.left_commute flip: power_add)
  also have "\<dots> \<le> dval (d # ds) * k' * 10 ^ (Suc (length num) - m)"
    using dval_lead [OF n2] k' by (intro mult_right_mono) auto
  finally have lt: "dval (take (length n2') (num1' @ [0])) < dval n2'"
    using tk [of m] mL L n2' by (simp add: int_div_less_iff)
  let ?l = "div_loop (L - m + 1) (num1' @ [0]) n2'"
  have "digits_ok (num1' @ [0])" "n2' \<noteq> []" "length n2' + (L - m + 1) + 1 \<le> length (num1' @ [0])"
    using n1' n2' L mL by (auto simp: m_def)
  note dl = div_loop_props [OF this(1) n2'(1) this(2) n2'(4) this(3) lt]
  have "dval ?l = dval num * k' div 10 ^ (length num - L) div (dval (d # ds) * k')"
    using dl tk [of "L + 1"] L mL n2' by (simp add: Suc_diff_le)
  also have "\<dots> = (dval num * k') div (10 ^ (length num - L) * dval (d # ds) * k')"
    using k' dval_bounds [OF n2(1)] by (simp add: zdiv_zmult2_eq mult.assoc)
  also have "\<dots> = dval num div (10 ^ (length num - L) * dval (d # ds))"
    using k' by (simp only: div_mult_mult2)
  finally have "dval ?l = dval num div (10 ^ (length num - L) * dval (d # ds))" .
  then show thesis using that [OF nz] dl by (simp add: m_def)
qed

text \<open>What the setup and the loop deliver: \<open>qs\<close> are the digits of the truncated quotient.\<close>

lemma bc_divide_digits:
  assumes n1: "bc_ok n1" and n2: "bc_ok n2" and nz: "bc_mag n2 \<noteq> 0"
  obtains qs ql where "digits_ok qs" and "length qs = ql + scale" and "1 \<le> ql"
    and "of_int (dval qs) = (of_int (trunc_int (of_int (bc_mag n1) / 10 ^ n_scale n1 /
           (of_int (bc_mag n2) / 10 ^ n_scale n2) * 10 ^ scale)) :: rat)"
    and "bc_divide n1 n2 scale =
       (let qval = (bc_new_num ql scale)\<lparr>n_value := qs,
              n_sign := (if n_sign n1 = n_sign n2 then PLUS else MINUS)\<rparr>;
            qval = (if bc_is_zero qval then qval\<lparr>n_sign := PLUS\<rparr> else qval)
        in Quot (bc_rm_leading_zeros qval))"
proof -
  define s2 where "s2 = trim_scale (rev (bc_digits n2)) (n_scale n2)"
  define M where "M = dval (take (n_len n2 + s2) (n_value n2))"
  define extra where "extra = (if int (n_scale n1) - int s2 < int scale
    then nat (int scale - (int (n_scale n1) - int s2)) else 0)"
  define num L where "num = bc_digits n1 @ replicate extra 0" and "L = n_len n1 + s2 + scale"
  have s2: "s2 \<le> n_scale n2" and "bc_mag n2 = dval (take (n_len n2 + n_scale n2 - (n_scale n2 - s2)) (bc_digits n2)) * 10 ^ (n_scale n2 - s2)"
    using trim_scale_dval [OF s2_def [symmetric]] n2 by (simp_all add: bc_mag_def)
  then have M: "bc_mag n2 = M * 10 ^ (n_scale n2 - s2)"
    by (simp add: M_def bc_digits_def min_def)
  have "digits_ok (take (n_len n2 + s2) (n_value n2))" "M \<noteq> 0"
    using n2 nz M by (auto simp: bc_ok_def)
  from dropWhile_nonzero [OF this [unfolded M_def]] obtain e es
    where es: "dropWhile (\<lambda>d. d = 0) (take (n_len n2 + s2) (n_value n2)) = e # es"
      "e \<noteq> 0" "digits_ok (e # es)" by blast
  then have Me: "dval (e # es) = M" using dval_dropWhile [of "take (n_len n2 + s2) (n_value n2)"]
    by (simp only: M_def)
  have M0: "0 < M" using dval_lead [OF es(3,2)] unfolding Me by (rule order.strict_trans2 [rotated]) simp
  have num: "digits_ok num" "length num = n_len n1 + n_scale n1 + extra"
    "dval num = bc_mag n1 * 10 ^ extra" using n1 by (auto simp: num_def bc_mag_def)
  have L: "L \<le> length num" by (auto simp: num(2) L_def extra_def)
  have le: "length num - L + (s2 + scale) = n_scale n1 + extra"
    by (auto simp: num(2) L_def extra_def)
  define Q where "Q = dval num div (10 ^ (length num - L) * M)"
  have "of_int (bc_mag n1) / 10 ^ n_scale n1 / (of_int (bc_mag n2) / 10 ^ n_scale n2) * 10 ^ scale
      = (of_int (dval num) / of_int (10 ^ (length num - L) * M) :: rat)"
  proof -
    have "(10::rat) ^ n_scale n2 = 10 ^ s2 * 10 ^ (n_scale n2 - s2)"
      using s2 by (simp flip: power_add)
    moreover have "(10::rat) ^ (length num - L) * (10 ^ s2 * 10 ^ scale) = 10 ^ n_scale n1 * 10 ^ extra"
      using le by (simp flip: power_add)
    ultimately show ?thesis using M0 by (simp add: M num(3) field_simps)
  qed
  then have tr: "trunc_int (of_int (bc_mag n1) / 10 ^ n_scale n1 /
      (of_int (bc_mag n2) / 10 ^ n_scale n2) * 10 ^ scale) = Q"
    using M0 dval_bounds(1) [OF num(1)] by (simp only:) (subst trunc_int_frac; simp add: Q_def)
  let ?len2 = "length (e # es)" and ?len1 = "n_len n1 + s2"
  define qd where "qd = (if ?len2 > ?len1 then scale + 1 else ?len1 - ?len2 + scale + 1)"
  have qd: "qd = (qd - scale) + scale" "1 \<le> qd - scale" by (auto simp: qd_def)
  have zn: "\<not> bc_is_zero n2" using n2 nz by simp
  show thesis
  proof (cases "?len2 > L")
    case True
    have "dval num < 10 ^ (length num - L) * 10 ^ length es"
    proof -
      have "dval num < 10 ^ length num" using dval_bounds [OF num(1)] by simp
      also have "(10::int) ^ length num \<le> 10 ^ (length num - L + length es)"
        using True L by (intro power_increasing) auto
      finally show ?thesis by (simp add: power_add)
    qed
    also have "\<dots> \<le> 10 ^ (length num - L) * M"
      using dval_lead [OF es(3,2)] unfolding Me by (intro mult_left_mono) auto
    finally have "Q = 0" using dval_bounds(1) [OF num(1)] by (simp add: Q_def)
    moreover have "bc_divide n1 n2 scale =
       (let qval = (bc_new_num (qd - scale) scale)\<lparr>n_value := replicate qd 0,
              n_sign := (if n_sign n1 = n_sign n2 then PLUS else MINUS)\<rparr>;
            qval = (if bc_is_zero qval then qval\<lparr>n_sign := PLUS\<rparr> else qval)
        in Quot (bc_rm_leading_zeros qval))"
      using zn True
      by (simp add: bc_divide_def Let_def es(1) L_def qd_def flip: s2_def extra_def)
    ultimately show thesis using that [of "replicate qd 0" "qd - scale"] qd tr by simp
  next
    case False
    then have "Suc (length es) \<le> L" by simp
    from quotient_digits [OF num(1) es(3,2) L this] obtain num1' n2'
      where q: "div_normalize (0 # num) (e # es) = Some (num1', n2')"
        "digits_ok (div_loop (L - ?len2 + 1) (num1' @ [0]) n2')"
        "length (div_loop (L - ?len2 + 1) (num1' @ [0]) n2') = L - ?len2 + 1"
        "dval (div_loop (L - ?len2 + 1) (num1' @ [0]) n2') = Q"
      unfolding Q_def Me list.size add_0_right add_Suc_right by blast
    let ?qs = "replicate (?len2 - ?len1) 0 @ div_loop (L - ?len2 + 1) (num1' @ [0]) n2'"
    have "bc_divide n1 n2 scale =
       (let qval = (bc_new_num (qd - scale) scale)\<lparr>n_value := ?qs,
              n_sign := (if n_sign n1 = n_sign n2 then PLUS else MINUS)\<rparr>;
            qval = (if bc_is_zero qval then qval\<lparr>n_sign := PLUS\<rparr> else qval)
        in Quot (bc_rm_leading_zeros qval))"
      using zn False q(1)
      by (simp add: bc_divide_def Let_def es(1) L_def qd_def num_def flip: s2_def extra_def)
    moreover have "length ?qs = qd - scale + scale"
      using q(3) False by (auto simp: qd_def L_def)
    ultimately show thesis using that [of ?qs "qd - scale"] qd tr q(2,4) by simp
  qed
qed

theorem bc_divide_correct:
  assumes "bc_ok n1" and "bc_ok n2" and "bc_mag n2 \<noteq> 0"
  obtains q where "bc_divide n1 n2 scale = Quot q" and "bc_wf q" and "n_scale q = scale"
    and "bc_val q = trunc_to scale (bc_val n1 / bc_val n2)"
proof -
  obtain qs ql where qs: "digits_ok qs" "length qs = ql + scale" "1 \<le> ql"
    and v: "of_int (dval qs) = (of_int (trunc_int (of_int (bc_mag n1) / 10 ^ n_scale n1 /
           (of_int (bc_mag n2) / 10 ^ n_scale n2) * 10 ^ scale)) :: rat)"
    and dv: "bc_divide n1 n2 scale =
       (let qval = (bc_new_num ql scale)\<lparr>n_value := qs,
              n_sign := (if n_sign n1 = n_sign n2 then PLUS else MINUS)\<rparr>;
            qval = (if bc_is_zero qval then qval\<lparr>n_sign := PLUS\<rparr> else qval)
        in Quot (bc_rm_leading_zeros qval))"
    by (rule bc_divide_digits [OF assms])
  define sg where "sg = (if n_sign n1 = n_sign n2 then PLUS else MINUS)"
  define q0 where "q0 = (bc_new_num ql scale)\<lparr>n_value := qs, n_sign := sg\<rparr>"
  define q1 where "q1 = (if bc_is_zero q0 then q0\<lparr>n_sign := PLUS\<rparr> else q0)"
  have q1: "n_len q1 = ql" "n_scale q1 = scale" "n_value q1 = qs" "bc_mag q1 = dval qs"
    using qs by (auto simp: q1_def q0_def bc_mag_def bc_digits_def)
  have z: "bc_is_zero q0 \<longleftrightarrow> dval qs = 0"
    using qs skip_zeros_all [of "length qs" qs] dval_eq_0_iff [OF qs(1)]
    by (auto simp: bc_is_zero_def bc_is_zero_for_scale_def q0_def bc_zero_def bc_new_num_def)
  have s1: "n_sign q1 = (if dval qs = 0 then PLUS else sg)" using z by (simp add: q1_def) (simp add: q0_def)
  have p: "n_len q1 + n_scale q1 \<le> length (n_value q1)" "digits_ok (n_value q1)"
    "n_len q1 = 0 \<Longrightarrow> n_scale q1 = 0" using q1 qs by auto
  let ?q = "bc_rm_leading_zeros q1"
  note r = bc_rm_leading_zeros_props [OF p]
  have d: "bc_divide n1 n2 scale = Quot ?q" by (simp add: dv q1_def q0_def sg_def Let_def)
  have wf: "bc_wf ?q" using r q1 qs s1 by (auto simp: bc_wf_def)
  have "bc_val n1 / bc_val n2 * 10 ^ scale =
     of_int (sign_int sg) * (of_int (bc_mag n1) / 10 ^ n_scale n1 /
           (of_int (bc_mag n2) / 10 ^ n_scale n2) * 10 ^ scale)"
    by (cases "n_sign n1"; cases "n_sign n2") (simp_all add: bc_val_def bc_int_def sg_def)
  then have "trunc_int (bc_val n1 / bc_val n2 * 10 ^ scale) = sign_int sg * dval qs"
    using v by (cases sg) (simp_all add: trunc_int_minus)
  then have "bc_val ?q = trunc_to scale (bc_val n1 / bc_val n2)"
    using r q1 s1 by (auto simp: bc_val_def bc_int_def trunc_to_def)
  then show thesis using that d wf r(3) q1 by simp
qed

section \<open>Quotient and remainder\<close>

lemma trunc_to_exact:
  assumes "s \<le> t"
  shows "trunc_to t (of_int k / 10 ^ s) = of_int k / 10 ^ s"
proof -
  have p: "(10::rat) ^ t = 10 ^ s * 10 ^ (t - s)" using assms by (simp flip: power_add)
  then have "of_int k / 10 ^ s * 10 ^ t = (of_int (k * 10 ^ (t - s)) :: rat)" by simp
  then have "trunc_int (of_int k / 10 ^ s * 10 ^ t) = k * 10 ^ (t - s)"
    by (simp only: trunc_int_of_int)
  then show ?thesis by (simp add: trunc_to_def p)
qed

theorem bc_divmod_correct:
  assumes n1: "bc_wf n1" and n2: "bc_wf n2" and nz: "bc_mag n2 \<noteq> 0"
  obtains q r where "bc_divmod n1 n2 scale = Some (q, r)" and "bc_wf q" and "bc_wf r"
    and "n_scale q = 0" and "bc_val q = trunc_to 0 (bc_val n1 / bc_val n2)"
    and "n_scale r = max (n_scale n1) (n_scale n2 + scale)"
    and "bc_val r = bc_val n1 - bc_val q * bc_val n2"
proof -
  have ok: "bc_ok n1" "bc_ok n2" "1 \<le> n_len n1" "1 \<le> n_len n2"
    using n1 n2 by (auto simp: bc_wf_def)
  let ?rs = "max (n_scale n1) (n_scale n2 + scale)"
  obtain q where q: "bc_divide n1 n2 0 = Quot q" "bc_wf q" "n_scale q = 0"
    "bc_val q = trunc_to 0 (bc_val n1 / bc_val n2)"
    by (rule bc_divide_correct [OF ok(1,2) nz])
  have "bc_ok q" "1 \<le> n_len q" using q(2) by (auto simp: bc_wf_def)
  moreover have "n_scale n2 = min (n_scale q + n_scale n2) (max ?rs (max (n_scale q) (n_scale n2)))"
    using q(3) by auto
  ultimately obtain t where t: "bc_multiply q n2 ?rs = Some t" "bc_wf t" "n_scale t = n_scale n2"
    "bc_val t = trunc_to (n_scale n2) (bc_val q * bc_val n2)"
    using bc_multiply_correct ok(2,4) by metis
  have "bc_val q * bc_val n2 = of_int (bc_int q * bc_int n2) / 10 ^ n_scale n2"
    using q(3) by (simp add: bc_val_def)
  then have v: "bc_val t = bc_val q * bc_val n2" using t(4) by (simp only: trunc_to_exact order_refl)
  have "bc_divmod n1 n2 scale = Some (q, bc_sub n1 t ?rs)"
    using ok nz q t by (simp add: bc_divmod_def)
  moreover have "bc_wf (bc_sub n1 t ?rs)" using n1 t by (intro bc_sub_wf)
  moreover have "n_scale (bc_sub n1 t ?rs) = ?rs"
    using bc_sub_val(2) [OF ok(1) bc_wf_ok [OF t(2)] ok(3)] t(3) by auto
  moreover have "bc_val (bc_sub n1 t ?rs) = bc_val n1 - bc_val q * bc_val n2"
    using bc_sub_val(1) [OF ok(1) bc_wf_ok [OF t(2)] ok(3)] v by simp
  ultimately show thesis using that q by blast
qed

lemma bc_divmod_zero: "bc_wf n2 \<Longrightarrow> bc_mag n2 = 0 \<Longrightarrow> bc_divmod n1 n2 scale = None"
  by (simp add: bc_divmod_def bc_wf_def)

text \<open>The remainder takes the dividend's sign and stays below the divisor.\<close>

lemma trunc_rem_bounds:
  fixes x y :: rat
  assumes "y \<noteq> 0" and "r = x - of_int (trunc_int (x / y)) * y"
  shows "\<bar>r\<bar> < \<bar>y\<bar>" and "0 \<le> r * sgn x"
proof -
  define z f where "z = x / y" and "f = z - of_int (trunc_int z)"
  have r: "r = f * y" using assms by (simp add: f_def z_def left_diff_distrib)
  have f: "\<bar>f\<bar> < 1" "0 \<le> f * z"
    unfolding f_def trunc_int_def using floor_correct [of z] floor_correct [of "- z"]
    by (simp_all add: abs_if zero_le_mult_iff) linarith+
  show "\<bar>r\<bar> < \<bar>y\<bar>" using f(1) assms(1) by (simp add: r abs_mult)
  have "0 \<le> f * z * (y * y)" by (rule mult_nonneg_nonneg [OF f(2) zero_le_square])
  then have "0 \<le> r * x" using assms(1) by (simp add: r z_def field_simps)
  then show "0 \<le> r * sgn x" by (auto simp: sgn_if zero_le_mult_iff)
qed

end
