(* ===== verification/BC_Raise.thy ===== *)
theory BC_Raise
  imports BC_Div
begin

text \<open>
  Powers, \<open>raise.c\<close> and \<open>raisemod.c\<close>: exponentiation by squaring with exact intermediate
  products, and modular exponentiation over the number type itself.
\<close>

section \<open>Errors\<close>

text \<open>
  The exceptions the functions throw, as values: \<open>ValueError n msg\<close> is
  \<open>zend_argument_value_error(n, msg)\<close>. \<open>OutOfBounds\<close> stands for an access outside a buffer; no
  operation on well-formed numbers returns it.
\<close>

datatype bc_error = ValueError nat string | DivisionByZeroError string | OutOfBounds

section \<open>Raising to a power\<close>

text \<open>\<open>while ((exponent & 1) == 0)\<close>. The loop is entered with a positive exponent; with 0 it
  would not end, which is \<open>None\<close> here.\<close>

function raise_even :: "nat \<Rightarrow> bc_num \<Rightarrow> nat \<Rightarrow> (nat \<times> bc_num \<times> nat) option" where
  "raise_even exponent pow pwrscale =
     (if exponent = 0 then None
      else if exponent mod 2 = 0 then
        (case bc_multiply pow pow (2 * pwrscale) of
           None \<Rightarrow> None
         | Some pow \<Rightarrow> raise_even (exponent div 2) pow (2 * pwrscale))
      else Some (exponent, pow, pwrscale))"
  by pat_completeness auto
termination
  by (relation "measure (\<lambda>(e, p, s). e)") auto

text \<open>\<open>while (exponent > 0)\<close>\<close>

function raise_loop :: "nat \<Rightarrow> bc_num \<Rightarrow> nat \<Rightarrow> bc_num \<Rightarrow> nat \<Rightarrow> bc_num option" where
  "raise_loop exponent pow pwrscale temp calcscale =
     (if exponent = 0 then Some temp
      else
        case bc_multiply pow pow (2 * pwrscale) of
          None \<Rightarrow> None
        | Some pow \<Rightarrow>
            (if exponent mod 2 = 1 then
               (case bc_multiply temp pow (2 * pwrscale + calcscale) of
                  None \<Rightarrow> None
                | Some temp \<Rightarrow>
                    raise_loop (exponent div 2) pow (2 * pwrscale) temp (2 * pwrscale + calcscale))
             else raise_loop (exponent div 2) pow (2 * pwrscale) temp calcscale))"
  by pat_completeness auto
termination
  by (relation "measure (\<lambda>(e, p, s, t, c). e)") auto

text \<open>
  \<open>bc_raise\<close>; \<open>result\<close> is what \<open>*result\<close> holds on entry. With a negative exponent the return value
  of \<open>bc_divide\<close> is ignored, so a zero base leaves \<open>*result\<close> as it was. The scales are unbounded
  here: a scale beyond \<open>INT_MAX\<close> belongs to a number of as many digits.
\<close>

definition bc_raise :: "bc_num \<Rightarrow> bc_num \<Rightarrow> bc_num \<Rightarrow> nat \<Rightarrow> bc_error + bc_num" where
  "bc_raise num1 num2 result scale =
     (if n_scale num2 \<noteq> 0 then Inl (ValueError 2 ''cannot have a fractional part'')
      else
        let exponent = bc_num2long num2
        in if exponent = 0 \<and> (n_len num2 > 1 \<or> hd (n_value num2) \<noteq> 0)
             then Inl (ValueError 2 ''is too large'')
           else if exponent = 0 then Inr bc_one
           else
             let neg = exponent < 0;
                 exponent = nat (if neg then - exponent else exponent);
                 rscale = (if neg then scale
                           else min (n_scale num1 * exponent) (max scale (n_scale num1)))
             in case raise_even exponent num1 (n_scale num1) of
                  None \<Rightarrow> Inl OutOfBounds
                | Some (exponent, pow, pwrscale) \<Rightarrow>
                    (case raise_loop (exponent div 2) pow pwrscale pow pwrscale of
                       None \<Rightarrow> Inl OutOfBounds
                     | Some temp \<Rightarrow>
                         if neg then
                           (case bc_divide bc_one temp rscale of
                              Quot q \<Rightarrow> Inr q
                            | DivByZero \<Rightarrow> Inr result
                            | DivOutOfBounds \<Rightarrow> Inl OutOfBounds)
                         else if n_scale temp > rscale then Inr (temp\<lparr>n_scale := rscale\<rparr>)
                         else Inr temp))"

section \<open>Raising modulo a number\<close>

text \<open>\<open>while (!bc_is_zero(exponent))\<close>. The return values of \<open>bc_divmod\<close> and \<open>bc_modulo\<close> are
  ignored; on failure they leave their results alone.\<close>

definition mod_keep :: "bc_num \<Rightarrow> bc_num \<Rightarrow> nat \<Rightarrow> bc_num" where
  "mod_keep num modulus scale =
     (case bc_modulo num modulus scale of None \<Rightarrow> num | Some r \<Rightarrow> r)"

partial_function (option) raisemod_loop ::
  "bc_num \<Rightarrow> nat \<Rightarrow> nat \<Rightarrow> bc_num \<Rightarrow> bc_num \<Rightarrow> bc_num \<Rightarrow> bc_num \<Rightarrow> bc_num option" where
  "raisemod_loop modulus rscale scale exponent pow parity temp =
     (if bc_is_zero exponent then Some temp
      else
        let (exponent, parity) =
              (case bc_divmod exponent bc_two 0 of None \<Rightarrow> (exponent, parity) | Some qr \<Rightarrow> qr)
        in case (if bc_is_zero parity then Some temp
                 else map_option (\<lambda>t. mod_keep t modulus scale) (bc_multiply temp pow rscale)) of
             None \<Rightarrow> None
           | Some temp \<Rightarrow>
               (case bc_multiply pow pow rscale of
                  None \<Rightarrow> None
                | Some pow \<Rightarrow>
                    raisemod_loop modulus rscale scale exponent (mod_keep pow modulus scale)
                      parity temp))"

text \<open>\<open>None\<close> is a loop that does not end.\<close>

definition bc_raisemod :: "bc_num \<Rightarrow> bc_num \<Rightarrow> bc_num \<Rightarrow> nat \<Rightarrow> (bc_error + bc_num) option" where
  "bc_raisemod base expo modu scale =
     (if n_scale base \<noteq> 0 then Some (Inl (ValueError 1 ''cannot have a fractional part''))
      else if n_scale expo \<noteq> 0 then Some (Inl (ValueError 2 ''cannot have a fractional part''))
      else if bc_is_neg expo then Some (Inl (ValueError 2 ''must be greater than or equal to 0''))
      else if n_scale modu \<noteq> 0 then Some (Inl (ValueError 3 ''cannot have a fractional part''))
      else if bc_is_zero modu then Some (Inl (DivisionByZeroError ''Modulo by zero''))
      else
        let rscale = max scale (n_scale base)
        in if bc_do_compare modu bc_one False False = 0 then Some (Inr (bc_new_num 1 scale))
           else map_option Inr (raisemod_loop modu rscale scale expo base bc_zero bc_one))"

section \<open>Correctness of \<open>bc_raise\<close>\<close>

text \<open>A product to the full scale is exact.\<close>

lemma bc_multiply_exact:
  assumes "bc_wf a" and "bc_wf b" and "n_scale a + n_scale b \<le> s"
  obtains r where "bc_multiply a b s = Some r" and "bc_wf r"
    and "n_scale r = n_scale a + n_scale b" and "bc_val r = bc_val a * bc_val b"
proof -
  have ok: "bc_ok a" "bc_ok b" "1 \<le> n_len a" "1 \<le> n_len b" using assms by (auto simp: bc_wf_def)
  have "n_scale a + n_scale b = min (n_scale a + n_scale b) (max s (max (n_scale a) (n_scale b)))"
    using assms(3) by auto
  from bc_multiply_correct [OF ok this] obtain r where r: "bc_multiply a b s = Some r" "bc_wf r"
    "n_scale r = n_scale a + n_scale b"
    "bc_val r = trunc_to (n_scale a + n_scale b) (bc_val a * bc_val b)" by blast
  have "bc_val a * bc_val b = of_int (bc_int a * bc_int b) / 10 ^ (n_scale a + n_scale b)"
    by (simp add: bc_val_def power_add)
  then have "bc_val r = bc_val a * bc_val b" unfolding r(4) by (simp only: trunc_to_exact order_refl)
  then show thesis using that r by blast
qed

declare raise_even.simps [simp del] raise_loop.simps [simp del]

lemma raise_even_correct:
  assumes "bc_wf p" and "n_scale p = s" and "0 < e"
  obtains e' p' s' where "raise_even e p s = Some (e', p', s')" and "bc_wf p'" and "n_scale p' = s'"
    and "odd e'" and "bc_val p' ^ e' = bc_val p ^ e" and "s' * e' = s * e"
  using assms
proof (induction e p s arbitrary: thesis rule: raise_even.induct)
  case (1 e p s)
  show ?case
  proof (cases "even e")
    case True
    then obtain k where k: "e = 2 * k" by (elim evenE)
    obtain r where r: "bc_multiply p p (2 * s) = Some r" "bc_wf r" "n_scale r = 2 * s"
      "bc_val r = bc_val p * bc_val p"
      by (rule bc_multiply_exact [OF "1.prems"(2,2), of "2 * s"]) (use "1.prems"(3) in simp_all)
    have "e \<noteq> 0" "e mod 2 = 0" "0 < e div 2" using "1.prems"(4) k by auto
    from "1.IH" [OF this(1,2) r(1) _ r(2,3) this(3)] obtain e' p' s'
      where q: "raise_even (e div 2) r (2 * s) = Some (e', p', s')" "bc_wf p'" "n_scale p' = s'"
        "odd e'" "bc_val p' ^ e' = bc_val r ^ (e div 2)" "s' * e' = 2 * s * (e div 2)" by blast
    moreover have "bc_val r ^ (e div 2) = bc_val p ^ e"
      by (simp add: r(4) k power_mult power2_eq_square)
    moreover have "raise_even e p s = Some (e', p', s')"
      using q(1) r(1) \<open>e \<noteq> 0\<close> \<open>e mod 2 = 0\<close> by (simp add: raise_even.simps [of e])
    ultimately show ?thesis using "1.prems"(1) k by (simp add: ac_simps)
  next
    case False
    then have "raise_even e p s = Some (e, p, s)"
      using "1.prems"(4) by (simp add: raise_even.simps [of e] odd_iff_mod_2_eq_one)
    then show ?thesis using "1.prems"(1) [of e p s] "1.prems"(2,3) False by simp
  qed
qed

lemma raise_loop_correct:
  assumes "bc_wf p" and "n_scale p = s" and "bc_wf t" and "n_scale t = c"
  obtains r where "raise_loop e p s t c = Some r" and "bc_wf r" and "n_scale r = c + 2 * e * s"
    and "bc_val r = bc_val t * bc_val p ^ (2 * e)"
  using assms
proof (induction e p s t c arbitrary: thesis rule: raise_loop.induct)
  case (1 e p s t c)
  show ?case
  proof (cases "e = 0")
    case True
    then have "raise_loop e p s t c = Some t" by (simp add: raise_loop.simps [of 0])
    then show ?thesis using "1.prems"(1) [of t] "1.prems"(4,5) True by simp
  next
    case False
    obtain p' where p': "bc_multiply p p (2 * s) = Some p'" "bc_wf p'" "n_scale p' = 2 * s"
      "bc_val p' = bc_val p * bc_val p"
      by (rule bc_multiply_exact [OF "1.prems"(2,2), of "2 * s"]) (use "1.prems"(3) in simp_all)
    have pw: "bc_val p' ^ k = bc_val p ^ (2 * k)" for k
      by (simp add: p'(4) power_mult power2_eq_square)
    show ?thesis
    proof (cases "e mod 2 = 1")
      case True
      obtain t' where t': "bc_multiply t p' (2 * s + c) = Some t'" "bc_wf t'"
        "n_scale t' = 2 * s + c" "bc_val t' = bc_val t * bc_val p'"
        by (rule bc_multiply_exact [OF "1.prems"(4) p'(2), of "2 * s + c"])
          (use "1.prems"(5) p'(3) in simp_all)
      from "1.IH"(1) [OF False p'(1) True t'(1) _ p'(2,3) t'(2,3)] obtain r
        where r: "raise_loop (e div 2) p' (2 * s) t' (2 * s + c) = Some r" "bc_wf r"
          "n_scale r = 2 * s + c + 2 * (e div 2) * (2 * s)"
          "bc_val r = bc_val t' * bc_val p' ^ (2 * (e div 2))" by blast
      have e: "e = 2 * (e div 2) + 1" using True by presburger
      have "bc_val r = bc_val t * (bc_val p' ^ 1 * bc_val p' ^ (2 * (e div 2)))"
        by (simp add: r(4) t'(4))
      also have "\<dots> = bc_val t * bc_val p' ^ e" using e by (metis power_add add.commute)
      finally have v: "bc_val r = bc_val t * bc_val p ^ (2 * e)" by (simp add: pw)
      have "n_scale r = c + 2 * (2 * (e div 2) + 1) * s" by (simp add: r(3) algebra_simps)
      then have "n_scale r = c + 2 * e * s" by (simp only: e [symmetric])
      moreover have "raise_loop e p s t c = Some r"
        using False True p'(1) t'(1) r(1) by (simp add: raise_loop.simps [of e])
      ultimately show ?thesis using "1.prems"(1) r(2) v by blast
    next
      case odd: False
      from "1.IH"(2) [OF False p'(1) odd _ p'(2,3) "1.prems"(4,5)] obtain r
        where r: "raise_loop (e div 2) p' (2 * s) t c = Some r" "bc_wf r"
          "n_scale r = c + 2 * (e div 2) * (2 * s)"
          "bc_val r = bc_val t * bc_val p' ^ (2 * (e div 2))" by blast
      have e: "2 * (e div 2) = e" using odd by presburger
      have "raise_loop e p s t c = Some r"
        using False odd p'(1) r(1) by (simp add: raise_loop.simps [of e])
      moreover have "n_scale r = c + 2 * e * s" using r(3) e by simp
      moreover have "bc_val r = bc_val t * bc_val p ^ (2 * e)" unfolding r(4) e pw ..
      ultimately show ?thesis using "1.prems"(1) r(2) by blast
    qed
  qed
qed

text \<open>Both loops together compute the exact power.\<close>

lemma raise_power:
  assumes "bc_wf n" and "0 < e"
  obtains e' p' s' t where "raise_even e n (n_scale n) = Some (e', p', s')"
    and "raise_loop (e' div 2) p' s' p' s' = Some t" and "bc_wf t" and "n_scale t = n_scale n * e"
    and "bc_val t = bc_val n ^ e"
proof -
  obtain e' p' s' where r: "raise_even e n (n_scale n) = Some (e', p', s')" "bc_wf p'"
    "n_scale p' = s'" "odd e'" "bc_val p' ^ e' = bc_val n ^ e" "s' * e' = n_scale n * e"
    using raise_even_correct [OF assms(1) refl assms(2)] by blast
  obtain t where t: "raise_loop (e' div 2) p' s' p' s' = Some t" "bc_wf t"
    "n_scale t = s' + 2 * (e' div 2) * s'" "bc_val t = bc_val p' * bc_val p' ^ (2 * (e' div 2))"
    using raise_loop_correct [OF r(2,3,2,3)] by blast
  have e: "Suc (2 * (e' div 2)) = e'" using r(4) by simp
  have "bc_val t = bc_val n ^ e" using t(4) e r(5) by (metis power_Suc)
  moreover have "n_scale t = Suc (2 * (e' div 2)) * s'" using t(3) by simp
  then have "n_scale t = n_scale n * e" using e r(6) by (simp add: mult.commute)
  ultimately show thesis using that r(1) t(1,2) by blast
qed

lemma bc_int_scale0: "n_scale n = 0 \<Longrightarrow> bc_val n = of_int (bc_int n)"
  by (simp add: bc_val_def)

lemma bc_num2long_int:
  assumes "bc_wf n" and "n_scale n = 0"
  shows "bc_num2long n = (if \<bar>bc_int n\<bar> \<le> LONG_MAX then bc_int n else 0)"
    and "bc_int n = 0 \<longleftrightarrow> \<not> (n_len n > 1 \<or> hd (n_value n) \<noteq> 0)"
proof -
  have ok: "bc_ok n" "1 \<le> n_len n" using assms by (auto simp: bc_wf_def)
  show "bc_num2long n = (if \<bar>bc_int n\<bar> \<le> LONG_MAX then bc_int n else 0)"
    using bc_num2long_eq [OF ok(1)] assms(2) unfolding abs_bc_int [OF ok(1)]
    by (simp add: Let_def bc_int_def)
  show "bc_int n = 0 \<longleftrightarrow> \<not> (n_len n > 1 \<or> hd (n_value n) \<noteq> 0)"
  proof (cases "n_len n > 1")
    case True
    have "0 < (10::int) ^ (n_len n - 1 + n_scale n)" by simp
    then have "bc_mag n \<noteq> 0" using bc_mag_lower [OF ok(1) True] by linarith
    with True show ?thesis by simp
  next
    case False
    then obtain d ds where "n_value n = d # ds" "n_len n = 1"
      using ok by (cases "n_value n") (auto simp: bc_ok_def)
    then show ?thesis using assms(2) by (simp add: bc_mag_def bc_digits_def)
  qed
qed

text \<open>Lowering \<open>n_scale\<close> truncates, and may leave a negative zero.\<close>

lemma bc_cut:
  assumes "bc_wf t" and "s \<le> n_scale t"
  shows "bc_ok (t\<lparr>n_scale := s\<rparr>)" and "bc_val (t\<lparr>n_scale := s\<rparr>) = trunc_to s (bc_val t)"
proof -
  have ok: "bc_ok t" "1 \<le> n_len t" using assms by (auto simp: bc_wf_def)
  then show "bc_ok (t\<lparr>n_scale := s\<rparr>)" using assms(2) by (simp add: bc_ok_def)
  have "bc_digits (t\<lparr>n_scale := s\<rparr>) = take (n_len t + s) (bc_digits t)"
    using assms(2) by (simp add: bc_digits_def min_def)
  then have "bc_mag (t\<lparr>n_scale := s\<rparr>) = bc_mag t div 10 ^ (n_scale t - s)"
    using dval_take [of "bc_digits t" "n_len t + s"] ok assms(2) by (simp add: bc_mag_def)
  then show "bc_val (t\<lparr>n_scale := s\<rparr>) = trunc_to s (bc_val t)"
    using trunc_to_cut [OF sign_int_cases bc_mag_bounds(1) [OF ok(1)] assms(2)]
    by (simp add: bc_val_def bc_int_def)
qed

theorem bc_raise_positive:
  assumes n1: "bc_wf num1" and n2: "bc_wf num2" "n_scale num2 = 0"
    and e: "bc_int num2 = int e" "0 < e" "int e \<le> LONG_MAX"
    and rs: "rscale = min (n_scale num1 * e) (max scale (n_scale num1))"
  obtains r where "bc_raise num1 num2 result scale = Inr r" and "bc_ok r" and "1 \<le> n_len r"
    and "n_scale r = rscale" and "bc_val r = trunc_to rscale (bc_val num1 ^ e)"
proof -
  have ex: "bc_num2long num2 = int e" using bc_num2long_int(1) [OF n2] e by simp
  obtain e' p' s' t where r: "raise_even e num1 (n_scale num1) = Some (e', p', s')"
    "raise_loop (e' div 2) p' s' p' s' = Some t" and t: "bc_wf t" "n_scale t = n_scale num1 * e"
    "bc_val t = bc_val num1 ^ e" by (rule raise_power [OF n1 e(2)])
  have "rscale \<le> n_scale t" by (simp add: rs t(2))
  note c = bc_cut [OF t(1) this]
  have "t = t\<lparr>n_scale := rscale\<rparr>" if "\<not> n_scale t > rscale"
    using that \<open>rscale \<le> n_scale t\<close> by simp
  moreover have "bc_raise num1 num2 result scale
      = (if n_scale t > rscale then Inr (t\<lparr>n_scale := rscale\<rparr>) else Inr t)"
    using n2(2) ex e(2) r by (simp add: bc_raise_def Let_def rs)
  ultimately have "bc_raise num1 num2 result scale = Inr (t\<lparr>n_scale := rscale\<rparr>)" by auto
  moreover have "1 \<le> n_len (t\<lparr>n_scale := rscale\<rparr>)" using t(1) by (simp add: bc_wf_def)
  ultimately show thesis using that c t(3) by simp
qed

theorem bc_raise_negative:
  assumes n1: "bc_wf num1" and n2: "bc_wf num2" "n_scale num2 = 0"
    and e: "bc_int num2 = - int e" "0 < e" "int e \<le> LONG_MAX" and nz: "bc_mag num1 \<noteq> 0"
  obtains r where "bc_raise num1 num2 result scale = Inr r" and "bc_wf r"
    and "n_scale r = scale" and "bc_val r = trunc_to scale (1 / bc_val num1 ^ e)"
proof -
  have ex: "bc_num2long num2 = - int e" using bc_num2long_int(1) [OF n2] e by simp
  obtain e' p' s' t where r: "raise_even e num1 (n_scale num1) = Some (e', p', s')"
    "raise_loop (e' div 2) p' s' p' s' = Some t" and t: "bc_wf t" "bc_val t = bc_val num1 ^ e"
    by (rule raise_power [OF n1 e(2)])
  have "bc_mag t \<noteq> 0" using nz t(2) by (metis bc_val_eq_0_iff power_not_zero)
  with bc_divide_correct [OF bc_wf_ok [OF bc_const_wf(2)] bc_wf_ok [OF t(1)]] obtain q
    where q: "bc_divide bc_one t scale = Quot q" "bc_wf q" "n_scale q = scale"
      "bc_val q = trunc_to scale (1 / bc_val num1 ^ e)" using t(2) by (metis bc_const_val(2))
  have "bc_raise num1 num2 result scale = Inr q"
    using n2(2) ex e(2) r q(1) by (simp add: bc_raise_def Let_def)
  then show thesis using that q by blast
qed

theorem bc_raise_negative_zero:
  assumes n1: "bc_wf num1" and n2: "bc_wf num2" "n_scale num2 = 0"
    and e: "bc_int num2 = - int e" "0 < e" "int e \<le> LONG_MAX" and z: "bc_mag num1 = 0"
  shows "bc_raise num1 num2 result scale = Inr result"
proof -
  have ex: "bc_num2long num2 = - int e" using bc_num2long_int(1) [OF n2] e by simp
  obtain e' p' s' t where r: "raise_even e num1 (n_scale num1) = Some (e', p', s')"
    "raise_loop (e' div 2) p' s' p' s' = Some t" and t: "bc_wf t" "bc_val t = bc_val num1 ^ e"
    by (rule raise_power [OF n1 e(2)])
  have "bc_val num1 = 0" using z by simp
  then have "bc_mag t = 0" using t(2) e(2) bc_val_eq_0_iff [of t] by simp
  then have "bc_divide bc_one t scale = DivByZero" using t(1) by (simp add: bc_divide_def bc_wf_def)
  then show ?thesis using n2(2) ex e(2) r by (simp add: bc_raise_def Let_def)
qed

lemma bc_raise_errors:
  assumes "bc_wf num2"
  shows "n_scale num2 \<noteq> 0 \<Longrightarrow>
      bc_raise num1 num2 result scale = Inl (ValueError 2 ''cannot have a fractional part'')"
    and "n_scale num2 = 0 \<Longrightarrow> \<bar>bc_int num2\<bar> > LONG_MAX \<Longrightarrow>
      bc_raise num1 num2 result scale = Inl (ValueError 2 ''is too large'')"
    and "n_scale num2 = 0 \<Longrightarrow> bc_int num2 = 0 \<Longrightarrow> bc_raise num1 num2 result scale = Inr bc_one"
proof -
  show "bc_raise num1 num2 result scale = Inl (ValueError 2 ''cannot have a fractional part'')"
    if "n_scale num2 \<noteq> 0" using that by (simp add: bc_raise_def)
  show "bc_raise num1 num2 result scale = Inl (ValueError 2 ''is too large'')"
    if "n_scale num2 = 0" "\<bar>bc_int num2\<bar> > LONG_MAX"
  proof -
    have "bc_num2long num2 = 0" using bc_num2long_int(1) [OF assms that(1)] that(2) by simp
    moreover have "bc_int num2 \<noteq> 0" using that(2) by (intro notI) simp
    then have "n_len num2 > 1 \<or> hd (n_value num2) \<noteq> 0"
      using bc_num2long_int(2) [OF assms that(1)] by blast
    ultimately show ?thesis using that(1) by (simp add: bc_raise_def)
  qed
  show "bc_raise num1 num2 result scale = Inr bc_one" if "n_scale num2 = 0" "bc_int num2 = 0"
    using bc_num2long_int [OF assms that(1)] that by (simp add: bc_raise_def)
qed

section \<open>Correctness of \<open>bc_raisemod\<close>\<close>

lemma trem_0 [simp]: "trem 0 m = 0"
  by (simp add: trem_def)

lemma abs_trem: "\<bar>trem a m\<bar> = \<bar>a\<bar> mod \<bar>m\<bar>" if "m \<noteq> 0"
  using that by (cases "a = 0") (auto simp: trem_def abs_mult abs_sgn_eq)

lemma trem_mult_left: "m \<noteq> 0 \<Longrightarrow> trem (trem a m * b) m = trem (a * b) m"
proof (cases "\<bar>a\<bar> mod \<bar>m\<bar> = 0")
  case True
  then have "\<bar>a * b\<bar> mod \<bar>m\<bar> = 0" by (simp add: abs_mult mod_eq_0_iff_dvd)
  with True show ?thesis by (simp add: trem_def)
next
  case False
  assume m: "m \<noteq> 0"
  have "0 < \<bar>a\<bar> mod \<bar>m\<bar>" using False m pos_mod_sign [of "\<bar>m\<bar>" "\<bar>a\<bar>"] by linarith
  then have "sgn (trem a m * b) = sgn (a * b)" by (simp add: trem_def sgn_mult)
  moreover have "\<bar>trem a m * b\<bar> mod \<bar>m\<bar> = \<bar>a * b\<bar> mod \<bar>m\<bar>"
    by (simp add: abs_mult abs_trem m mod_mult_left_eq)
  ultimately show ?thesis by (simp only: trem_def [of "_ * b"])
qed

lemma trem_mult_right: "m \<noteq> 0 \<Longrightarrow> trem (b * trem a m) m = trem (b * a) m"
  using trem_mult_left [of m a b] by (simp add: mult.commute)

lemma trem_mult_power: "m \<noteq> 0 \<Longrightarrow> trem (b * trem a m ^ k) m = trem (b * a ^ k) m"
proof (induction k arbitrary: b)
  case (Suc k)
  have "trem (b * trem a m ^ Suc k) m = trem ((b * trem a m) * trem a m ^ k) m" by (simp add: ac_simps)
  also have "\<dots> = trem ((b * a ^ k) * trem a m) m" unfolding Suc.IH [OF Suc.prems] by (simp only: ac_simps)
  also have "\<dots> = trem (b * a ^ Suc k) m"
    unfolding trem_mult_right [OF Suc.prems] by (simp add: ac_simps)
  finally show ?case .
qed simp

lemma trem_id: "\<bar>a\<bar> < \<bar>m\<bar> \<Longrightarrow> trem a m = a"
  by (simp add: trem_def sgn_mult_abs)

lemma trunc_trem:
  assumes "m \<noteq> 0"
  shows "a - trunc_int (of_int a / of_int m) * m = trem a m"
proof -
  define s t where "s = (if a < 0 then -1 else 1 :: int)" and "t = (if m < 0 then -1 else 1 :: int)"
  have a: "a = s * \<bar>a\<bar>" and m: "m = t * \<bar>m\<bar>" and st: "s * t = 1 \<or> s * t = -1" "t * t = 1"
    by (auto simp: s_def t_def)
  have "(of_int a / of_int m :: rat) = of_int (s * t * \<bar>a\<bar>) / of_int \<bar>m\<bar>"
    by (auto simp: s_def t_def)
  then have "trunc_int (of_int a / of_int m) = s * t * (\<bar>a\<bar> div \<bar>m\<bar>)"
    using trunc_int_sgn [OF st(1), of "\<bar>a\<bar>" "\<bar>m\<bar>"] assms by simp
  then have "a - trunc_int (of_int a / of_int m) * m = s * \<bar>a\<bar> - s * t * (\<bar>a\<bar> div \<bar>m\<bar>) * (t * \<bar>m\<bar>)"
    using a m by simp
  also have "\<dots> = s * \<bar>a\<bar> - (t * t) * (s * (\<bar>a\<bar> div \<bar>m\<bar> * \<bar>m\<bar>))" by (simp only: ac_simps)
  also have "\<dots> = s * (\<bar>a\<bar> - \<bar>a\<bar> div \<bar>m\<bar> * \<bar>m\<bar>)" by (simp only: st right_diff_distrib mult_1)
  also have "\<dots> = s * (\<bar>a\<bar> mod \<bar>m\<bar>)" by (simp only: minus_div_mult_eq_mod)
  also have "\<dots> = trem a m" by (cases "a = 0") (auto simp: trem_def s_def sgn_if)
  finally show ?thesis .
qed

text \<open>An integer operand with an integer modulus leaves an integer remainder.\<close>

definition bc_integral :: "bc_num \<Rightarrow> int \<Rightarrow> bool" where
  "bc_integral n k = (bc_wf n \<and> bc_val n = of_int k)"

lemma bc_modulo_integral:
  assumes "bc_integral a x" and "bc_integral m y" and "y \<noteq> 0"
  obtains r where "bc_modulo a m s = Some r" and "bc_integral r (trem x y)"
    and "n_scale r = max (n_scale a) (n_scale m + s)"
proof -
  have w: "bc_wf a" "bc_wf m" and v: "bc_val a = of_int x" "bc_val m = of_int y"
    using assms by (auto simp: bc_integral_def)
  then have "bc_mag m \<noteq> 0" using assms(3) bc_val_eq_0_iff [of m] by simp
  from bc_divmod_correct [OF w this] obtain q r where r: "bc_divmod a m s = Some (q, r)" "bc_wf r"
    "bc_val q = trunc_to 0 (bc_val a / bc_val m)" "n_scale r = max (n_scale a) (n_scale m + s)"
    "bc_val r = bc_val a - bc_val q * bc_val m" by metis
  have "bc_val r = of_int (x - trunc_int (of_int x / of_int y) * y)"
    using r(3,5) v by (simp add: trunc_to_def)
  then have "bc_integral r (trem x y)" using r(2) trunc_trem [OF assms(3)] by (simp add: bc_integral_def)
  then show thesis using that r by (simp add: bc_modulo_def)
qed

lemma bc_multiply_integral:
  assumes "bc_integral a x" and "bc_integral b y"
  obtains r where "bc_multiply a b s = Some r" and "bc_integral r (x * y)"
proof -
  let ?ps = "min (n_scale a + n_scale b) (max s (max (n_scale a) (n_scale b)))"
  have "bc_ok a" "bc_ok b" "1 \<le> n_len a" "1 \<le> n_len b"
    using assms by (auto simp: bc_integral_def bc_wf_def)
  from bc_multiply_correct [OF this refl] obtain r where r: "bc_multiply a b s = Some r" "bc_wf r"
    "bc_val r = trunc_to ?ps (bc_val a * bc_val b)" by metis
  have "bc_val a * bc_val b = of_int (x * y) / 10 ^ 0" using assms by (simp add: bc_integral_def)
  then have "bc_val r = of_int (x * y)" using r(3) trunc_to_exact [of 0 ?ps "x * y"] by simp
  then show thesis using that r by (simp add: bc_integral_def)
qed

lemma mod_keep_integral:
  assumes "bc_integral a x" and "bc_integral m y" and "y \<noteq> 0"
  shows "bc_integral (mod_keep a m s) (trem x y)"
  using bc_modulo_integral [OF assms, of s] by (metis mod_keep_def option.simps(5))

lemma bc_integral_zero: "bc_integral n k \<Longrightarrow> bc_is_zero n \<longleftrightarrow> k = 0"
  using bc_val_eq_0_iff [of n] by (auto simp: bc_integral_def bc_wf_def)

text \<open>Halving the exponent: quotient and parity.\<close>

lemma bc_halve:
  assumes "bc_integral n (int e)"
  obtains q r where "bc_divmod n bc_two 0 = Some (q, r)" and "bc_integral q (int (e div 2))"
    and "bc_integral r (int (e mod 2))"
proof -
  have w: "bc_wf n" "bc_val n = of_int (int e)" using assms by (auto simp: bc_integral_def)
  obtain q r where r: "bc_divmod n bc_two 0 = Some (q, r)" "bc_wf q" "bc_wf r"
    "bc_val q = trunc_to 0 (bc_val n / bc_val bc_two)" "bc_val r = bc_val n - bc_val q * bc_val bc_two"
    using bc_divmod_correct [OF w(1) bc_const_wf(3)] by (metis bc_const_mag(3) zero_neq_numeral)
  have "trunc_int (of_int (int e) / of_int 2) = int e div 2" by (rule trunc_int_frac) simp_all
  then have q: "bc_val q = of_int (int e div 2)"
    unfolding r(4) w(2) bc_const_val trunc_to_def by simp
  moreover have "bc_val r = of_int (int e - int e div 2 * 2)"
    unfolding r(5) w(2) q bc_const_val by simp
  then have "bc_val r = of_int (int e mod 2)" by (simp only: minus_div_mult_eq_mod)
  moreover have "int (e div 2) = int e div 2" "int (e mod 2) = int e mod 2"
    by (simp_all only: zdiv_int zmod_int of_nat_numeral)
  ultimately show thesis using that r(1-3) by (simp only: bc_integral_def simp_thms)
qed

text \<open>The loop ends and keeps \<open>temp * power ^ exponent\<close> modulo the modulus.\<close>

lemma raisemod_loop_correct:
  assumes m: "bc_integral modulus m" "m \<noteq> 0"
    and "bc_integral expo (int e)" and "bc_integral p x" and "bc_integral temp t" and "trem t m = t"
  obtains r where "raisemod_loop modulus rscale scale expo p parity temp = Some r"
    and "bc_integral r (trem (t * x ^ e) m)"
  using assms(3-6)
proof (induction e arbitrary: expo p x parity temp t thesis rule: less_induct)
  case (less e)
  note z = bc_integral_zero [OF less.prems(2)]
  show ?case
  proof (cases "e = 0")
    case True
    then have "raisemod_loop modulus rscale scale expo p parity temp = Some temp"
      using z by (simp add: raisemod_loop.simps)
    then show ?thesis using less.prems(1) [of temp] less.prems(4,5) True by simp
  next
    case False
    obtain q r where qr: "bc_divmod expo bc_two 0 = Some (q, r)" "bc_integral q (int (e div 2))"
      "bc_integral r (int (e mod 2))" by (rule bc_halve [OF less.prems(2)])
    define t' where "t' = (if e mod 2 = 0 then t else trem (t * x) m)"
    obtain u where u: "bc_multiply temp p rscale = Some u" "bc_integral u (t * x)"
      by (rule bc_multiply_integral [OF less.prems(4,3)])
    define temp' where "temp' = (if e mod 2 = 0 then temp else mod_keep u modulus scale)"
    have temp': "bc_integral temp' t'"
      using less.prems(4) mod_keep_integral [OF u(2) m] by (simp add: temp'_def t'_def)
    have tt: "trem t' m = t'"
      using less.prems(5) trem_mult_left [OF m(2), of "t * x" 1] by (simp add: t'_def)
    obtain w where w: "bc_multiply p p rscale = Some w" "bc_integral w (x * x)"
      by (rule bc_multiply_integral [OF less.prems(3,3)])
    note pw = mod_keep_integral [OF w(2) m, of scale]
    obtain res where res: "raisemod_loop modulus rscale scale q (mod_keep w modulus scale) r temp' = Some res"
      "bc_integral res (trem (t' * trem (x * x) m ^ (e div 2)) m)"
      using less.IH [of "e div 2", OF _ _ qr(2) pw temp' tt] False by auto
    have "raisemod_loop modulus rscale scale expo p parity temp = Some res"
      using z False qr u w res(1) bc_integral_zero [OF qr(3)]
      by (subst raisemod_loop.simps) (auto simp: temp'_def split: if_splits)
    moreover have "trem (t' * trem (x * x) m ^ (e div 2)) m = trem (t * x ^ e) m"
    proof -
      have "trem (t' * trem (x * x) m ^ (e div 2)) m = trem (t' * (x * x) ^ (e div 2)) m"
        by (rule trem_mult_power [OF m(2)])
      also have "\<dots> = trem (t * x ^ (e mod 2) * (x * x) ^ (e div 2)) m"
        by (cases "e mod 2 = 0") (auto simp: t'_def trem_mult_left m(2) mod_2_eq_odd)
      also have "x ^ (e mod 2) * (x * x) ^ (e div 2) = x ^ e"
        by (metis mod_mult_div_eq power2_eq_square power_add power_mult)
      then have "t * x ^ (e mod 2) * (x * x) ^ (e div 2) = t * x ^ e" by (simp only: mult.assoc)
      finally show ?thesis .
    qed
    ultimately show ?thesis using less.prems(1) res(2) by simp
  qed
qed

theorem bc_raisemod_correct:
  assumes w: "bc_wf base" "bc_wf expo" "bc_wf modu"
    and s: "n_scale base = 0" "n_scale expo = 0" "n_scale modu = 0"
    and e: "bc_int expo = int e" and m: "bc_int modu \<noteq> 0"
  obtains r where "bc_raisemod base expo modu scale = Some (Inr r)" and "bc_wf r"
    and "bc_val r = of_int (trem (bc_int base ^ e) (bc_int modu))"
proof -
  have i: "bc_integral base (bc_int base)" "bc_integral expo (int e)" "bc_integral modu (bc_int modu)"
    using w s e by (auto simp: bc_integral_def bc_int_scale0)
  have ok: "bc_ok modu" "1 \<le> n_len modu" "bc_ok expo" using w by (auto simp: bc_wf_def)
  have "n_sign expo = PLUS"
    using w(2) e bc_mag_bounds(1) [OF ok(3)] by (cases "n_sign expo") (auto simp: bc_wf_def bc_int_def)
  then have st: "bc_raisemod base expo modu scale =
      (if bc_do_compare modu bc_one False False = 0 then Some (Inr (bc_new_num 1 scale))
       else map_option Inr (raisemod_loop modu (max scale 0) scale expo base bc_zero bc_one))"
    using s m ok by (simp add: bc_raisemod_def bc_is_neg_def)
  have "bc_do_compare modu bc_one False False = sgn (bc_mag modu - 1)"
    using bc_do_compare_mag [OF ok(1) bc_wf_ok [OF bc_const_wf(2)] ok(2) _ refl] s(3)
    by (simp add: bc_at_def)
  then have c: "bc_do_compare modu bc_one False False = 0 \<longleftrightarrow> \<bar>bc_int modu\<bar> = 1"
    by (simp add: abs_bc_int [OF ok(1)] sgn_0_0)
  show thesis
  proof (cases "\<bar>bc_int modu\<bar> = 1")
    case True
    then have "trem (bc_int base ^ e) (bc_int modu) = 0" by (simp add: trem_def)
    then show thesis using that [of "bc_new_num 1 scale"] st c True bc_new_num_wf [of scale] by simp
  next
    case False
    have "bc_integral bc_one 1" by (simp add: bc_integral_def bc_const_wf bc_const_val)
    moreover have "trem 1 (bc_int modu) = 1" by (intro trem_id) (use False m in linarith)
    ultimately obtain r where "raisemod_loop modu (max scale 0) scale expo base bc_zero bc_one = Some r"
      "bc_integral r (trem (1 * bc_int base ^ e) (bc_int modu))"
      by (rule raisemod_loop_correct [OF i(3) m i(2,1)])
    then show thesis using that [of r] st c False by (simp add: bc_integral_def)
  qed
qed

end
