(* ===== verification/BC_Str.thy ===== *)
theory BC_Str
  imports BC_Div
begin

text \<open>
  Decimal strings: \<open>str2num.c\<close> and \<open>num2str.c\<close>, against a reference reading \<open>parse_dec\<close> and a
  reference printing \<open>print_dec\<close> of rationals.
\<close>

section \<open>Characters\<close>

definition is_digit :: "char \<Rightarrow> bool" where
  "is_digit c = ((48::nat) \<le> of_char c \<and> of_char c \<le> (57::nat))"

definition CH_VAL :: "char \<Rightarrow> int" where
  "CH_VAL c = int (of_char c) - 48"

definition BCD_CHAR :: "int \<Rightarrow> char" where
  "BCD_CHAR d = char_of (nat (d + 48))"

section \<open>The two conversions\<close>

text \<open>\<open>if ((*ptr == '+') || (*ptr == '-')) ptr++;\<close>\<close>

fun skip_sign :: "string \<Rightarrow> string" where
  "skip_sign [] = []"
| "skip_sign (c # cs) = (if c = CHR ''+'' \<or> c = CHR ''-'' then cs else c # cs)"

text \<open>\<open>if (*ptr == '.') ptr++;\<close>\<close>

fun skip_point :: "string \<Rightarrow> string" where
  "skip_point [] = []"
| "skip_point (c # cs) = (if c = CHR ''.'' then cs else c # cs)"

text \<open>\<open>bc_str2num\<close>: the return value and the number. The second pass over the string meets the
  same characters as the first, so both read \<open>ints\<close> and \<open>fracs\<close>.\<close>

definition bc_str2num :: "string \<Rightarrow> nat \<Rightarrow> bool \<times> bc_num" where
  "bc_str2num s scale =
     (let str = c_str s;
          ptr = dropWhile (\<lambda>c. c = CHR ''0'') (skip_sign str);
          ints = takeWhile is_digit ptr;
          ptr = skip_point (dropWhile is_digit ptr);
          fracs = takeWhile is_digit ptr;
          ptr = dropWhile is_digit ptr
      in if ptr \<noteq> [] \<or> length ints + length fracs = 0 then (ptr = [], bc_zero)
         else
           let strscale = min (length fracs) scale;
               zero_int = (length ints = 0);
               num = bc_new_num (if zero_int then 1 else length ints) strscale;
               num = num\<lparr>n_sign := (if hd str = CHR ''-'' then MINUS else PLUS),
                         n_value := (if zero_int then [0] else map CH_VAL ints) @
                                    map CH_VAL (take strscale fracs)\<rparr>
           in (True, if bc_is_zero num then num\<lparr>n_sign := PLUS\<rparr> else num))"

definition bc_num2str_ex :: "bc_num \<Rightarrow> nat \<Rightarrow> string" where
  "bc_num2str_ex num scale =
     (let signch = (n_sign num \<noteq> PLUS \<and> \<not> bc_is_zero_for_scale num (min (n_scale num) scale));
          ints = take (n_len num) (n_value num);
          fracs = take (min scale (n_scale num)) (drop (n_len num) (n_value num))
      in (if signch then ''-'' else []) @ map BCD_CHAR ints @
         (if scale > 0
          then ''.'' @ map BCD_CHAR fracs @ replicate (scale - n_scale num) (BCD_CHAR 0)
          else []))"

section \<open>Reference reading and printing\<close>

text \<open>A sign, digits, and optionally a point and more digits; each group of digits may be empty.\<close>

definition parse_dec :: "string \<Rightarrow> rat option" where
  "parse_dec s =
     (let body = skip_sign s;
          ip = takeWhile (\<lambda>c. c \<noteq> CHR ''.'') body;
          fp = drop 1 (dropWhile (\<lambda>c. c \<noteq> CHR ''.'') body);
          v = of_int (dval (map CH_VAL ip)) + of_int (dval (map CH_VAL fp)) / 10 ^ length fp
      in if list_all is_digit (ip @ fp)
         then Some (if s \<noteq> [] \<and> hd s = CHR ''-'' then - v else v) else None)"

text \<open>The number of digits after the point.\<close>

definition frac_len :: "string \<Rightarrow> nat" where
  "frac_len s = length (drop 1 (dropWhile (\<lambda>c. c \<noteq> CHR ''.'') s))"

primrec dec_digits :: "nat \<Rightarrow> int \<Rightarrow> digits" where
  "dec_digits 0 n = []"
| "dec_digits (Suc k) n = dec_digits k (n div 10) @ [n mod 10]"

definition int_digits :: "int \<Rightarrow> digits" where
  "int_digits n = rev (int2num_digits (n div 10)) @ [n mod 10]"

definition print_dec :: "nat \<Rightarrow> rat \<Rightarrow> string" where
  "print_dec s x =
     (let t = trunc_int (x * 10 ^ s)
      in (if t < 0 then ''-'' else []) @ map BCD_CHAR (int_digits (\<bar>t\<bar> div 10 ^ s)) @
         (if s > 0 then ''.'' @ map BCD_CHAR (dec_digits s \<bar>t\<bar>) else []))"

section \<open>Digits and characters\<close>

lemma BCD_CHAR_props:
  assumes "0 \<le> d" and "d \<le> 9"
  shows "is_digit (BCD_CHAR d)" and "CH_VAL (BCD_CHAR d) = d"
proof -
  have "nat (d + 48) < 256" using assms by simp
  then have "(of_char (BCD_CHAR d) :: nat) = nat (d + 48)" by (simp add: BCD_CHAR_def)
  then show "is_digit (BCD_CHAR d)" "CH_VAL (BCD_CHAR d) = d"
    using assms by (auto simp: is_digit_def CH_VAL_def)
qed

lemma CH_VAL_bounds: "is_digit c \<Longrightarrow> 0 \<le> CH_VAL c \<and> CH_VAL c \<le> 9"
  by (auto simp: is_digit_def CH_VAL_def)

lemma digits_ok_CH_VAL: "list_all is_digit s \<Longrightarrow> digits_ok (map CH_VAL s)"
  by (auto simp: digits_ok_def list_all_iff CH_VAL_bounds)

lemma BCD_chars:
  assumes "digits_ok ds"
  shows "list_all is_digit (map BCD_CHAR ds)" and "map CH_VAL (map BCD_CHAR ds) = ds"
  using assms by (auto simp: digits_ok_def list_all_iff BCD_CHAR_props intro: map_idI)

lemma not_digit [simp]: "\<not> is_digit CHR ''.''" "\<not> is_digit CHR ''-''" "\<not> is_digit CHR ''+''"
  and digit_0 [simp]: "is_digit CHR ''0''"
  and CH_VAL_0 [simp]: "CH_VAL CHR ''0'' = 0"
  by (simp_all add: is_digit_def CH_VAL_def)

lemma CH_VAL_eq_0: "is_digit c \<Longrightarrow> CH_VAL c = 0 \<longleftrightarrow> c = CHR ''0''"
proof
  assume "CH_VAL c = 0"
  then have "(of_char c :: nat) = of_char CHR ''0''" by (simp add: CH_VAL_def)
  then show "c = CHR ''0''" by (simp only: of_char_eq_iff)
qed simp

lemma nul_not_digit: "is_digit c \<Longrightarrow> c \<noteq> CHR 0x00"
  by (auto simp: is_digit_def)

lemma dec_digits_dval: "digits_ok ds \<Longrightarrow> dec_digits (length ds) (dval ds) = ds"
proof (induction ds rule: rev_induct)
  case (snoc d ds)
  then have "(dval ds * 10 + d) div 10 = dval ds" "(dval ds * 10 + d) mod 10 = d" by auto
  with snoc show ?case by simp
qed simp

lemma dec_digits_add: "dec_digits k (m + 10 ^ k * n) = dec_digits k m"
proof (induction k arbitrary: m)
  case (Suc k)
  have "(m + 10 ^ Suc k * n) div 10 = m div 10 + 10 ^ k * n" by (simp add: mult.assoc)
  moreover have "(m + 10 ^ Suc k * n) mod 10 = m mod 10" by (simp add: mult.assoc)
  ultimately show ?case using Suc by simp
qed simp

lemma dec_digits_props:
  "digits_ok (dec_digits k n)" "length (dec_digits k n) = k" "dval (dec_digits k n) = n mod 10 ^ k"
proof (induction k arbitrary: n)
  case (Suc k)
  { case 1 then show ?case using Suc pos_mod_bound [of 10 n] by simp }
  { case 2 then show ?case using Suc by simp }
  { case 3 then show ?case using Suc(3) [of "n div 10"] by (simp add: zmod_zmult2_eq) }
qed simp_all

lemma int_digits_dval:
  assumes "digits_ok ds" and "ds \<noteq> []" and "length ds = 1 \<or> hd ds \<noteq> 0"
  shows "int_digits (dval ds) = ds"
  using assms
proof (induction ds rule: rev_induct)
  case (snoc d ds)
  have d: "(dval ds * 10 + d) div 10 = dval ds" "(dval ds * 10 + d) mod 10 = d"
    using snoc.prems by auto
  show ?case
  proof (cases "ds = []")
    case False
    then have hd: "hd ds \<noteq> 0" using snoc.prems(3) by simp
    then have "int_digits (dval ds) = ds" using snoc False by simp
    moreover have "0 < dval ds"
    proof -
      obtain e es where "ds = e # es" using False by (cases ds) auto
      moreover from this have "10 ^ length es \<le> dval ds"
        using dval_lead [of e es] snoc.prems(1) hd by simp
      moreover have "0 < (10::int) ^ length es" by simp
      ultimately show ?thesis by linarith
    qed
    ultimately show ?thesis
      using d by (simp add: int_digits_def int2num_digits.simps [of "dval ds"])
  qed (use d in \<open>simp add: int_digits_def\<close>)
qed simp

lemma int_digits_props:
  assumes "0 \<le> n"
  shows "digits_ok (int_digits n)" "dval (int_digits n) = n"
proof -
  have "0 \<le> n div 10" using assms by simp
  note p = int2num_digits_props [OF this]
  have "n mod 10 \<le> 9" using pos_mod_bound [of 10 n] by linarith
  then show "digits_ok (int_digits n)" using p by (simp add: int_digits_def)
  show "dval (int_digits n) = n" using p by (simp add: int_digits_def dval_rev)
qed

section \<open>Printing\<close>

text \<open>The string is a function of the value and the requested scale alone.\<close>

lemma bc_num2str_ex_print:
  assumes ok: "bc_ok n" "1 \<le> n_len n"
  shows "bc_num2str_ex n s = print_dec s (bc_val n)"
proof -
  define m where "m = min s (n_scale n)"
  define ip fp z where "ip = take (n_len n) (n_value n)" and "fp = take m (drop (n_len n) (n_value n))"
    and "z = s - n_scale n"
  define t where "t = dval (ip @ fp) * 10 ^ z"
  have len: "length ip = n_len n" "length fp = m" "m + z = s"
    using ok by (auto simp: bc_ok_def ip_def fp_def m_def z_def)
  have dg: "digits_ok ip" "digits_ok fp" using ok by (auto simp: bc_ok_def ip_def fp_def)
  have ipfp: "ip @ fp = take (n_len n + m) (bc_digits n)"
    unfolding ip_def fp_def bc_digits_def take_add [of "n_len n" m, symmetric]
    by (simp add: m_def min_def)
  then have dv: "dval (ip @ fp) = bc_mag n div 10 ^ (n_scale n - m)"
    using dval_take [of "bc_digits n" "n_len n + m"] ok by (simp add: bc_mag_def m_def)
  have t0: "0 \<le> t" using dval_bounds(1) [of "ip @ fp"] dg by (simp add: t_def del: dval_append)
  have tr: "trunc_int (bc_val n * 10 ^ s) = sign_int (n_sign n) * t"
  proof -
    have "(10::rat) ^ s = 10 ^ m * 10 ^ z" using len(3) by (simp flip: power_add)
    moreover have "(10::rat) ^ n_scale n = 10 ^ m * 10 ^ (n_scale n - m)"
      by (simp add: m_def flip: power_add)
    ultimately have "bc_val n * 10 ^ s
        = of_int (sign_int (n_sign n) * (bc_mag n * 10 ^ z)) / of_int (10 ^ (n_scale n - m))"
      by (simp add: bc_val_def bc_int_def)
    then have "trunc_int (bc_val n * 10 ^ s)
        = sign_int (n_sign n) * (bc_mag n * 10 ^ z div 10 ^ (n_scale n - m))"
      using trunc_int_sgn [OF sign_int_cases, of "bc_mag n * 10 ^ z" "10 ^ (n_scale n - m)"]
        bc_mag_bounds(1) [OF ok(1)] by simp
    moreover have "z = 0 \<or> n_scale n - m = 0" by (auto simp: z_def m_def)
    ultimately show ?thesis using dv by (auto simp: t_def)
  qed
  have sg: "(n_sign n \<noteq> PLUS \<and> \<not> bc_is_zero_for_scale n (min (n_scale n) s))
      \<longleftrightarrow> trunc_int (bc_val n * 10 ^ s) < 0"
  proof -
    have "bc_is_zero_for_scale n m \<longleftrightarrow> dval (ip @ fp) = 0"
      using bc_is_zero_for_scale_iff [OF ok(1), of m]
      by (simp add: m_def ip_def fp_def take_add del: dval_append)
    then have "bc_is_zero_for_scale n (min (n_scale n) s) \<longleftrightarrow> t = 0"
      by (simp add: t_def m_def min.commute)
    then show ?thesis using t0 unfolding tr by (cases "n_sign n") auto
  qed
  let ?ds = "ip @ fp @ replicate z 0"
  have td: "t = dval ?ds" by (simp add: t_def power_add algebra_simps)
  have tt: "t = dval ip * 10 ^ s + dval (fp @ replicate z 0)"
    unfolding td dval_append len(3) [symmetric] length_append length_replicate power_add
    using len(2) by (simp add: algebra_simps)
  have fb: "0 \<le> dval (fp @ replicate z 0)" "dval (fp @ replicate z 0) < 10 ^ s"
    using dval_bounds [of "fp @ replicate z 0"] dg len by (simp_all del: dval_append)
  then have "t div 10 ^ s = dval ip" by (simp add: tt)
  moreover have "ip \<noteq> []" "length ip = 1 \<or> hd ip \<noteq> 0"
    using ok len(1) by (auto simp: bc_ok_def ip_def hd_take)
  ultimately have a: "int_digits (t div 10 ^ s) = ip" using int_digits_dval dg by simp
  have "dec_digits s t = dec_digits s (dval (fp @ replicate z 0))"
    using dec_digits_add [of s "dval (fp @ replicate z 0)" "dval ip"] by (simp add: tt ac_simps)
  then have b: "dec_digits s t = fp @ replicate z 0"
    using dec_digits_dval [of "fp @ replicate z 0"] dg len by simp
  have "\<bar>trunc_int (bc_val n * 10 ^ s)\<bar> = t"
    using t0 sign_int_cases [of "n_sign n"] by (auto simp: tr)
  then show ?thesis
    unfolding bc_num2str_ex_def print_dec_def Let_def sg
    by (simp add: a b flip: ip_def m_def) (simp add: fp_def z_def m_def)
qed

section \<open>Reading\<close>

text \<open>The shape of a well-formed body, after the sign.\<close>

definition dec_body :: "string \<Rightarrow> string \<Rightarrow> string \<Rightarrow> bool" where
  "dec_body body ip fp = (list_all is_digit (ip @ fp) \<and>
     (body = ip @ CHR ''.'' # fp \<or> body = ip \<and> fp = []))"

lemma digit_not_point: "list_all is_digit s \<Longrightarrow> CHR ''.'' \<notin> set s"
  by (auto simp: list_all_iff)

lemma span_all:
  assumes "\<forall>x\<in>set xs. P x"
  shows "takeWhile P xs = xs" and "dropWhile P xs = []"
  using assms by (simp_all add: takeWhile_eq_all_conv)

lemma span_stop:
  assumes "\<forall>x\<in>set xs. P x" and "\<not> P y"
  shows "takeWhile P (xs @ y # ys) = xs" and "dropWhile P (xs @ y # ys) = y # ys"
  using assms by (simp_all add: takeWhile_append2 dropWhile_append2)

lemma split_point:
  assumes "dec_body body ip fp"
  shows "takeWhile (\<lambda>c. c \<noteq> CHR ''.'') body = ip"
    and "drop 1 (dropWhile (\<lambda>c. c \<noteq> CHR ''.'') body) = fp"
proof -
  have "\<forall>c\<in>set ip. c \<noteq> CHR ''.''"
    using assms digit_not_point [of ip] by (auto simp: dec_body_def)
  note sp = span_all [OF this] span_stop [OF this, of "CHR ''.''" fp]
  from assms consider "body = ip @ CHR ''.'' # fp" | "body = ip" "fp = []"
    by (auto simp: dec_body_def)
  then show "takeWhile (\<lambda>c. c \<noteq> CHR ''.'') body = ip"
    "drop 1 (dropWhile (\<lambda>c. c \<noteq> CHR ''.'') body) = fp"
    by (cases; simp add: sp del: dropWhile_eq_Nil_conv)+
qed

lemma parse_dec_body:
  assumes "dec_body (skip_sign s) ip fp"
  shows "parse_dec s = Some (of_int ((if s \<noteq> [] \<and> hd s = CHR ''-'' then -1 else 1) *
      dval (map CH_VAL (ip @ fp))) / 10 ^ length fp)"
proof -
  have d: "list_all is_digit ip" "list_all is_digit fp" using assms by (auto simp: dec_body_def)
  show ?thesis
    using d split_point [OF assms] by (simp add: parse_dec_def Let_def add_divide_distrib diff_divide_distrib)
qed

lemma parse_dec_None:
  assumes "parse_dec s = None"
  shows "\<not> dec_body (skip_sign s) ip fp"
  using parse_dec_body [of s ip fp] assms by auto

text \<open>The scan of \<open>bc_str2num\<close> ends at the terminator exactly on such a body.\<close>

lemma scan_body:
  assumes "dec_body body ip fp"
  defines "p \<equiv> dropWhile (\<lambda>c. c = CHR ''0'') body"
  shows "takeWhile is_digit p = dropWhile (\<lambda>c. c = CHR ''0'') ip"
    and "takeWhile is_digit (skip_point (dropWhile is_digit p)) = fp"
    and "dropWhile is_digit (skip_point (dropWhile is_digit p)) = []"
proof -
  have d: "list_all is_digit ip" "list_all is_digit fp" using assms(1) by (auto simp: dec_body_def)
  then have tk: "takeWhile is_digit fp = fp" "dropWhile is_digit fp = []"
    using span_all [of fp is_digit] by (simp_all add: list_all_iff)
  define ip' where "ip' = dropWhile (\<lambda>c. c = CHR ''0'') ip"
  have ip': "\<forall>c\<in>set ip'. is_digit c"
    using d(1) by (auto simp: ip'_def list_all_iff dest: set_dropWhileD)
  have e: "dropWhile (\<lambda>c. c = CHR ''0'') (ip @ CHR ''.'' # fp) = ip' @ CHR ''.'' # fp"
    by (auto simp: ip'_def dropWhile_append)
  from assms(1) consider "body = ip @ CHR ''.'' # fp" | "body = ip" "fp = []"
    by (auto simp: dec_body_def)
  then have "p = ip' @ CHR ''.'' # fp \<or> p = ip' \<and> fp = []"
    by cases (auto simp: p_def e ip'_def)
  then show "takeWhile is_digit p = dropWhile (\<lambda>c. c = CHR ''0'') ip"
    "takeWhile is_digit (skip_point (dropWhile is_digit p)) = fp"
    "dropWhile is_digit (skip_point (dropWhile is_digit p)) = []"
    using span_all [OF ip'] span_stop [OF ip', of "CHR ''.''" fp] tk
    by (auto simp flip: ip'_def simp del: dropWhile_eq_Nil_conv)
qed

lemma scan_ends:
  assumes "dropWhile is_digit (skip_point (dropWhile is_digit
      (dropWhile (\<lambda>c. c = CHR ''0'') body))) = []"
  obtains ip fp where "dec_body body ip fp"
proof -
  define z p where "z = takeWhile (\<lambda>c. c = CHR ''0'') body" and "p = dropWhile (\<lambda>c. c = CHR ''0'') body"
  define i d where "i = takeWhile is_digit p" and "d = dropWhile is_digit p"
  have b: "body = z @ i @ d" by (simp add: z_def p_def i_def d_def)
  have zi: "list_all is_digit (z @ i)" by (auto simp: z_def i_def list_all_iff dest: set_takeWhileD)
  have sp: "\<forall>c\<in>set (skip_point d). is_digit c" using assms by (simp add: d_def p_def)
  show thesis
  proof (cases d)
    case Nil
    then show thesis using that [of "z @ i" "[]"] b zi by (simp add: dec_body_def)
  next
    case (Cons c cs)
    have "\<not> is_digit c" using hd_dropWhile [of is_digit p, folded d_def] Cons by simp
    then have "c = CHR ''.''" using sp Cons by (auto split: if_splits)
    then show thesis
      using that [of "z @ i" cs] b zi sp Cons by (auto simp: dec_body_def list_all_iff)
  qed
qed

lemma dval_skip_zeros: "dval (map CH_VAL (dropWhile (\<lambda>c. c = CHR ''0'') s)) = dval (map CH_VAL s)"
  by (induction s) auto

lemma trunc_to_take:
  assumes ok: "digits_ok (xs @ ys)" and s: "s = 1 \<or> s = -1" and m: "m = min (length ys) k"
  shows "trunc_to k (of_int (s * dval (xs @ ys)) / 10 ^ length ys)
    = of_int (s * dval (xs @ take m ys)) / 10 ^ m"
proof (cases "length ys \<le> k")
  case True
  then show ?thesis using m by (simp only: trunc_to_exact min_absorb1 take_all order_refl)
next
  case False
  then have k: "m = k" "k \<le> length ys" using m by auto
  have "xs @ take k ys = take (length xs + k) (xs @ ys)" by simp
  then have "dval (xs @ take k ys) = dval (xs @ ys) div 10 ^ (length ys - k)"
    using dval_take [OF ok, of "length xs + k"] k by (simp del: take_append dval_append)
  then show ?thesis
    using trunc_to_cut [OF s dval_bounds(1) [OF ok] k(2)] k by (simp only:)
qed

theorem bc_str2num_correct:
  assumes "parse_dec (c_str s) = Some v"
  obtains n where "bc_str2num s k = (True, n)" and "bc_wf n" and "bc_val n = trunc_to k v"
    and "n_scale n = min (frac_len (c_str s)) k"
proof -
  let ?str = "c_str s"
  obtain ip fp where b: "dec_body (skip_sign ?str) ip fp"
  proof -
    let ?b = "skip_sign ?str"
    let ?ip = "takeWhile (\<lambda>c. c \<noteq> CHR ''.'') ?b" and ?d = "dropWhile (\<lambda>c. c \<noteq> CHR ''.'') ?b"
    have "list_all is_digit (?ip @ drop 1 ?d)"
      using assms by (simp add: parse_dec_def Let_def split: if_splits)
    moreover have "?d = [] \<or> ?d = CHR ''.'' # drop 1 ?d"
      using hd_dropWhile [of "\<lambda>c. c \<noteq> CHR ''.''" ?b] by (cases ?d) auto
    moreover have "?b = ?ip @ ?d" by simp
    ultimately have "dec_body ?b ?ip (drop 1 ?d)" unfolding dec_body_def
      by (metis append_Nil2 drop_Nil)
    then show thesis by (rule that)
  qed
  define sg where "sg = (if ?str \<noteq> [] \<and> hd ?str = CHR ''-'' then -1 else 1 :: int)"
  define ip' where "ip' = dropWhile (\<lambda>c. c = CHR ''0'') ip"
  note sc = scan_body [OF b, folded ip'_def]
  have d: "list_all is_digit ip" "list_all is_digit fp" using b by (auto simp: dec_body_def)
  have di: "list_all is_digit ip'" using d by (auto simp: ip'_def list_all_iff dest: set_dropWhileD)
  have v: "v = of_int (sg * dval (map CH_VAL ip' @ map CH_VAL fp)) / 10 ^ length (map CH_VAL fp)"
    using parse_dec_body [OF b] assms dval_skip_zeros [of ip] by (simp add: sg_def ip'_def)
  have fl: "frac_len ?str = length fp"
  proof -
    have "dropWhile (\<lambda>c. c \<noteq> CHR ''.'') ?str = dropWhile (\<lambda>c. c \<noteq> CHR ''.'') (skip_sign ?str)"
      by (cases ?str) auto
    then show ?thesis using split_point(2) [OF b] by (simp add: frac_len_def)
  qed
  show thesis
  proof (cases "length ip' + length fp = 0")
    case True
    then have "bc_str2num s k = (True, bc_zero)"
      unfolding bc_str2num_def Let_def sc by simp
    moreover have "v = 0" using v True by simp
    ultimately show thesis using that [of bc_zero] fl True by (simp add: bc_const_wf bc_const_val trunc_to_def trunc_int_def)
  next
    case False
    define m where "m = min (length fp) k"
    define vi where "vi = (if length ip' = 0 then [0] else map CH_VAL ip')"
    define vf where "vf = map CH_VAL (take m fp)"
    define n0 where "n0 = \<lparr>n_sign = (if hd ?str = CHR ''-'' then MINUS else PLUS),
      n_len = length vi, n_scale = m, n_value = vi @ vf\<rparr>"
    define n where "n = (if bc_is_zero n0 then n0\<lparr>n_sign := PLUS\<rparr> else n0)"
    have len: "length vi \<noteq> 0" "length vf = m" by (auto simp: vi_def vf_def m_def)
    have ne: "?str \<noteq> []" using False b by (auto simp: dec_body_def ip'_def)
    have "bc_str2num s k = (True, n)"
      using False unfolding bc_str2num_def Let_def sc
      by (auto simp: n_def n0_def bc_new_num_def vi_def vf_def m_def)
    moreover have dg: "digits_ok (vi @ vf)"
      using digits_ok_CH_VAL [OF di] digits_ok_CH_VAL [OF d(2)]
      by (auto simp: vi_def vf_def simp flip: take_map)
    have lead: "hd vi \<noteq> 0" if "1 < length vi"
    proof -
      have "ip' \<noteq> []" using that by (auto simp: vi_def)
      then have "hd ip' \<noteq> CHR ''0''" using hd_dropWhile [of "\<lambda>c. c = CHR ''0''" ip] by (simp add: ip'_def)
      then show ?thesis using di \<open>ip' \<noteq> []\<close> CH_VAL_eq_0 [of "hd ip'"]
        by (cases ip') (auto simp: vi_def)
    qed
    have f: "n_len n = length vi" "n_scale n = m" "n_value n = vi @ vf" by (auto simp: n_def n0_def)
    have ok0: "bc_ok n0" using dg lead len by (auto simp: bc_ok_def n0_def hd_append)
    then have ok: "bc_ok n" by (simp add: bc_ok_def f) (simp add: n0_def bc_ok_def)
    have mg: "bc_mag n = dval (vi @ vf)" "bc_mag n0 = dval (vi @ vf)"
      using len by (auto simp: bc_mag_def bc_digits_def f) (auto simp: n0_def)
    have sn: "n_sign n = (if dval (vi @ vf) = 0 then PLUS else n_sign n0)"
      using ok0 mg by (simp add: n_def)
    have "bc_wf n" using ok len mg unfolding bc_wf_def f sn by (simp add: Suc_le_eq)
    moreover have vv: "dval (vi @ vf) = dval (map CH_VAL ip' @ take m (map CH_VAL fp))"
      by (simp add: vi_def vf_def take_map)
    have "bc_int n = sg * dval (vi @ vf)"
      using ne unfolding bc_int_def mg sn by (simp add: n0_def sg_def)
    then have "bc_val n = of_int (sg * dval (map CH_VAL ip' @ take m (map CH_VAL fp))) / 10 ^ m"
      by (simp only: bc_val_def f vv)
    moreover have "digits_ok (map CH_VAL ip' @ map CH_VAL fp)" "sg = 1 \<or> sg = -1" "m = min (length (map CH_VAL fp)) k"
      using digits_ok_CH_VAL [OF di] digits_ok_CH_VAL [OF d(2)] by (auto simp: sg_def m_def)
    note trunc_to_take [OF this]
    ultimately have "bc_val n = trunc_to k v" unfolding v by simp
    then show thesis using that [of n] \<open>bc_str2num s k = _\<close> \<open>bc_wf n\<close> f(2) fl by (simp add: m_def)
  qed
qed

text \<open>A literal has no more places than digits after its point.\<close>

lemma parse_dec_exact:
  assumes "parse_dec s = Some v"
  shows "\<exists>k. v = of_int k / 10 ^ frac_len s"
proof -
  let ?b = "skip_sign s"
  let ?i = "dval (map CH_VAL (takeWhile (\<lambda>c. c \<noteq> CHR ''.'') ?b))"
    and ?f = "dval (map CH_VAL (drop 1 (dropWhile (\<lambda>c. c \<noteq> CHR ''.'') ?b)))"
  have "dropWhile (\<lambda>c. c \<noteq> CHR ''.'') s = dropWhile (\<lambda>c. c \<noteq> CHR ''.'') ?b" by (cases s) auto
  then have "v = of_int (?i * 10 ^ frac_len s + ?f) / 10 ^ frac_len s \<or>
      v = of_int (- (?i * 10 ^ frac_len s + ?f)) / 10 ^ frac_len s"
    using assms unfolding parse_dec_def Let_def frac_len_def
    by (auto split: if_splits simp: add_divide_distrib diff_divide_distrib)
  then show ?thesis by blast
qed

theorem bc_str2num_rejects:
  assumes "parse_dec (c_str s) = None"
  shows "bc_str2num s k = (False, bc_zero)"
proof -
  let ?p = "dropWhile is_digit (skip_point (dropWhile is_digit
      (dropWhile (\<lambda>c. c = CHR ''0'') (skip_sign (c_str s)))))"
  have "?p \<noteq> []"
  proof
    assume "?p = []"
    then obtain ip fp where "dec_body (skip_sign (c_str s)) ip fp" by (rule scan_ends)
    with parse_dec_None [OF assms] show False by blast
  qed
  then show ?thesis unfolding bc_str2num_def Let_def by (simp only: simp_thms if_True)
qed

section \<open>Round trips\<close>

lemma print_dec_body:
  assumes t_def: "t = trunc_int (x * 10 ^ s)"
  shows "dec_body (skip_sign (print_dec s x))
      (map BCD_CHAR (int_digits (\<bar>t\<bar> div 10 ^ s))) (map BCD_CHAR (dec_digits s \<bar>t\<bar>))"
    and "print_dec s x \<noteq> [] \<and> hd (print_dec s x) = CHR ''-'' \<longleftrightarrow> t < 0"
    and "CHR 0x00 \<notin> set (print_dec s x)"
proof -
  let ?ip = "map BCD_CHAR (int_digits (\<bar>t\<bar> div 10 ^ s))" and ?fp = "map BCD_CHAR (dec_digits s \<bar>t\<bar>)"
  have i: "digits_ok (int_digits (\<bar>t\<bar> div 10 ^ s))" 
    by (intro int_digits_props) (simp add: pos_imp_zdiv_nonneg_iff)
  have d: "list_all is_digit ?ip" "list_all is_digit ?fp"
    using BCD_chars(1) [OF i] BCD_chars(1) [OF dec_digits_props(1) [of s "\<bar>t\<bar>"]] by auto
  obtain c cs where c: "?ip = c # cs" by (cases ?ip) (auto simp: int_digits_def)
  then have nc: "c \<noteq> CHR ''+''" "c \<noteq> CHR ''-''" using d(1) by auto
  define body where "body = ?ip @ (if s > 0 then CHR ''.'' # ?fp else [])"
  have p: "print_dec s x = (if t < 0 then CHR ''-'' # body else body)"
    by (simp add: print_dec_def Let_def body_def t_def)
  have bc: "body = c # (cs @ (if s > 0 then CHR ''.'' # ?fp else []))"
    unfolding body_def c by (simp only: append_Cons)
  have b: "skip_sign (print_dec s x) = body" unfolding p bc using nc by simp
  show "dec_body (skip_sign (print_dec s x)) ?ip ?fp"
    unfolding b using d by (auto simp: dec_body_def body_def)
  show "print_dec s x \<noteq> [] \<and> hd (print_dec s x) = CHR ''-'' \<longleftrightarrow> t < 0"
    unfolding p bc using nc by simp
  show "CHR 0x00 \<notin> set (print_dec s x)"
    using d nul_not_digit [of "CHR 0x00"] by (auto simp: p body_def list_all_iff)
qed

lemma parse_print: "parse_dec (print_dec s x) = Some (trunc_to s x)"
proof -
  define t where "t = trunc_int (x * 10 ^ s)"
  note b = print_dec_body [OF t_def]
  have i: "digits_ok (int_digits (\<bar>t\<bar> div 10 ^ s))" "dval (int_digits (\<bar>t\<bar> div 10 ^ s)) = \<bar>t\<bar> div 10 ^ s"
    by (rule int_digits_props, simp add: pos_imp_zdiv_nonneg_iff)+
  have "map CH_VAL (map BCD_CHAR (int_digits (\<bar>t\<bar> div 10 ^ s)) @ map BCD_CHAR (dec_digits s \<bar>t\<bar>))
      = int_digits (\<bar>t\<bar> div 10 ^ s) @ dec_digits s \<bar>t\<bar>"
    unfolding map_append BCD_chars(2) [OF i(1)] BCD_chars(2) [OF dec_digits_props(1)] ..
  moreover have "dval (int_digits (\<bar>t\<bar> div 10 ^ s) @ dec_digits s \<bar>t\<bar>) = \<bar>t\<bar>"
    unfolding dval_append i(2) dec_digits_props by (rule div_mult_mod_eq)
  ultimately show ?thesis
    using parse_dec_body [OF b(1)] b(2)
    by (simp add: trunc_to_def dec_digits_props flip: t_def del: map_append)
qed

text \<open>Reading back what was printed gives the truncated number, and printing that gives the
  same string again.\<close>

lemma trunc_to_idem: "trunc_to s (trunc_to s x) = trunc_to s x"
  using trunc_to_exact [of s s "trunc_int (x * 10 ^ s)"] by (simp add: trunc_to_def)

lemma print_trunc: "print_dec s (trunc_to s x) = print_dec s x"
proof -
  have "trunc_int (trunc_to s x * 10 ^ s) = trunc_int (x * 10 ^ s)"
    by (simp add: trunc_to_def)
  then show ?thesis by (simp add: print_dec_def)
qed

end
