(* ===== verification/BC_Math.thy ===== *)
theory BC_Math
  imports BC_Raise BC_Str
begin

text \<open>
  The PHP functions of \<open>ext/bcmath/bcmath.c\<close>. Each takes its operands as byte strings and the
  scale as an optional integer, reads the operands, calls the library and prints the result. An
  exception is a value of \<open>bc_error\<close>; \<open>BCG(bc_precision)\<close> is the argument \<open>precision\<close>.
\<close>

section \<open>Arguments\<close>


definition sum_bind :: "'e + 'a \<Rightarrow> ('a \<Rightarrow> 'e + 'b) \<Rightarrow> 'e + 'b" where
  "sum_bind x f = (case x of Inl e \<Rightarrow> Inl e | Inr a \<Rightarrow> f a)"

lemma sum_bind_simps [simp]: "sum_bind (Inl e) f = Inl e" "sum_bind (Inr a) f = f a"
  by (simp_all add: sum_bind_def)

text \<open>The block on \<open>scale_param\<close> every function starts with; \<open>None\<close> is null or absent.\<close>

definition bc_scale_arg :: "nat \<Rightarrow> nat \<Rightarrow> int option \<Rightarrow> bc_error + nat" where
  "bc_scale_arg arg precision scale_param =
     (case scale_param of
        None \<Rightarrow> Inr precision
      | Some sp \<Rightarrow>
          if sp < 0 \<or> sp > INT_MAX then Inl (ValueError arg ''must be between 0 and 2147483647'')
          else Inr (nat sp))"

text \<open>\<open>php_str2num\<close>; \<open>None\<close> is \<open>FAILURE\<close>.\<close>

definition php_str2num :: "string \<Rightarrow> bc_num option" where
  "php_str2num s =
     (let p = dropWhile (\<lambda>c. c \<noteq> CHR ''.'') (c_str s);
          (ok, num) = (if p = [] then bc_str2num s 0 else bc_str2num s (length (tl p)))
      in if ok then Some num else None)"

definition bc_operand :: "nat \<Rightarrow> string \<Rightarrow> bc_error + bc_num" where
  "bc_operand arg s =
     (case php_str2num s of
        None \<Rightarrow> Inl (ValueError arg ''is not well-formed'')
      | Some num \<Rightarrow> Inr num)"

section \<open>The functions\<close>

text \<open>The text \<open>bcadd\<close>, \<open>bcsub\<close>, \<open>bcmul\<close>, \<open>bcdiv\<close>, \<open>bcmod\<close> and \<open>bcpow\<close> share, around
  the call of the library routine.\<close>

definition bc_binary :: "(bc_num \<Rightarrow> bc_num \<Rightarrow> nat \<Rightarrow> bc_error + bc_num) \<Rightarrow>
    nat \<Rightarrow> string \<Rightarrow> string \<Rightarrow> int option \<Rightarrow> bc_error + string" where
  "bc_binary oper precision left right scale_param =
     sum_bind (bc_scale_arg 3 precision scale_param) (\<lambda>scale.
     sum_bind (bc_operand 1 left) (\<lambda>first.
     sum_bind (bc_operand 2 right) (\<lambda>second.
     sum_bind (oper first second scale) (\<lambda>result.
     Inr (bc_num2str_ex result scale)))))"

definition call_add :: "bc_num \<Rightarrow> bc_num \<Rightarrow> nat \<Rightarrow> bc_error + bc_num" where
  "call_add first second scale = Inr (bc_add first second scale)"

definition call_sub :: "bc_num \<Rightarrow> bc_num \<Rightarrow> nat \<Rightarrow> bc_error + bc_num" where
  "call_sub first second scale = Inr (bc_sub first second scale)"

definition call_multiply :: "bc_num \<Rightarrow> bc_num \<Rightarrow> nat \<Rightarrow> bc_error + bc_num" where
  "call_multiply first second scale =
     (case bc_multiply first second scale of None \<Rightarrow> Inl OutOfBounds | Some r \<Rightarrow> Inr r)"

definition call_divide :: "bc_num \<Rightarrow> bc_num \<Rightarrow> nat \<Rightarrow> bc_error + bc_num" where
  "call_divide first second scale =
     (case bc_divide first second scale of
        Quot q \<Rightarrow> Inr q
      | DivByZero \<Rightarrow> Inl (DivisionByZeroError ''Division by zero'')
      | DivOutOfBounds \<Rightarrow> Inl OutOfBounds)"

definition call_modulo :: "bc_num \<Rightarrow> bc_num \<Rightarrow> nat \<Rightarrow> bc_error + bc_num" where
  "call_modulo first second scale =
     (case bc_modulo first second scale of
        Some r \<Rightarrow> Inr r
      | None \<Rightarrow> Inl (DivisionByZeroError ''Modulo by zero''))"

definition call_raise :: "bc_num \<Rightarrow> bc_num \<Rightarrow> nat \<Rightarrow> bc_error + bc_num" where
  "call_raise first second scale = bc_raise first second bc_zero scale"

definition bcadd :: "nat \<Rightarrow> string \<Rightarrow> string \<Rightarrow> int option \<Rightarrow> bc_error + string" where
  "bcadd = bc_binary call_add"

definition bcsub :: "nat \<Rightarrow> string \<Rightarrow> string \<Rightarrow> int option \<Rightarrow> bc_error + string" where
  "bcsub = bc_binary call_sub"

definition bcmul :: "nat \<Rightarrow> string \<Rightarrow> string \<Rightarrow> int option \<Rightarrow> bc_error + string" where
  "bcmul = bc_binary call_multiply"

definition bcdiv :: "nat \<Rightarrow> string \<Rightarrow> string \<Rightarrow> int option \<Rightarrow> bc_error + string" where
  "bcdiv = bc_binary call_divide"

definition bcmod :: "nat \<Rightarrow> string \<Rightarrow> string \<Rightarrow> int option \<Rightarrow> bc_error + string" where
  "bcmod = bc_binary call_modulo"

definition bcpow :: "nat \<Rightarrow> string \<Rightarrow> string \<Rightarrow> int option \<Rightarrow> bc_error + string" where
  "bcpow = bc_binary call_raise"

text \<open>\<open>bcpowmod\<close>; the outer \<open>None\<close> is a loop that does not end.\<close>

definition bcpowmod ::
  "nat \<Rightarrow> string \<Rightarrow> string \<Rightarrow> string \<Rightarrow> int option \<Rightarrow> (bc_error + string) option" where
  "bcpowmod precision left right modulus scale_param =
     (case sum_bind (bc_scale_arg 4 precision scale_param) (\<lambda>scale.
           sum_bind (bc_operand 1 left) (\<lambda>first.
           sum_bind (bc_operand 2 right) (\<lambda>second.
           sum_bind (bc_operand 3 modulus) (\<lambda>modu. Inr (scale, first, second, modu))))) of
        Inl e \<Rightarrow> Some (Inl e)
      | Inr (scale, first, second, modu) \<Rightarrow>
          map_option (\<lambda>r. sum_bind r (\<lambda>result. Inr (bc_num2str_ex result scale)))
            (bc_raisemod first second modu scale))"

text \<open>\<open>bccomp\<close> reads its operands to \<open>scale\<close> places.\<close>

definition bccomp :: "nat \<Rightarrow> string \<Rightarrow> string \<Rightarrow> int option \<Rightarrow> bc_error + int" where
  "bccomp precision left right scale_param =
     sum_bind (bc_scale_arg 3 precision scale_param) (\<lambda>scale.
       let (ok1, first) = bc_str2num left scale
       in if \<not> ok1 then Inl (ValueError 1 ''is not well-formed'')
          else
            let (ok2, second) = bc_str2num right scale
            in if \<not> ok2 then Inl (ValueError 2 ''is not well-formed'')
               else Inr (bc_compare first second))"

text \<open>\<open>OnUpdateScale\<close> on the parsed quantity, and \<open>bcscale\<close>: the new precision and the return
  value.\<close>

definition OnUpdateScale :: "nat \<Rightarrow> int \<Rightarrow> nat" where
  "OnUpdateScale precision tmp = (if tmp < 0 \<or> tmp > INT_MAX then precision else nat tmp)"

definition bcscale :: "nat \<Rightarrow> int option \<Rightarrow> nat \<times> (bc_error + int)" where
  "bcscale precision new_scale =
     (case new_scale of
        None \<Rightarrow> (precision, Inr (int precision))
      | Some sc \<Rightarrow>
          if sc < 0 \<or> sc > INT_MAX
          then (precision, Inl (ValueError 1 ''must be between 0 and 2147483647''))
          else (OnUpdateScale precision sc, Inr (int precision)))"

section \<open>Reading operands\<close>

lemma php_str2num_correct:
  assumes "parse_dec (c_str s) = Some v"
  obtains n where "php_str2num s = Some n" and "bc_wf n" and "bc_val n = v"
    and "n_scale n = frac_len (c_str s)"
proof -
  let ?k = "frac_len (c_str s)"
  obtain n where n: "bc_str2num s ?k = (True, n)" "bc_wf n" "bc_val n = trunc_to ?k v"
    "n_scale n = ?k" by (rule bc_str2num_correct [OF assms, of ?k]) simp
  obtain i where "v = of_int i / 10 ^ ?k" using parse_dec_exact [OF assms] by blast
  then have "bc_val n = v" using n(3) by (simp only: trunc_to_exact order_refl)
  moreover have "php_str2num s = Some n"
    using n(1) unfolding php_str2num_def frac_len_def
    by (cases "dropWhile (\<lambda>c. c \<noteq> CHR ''.'') (c_str s) = []")
      (simp_all add: drop_Suc del: dropWhile_eq_Nil_conv)
  ultimately show thesis using that n by blast
qed

lemma php_str2num_rejects: "parse_dec (c_str s) = None \<Longrightarrow> php_str2num s = None"
  by (simp add: php_str2num_def Let_def bc_str2num_rejects)

section \<open>What the binary functions compute\<close>

text \<open>
  The specification a binary function meets, on the rationals its operands denote: the errors in
  the order the code finds them, and otherwise the exact result cut to the scale.
\<close>

definition binary_spec :: "(rat \<Rightarrow> rat \<Rightarrow> bc_error + rat) \<Rightarrow>
    nat \<Rightarrow> string \<Rightarrow> string \<Rightarrow> int option \<Rightarrow> bc_error + string" where
  "binary_spec f precision left right scale_param =
     sum_bind (bc_scale_arg 3 precision scale_param) (\<lambda>scale.
       case parse_dec (c_str left) of
         None \<Rightarrow> Inl (ValueError 1 ''is not well-formed'')
       | Some x \<Rightarrow>
           (case parse_dec (c_str right) of
              None \<Rightarrow> Inl (ValueError 2 ''is not well-formed'')
            | Some y \<Rightarrow> sum_bind (f x y) (\<lambda>z. Inr (print_dec scale z))))"

text \<open>
  The contract between \<open>bcmath.c\<close> and a library routine: on well-formed numbers the routine fails
  exactly when \<open>f\<close> does, and otherwise returns a number that agrees with \<open>f\<close> to \<open>scale\<close> places.
\<close>

locale bc_routine =
  fixes oper :: "bc_num \<Rightarrow> bc_num \<Rightarrow> nat \<Rightarrow> bc_error + bc_num"
    and f :: "rat \<Rightarrow> rat \<Rightarrow> bc_error + rat"
  assumes fails: "bc_wf a \<Longrightarrow> bc_wf b \<Longrightarrow> f (bc_val a) (bc_val b) = Inl e \<Longrightarrow> oper a b s = Inl e"
    and returns: "bc_wf a \<Longrightarrow> bc_wf b \<Longrightarrow> f (bc_val a) (bc_val b) = Inr z \<Longrightarrow>
      \<exists>r. oper a b s = Inr r \<and> bc_ok r \<and> 1 \<le> n_len r \<and> trunc_to s (bc_val r) = trunc_to s z"
begin

lemma binary_correct:
  "bc_binary oper precision left right scale_param = binary_spec f precision left right scale_param"
proof (cases "bc_scale_arg 3 precision scale_param")
  case (Inr scale)
  show ?thesis
  proof (cases "parse_dec (c_str left)")
    case None
    then show ?thesis
      using Inr by (simp add: bc_binary_def binary_spec_def bc_operand_def php_str2num_rejects)
  next
    case x: (Some x)
    then obtain a where a: "php_str2num left = Some a" "bc_wf a" "bc_val a = x"
      by (rule php_str2num_correct)
    show ?thesis
    proof (cases "parse_dec (c_str right)")
      case None
      then show ?thesis
        using Inr x a by (simp add: bc_binary_def binary_spec_def bc_operand_def php_str2num_rejects)
    next
      case y: (Some y)
      then obtain b where b: "php_str2num right = Some b" "bc_wf b" "bc_val b = y"
        by (rule php_str2num_correct)
      note [simp] = bc_binary_def binary_spec_def bc_operand_def
      show ?thesis
      proof (cases "f x y")
        case (Inl e)
        then show ?thesis using fails [of a b e scale] Inr x y a b by simp
      next
        case z: (Inr z)
        then obtain r where r: "oper a b scale = Inr r" "bc_ok r" "1 \<le> n_len r"
          "trunc_to scale (bc_val r) = trunc_to scale z"
          using returns [of a b z scale] a b by auto
        have "bc_num2str_ex r scale = print_dec scale z"
          using bc_num2str_ex_print [OF r(2,3)] r(4) by (metis print_trunc)
        then show ?thesis using z Inr x y a b r by simp
      qed
    qed
  qed
qed (simp add: bc_binary_def binary_spec_def)

end

lemma floor_div_nested:
  fixes y :: rat
  assumes "0 < b"
  shows "\<lfloor>of_int \<lfloor>y\<rfloor> / of_int b :: rat\<rfloor> = \<lfloor>y / of_int b\<rfloor>"
proof -
  let ?q = "\<lfloor>y\<rfloor> div b"
  have "?q * b \<le> \<lfloor>y\<rfloor>" "\<lfloor>y\<rfloor> < (?q + 1) * b"
    using assms int_le_div_iff [of b ?q "\<lfloor>y\<rfloor>"] int_div_less_iff [of b "\<lfloor>y\<rfloor>" "?q + 1"] by auto
  then have "of_int (?q * b) \<le> y" "y < of_int ((?q + 1) * b)" by (simp_all only: le_floor_iff floor_less_iff)
  then have "\<lfloor>y / of_int b\<rfloor> = ?q"
    using assms by (intro floor_unique) (simp_all add: pos_le_divide_eq pos_divide_less_eq)
  then show ?thesis by (simp add: floor_divide_of_int_eq)
qed

lemma trunc_int_nested:
  assumes "0 < b"
  shows "trunc_int (of_int (trunc_int y) / of_int b) = trunc_int (y / of_int b)"
proof -
  have pos: "trunc_int (of_int (trunc_int z) / of_int b) = trunc_int (z / of_int b)" if "0 \<le> z" for z
    using that assms floor_div_nested [OF assms, of z] by (simp add: trunc_int_def)
  show ?thesis
  proof (cases "0 \<le> y")
    case False
    then have "trunc_int (of_int (trunc_int (- y)) / of_int b) = trunc_int (- y / of_int b)"
      by (intro pos) simp
    then show ?thesis by (simp add: trunc_int_minus)
  qed (rule pos)
qed

lemma trunc_to_trunc:
  assumes "s \<le> p"
  shows "trunc_to s (trunc_to p x) = trunc_to s x"
proof -
  have p: "(10::rat) ^ p = 10 ^ s * of_int (10 ^ (p - s))" using assms by (simp flip: power_add)
  have "trunc_to p x * 10 ^ s = of_int (trunc_int (x * 10 ^ p)) / of_int (10 ^ (p - s))"
    by (simp add: trunc_to_def p)
  moreover have "x * 10 ^ s = x * 10 ^ p / of_int (10 ^ (p - s))" by (simp add: p)
  ultimately have "trunc_int (trunc_to p x * 10 ^ s) = trunc_int (x * 10 ^ s)"
    using trunc_int_nested [of "10 ^ (p - s)" "x * 10 ^ p"] by simp
  then show ?thesis by (simp only: trunc_to_def [of s])
qed

text \<open>A result kept to the larger of two scales, or exactly, agrees to the smaller one.\<close>

lemma trunc_to_min:
  assumes "x = of_int k / 10 ^ f" and "s \<le> m"
  shows "trunc_to s (trunc_to (min f m) x) = trunc_to s x"
proof (cases "f \<le> m")
  case True
  then have "trunc_to (min f m) x = x" using assms(1) by (simp only: min_absorb1 trunc_to_exact order_refl)
  then show ?thesis by simp
next
  case False
  then show ?thesis using assms(2) by (intro trunc_to_trunc) auto
qed

subsection \<open>The five routines meet the contract\<close>

interpretation add_routine: bc_routine call_add "\<lambda>x y. Inr (x + y)"
proof (unfold_locales, goal_cases)
  case (2 a b z s)
  have "bc_wf (bc_add a b s)" using 2(1,2) by (rule bc_add_wf)
  moreover have "bc_val (bc_add a b s) = z"
    using 2 bc_add_val(1) [of a b s] by (simp add: bc_wf_def)
  ultimately show ?case by (simp add: call_add_def bc_wf_def)
qed simp

interpretation sub_routine: bc_routine call_sub "\<lambda>x y. Inr (x - y)"
proof (unfold_locales, goal_cases)
  case (2 a b z s)
  have "bc_wf (bc_sub a b s)" using 2(1,2) by (rule bc_sub_wf)
  moreover have "bc_val (bc_sub a b s) = z"
    using 2 bc_sub_val(1) [of a b s] by (simp add: bc_wf_def)
  ultimately show ?case by (simp add: call_sub_def bc_wf_def)
qed simp

interpretation mul_routine: bc_routine call_multiply "\<lambda>x y. Inr (x * y)"
proof (unfold_locales, goal_cases)
  case (2 a b z s)
  let ?f = "n_scale a + n_scale b" and ?m = "max s (max (n_scale a) (n_scale b))"
  have "bc_ok a" "bc_ok b" "1 \<le> n_len a" "1 \<le> n_len b" using 2 by (auto simp: bc_wf_def)
  from bc_multiply_correct [OF this refl, of s] obtain r where r: "bc_multiply a b s = Some r" "bc_wf r"
    "bc_val r = trunc_to (min ?f ?m) (bc_val a * bc_val b)" by metis
  have "bc_val a * bc_val b = of_int (bc_int a * bc_int b) / 10 ^ ?f"
    by (simp add: bc_val_def power_add)
  from trunc_to_min [OF this, of s ?m] have "trunc_to s (bc_val r) = trunc_to s z" using r(3) 2 by simp
  then show ?case using r by (simp add: call_multiply_def bc_wf_def)
qed simp

definition div_rat :: "rat \<Rightarrow> rat \<Rightarrow> bc_error + rat" where
  "div_rat x y = (if y = 0 then Inl (DivisionByZeroError ''Division by zero'') else Inr (x / y))"

interpretation div_routine: bc_routine call_divide div_rat
proof (unfold_locales, goal_cases)
  case (1 a b e s)
  then show ?case by (auto simp: div_rat_def call_divide_def bc_divide_def bc_wf_def split: if_splits)
next
  case (2 a b z s)
  then have "bc_ok a" "bc_ok b" "bc_mag b \<noteq> 0" "z = bc_val a / bc_val b"
    by (auto simp: div_rat_def bc_wf_def split: if_splits)
  with bc_divide_correct [of a b s] show ?case
    by (metis bc_wf_def call_divide_def div_result.simps(10) trunc_to_idem)
qed

definition mod_rat :: "rat \<Rightarrow> rat \<Rightarrow> bc_error + rat" where
  "mod_rat x y =
     (if y = 0 then Inl (DivisionByZeroError ''Modulo by zero'')
      else Inr (x - of_int (trunc_int (x / y)) * y))"

interpretation mod_routine: bc_routine call_modulo mod_rat
proof (unfold_locales, goal_cases)
  case (1 a b e s)
  then show ?case
    by (auto simp: mod_rat_def call_modulo_def bc_modulo_def bc_divmod_def bc_wf_def split: if_splits)
next
  case (2 a b z s)
  then have nz: "bc_mag b \<noteq> 0" and z: "z = bc_val a - of_int (trunc_int (bc_val a / bc_val b)) * bc_val b"
    by (auto simp: mod_rat_def split: if_splits)
  from bc_divmod_correct [OF 2(1,2) nz, of s] obtain q r where r: "bc_divmod a b s = Some (q, r)" "bc_wf r"
    "bc_val q = trunc_to 0 (bc_val a / bc_val b)" "bc_val r = bc_val a - bc_val q * bc_val b" by metis
  then have "bc_val r = z" by (simp add: z trunc_to_def)
  then show ?case using r by (simp add: call_modulo_def bc_modulo_def bc_wf_def)
qed

section \<open>Powers\<close>

text \<open>
  \<open>bcpow\<close> on rationals. The exponent must be written without digits after the point; a negative
  power of zero is zero, since the failed division leaves the initial result.
\<close>

definition pow_rat :: "nat \<Rightarrow> rat \<Rightarrow> rat \<Rightarrow> bc_error + rat" where
  "pow_rat places x y =
     (let k = trunc_int y
      in if places \<noteq> 0 then Inl (ValueError 2 ''cannot have a fractional part'')
         else if \<bar>k\<bar> > LONG_MAX then Inl (ValueError 2 ''is too large'')
         else if 0 \<le> k then Inr (x ^ nat k)
         else if x = 0 then Inr 0
         else Inr (1 / x ^ nat (- k)))"

lemma bc_int_trunc: "n_scale n = 0 \<Longrightarrow> trunc_int (bc_val n) = bc_int n"
  by (simp add: bc_int_scale0)

lemma call_raise_error:
  assumes "bc_wf a" and "bc_wf b" and "pow_rat (n_scale b) (bc_val a) (bc_val b) = Inl e"
  shows "call_raise a b s = Inl e"
proof (cases "n_scale b = 0")
  case False
  then show ?thesis
    using assms(3) bc_raise_errors(1) [OF assms(2) False] by (simp add: pow_rat_def call_raise_def Let_def)
next
  case True
  then have "\<bar>bc_int b\<bar> > LONG_MAX" "e = ValueError 2 ''is too large''"
    using assms(3) by (auto simp: pow_rat_def bc_int_trunc Let_def split: if_splits)
  then show ?thesis using bc_raise_errors(2) [OF assms(2) True] by (simp add: call_raise_def)
qed

lemma call_raise_value:
  assumes a: "bc_wf a" and b: "bc_wf b" and z: "pow_rat (n_scale b) (bc_val a) (bc_val b) = Inr z"
  obtains r where "call_raise a b s = Inr r" and "bc_ok r" and "1 \<le> n_len r"
    and "trunc_to s (bc_val r) = trunc_to s z"
proof -
  have b0: "n_scale b = 0" using z by (auto simp: pow_rat_def Let_def split: if_splits)
  define k where "k = bc_int b"
  have k: "\<bar>k\<bar> \<le> LONG_MAX" and zk: "z = (if 0 \<le> k then bc_val a ^ nat k else
      if bc_val a = 0 then 0 else 1 / bc_val a ^ nat (- k))"
    using z by (auto simp: pow_rat_def bc_int_trunc b0 k_def Let_def split: if_splits)
  note e = bc_raise_errors(3) [OF b b0]
  consider "k = 0" | (pos) "k = int (nat k)" "0 < nat k" "int (nat k) \<le> LONG_MAX"
    | (neg) "k = - int (nat (- k))" "0 < nat (- k)" "int (nat (- k)) \<le> LONG_MAX" "k < 0"
    using k by linarith
  then show thesis
  proof cases
    case 1
    have "z = 1" unfolding zk 1 by simp
    moreover have "bc_int b = 0" using 1 by (simp only: k_def)
    ultimately show thesis using that [of bc_one] e bc_const_wf(2)
      by (simp add: call_raise_def bc_wf_def bc_const_val)
  next
    case pos
    let ?f = "n_scale a * nat k" and ?m = "max s (n_scale a)"
    obtain r where r: "bc_raise a b bc_zero s = Inr r" "bc_ok r" "1 \<le> n_len r"
      "bc_val r = trunc_to (min ?f ?m) (bc_val a ^ nat k)"
      using bc_raise_positive [OF a b b0 pos [unfolded k_def] refl] unfolding k_def by metis
    have "bc_val a ^ nat k = of_int (bc_int a ^ nat k) / 10 ^ ?f"
      by (simp add: bc_val_def power_divide power_mult)
    from trunc_to_min [OF this, of s ?m] have "trunc_to s (bc_val r) = trunc_to s z"
      using r(4) zk pos by simp
    then show thesis using that r by (simp add: call_raise_def)
  next
    case neg
    show thesis
    proof (cases "bc_mag a = 0")
      case True
      then show thesis
        using that [of bc_zero] bc_raise_negative_zero [OF a b b0 neg(1-3) [unfolded k_def] True]
          bc_const_wf(1) zk neg(4) bc_val_eq_0_iff [of a]
        by (simp add: call_raise_def bc_wf_def bc_const_val)
    next
      case False
      obtain r where r: "bc_raise a b bc_zero s = Inr r" "bc_wf r"
        "bc_val r = trunc_to s (1 / bc_val a ^ nat (- k))"
        using bc_raise_negative [OF a b b0 neg(1-3) [unfolded k_def] False] unfolding k_def by metis
      moreover have "z = 1 / bc_val a ^ nat (- k)" using zk neg(4) False bc_val_eq_0_iff [of a] by simp
      ultimately show thesis using that [of r] by (simp add: call_raise_def bc_wf_def trunc_to_idem)
    qed
  qed
qed

lemma bc_operand_eq:
  "bc_operand arg s = (case parse_dec (c_str s) of
      None \<Rightarrow> Inl (ValueError arg ''is not well-formed'')
    | Some x \<Rightarrow> Inr (the (php_str2num s)))"
proof (cases "parse_dec (c_str s)")
  case (Some v)
  then obtain n where "php_str2num s = Some n" by (rule php_str2num_correct)
  then show ?thesis using Some by (simp add: bc_operand_def)
qed (simp add: bc_operand_def php_str2num_rejects)

lemma php_operand:
  assumes "parse_dec (c_str s) = Some v"
  shows "bc_wf (the (php_str2num s))" and "bc_val (the (php_str2num s)) = v"
    and "n_scale (the (php_str2num s)) = frac_len (c_str s)"
proof -
  obtain n where "php_str2num s = Some n" "bc_wf n" "bc_val n = v" "n_scale n = frac_len (c_str s)"
    by (rule php_str2num_correct [OF assms])
  then show "bc_wf (the (php_str2num s))" "bc_val (the (php_str2num s)) = v"
    "n_scale (the (php_str2num s)) = frac_len (c_str s)" by simp_all
qed

lemma print_agree:
  assumes "bc_ok r" and "1 \<le> n_len r" and "trunc_to s (bc_val r) = trunc_to s z"
  shows "bc_num2str_ex r s = print_dec s z"
  using bc_num2str_ex_print [OF assms(1,2)] assms(3) by (metis print_trunc)

lemma bcpow_eq:
  "bcpow precision left right scale_param =
     binary_spec (pow_rat (frac_len (c_str right))) precision left right scale_param"
proof (cases "bc_scale_arg 3 precision scale_param")
  case sc: (Inr s)
  show ?thesis
  proof (cases "parse_dec (c_str left) = None \<or> parse_dec (c_str right) = None")
    case True
    then show ?thesis
      using sc by (auto simp: bcpow_def bc_binary_def binary_spec_def bc_operand_eq split: option.splits)
  next
    case False
    then obtain x y where xy: "parse_dec (c_str left) = Some x" "parse_dec (c_str right) = Some y" by auto
    let ?a = "the (php_str2num left)" and ?b = "the (php_str2num right)"
    note a = php_operand [OF xy(1)] and b = php_operand [OF xy(2)]
    have st: "bcpow precision left right scale_param =
        sum_bind (call_raise ?a ?b s) (\<lambda>r. Inr (bc_num2str_ex r s))"
      using sc xy by (simp add: bcpow_def bc_binary_def bc_operand_eq)
    have sp: "binary_spec (pow_rat (frac_len (c_str right))) precision left right scale_param =
        sum_bind (pow_rat (n_scale ?b) (bc_val ?a) (bc_val ?b)) (\<lambda>z. Inr (print_dec s z))"
      using sc xy by (simp add: binary_spec_def a b)
    show ?thesis
    proof (cases "pow_rat (n_scale ?b) (bc_val ?a) (bc_val ?b)")
      case (Inl e)
      then show ?thesis using call_raise_error [OF a(1) b(1) Inl] by (simp add: st sp)
    next
      case (Inr z)
      from call_raise_value [OF a(1) b(1) Inr] obtain r where "call_raise ?a ?b s = Inr r"
        "bc_ok r" "1 \<le> n_len r" "trunc_to s (bc_val r) = trunc_to s z" by metis
      then show ?thesis using Inr print_agree by (simp add: st sp)
    qed
  qed
qed (simp add: bcpow_def bc_binary_def binary_spec_def)

section \<open>Modular powers\<close>

definition powmod_rat :: "nat \<Rightarrow> nat \<Rightarrow> nat \<Rightarrow> rat \<Rightarrow> rat \<Rightarrow> rat \<Rightarrow> bc_error + rat" where
  "powmod_rat places1 places2 places3 x y m =
     (if places1 \<noteq> 0 then Inl (ValueError 1 ''cannot have a fractional part'')
      else if places2 \<noteq> 0 then Inl (ValueError 2 ''cannot have a fractional part'')
      else if y < 0 then Inl (ValueError 2 ''must be greater than or equal to 0'')
      else if places3 \<noteq> 0 then Inl (ValueError 3 ''cannot have a fractional part'')
      else if m = 0 then Inl (DivisionByZeroError ''Modulo by zero'')
      else Inr (of_int (trem (trunc_int x ^ nat (trunc_int y)) (trunc_int m))))"

definition powmod_spec :: "nat \<Rightarrow> string \<Rightarrow> string \<Rightarrow> string \<Rightarrow> int option \<Rightarrow> bc_error + string" where
  "powmod_spec precision left right modulus scale_param =
     sum_bind (bc_scale_arg 4 precision scale_param) (\<lambda>scale.
       case parse_dec (c_str left) of None \<Rightarrow> Inl (ValueError 1 ''is not well-formed'')
       | Some x \<Rightarrow>
       (case parse_dec (c_str right) of None \<Rightarrow> Inl (ValueError 2 ''is not well-formed'')
       | Some y \<Rightarrow>
       (case parse_dec (c_str modulus) of None \<Rightarrow> Inl (ValueError 3 ''is not well-formed'')
       | Some m \<Rightarrow>
         sum_bind (powmod_rat (frac_len (c_str left)) (frac_len (c_str right))
                     (frac_len (c_str modulus)) x y m) (\<lambda>z. Inr (print_dec scale z)))))"

lemma bc_is_neg_val: "bc_wf n \<Longrightarrow> bc_is_neg n \<longleftrightarrow> bc_val n < 0"
proof -
  assume w: "bc_wf n"
  then have "0 \<le> bc_mag n" using bc_mag_bounds(1) [of n] by (simp add: bc_wf_def)
  moreover have "bc_mag n = 0 \<Longrightarrow> n_sign n = PLUS" using w by (simp add: bc_wf_def)
  ultimately have "n_sign n = MINUS \<Longrightarrow> 0 < bc_mag n" by force
  with \<open>0 \<le> bc_mag n\<close> show ?thesis
    by (cases "n_sign n") (simp_all add: bc_is_neg_def bc_val_def bc_int_def divide_less_0_iff)
qed

lemma bc_raisemod_spec:
  assumes w: "bc_wf a" "bc_wf b" "bc_wf c"
  obtains (error) e where "powmod_rat (n_scale a) (n_scale b) (n_scale c) (bc_val a) (bc_val b) (bc_val c) = Inl e"
      "bc_raisemod a b c s = Some (Inl e)"
  | (result) z r where "powmod_rat (n_scale a) (n_scale b) (n_scale c) (bc_val a) (bc_val b) (bc_val c) = Inr z"
      "bc_raisemod a b c s = Some (Inr r)" "bc_wf r" "bc_val r = z"
proof (cases "n_scale a = 0 \<and> n_scale b = 0 \<and> n_scale c = 0 \<and> \<not> bc_is_neg b \<and> \<not> bc_is_zero c")
  case False
  have "bc_is_zero c \<longleftrightarrow> bc_val c = 0" using w(3) by (simp add: bc_wf_def)
  note eqs = this [symmetric] bc_is_neg_val [OF w(2), symmetric]
  from False consider "n_scale a \<noteq> 0" | "n_scale a = 0" "n_scale b \<noteq> 0"
    | "n_scale a = 0" "n_scale b = 0" "bc_is_neg b"
    | "n_scale a = 0" "n_scale b = 0" "\<not> bc_is_neg b" "n_scale c \<noteq> 0"
    | "n_scale a = 0" "n_scale b = 0" "\<not> bc_is_neg b" "n_scale c = 0" "bc_is_zero c" by metis
  then show thesis
    by cases (rule error, simp_all only: bc_raisemod_def powmod_rat_def eqs simp_thms if_True if_False)+
next
  case True
  then have sc: "n_scale a = 0" "n_scale b = 0" "n_scale c = 0" by auto
  have nz: "bc_int c \<noteq> 0" using True w(3) by (simp add: bc_wf_def)
  have b: "0 \<le> bc_val b" using True bc_is_neg_val [OF w(2)] by simp
  then have "bc_int b = int (nat (bc_int b))" by (simp add: bc_int_scale0 sc)
  from bc_raisemod_correct [OF w sc this nz] obtain r where r: "bc_raisemod a b c s = Some (Inr r)"
    "bc_wf r" "bc_val r = of_int (trem (bc_int a ^ nat (bc_int b)) (bc_int c))" by metis
  have "bc_val c \<noteq> 0" using nz by simp
  then have "powmod_rat (n_scale a) (n_scale b) (n_scale c) (bc_val a) (bc_val b) (bc_val c)
      = Inr (of_int (trem (bc_int a ^ nat (bc_int b)) (bc_int c)))"
    using b by (simp add: powmod_rat_def sc bc_int_trunc)
  then show thesis using result r by blast
qed

lemma bcpowmod_eq:
  "bcpowmod precision left right modulus scale_param =
     Some (powmod_spec precision left right modulus scale_param)"
proof (cases "bc_scale_arg 4 precision scale_param")
  case sc: (Inr s)
  show ?thesis
  proof (cases "parse_dec (c_str left) = None \<or> parse_dec (c_str right) = None \<or>
      parse_dec (c_str modulus) = None")
    case True
    then show ?thesis
      using sc by (auto simp: bcpowmod_def powmod_spec_def bc_operand_eq split: option.splits)
  next
    case False
    then obtain x y m where xym: "parse_dec (c_str left) = Some x" "parse_dec (c_str right) = Some y"
      "parse_dec (c_str modulus) = Some m" by auto
    note p = php_operand [OF xym(1)] php_operand [OF xym(2)] php_operand [OF xym(3)]
    show ?thesis
      by (rule bc_raisemod_spec [OF p(1,4,7), of s])
        (use sc xym in \<open>simp_all add: bcpowmod_def powmod_spec_def bc_operand_eq p
            bc_num2str_ex_print bc_wf_def\<close>)
  qed
qed (simp add: bcpowmod_def powmod_spec_def)

section \<open>Comparison\<close>

lemma bccomp_eq:
  "bccomp precision left right scale_param =
     sum_bind (bc_scale_arg 3 precision scale_param) (\<lambda>s.
       case parse_dec (c_str left) of None \<Rightarrow> Inl (ValueError 1 ''is not well-formed'')
       | Some x \<Rightarrow>
       (case parse_dec (c_str right) of None \<Rightarrow> Inl (ValueError 2 ''is not well-formed'')
       | Some y \<Rightarrow> Inr (if trunc_to s x < trunc_to s y then -1
                      else if trunc_to s x = trunc_to s y then 0 else 1)))"
proof (cases "bc_scale_arg 3 precision scale_param")
  case sc: (Inr s)
  show ?thesis
  proof (cases "parse_dec (c_str left)")
    case None
    then show ?thesis using sc by (simp add: bccomp_def bc_str2num_rejects)
  next
    case x: (Some x)
    then obtain a where a: "bc_str2num left s = (True, a)" "bc_wf a" "bc_val a = trunc_to s x"
      by (rule bc_str2num_correct)
    show ?thesis
    proof (cases "parse_dec (c_str right)")
      case None
      then show ?thesis using sc x a by (simp add: bccomp_def bc_str2num_rejects)
    next
      case y: (Some y)
      then obtain b where b: "bc_str2num right s = (True, b)" "bc_wf b" "bc_val b = trunc_to s y"
        by (rule bc_str2num_correct)
      have "sgn (trunc_int (sgn (u - v))) = (if u < v then -1 else if u = v then 0 else 1)" for u v :: rat
        by (simp add: sgn_if trunc_int_def)
      then have "bc_compare a b = (if trunc_to s x < trunc_to s y then -1
          else if trunc_to s x = trunc_to s y then 0 else 1)"
        using bc_compare_val [OF a(2) b(2)] by (simp add: a b)
      then show ?thesis using sc x y a b by (simp add: bccomp_def)
    qed
  qed
qed (simp add: bccomp_def)

section \<open>Properties of the extension\<close>

text \<open>\<open>bcadd\<close> returns the decimal string of the exact sum cut to the scale, for every pair of
  byte strings; the only errors are a scale out of range and an operand that is no decimal literal,
  reported for the first such argument in the order scale, left, right.\<close>

theorem bcadd_spec:
  "bcadd precision left right scale_param =
     binary_spec (\<lambda>x y. Inr (x + y)) precision left right scale_param"
  unfolding bcadd_def by (rule add_routine.binary_correct)

text \<open>\<open>bcsub\<close> returns the exact difference cut to the scale.\<close>

theorem bcsub_spec:
  "bcsub precision left right scale_param =
     binary_spec (\<lambda>x y. Inr (x - y)) precision left right scale_param"
  unfolding bcsub_def by (rule sub_routine.binary_correct)



text \<open>\<open>bcmod\<close> throws \<open>Modulo by zero\<close> exactly when the divisor denotes zero, and otherwise
  returns, cut to the scale, the remainder of the division that truncates its quotient to an
  integer.\<close>

theorem bcmod_spec:
  "bcmod precision left right scale_param =
     binary_spec (\<lambda>x y. if y = 0 then Inl (DivisionByZeroError ''Modulo by zero'')
       else Inr (x - of_int (trunc_int (x / y)) * y)) precision left right scale_param"
  unfolding bcmod_def mod_routine.binary_correct by (simp add: mod_rat_def [abs_def])



text \<open>\<open>bccomp\<close> compares its operands cut to the scale.\<close>

theorem bccomp_spec:
  "bccomp precision left right scale_param =
     sum_bind (bc_scale_arg 3 precision scale_param) (\<lambda>s.
       case parse_dec (c_str left) of None \<Rightarrow> Inl (ValueError 1 ''is not well-formed'')
       | Some x \<Rightarrow>
       (case parse_dec (c_str right) of None \<Rightarrow> Inl (ValueError 2 ''is not well-formed'')
       | Some y \<Rightarrow> Inr (if trunc_to s x < trunc_to s y then -1
                      else if trunc_to s x = trunc_to s y then 0 else 1)))"
  by (rule bccomp_eq)

text \<open>C8. The recursive multiplication, which splits long operands and works on shifted partial
  results in place, computes the same digits as the schoolbook product and stays inside its
  buffers.\<close>

theorem bc_rec_mul_schoolbook:
  assumes "digits_ok u" and "digits_ok v" and "u \<noteq> []" and "v \<noteq> []"
  shows "bc_rec_mul u v = Some (bc_simp_mul u v)"
proof -
  obtain p where p: "bc_rec_mul u v = Some p" "mul_spec u v p"
    using bc_rec_mul_correct [OF assms] by blast
  note q = bc_simp_mul_props [OF assms(1,2)]
  have "dec_digits (length p) (dval p) = p" "dec_digits (length p) (dval p) = bc_simp_mul u v"
    using p(2) q dec_digits_dval [of p] dec_digits_dval [of "bc_simp_mul u v"]
    by (simp_all add: mul_spec_def)
  then show ?thesis using p(1) by simp
qed

theorem bc_rec_mul_schoolbook_witness:
  "digits_ok (replicate 90 7) \<and> digits_ok [3, 9, 0, 4] \<and>
    bc_rec_mul (replicate 90 7) [3, 9, 0, 4] = Some (bc_simp_mul (replicate 90 7) [3, 9, 0, 4])"
  using bc_rec_mul_schoolbook [of "replicate 90 7" "[3, 9, 0, 4]"]
  by (simp add: digits_ok_def list_all_iff)

text \<open>\<open>bc_divide\<close> on well-formed numbers reports division by zero exactly for a zero divisor;
  otherwise it stays inside its buffers and the quotient is well-formed, has the requested scale
  and is the exact quotient truncated to it.\<close>

theorem bc_divide_spec:
  assumes "bc_wf n1" and "bc_wf n2"
  shows "if bc_val n2 = 0 then bc_divide n1 n2 scale = DivByZero
    else \<exists>q. bc_divide n1 n2 scale = Quot q \<and> bc_wf q \<and> n_scale q = scale \<and>
      bc_val q = trunc_to scale (bc_val n1 / bc_val n2)"
proof (cases "bc_mag n2 = 0")
  case True
  then show ?thesis using assms(2) by (simp add: bc_divide_def bc_wf_def)
next
  case False
  then show ?thesis using bc_divide_correct [OF bc_wf_ok [OF assms(1)] bc_wf_ok [OF assms(2)]]
    by (metis bc_val_eq_0_iff)
qed

theorem bc_divide_spec_witness:
  "bc_wf bc_one \<and> bc_wf (bc_int2num 7) \<and>
    (\<exists>q. bc_divide bc_one (bc_int2num 7) 5 = Quot q \<and> bc_wf q \<and> n_scale q = 5 \<and>
      bc_val q = trunc_to 5 (1 / 7))"
  using bc_divide_spec [of bc_one "bc_int2num 7" 5]
  by (simp add: bc_const_wf bc_int2num_val bc_const_val)

text \<open>\<open>bc_divmod\<close> satisfies the division equation: the quotient is an integer, the remainder is
  exact, smaller than the divisor and of the dividend's sign.\<close>

theorem bc_divmod_spec:
  assumes "bc_wf n1" and "bc_wf n2" and "bc_val n2 \<noteq> 0"
  shows "\<exists>q r. bc_divmod n1 n2 scale = Some (q, r) \<and> bc_wf q \<and> bc_wf r \<and> n_scale q = 0 \<and>
    n_scale r = max (n_scale n1) (n_scale n2 + scale) \<and>
    bc_val n1 = bc_val q * bc_val n2 + bc_val r \<and>
    \<bar>bc_val r\<bar> < \<bar>bc_val n2\<bar> \<and> 0 \<le> bc_val r * sgn (bc_val n1)"
proof -
  have "bc_mag n2 \<noteq> 0" using assms(3) by simp
  then obtain q r where r: "bc_divmod n1 n2 scale = Some (q, r)" "bc_wf q" "bc_wf r" "n_scale q = 0"
    "bc_val q = trunc_to 0 (bc_val n1 / bc_val n2)" "n_scale r = max (n_scale n1) (n_scale n2 + scale)"
    "bc_val r = bc_val n1 - bc_val q * bc_val n2"
    using bc_divmod_correct [OF assms(1,2)] by metis
  from r(5,7) have "bc_val r = bc_val n1 - of_int (trunc_int (bc_val n1 / bc_val n2)) * bc_val n2"
    by (simp add: trunc_to_def)
  from trunc_rem_bounds [OF assms(3) this] r show ?thesis by auto
qed

theorem bc_divmod_spec_witness:
  "bc_wf (bc_int2num (-7)) \<and> bc_wf bc_two \<and> bc_val bc_two \<noteq> 0 \<and>
    (\<exists>q r. bc_divmod (bc_int2num (-7)) bc_two 0 = Some (q, r) \<and>
      -7 = bc_val q * 2 + bc_val r \<and> \<bar>bc_val r\<bar> < 2 \<and> 0 \<le> bc_val r * sgn (-7))"
proof -
  have "bc_wf (bc_int2num (-7))" "bc_wf bc_two" "bc_val bc_two \<noteq> 0"
    by (simp_all add: bc_int2num_val bc_const_wf bc_const_val)
  with bc_divmod_spec [OF this, of 0] show ?thesis
    by (auto simp: bc_int2num_val bc_const_val)
qed



text \<open>Printing a number and reading the string back to the same scale gives the number truncated
  to that scale, and printing again gives the same string.\<close>

theorem num2str_str2num:
  assumes "bc_wf n"
  shows "\<exists>m. bc_str2num (bc_num2str_ex n s) s = (True, m) \<and> bc_wf m \<and>
    bc_val m = trunc_to s (bc_val n) \<and> bc_num2str_ex m s = bc_num2str_ex n s"
proof -
  have ok: "bc_ok n" "1 \<le> n_len n" using assms by (auto simp: bc_wf_def)
  have "CHR 0x00 \<notin> set (print_dec s (bc_val n))" by (rule print_dec_body(3) [OF refl])
  then have "parse_dec (c_str (bc_num2str_ex n s)) = Some (trunc_to s (bc_val n))"
    by (simp add: bc_num2str_ex_print [OF ok] parse_print)
  then obtain m where m: "bc_str2num (bc_num2str_ex n s) s = (True, m)" "bc_wf m"
    "bc_val m = trunc_to s (trunc_to s (bc_val n))" by (rule bc_str2num_correct)
  then have "bc_num2str_ex m s = bc_num2str_ex n s"
    by (simp add: bc_num2str_ex_print [OF ok] bc_num2str_ex_print [of m] bc_wf_def print_trunc)
  then show ?thesis using m by (auto simp: trunc_to_idem)
qed

theorem num2str_str2num_witness:
  "bc_wf (bc_int2num (-305)) \<and>
    (\<exists>m. bc_str2num (bc_num2str_ex (bc_int2num (-305)) 2) 2 = (True, m) \<and> bc_wf m)"
  using num2str_str2num [of "bc_int2num (-305)" 2] by (auto simp: bc_int2num_val)

text \<open>\<open>bc_num2long\<close> returns the integer part when it fits a 64-bit \<open>long\<close> and 0 otherwise; the
  accumulator never exceeds \<open>LONG_MAX\<close>.\<close>

theorem bc_num2long_spec:
  assumes "bc_wf n"
  shows "bc_num2long n =
    (if \<bar>trunc_int (bc_val n)\<bar> \<le> LONG_MAX then trunc_int (bc_val n) else 0)"
proof -
  have ok: "bc_ok n" using assms by (simp add: bc_wf_def)
  have m: "0 \<le> bc_mag n div 10 ^ n_scale n"
    using bc_mag_bounds(1) [OF ok] by (simp add: pos_imp_zdiv_nonneg_iff)
  have "trunc_int (bc_val n) = sign_int (n_sign n) * (bc_mag n div 10 ^ n_scale n)"
    using trunc_int_sgn [OF sign_int_cases bc_mag_bounds(1) [OF ok], of "10 ^ n_scale n" "n_sign n"]
    by (simp add: bc_val_def bc_int_def)
  then show ?thesis
    using bc_num2long_eq [OF ok] m sign_int_cases [of "n_sign n"] by (auto simp: Let_def abs_mult)
qed

theorem bc_num2long_spec_witness:
  "bc_wf (bc_int2num 9223372036854775807) \<and>
    bc_num2long (bc_int2num 9223372036854775807) = 9223372036854775807 \<and>
    bc_num2long (bc_int2num 9223372036854775808) = 0"
proof -
  have t: "trunc_int (bc_val (bc_int2num k)) = k" for k by (simp add: bc_int2num_val)
  show ?thesis
    using bc_num2long_spec [OF bc_int2num_val(2), of 9223372036854775807]
      bc_num2long_spec [OF bc_int2num_val(2), of 9223372036854775808]
    unfolding t by (simp add: bc_int2num_val)
qed

text \<open>\<open>bcscale\<close> returns the old default scale and stores the new one only when it is between 0
  and \<open>INT_MAX\<close>; otherwise it throws and leaves the default as it was.\<close>

theorem bcscale_spec:
  assumes "int precision \<le> INT_MAX"
  shows "int (fst (bcscale precision new_scale)) \<le> INT_MAX \<and>
    (case new_scale of
       None \<Rightarrow> bcscale precision new_scale = (precision, Inr (int precision))
     | Some sc \<Rightarrow>
         if 0 \<le> sc \<and> sc \<le> INT_MAX
         then bcscale precision new_scale = (nat sc, Inr (int precision))
         else bcscale precision new_scale =
                (precision, Inl (ValueError 1 ''must be between 0 and 2147483647'')))"
  using assms by (auto simp: bcscale_def OnUpdateScale_def split: option.splits)

theorem bcscale_spec_witness:
  "int 4 \<le> INT_MAX \<and> bcscale 4 (Some 10) = (10, Inr 4)"
  using bcscale_spec [of 4 "Some 10"] by simp

end
