(* ===== verification/Zend_Sort.thy ===== *)
theory Zend_Sort
  imports Prelude "HOL-Library.Multiset" "HOL-Library.Monad_Syntax"
begin

text \<open>
  \<open>Zend/zend_sort.c\<close>: the hybrid sort behind every PHP array sort. The array is a list, a pointer
  into it an index, and a sub-array handed to a recursive call a sublist. Every comparison and
  every swap checks its indices: \<open>None\<close> is an access outside the array.
\<close>

section \<open>Accesses\<close>

definition gt_at :: "('a \<Rightarrow> 'a \<Rightarrow> int) \<Rightarrow> 'a list \<Rightarrow> nat \<Rightarrow> nat \<Rightarrow> bool option" where
  "gt_at cmp xs i j =
     (if i < length xs \<and> j < length xs then Some (cmp (xs ! i) (xs ! j) > 0) else None)"

definition swp :: "'a list \<Rightarrow> nat \<Rightarrow> nat \<Rightarrow> 'a list option" where
  "swp xs i j = (if i < length xs \<and> j < length xs then Some (xs[i := xs ! j, j := xs ! i]) else None)"

section \<open>Sorting networks\<close>

definition zend_sort_2 :: "('a \<Rightarrow> 'a \<Rightarrow> int) \<Rightarrow> 'a list \<Rightarrow> nat \<Rightarrow> nat \<Rightarrow> 'a list option" where
  "zend_sort_2 cmp xs a b = do {
     g \<leftarrow> gt_at cmp xs a b;
     if g then swp xs a b else Some xs }"

definition zend_sort_3 :: "('a \<Rightarrow> 'a \<Rightarrow> int) \<Rightarrow> 'a list \<Rightarrow> nat \<Rightarrow> nat \<Rightarrow> nat \<Rightarrow> 'a list option" where
  "zend_sort_3 cmp xs a b c = do {
     g \<leftarrow> gt_at cmp xs a b;
     if \<not> g then do {
       g \<leftarrow> gt_at cmp xs b c;
       if \<not> g then Some xs
       else do {
         xs \<leftarrow> swp xs b c;
         g \<leftarrow> gt_at cmp xs a b;
         if g then swp xs a b else Some xs } }
     else do {
       g \<leftarrow> gt_at cmp xs c b;
       if \<not> g then swp xs a c
       else do {
         xs \<leftarrow> swp xs a b;
         g \<leftarrow> gt_at cmp xs b c;
         if g then swp xs b c else Some xs } } }"

definition zend_sort_4 ::
  "('a \<Rightarrow> 'a \<Rightarrow> int) \<Rightarrow> 'a list \<Rightarrow> nat \<Rightarrow> nat \<Rightarrow> nat \<Rightarrow> nat \<Rightarrow> 'a list option" where
  "zend_sort_4 cmp xs a b c d = do {
     xs \<leftarrow> zend_sort_3 cmp xs a b c;
     g \<leftarrow> gt_at cmp xs c d;
     if g then do {
       xs \<leftarrow> swp xs c d;
       g \<leftarrow> gt_at cmp xs b c;
       if g then do {
         xs \<leftarrow> swp xs b c;
         g \<leftarrow> gt_at cmp xs a b;
         if g then swp xs a b else Some xs }
       else Some xs }
     else Some xs }"

definition zend_sort_5 ::
  "('a \<Rightarrow> 'a \<Rightarrow> int) \<Rightarrow> 'a list \<Rightarrow> nat \<Rightarrow> nat \<Rightarrow> nat \<Rightarrow> nat \<Rightarrow> nat \<Rightarrow> 'a list option" where
  "zend_sort_5 cmp xs a b c d e = do {
     xs \<leftarrow> zend_sort_4 cmp xs a b c d;
     g \<leftarrow> gt_at cmp xs d e;
     if g then do {
       xs \<leftarrow> swp xs d e;
       g \<leftarrow> gt_at cmp xs c d;
       if g then do {
         xs \<leftarrow> swp xs c d;
         g \<leftarrow> gt_at cmp xs b c;
         if g then do {
           xs \<leftarrow> swp xs b c;
           g \<leftarrow> gt_at cmp xs a b;
           if g then swp xs a b else Some xs }
         else Some xs }
       else Some xs }
     else Some xs }"

section \<open>Insertion sort\<close>

text \<open>\<open>while (j != start) { j -= siz; if (!(cmp(j, i) > 0)) { j += siz; break; } }\<close>\<close>

primrec ins_back :: "('a \<Rightarrow> 'a \<Rightarrow> int) \<Rightarrow> 'a list \<Rightarrow> nat \<Rightarrow> nat \<Rightarrow> nat option" where
  "ins_back cmp xs i 0 = Some 0"
| "ins_back cmp xs i (Suc j) = do {
     g \<leftarrow> gt_at cmp xs j i;
     if \<not> g then Some (Suc j) else ins_back cmp xs i j }"

text \<open>The \<open>do ... while (1)\<close> loop of the second phase, which steps back by two; \<open>j\<close> less than two
  would leave the array.\<close>

fun ins_pair :: "('a \<Rightarrow> 'a \<Rightarrow> int) \<Rightarrow> 'a list \<Rightarrow> nat \<Rightarrow> nat \<Rightarrow> nat option" where
  "ins_pair cmp xs i (Suc (Suc j)) = do {
     g \<leftarrow> gt_at cmp xs j i;
     if \<not> g then do {
       g \<leftarrow> gt_at cmp xs (j + 1) i;
       Some (if \<not> g then j + 2 else j + 1) }
     else if j = 0 then Some j
     else if j = 1 then do {
       g \<leftarrow> gt_at cmp xs i 0;
       Some (if g then 1 else 0) }
     else ins_pair cmp xs i j }"
| "ins_pair cmp xs i j = None"

text \<open>\<open>for (k = i; k > j; k -= siz) swp(k, k - siz);\<close>\<close>

primrec shift_down :: "'a list \<Rightarrow> nat \<Rightarrow> nat \<Rightarrow> 'a list option" where
  "shift_down xs j 0 = Some xs"
| "shift_down xs j (Suc k) =
     (if Suc k > j then do { xs \<leftarrow> swp xs (Suc k) k; shift_down xs j k } else Some xs)"

definition ins_step :: "('a \<Rightarrow> 'a \<Rightarrow> int) \<Rightarrow>
    (('a \<Rightarrow> 'a \<Rightarrow> int) \<Rightarrow> 'a list \<Rightarrow> nat \<Rightarrow> nat \<Rightarrow> nat option) \<Rightarrow> 'a list \<Rightarrow> nat \<Rightarrow> 'a list option" where
  "ins_step cmp search xs i = do {
     g \<leftarrow> gt_at cmp xs (i - 1) i;
     if \<not> g then Some xs
     else do { j \<leftarrow> search cmp xs i (i - 1); shift_down xs j i } }"

text \<open>\<open>for (i = from; i < to; i += siz)\<close>; the argument counts the rounds left.\<close>

primrec ins_loop :: "('a \<Rightarrow> 'a \<Rightarrow> int) \<Rightarrow>
    (('a \<Rightarrow> 'a \<Rightarrow> int) \<Rightarrow> 'a list \<Rightarrow> nat \<Rightarrow> nat \<Rightarrow> nat option) \<Rightarrow> nat \<Rightarrow> nat \<Rightarrow> 'a list \<Rightarrow> 'a list option" where
  "ins_loop cmp search 0 i xs = Some xs"
| "ins_loop cmp search (Suc n) i xs = do {
     xs \<leftarrow> ins_step cmp search xs i;
     ins_loop cmp search n (Suc i) xs }"

definition zend_insert_sort :: "('a \<Rightarrow> 'a \<Rightarrow> int) \<Rightarrow> 'a list \<Rightarrow> 'a list option" where
  "zend_insert_sort cmp xs =
     (let nmemb = length xs
      in if nmemb \<le> 1 then Some xs
         else if nmemb = 2 then zend_sort_2 cmp xs 0 1
         else if nmemb = 3 then zend_sort_3 cmp xs 0 1 2
         else if nmemb = 4 then zend_sort_4 cmp xs 0 1 2 3
         else if nmemb = 5 then zend_sort_5 cmp xs 0 1 2 3 4
         else do {
           xs \<leftarrow> ins_loop cmp ins_back 5 1 xs;
           ins_loop cmp ins_pair (nmemb - 6) 6 xs })"

section \<open>The hybrid sort\<close>

text \<open>\<open>while (cmp(pivot, i) > 0) { i += siz; if (i == j) goto done; }\<close>: the index, and whether the
  loop left for \<open>done\<close>.\<close>

function scan_up :: "('a \<Rightarrow> 'a \<Rightarrow> int) \<Rightarrow> 'a list \<Rightarrow> nat \<Rightarrow> nat \<Rightarrow> (nat \<times> bool) option" where
  "scan_up cmp xs i j = do {
     g \<leftarrow> gt_at cmp xs 1 i;
     if \<not> g then Some (i, False)
     else if Suc i = j then Some (Suc i, True)
     else scan_up cmp xs (Suc i) j }"
  by pat_completeness auto
termination
  by (relation "measure (\<lambda>(cmp, xs, i, j). length xs - i)") (auto simp: gt_at_def split: if_splits)

text \<open>\<open>while (cmp(j, pivot) > 0) { j -= siz; if (j == i) goto done; }\<close>\<close>

primrec scan_down :: "('a \<Rightarrow> 'a \<Rightarrow> int) \<Rightarrow> 'a list \<Rightarrow> nat \<Rightarrow> nat \<Rightarrow> (nat \<times> bool) option" where
  "scan_down cmp xs i 0 = None"
| "scan_down cmp xs i (Suc j) = do {
     g \<leftarrow> gt_at cmp xs (Suc j) 1;
     if \<not> g then Some (Suc j, False)
     else if j = i then Some (j, True)
     else scan_down cmp xs i j }"

declare scan_up.simps [simp del]

lemma scan_up_ge: "scan_up cmp xs i j = Some (i', stop) \<Longrightarrow> i \<le> i'"
proof (induction cmp xs i j rule: scan_up.induct)
  case (1 cmp xs i j)
  show ?case
  proof (cases "gt_at cmp xs 1 i = Some True \<and> Suc i \<noteq> j")
    case True
    then have "scan_up cmp xs (Suc i) j = Some (i', stop)"
      using "1.prems" by (simp add: scan_up.simps [of cmp xs i])
    with "1.IH" [of True] True show ?thesis by simp
  next
    case False
    with "1.prems" show ?thesis
      by (auto simp: scan_up.simps [of cmp xs i] split: bind_splits if_splits)
  qed
qed


text \<open>The partition loop; it returns the array and \<open>i\<close> as they are at \<open>done\<close>.\<close>

function part_loop :: "('a \<Rightarrow> 'a \<Rightarrow> int) \<Rightarrow> 'a list \<Rightarrow> nat \<Rightarrow> nat \<Rightarrow> ('a list \<times> nat) option" where
  "part_loop cmp xs i j =
     (case scan_up cmp xs i j of
        None \<Rightarrow> None
      | Some (i', stop) \<Rightarrow>
          if stop then Some (xs, i')
          else if j = 0 then None
          else if j - 1 = i' then Some (xs, i')
          else
            (case scan_down cmp xs i' (j - 1) of
               None \<Rightarrow> None
             | Some (j', stop) \<Rightarrow>
                 if stop then Some (xs, i')
                 else
                   (case swp xs i' j' of
                      None \<Rightarrow> None
                    | Some xs' \<Rightarrow>
                        if Suc i' = j' then Some (xs', Suc i')
                        else part_loop cmp xs' (Suc i') j')))"
  by pat_completeness auto
termination
  by (relation "measure (\<lambda>(cmp, xs, i, j). length xs - i)")
    (auto simp: swp_def dest!: scan_up_ge split: if_splits)

declare part_loop.simps [simp del]

text \<open>Choosing the pivot, partitioning, and putting the pivot between the two parts.\<close>

definition zend_partition :: "('a \<Rightarrow> 'a \<Rightarrow> int) \<Rightarrow> 'a list \<Rightarrow> ('a list \<times> nat) option" where
  "zend_partition cmp xs = do {
     let nmemb = length xs;
     let offset = nmemb div 2;
     xs \<leftarrow> (if nmemb div 1024 \<noteq> 0
           then let delta = offset div 2
                in zend_sort_5 cmp xs 0 delta offset (offset + delta) (nmemb - 1)
           else zend_sort_3 cmp xs 0 offset (nmemb - 1));
     xs \<leftarrow> swp xs 1 offset;
     (xs, i) \<leftarrow> part_loop cmp xs 2 (nmemb - 1);
     xs \<leftarrow> swp xs 1 (i - 1);
     Some (xs, i) }"

section \<open>Every run is safe and permutes\<close>

text \<open>
  For an arbitrary comparison function, one that contradicts itself included, no access leaves the
  array and the result is a rearrangement of it.
\<close>

definition perm_res :: "'a list \<Rightarrow> 'a list option \<Rightarrow> bool" where
  "perm_res xs r = (\<exists>ys. r = Some ys \<and> mset ys = mset xs)"

lemma perm_Some [intro!]: "perm_res xs (Some xs)"
  by (simp add: perm_res_def)

lemma perm_swp [intro]: "i < length xs \<Longrightarrow> j < length xs \<Longrightarrow> perm_res xs (swp xs i j)"
  using mset_swap [of j xs i] by (simp add: perm_res_def swp_def)

lemma perm_gt:
  assumes "i < length xs" and "j < length xs" and "\<And>g. perm_res ys (f g)"
  shows "perm_res ys (gt_at cmp xs i j \<bind> f)"
  using assms by (simp add: gt_at_def)

lemma perm_bind:
  assumes "perm_res xs r" and "\<And>ys. length ys = length xs \<Longrightarrow> perm_res ys (f ys)"
  shows "perm_res xs (r \<bind> f)"
proof -
  obtain ys where ys: "r = Some ys" "mset ys = mset xs" using assms(1) by (auto simp: perm_res_def)
  then have "perm_res ys (f ys)" using assms(2) by (metis size_mset)
  then show ?thesis using ys by (simp add: perm_res_def)
qed

lemmas perm_rules = perm_gt perm_bind perm_swp perm_Some

lemma perm_if: "(b \<Longrightarrow> perm_res xs r) \<Longrightarrow> (\<not> b \<Longrightarrow> perm_res xs t) \<Longrightarrow> perm_res xs (if b then r else t)"
  by simp

lemma zend_sort_2_perm: "a < length xs \<Longrightarrow> b < length xs \<Longrightarrow> perm_res xs (zend_sort_2 cmp xs a b)"
  unfolding zend_sort_2_def by (intro perm_rules perm_if) auto

lemma zend_sort_3_perm:
  "a < length xs \<Longrightarrow> b < length xs \<Longrightarrow> c < length xs \<Longrightarrow> perm_res xs (zend_sort_3 cmp xs a b c)"
  unfolding zend_sort_3_def by (intro perm_rules perm_if) auto

lemma zend_sort_4_perm:
  "a < length xs \<Longrightarrow> b < length xs \<Longrightarrow> c < length xs \<Longrightarrow> d < length xs \<Longrightarrow>
    perm_res xs (zend_sort_4 cmp xs a b c d)"
  unfolding zend_sort_4_def by (intro perm_rules perm_if zend_sort_3_perm) auto

lemma zend_sort_5_perm:
  "a < length xs \<Longrightarrow> b < length xs \<Longrightarrow> c < length xs \<Longrightarrow> d < length xs \<Longrightarrow> e < length xs \<Longrightarrow>
    perm_res xs (zend_sort_5 cmp xs a b c d e)"
  unfolding zend_sort_5_def by (intro perm_rules perm_if zend_sort_4_perm) auto

lemma ins_back_safe: "i < length xs \<Longrightarrow> j \<le> i \<Longrightarrow> \<exists>k\<le>j. ins_back cmp xs i j = Some k"
proof (induction j)
  case (Suc j)
  then have "gt_at cmp xs j i = Some (cmp (xs ! j) (xs ! i) > 0)" by (simp add: gt_at_def)
  with Suc show ?case by (auto simp: le_SucI)
qed simp

lemma ins_pair_safe: "i < length xs \<Longrightarrow> 2 \<le> j \<Longrightarrow> j < i \<Longrightarrow> \<exists>k\<le>j. ins_pair cmp xs i j = Some k"
proof (induction cmp xs i j rule: ins_pair.induct)
  case (1 cmp xs i j)
  then have g: "gt_at cmp xs k i = Some (cmp (xs ! k) (xs ! i) > 0)" if "k \<le> j + 1" for k
    using that by (simp add: gt_at_def)
  have "0 < length xs" using 1 by linarith
  then have g0: "gt_at cmp xs i 0 = Some (cmp (xs ! i) (xs ! 0) > 0)"
    using 1 by (simp add: gt_at_def)
  show ?case
  proof (cases "cmp (xs ! j) (xs ! i) > 0 \<and> 2 \<le> j")
    case True
    then obtain k where "k \<le> j" "ins_pair cmp xs i j = Some k"
      using "1.IH" [of True] 1 g by auto
    with True show ?thesis using g [of j] by auto
  qed (use g [of j] g [of "j + 1"] g0 in \<open>auto simp: not_le less_2_cases_iff\<close>)
qed simp_all

lemma shift_down_eq:
  "j \<le> i \<Longrightarrow> i < length xs \<Longrightarrow>
    shift_down xs j i = Some (take j xs @ xs ! i # drop j (take i xs) @ drop (Suc i) xs)"
proof (induction i arbitrary: xs)
  case 0
  then show ?case by (cases xs) auto
next
  case (Suc i)
  show ?case
  proof (cases "j = Suc i")
    case True
    then show ?thesis using Suc.prems by (simp add: id_take_nth_drop [of "Suc i" xs, symmetric])
  next
    case False
    let ?ys = "xs[Suc i := xs ! i, i := xs ! Suc i]"
    have sw: "swp xs (Suc i) i = Some ?ys" using Suc.prems by (simp add: swp_def)
    have d: "drop (Suc i) ?ys = xs ! i # drop (Suc (Suc i)) xs"
      using Suc.prems by (simp add: drop_update_swap Cons_nth_drop_Suc [symmetric])
    have "drop j (take (Suc i) xs) = drop j (take i xs) @ [xs ! i]"
      using Suc.prems False by (simp add: take_Suc_conv_app_nth)
    then show ?thesis
      using Suc.IH [of ?ys] Suc.prems False sw d by simp
  qed
qed

lemma shift_down_perm: "j \<le> i \<Longrightarrow> i < length xs \<Longrightarrow> perm_res xs (shift_down xs j i)"
proof -
  assume a: "j \<le> i" "i < length xs"
  have "xs = take j xs @ drop j (take i xs) @ xs ! i # drop (Suc i) xs"
    using a id_take_nth_drop [OF a(2)] by (metis append.assoc append_take_drop_id min_absorb1 take_take)
  then have "mset xs = mset (take j xs @ drop j (take i xs) @ xs ! i # drop (Suc i) xs)" by simp
  then show ?thesis using shift_down_eq [OF a] by (simp add: perm_res_def)
qed

lemma ins_step_perm:
  assumes "0 < i" and "i < length xs" and "\<exists>k\<le>i. search cmp xs i (i - 1) = Some k"
  shows "perm_res xs (ins_step cmp search xs i)"
  using assms unfolding ins_step_def by (auto intro!: perm_gt perm_if shift_down_perm)

lemma ins_loop_perm:
  assumes "\<And>ys k. length ys = length xs \<Longrightarrow> i \<le> k \<Longrightarrow> k < length xs \<Longrightarrow>
      \<exists>j\<le>k. search cmp ys k (k - 1) = Some j"
    and "0 < i" and "i + n \<le> length xs"
  shows "perm_res xs (ins_loop cmp search n i xs)"
  using assms
proof (induction n arbitrary: i xs)
  case (Suc n)
  have "perm_res xs (ins_step cmp search xs i)" using Suc.prems by (intro ins_step_perm) auto
  then show ?case unfolding ins_loop.simps
    by (rule perm_bind) (rule Suc.IH, use Suc.prems in auto)
qed auto

lemma zend_insert_sort_perm: "perm_res xs (zend_insert_sort cmp xs)"
proof -
  have "perm_res xs (ins_loop cmp ins_back 5 1 xs \<bind> ins_loop cmp ins_pair (length xs - 6) 6)"
    if "\<not> length xs \<le> 5"
  proof (rule perm_bind)
    show "perm_res xs (ins_loop cmp ins_back 5 1 xs)"
    proof (rule ins_loop_perm)
      fix ys :: "'a list" and k assume "length ys = length xs" "1 \<le> k" "k < length xs"
      then show "\<exists>j\<le>k. ins_back cmp ys k (k - 1) = Some j"
        using ins_back_safe [of k ys "k - 1" cmp] by (auto intro: le_trans)
    qed (use that in auto)
    show "perm_res ys (ins_loop cmp ins_pair (length xs - 6) 6 ys)" if "length ys = length xs" for ys
    proof (rule ins_loop_perm)
      fix zs :: "'a list" and k assume "length zs = length ys" "6 \<le> k" "k < length ys"
      then have "k < length zs" "2 \<le> k - 1" "k - 1 < k" by auto
      from ins_pair_safe [OF this, of cmp] show "\<exists>j\<le>k. ins_pair cmp zs k (k - 1) = Some j"
        by (meson diff_le_self le_trans)
    qed (use that \<open>\<not> length xs \<le> 5\<close> in auto)
  qed
  then show ?thesis
    unfolding zend_insert_sort_def Let_def
    by (auto intro!: perm_if zend_sort_2_perm zend_sort_3_perm zend_sort_4_perm zend_sort_5_perm)
qed

text \<open>The scans stop inside the open interval, and so does the partition.\<close>

lemma scan_up_safe:
  assumes "i < j" and "j < length xs"
  obtains i' stop where "scan_up cmp xs i j = Some (i', stop)" and "i \<le> i'" and "i' \<le> j"
    and "stop \<longleftrightarrow> i' = j" and "\<forall>k. i \<le> k \<and> k < i' \<longrightarrow> cmp (xs ! 1) (xs ! k) > 0"
    and "\<not> stop \<Longrightarrow> \<not> cmp (xs ! 1) (xs ! i') > 0"
  using assms
proof (induction "j - i" arbitrary: i thesis)
  case (Suc d)
  have g: "gt_at cmp xs 1 i = Some (cmp (xs ! 1) (xs ! i) > 0)"
    using Suc.prems by (simp add: gt_at_def)
  note sc = scan_up.simps [of cmp xs i j]
  show ?case
  proof (cases "cmp (xs ! 1) (xs ! i) > 0")
    case False
    then have "scan_up cmp xs i j = Some (i, False)" using g by (simp add: sc)
    then show ?thesis using Suc.prems False by (intro Suc.prems(1)) auto
  next
    case gt: True
    show ?thesis
    proof (cases "Suc i = j")
      case True
      then have "scan_up cmp xs i j = Some (j, True)" using g gt by (simp add: sc)
      moreover have "k = i" if "i \<le> k" "k < j" for k using that True by simp
      ultimately show ?thesis using gt Suc.prems(2) by (intro Suc.prems(1) [of j True]) auto
    next
      case False
      then have "d = j - Suc i" "Suc i < j" using Suc.hyps(2) Suc.prems by auto
      then obtain i' stop where r: "scan_up cmp xs (Suc i) j = Some (i', stop)" "Suc i \<le> i'" "i' \<le> j"
        "stop \<longleftrightarrow> i' = j" "\<forall>k. Suc i \<le> k \<and> k < i' \<longrightarrow> cmp (xs ! 1) (xs ! k) > 0"
        "\<not> stop \<Longrightarrow> \<not> cmp (xs ! 1) (xs ! i') > 0"
        using Suc.hyps(1) [of "Suc i"] Suc.prems(3) by metis
      have "scan_up cmp xs i j = Some (i', stop)" using g gt False r(1) by (simp add: sc)
      moreover have "\<forall>k. i \<le> k \<and> k < i' \<longrightarrow> cmp (xs ! 1) (xs ! k) > 0"
        using r(5) gt by (metis le_neq_implies_less Suc_leI)
      ultimately show ?thesis using r(2-4,6) by (intro Suc.prems(1) [of i' stop]) auto
    qed
  qed
qed simp

lemma scan_down_safe:
  assumes "i < j" and "j < length xs"
  obtains j' stop where "scan_down cmp xs i j = Some (j', stop)" and "i \<le> j'" and "j' \<le> j"
    and "stop \<longleftrightarrow> j' = i" and "\<forall>k. j' < k \<and> k \<le> j \<longrightarrow> cmp (xs ! k) (xs ! 1) > 0"
    and "\<not> stop \<Longrightarrow> \<not> cmp (xs ! j') (xs ! 1) > 0"
  using assms
proof (induction j arbitrary: thesis)
  case (Suc j)
  have g: "gt_at cmp xs (Suc j) 1 = Some (cmp (xs ! Suc j) (xs ! 1) > 0)"
    using Suc.prems by (simp add: gt_at_def)
  show ?case
  proof (cases "cmp (xs ! Suc j) (xs ! 1) > 0")
    case False
    then show ?thesis using g Suc.prems by (intro Suc.prems(1) [of "Suc j" False]) auto
  next
    case gt: True
    show ?thesis
    proof (cases "j = i")
      case True
      then show ?thesis
        using g gt by (intro Suc.prems(1) [of j True]) (auto simp: le_Suc_eq)
    next
      case False
      then obtain j' stop where r: "scan_down cmp xs i j = Some (j', stop)" "i \<le> j'" "j' \<le> j"
        "stop \<longleftrightarrow> j' = i" "\<forall>k. j' < k \<and> k \<le> j \<longrightarrow> cmp (xs ! k) (xs ! 1) > 0"
        "\<not> stop \<Longrightarrow> \<not> cmp (xs ! j') (xs ! 1) > 0"
        using Suc.IH Suc.prems(2,3) by (metis Suc_lessD le_neq_implies_less less_Suc_eq_le)
      then show ?thesis
        using g gt False by (intro Suc.prems(1) [of j' stop]) (auto simp: le_Suc_eq)
    qed
  qed
qed simp

text \<open>\<open>part_inv\<close>: before the next round, everything below \<open>i\<close> is not above the pivot and everything
  from \<open>j\<close> on is not below it.\<close>

definition part_inv :: "('a \<Rightarrow> 'a \<Rightarrow> int) \<Rightarrow> 'a list \<Rightarrow> nat \<Rightarrow> nat \<Rightarrow> bool" where
  "part_inv cmp xs i j = ((\<forall>k. 2 \<le> k \<and> k < i \<longrightarrow> \<not> cmp (xs ! k) (xs ! 1) > 0) \<and>
     (\<forall>k. j \<le> k \<and> k < length xs \<longrightarrow> \<not> cmp (xs ! 1) (xs ! k) > 0))"

lemma part_loop_props:
  assumes "2 \<le> i" and "i < j" and "j < length xs"
  obtains ys r where "part_loop cmp xs i j = Some (ys, r)" and "mset ys = mset xs"
    and "i \<le> r" and "r \<le> j" and "ys ! 0 = xs ! 0" and "ys ! 1 = xs ! 1"
    and "(\<And>x y. cmp x y > 0 \<Longrightarrow> \<not> cmp y x > 0) \<Longrightarrow> part_inv cmp xs i j \<Longrightarrow> part_inv cmp ys r r"
  using assms
proof (induction "length xs - i" arbitrary: xs i j thesis rule: less_induct)
  case less
  obtain i' stop where u: "scan_up cmp xs i j = Some (i', stop)" "i \<le> i'" "i' \<le> j" "stop \<longleftrightarrow> i' = j"
    "\<forall>k. i \<le> k \<and> k < i' \<longrightarrow> cmp (xs ! 1) (xs ! k) > 0" "\<not> stop \<Longrightarrow> \<not> cmp (xs ! 1) (xs ! i') > 0"
    using scan_up_safe less.prems(3,4) by metis
  note pl = part_loop.simps [of cmp xs i j]
  have up: "part_inv cmp xs i' j" if "\<And>x y. cmp x y > 0 \<Longrightarrow> \<not> cmp y x > 0" "part_inv cmp xs i j"
    using that u(5) unfolding part_inv_def by (metis not_le_imp_less)
  show ?case
  proof (cases stop)
    case True
    then have "part_loop cmp xs i j = Some (xs, j)" using u(1,4) by (simp add: pl)
    then show ?thesis using less.prems up u True by (intro less.prems(1) [of xs j]) auto
  next
    case False
    then have ij: "i' < j" using u(3,4) by auto
    have hi: "part_inv cmp xs i' k" if "part_inv cmp xs i' (Suc k)" "\<not> cmp (xs ! 1) (xs ! k) > 0" for k
      using that unfolding part_inv_def by (metis Suc_leI le_neq_implies_less)
    show ?thesis
    proof (cases "j - 1 = i'")
      case True
      then have "part_loop cmp xs i j = Some (xs, i')" using u(1) False ij by (simp add: pl)
      moreover have "j = Suc i'" using True ij by simp
      ultimately show ?thesis
        using less.prems(2-4) u(2,6) ij False up hi [of i'] by (intro less.prems(1) [of xs i']) auto
    next
      case ne: False
      then have "i' < j - 1" "j - 1 < length xs" using ij less.prems(4) by auto
      then obtain j' stop' where d: "scan_down cmp xs i' (j - 1) = Some (j', stop')" "i' \<le> j'"
        "j' \<le> j - 1" "stop' \<longleftrightarrow> j' = i'" "\<forall>k. j' < k \<and> k \<le> j - 1 \<longrightarrow> cmp (xs ! k) (xs ! 1) > 0"
        "\<not> stop' \<Longrightarrow> \<not> cmp (xs ! j') (xs ! 1) > 0"
        using scan_down_safe by metis
      have dn: "part_inv cmp xs i' (Suc j')"
        if an: "\<And>x y. cmp x y > 0 \<Longrightarrow> \<not> cmp y x > 0" and pi: "part_inv cmp xs i j"
      proof -
        have "\<not> cmp (xs ! 1) (xs ! k) > 0" if k: "Suc j' \<le> k" "k < length xs" for k
        proof (cases "j \<le> k")
          case True
          then show ?thesis using up [OF an pi] k(2) by (simp add: part_inv_def)
        next
          case False
          then have "j' < k \<and> k \<le> j - 1" using k(1) by auto
          then show ?thesis using d(5) an by blast
        qed
        then show ?thesis using up [OF an pi] by (simp add: part_inv_def)
      qed
      show ?thesis
      proof (cases stop')
        case True
        then have "part_loop cmp xs i j = Some (xs, i')" using u(1) False ij ne d(1) by (simp add: pl)
        then show ?thesis
          using less.prems(2-4) u(2,6) ij False dn hi [of i'] d(4) True
          by (intro less.prems(1) [of xs i']) auto
      next
        case ns: False
        then have ij': "i' < j'" "j' < j" using d(2-4) ij by auto
        let ?ys = "xs[i' := xs ! j', j' := xs ! i']"
        have sw: "swp xs i' j' = Some ?ys" using ij' less.prems by (simp add: swp_def)
        have ms: "mset ?ys = mset xs" using ij' less.prems by (intro mset_swap) auto
        have y: "?ys ! 0 = xs ! 0" "?ys ! 1 = xs ! 1" "length ?ys = length xs"
          using ij' u(2) less.prems(2) by auto
        have inv: "part_inv cmp ?ys (Suc i') j'"
          if "\<And>x y. cmp x y > 0 \<Longrightarrow> \<not> cmp y x > 0" "part_inv cmp xs i j"
          using dn [OF that] d(6) u(6) False ns ij' less.prems(4) y(2)
          unfolding part_inv_def by (auto simp: nth_list_update less_Suc_eq)
        show ?thesis
        proof (cases "Suc i' = j'")
          case True
          then have "part_loop cmp xs i j = Some (?ys, Suc i')"
            using u(1) False ij ne d(1) ns sw by (simp add: pl)
          then show ?thesis
            using ms y inv u(2) ij' True by (intro less.prems(1) [of ?ys "Suc i'"]) auto
        next
          case nd: False
          then have "length ?ys - Suc i' < length xs - i" "2 \<le> Suc i'" "Suc i' < j'" "j' < length ?ys"
            using ij' u(2) less.prems by auto
          from less.hyps [OF this(1) _ this(2-4)] obtain zs r where
            r: "part_loop cmp ?ys (Suc i') j' = Some (zs, r)" "mset zs = mset ?ys" "Suc i' \<le> r" "r \<le> j'"
              "zs ! 0 = ?ys ! 0" "zs ! 1 = ?ys ! 1"
              "(\<And>x y. cmp x y > 0 \<Longrightarrow> \<not> cmp y x > 0) \<Longrightarrow> part_inv cmp ?ys (Suc i') j' \<Longrightarrow> part_inv cmp zs r r"
            by metis
          have "part_loop cmp xs i j = Some (zs, r)"
            using u(1) False ij ne d(1) ns sw nd r(1) by (simp add: pl)
          then show ?thesis
            using r ms y inv u(2) ij' by (intro less.prems(1) [of zs r]) auto
        qed
      qed
    qed
  qed
qed

lemma swp_eq: "i < length xs \<Longrightarrow> j < length xs \<Longrightarrow> swp xs i j = Some (xs[i := xs ! j, j := xs ! i])"
  by (simp add: swp_def)

lemma zend_partition_safe:
  assumes "16 < length xs"
  obtains ys i where "zend_partition cmp xs = Some (ys, i)" and "mset ys = mset xs"
    and "2 \<le> i" and "i < length xs"
proof -
  let ?n = "length xs" let ?o = "?n div 2" let ?d = "?o div 2"
  have b: "?o < ?n" "?d < ?n" "?o + ?d < ?n" "?n - 1 < ?n" "0 < ?n" "1 < ?n" using assms by auto
  have "perm_res xs (if ?n div 1024 \<noteq> 0
      then zend_sort_5 cmp xs 0 ?d ?o (?o + ?d) (?n - 1) else zend_sort_3 cmp xs 0 ?o (?n - 1))"
    using b by (intro perm_if zend_sort_5_perm zend_sort_3_perm)
  then obtain ys where ys: "(if ?n div 1024 \<noteq> 0
      then zend_sort_5 cmp xs 0 ?d ?o (?o + ?d) (?n - 1) else zend_sort_3 cmp xs 0 ?o (?n - 1)) = Some ys"
    "mset ys = mset xs" unfolding perm_res_def by blast
  have ly: "length ys = ?n" using ys(2) by (metis size_mset)
  let ?zs = "ys[1 := ys ! ?o, ?o := ys ! 1]"
  have z: "swp ys 1 ?o = Some ?zs" "mset ?zs = mset ys" "length ?zs = ?n"
    using b ly mset_swap [of ?o ys 1] by (simp_all add: swp_def)
  have "2 < ?n - 1" "?n - 1 < length ?zs" using assms z by auto
  then obtain ws r where r: "part_loop cmp ?zs 2 (?n - 1) = Some (ws, r)" "mset ws = mset ?zs"
    "2 \<le> r" "r \<le> ?n - 1" using part_loop_props [of 2 "?n - 1" ?zs cmp] by (metis order_refl)
  have lw: "length ws = ?n" using r(2) z by (metis size_mset)
  let ?vs = "ws[1 := ws ! (r - 1), r - 1 := ws ! 1]"
  have v: "swp ws 1 (r - 1) = Some ?vs" "mset ?vs = mset ws"
    using b lw r mset_swap [of "r - 1" ws 1] by (auto simp: swp_def)
  have "zend_partition cmp xs = Some (?vs, r)"
    unfolding zend_partition_def Let_def using ys(1) z(1) r(1) v(1) by (simp split: if_splits)
  moreover have "r < length xs" using r b by linarith
  ultimately show thesis using that v(2) r(2,3) z(2) ys(2) by simp
qed

text \<open>The recursion; the shorter part is sorted first, the rest is the next round of the outer
  loop.\<close>

function zend_sort :: "('a \<Rightarrow> 'a \<Rightarrow> int) \<Rightarrow> 'a list \<Rightarrow> 'a list option" where
  "zend_sort cmp xs =
     (if length xs \<le> 16 then zend_insert_sort cmp xs
      else
        (case zend_partition cmp xs of
           None \<Rightarrow> None
         | Some (ys, i) \<Rightarrow>
             if i - 1 < length xs - i then
               (case zend_sort cmp (take (i - 1) ys) of
                  None \<Rightarrow> None
                | Some ls \<Rightarrow>
                    (case zend_sort cmp (drop i ys) of
                       None \<Rightarrow> None
                     | Some rs \<Rightarrow> Some (ls @ ys ! (i - 1) # rs)))
             else
               (case zend_sort cmp (drop i ys) of
                  None \<Rightarrow> None
                | Some rs \<Rightarrow>
                    (case zend_sort cmp (take (i - 1) ys) of
                       None \<Rightarrow> None
                     | Some ls \<Rightarrow> Some (ls @ ys ! (i - 1) # rs)))))"
  by pat_completeness auto

lemma zend_partition_length:
  assumes "\<not> length xs \<le> 16" and "zend_partition cmp xs = Some (ys, i)"
  shows "length ys = length xs" and "2 \<le> i" and "i < length xs"
proof -
  obtain zs k where "zend_partition cmp xs = Some (zs, k)" "mset zs = mset xs" "2 \<le> k" "k < length xs"
    using zend_partition_safe [of xs cmp] assms(1) by auto
  with assms(2) show "length ys = length xs" "2 \<le> i" "i < length xs" by (auto dest: mset_eq_length)
qed

termination zend_sort
  by (relation "measure (length \<circ> snd)") (use zend_partition_length in \<open>fastforce+\<close>)

declare zend_sort.simps [simp del]

text \<open>Both orders of the two recursive calls give the same array.\<close>

lemma zend_sort_eq:
  "zend_sort cmp xs =
     (if length xs \<le> 16 then zend_insert_sort cmp xs
      else do {
        (ys, i) \<leftarrow> zend_partition cmp xs;
        ls \<leftarrow> zend_sort cmp (take (i - 1) ys);
        rs \<leftarrow> zend_sort cmp (drop i ys);
        Some (ls @ ys ! (i - 1) # rs) })"
  by (subst zend_sort.simps) (auto split: option.splits bind_splits)

lemma zend_sort_perm: "perm_res xs (zend_sort cmp xs)"
proof (induction "length xs" arbitrary: xs rule: less_induct)
  case less
  show ?case
  proof (cases "length xs \<le> 16")
    case True
    then show ?thesis by (simp add: zend_sort_eq zend_insert_sort_perm)
  next
    case False
    then obtain ys i where p: "zend_partition cmp xs = Some (ys, i)" "mset ys = mset xs" "2 \<le> i"
      "i < length xs" using zend_partition_safe [of xs cmp] by auto
    have l: "length ys = length xs" using p(2) by (metis size_mset)
    have "perm_res (take (i - 1) ys) (zend_sort cmp (take (i - 1) ys))"
      "perm_res (drop i ys) (zend_sort cmp (drop i ys))" using p l by (auto intro!: less)
    then obtain ls rs where r: "zend_sort cmp (take (i - 1) ys) = Some ls" "zend_sort cmp (drop i ys) = Some rs"
      "mset ls = mset (take (i - 1) ys)" "mset rs = mset (drop i ys)" unfolding perm_res_def by blast
    have "ys = take (i - 1) ys @ ys ! (i - 1) # drop i ys"
      using id_take_nth_drop [of "i - 1" ys] p l by simp
    then have "mset ys = mset ls + {#ys ! (i - 1)#} + mset rs"
      using r(3,4) by (metis mset.simps(2) mset_append union_mset_add_mset_left union_mset_add_mset_right add.right_neutral)
    then show ?thesis using False p r by (simp add: zend_sort_eq [of _ xs] perm_res_def)
  qed
qed

section \<open>A consistent comparison sorts\<close>

text \<open>What a caller promises of \<open>cmp\<close>: its positive results are a strict weak order.\<close>

locale comparator =
  fixes cmp :: "'a \<Rightarrow> 'a \<Rightarrow> int"
  assumes asym: "cmp x y > 0 \<Longrightarrow> \<not> cmp y x > 0"
    and trans_le: "\<not> cmp x y > 0 \<Longrightarrow> \<not> cmp y z > 0 \<Longrightarrow> \<not> cmp x z > 0"
begin

definition le :: "'a \<Rightarrow> 'a \<Rightarrow> bool" where
  "le x y = (\<not> cmp x y > 0)"

lemma le_total: "\<not> le x y \<Longrightarrow> le y x"
  using asym by (auto simp: le_def)

lemma le_refl [simp]: "le x x"
  using le_total by blast

lemma le_trans [trans]: "le x y \<Longrightarrow> le y z \<Longrightarrow> le x z"
  using trans_le by (auto simp: le_def)

lemma gt_at_le: "i < length xs \<Longrightarrow> j < length xs \<Longrightarrow> gt_at cmp xs i j = Some (\<not> le (xs ! i) (xs ! j))"
  by (simp add: gt_at_def le_def)

lemma sort_3_ordered:
  assumes "a < length xs" "b < length xs" "c < length xs" and "distinct [a, b, c]"
  obtains ys where "zend_sort_3 cmp xs a b c = Some ys" and "mset ys = mset xs"
    and "le (ys ! a) (ys ! b)" and "le (ys ! b) (ys ! c)"
proof -
  obtain ys where ys: "zend_sort_3 cmp xs a b c = Some ys" "mset ys = mset xs"
    using zend_sort_3_perm [OF assms(1-3), of cmp] by (auto simp: perm_res_def)
  from ys(1) have "le (ys ! a) (ys ! b) \<and> le (ys ! b) (ys ! c)"
    using assms le_total [of "xs ! a" "xs ! b"] le_total [of "xs ! b" "xs ! c"]
      le_total [of "xs ! a" "xs ! c"] le_total [of "xs ! c" "xs ! b"]
    unfolding zend_sort_3_def
    by (auto simp: gt_at_le swp_eq nth_list_update split: if_splits)
  then show thesis using that ys by blast
qed

lemma sort_4_ordered:
  assumes "a < length xs" "b < length xs" "c < length xs" "d < length xs" and "distinct [a, b, c, d]"
  obtains ys where "zend_sort_4 cmp xs a b c d = Some ys" and "mset ys = mset xs"
    and "le (ys ! a) (ys ! b)" and "le (ys ! b) (ys ! c)" and "le (ys ! c) (ys ! d)"
proof -
  obtain ys where ys: "zend_sort_4 cmp xs a b c d = Some ys" "mset ys = mset xs"
    using zend_sort_4_perm [OF assms(1-4), of cmp] by (auto simp: perm_res_def)
  have "distinct [a, b, c]" using assms(5) by simp
  then obtain zs where zs: "zend_sort_3 cmp xs a b c = Some zs" "mset zs = mset xs"
    "le (zs ! a) (zs ! b)" "le (zs ! b) (zs ! c)"
    by (rule sort_3_ordered [OF assms(1-3)])
  have l: "length zs = length xs" using zs(2) by (metis size_mset)
  from ys(1) have "le (ys ! a) (ys ! b) \<and> le (ys ! b) (ys ! c) \<and> le (ys ! c) (ys ! d)"
    using assms zs l le_total [of "zs ! a" "zs ! d"] le_total [of "zs ! b" "zs ! d"]
      le_total [of "zs ! c" "zs ! d"] unfolding zend_sort_4_def
    by (auto simp: gt_at_le swp_eq nth_list_update split: if_splits)
  then show thesis using that ys by blast
qed

lemma sort_5_ordered:
  assumes "a < length xs" "b < length xs" "c < length xs" "d < length xs" "e < length xs"
    and "distinct [a, b, c, d, e]"
  obtains ys where "zend_sort_5 cmp xs a b c d e = Some ys" and "mset ys = mset xs"
    and "le (ys ! a) (ys ! b)" and "le (ys ! b) (ys ! c)" and "le (ys ! c) (ys ! d)" and "le (ys ! d) (ys ! e)"
proof -
  obtain ys where ys: "zend_sort_5 cmp xs a b c d e = Some ys" "mset ys = mset xs"
    using zend_sort_5_perm [OF assms(1-5), of cmp] by (auto simp: perm_res_def)
  have "distinct [a, b, c, d]" using assms(6) by simp
  then obtain zs where zs: "zend_sort_4 cmp xs a b c d = Some zs" "mset zs = mset xs"
    "le (zs ! a) (zs ! b)" "le (zs ! b) (zs ! c)" "le (zs ! c) (zs ! d)"
    by (rule sort_4_ordered [OF assms(1-4)])
  have l: "length zs = length xs" using zs(2) by (metis size_mset)
  from ys(1) have "le (ys ! a) (ys ! b) \<and> le (ys ! b) (ys ! c) \<and> le (ys ! c) (ys ! d) \<and> le (ys ! d) (ys ! e)"
    using assms zs l le_total [of "zs ! a" "zs ! e"] le_total [of "zs ! b" "zs ! e"]
      le_total [of "zs ! c" "zs ! e"] le_total [of "zs ! d" "zs ! e"] unfolding zend_sort_5_def
    by (auto simp: gt_at_le swp_eq nth_list_update split: if_splits)
  then show thesis using that ys by blast
qed

text \<open>Insertion: the search finds a place that splits the sorted prefix.\<close>

definition place :: "'a list \<Rightarrow> nat \<Rightarrow> nat \<Rightarrow> bool" where
  "place xs i j = (j \<le> i \<and> (\<forall>k<j. le (xs ! k) (xs ! i)) \<and> (\<forall>k. j \<le> k \<and> k < i \<longrightarrow> le (xs ! i) (xs ! k)))"

lemma prefix_le:
  assumes "sorted_wrt le (take i xs)" and "k \<le> l" and "l < i" and "i \<le> length xs"
  shows "le (xs ! k) (xs ! l)"
  using assms by (cases "k = l") (auto simp: sorted_wrt_iff_nth_less)

lemma ins_back_place:
  assumes "sorted_wrt le (take i xs)" and "i < length xs" and "j \<le> i"
    and "\<forall>k. j \<le> k \<and> k < i \<longrightarrow> le (xs ! i) (xs ! k)"
  obtains p where "ins_back cmp xs i j = Some p" and "place xs i p"
  using assms(3,4)
proof (induction j arbitrary: thesis)
  case 0
  then show ?case by (intro "0.prems"(1) [of 0]) (auto simp: place_def)
next
  case (Suc j)
  have g: "gt_at cmp xs j i = Some (\<not> le (xs ! j) (xs ! i))" using Suc.prems assms(2) by (intro gt_at_le) auto
  show ?case
  proof (cases "le (xs ! j) (xs ! i)")
    case True
    have "le (xs ! k) (xs ! i)" if "k < Suc j" for k
      using prefix_le [OF assms(1), of k j] that True Suc.prems assms(2) le_trans by auto
    then have "place xs i (Suc j)" using Suc.prems by (auto simp: place_def)
    then show ?thesis using g True by (intro Suc.prems(1) [of "Suc j"]) auto
  next
    case False
    have "\<forall>k. j \<le> k \<and> k < i \<longrightarrow> le (xs ! i) (xs ! k)"
      using Suc.prems(3) le_total [OF False] by (metis Suc_leI le_neq_implies_less)
    with Suc.IH Suc.prems(2) obtain p where "ins_back cmp xs i j = Some p" "place xs i p" by auto
    then show ?thesis using g False by (intro Suc.prems(1) [of p]) auto
  qed
qed

lemma ins_pair_place:
  assumes "sorted_wrt le (take i xs)" and "i < length xs" and "2 \<le> j" and "j < i"
    and "le (xs ! i) (xs ! j)"
  obtains p where "ins_pair cmp xs i j = Some p" and "place xs i p"
  using assms(3-5)
proof (induction j arbitrary: thesis rule: less_induct)
  case (less j)
  obtain m where j: "j = Suc (Suc m)" using less.prems(2) by (metis add_2_eq_Suc le_Suc_ex)
  have g: "gt_at cmp xs k i = Some (\<not> le (xs ! k) (xs ! i))" if "k \<le> j" for k
    using that less.prems assms(2) by (intro gt_at_le) auto
  have g0: "gt_at cmp xs i 0 = Some (\<not> le (xs ! i) (xs ! 0))"
    using assms(2) by (intro gt_at_le) auto
  have below: "\<forall>k\<le>l. le (xs ! k) (xs ! i)" if "le (xs ! l) (xs ! i)" "l < i" for l
    using prefix_le [OF assms(1)] that assms(2) le_trans by (meson less_imp_le)
  have above: "\<forall>k. l \<le> k \<and> k < i \<longrightarrow> le (xs ! i) (xs ! k)" if "le (xs ! i) (xs ! l)" for l
    using prefix_le [OF assms(1)] that assms(2) le_trans by (meson less_imp_le)
  show ?case
  proof (cases "le (xs ! m) (xs ! i)")
    case True
    define p where "p = (if le (xs ! Suc m) (xs ! i) then m + 2 else m + 1)"
    have "ins_pair cmp xs i j = Some p" using g [of m] g [of "Suc m"] True by (simp add: j p_def)
    moreover have "place xs i p"
    proof (cases "le (xs ! Suc m) (xs ! i)")
      case True
      then show ?thesis
        using below [of "Suc m"] above [OF less.prems(4)] less.prems(3) by (auto simp: place_def p_def j)
    next
      case False
      then show ?thesis
        using below [OF True] above [OF le_total [OF False]] less.prems(3) by (auto simp: place_def p_def j)
    qed
    ultimately show ?thesis by (rule less.prems(1))
  next
    case False
    note up = above [OF le_total [OF False]]
    consider "m = 0" | "m = 1" | "2 \<le> m" by linarith
    then show ?thesis
    proof cases
      case 1
      then have "ins_pair cmp xs i j = Some 0" using g [of m] False by (simp add: j)
      then show ?thesis using up 1 by (intro less.prems(1) [of 0]) (auto simp: place_def)
    next
      case 2
      define p where "p = (if le (xs ! i) (xs ! 0) then 0 else 1 :: nat)"
      have "ins_pair cmp xs i j = Some p" using g [of m] g0 False 2 by (simp add: j p_def)
      moreover have "place xs i p"
        using up 2 above [of 0] le_total [of "xs ! i" "xs ! 0"] less.prems(3) by (auto simp: place_def p_def j)
      ultimately show ?thesis by (rule less.prems(1))
    next
      case 3
      then have "m < j" "m < i" using less.prems(3) j by auto
      then obtain p where "ins_pair cmp xs i m = Some p" "place xs i p"
        using less.IH [of m] 3 le_total [OF False] by blast
      moreover from this have "ins_pair cmp xs i j = Some p" using g [of m] False 3 by (simp add: j)
      ultimately show ?thesis using less.prems(1) by blast
    qed
  qed
qed

lemma shift_sorted:
  assumes "sorted_wrt le (take i xs)" and "i < length xs" and "place xs i p"
    and "shift_down xs p i = Some ys"
  shows "sorted_wrt le (take (Suc i) ys)"
proof -
  have p: "p \<le> i" using assms(3) by (simp add: place_def)
  have y: "ys = take p xs @ xs ! i # drop p (take i xs) @ drop (Suc i) xs"
    using shift_down_eq [OF p assms(2)] assms(4) by simp
  have "take (Suc i) ys = take p xs @ xs ! i # drop p (take i xs)"
    using p assms(2) by (simp add: y Suc_diff_le)
  moreover have "sorted_wrt le (take p xs @ drop p (take i xs))"
    using assms(1) p by (metis append_take_drop_id min_absorb1 take_take)
  moreover have "\<forall>x\<in>set (take p xs). le x (xs ! i)"
    using assms(3) by (auto simp: place_def in_set_conv_nth)
  moreover have "\<forall>x\<in>set (drop p (take i xs)). le (xs ! i) x"
    using assms(2,3) by (auto simp: place_def in_set_conv_nth)
  ultimately show ?thesis by (simp add: sorted_wrt_append)
qed

lemma ins_step_sorted:
  assumes "sorted_wrt le (take i xs)" and "0 < i" and "i < length xs"
    and "\<And>thesis. \<not> le (xs ! (i - 1)) (xs ! i) \<Longrightarrow>
      (\<And>p. search cmp xs i (i - 1) = Some p \<Longrightarrow> place xs i p \<Longrightarrow> thesis) \<Longrightarrow> thesis"
  obtains ys where "ins_step cmp search xs i = Some ys" and "length ys = length xs"
    and "sorted_wrt le (take (Suc i) ys)"
proof -
  have g: "gt_at cmp xs (i - 1) i = Some (\<not> le (xs ! (i - 1)) (xs ! i))"
    using assms by (intro gt_at_le) auto
  show thesis
  proof (cases "le (xs ! (i - 1)) (xs ! i)")
    case True
    have "le (xs ! k) (xs ! i)" if "k < i" for k
    proof -
      have "le (xs ! k) (xs ! (i - 1))" using that assms by (intro prefix_le [OF assms(1)]) auto
      then show ?thesis using True by (rule le_trans)
    qed
    then have "sorted_wrt le (take (Suc i) xs)"
      using assms by (auto simp: take_Suc_conv_app_nth sorted_wrt_append in_set_conv_nth)
    then show thesis using that [of xs] g True by (simp add: ins_step_def)
  next
    case False
    then obtain p where p: "search cmp xs i (i - 1) = Some p" "place xs i p" using assms(4) by blast
    have "p \<le> i" using p(2) by (simp add: place_def)
    then obtain ys where ys: "shift_down xs p i = Some ys" "mset ys = mset xs"
      using shift_down_perm assms(3) by (metis perm_res_def)
    have "length ys = length xs" using ys(2) by (metis size_mset)
    then show thesis
      using that [of ys] shift_sorted [OF assms(1,3) p(2) ys(1)] g False p ys by (simp add: ins_step_def)
  qed
qed

lemma ins_loop_sorted:
  assumes "\<And>ys k. sorted_wrt le (take k ys) \<Longrightarrow> length ys = length xs \<Longrightarrow> i \<le> k \<Longrightarrow> k < length xs \<Longrightarrow>
      \<not> le (ys ! (k - 1)) (ys ! k) \<Longrightarrow> \<exists>p. search cmp ys k (k - 1) = Some p \<and> place ys k p"
    and "sorted_wrt le (take i xs)" and "0 < i" and "i + n \<le> length xs"
  obtains ys where "ins_loop cmp search n i xs = Some ys" and "length ys = length xs"
    and "sorted_wrt le (take (i + n) ys)"
  using assms
proof (induction n arbitrary: i xs thesis)
  case (Suc n)
  obtain ys where ys: "ins_step cmp search xs i = Some ys" "length ys = length xs"
    "sorted_wrt le (take (Suc i) ys)"
    using Suc.prems(2) [OF Suc.prems(3)] Suc.prems(5)
    by (rule_tac ins_step_sorted [OF Suc.prems(3,4)]) auto
  obtain zs where zs: "ins_loop cmp search n (Suc i) ys = Some zs" "length zs = length ys"
    "sorted_wrt le (take (Suc i + n) zs)"
    using Suc.IH [of "Suc i" ys] Suc.prems(2,5) ys(2,3)
    by (metis (no_types, lifting) Suc_leD add_Suc_right add_Suc zero_less_Suc)
  show ?case using Suc.prems(1) [of zs] ys zs by simp
qed auto

lemma insert_sort_sorted:
  obtains ys where "zend_insert_sort cmp xs = Some ys" and "mset ys = mset xs" and "sorted_wrt le ys"
proof -
  obtain ys where ys: "zend_insert_sort cmp xs = Some ys" "mset ys = mset xs"
    using zend_insert_sort_perm [of xs cmp] by (auto simp: perm_res_def)
  have l: "length ys = length xs" using ys(2) by (metis size_mset)
  have nth: "sorted_wrt le ys" if "\<forall>k. Suc k < length ys \<longrightarrow> le (ys ! k) (ys ! Suc k)"
    using that le_trans sorted_wrt_iff_nth_Suc_transp [of le ys] by (auto simp: transp_def)
  consider "length xs \<le> 1" | "length xs = 2" | "length xs = 3" | "length xs = 4" | "length xs = 5"
    | "6 \<le> length xs" by linarith
  then have "sorted_wrt le ys"
  proof cases
    case 1
    then show ?thesis using l by (intro nth) auto
  next
    case 2
    then have "zend_sort_2 cmp xs 0 1 = Some ys" using ys(1) by (simp add: zend_insert_sort_def)
    then have "le (ys ! 0) (ys ! 1)"
      using 2 le_total [of "xs ! 0" "xs ! 1"] by (auto simp: zend_sort_2_def gt_at_le swp_eq split: if_splits)
    then show ?thesis using l 2 by (intro nth) (auto simp: less_Suc_eq)
  next
    case 3
    then have "zend_sort_3 cmp xs 0 1 2 = Some ys" using ys(1) by (simp add: zend_insert_sort_def)
    with sort_3_ordered [of 0 xs 1 2] 3 have "le (ys ! 0) (ys ! 1)" "le (ys ! 1) (ys ! 2)" by auto
    then show ?thesis using l 3 by (intro nth) (auto simp: less_Suc_eq numeral_2_eq_2)
  next
    case 4
    then have "zend_sort_4 cmp xs 0 1 2 3 = Some ys" using ys(1) by (simp add: zend_insert_sort_def)
    with sort_4_ordered [of 0 xs 1 2 3] 4
    have "le (ys ! 0) (ys ! 1)" "le (ys ! 1) (ys ! 2)" "le (ys ! 2) (ys ! 3)" by auto
    then show ?thesis using l 4 by (intro nth) (auto simp: less_Suc_eq numeral_eq_Suc)
  next
    case 5
    then have "zend_sort_5 cmp xs 0 1 2 3 4 = Some ys" using ys(1) by (simp add: zend_insert_sort_def)
    with sort_5_ordered [of 0 xs 1 2 3 4] 5
    have "le (ys ! 0) (ys ! 1)" "le (ys ! 1) (ys ! 2)" "le (ys ! 2) (ys ! 3)" "le (ys ! 3) (ys ! 4)" by auto
    then show ?thesis using l 5 by (intro nth) (auto simp: less_Suc_eq numeral_eq_Suc)
  next
    case 6
    have s1: "\<exists>p. ins_back cmp zs k (k - 1) = Some p \<and> place zs k p"
      if "sorted_wrt le (take k zs)" "length zs = length xs" "1 \<le> k" "k < length xs"
        "\<not> le (zs ! (k - 1)) (zs ! k)" for zs k
    proof -
      have "\<forall>l. k - 1 \<le> l \<and> l < k \<longrightarrow> le (zs ! k) (zs ! l)"
        using le_total [OF that(5)] that(3) by (metis Suc_pred' le_antisym less_Suc_eq_le less_le_trans zero_less_one)
      then show ?thesis using ins_back_place [OF that(1), of "k - 1"] that by (metis diff_le_self)
    qed
    have s2: "\<exists>p. ins_pair cmp zs k (k - 1) = Some p \<and> place zs k p"
      if "sorted_wrt le (take k zs)" "length zs = length xs" "6 \<le> k" "k < length xs"
        "\<not> le (zs ! (k - 1)) (zs ! k)" for zs k
    proof -
      have "2 \<le> k - 1" "k - 1 < k" "k < length zs" using that by auto
      with ins_pair_place [OF that(1) this(3,1,2) le_total [OF that(5)]] show ?thesis by blast
    qed
    have "sorted_wrt le (take 1 xs)" using 6 by (cases xs) auto
    with 6 obtain zs where zs: "ins_loop cmp ins_back 5 1 xs = Some zs" "length zs = length xs"
      "sorted_wrt le (take 6 zs)"
      using ins_loop_sorted [of xs 1 ins_back 5] s1 by auto
    obtain ws where "ins_loop cmp ins_pair (length xs - 6) 6 zs = Some ws" "length ws = length zs"
      "sorted_wrt le (take (6 + (length xs - 6)) ws)"
      using ins_loop_sorted [of zs 6 ins_pair "length xs - 6"] s2 zs(2,3) 6 by auto
    then show ?thesis using ys(1) zs 6 by (simp add: zend_insert_sort_def)
  qed
  then show thesis using that ys by blast
qed

text \<open>Partition: everything left of the pivot's place is not above it, everything right of it not
  below.\<close>

lemma partition_split:
  assumes "16 < length xs" and "zend_partition cmp xs = Some (ys, i)"
  shows "\<forall>k<i - 1. le (ys ! k) (ys ! (i - 1))"
    and "\<forall>k. i \<le> k \<and> k < length xs \<longrightarrow> le (ys ! (i - 1)) (ys ! k)"
proof -
  let ?n = "length xs" let ?o = "?n div 2" let ?d = "?o div 2"
  have b: "?o < ?n" "?d < ?n" "?o + ?d < ?n" "?n - 1 < ?n" "0 < ?n" "1 < ?n" "2 < ?o" "?o < ?n - 1"
    using assms(1) by auto
  obtain us where us: "(if ?n div 1024 \<noteq> 0
      then zend_sort_5 cmp xs 0 ?d ?o (?o + ?d) (?n - 1) else zend_sort_3 cmp xs 0 ?o (?n - 1)) = Some us"
    "mset us = mset xs" "le (us ! 0) (us ! ?o)" "le (us ! ?o) (us ! (?n - 1))"
  proof (cases "?n div 1024 \<noteq> 0")
    case True
    then have "distinct [0, ?d, ?o, ?o + ?d, ?n - 1]" by auto
    from sort_5_ordered [OF b(5,2,1,3,4) this] True that show thesis by (metis le_trans)
  next
    case False
    have "distinct [0, ?o, ?n - 1]" using b by auto
    from sort_3_ordered [OF b(5,1,4) this] False that show thesis by metis
  qed
  have lu: "length us = ?n" using us(2) by (metis size_mset)
  let ?zs = "us[1 := us ! ?o, ?o := us ! 1]"
  have z: "swp us 1 ?o = Some ?zs" "length ?zs = ?n" using b lu by (simp_all add: swp_def)
  have z1: "?zs ! 1 = us ! ?o" "?zs ! 0 = us ! 0" "?zs ! (?n - 1) = us ! (?n - 1)"
    using b lu by (auto simp: nth_list_update)
  have "\<not> cmp (?zs ! 1) (?zs ! k) > 0" if "?n - 1 \<le> k" "k < ?n" for k
  proof -
    have "k = ?n - 1" using that by simp
    then show ?thesis using us(4) unfolding le_def by (simp only: z1) simp
  qed
  then have inv: "part_inv cmp ?zs 2 (?n - 1)" unfolding part_inv_def z(2) by auto
  have "2 < ?n - 1" "?n - 1 < length ?zs" using assms(1) z by auto
  then obtain ws r where r: "part_loop cmp ?zs 2 (?n - 1) = Some (ws, r)" "mset ws = mset ?zs"
    "2 \<le> r" "r \<le> ?n - 1" "ws ! 0 = ?zs ! 0" "ws ! 1 = ?zs ! 1" "part_inv cmp ws r r"
    using part_loop_props [of 2 "?n - 1" ?zs cmp] inv asym by (metis order_refl)
  have lw: "length ws = ?n" using r(2) z by (metis size_mset)
  have e: "ys = ws[1 := ws ! (r - 1), r - 1 := ws ! 1]" "i = r"
    using assms(2) us(1) z(1) r(1) lw r(3,4) b
    unfolding zend_partition_def Let_def by (auto simp: swp_eq split: if_splits)
  have p0: "le (ws ! 0) (ws ! 1)" using us(3) r(5,6) z1 by simp
  have lo: "le (ws ! k) (ws ! 1)" if "k < r" for k
    using that r(7) p0 by (cases k rule: nat.exhaust; cases "k = 1") (auto simp: part_inv_def le_def)
  have hi: "le (ws ! 1) (ws ! k)" if "r \<le> k" "k < ?n" for k
    using that r(7) lw by (auto simp: part_inv_def le_def)
  have pv: "ys ! (r - 1) = ws ! 1" using r lw b by (simp add: e)
  have "le (ys ! k) (ws ! 1)" if "k < r - 1" for k
    using that lo [of "r - 1"] lo [of k] r(3) lw b(6) by (cases "k = 1") (auto simp: e)
  then show "\<forall>k<i - 1. le (ys ! k) (ys ! (i - 1))" unfolding e(2) pv by blast
  have "le (ws ! 1) (ys ! k)" if "r \<le> k" "k < ?n" for k
    using that hi r(3) by (auto simp: e)
  then show "\<forall>k. i \<le> k \<and> k < length xs \<longrightarrow> le (ys ! (i - 1)) (ys ! k)" unfolding e(2) pv by blast
qed

lemma sort_sorted:
  obtains ys where "zend_sort cmp xs = Some ys" and "mset ys = mset xs" and "sorted_wrt le ys"
proof (induction "length xs" arbitrary: xs thesis rule: less_induct)
  case less
  show ?case
  proof (cases "length xs \<le> 16")
    case True
    then show ?thesis using insert_sort_sorted [of xs] less.prems by (metis zend_sort_eq)
  next
    case False
    then obtain ys i where p: "zend_partition cmp xs = Some (ys, i)" "mset ys = mset xs" "2 \<le> i"
      "i < length xs" using zend_partition_safe [of xs cmp] by auto
    have l: "length ys = length xs" using p(2) by (metis size_mset)
    have "length (take (i - 1) ys) < length xs" "length (drop i ys) < length xs" using p l by auto
    then obtain ls rs where r: "zend_sort cmp (take (i - 1) ys) = Some ls" "mset ls = mset (take (i - 1) ys)"
      "sorted_wrt le ls" "zend_sort cmp (drop i ys) = Some rs" "mset rs = mset (drop i ys)" "sorted_wrt le rs"
      using less.hyps by metis
    note sp = partition_split [OF _ p(1)]
    have L: "\<forall>x\<in>set ls. le x (ys ! (i - 1))"
      using sp(1) False l mset_eq_setD [OF r(2)] by (auto simp: in_set_conv_nth)
    have R: "\<forall>x\<in>set rs. le (ys ! (i - 1)) x"
      using sp(2) False l mset_eq_setD [OF r(5)] by (auto simp: in_set_conv_nth)
    have "zend_sort cmp xs = Some (ls @ ys ! (i - 1) # rs)"
      using False p(1) r(1,4) by (simp add: zend_sort_eq [of _ xs])
    moreover have "sorted_wrt le (ls @ ys ! (i - 1) # rs)"
      using r(3,6) L R le_trans by (auto simp: sorted_wrt_append)
    moreover have "mset (ls @ ys ! (i - 1) # rs) = mset xs"
      using zend_sort_perm [of xs cmp] calculation(1) by (auto simp: perm_res_def)
    ultimately show ?thesis using less.prems by blast
  qed
qed

end

section \<open>Byte-wise string comparison\<close>

text \<open>\<open>memcmp\<close> on the common length; the standard fixes only the sign of its result.\<close>

fun memcmp :: "string \<Rightarrow> string \<Rightarrow> nat \<Rightarrow> int" where
  "memcmp (a # as) (b # bs) (Suc n) =
     (if a = b then memcmp as bs n else if (of_char a :: nat) < of_char b then -1 else 1)"
| "memcmp as bs n = 0"

text \<open>\<open>zend_binary_strcmp\<close> of \<open>Zend/zend_operators.c\<close>.\<close>

definition zend_binary_strcmp :: "string \<Rightarrow> string \<Rightarrow> int" where
  "zend_binary_strcmp s1 s2 =
     (let retval = memcmp s1 s2 (min (length s1) (length s2))
      in if retval = 0 then (if length s1 = length s2 then 0 else if length s1 < length s2 then -1 else 1)
         else retval)"

lemma zend_binary_strcmp_Cons:
  "zend_binary_strcmp [] [] = 0" "zend_binary_strcmp [] (b # bs) = -1"
  "zend_binary_strcmp (a # as) [] = 1"
  "zend_binary_strcmp (a # as) (b # bs) =
     (if a = b then zend_binary_strcmp as bs else if (of_char a :: nat) < of_char b then -1 else 1)"
  by (simp_all add: zend_binary_strcmp_def Let_def)

text \<open>It is the lexicographic order of the byte values.\<close>

lemma strcmp_antisym: "zend_binary_strcmp s1 s2 = - zend_binary_strcmp s2 s1"
proof (induction s1 arbitrary: s2)
  case Nil
  then show ?case by (cases s2) (simp_all add: zend_binary_strcmp_Cons)
next
  case (Cons a as)
  have "(of_char a :: nat) \<noteq> of_char b" if "a \<noteq> b" for b using that by simp
  then show ?case using Cons by (cases s2) (auto simp: zend_binary_strcmp_Cons)
qed

lemma strcmp_trans:
  "zend_binary_strcmp s1 s2 \<le> 0 \<Longrightarrow> zend_binary_strcmp s2 s3 \<le> 0 \<Longrightarrow> zend_binary_strcmp s1 s3 \<le> 0"
proof (induction s1 arbitrary: s2 s3)
  case Nil
  then show ?case by (cases s3) (simp_all add: zend_binary_strcmp_Cons)
next
  case (Cons a as)
  obtain b bs where b: "s2 = b # bs" using Cons.prems(1) by (cases s2) (auto simp: zend_binary_strcmp_Cons)
  obtain c cs where c: "s3 = c # cs" using Cons.prems(2) b by (cases s3) (auto simp: zend_binary_strcmp_Cons)
  show ?case
    using Cons.prems Cons.IH [of bs cs] unfolding b c
    by (auto simp: zend_binary_strcmp_Cons split: if_splits)
qed

interpretation strcmp: comparator zend_binary_strcmp
proof
  show "\<not> zend_binary_strcmp y x > 0" if "zend_binary_strcmp x y > 0" for x y
    using that strcmp_antisym [of x y] by simp
  show "\<not> zend_binary_strcmp x z > 0"
    if "\<not> zend_binary_strcmp x y > 0" "\<not> zend_binary_strcmp y z > 0" for x y z
    using that strcmp_trans [of x y z] by simp
qed

lemma strcmp_eq_0: "zend_binary_strcmp s1 s2 = 0 \<longleftrightarrow> s1 = s2"
proof (induction s1 arbitrary: s2)
  case Nil
  then show ?case by (cases s2) (simp_all add: zend_binary_strcmp_Cons)
next
  case (Cons a as)
  then show ?case by (cases s2) (auto simp: zend_binary_strcmp_Cons)
qed

lemma sorted_wrt_mset_unique:
  assumes "\<And>x y. P x y \<Longrightarrow> P y x \<Longrightarrow> x = y"
    and "sorted_wrt P xs" and "sorted_wrt P ys" and "mset xs = mset ys"
  shows "xs = ys"
  using assms(2-4)
proof (induction xs arbitrary: ys)
  case (Cons x xs)
  obtain y ys' where y: "ys = y # ys'" using Cons.prems(3) by (cases ys) auto
  have "x \<in> set ys" "y \<in> set (x # xs)" using mset_eq_setD [OF Cons.prems(3)] y by auto
  then have "x = y" using Cons.prems(1,2) assms(1) y by auto
  then show ?case using Cons.IH [of ys'] Cons.prems y by simp
qed simp

section \<open>Properties of the sort\<close>

text \<open>C7. For every comparison function, consistent or not, \<open>zend_sort\<close> ends, accesses only elements
  of the array and leaves a permutation of it.\<close>

theorem zend_sort_safe: "\<exists>ys. zend_sort cmp xs = Some ys \<and> mset ys = mset xs"
  using zend_sort_perm [of xs cmp] by (simp add: perm_res_def)

text \<open>C4. When the positive results of the comparison form a strict weak order, the array is sorted
  afterwards: no element compares greater than a later one.\<close>

theorem zend_sort_sorts:
  assumes "\<And>x y. cmp x y > 0 \<Longrightarrow> \<not> cmp y x > 0"
    and "\<And>x y z. \<not> cmp x y > 0 \<Longrightarrow> \<not> cmp y z > 0 \<Longrightarrow> \<not> cmp x z > 0"
  shows "\<exists>ys. zend_sort cmp xs = Some ys \<and> mset ys = mset xs \<and> sorted_wrt (\<lambda>x y. \<not> cmp x y > 0) ys"
proof -
  have c: "comparator cmp" using assms by unfold_locales
  then have "comparator.le cmp = (\<lambda>x y. \<not> cmp x y > 0)" by (intro ext) (rule comparator.le_def)
  with comparator.sort_sorted [OF c, of xs] show ?thesis by metis
qed

theorem zend_sort_sorts_witness:
  "\<exists>ys. zend_sort (\<lambda>x y. x - y) [5, 3, 9, 1, 5, 0 :: int] = Some ys \<and>
    mset ys = mset [5, 3, 9, 1, 5, 0] \<and> sorted_wrt (\<lambda>x y. \<not> x - y > 0) ys"
  by (rule zend_sort_sorts) auto

text \<open>Sorting strings with \<open>zend_binary_strcmp\<close> gives the one arrangement of them in which no
  string is above a later one: two runs on arrays with the same strings end in the same array.\<close>

theorem zend_sort_strings_unique:
  assumes "mset xs = mset xs'"
  shows "zend_sort zend_binary_strcmp xs = zend_sort zend_binary_strcmp xs'"
proof -
  obtain ys where ys: "zend_sort zend_binary_strcmp xs = Some ys" "mset ys = mset xs"
    "sorted_wrt strcmp.le ys" by (rule strcmp.sort_sorted)
  obtain zs where zs: "zend_sort zend_binary_strcmp xs' = Some zs" "mset zs = mset xs'"
    "sorted_wrt strcmp.le zs" by (rule strcmp.sort_sorted)
  have an: "x = y" if "strcmp.le x y" "strcmp.le y x" for x y
    using that strcmp_antisym [of x y] strcmp_eq_0 [of x y] by (simp add: strcmp.le_def)
  have "mset ys = mset zs" using ys zs assms by simp
  from sorted_wrt_mset_unique [OF an ys(3) zs(3) this] show ?thesis using ys zs by simp
qed

theorem zend_sort_strings_unique_witness:
  "mset [''b'', ''ab'', ''a''] = mset [''a'', ''b'', ''ab''] \<and>
    zend_sort zend_binary_strcmp [''b'', ''ab'', ''a''] = zend_sort zend_binary_strcmp [''a'', ''b'', ''ab'']"
  using zend_sort_strings_unique [of "[''b'', ''ab'', ''a'']" "[''a'', ''b'', ''ab'']"] by simp

end
