(* ===== verification/Zend_LList.thy ===== *)
theory Zend_LList
  imports Zend_Sort
begin

text \<open>
  \<open>Zend/zend_llist.c\<close>: the doubly linked list, on an explicit heap of elements. A null pointer is
  \<open>None\<close>; following a null or freed pointer is the failure \<open>None\<close> of the operation. Destructors and
  callbacks act on a state of their own, \<open>'s\<close>.
\<close>

section \<open>Heap and list header\<close>

type_synonym addr = nat

record 'a element =
  el_next :: "addr option"
  el_prev :: "addr option"
  el_data :: 'a

text \<open>\<open>nextfree\<close> is the address the allocator hands out next; addresses are not reused.\<close>

record 'a heap =
  cells :: "addr \<Rightarrow> 'a element option"
  nextfree :: addr

record zend_llist =
  ll_head :: "addr option"
  ll_tail :: "addr option"
  ll_count :: nat
  ll_traverse_ptr :: "addr option"

definition pemalloc :: "'a heap \<Rightarrow> 'a element \<Rightarrow> addr \<times> 'a heap" where
  "pemalloc h e = (nextfree h, \<lparr>cells = (cells h)(nextfree h := Some e), nextfree = nextfree h + 1\<rparr>)"

definition pefree :: "'a heap \<Rightarrow> addr \<Rightarrow> 'a heap" where
  "pefree h a = h\<lparr>cells := (cells h)(a := None)\<rparr>"

definition store :: "'a heap \<Rightarrow> addr option \<Rightarrow> ('a element \<Rightarrow> 'a element) \<Rightarrow> 'a heap option" where
  "store h p f =
     (case p of
        None \<Rightarrow> None
      | Some a \<Rightarrow> map_option (\<lambda>e. h\<lparr>cells := (cells h)(a := Some (f e))\<rparr>) (cells h a))"

section \<open>Operations\<close>

definition zend_llist_init :: zend_llist where
  "zend_llist_init = \<lparr>ll_head = None, ll_tail = None, ll_count = 0, ll_traverse_ptr = None\<rparr>"

definition zend_llist_add_element :: "'a heap \<Rightarrow> zend_llist \<Rightarrow> 'a \<Rightarrow> ('a heap \<times> zend_llist) option" where
  "zend_llist_add_element h l x = do {
     let (tmp, h) = pemalloc h \<lparr>el_next = None, el_prev = ll_tail l, el_data = x\<rparr>;
     (h, l) \<leftarrow> (if ll_tail l \<noteq> None
               then do { h \<leftarrow> store h (ll_tail l) (\<lambda>e. e\<lparr>el_next := Some tmp\<rparr>); Some (h, l) }
               else Some (h, l\<lparr>ll_head := Some tmp\<rparr>));
     Some (h, l\<lparr>ll_tail := Some tmp, ll_count := ll_count l + 1\<rparr>) }"

definition zend_llist_prepend_element :: "'a heap \<Rightarrow> zend_llist \<Rightarrow> 'a \<Rightarrow> ('a heap \<times> zend_llist) option" where
  "zend_llist_prepend_element h l x = do {
     let (tmp, h) = pemalloc h \<lparr>el_next = ll_head l, el_prev = None, el_data = x\<rparr>;
     (h, l) \<leftarrow> (if ll_head l \<noteq> None
               then do { h \<leftarrow> store h (ll_head l) (\<lambda>e. e\<lparr>el_prev := Some tmp\<rparr>); Some (h, l) }
               else Some (h, l\<lparr>ll_tail := Some tmp\<rparr>));
     Some (h, l\<lparr>ll_head := Some tmp, ll_count := ll_count l + 1\<rparr>) }"

text \<open>The macro \<open>DEL_LLIST_ELEMENT\<close>; a null destructor is the identity.\<close>

definition DEL_LLIST_ELEMENT :: "('a \<Rightarrow> 's \<Rightarrow> 's) \<Rightarrow> 'a heap \<Rightarrow> zend_llist \<Rightarrow> addr \<Rightarrow> 's \<Rightarrow>
    ('a heap \<times> zend_llist \<times> 's) option" where
  "DEL_LLIST_ELEMENT dtor h l current s = do {
     e \<leftarrow> cells h current;
     (h, l) \<leftarrow> (if el_prev e \<noteq> None
               then do { h \<leftarrow> store h (el_prev e) (\<lambda>p. p\<lparr>el_next := el_next e\<rparr>); Some (h, l) }
               else Some (h, l\<lparr>ll_head := el_next e\<rparr>));
     (h, l) \<leftarrow> (if el_next e \<noteq> None
               then do { h \<leftarrow> store h (el_next e) (\<lambda>n. n\<lparr>el_prev := el_prev e\<rparr>); Some (h, l) }
               else Some (h, l\<lparr>ll_tail := el_prev e\<rparr>));
     Some (pefree h current, l\<lparr>ll_count := ll_count l - 1\<rparr>, dtor (el_data e) s) }"

text \<open>\<open>zend_llist_del_element\<close>: the loop from \<open>current\<close> on.\<close>

partial_function (option) del_loop :: "('a \<Rightarrow> 's \<Rightarrow> 's) \<Rightarrow> ('a \<Rightarrow> 'b \<Rightarrow> bool) \<Rightarrow> 'b \<Rightarrow> 'a heap \<Rightarrow>
    zend_llist \<Rightarrow> addr option \<Rightarrow> 's \<Rightarrow> ('a heap \<times> zend_llist \<times> 's) option" where
  "del_loop dtor compar element h l current s =
     (case current of
        None \<Rightarrow> Some (h, l, s)
      | Some a \<Rightarrow>
          (case cells h a of
             None \<Rightarrow> None
           | Some e \<Rightarrow>
               if compar (el_data e) element then DEL_LLIST_ELEMENT dtor h l a s
               else del_loop dtor compar element h l (el_next e) s))"

definition zend_llist_del_element :: "('a \<Rightarrow> 's \<Rightarrow> 's) \<Rightarrow> ('a \<Rightarrow> 'b \<Rightarrow> bool) \<Rightarrow> 'b \<Rightarrow> 'a heap \<Rightarrow>
    zend_llist \<Rightarrow> 's \<Rightarrow> ('a heap \<times> zend_llist \<times> 's) option" where
  "zend_llist_del_element dtor compar element h l s =
     del_loop dtor compar element h l (ll_head l) s"

partial_function (option) destroy_loop :: "('a \<Rightarrow> 's \<Rightarrow> 's) \<Rightarrow> 'a heap \<Rightarrow> addr option \<Rightarrow> 's \<Rightarrow>
    ('a heap \<times> 's) option" where
  "destroy_loop dtor h current s =
     (case current of
        None \<Rightarrow> Some (h, s)
      | Some a \<Rightarrow>
          (case cells h a of
             None \<Rightarrow> None
           | Some e \<Rightarrow> destroy_loop dtor (pefree h a) (el_next e) (dtor (el_data e) s)))"

definition zend_llist_destroy :: "('a \<Rightarrow> 's \<Rightarrow> 's) \<Rightarrow> 'a heap \<Rightarrow> zend_llist \<Rightarrow> 's \<Rightarrow>
    ('a heap \<times> zend_llist \<times> 's) option" where
  "zend_llist_destroy dtor h l s = do {
     (h, s) \<leftarrow> destroy_loop dtor h (ll_head l) s;
     Some (h, l\<lparr>ll_head := None, ll_tail := None, ll_count := 0\<rparr>, s) }"

definition zend_llist_clean :: "('a \<Rightarrow> 's \<Rightarrow> 's) \<Rightarrow> 'a heap \<Rightarrow> zend_llist \<Rightarrow> 's \<Rightarrow>
    ('a heap \<times> zend_llist \<times> 's) option" where
  "zend_llist_clean dtor h l s = do {
     (h, l, s) \<leftarrow> zend_llist_destroy dtor h l s;
     Some (h, l\<lparr>ll_head := None, ll_tail := None\<rparr>, s) }"

definition zend_llist_remove_tail :: "('a \<Rightarrow> 's \<Rightarrow> 's) \<Rightarrow> 'a heap \<Rightarrow> zend_llist \<Rightarrow> 's \<Rightarrow>
    ('a heap \<times> zend_llist \<times> 's) option" where
  "zend_llist_remove_tail dtor h l s =
     (case ll_tail l of
        None \<Rightarrow> Some (h, l, s)
      | Some old_tail \<Rightarrow> do {
          e \<leftarrow> cells h old_tail;
          (h, l) \<leftarrow> (if el_prev e \<noteq> None
                    then do { h \<leftarrow> store h (el_prev e) (\<lambda>p. p\<lparr>el_next := None\<rparr>); Some (h, l) }
                    else Some (h, l\<lparr>ll_head := None\<rparr>));
          Some (pefree h old_tail, l\<lparr>ll_tail := el_prev e, ll_count := ll_count l - 1\<rparr>,
                dtor (el_data e) s) })"

partial_function (option) copy_loop :: "'a heap \<Rightarrow> zend_llist \<Rightarrow> addr option \<Rightarrow> ('a heap \<times> zend_llist) option" where
  "copy_loop h dst ptr =
     (case ptr of
        None \<Rightarrow> Some (h, dst)
      | Some a \<Rightarrow>
          (case cells h a of
             None \<Rightarrow> None
           | Some e \<Rightarrow>
               (case zend_llist_add_element h dst (el_data e) of
                  None \<Rightarrow> None
                | Some (h', dst') \<Rightarrow>
                    (case cells h' a of None \<Rightarrow> None | Some e' \<Rightarrow> copy_loop h' dst' (el_next e')))))"

text \<open>\<open>zend_llist_copy\<close>: the heap and the new list.\<close>

definition zend_llist_copy :: "'a heap \<Rightarrow> zend_llist \<Rightarrow> ('a heap \<times> zend_llist) option" where
  "zend_llist_copy h src = copy_loop h zend_llist_init (ll_head src)"

partial_function (option) apply_del_loop :: "('a \<Rightarrow> 's \<Rightarrow> 's) \<Rightarrow> ('a \<Rightarrow> bool) \<Rightarrow> 'a heap \<Rightarrow>
    zend_llist \<Rightarrow> addr option \<Rightarrow> 's \<Rightarrow> ('a heap \<times> zend_llist \<times> 's) option" where
  "apply_del_loop dtor func h l element s =
     (case element of
        None \<Rightarrow> Some (h, l, s)
      | Some a \<Rightarrow>
          (case cells h a of
             None \<Rightarrow> None
           | Some e \<Rightarrow>
               if func (el_data e)
               then (case DEL_LLIST_ELEMENT dtor h l a s of
                       None \<Rightarrow> None
                     | Some (h, l, s) \<Rightarrow> apply_del_loop dtor func h l (el_next e) s)
               else apply_del_loop dtor func h l (el_next e) s))"

definition zend_llist_apply_with_del :: "('a \<Rightarrow> 's \<Rightarrow> 's) \<Rightarrow> ('a \<Rightarrow> bool) \<Rightarrow> 'a heap \<Rightarrow>
    zend_llist \<Rightarrow> 's \<Rightarrow> ('a heap \<times> zend_llist \<times> 's) option" where
  "zend_llist_apply_with_del dtor func h l s = apply_del_loop dtor func h l (ll_head l) s"

text \<open>\<open>zend_llist_apply\<close> and its variants: the callback may change the data it is shown.\<close>

partial_function (option) apply_loop :: "('a \<Rightarrow> 's \<Rightarrow> 'a \<times> 's) \<Rightarrow> 'a heap \<Rightarrow> addr option \<Rightarrow> 's \<Rightarrow>
    ('a heap \<times> 's) option" where
  "apply_loop func h element s =
     (case element of
        None \<Rightarrow> Some (h, s)
      | Some a \<Rightarrow>
          (case cells h a of
             None \<Rightarrow> None
           | Some e \<Rightarrow>
               let (x, s) = func (el_data e) s;
                   h = h\<lparr>cells := (cells h)(a := Some (e\<lparr>el_data := x\<rparr>))\<rparr>
               in apply_loop func h (el_next e) s))"

definition zend_llist_apply :: "('a \<Rightarrow> 's \<Rightarrow> 'a \<times> 's) \<Rightarrow> 'a heap \<Rightarrow> zend_llist \<Rightarrow> 's \<Rightarrow> ('a heap \<times> 's) option" where
  "zend_llist_apply func h l s = apply_loop func h (ll_head l) s"

definition zend_llist_apply_with_argument ::
  "('a \<Rightarrow> 'b \<Rightarrow> 's \<Rightarrow> 'a \<times> 's) \<Rightarrow> 'b \<Rightarrow> 'a heap \<Rightarrow> zend_llist \<Rightarrow> 's \<Rightarrow> ('a heap \<times> 's) option" where
  "zend_llist_apply_with_argument func arg h l s = zend_llist_apply (\<lambda>x. func x arg) h l s"

definition zend_llist_apply_with_arguments ::
  "('a \<Rightarrow> nat \<Rightarrow> 'b list \<Rightarrow> 's \<Rightarrow> 'a \<times> 's) \<Rightarrow> 'b list \<Rightarrow> 'a heap \<Rightarrow> zend_llist \<Rightarrow> 's \<Rightarrow> ('a heap \<times> 's) option" where
  "zend_llist_apply_with_arguments func args h l s =
     zend_llist_apply (\<lambda>x. func x (length args) args) h l s"

text \<open>\<open>zend_llist_sort\<close>: collect the element pointers, sort them, relink.\<close>

partial_function (option) collect :: "'a heap \<Rightarrow> addr option \<Rightarrow> addr list option" where
  "collect h element =
     (case element of
        None \<Rightarrow> Some []
      | Some a \<Rightarrow>
          (case cells h a of
             None \<Rightarrow> None
           | Some e \<Rightarrow> do { as \<leftarrow> collect h (el_next e); Some (a # as) }))"

text \<open>\<open>elements[i]->prev = elements[i-1]; elements[i-1]->next = elements[i];\<close> for the elements after
  \<open>p\<close>, then \<open>elements[i-1]->next = NULL\<close> and \<open>l->tail\<close>.\<close>

primrec relink :: "'a heap \<Rightarrow> addr \<Rightarrow> addr list \<Rightarrow> ('a heap \<times> addr) option" where
  "relink h p [] = do {
     h \<leftarrow> store h (Some p) (\<lambda>e. e\<lparr>el_next := None\<rparr>);
     Some (h, p) }"
| "relink h p (a # as) = do {
     h \<leftarrow> store h (Some a) (\<lambda>e. e\<lparr>el_prev := Some p\<rparr>);
     h \<leftarrow> store h (Some p) (\<lambda>e. e\<lparr>el_next := Some a\<rparr>);
     relink h a as }"

definition comp_at :: "('a \<Rightarrow> 'a \<Rightarrow> int) \<Rightarrow> 'a heap \<Rightarrow> addr \<Rightarrow> addr \<Rightarrow> int" where
  "comp_at comp_func h a b = comp_func (el_data (the (cells h a))) (el_data (the (cells h b)))"

definition zend_llist_sort :: "('a \<Rightarrow> 'a \<Rightarrow> int) \<Rightarrow> 'a heap \<Rightarrow> zend_llist \<Rightarrow> ('a heap \<times> zend_llist) option" where
  "zend_llist_sort comp_func h l =
     (if ll_count l = 0 then Some (h, l)
      else do {
        elements \<leftarrow> collect h (ll_head l);
        elements \<leftarrow> zend_sort (comp_at comp_func h) elements;
        let l = l\<lparr>ll_head := Some (hd elements)\<rparr>;
        h \<leftarrow> store h (Some (hd elements)) (\<lambda>e. e\<lparr>el_prev := None\<rparr>);
        (h, t) \<leftarrow> relink h (hd elements) (tl elements);
        Some (h, l\<lparr>ll_tail := Some t\<rparr>) })"

definition zend_llist_count :: "zend_llist \<Rightarrow> nat" where
  "zend_llist_count l = ll_count l"

text \<open>Traversal: the new position and the data, \<open>None\<close> for a null pointer; the outer \<open>None\<close> is a
  position that points to a freed element. Without a position of its own the caller uses
  \<open>ll_traverse_ptr\<close>.\<close>

definition pos_data :: "'a heap \<Rightarrow> addr option \<Rightarrow> (addr option \<times> 'a option) option" where
  "pos_data h pos =
     (case pos of
        None \<Rightarrow> Some (None, None)
      | Some a \<Rightarrow> (case cells h a of None \<Rightarrow> None | Some e \<Rightarrow> Some (pos, Some (el_data e))))"

definition zend_llist_get_first_ex :: "'a heap \<Rightarrow> zend_llist \<Rightarrow> (addr option \<times> 'a option) option" where
  "zend_llist_get_first_ex h l = pos_data h (ll_head l)"

definition zend_llist_get_last_ex :: "'a heap \<Rightarrow> zend_llist \<Rightarrow> (addr option \<times> 'a option) option" where
  "zend_llist_get_last_ex h l = pos_data h (ll_tail l)"

definition zend_llist_get_next_ex :: "'a heap \<Rightarrow> addr option \<Rightarrow> (addr option \<times> 'a option) option" where
  "zend_llist_get_next_ex h pos =
     (case pos of
        None \<Rightarrow> Some (None, None)
      | Some a \<Rightarrow> (case cells h a of None \<Rightarrow> None | Some e \<Rightarrow> pos_data h (el_next e)))"

definition zend_llist_get_prev_ex :: "'a heap \<Rightarrow> addr option \<Rightarrow> (addr option \<times> 'a option) option" where
  "zend_llist_get_prev_ex h pos =
     (case pos of
        None \<Rightarrow> Some (None, None)
      | Some a \<Rightarrow> (case cells h a of None \<Rightarrow> None | Some e \<Rightarrow> pos_data h (el_prev e)))"

section \<open>The list a header represents\<close>

text \<open>
  \<open>dll m p ns n\<close>: the heap holds, one after the other, the elements \<open>ns\<close> (address and data), the
  first one's \<open>prev\<close> is \<open>p\<close> and the last one's \<open>next\<close> is \<open>n\<close>.
\<close>

definition first :: "(addr \<times> 'a) list \<Rightarrow> addr option \<Rightarrow> addr option" where
  "first ns n = (case ns of [] \<Rightarrow> n | (a, x) # _ \<Rightarrow> Some a)"

definition final :: "(addr \<times> 'a) list \<Rightarrow> addr option \<Rightarrow> addr option" where
  "final ns p = (if ns = [] then p else Some (fst (last ns)))"

lemma first_simps [simp]: "first [] n = n" "first ((a, x) # ns) n = Some a"
  "first (us @ (a, x) # ns) n = first us (Some a)"
  by (auto simp: first_def split: list.splits)

lemma final_simps [simp]: "final [] p = p" "final (us @ [(a, x)]) p = Some a"
  "final ((a, x) # ns) p = final ns (Some a)" "final (us @ (a, x) # ns) p = final ns (Some a)"
  by (auto simp: final_def)

lemma first_eq_None [simp]: "first ns None = None \<longleftrightarrow> ns = []"
  by (cases ns) auto

lemma final_eq_None [simp]: "final ns None = None \<longleftrightarrow> ns = []"
  by (auto simp: final_def)

fun dll :: "(addr \<Rightarrow> 'a element option) \<Rightarrow> addr option \<Rightarrow> (addr \<times> 'a) list \<Rightarrow> addr option \<Rightarrow> bool" where
  "dll m p [] n = True"
| "dll m p ((a, x) # ns) n =
     (m a = Some \<lparr>el_next = first ns n, el_prev = p, el_data = x\<rparr> \<and> dll m (Some a) ns n)"

lemma dll_append [simp]:
  "dll m p (us @ vs) n \<longleftrightarrow> dll m p us (first vs n) \<and> dll m (final us p) vs n"
proof (induction us arbitrary: p)
  case (Cons u us)
  obtain a x where u: "u = (a, x)" by fastforce
  have "first (us @ vs) n = first us (first vs n)" by (cases us) (auto simp: first_def)
  then show ?case using Cons by (simp add: u)
qed simp

lemma dll_frame: "dll m p ns n \<Longrightarrow> (\<And>a. a \<in> fst ` set ns \<Longrightarrow> m' a = m a) \<Longrightarrow> dll m' p ns n"
  by (induction m p ns n rule: dll.induct) auto

lemma dll_upd [simp]: "a \<notin> fst ` set ns \<Longrightarrow> dll (m(a := v)) p ns n \<longleftrightarrow> dll m p ns n"
  by (rule iffI; rule dll_frame, assumption, auto)

text \<open>\<open>llist_rep h l ns\<close>: the header \<open>l\<close> in the heap \<open>h\<close> is the list with the elements \<open>ns\<close>.\<close>

definition llist_rep :: "'a heap \<Rightarrow> zend_llist \<Rightarrow> (addr \<times> 'a) list \<Rightarrow> bool" where
  "llist_rep h l ns = (dll (cells h) None ns None \<and> distinct (map fst ns) \<and>
     ll_head l = first ns None \<and> ll_tail l = final ns None \<and> ll_count l = length ns \<and>
     (\<forall>a\<in>fst ` set ns. a < nextfree h))"

lemma zend_llist_init_rep: "llist_rep h zend_llist_init []"
  by (simp add: llist_rep_def zend_llist_init_def)

text \<open>What one heap change does outside a list.\<close>

definition same_outside :: "'a heap \<Rightarrow> 'a heap \<Rightarrow> addr set \<Rightarrow> bool" where
  "same_outside h h' A = (nextfree h \<le> nextfree h' \<and> (\<forall>a. a \<notin> A \<and> a < nextfree h \<longrightarrow> cells h' a = cells h a))"

lemma rep_frame:
  assumes "llist_rep h l ns" and "same_outside h h' A" and "A \<inter> fst ` set ns = {}"
  shows "llist_rep h' l ns"
  using assms dll_frame [of "cells h" None ns None "cells h'"]
  by (fastforce simp: llist_rep_def same_outside_def)

subsection \<open>Adding\<close>

lemma add_element_rep:
  assumes "llist_rep h l ns"
  obtains h' l' where "zend_llist_add_element h l x = Some (h', l')"
    and "llist_rep h' l' (ns @ [(nextfree h, x)])" and "same_outside h h' (fst ` set ns)"
    and "nextfree h' = Suc (nextfree h)"
proof (cases ns rule: rev_cases)
  case Nil
  then show thesis using assms that
    by (simp add: zend_llist_add_element_def pemalloc_def llist_rep_def same_outside_def)
next
  case (snoc us u)
  obtain b y where u: "u = (b, y)" by fastforce
  have f: "b < nextfree h" "b \<notin> fst ` set us" "nextfree h \<notin> fst ` set us"
    using assms by (auto simp: llist_rep_def snoc u)
  let ?m = "(cells h)(nextfree h := Some \<lparr>el_next = None, el_prev = Some b, el_data = x\<rparr>,
    b := Some \<lparr>el_next = Some (nextfree h), el_prev = final us None, el_data = y\<rparr>)"
  have b: "cells h b = Some \<lparr>el_next = None, el_prev = final us None, el_data = y\<rparr>"
    "ll_tail l = Some b" using assms by (auto simp: llist_rep_def snoc u)
  have "zend_llist_add_element h l x = Some (\<lparr>cells = ?m, nextfree = Suc (nextfree h)\<rparr>,
      l\<lparr>ll_tail := Some (nextfree h), ll_count := ll_count l + 1\<rparr>)"
    using b f by (simp add: zend_llist_add_element_def pemalloc_def store_def)
  moreover have "llist_rep \<lparr>cells = ?m, nextfree = Suc (nextfree h)\<rparr>
      (l\<lparr>ll_tail := Some (nextfree h), ll_count := ll_count l + 1\<rparr>) (ns @ [(nextfree h, x)])"
    using assms f by (auto simp: llist_rep_def snoc u)
  ultimately show thesis using that by (auto simp: same_outside_def snoc u)
qed

lemma prepend_element_rep:
  assumes "llist_rep h l ns"
  obtains h' l' where "zend_llist_prepend_element h l x = Some (h', l')"
    and "llist_rep h' l' ((nextfree h, x) # ns)" and "same_outside h h' (fst ` set ns)"
proof (cases ns)
  case Nil
  then show thesis using assms that
    by (simp add: zend_llist_prepend_element_def pemalloc_def llist_rep_def same_outside_def)
next
  case (Cons u us)
  obtain b y where u: "u = (b, y)" by fastforce
  have f: "b < nextfree h" "b \<notin> fst ` set us" "nextfree h \<notin> fst ` set us"
    using assms by (auto simp: llist_rep_def Cons u)
  let ?m = "(cells h)(nextfree h := Some \<lparr>el_next = Some b, el_prev = None, el_data = x\<rparr>,
    b := Some \<lparr>el_next = first us None, el_prev = Some (nextfree h), el_data = y\<rparr>)"
  have b: "cells h b = Some \<lparr>el_next = first us None, el_prev = None, el_data = y\<rparr>"
    "ll_head l = Some b" using assms by (auto simp: llist_rep_def Cons u)
  have "zend_llist_prepend_element h l x = Some (\<lparr>cells = ?m, nextfree = Suc (nextfree h)\<rparr>,
      l\<lparr>ll_head := Some (nextfree h), ll_count := ll_count l + 1\<rparr>)"
    using b f by (simp add: zend_llist_prepend_element_def pemalloc_def store_def)
  moreover have "llist_rep \<lparr>cells = ?m, nextfree = Suc (nextfree h)\<rparr>
      (l\<lparr>ll_head := Some (nextfree h), ll_count := ll_count l + 1\<rparr>) ((nextfree h, x) # ns)"
    using assms f by (auto simp: llist_rep_def Cons u)
  ultimately show thesis using that by (auto simp: same_outside_def Cons u)
qed

subsection \<open>Deleting\<close>

text \<open>The two stores of \<open>DEL_LLIST_ELEMENT\<close>, each on the neighbour if there is one.\<close>

lemma del_element_rep:
  assumes "llist_rep h l (us @ (a, x) # vs)"
  obtains h' l' where "DEL_LLIST_ELEMENT dtor h l a s = Some (h', l', dtor x s)"
    and "llist_rep h' l' (us @ vs)" and "cells h' a = None" and "nextfree h' = nextfree h"
    and "same_outside h h' (fst ` set (us @ (a, x) # vs))"
proof -
  have e: "cells h a = Some \<lparr>el_next = first vs None, el_prev = final us None, el_data = x\<rparr>"
    using assms by (simp add: llist_rep_def)
  have d: "a \<notin> fst ` set us" "a \<notin> fst ` set vs" "fst ` set us \<inter> fst ` set vs = {}"
    "distinct (map fst us)" "distinct (map fst vs)" "a < nextfree h"
    "\<forall>b\<in>fst ` set us \<union> fst ` set vs. b < nextfree h"
    using assms by (auto simp: llist_rep_def)
  have seg: "dll (cells h) None us (Some a)" "dll (cells h) (Some a) vs None"
    using assms by (auto simp: llist_rep_def)
  define m1 where "m1 = (case final us None of None \<Rightarrow> cells h
    | Some b \<Rightarrow> (cells h)(b := map_option (\<lambda>e. e\<lparr>el_next := first vs None\<rparr>) (cells h b)))"
  define m2 where "m2 = (case first vs None of None \<Rightarrow> m1
    | Some c \<Rightarrow> m1(c := map_option (\<lambda>e. e\<lparr>el_prev := final us None\<rparr>) (m1 c)))"
  have us1: "dll m1 None us (first vs None)" and us1b: "final us None \<noteq> None \<Longrightarrow> cells h (the (final us None)) \<noteq> None"
    using seg(1) d by (cases us rule: rev_cases; auto simp: m1_def)+
  have vs1: "dll m1 (Some a) vs None"
    using seg(2) d by (cases us rule: rev_cases) (auto simp: m1_def)
  have vs2: "dll m2 (final us None) vs None" and vs2b: "first vs None \<noteq> None \<Longrightarrow> m1 (the (first vs None)) \<noteq> None"
    using vs1 d by (cases vs; auto simp: m2_def)+
  have us2: "dll m2 None us (first vs None)"
    using us1 d by (cases vs) (auto simp: m2_def)
  define l' where "l' = l\<lparr>ll_head := first (us @ vs) None, ll_tail := final (us @ vs) None, ll_count := ll_count l - 1\<rparr>"
  have hl: "ll_head l = first us (Some a)" "ll_tail l = final vs (Some a)"
    using assms by (simp_all add: llist_rep_def)
  have hd: "(if us = [] then first vs None else ll_head l) = first (us @ vs) None"
    unfolding hl by (cases us) auto
  have tl: "(if vs = [] then final us None else ll_tail l) = final (us @ vs) None"
    unfolding hl by (cases vs) auto
  have "DEL_LLIST_ELEMENT dtor h l a s = Some (pefree (h\<lparr>cells := m2\<rparr>) a, l', dtor x s)"
  proof -
    define h1 l1 where "h1 = h\<lparr>cells := m1\<rparr>" and "l1 = (if us = [] then l\<lparr>ll_head := first vs None\<rparr> else l)"
    have 1: "(if final us None \<noteq> None
        then do { h \<leftarrow> store h (final us None) (\<lambda>p. p\<lparr>el_next := first vs None\<rparr>); Some (h, l) }
        else Some (h, l\<lparr>ll_head := first vs None\<rparr>)) = Some (h1, l1)"
      using us1b by (cases us rule: rev_cases) (auto simp: store_def m1_def h1_def l1_def)
    have 2: "(if first vs None \<noteq> None
        then do { h \<leftarrow> store h1 (first vs None) (\<lambda>p. p\<lparr>el_prev := final us None\<rparr>); Some (h, l1) }
        else Some (h1, l1\<lparr>ll_tail := final us None\<rparr>))
        = Some (h\<lparr>cells := m2\<rparr>, if vs = [] then l1\<lparr>ll_tail := final us None\<rparr> else l1)"
      using vs2b by (cases vs) (auto simp: store_def m2_def h1_def)
    have 3: "(if vs = [] then l1\<lparr>ll_tail := final us None\<rparr> else l1)\<lparr>ll_count := ll_count l - 1\<rparr> = l'"
      using hd tl by (cases "us = []"; cases "vs = []") (simp_all add: l1_def l'_def)
    have 4: "ll_count (if vs = [] then l1\<lparr>ll_tail := final us None\<rparr> else l1) = ll_count l"
      by (simp add: l1_def)
    show ?thesis
      unfolding DEL_LLIST_ELEMENT_def
      by (simp only: e Option.bind.simps element.select_convs 1 2 3 4 prod.case)
  qed
  moreover have "llist_rep (pefree (h\<lparr>cells := m2\<rparr>) a) l' (us @ vs)"
    using us2 vs2 d assms by (auto simp: llist_rep_def pefree_def l'_def)
  moreover have "same_outside h (pefree (h\<lparr>cells := m2\<rparr>) a) (fst ` set (us @ (a, x) # vs))"
    unfolding same_outside_def pefree_def m2_def m1_def
    by (cases us rule: rev_cases; cases vs) (auto simp: image_iff)
  ultimately show thesis using that by (simp add: pefree_def)
qed

lemma del_loop_rep:
  assumes "llist_rep h l (us @ vs)" and "\<forall>u\<in>set us. \<not> compar (snd u) element"
  obtains h' l' where
    "del_loop dtor compar element h l (first vs None) s =
       Some (h', l', case find (\<lambda>x. compar x element) (map snd vs) of None \<Rightarrow> s | Some x \<Rightarrow> dtor x s)"
    and "llist_rep h' l' (us @ takeWhile (\<lambda>v. \<not> compar (snd v) element) vs @
           tl (dropWhile (\<lambda>v. \<not> compar (snd v) element) vs))"
    and "same_outside h h' (fst ` set (us @ vs))"
  using assms
proof (induction vs arbitrary: us thesis)
  case Nil
  then show ?case by (intro Nil.prems(1)) (auto simp: del_loop.simps same_outside_def)
next
  case (Cons v vs)
  obtain a x where v: "v = (a, x)" by fastforce
  have e: "cells h a = Some \<lparr>el_next = first vs None, el_prev = final us None, el_data = x\<rparr>"
    using Cons.prems(2) by (simp add: llist_rep_def v)
  show ?case
  proof (cases "compar x element")
    case True
    obtain h' l' where r: "DEL_LLIST_ELEMENT dtor h l a s = Some (h', l', dtor x s)"
      "llist_rep h' l' (us @ vs)" "same_outside h h' (fst ` set (us @ (a, x) # vs))"
      using del_element_rep [OF Cons.prems(2) [unfolded v]] by metis
    show ?thesis
      using r e True by (intro Cons.prems(1) [of h' l']) (simp_all add: v del_loop.simps [of _ _ _ _ _ "Some a"])
  next
    case False
    have "llist_rep h l ((us @ [v]) @ vs)" "\<forall>u\<in>set (us @ [v]). \<not> compar (snd u) element"
      using Cons.prems(2,3) False v by auto
    from Cons.IH [OF _ this] obtain h' l' where r:
      "del_loop dtor compar element h l (first vs None) s =
         Some (h', l', case find (\<lambda>x. compar x element) (map snd vs) of None \<Rightarrow> s | Some x \<Rightarrow> dtor x s)"
      "llist_rep h' l' ((us @ [v]) @ takeWhile (\<lambda>v. \<not> compar (snd v) element) vs @
           tl (dropWhile (\<lambda>v. \<not> compar (snd v) element) vs))"
      "same_outside h h' (fst ` set ((us @ [v]) @ vs))" by metis
    show ?thesis
      using r e False by (intro Cons.prems(1) [of h' l']) (simp_all add: v del_loop.simps [of _ _ _ _ _ "Some a"])
  qed
qed

lemma destroy_loop_rep:
  assumes "dll (cells h) p vs None" and "distinct (map fst vs)"
  obtains h' where "destroy_loop dtor h (first vs None) s = Some (h', fold dtor (map snd vs) s)"
    and "nextfree h' = nextfree h" and "\<forall>a. cells h' a = (if a \<in> fst ` set vs then None else cells h a)"
  using assms
proof (induction vs arbitrary: h p s thesis)
  case Nil
  then show ?case by (intro Nil.prems(1)) (auto simp: destroy_loop.simps)
next
  case (Cons v vs)
  obtain a x where v: "v = (a, x)" by fastforce
  have e: "cells h a = Some \<lparr>el_next = first vs None, el_prev = p, el_data = x\<rparr>"
    and d: "dll (cells h) (Some a) vs None" "a \<notin> fst ` set vs" "distinct (map fst vs)"
    using Cons.prems(2,3) by (auto simp: v)
  have "dll (cells (pefree h a)) (Some a) vs None" using d by (simp add: pefree_def)
  from Cons.IH [OF _ this d(3)] obtain h' where r:
    "destroy_loop dtor (pefree h a) (first vs None) (dtor x s) = Some (h', fold dtor (map snd vs) (dtor x s))"
    "nextfree h' = nextfree (pefree h a)"
    "\<forall>b. cells h' b = (if b \<in> fst ` set vs then None else cells (pefree h a) b)" by metis
  show ?case
    using r e by (intro Cons.prems(1) [of h']) (auto simp: v pefree_def destroy_loop.simps [of _ _ "Some a"])
qed

lemma remove_tail_rep:
  assumes "llist_rep h l (us @ [(a, x)])"
  obtains h' l' where "zend_llist_remove_tail dtor h l s = Some (h', l', dtor x s)" and "llist_rep h' l' us"
    and "cells h' a = None"
proof -
  have e: "cells h a = Some \<lparr>el_next = None, el_prev = final us None, el_data = x\<rparr>" "ll_tail l = Some a"
    "a \<notin> fst ` set us" using assms by (auto simp: llist_rep_def)
  show thesis
  proof (cases us rule: rev_cases)
    case Nil
    then show thesis using assms e that
      by (simp add: zend_llist_remove_tail_def llist_rep_def pefree_def)
  next
    case (snoc ws w)
    obtain b y where w: "w = (b, y)" by fastforce
    have b: "cells h b = Some \<lparr>el_next = Some a, el_prev = final ws None, el_data = y\<rparr>" "b \<noteq> a"
      "b \<notin> fst ` set ws" using assms by (auto simp: llist_rep_def snoc w)
    let ?h = "h\<lparr>cells := (cells h)(b := Some \<lparr>el_next = None, el_prev = final ws None, el_data = y\<rparr>)\<rparr>"
    have "zend_llist_remove_tail dtor h l s =
        Some (pefree ?h a, l\<lparr>ll_tail := Some b, ll_count := ll_count l - 1\<rparr>, dtor x s)"
      using e b by (simp add: zend_llist_remove_tail_def store_def snoc w)
    moreover have "llist_rep (pefree ?h a) (l\<lparr>ll_tail := Some b, ll_count := ll_count l - 1\<rparr>) us"
      using assms e(3) b by (auto simp: llist_rep_def pefree_def snoc w)
    ultimately show thesis using that by (simp add: pefree_def)
  qed
qed

subsection \<open>Loops that keep or rebuild the list\<close>

lemma rep_add_disjoint:
  assumes "llist_rep h l ns" and "llist_rep h d ms" and "fst ` set ns \<inter> fst ` set ms = {}"
  obtains h' d' where "zend_llist_add_element h d x = Some (h', d')" and "llist_rep h' d' (ms @ [(nextfree h, x)])"
    and "llist_rep h' l ns" and "fst ` set ns \<inter> fst ` set (ms @ [(nextfree h, x)]) = {}"
    and "\<forall>a\<in>fst ` set ns. cells h' a = cells h a"
proof -
  obtain h' d' where r: "zend_llist_add_element h d x = Some (h', d')"
    "llist_rep h' d' (ms @ [(nextfree h, x)])" "same_outside h h' (fst ` set ms)"
    by (rule add_element_rep [OF assms(2)])
  have lt: "\<forall>a\<in>fst ` set ns. a < nextfree h" using assms(1) by (simp add: llist_rep_def)
  have "llist_rep h' l ns" using rep_frame [OF assms(1) r(3)] assms(3) by blast
  moreover have "\<forall>a\<in>fst ` set ns. cells h' a = cells h a"
    using r(3) lt assms(3) unfolding same_outside_def by (metis disjoint_iff)
  ultimately show thesis using that r assms(3) lt by fastforce
qed

lemma copy_loop_rep:
  assumes "llist_rep h l (us @ vs)" and "llist_rep h d ms" and "fst ` set (us @ vs) \<inter> fst ` set ms = {}"
  obtains h' d' ms' where "copy_loop h d (first vs None) = Some (h', d')" and "llist_rep h' l (us @ vs)"
    and "llist_rep h' d' (ms @ ms')" and "map snd ms' = map snd vs"
    and "fst ` set (us @ vs) \<inter> fst ` set (ms @ ms') = {}"
  using assms
proof (induction vs arbitrary: h d us ms thesis)
  case Nil
  show ?case by (rule Nil.prems(1) [of h d "[]"]) (use Nil.prems(2-4) in \<open>simp_all add: copy_loop.simps\<close>)
next
  case (Cons v vs)
  obtain a x where v: "v = (a, x)" by fastforce
  have e: "cells h a = Some \<lparr>el_next = first vs None, el_prev = final us None, el_data = x\<rparr>"
    using Cons.prems(2) by (simp add: llist_rep_def v)
  obtain h1 d1 where r: "zend_llist_add_element h d x = Some (h1, d1)" "llist_rep h1 d1 (ms @ [(nextfree h, x)])"
    "llist_rep h1 l (us @ v # vs)" "fst ` set (us @ v # vs) \<inter> fst ` set (ms @ [(nextfree h, x)]) = {}"
    "\<forall>b\<in>fst ` set (us @ v # vs). cells h1 b = cells h b"
    by (rule rep_add_disjoint [OF Cons.prems(2-4)])
  have e1: "cells h1 a = Some \<lparr>el_next = first vs None, el_prev = final us None, el_data = x\<rparr>"
    using r(5) e by (simp add: v)
  have "llist_rep h1 l ((us @ [v]) @ vs)"
    "fst ` set ((us @ [v]) @ vs) \<inter> fst ` set (ms @ [(nextfree h, x)]) = {}" using r(3,4) by auto
  from Cons.IH [OF _ this(1) r(2) this(2)] obtain h2 d2 ms2 where q:
    "copy_loop h1 d1 (first vs None) = Some (h2, d2)" "llist_rep h2 l ((us @ [v]) @ vs)"
    "llist_rep h2 d2 ((ms @ [(nextfree h, x)]) @ ms2)" "map snd ms2 = map snd vs"
    "fst ` set ((us @ [v]) @ vs) \<inter> fst ` set ((ms @ [(nextfree h, x)]) @ ms2) = {}" by metis
  show ?case
    by (rule Cons.prems(1) [of h2 d2 "(nextfree h, x) # ms2"])
      (use q e e1 r(1) in \<open>simp_all add: v copy_loop.simps [of _ _ "Some a"]\<close>)
qed

lemma apply_del_loop_rep:
  assumes "llist_rep h l (us @ vs)"
  obtains h' l' where "apply_del_loop dtor func h l (first vs None) s =
      Some (h', l', fold dtor (filter func (map snd vs)) s)"
    and "llist_rep h' l' (us @ filter (\<lambda>v. \<not> func (snd v)) vs)"
  using assms
proof (induction vs arbitrary: h l us s thesis)
  case Nil
  show ?case by (rule Nil.prems(1) [of h l]) (use Nil.prems(2) in \<open>simp_all add: apply_del_loop.simps\<close>)
next
  case (Cons v vs)
  obtain a x where v: "v = (a, x)" by fastforce
  have e: "cells h a = Some \<lparr>el_next = first vs None, el_prev = final us None, el_data = x\<rparr>"
    using Cons.prems(2) by (simp add: llist_rep_def v)
  show ?case
  proof (cases "func x")
    case True
    obtain h1 l1 where r: "DEL_LLIST_ELEMENT dtor h l a s = Some (h1, l1, dtor x s)" "llist_rep h1 l1 (us @ vs)"
      using del_element_rep [OF Cons.prems(2) [unfolded v]] by metis
    from Cons.IH [OF _ r(2)] obtain h' l' where q:
      "apply_del_loop dtor func h1 l1 (first vs None) (dtor x s) = Some (h', l', fold dtor (filter func (map snd vs)) (dtor x s))"
      "llist_rep h' l' (us @ filter (\<lambda>v. \<not> func (snd v)) vs)" by metis
    show ?thesis
      by (rule Cons.prems(1) [of h' l'])
        (use q e r(1) True in \<open>simp_all add: v apply_del_loop.simps [of _ _ _ _ "Some a"]\<close>)
  next
    case False
    have "llist_rep h l ((us @ [v]) @ vs)" using Cons.prems(2) by simp
    from Cons.IH [OF _ this] obtain h' l' where q:
      "apply_del_loop dtor func h l (first vs None) s = Some (h', l', fold dtor (filter func (map snd vs)) s)"
      "llist_rep h' l' ((us @ [v]) @ filter (\<lambda>v. \<not> func (snd v)) vs)" by metis
    show ?thesis
      by (rule Cons.prems(1) [of h' l'])
        (use q e False in \<open>simp_all add: v apply_del_loop.simps [of _ _ _ _ "Some a"]\<close>)
  qed
qed

text \<open>Sorting: the pointers are collected in list order, and relinking any arrangement of the same
  elements gives a proper list again.\<close>

lemma collect_rep: "dll (cells h) p vs None \<Longrightarrow> collect h (first vs None) = Some (map fst vs)"
proof (induction vs arbitrary: p)
  case Nil
  show ?case by (simp add: collect.simps)
next
  case (Cons v vs)
  obtain a x where v: "v = (a, x)" by fastforce
  have "collect h (first vs None) = Some (map fst vs)"
    using Cons.IH [of "Some a"] Cons.prems by (simp add: v)
  then show ?case using Cons.prems by (simp add: v collect.simps [of _ "Some a"])
qed

definition cell_data :: "'a heap \<Rightarrow> addr \<Rightarrow> 'a \<Rightarrow> bool" where
  "cell_data h a x = (\<exists>e. cells h a = Some e \<and> el_data e = x)"

lemma store_data:
  assumes "cell_data h a x" and "\<And>e. el_data (f e) = el_data e"
  obtains e h' where "store h (Some a) f = Some h'" and "cells h a = Some e"
    and "cells h' = (cells h)(a := Some (f e))" and "nextfree h' = nextfree h"
    and "\<forall>b y. cell_data h b y \<longrightarrow> cell_data h' b y"
proof -
  obtain e where e: "cells h a = Some e" "el_data e = x" using assms(1) by (auto simp: cell_data_def)
  then show thesis using assms(2)
    by (intro that [of "h\<lparr>cells := (cells h)(a := Some (f e))\<rparr>" e]) (auto simp: store_def cell_data_def)
qed

lemma relink_rep:
  assumes "distinct (p # map fst vs)" and "\<forall>(b, y)\<in>set ((p, x) # vs). cell_data h b y"
  obtains h' where "relink h p (map fst vs) = Some (h', the (final vs (Some p)))"
    and "\<forall>e. cells h p = Some e \<longrightarrow> cells h' p = Some (e\<lparr>el_next := first vs None\<rparr>)"
    and "dll (cells h') (Some p) vs None" and "nextfree h' = nextfree h"
    and "\<forall>b. b \<notin> fst ` set ((p, x) # vs) \<longrightarrow> cells h' b = cells h b"
  using assms
proof (induction vs arbitrary: h p x thesis)
  case Nil
  have "cell_data h p x" using Nil.prems(3) by simp
  then obtain e where "cells h p = Some e" by (auto simp: cell_data_def)
  then show ?case
    by (intro Nil.prems(1) [of "h\<lparr>cells := (cells h)(p := Some (e\<lparr>el_next := None\<rparr>))\<rparr>"]) (simp_all add: store_def)
next
  case (Cons v vs)
  obtain a y where v: "v = (a, y)" by fastforce
  have da: "cell_data h a y" and dp: "cell_data h p x" using Cons.prems(3) by (auto simp: v)
  have d: "a \<noteq> p" "a \<notin> fst ` set vs" "p \<notin> fst ` set vs" "distinct (map fst vs)"
    using Cons.prems(2) by (auto simp: v)
  obtain h1 ea where h1: "store h (Some a) (\<lambda>e. e\<lparr>el_prev := Some p\<rparr>) = Some h1" "cells h a = Some ea"
    "cells h1 = (cells h)(a := Some (ea\<lparr>el_prev := Some p\<rparr>))" "nextfree h1 = nextfree h"
    "\<forall>b y. cell_data h b y \<longrightarrow> cell_data h1 b y"
    by (rule store_data [OF da, of "\<lambda>e. e\<lparr>el_prev := Some p\<rparr>"]) auto
  have dp1: "cell_data h1 p x" using h1(5) dp by blast
  obtain h2 ep where h2: "store h1 (Some p) (\<lambda>e. e\<lparr>el_next := Some a\<rparr>) = Some h2" "cells h1 p = Some ep"
    "cells h2 = (cells h1)(p := Some (ep\<lparr>el_next := Some a\<rparr>))" "nextfree h2 = nextfree h1"
    "\<forall>b y. cell_data h1 b y \<longrightarrow> cell_data h2 b y"
    by (rule store_data [OF dp1, of "\<lambda>e. e\<lparr>el_next := Some a\<rparr>"]) auto
  have "distinct (a # map fst vs)" "\<forall>(b, z)\<in>set ((a, y) # vs). cell_data h2 b z"
    using d Cons.prems(3) h1(5) h2(5) by (auto simp: v)
  from Cons.IH [OF _ this] obtain h' where r: "relink h2 a (map fst vs) = Some (h', the (final vs (Some a)))"
    "\<forall>e. cells h2 a = Some e \<longrightarrow> cells h' a = Some (e\<lparr>el_next := first vs None\<rparr>)"
    "dll (cells h') (Some a) vs None" "nextfree h' = nextfree h2"
    "\<forall>b. b \<notin> fst ` set ((a, y) # vs) \<longrightarrow> cells h' b = cells h2 b" by metis
  have ey: "el_data ea = y" using da h1(2) by (simp add: cell_data_def)
  have "cells h' a = Some (ea\<lparr>el_prev := Some p, el_next := first vs None\<rparr>)"
    using r(2) h2(3) h1(3) d(1) by simp
  then have "dll (cells h') (Some p) (v # vs) None" using r(3) ey by (simp add: v)
  moreover have "relink h p (map fst (v # vs)) = Some (h', the (final (v # vs) (Some p)))"
    using h1(1) h2(1) r(1) by (simp add: v)
  moreover have "\<forall>e. cells h p = Some e \<longrightarrow> cells h' p = Some (e\<lparr>el_next := first (v # vs) None\<rparr>)"
    using r(5) d h1(3) h2(2,3) by (auto simp: v)
  moreover have "\<forall>b. b \<notin> fst ` set ((p, x) # v # vs) \<longrightarrow> cells h' b = cells h b"
    using r(5) h1(3) h2(3) by (auto simp: v)
  ultimately show ?case using Cons.prems(1) r(4) h1(4) h2(4) by simp
qed

lemma map_of_arrangement:
  assumes "distinct (map fst ns)" and "mset as = mset (map fst ns)"
  obtains ms where "map fst ms = as" and "mset ms = mset ns"
proof -
  define ms where "ms = map (\<lambda>a. (a, the (map_of ns a))) as"
  have "map fst ms = as" by (simp add: ms_def comp_def)
  moreover have "mset ms = image_mset (\<lambda>a. (a, the (map_of ns a))) (mset (map fst ns))"
    unfolding ms_def mset_map [of "\<lambda>a. (a, the (map_of ns a))" as] assms(2) ..
  moreover have "\<dots> = mset ns"
  proof -
    have "map (\<lambda>a. (a, the (map_of ns a))) (map fst ns) = ns"
      unfolding map_map by (rule map_idI) (use assms(1) in auto)
    then show ?thesis by (simp flip: mset_map)
  qed
  ultimately show thesis using that by simp
qed

lemma sort_rep:
  assumes rep: "llist_rep h l ns"
  obtains h' l' ms where "zend_llist_sort cf h l = Some (h', l')" and "llist_rep h' l' ms"
    and "mset ms = mset ns"
    and "comparator cf \<Longrightarrow> sorted_wrt (\<lambda>x y. \<not> cf x y > 0) (map snd ms)"
proof (cases "ns = []")
  case True
  then have "zend_llist_sort cf h l = Some (h, l)" using rep by (simp add: zend_llist_sort_def llist_rep_def)
  then show thesis using that rep True by simp
next
  case False
  have d: "dll (cells h) None ns None" "distinct (map fst ns)" "ll_head l = first ns None" "ll_count l = length ns"
    "\<forall>a\<in>fst ` set ns. a < nextfree h" using rep by (auto simp: llist_rep_def)
  obtain as where as: "zend_sort (comp_at cf h) (map fst ns) = Some as" "mset as = mset (map fst ns)"
    using zend_sort_perm [of "map fst ns" "comp_at cf h"] by (auto simp: perm_res_def)
  obtain ms where ms: "map fst ms = as" "mset ms = mset ns" by (rule map_of_arrangement [OF d(2) as(2)])
  obtain p x vs where pv: "ms = (p, x) # vs" using ms(2) False by (cases ms) auto
  have data: "cell_data h b y" if "(b, y) \<in> set ns" for b y
  proof -
    from split_list [OF that] obtain us ws where "ns = us @ (b, y) # ws" by blast
    then show ?thesis using d(1) by (auto simp: cell_data_def)
  qed
  have sm: "set ms = set ns" using mset_eq_setD [OF ms(2)] .
  have dm: "distinct (map fst ms)" using d(2) as(2) ms(1) by (metis mset_eq_imp_distinct_iff)
  have dp: "cell_data h p x" using data sm pv by auto
  obtain h1 e where h1: "store h (Some p) (\<lambda>e. e\<lparr>el_prev := None\<rparr>) = Some h1" "cells h p = Some e"
    "cells h1 = (cells h)(p := Some (e\<lparr>el_prev := None\<rparr>))" "nextfree h1 = nextfree h"
    "\<forall>b y. cell_data h b y \<longrightarrow> cell_data h1 b y"
    by (rule store_data [OF dp, of "\<lambda>e. e\<lparr>el_prev := None\<rparr>"]) auto
  have "distinct (p # map fst vs)" "\<forall>(b, y)\<in>set ((p, x) # vs). cell_data h1 b y"
    using dm data h1(5) sm by (auto simp: pv)
  then obtain h2 where h2: "relink h1 p (map fst vs) = Some (h2, the (final vs (Some p)))"
    "\<forall>e. cells h1 p = Some e \<longrightarrow> cells h2 p = Some (e\<lparr>el_next := first vs None\<rparr>)"
    "dll (cells h2) (Some p) vs None" "nextfree h2 = nextfree h1" by (rule relink_rep)
  define l' where "l' = l\<lparr>ll_head := Some p, ll_tail := Some (the (final vs (Some p)))\<rparr>"
  have ex: "el_data e = x" using dp h1(2) by (simp add: cell_data_def)
  have fin: "final ms None = Some (the (final vs (Some p)))" by (simp add: pv final_def)
  have len: "length ms = length ns" using ms(2) by (metis size_mset)
  have "zend_llist_sort cf h l = Some (h2, l')"
    using False d(3,4) collect_rep [OF d(1)] as(1) ms(1) h1(1) h2(1)
    by (auto simp: zend_llist_sort_def pv l'_def)
  moreover have "llist_rep h2 l' ms"
    unfolding llist_rep_def
    using h2(2-4) h1(3,4) ex dm d(4,5) len sm fin by (auto simp: pv l'_def)
  moreover have "sorted_wrt (\<lambda>x y. \<not> cf x y > 0) (map snd ms)" if c: "comparator cf"
  proof -
    have ca: "comparator (comp_at cf h)"
      using c unfolding comparator_def comp_at_def by blast
    have "sorted_wrt (comparator.le (comp_at cf h)) as"
      using comparator.sort_sorted [OF ca, of "map fst ns"] as(1) by (metis option.inject)
    then have s: "sorted_wrt (\<lambda>u v. \<not> comp_at cf h (fst u) (fst v) > 0) ms"
      unfolding ms(1) [symmetric] sorted_wrt_map comparator.le_def [OF ca] .
    have cd: "el_data (the (cells h (fst u))) = snd u" if "u \<in> set ms" for u
      using data [of "fst u" "snd u"] that sm by (auto simp: cell_data_def)
    show ?thesis unfolding sorted_wrt_map
      by (rule sorted_wrt_mono_rel [OF _ s]) (simp add: comp_at_def cd)
  qed
  ultimately show thesis using that ms(2) by blast
qed

section \<open>Properties of the list\<close>

text \<open>A list of two elements, for the concrete instances below.\<close>

definition two_heap :: "int heap" where
  "two_heap = \<lparr>cells = (\<lambda>a. None)(0 := Some \<lparr>el_next = Some 1, el_prev = None, el_data = 4\<rparr>,
     1 := Some \<lparr>el_next = None, el_prev = Some 0, el_data = 3\<rparr>), nextfree = 2\<rparr>"

definition two_list :: zend_llist where
  "two_list = \<lparr>ll_head = Some 0, ll_tail = Some 1, ll_count = 2, ll_traverse_ptr = None\<rparr>"

lemma two_rep: "llist_rep two_heap two_list [(0, 4), (1, 3)]"
  by (simp add: llist_rep_def two_heap_def two_list_def)

text \<open>C37. The editing operations refine list operations: on a well-formed doubly linked list adding
  appends, prepending prepends, removing the tail drops the last element, and no operation follows a
  null or freed pointer; forward and backward links, head, tail and count stay consistent.\<close>

theorem zend_llist_edit:
  assumes "llist_rep h l ns"
  shows "(\<exists>h' l' a. zend_llist_add_element h l x = Some (h', l') \<and> llist_rep h' l' (ns @ [(a, x)])) \<and>
    (\<exists>h' l' a. zend_llist_prepend_element h l x = Some (h', l') \<and> llist_rep h' l' ((a, x) # ns)) \<and>
    (\<exists>h' l'. zend_llist_remove_tail dtor h l s =
        Some (h', l', if ns = [] then s else dtor (snd (last ns)) s) \<and> llist_rep h' l' (butlast ns))"
proof (intro conjI)
  show "\<exists>h' l' a. zend_llist_add_element h l x = Some (h', l') \<and> llist_rep h' l' (ns @ [(a, x)])"
    using add_element_rep [OF assms] by metis
  show "\<exists>h' l' a. zend_llist_prepend_element h l x = Some (h', l') \<and> llist_rep h' l' ((a, x) # ns)"
    using prepend_element_rep [OF assms] by metis
  show "\<exists>h' l'. zend_llist_remove_tail dtor h l s =
      Some (h', l', if ns = [] then s else dtor (snd (last ns)) s) \<and> llist_rep h' l' (butlast ns)"
  proof (cases ns rule: rev_cases)
    case Nil
    then show ?thesis using assms by (auto simp: zend_llist_remove_tail_def llist_rep_def)
  next
    case (snoc us u)
    then have "llist_rep h l (us @ [(fst u, snd u)])" using assms by simp
    then obtain h' l' where "zend_llist_remove_tail dtor h l s = Some (h', l', dtor (snd u) s)"
      "llist_rep h' l' us" by (rule remove_tail_rep)
    then show ?thesis using snoc by simp
  qed
qed

theorem zend_llist_edit_witness:
  "llist_rep two_heap two_list [(0, 4), (1, 3)] \<and>
    (\<exists>h' l' a. zend_llist_add_element two_heap two_list 5 = Some (h', l') \<and>
      llist_rep h' l' [(0, 4), (1, 3), (a, 5)]) \<and>
    (\<exists>h' l'. zend_llist_remove_tail (\<lambda>x s. s + x) two_heap two_list 0 = Some (h', l', 3) \<and>
      llist_rep h' l' [(0, 4)])"
  using two_rep zend_llist_edit [OF two_rep, of 5 "\<lambda>x s. s + x" 0] by simp

text \<open>\<open>zend_llist_del_element\<close> removes the first element that matches and only that one, calls
  the destructor on it, and leaves the list unchanged when none matches;
  \<open>zend_llist_apply_with_del\<close> removes all that match, calling the destructor in list order.\<close>

theorem zend_llist_delete:
  assumes "llist_rep h l ns"
  shows "(\<exists>h' l'. zend_llist_del_element dtor compar element h l s =
      Some (h', l', case find (\<lambda>x. compar x element) (map snd ns) of None \<Rightarrow> s | Some x \<Rightarrow> dtor x s) \<and>
      llist_rep h' l' (takeWhile (\<lambda>v. \<not> compar (snd v) element) ns @
        tl (dropWhile (\<lambda>v. \<not> compar (snd v) element) ns))) \<and>
    (\<exists>h' l'. zend_llist_apply_with_del dtor func h l s =
      Some (h', l', fold dtor (filter func (map snd ns)) s) \<and>
      llist_rep h' l' (filter (\<lambda>v. \<not> func (snd v)) ns))"
proof -
  have hd: "ll_head l = first ns None" using assms by (simp add: llist_rep_def)
  have r: "llist_rep h l ([] @ ns)" using assms by simp
  show ?thesis
    using del_loop_rep [OF r, of compar element dtor s] apply_del_loop_rep [OF r, of dtor func s]
    unfolding zend_llist_del_element_def zend_llist_apply_with_del_def hd by fastforce
qed

theorem zend_llist_delete_witness:
  "llist_rep two_heap two_list [(0, 4), (1, 3)] \<and>
    (\<exists>h' l'. zend_llist_del_element (\<lambda>x s. s + x) (=) 4 two_heap two_list 0 = Some (h', l', 4) \<and>
      llist_rep h' l' [(1, 3)]) \<and>
    (\<exists>h' l'. zend_llist_apply_with_del (\<lambda>x s. s + x) (\<lambda>x. x < 4) two_heap two_list 0 = Some (h', l', 3) \<and>
      llist_rep h' l' [(0, 4)])"
  using two_rep zend_llist_delete [OF two_rep, of "\<lambda>x s. s + x" "(=)" 4 0 "\<lambda>x. x < 4"] by simp

text \<open>\<open>zend_llist_destroy\<close> frees every element of the list and no other cell, calls the destructor
  once per element in list order, and leaves an empty list.\<close>

theorem zend_llist_destroy_frees:
  assumes "llist_rep h l ns"
  shows "\<exists>h' l'. zend_llist_destroy dtor h l s = Some (h', l', fold dtor (map snd ns) s) \<and>
    llist_rep h' l' [] \<and> (\<forall>a. cells h' a = (if a \<in> fst ` set ns then None else cells h a))"
proof -
  have d: "dll (cells h) None ns None" "distinct (map fst ns)" "ll_head l = first ns None"
    using assms by (auto simp: llist_rep_def)
  obtain h' where "destroy_loop dtor h (first ns None) s = Some (h', fold dtor (map snd ns) s)"
    "\<forall>a. cells h' a = (if a \<in> fst ` set ns then None else cells h a)"
    using destroy_loop_rep [OF d(1,2)] by metis
  then show ?thesis by (auto simp: zend_llist_destroy_def d(3) llist_rep_def)
qed

theorem zend_llist_destroy_frees_witness:
  "llist_rep two_heap two_list [(0, 4), (1, 3)] \<and>
    (\<exists>h' l'. zend_llist_destroy (\<lambda>x s. s + x) two_heap two_list 0 = Some (h', l', 7) \<and> llist_rep h' l' [])"
  using two_rep zend_llist_destroy_frees [OF two_rep, of "\<lambda>x s. s + x" 0] by auto

text \<open>\<open>zend_llist_copy\<close> builds a second list with the same data in the same order, in cells of its
  own, and leaves the source as it was.\<close>

theorem zend_llist_copy_same:
  assumes "llist_rep h src ns"
  shows "\<exists>h' dst ms. zend_llist_copy h src = Some (h', dst) \<and> llist_rep h' src ns \<and>
    llist_rep h' dst ms \<and> map snd ms = map snd ns \<and> fst ` set ns \<inter> fst ` set ms = {}"
proof -
  have hd: "ll_head src = first ns None" using assms by (simp add: llist_rep_def)
  have r: "llist_rep h src ([] @ ns)" "fst ` set ([] @ ns) \<inter> fst ` set [] = {}" using assms by simp_all
  show ?thesis
    using copy_loop_rep [OF r(1) zend_llist_init_rep r(2)] unfolding zend_llist_copy_def hd by (metis append_Nil)
qed

theorem zend_llist_copy_same_witness:
  "llist_rep two_heap two_list [(0, 4), (1, 3)] \<and>
    (\<exists>h' dst ms. zend_llist_copy two_heap two_list = Some (h', dst) \<and> llist_rep h' dst ms \<and>
      map snd ms = [4, 3])"
proof -
  obtain h' dst ms where "zend_llist_copy two_heap two_list = Some (h', dst) \<and>
      llist_rep h' two_list [(0, 4), (1, 3)] \<and> llist_rep h' dst ms \<and>
      map snd ms = map snd [(0 :: addr, 4), (1, 3)] \<and> fst ` set [(0, 4 :: int), (1, 3)] \<inter> fst ` set ms = {}"
    using zend_llist_copy_same [OF two_rep] by (elim exE) (rule that)
  then show ?thesis using two_rep by (intro conjI exI [of _ h'] exI [of _ dst] exI [of _ ms]) simp_all
qed

text \<open>\<open>zend_llist_sort\<close> relinks the same elements: the list is a permutation of what it was,
  consistent in both directions, and sorted when the comparison is a strict weak order.\<close>

theorem zend_llist_sort_sorts:
  assumes "llist_rep h l ns"
    and "\<And>x y. cf x y > 0 \<Longrightarrow> \<not> cf y x > 0"
    and "\<And>x y z. \<not> cf x y > 0 \<Longrightarrow> \<not> cf y z > 0 \<Longrightarrow> \<not> cf x z > 0"
  shows "\<exists>h' l' ms. zend_llist_sort cf h l = Some (h', l') \<and> llist_rep h' l' ms \<and>
    mset ms = mset ns \<and> sorted_wrt (\<lambda>x y. \<not> cf x y > 0) (map snd ms)"
proof -
  have "comparator cf" using assms(2,3) by unfold_locales
  then show ?thesis using sort_rep [OF assms(1), of cf] by metis
qed

theorem zend_llist_sort_sorts_witness:
  "llist_rep two_heap two_list [(0, 4), (1, 3)] \<and>
    (\<exists>h' l' ms. zend_llist_sort (\<lambda>x y. x - y) two_heap two_list = Some (h', l') \<and> llist_rep h' l' ms \<and>
      mset ms = {#(0, 4), (1, 3)#})"
  using two_rep zend_llist_sort_sorts [OF two_rep, of "\<lambda>x y. x - y"] by auto

end
