(* ===== verification/Zend_Stack.thy ===== *)
theory Zend_Stack
  imports Prelude
begin

text \<open>
  \<open>Zend/zend_stack.c\<close> and \<open>Zend/zend_ptr_stack.c\<close>: the two growing arrays the compiler and the
  executor use as stacks. A buffer is a list of cells, \<open>None\<close> in a cell that was never written; the
  empty buffer is the null pointer. An operation that touches memory returns \<open>None\<close> when it would
  touch a cell outside the buffer. Both stacks are shown to be instances of one interface.
\<close>

section \<open>The interface\<close>

locale lifo =
  fixes wf :: "'s \<Rightarrow> bool" and elems :: "'s \<Rightarrow> 'a list"
    and init :: 's and push :: "'a \<Rightarrow> 's \<Rightarrow> 's option" and pop :: "'s \<Rightarrow> ('a \<times> 's) option"
  assumes init_ok: "wf init" "elems init = []"
    and push_ok: "wf s \<Longrightarrow> \<exists>s'. push x s = Some s' \<and> wf s' \<and> elems s' = x # elems s"
    and pop_ok: "wf s \<Longrightarrow> elems s = x # xs \<Longrightarrow> \<exists>s'. pop s = Some (x, s') \<and> wf s' \<and> elems s' = xs"
begin

fun push_all :: "'a list \<Rightarrow> 's \<Rightarrow> 's option" where
  "push_all [] s = Some s"
| "push_all (x # xs) s = (case push x s of None \<Rightarrow> None | Some s' \<Rightarrow> push_all xs s')"

fun pop_n :: "nat \<Rightarrow> 's \<Rightarrow> ('a list \<times> 's) option" where
  "pop_n 0 s = Some ([], s)"
| "pop_n (Suc n) s =
     (case pop s of
        None \<Rightarrow> None
      | Some (x, s') \<Rightarrow> (case pop_n n s' of None \<Rightarrow> None | Some (xs, s'') \<Rightarrow> Some (x # xs, s'')))"

lemma push_all_ok: "wf s \<Longrightarrow> \<exists>s'. push_all xs s = Some s' \<and> wf s' \<and> elems s' = rev xs @ elems s"
proof (induction xs arbitrary: s)
  case (Cons x xs)
  from push_ok [OF Cons.prems, of x] obtain s1 where s1: "push x s = Some s1" "wf s1" "elems s1 = x # elems s"
    by blast
  from Cons.IH [OF s1(2)] s1 show ?case by auto
qed simp

lemma pop_n_ok:
  "wf s \<Longrightarrow> elems s = xs @ ys \<Longrightarrow> \<exists>s'. pop_n (length xs) s = Some (xs, s') \<and> wf s' \<and> elems s' = ys"
proof (induction xs arbitrary: s)
  case (Cons x xs)
  from pop_ok [OF Cons.prems(1)] Cons.prems(2) obtain s1
    where s1: "pop s = Some (x, s1)" "wf s1" "elems s1 = xs @ ys" by auto
  from Cons.IH [OF s1(2,3)] s1(1) show ?case by auto
qed simp

text \<open>What was pushed comes back in reverse order, and the rest is as before.\<close>

lemma push_pop:
  assumes "wf s"
  shows "\<exists>s1 s2. push_all xs s = Some s1 \<and> pop_n (length xs) s1 = Some (rev xs, s2) \<and>
    wf s2 \<and> elems s2 = elems s"
proof -
  obtain s1 where s1: "push_all xs s = Some s1" "wf s1" "elems s1 = rev xs @ elems s"
    using push_all_ok [OF assms] by blast
  with pop_n_ok [OF s1(2,3)] show ?thesis by auto
qed

end

section \<open>\<open>zend_stack\<close>\<close>

abbreviation STACK_BLOCK_SIZE :: nat where "STACK_BLOCK_SIZE \<equiv> 16"

record 'a zend_stack =
  st_top :: int
  st_max :: int
  st_elements :: "'a option list"

definition zend_stack_init :: "'a zend_stack" where
  "zend_stack_init = \<lparr>st_top = 0, st_max = 0, st_elements = []\<rparr>"

text \<open>\<open>ZEND_STACK_ELEMENT(stack, n)\<close>, read: \<open>None\<close> outside the buffer or in an unwritten cell.\<close>

definition stack_read :: "'a zend_stack \<Rightarrow> int \<Rightarrow> 'a option" where
  "stack_read stack n =
     (if 0 \<le> n \<and> n < int (length (st_elements stack)) then st_elements stack ! nat n else None)"

definition zend_stack_push :: "'a zend_stack \<Rightarrow> 'a \<Rightarrow> ('a zend_stack \<times> int) option" where
  "zend_stack_push stack element =
     (let stack = (if st_top stack \<ge> st_max stack
                   then stack\<lparr>st_max := st_max stack + int STACK_BLOCK_SIZE,
                              st_elements := st_elements stack @ replicate STACK_BLOCK_SIZE None\<rparr>
                   else stack)
      in if 0 \<le> st_top stack \<and> st_top stack < int (length (st_elements stack))
         then Some (stack\<lparr>st_elements := (st_elements stack)[nat (st_top stack) := Some element],
                          st_top := st_top stack + 1\<rparr>, st_top stack)
         else None)"

text \<open>\<open>zend_stack_top\<close>; \<open>None\<close> is the null pointer.\<close>

definition zend_stack_top :: "'a zend_stack \<Rightarrow> 'a option" where
  "zend_stack_top stack = (if st_top stack > 0 then stack_read stack (st_top stack - 1) else None)"

definition zend_stack_del_top :: "'a zend_stack \<Rightarrow> 'a zend_stack" where
  "zend_stack_del_top stack = stack\<lparr>st_top := st_top stack - 1\<rparr>"

definition zend_stack_int_top :: "int zend_stack \<Rightarrow> int" where
  "zend_stack_int_top stack = (case zend_stack_top stack of Some e \<Rightarrow> e | None \<Rightarrow> -1)"

definition zend_stack_is_empty :: "'a zend_stack \<Rightarrow> bool" where
  "zend_stack_is_empty stack = (st_top stack = 0)"

definition zend_stack_destroy :: "'a zend_stack \<Rightarrow> 'a zend_stack" where
  "zend_stack_destroy stack = stack\<lparr>st_elements := []\<rparr>"

definition zend_stack_count :: "'a zend_stack \<Rightarrow> int" where
  "zend_stack_count stack = st_top stack"

text \<open>
  A callback gets a pointer to an element: it returns what it leaves there, the state it changed and
  the C return value. \<open>apply_at\<close> runs it on the cells of the given indices, in order, until it
  returns true.
\<close>

primrec apply_at :: "('a \<Rightarrow> 's \<Rightarrow> 'a \<times> 's \<times> bool) \<Rightarrow> nat list \<Rightarrow> 'a option list \<Rightarrow> 's \<Rightarrow>
    ('a option list \<times> 's) option" where
  "apply_at f [] es s = Some (es, s)"
| "apply_at f (i # is) es s =
     (if i < length es then
        (case es ! i of
           None \<Rightarrow> None
         | Some e \<Rightarrow>
             let (e', s', stop) = f e s; es' = es[i := Some e']
             in if stop then Some (es', s') else apply_at f is es' s')
      else None)"

datatype apply_type = ZEND_STACK_APPLY_TOPDOWN | ZEND_STACK_APPLY_BOTTOMUP

definition zend_stack_apply :: "'a zend_stack \<Rightarrow> apply_type \<Rightarrow> ('a \<Rightarrow> 's \<Rightarrow> 'a \<times> 's \<times> bool) \<Rightarrow> 's \<Rightarrow>
    ('a zend_stack \<times> 's) option" where
  "zend_stack_apply stack type f s =
     map_option (\<lambda>(es, s). (stack\<lparr>st_elements := es\<rparr>, s))
       (apply_at f (case type of
                      ZEND_STACK_APPLY_TOPDOWN \<Rightarrow> rev [0..<nat (st_top stack)]
                    | ZEND_STACK_APPLY_BOTTOMUP \<Rightarrow> [0..<nat (st_top stack)]) (st_elements stack) s)"

definition zend_stack_apply_with_argument :: "'a zend_stack \<Rightarrow> apply_type \<Rightarrow>
    ('a \<Rightarrow> 'b \<Rightarrow> 's \<Rightarrow> 'a \<times> 's \<times> bool) \<Rightarrow> 'b \<Rightarrow> 's \<Rightarrow> ('a zend_stack \<times> 's) option" where
  "zend_stack_apply_with_argument stack type f arg s = zend_stack_apply stack type (\<lambda>e. f e arg) s"

text \<open>\<open>zend_stack_clean\<close>; a null \<open>func\<close> is \<open>None\<close>.\<close>

definition zend_stack_clean :: "'a zend_stack \<Rightarrow> ('a \<Rightarrow> 's \<Rightarrow> 'a \<times> 's) option \<Rightarrow> bool \<Rightarrow> 's \<Rightarrow>
    ('a zend_stack \<times> 's) option" where
  "zend_stack_clean stack func free_elements s =
     (case (case func of
              None \<Rightarrow> Some (stack, s)
            | Some f \<Rightarrow> zend_stack_apply stack ZEND_STACK_APPLY_BOTTOMUP
                          (\<lambda>e s. let (e, s) = f e s in (e, s, False)) s) of
        None \<Rightarrow> None
      | Some (stack, s) \<Rightarrow>
          Some (if free_elements then stack\<lparr>st_elements := [], st_top := 0, st_max := 0\<rparr> else stack, s))"

subsection \<open>Invariant and contents\<close>

text \<open>The buffer has \<open>max\<close> cells, the first \<open>top\<close> of them written.\<close>

definition stack_wf :: "'a zend_stack \<Rightarrow> bool" where
  "stack_wf stack = (0 \<le> st_top stack \<and> st_top stack \<le> st_max stack \<and>
     st_max stack = int (length (st_elements stack)) \<and> None \<notin> set (take (nat (st_top stack)) (st_elements stack)))"

definition stack_elems :: "'a zend_stack \<Rightarrow> 'a list" where
  "stack_elems stack = rev (map the (take (nat (st_top stack)) (st_elements stack)))"

lemma zend_stack_init_ok: "stack_wf zend_stack_init" "stack_elems zend_stack_init = []"
  by (simp_all add: stack_wf_def stack_elems_def zend_stack_init_def)

lemma zend_stack_push_ok:
  assumes "stack_wf st"
  obtains st' where "zend_stack_push st x = Some (st', st_top st)" and "stack_wf st'"
    and "stack_elems st' = x # stack_elems st"
proof -
  define es where "es = (if st_top st \<ge> st_max st then st_elements st @ replicate 16 None else st_elements st)"
  define n where "n = nat (st_top st)"
  have t: "st_top st = int n" "n \<le> length (st_elements st)" "st_max st = int (length (st_elements st))"
    and w: "None \<notin> set (take n (st_elements st))"
    using assms by (auto simp: stack_wf_def n_def)
  have n: "n < length es" and tk: "take n es = take n (st_elements st)" using t by (auto simp: es_def)
  define st' where "st' = \<lparr>st_top = int n + 1, st_max = int (length es), st_elements = es[n := Some x]\<rparr>"
  have "zend_stack_push st x = Some (st', st_top st)"
    using n t(3) by (auto simp: zend_stack_push_def Let_def es_def st'_def t(1))
  moreover have u: "take (Suc n) (es[n := Some x]) = take n (st_elements st) @ [Some x]"
    using n tk by (simp add: take_Suc_conv_app_nth)
  then have "stack_wf st'" using n w by (auto simp: stack_wf_def st'_def nat_add_distrib)
  moreover have "stack_elems st' = x # stack_elems st"
    using u by (simp add: stack_elems_def st'_def nat_add_distrib flip: n_def)
  ultimately show thesis using that by blast
qed

lemma zend_stack_top_ok:
  assumes "stack_wf st"
  shows "zend_stack_top st = (case stack_elems st of [] \<Rightarrow> None | x # _ \<Rightarrow> Some x)"
    and "stack_elems st = x # xs \<Longrightarrow> stack_wf (zend_stack_del_top st) \<and> stack_elems (zend_stack_del_top st) = xs"
proof -
  define n where "n = nat (st_top st)"
  have t: "st_top st = int n" "n \<le> length (st_elements st)" "st_max st = int (length (st_elements st))"
    and w: "None \<notin> set (take n (st_elements st))"
    using assms by (auto simp: stack_wf_def n_def)
  have e: "stack_elems st = rev (map the (take n (st_elements st)))" by (simp add: stack_elems_def n_def)
  have last: "take n (st_elements st) = take (n - 1) (st_elements st) @ [st_elements st ! (n - 1)]" if "0 < n"
    using that t(2) take_Suc_conv_app_nth [of "n - 1" "st_elements st"] by simp
  have some: "st_elements st ! (n - 1) = Some (the (st_elements st ! (n - 1)))" if "0 < n"
  proof -
    have "st_elements st ! (n - 1) \<in> set (take n (st_elements st))" using last [OF that] by simp
    then show ?thesis using w by (metis option.collapse)
  qed
  show "zend_stack_top st = (case stack_elems st of [] \<Rightarrow> None | x # _ \<Rightarrow> Some x)"
  proof (cases "n = 0")
    case False
    then have "nat (int n - 1) = n - 1" "int n - 1 < int (length (st_elements st))" using t(2) by auto
    then show ?thesis using False last some by (simp add: zend_stack_top_def stack_read_def t(1) e)
  qed (simp add: zend_stack_top_def t(1) e)
  show "stack_wf (zend_stack_del_top st) \<and> stack_elems (zend_stack_del_top st) = xs"
    if "stack_elems st = x # xs"
  proof -
    have n0: "0 < n" using that e by (cases n) auto
    then have "nat (int n - 1) = n - 1" by simp
    moreover have "None \<notin> set (take (n - 1) (st_elements st))" using w last [OF n0] by auto
    moreover have "xs = rev (map the (take (n - 1) (st_elements st)))" using that e last [OF n0] by simp
    ultimately show ?thesis
      using n0 t by (simp add: stack_wf_def stack_elems_def zend_stack_del_top_def)
  qed
qed

definition stack_pop :: "'a zend_stack \<Rightarrow> ('a \<times> 'a zend_stack) option" where
  "stack_pop stack = map_option (\<lambda>e. (e, zend_stack_del_top stack)) (zend_stack_top stack)"

interpretation zs: lifo stack_wf stack_elems zend_stack_init
  "\<lambda>x s. map_option fst (zend_stack_push s x)" stack_pop
proof (unfold_locales, goal_cases)
  case (3 s x)
  from zend_stack_push_ok [OF 3, of x] obtain s' where "zend_stack_push s x = Some (s', st_top s)"
    "stack_wf s'" "stack_elems s' = x # stack_elems s" .
  then show ?case by auto
next
  case (4 s x xs)
  then show ?case using zend_stack_top_ok [OF 4(1)] by (simp add: stack_pop_def)
qed (simp_all add: zend_stack_init_ok)

subsection \<open>Callbacks\<close>

text \<open>On a well-formed stack every visited cell is written, so a callback loop never fails; without
  an early stop it visits each element once, in the order of the indices.\<close>

lemma apply_at_safe:
  assumes "\<forall>i\<in>set ks. i < length es \<and> es ! i \<noteq> None"
  obtains es' s' where "apply_at f ks es s = Some (es', s')" and "length es' = length es"
    and "\<forall>k. es' ! k = None \<longleftrightarrow> es ! k = None" and "\<forall>k. k \<notin> set ks \<longrightarrow> es' ! k = es ! k"
  using assms
proof (induction ks arbitrary: es s thesis)
  case (Cons i ks)
  then obtain e where e: "es ! i = Some e" "i < length es" by auto
  obtain e' s1 b where f: "f e s = (e', s1, b)" by (metis prod_cases3)
  let ?es = "es[i := Some e']"
  have n: "\<forall>k. ?es ! k = None \<longleftrightarrow> es ! k = None" using e by (auto simp: nth_list_update)
  show ?case
  proof (cases b)
    case True
    then show ?thesis using e f n by (intro Cons.prems(1) [of ?es s1]) (auto simp: nth_list_update)
  next
    case False
    have "\<forall>j\<in>set ks. j < length ?es \<and> ?es ! j \<noteq> None" using Cons.prems(2) n by auto
    with Cons.IH obtain es' s' where r: "apply_at f ks ?es s1 = Some (es', s')" "length es' = length ?es"
      "\<forall>k. es' ! k = None \<longleftrightarrow> ?es ! k = None" "\<forall>k. k \<notin> set ks \<longrightarrow> es' ! k = ?es ! k" by blast
    then show ?thesis using e f False n
      by (intro Cons.prems(1) [of es' s']) (auto simp: nth_list_update)
  qed
next
  case Nil
  show ?case by (rule Nil.prems(1) [of es s]) simp_all
qed

lemma stack_wf_cells:
  "stack_wf st \<Longrightarrow> i < nat (st_top st) \<Longrightarrow> i < length (st_elements st) \<and> st_elements st ! i \<noteq> None"
  by (auto simp: stack_wf_def in_set_conv_nth)

lemma zend_stack_apply_wf:
  assumes "stack_wf st"
  obtains st' s' where "zend_stack_apply st type f s = Some (st', s')" and "stack_wf st'"
    and "st_top st' = st_top st"
proof -
  define ks where "ks = (case type of ZEND_STACK_APPLY_TOPDOWN \<Rightarrow> rev [0..<nat (st_top st)]
      | ZEND_STACK_APPLY_BOTTOMUP \<Rightarrow> [0..<nat (st_top st)])"
  have "set ks = {0..<nat (st_top st)}" by (cases type) (simp_all add: ks_def)
  then have "\<forall>i\<in>set ks. i < length (st_elements st) \<and> st_elements st ! i \<noteq> None"
    using stack_wf_cells [OF assms] by auto
  then obtain es' s' where r: "apply_at f ks (st_elements st) s = Some (es', s')"
    "length es' = length (st_elements st)" "\<forall>k. es' ! k = None \<longleftrightarrow> st_elements st ! k = None"
    by (rule apply_at_safe)
  have "stack_wf (st\<lparr>st_elements := es'\<rparr>)"
    using assms r(2,3) by (auto simp: stack_wf_def in_set_conv_nth) (metis not_None_eq)
  then show thesis using that r(1) by (simp add: zend_stack_apply_def ks_def)
qed

section \<open>\<open>zend_ptr_stack\<close>\<close>

abbreviation PTR_STACK_BLOCK_SIZE :: nat where "PTR_STACK_BLOCK_SIZE \<equiv> 64"

text \<open>\<open>top_element\<close> is the offset of the pointer from \<open>elements\<close>.\<close>

record 'a ptr_stack =
  ps_top :: int
  ps_max :: int
  ps_elements :: "'a option list"
  ps_top_element :: int

definition zend_ptr_stack_init :: "'a ptr_stack" where
  "zend_ptr_stack_init = \<lparr>ps_top = 0, ps_max = 0, ps_elements = [], ps_top_element = 0\<rparr>"

text \<open>\<open>do { max += PTR_STACK_BLOCK_SIZE; } while (top+count > max);\<close>\<close>

function grow_max :: "int \<Rightarrow> int \<Rightarrow> int" where
  "grow_max need mx =
     (let mx = mx + int PTR_STACK_BLOCK_SIZE in if need > mx then grow_max need mx else mx)"
  by pat_completeness auto
termination
  by (relation "measure (\<lambda>(need, mx). nat (need - mx))") auto

declare grow_max.simps [simp del]

definition ptr_stack_resize :: "'a ptr_stack \<Rightarrow> int \<Rightarrow> 'a ptr_stack" where
  "ptr_stack_resize stack cnt =
     (if ps_top stack + cnt > ps_max stack then
        let mx = grow_max (ps_top stack + cnt) (ps_max stack)
        in stack\<lparr>ps_max := mx,
                 ps_elements := ps_elements stack @ replicate (nat (mx - int (length (ps_elements stack)))) None,
                 ps_top_element := ps_top stack\<rparr>
      else stack)"

text \<open>\<open>stack->top++; *(stack->top_element++) = elem;\<close>\<close>

definition ptr_store :: "'a ptr_stack \<Rightarrow> 'a \<Rightarrow> 'a ptr_stack option" where
  "ptr_store stack elem =
     (if 0 \<le> ps_top_element stack \<and> ps_top_element stack < int (length (ps_elements stack))
      then Some (stack\<lparr>ps_top := ps_top stack + 1,
                       ps_elements := (ps_elements stack)[nat (ps_top_element stack) := Some elem],
                       ps_top_element := ps_top_element stack + 1\<rparr>)
      else None)"

primrec ptr_store_all :: "'a ptr_stack \<Rightarrow> 'a list \<Rightarrow> 'a ptr_stack option" where
  "ptr_store_all stack [] = Some stack"
| "ptr_store_all stack (e # es) =
     (case ptr_store stack e of None \<Rightarrow> None | Some stack \<Rightarrow> ptr_store_all stack es)"

text \<open>\<open>zend_ptr_stack_n_push\<close>; the variadic arguments are the list.\<close>

definition zend_ptr_stack_n_push :: "'a ptr_stack \<Rightarrow> 'a list \<Rightarrow> 'a ptr_stack option" where
  "zend_ptr_stack_n_push stack es = ptr_store_all (ptr_stack_resize stack (int (length es))) es"

definition zend_ptr_stack_push :: "'a ptr_stack \<Rightarrow> 'a \<Rightarrow> 'a ptr_stack option" where
  "zend_ptr_stack_push stack ptr = ptr_store (ptr_stack_resize stack 1) ptr"

definition zend_ptr_stack_pop :: "'a ptr_stack \<Rightarrow> ('a \<times> 'a ptr_stack) option" where
  "zend_ptr_stack_pop stack =
     (let stack = stack\<lparr>ps_top := ps_top stack - 1, ps_top_element := ps_top_element stack - 1\<rparr>
      in if 0 \<le> ps_top_element stack \<and> ps_top_element stack < int (length (ps_elements stack))
         then map_option (\<lambda>e. (e, stack)) (ps_elements stack ! nat (ps_top_element stack))
         else None)"

primrec zend_ptr_stack_n_pop :: "'a ptr_stack \<Rightarrow> nat \<Rightarrow> ('a list \<times> 'a ptr_stack) option" where
  "zend_ptr_stack_n_pop stack 0 = Some ([], stack)"
| "zend_ptr_stack_n_pop stack (Suc n) =
     (case zend_ptr_stack_pop stack of
        None \<Rightarrow> None
      | Some (e, stack) \<Rightarrow>
          (case zend_ptr_stack_n_pop stack n of
             None \<Rightarrow> None
           | Some (es, stack) \<Rightarrow> Some (e # es, stack)))"

text \<open>The unrolled variants: \<open>top\<close> moves by two or three at once, \<open>top_element\<close> step by step.\<close>

definition ptr_poke :: "'a ptr_stack \<Rightarrow> 'a \<Rightarrow> 'a ptr_stack option" where
  "ptr_poke stack elem =
     map_option (\<lambda>st. st\<lparr>ps_top := ps_top stack\<rparr>) (ptr_store stack elem)"

definition zend_ptr_stack_2_push :: "'a ptr_stack \<Rightarrow> 'a \<Rightarrow> 'a \<Rightarrow> 'a ptr_stack option" where
  "zend_ptr_stack_2_push stack a b =
     (let stack = ptr_stack_resize stack 2
      in Option.bind (ptr_poke (stack\<lparr>ps_top := ps_top stack + 2\<rparr>) a) (\<lambda>st. ptr_poke st b))"

definition zend_ptr_stack_3_push :: "'a ptr_stack \<Rightarrow> 'a \<Rightarrow> 'a \<Rightarrow> 'a \<Rightarrow> 'a ptr_stack option" where
  "zend_ptr_stack_3_push stack a b c =
     (let stack = ptr_stack_resize stack 3
      in Option.bind (ptr_poke (stack\<lparr>ps_top := ps_top stack + 3\<rparr>) a) (\<lambda>st.
           Option.bind (ptr_poke st b) (\<lambda>st. ptr_poke st c)))"

definition zend_ptr_stack_2_pop :: "'a ptr_stack \<Rightarrow> (('a \<times> 'a) \<times> 'a ptr_stack) option" where
  "zend_ptr_stack_2_pop stack =
     Option.bind (zend_ptr_stack_pop stack) (\<lambda>(a, st).
     Option.bind (zend_ptr_stack_pop st) (\<lambda>(b, st). Some ((a, b), st\<lparr>ps_top := ps_top stack - 2\<rparr>)))"

definition zend_ptr_stack_3_pop :: "'a ptr_stack \<Rightarrow> (('a \<times> 'a \<times> 'a) \<times> 'a ptr_stack) option" where
  "zend_ptr_stack_3_pop stack =
     Option.bind (zend_ptr_stack_pop stack) (\<lambda>(a, st).
     Option.bind (zend_ptr_stack_pop st) (\<lambda>(b, st).
     Option.bind (zend_ptr_stack_pop st) (\<lambda>(c, st).
       Some ((a, b, c), st\<lparr>ps_top := ps_top stack - 3\<rparr>))))"

text \<open>\<open>zend_ptr_stack_destroy\<close> frees the buffer and leaves the rest of the header.\<close>

definition zend_ptr_stack_destroy :: "'a ptr_stack \<Rightarrow> 'a ptr_stack" where
  "zend_ptr_stack_destroy stack = stack\<lparr>ps_elements := []\<rparr>"

definition zend_ptr_stack_top :: "'a ptr_stack \<Rightarrow> 'a option" where
  "zend_ptr_stack_top stack =
     (if 0 < ps_top stack \<and> ps_top stack \<le> int (length (ps_elements stack))
      then ps_elements stack ! nat (ps_top stack - 1) else None)"

text \<open>\<open>zend_ptr_stack_apply\<close> goes from the top down, \<open>zend_ptr_stack_reverse_apply\<close> up; the callback
  gets the stored pointer itself, so the cells stay as they are.\<close>

definition ptr_apply :: "('a \<Rightarrow> 's \<Rightarrow> 's) \<Rightarrow> nat list \<Rightarrow> 'a option list \<Rightarrow> 's \<Rightarrow> 's option" where
  "ptr_apply f is es s = map_option snd (apply_at (\<lambda>e s. (e, f e s, False)) is es s)"

definition zend_ptr_stack_apply :: "'a ptr_stack \<Rightarrow> ('a \<Rightarrow> 's \<Rightarrow> 's) \<Rightarrow> 's \<Rightarrow> 's option" where
  "zend_ptr_stack_apply stack f s = ptr_apply f (rev [0..<nat (ps_top stack)]) (ps_elements stack) s"

definition zend_ptr_stack_reverse_apply :: "'a ptr_stack \<Rightarrow> ('a \<Rightarrow> 's \<Rightarrow> 's) \<Rightarrow> 's \<Rightarrow> 's option" where
  "zend_ptr_stack_reverse_apply stack f s = ptr_apply f [0..<nat (ps_top stack)] (ps_elements stack) s"

text \<open>\<open>zend_ptr_stack_clean\<close>: the callback on every element, then, when asked to, \<open>pefree\<close> on every
  element, both from the top down.\<close>

definition zend_ptr_stack_clean :: "'a ptr_stack \<Rightarrow> ('a \<Rightarrow> 's \<Rightarrow> 's) \<Rightarrow> ('a \<Rightarrow> 's \<Rightarrow> 's) \<Rightarrow> bool \<Rightarrow> 's \<Rightarrow>
    ('a ptr_stack \<times> 's) option" where
  "zend_ptr_stack_clean stack func pefree free_elements s =
     (case zend_ptr_stack_apply stack func s of
        None \<Rightarrow> None
      | Some s \<Rightarrow>
          (case (if free_elements then zend_ptr_stack_apply stack pefree s else Some s) of
             None \<Rightarrow> None
           | Some s \<Rightarrow> Some (stack\<lparr>ps_top := 0, ps_top_element := 0\<rparr>, s)))"

definition zend_ptr_stack_num_elements :: "'a ptr_stack \<Rightarrow> int" where
  "zend_ptr_stack_num_elements stack = ps_top stack"

subsection \<open>Invariant and contents\<close>

definition ptr_wf :: "'a ptr_stack \<Rightarrow> bool" where
  "ptr_wf stack = (0 \<le> ps_top stack \<and> ps_top stack \<le> ps_max stack \<and> ps_top_element stack = ps_top stack \<and>
     ps_max stack = int (length (ps_elements stack)) \<and>
     None \<notin> set (take (nat (ps_top stack)) (ps_elements stack)))"

definition ptr_elems :: "'a ptr_stack \<Rightarrow> 'a list" where
  "ptr_elems stack = rev (map the (take (nat (ps_top stack)) (ps_elements stack)))"

lemma grow_max_ge: "need \<le> grow_max need mx" "mx < grow_max need mx"
proof (induction need mx rule: grow_max.induct)
  case (1 need mx)
  { case 1 then show ?case using "1.IH" by (subst grow_max.simps) (auto simp: Let_def) }
  { case 2 then show ?case using "1.IH" by (subst grow_max.simps) (auto simp: Let_def) }
qed

lemma ptr_stack_resize_ok:
  assumes "ptr_wf st" and "0 \<le> n"
  shows "ptr_wf (ptr_stack_resize st n)" and "ptr_elems (ptr_stack_resize st n) = ptr_elems st"
    and "ps_top (ptr_stack_resize st n) = ps_top st"
    and "ps_top st + n \<le> int (length (ps_elements (ptr_stack_resize st n)))"
  using assms grow_max_ge [where need = "ps_top st + n" and mx = "ps_max st"]
  by (auto simp: ptr_stack_resize_def ptr_wf_def ptr_elems_def Let_def)

lemma ptr_store_ok:
  assumes "ptr_wf st" and "ps_top st < int (length (ps_elements st))"
  obtains st' where "ptr_store st x = Some st'" and "ptr_wf st'" and "ptr_elems st' = x # ptr_elems st"
    and "ps_top st' = ps_top st + 1" and "length (ps_elements st') = length (ps_elements st)"
proof -
  define n where "n = nat (ps_top st)"
  have t: "ps_top st = int n" "ps_top_element st = int n" "n < length (ps_elements st)"
    "ps_max st = int (length (ps_elements st))" and w: "None \<notin> set (take n (ps_elements st))"
    using assms by (auto simp: ptr_wf_def n_def)
  define st' where "st' = st\<lparr>ps_top := int n + 1, ps_elements := (ps_elements st)[n := Some x],
    ps_top_element := int n + 1\<rparr>"
  have "ptr_store st x = Some st'" using t by (simp add: ptr_store_def st'_def)
  moreover have u: "take (Suc n) ((ps_elements st)[n := Some x]) = take n (ps_elements st) @ [Some x]"
    using t by (simp add: take_Suc_conv_app_nth)
  then have "ptr_wf st'" using t w by (auto simp: ptr_wf_def st'_def nat_add_distrib)
  moreover have "ptr_elems st' = x # ptr_elems st"
    using u by (simp add: ptr_elems_def st'_def nat_add_distrib flip: n_def)
  ultimately show thesis using that t by (auto simp: st'_def)
qed

lemma ptr_store_all_ok:
  assumes "ptr_wf st" and "ps_top st + int (length es) \<le> int (length (ps_elements st))"
  obtains st' where "ptr_store_all st es = Some st'" and "ptr_wf st'" and "ptr_elems st' = rev es @ ptr_elems st"
  using assms
proof (induction es arbitrary: st thesis)
  case (Cons e es)
  obtain s1 where s1: "ptr_store st e = Some s1" "ptr_wf s1" "ptr_elems s1 = e # ptr_elems st"
    "ps_top s1 = ps_top st + 1" "length (ps_elements s1) = length (ps_elements st)"
    using Cons.prems(3) by (rule_tac ptr_store_ok [OF Cons.prems(2), of e]) auto
  obtain s2 where "ptr_store_all s1 es = Some s2" "ptr_wf s2" "ptr_elems s2 = rev es @ ptr_elems s1"
    using Cons.IH [of s1] s1 Cons.prems(3) by auto
  then show ?case using Cons.prems(1) [of s2] s1 by simp
qed simp

lemma zend_ptr_stack_pop_ok:
  assumes "ptr_wf st" and "ptr_elems st = x # xs"
  obtains st' where "zend_ptr_stack_pop st = Some (x, st')" and "ptr_wf st'" and "ptr_elems st' = xs"
proof -
  define n where "n = nat (ps_top st)"
  have t: "ps_top st = int n" "ps_top_element st = int n" "n \<le> length (ps_elements st)"
    "ps_max st = int (length (ps_elements st))" and w: "None \<notin> set (take n (ps_elements st))"
    using assms by (auto simp: ptr_wf_def n_def)
  have e: "ptr_elems st = rev (map the (take n (ps_elements st)))" by (simp add: ptr_elems_def n_def)
  then obtain m where m: "n = Suc m" using assms(2) by (cases n) auto
  have last: "take n (ps_elements st) = take m (ps_elements st) @ [ps_elements st ! m]"
    using t(3) m by (simp add: take_Suc_conv_app_nth)
  have "the (ps_elements st ! m) = x" and x2: "xs = rev (map the (take m (ps_elements st)))"
    using assms(2) e last by auto
  moreover have "ps_elements st ! m \<noteq> None" using w last by (metis in_set_conv_decomp)
  ultimately have x: "ps_elements st ! m = Some x" by (metis option.collapse)
  have "zend_ptr_stack_pop st = Some (x, st\<lparr>ps_top := int m, ps_top_element := int m\<rparr>)"
    using t m x by (simp add: zend_ptr_stack_pop_def)
  moreover have "ptr_wf (st\<lparr>ps_top := int m, ps_top_element := int m\<rparr>)"
    using t m w last by (auto simp: ptr_wf_def)
  ultimately show thesis using that x2 by (simp add: ptr_elems_def)
qed

interpretation zps: lifo ptr_wf ptr_elems zend_ptr_stack_init "\<lambda>x s. zend_ptr_stack_push s x" zend_ptr_stack_pop
proof (unfold_locales, goal_cases)
  case (3 s x)
  have "ps_top (ptr_stack_resize s 1) < int (length (ps_elements (ptr_stack_resize s 1)))"
    using ptr_stack_resize_ok [OF 3, of 1] by simp
  from ptr_store_ok [OF _ this, of x] ptr_stack_resize_ok(1,2) [OF 3, of 1] show ?case
    by (metis zend_ptr_stack_push_def zero_le_one)
next
  case (4 s x xs)
  then show ?case using zend_ptr_stack_pop_ok by metis
qed (simp_all add: ptr_wf_def ptr_elems_def zend_ptr_stack_init_def)

lemma n_pop_eq: "zend_ptr_stack_n_pop st n = zps.pop_n n st"
  by (induction n arbitrary: st) (auto split: option.splits)

text \<open>The unrolled variants do what the loops do.\<close>

lemma ptr_unrolled:
  "zend_ptr_stack_2_push st a b = zend_ptr_stack_n_push st [a, b]"
  "zend_ptr_stack_3_push st a b c = zend_ptr_stack_n_push st [a, b, c]"
  "zend_ptr_stack_2_pop st = map_option (\<lambda>(es, st). ((es ! 0, es ! 1), st)) (zend_ptr_stack_n_pop st 2)"
  "zend_ptr_stack_3_pop st = map_option (\<lambda>(es, st). ((es ! 0, es ! 1, es ! 2), st)) (zend_ptr_stack_n_pop st 3)"
  by (auto simp: zend_ptr_stack_2_push_def zend_ptr_stack_3_push_def zend_ptr_stack_n_push_def
      zend_ptr_stack_2_pop_def zend_ptr_stack_3_pop_def numeral_2_eq_2 numeral_3_eq_3
      ptr_poke_def ptr_store_def Let_def zend_ptr_stack_pop_def split: option.splits bind_splits if_splits)

section \<open>Properties of the stacks\<close>

text \<open>On a stack whose buffer is intact, pushing never writes outside the buffer, it returns the
  index of the new element, and the pushed elements come back in reverse order by reading the top
  and deleting it, after which the stack holds what it held before.\<close>

theorem zend_stack_lifo:
  assumes "stack_wf st"
  shows "(\<exists>st'. zend_stack_push st x = Some (st', zend_stack_count st) \<and> stack_wf st' \<and>
      zend_stack_top st' = Some x \<and> stack_wf (zend_stack_del_top st') \<and>
      stack_elems (zend_stack_del_top st') = stack_elems st)"
proof -
  obtain st' where s: "zend_stack_push st x = Some (st', st_top st)" "stack_wf st'"
    "stack_elems st' = x # stack_elems st" by (rule zend_stack_push_ok [OF assms])
  with zend_stack_top_ok [OF s(2)] show ?thesis by (auto simp: zend_stack_count_def)
qed

theorem zend_stack_lifo_witness:
  "stack_wf (zend_stack_init :: int zend_stack) \<and>
    (\<exists>st'. zend_stack_push zend_stack_init (7 :: int) = Some (st', 0) \<and> zend_stack_top st' = Some 7)"
  using zend_stack_lifo [of "zend_stack_init :: int zend_stack" 7]
  by (auto simp: zend_stack_init_ok zend_stack_count_def) (auto simp: zend_stack_init_def)

text \<open>\<open>zend_stack_apply\<close>, in either direction and with any callback, reads only written cells and
  keeps the stack intact and of the same height.\<close>

theorem zend_stack_apply_safe:
  assumes "stack_wf st"
  shows "\<exists>st' s'. zend_stack_apply st type f s = Some (st', s') \<and> stack_wf st' \<and>
    zend_stack_count st' = zend_stack_count st"
  using zend_stack_apply_wf [OF assms, of type f s] by (metis zend_stack_count_def)

theorem zend_stack_apply_safe_witness:
  "stack_wf (zend_stack_init :: nat zend_stack) \<and>
    (\<exists>st' s'. zend_stack_apply (zend_stack_init :: nat zend_stack) ZEND_STACK_APPLY_TOPDOWN
      (\<lambda>e s. (e, s + e, False)) 0 = Some (st', s') \<and> stack_wf st')"
  using zend_stack_apply_safe [of "zend_stack_init :: nat zend_stack" ZEND_STACK_APPLY_TOPDOWN
      "\<lambda>e s. (e, s + e, False)" 0] by (auto simp: zend_stack_init_ok)

text \<open>\<open>zend_ptr_stack_n_push\<close> followed by \<open>zend_ptr_stack_n_pop\<close> of as many elements stays
  inside the buffer however often it has to grow, delivers the pushed pointers in reverse order and
  leaves the stack with the contents it had.\<close>

theorem zend_ptr_stack_push_pop:
  assumes "ptr_wf st"
  shows "\<exists>st1 st2. zend_ptr_stack_n_push st es = Some st1 \<and>
    zend_ptr_stack_n_pop st1 (length es) = Some (rev es, st2) \<and> ptr_wf st2 \<and> ptr_elems st2 = ptr_elems st"
proof -
  note r = ptr_stack_resize_ok [OF assms, of "int (length es)"]
  have "ps_top (ptr_stack_resize st (int (length es))) + int (length es)
      \<le> int (length (ps_elements (ptr_stack_resize st (int (length es)))))" using r by simp
  then obtain st1 where s1: "ptr_store_all (ptr_stack_resize st (int (length es))) es = Some st1"
    "ptr_wf st1" "ptr_elems st1 = rev es @ ptr_elems (ptr_stack_resize st (int (length es)))"
    using r(1) by (rule_tac ptr_store_all_ok) auto
  then have "\<exists>st2. zps.pop_n (length (rev es)) st1 = Some (rev es, st2) \<and> ptr_wf st2 \<and> ptr_elems st2 = ptr_elems st"
    using r(2) by (intro zps.pop_n_ok) auto
  then show ?thesis using s1(1) by (simp add: zend_ptr_stack_n_push_def n_pop_eq)
qed

theorem zend_ptr_stack_push_pop_witness:
  "ptr_wf (zend_ptr_stack_init :: nat ptr_stack) \<and>
    (\<exists>st1 st2. zend_ptr_stack_n_push zend_ptr_stack_init [1, 2, 3 :: nat] = Some st1 \<and>
      zend_ptr_stack_n_pop st1 3 = Some ([3, 2, 1], st2) \<and> ptr_elems st2 = [])"
  using zend_ptr_stack_push_pop [of "zend_ptr_stack_init :: nat ptr_stack" "[1, 2, 3]"]
  by (auto simp: ptr_wf_def zend_ptr_stack_init_def ptr_elems_def numeral_3_eq_3)

end
