(* ===== verification/Zend_Hash.thy ===== *)
theory Zend_Hash
  imports Prelude "HOL-Library.Word"
begin

text \<open>
  The hash table of \<open>Zend/zend_hash.c\<close>: ordered arrays that map integers and byte strings to
  values, kept either packed or with collision chains. This theory holds the data structure and its
  operations; \<open>Zend_Hash_Inv\<close> and the theories after it hold the invariant and the proofs.

  \<open>arData\<close> and \<open>arPacked\<close> hold the first \<open>nNumUsed\<close> cells of the bucket array, whose capacity is
  \<open>nTableSize\<close>, so that \<open>nNumUsed\<close> is the length of the list; the cells behind it are not
  initialised, or were emptied by deletions that moved \<open>nNumUsed\<close> down, and only loops that walk backwards
  while they delete look at them. \<open>arHash\<close> is the part of the allocation in front of
  the buckets. Strings are values, so their reference counts and \<open>HASH_FLAG_STATIC_KEYS\<close>, which only
  says whether they have to be released, are left out. Allocation succeeds. A call of the
  destructor is recorded in \<open>dtor_calls\<close>; \<open>pDestructor\<close> says whether the table has one. The
  destructor does not use the table itself. \<open>ht_iterators\<close> lists the positions of the external
  iterators that stand on the table; \<open>cvs\<close> are the variable slots \<open>IS_INDIRECT\<close> values point to.
\<close>

unbundle bit_operations_syntax

section \<open>Data\<close>

datatype 'v zval = IS_UNDEF | IS_NULL | IS_VALUE 'v | IS_INDIRECT nat

text \<open>\<open>Bucket\<close>; \<open>b_next\<close> is \<open>Z_NEXT(val)\<close>, which copying a value leaves alone.\<close>

record 'v bucket =
  b_val :: "'v zval"
  b_next :: nat
  b_h :: "64 word"
  b_key :: "string option"

record 'v HashTable =
  flag_packed :: bool
  flag_uninit :: bool
  flag_empty_ind :: bool
  nTableMask :: "32 word"
  arHash :: "nat list"
  arData :: "'v bucket list"
  arPacked :: "'v zval list"
  nNumOfElements :: nat
  nTableSize :: nat
  nInternalPointer :: nat
  nNextFreeElement :: int
  pDestructor :: bool
  dtor_calls :: "'v zval list"
  ht_iterators :: "nat list"
  cvs :: "nat \<Rightarrow> 'v zval"

abbreviation HT_INVALID_IDX :: nat where "HT_INVALID_IDX \<equiv> 4294967295"
abbreviation HT_MIN_MASK :: "32 word" where "HT_MIN_MASK \<equiv> - 2"
abbreviation HT_MIN_SIZE :: nat where "HT_MIN_SIZE \<equiv> 8"
abbreviation HT_MAX_SIZE :: nat where "HT_MAX_SIZE \<equiv> 0x40000000"

abbreviation overflow_msg :: string where
  "overflow_msg \<equiv> ''Possible integer overflow in memory allocation''"

definition HT_SIZE_TO_MASK :: "nat \<Rightarrow> 32 word" where
  "HT_SIZE_TO_MASK ts = - (word_of_nat (ts + ts))"

definition HT_HASH_SIZE :: "32 word \<Rightarrow> nat" where
  "HT_HASH_SIZE m = unat (- m)"

text \<open>\<open>nIndex = h | nTableMask\<close> read as \<open>int32_t\<close> counts from the end of the hash part, which
  starts at index \<open>nTableMask\<close>: the cell's number from the start is their difference.\<close>

definition ht_slot :: "32 word \<Rightarrow> 64 word \<Rightarrow> nat" where
  "ht_slot m h = unat (ucast (h OR ucast m) - m)"

definition nNumUsed :: "'v HashTable \<Rightarrow> nat" where
  "nNumUsed ht = (if flag_packed ht then length (arPacked ht) else length (arData ht))"

section \<open>Hash of a string\<close>

text \<open>\<open>zend_inline_hash_func\<close>, the version with multiplications; the multiplication by 33 wraps at 64
  bits. Bytes are \<open>char\<close>, signed where the sources are compiled with signed \<open>char\<close>.\<close>

definition byte :: "char \<Rightarrow> 64 word" where
  "byte c = word_of_int (if of_char c < (128 :: int) then of_char c else of_char c - 256)"

fun hash_loop :: "string \<Rightarrow> 64 word \<Rightarrow> 64 word \<times> string" where
  "hash_loop (s0 # s1 # s2 # s3 # s4 # s5 # s6 # s7 # str) hash =
     (let hash = hash * 1185921 + byte s0 * 35937 + byte s1 * 1089 + byte s2 * 33 + byte s3;
          hash = hash * 1185921 + byte s4 * 35937 + byte s5 * 1089 + byte s6 * 33 + byte s7
      in hash_loop str hash)"
| "hash_loop str hash = (hash, str)"

fun hash_four :: "string \<Rightarrow> 64 word \<Rightarrow> 64 word \<times> string" where
  "hash_four (s0 # s1 # s2 # s3 # str) hash =
     (hash * 1185921 + byte s0 * 35937 + byte s1 * 1089 + byte s2 * 33 + byte s3, str)"
| "hash_four str hash = (hash, str)"

fun hash_rest :: "string \<Rightarrow> 64 word \<Rightarrow> 64 word" where
  "hash_rest [s0, s1, s2] hash = hash * 35937 + byte s0 * 1089 + byte s1 * 33 + byte s2"
| "hash_rest [s0, s1] hash = hash * 1089 + byte s0 * 33 + byte s1"
| "hash_rest [s0] hash = hash * 33 + byte s0"
| "hash_rest _ hash = hash"

definition zend_inline_hash_func :: "string \<Rightarrow> 64 word" where
  "zend_inline_hash_func str =
     (let (hash, str) = hash_loop str 5381;
          (hash, str) = hash_four str hash
      in hash_rest str hash OR 0x8000000000000000)"

section \<open>Setting up\<close>

definition zend_hash_check_size :: "32 word \<Rightarrow> nat run" where
  "zend_hash_check_size nSize =
     (if unat nSize \<le> HT_MIN_SIZE then Ret HT_MIN_SIZE
      else if unat nSize \<ge> HT_MAX_SIZE then Fatal overflow_msg
      else
        let nSize = nSize - 1;
            nSize = nSize OR drop_bit 1 nSize;
            nSize = nSize OR drop_bit 2 nSize;
            nSize = nSize OR drop_bit 4 nSize;
            nSize = nSize OR drop_bit 8 nSize;
            nSize = nSize OR drop_bit 16 nSize
        in Ret (unat (nSize + 1)))"

definition HT_HASH_RESET :: "32 word \<Rightarrow> nat list" where
  "HT_HASH_RESET m = replicate (HT_HASH_SIZE m) HT_INVALID_IDX"

definition zend_hash_real_init_packed_ex :: "'v HashTable \<Rightarrow> 'v HashTable" where
  "zend_hash_real_init_packed_ex ht =
     ht\<lparr>flag_packed := True, flag_uninit := False, flag_empty_ind := False,
        arPacked := [], arHash := [HT_INVALID_IDX, HT_INVALID_IDX]\<rparr>"

definition zend_hash_real_init_mixed_ex :: "'v HashTable \<Rightarrow> 'v HashTable" where
  "zend_hash_real_init_mixed_ex ht =
     (let m = HT_SIZE_TO_MASK (nTableSize ht)
      in ht\<lparr>nTableMask := m, flag_packed := False, flag_uninit := False, flag_empty_ind := False,
            arData := [], arHash := HT_HASH_RESET m\<rparr>)"

definition zend_hash_real_init_ex :: "'v HashTable \<Rightarrow> bool \<Rightarrow> 'v HashTable" where
  "zend_hash_real_init_ex ht packed =
     (if packed then zend_hash_real_init_packed_ex ht else zend_hash_real_init_mixed_ex ht)"

definition zend_hash_real_init :: "'v HashTable \<Rightarrow> bool \<Rightarrow> 'v HashTable" where
  "zend_hash_real_init ht packed = zend_hash_real_init_ex ht packed"

definition zend_empty_array :: "'v HashTable" where
  "zend_empty_array =
     \<lparr>flag_packed = False, flag_uninit = True, flag_empty_ind = False, nTableMask = HT_MIN_MASK,
      arHash = [HT_INVALID_IDX, HT_INVALID_IDX], arData = [], arPacked = [],
      nNumOfElements = 0, nTableSize = HT_MIN_SIZE, nInternalPointer = 0, nNextFreeElement = 0,
      pDestructor = True, dtor_calls = [], ht_iterators = [], cvs = (\<lambda>_. IS_UNDEF)\<rparr>"

text \<open>\<open>_zend_hash_init_int\<close>; the slots \<open>cvs\<close> are there before the table.\<close>

definition zend_hash_init_int :: "(nat \<Rightarrow> 'v zval) \<Rightarrow> 32 word \<Rightarrow> bool \<Rightarrow> 'v HashTable run" where
  "zend_hash_init_int slots nSize dtor =
     run_bind (zend_hash_check_size nSize) (\<lambda>ts.
       Ret \<lparr>flag_packed = False, flag_uninit = True, flag_empty_ind = False,
            nTableMask = HT_MIN_MASK, arHash = [HT_INVALID_IDX, HT_INVALID_IDX], arData = [],
            arPacked = [], nNumOfElements = 0, nTableSize = ts, nInternalPointer = 0,
            nNextFreeElement = ZEND_LONG_MIN, pDestructor = dtor, dtor_calls = [],
            ht_iterators = [], cvs = slots\<rparr>)"

definition zend_new_array :: "(nat \<Rightarrow> 'v zval) \<Rightarrow> 32 word \<Rightarrow> 'v HashTable run" where
  "zend_new_array slots nSize = zend_hash_init_int slots nSize True"

definition zend_new_pair :: "(nat \<Rightarrow> 'v zval) \<Rightarrow> 'v zval \<Rightarrow> 'v zval \<Rightarrow> 'v HashTable run" where
  "zend_new_pair slots val1 val2 =
     run_bind (zend_hash_init_int slots (word_of_nat HT_MIN_SIZE) True) (\<lambda>ht.
       Ret ((zend_hash_real_init_packed_ex ht)
              \<lparr>arPacked := [val1, val2], nNumOfElements := 2, nNextFreeElement := 2\<rparr>))"

definition zend_hash_packed_grow :: "'v HashTable \<Rightarrow> 'v HashTable run" where
  "zend_hash_packed_grow ht =
     (if nTableSize ht \<ge> HT_MAX_SIZE then Fatal overflow_msg
      else Ret (ht\<lparr>nTableSize := nTableSize ht * 2\<rparr>))"

section \<open>Iterators\<close>

definition zend_hash_iterators_lower_pos :: "nat list \<Rightarrow> nat \<Rightarrow> nat \<Rightarrow> nat" where
  "zend_hash_iterators_lower_pos its used start =
     fold (\<lambda>pos res. if pos \<ge> start \<and> pos < res then pos else res) its used"

definition zend_hash_iterators_update :: "nat list \<Rightarrow> nat \<Rightarrow> nat \<Rightarrow> nat list" where
  "zend_hash_iterators_update its from to = map (\<lambda>pos. if pos = from then to else pos) its"

definition zend_hash_iterators_advance :: "'v HashTable \<Rightarrow> nat \<Rightarrow> 'v HashTable" where
  "zend_hash_iterators_advance ht step = ht\<lparr>ht_iterators := map (\<lambda>pos. pos + step) (ht_iterators ht)\<rparr>"

text \<open>The loop of \<open>zend_hash_rehash\<close> that moves the iterators up to bucket \<open>i\<close>.\<close>

partial_function (option) iter_move :: "nat \<Rightarrow> nat \<Rightarrow> nat \<Rightarrow> nat list \<Rightarrow> nat \<Rightarrow> (nat list \<times> nat) option" where
  "iter_move used i j its iter_pos =
     (let its = zend_hash_iterators_update its iter_pos j;
          iter_pos = zend_hash_iterators_lower_pos its used (iter_pos + 1)
      in if iter_pos < i then iter_move used i j its iter_pos else Some (its, iter_pos))"

section \<open>Rebuilding the collision chains\<close>

text \<open>Bucket \<open>i\<close> becomes the head of its chain.\<close>

definition ht_link :: "32 word \<Rightarrow> nat list \<Rightarrow> 'v bucket list \<Rightarrow> nat \<Rightarrow> (nat list \<times> 'v bucket list) option" where
  "ht_link m hs ds i =
     (if i < length ds \<and> ht_slot m (b_h (ds ! i)) < length hs then
        let c = ht_slot m (b_h (ds ! i))
        in Some (hs[c := i], ds[i := (ds ! i)\<lparr>b_next := hs ! c\<rparr>])
      else None)"

lemma ht_link_length:
  "ht_link m hs ds i = Some (hs', ds') \<Longrightarrow> length ds' = length ds \<and> length hs' = length hs \<and> i < length ds"
  by (auto simp: ht_link_def Let_def split: if_splits)

function rehash_plain :: "32 word \<Rightarrow> nat list \<Rightarrow> 'v bucket list \<Rightarrow> nat \<Rightarrow> (nat list \<times> 'v bucket list) option" where
  "rehash_plain m hs ds i =
     (case ht_link m hs ds i of
        None \<Rightarrow> None
      | Some (hs, ds) \<Rightarrow> if Suc i < length ds then rehash_plain m hs ds (Suc i) else Some (hs, ds))"
  by pat_completeness auto

termination
  by (relation "measure (\<lambda>(m, hs, ds, i). length ds - i)") (auto dest!: ht_link_length)

text \<open>The inner loop: \<open>i\<close> runs over the buckets behind the first hole, \<open>j\<close> is where the next live
  bucket goes. Without iterators \<open>iter_pos\<close> is \<open>nNumUsed\<close>, which \<open>i\<close> never reaches.\<close>

function compact_loop :: "32 word \<Rightarrow> nat list \<Rightarrow> 'v bucket list \<Rightarrow> nat \<Rightarrow> nat \<Rightarrow> nat \<Rightarrow> nat list \<Rightarrow> nat \<Rightarrow>
    (nat list \<times> 'v bucket list \<times> nat \<times> nat list) option" where
  "compact_loop m hs ds i j ip its iter_pos =
     (let i = Suc i in
      if i < length ds then
        (if b_val (ds ! i) = IS_UNDEF then compact_loop m hs ds i j ip its iter_pos
         else
           case ht_link m hs (ds[j := (ds ! j)\<lparr>b_val := b_val (ds ! i), b_h := b_h (ds ! i),
                                            b_key := b_key (ds ! i)\<rparr>]) j of
             None \<Rightarrow> None
           | Some (hs, ds) \<Rightarrow>
               (let ip = (if ip = i then j else ip) in
                if i \<ge> iter_pos then
                  (case iter_move (length ds) i j its iter_pos of
                     None \<Rightarrow> None
                   | Some (its, iter_pos) \<Rightarrow> compact_loop m hs ds i (Suc j) ip its iter_pos)
                else compact_loop m hs ds i (Suc j) ip its iter_pos))
      else Some (hs, take j ds, ip, its))"
  by pat_completeness auto

termination
  by (relation "measure (\<lambda>(m, hs, ds, i, j, ip, its, iter_pos). length ds - i)")
    (auto dest!: ht_link_length)

text \<open>The loop for a table with holes: it links the buckets up to the first hole and compacts the
  rest.\<close>

function rehash_holes :: "32 word \<Rightarrow> nat list \<Rightarrow> 'v bucket list \<Rightarrow> nat \<Rightarrow> nat \<Rightarrow> nat list \<Rightarrow>
    (nat list \<times> 'v bucket list \<times> nat \<times> nat list) option" where
  "rehash_holes m hs ds i ip its =
     (if i < length ds then
        if b_val (ds ! i) = IS_UNDEF
        then compact_loop m hs ds i i ip its (zend_hash_iterators_lower_pos its (length ds) (i + 1))
        else
          case ht_link m hs ds i of
            None \<Rightarrow> None
          | Some (hs, ds) \<Rightarrow>
              if Suc i < length ds then rehash_holes m hs ds (Suc i) ip its
              else Some (hs, ds, ip, its)
      else None)"
  by pat_completeness auto

termination
  by (relation "measure (\<lambda>(m, hs, ds, i, ip, its). length ds - i)") (auto dest!: ht_link_length)

definition zend_hash_rehash :: "'v HashTable \<Rightarrow> 'v HashTable run" where
  "zend_hash_rehash ht =
     (if nNumOfElements ht = 0 then
        if flag_uninit ht then Ret ht
        else Ret (ht\<lparr>arData := [], arHash := HT_HASH_RESET (nTableMask ht)\<rparr>)
      else
        let hs = HT_HASH_RESET (nTableMask ht) in
        if length (arData ht) = nNumOfElements ht then
          run_bind (run_of (rehash_plain (nTableMask ht) hs (arData ht) 0)) (\<lambda>(hs, ds).
            Ret (ht\<lparr>arHash := hs, arData := ds\<rparr>))
        else
          run_bind (run_of (rehash_holes (nTableMask ht) hs (arData ht) 0
              (nInternalPointer ht) (ht_iterators ht))) (\<lambda>(hs, ds, ip, its).
            Ret (ht\<lparr>arHash := hs, arData := ds, nInternalPointer := ip,
                   ht_iterators := zend_hash_iterators_update its (length (arData ht)) (length ds)\<rparr>)))"

section \<open>Conversions and growth\<close>

text \<open>The chain pointers of the new buckets are not written here; \<open>zend_hash_rehash\<close> writes them
  before they are read.\<close>

definition zend_hash_packed_to_hash :: "'v HashTable \<Rightarrow> 'v HashTable run" where
  "zend_hash_packed_to_hash ht =
     (let m = HT_SIZE_TO_MASK (nTableSize ht)
      in zend_hash_rehash (ht\<lparr>flag_packed := False, nTableMask := m, arHash := HT_HASH_RESET m,
           arData := map (\<lambda>(i, zv). \<lparr>b_val = zv, b_next = HT_INVALID_IDX, b_h = word_of_nat i,
                                     b_key = None\<rparr>) (enumerate 0 (arPacked ht)),
           arPacked := []\<rparr>))"

definition zend_hash_to_packed :: "'v HashTable \<Rightarrow> 'v HashTable" where
  "zend_hash_to_packed ht =
     ht\<lparr>flag_packed := True, nTableMask := HT_MIN_MASK,
        arHash := [HT_INVALID_IDX, HT_INVALID_IDX], arPacked := map b_val (arData ht), arData := []\<rparr>"

definition grow_hash :: "'v HashTable \<Rightarrow> nat \<Rightarrow> 'v HashTable run" where
  "grow_hash ht nSize =
     (let m = HT_SIZE_TO_MASK nSize
      in zend_hash_rehash (ht\<lparr>nTableSize := nSize, nTableMask := m, arHash := HT_HASH_RESET m\<rparr>))"

definition zend_hash_do_resize :: "'v HashTable \<Rightarrow> 'v HashTable run" where
  "zend_hash_do_resize ht =
     (if length (arData ht) > nNumOfElements ht + nNumOfElements ht div 32 then zend_hash_rehash ht
      else if nTableSize ht < HT_MAX_SIZE then grow_hash ht (nTableSize ht + nTableSize ht)
      else Fatal overflow_msg)"

definition ZEND_HASH_IF_FULL_DO_RESIZE :: "'v HashTable \<Rightarrow> 'v HashTable run" where
  "ZEND_HASH_IF_FULL_DO_RESIZE ht =
     (if length (arData ht) \<ge> nTableSize ht then zend_hash_do_resize ht else Ret ht)"

definition zend_hash_extend :: "'v HashTable \<Rightarrow> 32 word \<Rightarrow> bool \<Rightarrow> 'v HashTable run" where
  "zend_hash_extend ht nSize packed =
     (if nSize = 0 then Ret ht
      else if flag_uninit ht then
        run_bind (if unat nSize > nTableSize ht
                  then run_bind (zend_hash_check_size nSize) (\<lambda>ts. Ret (ht\<lparr>nTableSize := ts\<rparr>))
                  else Ret ht) (\<lambda>ht.
          Ret (zend_hash_real_init ht packed))
      else if unat nSize > nTableSize ht then
        run_bind (zend_hash_check_size nSize) (\<lambda>ts.
          if packed then Ret (ht\<lparr>nTableSize := ts\<rparr>) else grow_hash ht ts)
      else Ret ht)"

text \<open>\<open>zend_hash_discard\<close> unlinks the buckets from the last one down to number \<open>used\<close>.\<close>

primrec discard_loop :: "32 word \<Rightarrow> nat list \<Rightarrow> 'v bucket list \<Rightarrow> nat \<Rightarrow> (nat list \<times> nat) option" where
  "discard_loop m hs [] num = Some (hs, num)"
| "discard_loop m hs (b # bs) num =
     (if b_val b = IS_UNDEF then discard_loop m hs bs num
      else let c = ht_slot m (b_h b)
           in if c < length hs then discard_loop m (hs[c := b_next b]) bs (num - 1) else None)"

definition zend_hash_discard :: "'v HashTable \<Rightarrow> nat \<Rightarrow> 'v HashTable run" where
  "zend_hash_discard ht used =
     run_bind (run_of (discard_loop (nTableMask ht) (arHash ht) (rev (drop used (arData ht)))
                         (nNumOfElements ht))) (\<lambda>(hs, num).
       Ret (ht\<lparr>arHash := hs, arData := take used (arData ht), nNumOfElements := num\<rparr>))"

section \<open>Lookup\<close>

text \<open>The walk along a collision chain from bucket \<open>idx\<close>; \<open>None\<close> is an access outside the table or a
  walk without end, \<open>Some None\<close> the end of the chain.\<close>

partial_function (option) chain_find :: "('v bucket \<Rightarrow> bool) \<Rightarrow> 'v bucket list \<Rightarrow> nat \<Rightarrow> nat option option" where
  "chain_find matches ds idx =
     (if idx = HT_INVALID_IDX then Some None
      else if idx < length ds then
        if matches (ds ! idx) then Some (Some idx) else chain_find matches ds (b_next (ds ! idx))
      else None)"

definition has_string :: "string \<Rightarrow> 64 word \<Rightarrow> 'v bucket \<Rightarrow> bool" where
  "has_string key h b \<longleftrightarrow> b_h b = h \<and> b_key b = Some key"

definition has_index :: "64 word \<Rightarrow> 'v bucket \<Rightarrow> bool" where
  "has_index h b \<longleftrightarrow> b_h b = h \<and> b_key b = None"

definition HT_HASH :: "'v HashTable \<Rightarrow> 64 word \<Rightarrow> nat run" where
  "HT_HASH ht h =
     (let c = ht_slot (nTableMask ht) h in if c < length (arHash ht) then Ret (arHash ht ! c) else Undef)"

text \<open>\<open>zend_hash_find_bucket\<close> first compares the addresses of the two strings, a shortcut for the
  comparison of hash value and contents; \<open>zend_hash_str_find_bucket\<close> has no shortcut.\<close>

definition zend_hash_find_bucket :: "'v HashTable \<Rightarrow> string \<Rightarrow> nat option run" where
  "zend_hash_find_bucket ht key =
     (let h = zend_inline_hash_func key
      in run_bind (HT_HASH ht h) (\<lambda>idx. run_of (chain_find (has_string key h) (arData ht) idx)))"

definition zend_hash_str_find_bucket :: "'v HashTable \<Rightarrow> string \<Rightarrow> 64 word \<Rightarrow> nat option run" where
  "zend_hash_str_find_bucket ht str h =
     run_bind (HT_HASH ht h) (\<lambda>idx. run_of (chain_find (has_string str h) (arData ht) idx))"

definition zend_hash_index_find_bucket :: "'v HashTable \<Rightarrow> 64 word \<Rightarrow> nat option run" where
  "zend_hash_index_find_bucket ht h =
     run_bind (HT_HASH ht h) (\<lambda>idx. run_of (chain_find (has_index h) (arData ht) idx))"

definition val_at :: "'v HashTable \<Rightarrow> nat option \<Rightarrow> 'v zval option run" where
  "val_at ht p = Ret (map_option (\<lambda>i. b_val (arData ht ! i)) p)"

definition zend_hash_find :: "'v HashTable \<Rightarrow> string \<Rightarrow> 'v zval option run" where
  "zend_hash_find ht key = run_bind (zend_hash_find_bucket ht key) (val_at ht)"

definition zend_hash_find_known_hash :: "'v HashTable \<Rightarrow> string \<Rightarrow> 'v zval option run" where
  "zend_hash_find_known_hash ht key = run_bind (zend_hash_find_bucket ht key) (val_at ht)"

definition zend_hash_str_find :: "'v HashTable \<Rightarrow> string \<Rightarrow> 'v zval option run" where
  "zend_hash_str_find ht str =
     run_bind (zend_hash_str_find_bucket ht str (zend_inline_hash_func str)) (val_at ht)"

definition zend_hash_index_find :: "'v HashTable \<Rightarrow> 64 word \<Rightarrow> 'v zval option run" where
  "zend_hash_index_find ht h =
     (if flag_packed ht then
        if unat h < length (arPacked ht) \<and> arPacked ht ! unat h \<noteq> IS_UNDEF
        then Ret (Some (arPacked ht ! unat h)) else Ret None
      else run_bind (zend_hash_index_find_bucket ht h) (val_at ht))"

section \<open>Insertion\<close>

datatype hash_flag = HASH_UPDATE | HASH_ADD | HASH_UPDATE_INDIRECT | HASH_ADD_NEW | HASH_ADD_NEXT
  | HASH_LOOKUP

text \<open>What a returned \<open>zval\<close> pointer points to: element number \<open>i\<close> of the table or a variable
  slot.\<close>

datatype zptr = Elem nat | Slot nat

definition call_dtor :: "'v HashTable \<Rightarrow> 'v zval \<Rightarrow> 'v HashTable" where
  "call_dtor ht v = (if pDestructor ht then ht\<lparr>dtor_calls := dtor_calls ht @ [v]\<rparr> else ht)"

definition set_elem :: "'v HashTable \<Rightarrow> nat \<Rightarrow> 'v zval \<Rightarrow> 'v HashTable" where
  "set_elem ht i v =
     (if flag_packed ht then ht\<lparr>arPacked := (arPacked ht)[i := v]\<rparr>
      else ht\<lparr>arData := (arData ht)[i := (arData ht ! i)\<lparr>b_val := v\<rparr>]\<rparr>)"

definition replace_elem :: "'v HashTable \<Rightarrow> nat \<Rightarrow> 'v zval \<Rightarrow> 'v zval \<Rightarrow> 'v HashTable" where
  "replace_elem ht i old v = set_elem (call_dtor ht old) i v"

definition replace_slot :: "'v HashTable \<Rightarrow> nat \<Rightarrow> 'v zval \<Rightarrow> 'v HashTable" where
  "replace_slot ht k v = (call_dtor ht (cvs ht k))\<lparr>cvs := (cvs ht)(k := v)\<rparr>"

text \<open>The bucket has been found: return it, refuse, or replace its value or the slot it refers to.\<close>

definition update_found :: "'v HashTable \<Rightarrow> nat \<Rightarrow> 'v zval \<Rightarrow> hash_flag list \<Rightarrow> 'v HashTable \<times> zptr option" where
  "update_found ht i pData flag =
     (if HASH_LOOKUP \<in> set flag then (ht, Some (Elem i))
      else if HASH_ADD \<in> set flag then
        if HASH_UPDATE_INDIRECT \<notin> set flag then (ht, None)
        else
          (case b_val (arData ht ! i) of
             IS_INDIRECT k \<Rightarrow>
               if cvs ht k \<noteq> IS_UNDEF then (ht, None)
               else (replace_slot ht k pData, Some (Slot k))
           | _ \<Rightarrow> (ht, None))
      else
        (case b_val (arData ht ! i) of
           IS_INDIRECT k \<Rightarrow>
             if HASH_UPDATE_INDIRECT \<in> set flag then (replace_slot ht k pData, Some (Slot k))
             else (replace_elem ht i (IS_INDIRECT k) pData, Some (Elem i))
         | old \<Rightarrow> (replace_elem ht i old pData, Some (Elem i))))"

definition new_val :: "'v zval \<Rightarrow> hash_flag list \<Rightarrow> 'v zval" where
  "new_val pData flag = (if HASH_LOOKUP \<in> set flag then IS_NULL else pData)"

text \<open>The new bucket is number \<open>nNumUsed\<close> and becomes the head of its chain.\<close>

definition append_bucket :: "'v HashTable \<Rightarrow> 64 word \<Rightarrow> string option \<Rightarrow> 'v zval \<Rightarrow> ('v HashTable \<times> nat) run" where
  "append_bucket ht h key v =
     (let idx = length (arData ht); c = ht_slot (nTableMask ht) h
      in if idx < nTableSize ht \<and> c < length (arHash ht) then
           Ret (ht\<lparr>nNumOfElements := nNumOfElements ht + 1,
                   arData := arData ht @ [\<lparr>b_val = v, b_next = arHash ht ! c, b_h = h, b_key = key\<rparr>],
                   arHash := (arHash ht)[c := idx]\<rparr>, idx)
         else Undef)"

definition add_to_hash :: "'v HashTable \<Rightarrow> string \<Rightarrow> 64 word \<Rightarrow> 'v zval \<Rightarrow> hash_flag list \<Rightarrow>
    ('v HashTable \<times> zptr option) run" where
  "add_to_hash ht key h pData flag =
     run_bind (append_bucket ht h (Some key) (new_val pData flag)) (\<lambda>(ht, idx).
       Ret (ht, Some (Elem idx)))"

definition zend_hash_add_or_update_i :: "'v HashTable \<Rightarrow> string \<Rightarrow> 'v zval \<Rightarrow> hash_flag list \<Rightarrow>
    ('v HashTable \<times> zptr option) run" where
  "zend_hash_add_or_update_i ht key pData flag =
     (let h = zend_inline_hash_func key in
      if flag_uninit ht then add_to_hash (zend_hash_real_init_mixed_ex ht) key h pData flag
      else if flag_packed ht then
        run_bind (zend_hash_packed_to_hash ht) (\<lambda>ht.
        run_bind (ZEND_HASH_IF_FULL_DO_RESIZE ht) (\<lambda>ht. add_to_hash ht key h pData flag))
      else if HASH_ADD_NEW \<notin> set flag then
        run_bind (zend_hash_find_bucket ht key) (\<lambda>p.
          case p of
            Some i \<Rightarrow> Ret (update_found ht i pData flag)
          | None \<Rightarrow> run_bind (ZEND_HASH_IF_FULL_DO_RESIZE ht) (\<lambda>ht. add_to_hash ht key h pData flag))
      else run_bind (ZEND_HASH_IF_FULL_DO_RESIZE ht) (\<lambda>ht. add_to_hash ht key h pData flag))"

definition zend_hash_str_add_or_update_i :: "'v HashTable \<Rightarrow> string \<Rightarrow> 64 word \<Rightarrow> 'v zval \<Rightarrow> hash_flag list \<Rightarrow>
    ('v HashTable \<times> zptr option) run" where
  "zend_hash_str_add_or_update_i ht str h pData flag =
     (if flag_uninit ht then add_to_hash (zend_hash_real_init_mixed_ex ht) str h pData flag
      else if flag_packed ht then
        run_bind (zend_hash_packed_to_hash ht) (\<lambda>ht.
        run_bind (ZEND_HASH_IF_FULL_DO_RESIZE ht) (\<lambda>ht. add_to_hash ht str h pData flag))
      else if HASH_ADD_NEW \<notin> set flag then
        run_bind (zend_hash_str_find_bucket ht str h) (\<lambda>p.
          case p of
            Some i \<Rightarrow> Ret (update_found ht i pData flag)
          | None \<Rightarrow> run_bind (ZEND_HASH_IF_FULL_DO_RESIZE ht) (\<lambda>ht. add_to_hash ht str h pData flag))
      else run_bind (ZEND_HASH_IF_FULL_DO_RESIZE ht) (\<lambda>ht. add_to_hash ht str h pData flag))"

definition zend_hash_add :: "'v HashTable \<Rightarrow> string \<Rightarrow> 'v zval \<Rightarrow> ('v HashTable \<times> zptr option) run" where
  "zend_hash_add ht key pData = zend_hash_add_or_update_i ht key pData [HASH_ADD]"

definition zend_hash_update :: "'v HashTable \<Rightarrow> string \<Rightarrow> 'v zval \<Rightarrow> ('v HashTable \<times> zptr option) run" where
  "zend_hash_update ht key pData = zend_hash_add_or_update_i ht key pData [HASH_UPDATE]"

definition zend_hash_update_ind :: "'v HashTable \<Rightarrow> string \<Rightarrow> 'v zval \<Rightarrow> ('v HashTable \<times> zptr option) run" where
  "zend_hash_update_ind ht key pData =
     zend_hash_add_or_update_i ht key pData [HASH_UPDATE, HASH_UPDATE_INDIRECT]"

definition zend_hash_add_new :: "'v HashTable \<Rightarrow> string \<Rightarrow> 'v zval \<Rightarrow> ('v HashTable \<times> zptr option) run" where
  "zend_hash_add_new ht key pData = zend_hash_add_or_update_i ht key pData [HASH_ADD_NEW]"

definition zend_hash_lookup :: "'v HashTable \<Rightarrow> string \<Rightarrow> ('v HashTable \<times> zptr option) run" where
  "zend_hash_lookup ht key = zend_hash_add_or_update_i ht key IS_UNDEF [HASH_LOOKUP]"

definition zend_hash_str_update :: "'v HashTable \<Rightarrow> string \<Rightarrow> 'v zval \<Rightarrow> ('v HashTable \<times> zptr option) run" where
  "zend_hash_str_update ht str pData =
     zend_hash_str_add_or_update_i ht str (zend_inline_hash_func str) pData [HASH_UPDATE]"

definition zend_hash_str_update_ind :: "'v HashTable \<Rightarrow> string \<Rightarrow> 'v zval \<Rightarrow> ('v HashTable \<times> zptr option) run" where
  "zend_hash_str_update_ind ht str pData =
     zend_hash_str_add_or_update_i ht str (zend_inline_hash_func str) pData
       [HASH_UPDATE, HASH_UPDATE_INDIRECT]"

definition zend_hash_str_add :: "'v HashTable \<Rightarrow> string \<Rightarrow> 'v zval \<Rightarrow> ('v HashTable \<times> zptr option) run" where
  "zend_hash_str_add ht str pData =
     zend_hash_str_add_or_update_i ht str (zend_inline_hash_func str) pData [HASH_ADD]"

definition zend_hash_str_add_new :: "'v HashTable \<Rightarrow> string \<Rightarrow> 'v zval \<Rightarrow> ('v HashTable \<times> zptr option) run" where
  "zend_hash_str_add_new ht str pData =
     zend_hash_str_add_or_update_i ht str (zend_inline_hash_func str) pData [HASH_ADD_NEW]"

definition zend_hash_add_or_update :: "'v HashTable \<Rightarrow> string \<Rightarrow> 'v zval \<Rightarrow> hash_flag list \<Rightarrow>
    ('v HashTable \<times> zptr option) run" where
  "zend_hash_add_or_update ht key pData flag =
     (if flag = [HASH_ADD] then zend_hash_add ht key pData
      else if flag = [HASH_ADD_NEW] then zend_hash_add_new ht key pData
      else if flag = [HASH_UPDATE] then zend_hash_update ht key pData
      else zend_hash_update_ind ht key pData)"

definition zend_hash_str_add_or_update :: "'v HashTable \<Rightarrow> string \<Rightarrow> 'v zval \<Rightarrow> hash_flag list \<Rightarrow>
    ('v HashTable \<times> zptr option) run" where
  "zend_hash_str_add_or_update ht str pData flag =
     (if flag = [HASH_ADD] then zend_hash_str_add ht str pData
      else if flag = [HASH_ADD_NEW] then zend_hash_str_add_new ht str pData
      else if flag = [HASH_UPDATE] then zend_hash_str_update ht str pData
      else zend_hash_str_update_ind ht str pData)"

text \<open>Writing cell \<open>h\<close> of the packed array. With \<open>HASH_ADD_NEW\<close> and \<open>HASH_ADD_NEXT\<close> the cells between
  \<open>nNumUsed\<close> and \<open>h\<close> are not initialised, so there must be none.\<close>

definition add_to_packed :: "'v HashTable \<Rightarrow> nat \<Rightarrow> 'v zval \<Rightarrow> hash_flag list \<Rightarrow>
    ('v HashTable \<times> zptr option) run" where
  "add_to_packed ht h pData flag =
     (let used = length (arPacked ht);
          new_next = (HASH_ADD_NEW \<in> set flag \<and> HASH_ADD_NEXT \<in> set flag)
      in if nTableSize ht \<le> h \<or> new_next \<and> used < h then Undef
         else Ret (ht\<lparr>arPacked := take h (arPacked ht) @ replicate (h - used) IS_UNDEF @ [new_val pData flag],
                      nNextFreeElement := int h + 1, nNumOfElements := nNumOfElements ht + 1\<rparr>,
                   Some (Elem h)))"

definition replace_index :: "'v HashTable \<Rightarrow> nat \<Rightarrow> 'v zval \<Rightarrow> 'v zval \<Rightarrow> hash_flag list \<Rightarrow>
    'v HashTable \<times> zptr option" where
  "replace_index ht i old pData flag =
     (if HASH_LOOKUP \<in> set flag then (ht, Some (Elem i))
      else if HASH_ADD \<in> set flag then (ht, None)
      else (replace_elem ht i old pData, Some (Elem i)))"

definition add_index_to_hash :: "'v HashTable \<Rightarrow> 64 word \<Rightarrow> 'v zval \<Rightarrow> hash_flag list \<Rightarrow>
    ('v HashTable \<times> zptr option) run" where
  "add_index_to_hash ht h pData flag =
     run_bind (append_bucket ht h None (new_val pData flag)) (\<lambda>(ht, idx).
       Ret (if sint h \<ge> nNextFreeElement ht
            then ht\<lparr>nNextFreeElement := (if sint h < ZEND_LONG_MAX then sint h + 1 else ZEND_LONG_MAX)\<rparr>
            else ht, Some (Elem idx)))"

definition zend_hash_index_add_or_update_i :: "'v HashTable \<Rightarrow> 64 word \<Rightarrow> 'v zval \<Rightarrow> hash_flag list \<Rightarrow>
    ('v HashTable \<times> zptr option) run" where
  "zend_hash_index_add_or_update_i ht h pData flag =
     (let h = (if HASH_ADD_NEXT \<in> set flag \<and> h = word_of_int ZEND_LONG_MIN then 0 else h);
          i = unat h;
          new_next = (HASH_ADD_NEW \<in> set flag \<and> HASH_ADD_NEXT \<in> set flag)
      in
      if flag_packed ht then
        if \<not> new_next \<and> i < length (arPacked ht) then
          if arPacked ht ! i \<noteq> IS_UNDEF then Ret (replace_index ht i (arPacked ht ! i) pData flag)
          else run_bind (zend_hash_packed_to_hash ht) (\<lambda>ht. add_index_to_hash ht h pData flag)
        else if i < nTableSize ht then add_to_packed ht i pData flag
        else if i div 2 < nTableSize ht \<and> nTableSize ht div 2 < nNumOfElements ht then
          run_bind (zend_hash_packed_grow ht) (\<lambda>ht. add_to_packed ht i pData flag)
        else
          run_bind (zend_hash_packed_to_hash
              (if length (arPacked ht) \<ge> nTableSize ht
               then ht\<lparr>nTableSize := nTableSize ht + nTableSize ht\<rparr> else ht)) (\<lambda>ht.
            add_index_to_hash ht h pData flag)
      else if flag_uninit ht then
        if i < nTableSize ht then add_to_packed (zend_hash_real_init_packed_ex ht) i pData flag
        else add_index_to_hash (zend_hash_real_init_mixed_ex ht) h pData flag
      else
        run_bind (if HASH_ADD_NEW \<in> set flag then Ret None else zend_hash_index_find_bucket ht h) (\<lambda>p.
          case p of
            Some j \<Rightarrow> Ret (replace_index ht j (b_val (arData ht ! j)) pData flag)
          | None \<Rightarrow>
              run_bind (ZEND_HASH_IF_FULL_DO_RESIZE ht) (\<lambda>ht. add_index_to_hash ht h pData flag)))"

definition zend_hash_index_add :: "'v HashTable \<Rightarrow> 64 word \<Rightarrow> 'v zval \<Rightarrow> ('v HashTable \<times> zptr option) run" where
  "zend_hash_index_add ht h pData = zend_hash_index_add_or_update_i ht h pData [HASH_ADD]"

definition zend_hash_index_add_new :: "'v HashTable \<Rightarrow> 64 word \<Rightarrow> 'v zval \<Rightarrow> ('v HashTable \<times> zptr option) run" where
  "zend_hash_index_add_new ht h pData =
     zend_hash_index_add_or_update_i ht h pData [HASH_ADD, HASH_ADD_NEW]"

definition zend_hash_index_update :: "'v HashTable \<Rightarrow> 64 word \<Rightarrow> 'v zval \<Rightarrow> ('v HashTable \<times> zptr option) run" where
  "zend_hash_index_update ht h pData = zend_hash_index_add_or_update_i ht h pData [HASH_UPDATE]"

definition zend_hash_next_index_insert :: "'v HashTable \<Rightarrow> 'v zval \<Rightarrow> ('v HashTable \<times> zptr option) run" where
  "zend_hash_next_index_insert ht pData =
     zend_hash_index_add_or_update_i ht (word_of_int (nNextFreeElement ht)) pData [HASH_ADD, HASH_ADD_NEXT]"

definition zend_hash_next_index_insert_new :: "'v HashTable \<Rightarrow> 'v zval \<Rightarrow> ('v HashTable \<times> zptr option) run" where
  "zend_hash_next_index_insert_new ht pData =
     zend_hash_index_add_or_update_i ht (word_of_int (nNextFreeElement ht)) pData
       [HASH_ADD, HASH_ADD_NEW, HASH_ADD_NEXT]"

definition zend_hash_index_lookup :: "'v HashTable \<Rightarrow> 64 word \<Rightarrow> ('v HashTable \<times> zptr option) run" where
  "zend_hash_index_lookup ht h = zend_hash_index_add_or_update_i ht h IS_UNDEF [HASH_LOOKUP]"

definition zend_hash_index_add_or_update :: "'v HashTable \<Rightarrow> 64 word \<Rightarrow> 'v zval \<Rightarrow> hash_flag list \<Rightarrow>
    ('v HashTable \<times> zptr option) run" where
  "zend_hash_index_add_or_update ht h pData flag =
     (if flag = [HASH_ADD] then zend_hash_index_add ht h pData
      else if flag = [HASH_ADD, HASH_ADD_NEW] then zend_hash_index_add_new ht h pData
      else if flag = [HASH_ADD, HASH_ADD_NEXT] then zend_hash_next_index_insert ht pData
      else if flag = [HASH_ADD, HASH_ADD_NEW, HASH_ADD_NEXT] then zend_hash_next_index_insert_new ht pData
      else zend_hash_index_update ht h pData)"

definition zend_hash_add_empty_element :: "'v HashTable \<Rightarrow> string \<Rightarrow> ('v HashTable \<times> zptr option) run" where
  "zend_hash_add_empty_element ht key = zend_hash_add ht key IS_NULL"

definition zend_hash_str_add_empty_element :: "'v HashTable \<Rightarrow> string \<Rightarrow> ('v HashTable \<times> zptr option) run" where
  "zend_hash_str_add_empty_element ht str = zend_hash_str_add ht str IS_NULL"

definition zend_hash_index_add_empty_element :: "'v HashTable \<Rightarrow> 64 word \<Rightarrow> ('v HashTable \<times> zptr option) run" where
  "zend_hash_index_add_empty_element ht h = zend_hash_index_add ht h IS_NULL"

section \<open>Positions\<close>

function valid_pos :: "'v zval list \<Rightarrow> nat \<Rightarrow> nat" where
  "valid_pos vs pos =
     (if pos < length vs \<and> vs ! pos = IS_UNDEF then valid_pos vs (Suc pos) else pos)"
  by pat_completeness auto

termination
  by (relation "measure (\<lambda>(vs, pos). length vs - pos)") auto

definition ht_vals :: "'v HashTable \<Rightarrow> 'v zval list" where
  "ht_vals ht = (if flag_packed ht then arPacked ht else map b_val (arData ht))"

definition zend_hash_get_valid_pos :: "'v HashTable \<Rightarrow> nat \<Rightarrow> nat" where
  "zend_hash_get_valid_pos ht pos = valid_pos (ht_vals ht) pos"

definition zend_hash_get_current_pos :: "'v HashTable \<Rightarrow> nat" where
  "zend_hash_get_current_pos ht = zend_hash_get_valid_pos ht (nInternalPointer ht)"

section \<open>Deletion\<close>

text \<open>The last element has gone: \<open>nNumUsed\<close> is lowered past it and past the holes in front of it.\<close>

definition trim_used :: "('b \<Rightarrow> 'v zval) \<Rightarrow> 'b list \<Rightarrow> 'b list" where
  "trim_used f bs = rev (dropWhile (\<lambda>b. f b = IS_UNDEF) (rev (butlast bs)))"

text \<open>The internal pointer and the iterators that stand on the deleted element move to the next one.\<close>

definition skip_deleted :: "'v HashTable \<Rightarrow> nat \<Rightarrow> 'v HashTable" where
  "skip_deleted ht idx =
     (if nInternalPointer ht = idx \<or> ht_iterators ht \<noteq> [] then
        let new_idx = valid_pos (ht_vals ht) (Suc idx)
        in ht\<lparr>nInternalPointer := (if nInternalPointer ht = idx then new_idx else nInternalPointer ht),
              ht_iterators := zend_hash_iterators_update (ht_iterators ht) idx new_idx\<rparr>
      else ht)"

definition zend_hash_packed_del_val :: "'v HashTable \<Rightarrow> nat \<Rightarrow> 'v HashTable run" where
  "zend_hash_packed_del_val ht idx =
     (let used = length (arPacked ht) in
      if idx \<ge> used then Undef
      else
        let old = arPacked ht ! idx;
            ht = ht\<lparr>nNumOfElements := nNumOfElements ht - 1\<rparr>;
            ht = skip_deleted ht idx;
            ht = (if used - 1 = idx then
                    let vs = trim_used id (arPacked ht)
                    in ht\<lparr>arPacked := vs, nInternalPointer := min (nInternalPointer ht) (length vs)\<rparr>
                  else ht\<lparr>arPacked := (arPacked ht)[idx := IS_UNDEF]\<rparr>)
        in Ret (call_dtor ht old))"

definition zend_hash_del_el_ex :: "'v HashTable \<Rightarrow> nat \<Rightarrow> nat option \<Rightarrow> 'v HashTable run" where
  "zend_hash_del_el_ex ht idx prev =
     (let used = length (arData ht); p = arData ht ! idx; c = ht_slot (nTableMask ht) (b_h p) in
      if idx \<ge> used \<or> length (arHash ht) \<le> c \<or> (case prev of None \<Rightarrow> False | Some q \<Rightarrow> q \<ge> used) then Undef
      else
        let ht = (case prev of
                    Some q \<Rightarrow> ht\<lparr>arData := (arData ht)[q := (arData ht ! q)\<lparr>b_next := b_next p\<rparr>]\<rparr>
                  | None \<Rightarrow> ht\<lparr>arHash := (arHash ht)[c := b_next p]\<rparr>);
            ht = ht\<lparr>nNumOfElements := nNumOfElements ht - 1\<rparr>;
            ht = skip_deleted ht idx;
            ht = (if used - 1 = idx then
                    let ds = trim_used b_val (arData ht)
                    in ht\<lparr>arData := ds, nInternalPointer := min (nInternalPointer ht) (length ds)\<rparr>
                  else ht\<lparr>arData := (arData ht)[idx := (arData ht ! idx)\<lparr>b_val := IS_UNDEF\<rparr>]\<rparr>)
        in Ret (call_dtor ht (b_val p)))"

text \<open>The walk to a bucket with its predecessor in the chain.\<close>

partial_function (option) chain_del :: "('v bucket \<Rightarrow> bool) \<Rightarrow> 'v bucket list \<Rightarrow> nat \<Rightarrow> nat option \<Rightarrow>
    (nat \<times> nat option) option option" where
  "chain_del matches ds idx prev =
     (if idx = HT_INVALID_IDX then Some None
      else if idx < length ds then
        if matches (ds ! idx) then Some (Some (idx, prev))
        else chain_del matches ds (b_next (ds ! idx)) (Some idx)
      else None)"

definition clear_key :: "'v HashTable \<Rightarrow> nat \<Rightarrow> 'v HashTable" where
  "clear_key ht idx = ht\<lparr>arData := (arData ht)[idx := (arData ht ! idx)\<lparr>b_key := None\<rparr>]\<rparr>"

definition zend_hash_del :: "'v HashTable \<Rightarrow> string \<Rightarrow> ('v HashTable \<times> bool) run" where
  "zend_hash_del ht key =
     (let h = zend_inline_hash_func key in
      run_bind (HT_HASH ht h) (\<lambda>idx.
      run_bind (run_of (chain_del (has_string key h) (arData ht) idx None)) (\<lambda>r.
        case r of
          None \<Rightarrow> Ret (ht, False)
        | Some (idx, prev) \<Rightarrow>
            run_bind (zend_hash_del_el_ex (clear_key ht idx) idx prev) (\<lambda>ht. Ret (ht, True)))))"

definition zend_hash_str_del :: "'v HashTable \<Rightarrow> string \<Rightarrow> ('v HashTable \<times> bool) run" where
  "zend_hash_str_del ht str =
     (let h = zend_inline_hash_func str in
      run_bind (HT_HASH ht h) (\<lambda>idx.
      run_bind (run_of (chain_del (has_string str h) (arData ht) idx None)) (\<lambda>r.
        case r of
          None \<Rightarrow> Ret (ht, False)
        | Some (idx, prev) \<Rightarrow>
            run_bind (zend_hash_del_el_ex (clear_key ht idx) idx prev) (\<lambda>ht. Ret (ht, True)))))"

definition zend_hash_index_del :: "'v HashTable \<Rightarrow> 64 word \<Rightarrow> ('v HashTable \<times> bool) run" where
  "zend_hash_index_del ht h =
     (if flag_packed ht then
        if unat h < length (arPacked ht) \<and> arPacked ht ! unat h \<noteq> IS_UNDEF
        then run_bind (zend_hash_packed_del_val ht (unat h)) (\<lambda>ht. Ret (ht, True))
        else Ret (ht, False)
      else
        run_bind (HT_HASH ht h) (\<lambda>idx.
        run_bind (run_of (chain_del (has_index h) (arData ht) idx None)) (\<lambda>r.
          case r of
            None \<Rightarrow> Ret (ht, False)
          | Some (idx, prev) \<Rightarrow>
              run_bind (zend_hash_del_el_ex ht idx prev) (\<lambda>ht. Ret (ht, True)))))"

text \<open>A bucket that refers to a variable slot stays and its slot is emptied.\<close>

definition zend_hash_del_ind :: "'v HashTable \<Rightarrow> string \<Rightarrow> ('v HashTable \<times> bool) run" where
  "zend_hash_del_ind ht key =
     (let h = zend_inline_hash_func key in
      run_bind (HT_HASH ht h) (\<lambda>idx.
      run_bind (run_of (chain_del (has_string key h) (arData ht) idx None)) (\<lambda>r.
        case r of
          None \<Rightarrow> Ret (ht, False)
        | Some (idx, prev) \<Rightarrow>
            (case b_val (arData ht ! idx) of
               IS_INDIRECT k \<Rightarrow>
                 if cvs ht k = IS_UNDEF then Ret (ht, False)
                 else Ret ((call_dtor (ht\<lparr>cvs := (cvs ht)(k := IS_UNDEF)\<rparr>) (cvs ht k))
                             \<lparr>flag_empty_ind := True\<rparr>, True)
             | _ \<Rightarrow>
                 run_bind (zend_hash_del_el_ex (clear_key ht idx) idx prev) (\<lambda>ht. Ret (ht, True))))))"

end
