(* ===== verification/Zend_Hash_Inv.thy ===== *)
theory Zend_Hash_Inv
  imports Zend_Hash
begin

text \<open>
  The invariant of the hash table, its abstract value and the lemmas on collision chains. A table
  stands for the list of its live elements in insertion order, each a key, an integer or a string,
  with its value. A chain is described without following pointers: the head of a chain is the last
  live bucket of its slot, and the successor of a bucket is the last live bucket of the slot in
  front of it, the order \<open>zend_hash.c\<close> notes as ``directed from higher to lower buckets''.
\<close>

unbundle bit_operations_syntax

declare rehash_plain.simps [simp del] compact_loop.simps [simp del] rehash_holes.simps [simp del]
  valid_pos.simps [simp del]

section \<open>Results\<close>

lemma run_of_simps [simp]: "run_of None = Undef" "run_of (Some x) = Ret x"
  by (simp_all add: run_of_def)

section \<open>Slots\<close>

definition size_ok :: "nat \<Rightarrow> bool" where
  "size_ok n \<longleftrightarrow> (\<exists>k. 3 \<le> k \<and> k \<le> 30 \<and> n = 2 ^ k)"

lemma or_minus_exp:
  fixes x :: "32 word"
  shows "(x OR - (2 ^ j)) + 2 ^ j = take_bit j x"
proof -
  have "x OR - (2 ^ j) = (x AND mask j) OR NOT (mask j)"
    unfolding minus_exp_eq_not_mask by (rule bit_eqI) (auto simp: bit_simps)
  also have "\<dots> = (x AND mask j) + NOT (mask j)"
    by (rule disjunctive_add [symmetric]) (auto simp: bit_simps)
  finally show ?thesis
    unfolding minus_exp_eq_not_mask [symmetric] by (simp add: take_bit_eq_mask)
qed

lemma ht_slot_exp: "ht_slot (- (2 ^ j)) h = unat (take_bit j (ucast h :: 32 word))"
proof -
  have "ucast (h OR ucast m) = (ucast h OR m :: 32 word)" for m :: "32 word"
    by (rule bit_eqI) (auto simp: bit_simps)
  then show ?thesis by (simp add: ht_slot_def or_minus_exp)
qed

lemma unat_exp32: "k < 32 \<Longrightarrow> unat (2 ^ k :: 32 word) = 2 ^ k"
proof -
  assume "k < 32"
  then have "(2 :: nat) ^ k < 2 ^ 32" by (intro power_strict_increasing) auto
  then have "unat (word_of_nat (2 ^ k) :: 32 word) = 2 ^ k"
    using \<open>k < 32\<close>
    by (simp only: unsigned_of_nat take_bit_nat_eq_self len_of_numeral_defs) (simp add: take_bit_nat_eq_self)
  then show ?thesis by simp
qed

lemma size_mask:
  assumes "size_ok n"
  shows "ht_slot (HT_SIZE_TO_MASK n) h < 2 * n" and "HT_HASH_SIZE (HT_SIZE_TO_MASK n) = 2 * n"
proof -
  obtain k where k: "k \<le> 30" "n = 2 ^ k" using assms by (auto simp: size_ok_def)
  have n: "n + n = 2 ^ Suc k" using k by simp
  have m: "HT_SIZE_TO_MASK n = - (2 ^ Suc k)"
    unfolding HT_SIZE_TO_MASK_def n by simp
  have "ht_slot (HT_SIZE_TO_MASK n) h < 2 ^ Suc k"
    unfolding m ht_slot_exp by (simp only: unsigned_take_bit_eq take_bit_nat_less_exp)
  then show "ht_slot (HT_SIZE_TO_MASK n) h < 2 * n" using k by simp
  have "unat (2 ^ Suc k :: 32 word) = 2 ^ Suc k" by (rule unat_exp32) (use k(1) in simp)
  then show "HT_HASH_SIZE (HT_SIZE_TO_MASK n) = 2 * n"
    unfolding HT_HASH_SIZE_def m using k by simp
qed

lemma min_mask_slot: "ht_slot HT_MIN_MASK h < 2"
proof -
  have "ht_slot (- (2 ^ 1)) h < 2 ^ 1"
    unfolding ht_slot_exp by (simp only: unsigned_take_bit_eq take_bit_nat_less_exp)
  then show ?thesis by simp
qed

lemma size_ok_bounds: "size_ok n \<Longrightarrow> 8 \<le> n \<and> n \<le> HT_MAX_SIZE"
proof -
  assume "size_ok n"
  then obtain k where "3 \<le> k" "k \<le> 30" "n = 2 ^ k" by (auto simp: size_ok_def)
  then show ?thesis using power_increasing [of 3 k "2::nat"] power_increasing [of k 30 "2::nat"] by simp
qed

lemma size_ok_double: "size_ok n \<Longrightarrow> n < HT_MAX_SIZE \<Longrightarrow> size_ok (n + n)"
proof -
  assume "size_ok n" "n < HT_MAX_SIZE"
  then obtain k where k: "3 \<le> k" "k \<le> 30" "n = 2 ^ k" by (auto simp: size_ok_def)
  then have "k \<noteq> 30" using \<open>n < HT_MAX_SIZE\<close> by auto
  then show ?thesis using k unfolding size_ok_def by (intro exI [of _ "Suc k"]) auto
qed

section \<open>The last element with a property\<close>

primrec last_rev :: "('b \<Rightarrow> bool) \<Rightarrow> 'b list \<Rightarrow> nat" where
  "last_rev P [] = HT_INVALID_IDX"
| "last_rev P (b # bs) = (if P b then length bs else last_rev P bs)"

definition last_idx :: "('b \<Rightarrow> bool) \<Rightarrow> 'b list \<Rightarrow> nat" where
  "last_idx P ds = last_rev P (rev ds)"

lemma last_idx_Nil [simp]: "last_idx P [] = HT_INVALID_IDX"
  by (simp add: last_idx_def)

lemma last_idx_snoc [simp]: "last_idx P (ds @ [b]) = (if P b then length ds else last_idx P ds)"
  by (simp add: last_idx_def)

lemma last_idx_take_Suc:
  "i < length ds \<Longrightarrow> last_idx P (take (Suc i) ds) = (if P (ds ! i) then i else last_idx P (take i ds))"
  by (simp add: take_Suc_conv_app_nth)

lemma last_idx_cases:
  obtains (none) "last_idx P ds = HT_INVALID_IDX" "\<forall>b \<in> set ds. \<not> P b"
  | (some) "last_idx P ds < length ds" "P (ds ! last_idx P ds)"
      "\<forall>i. last_idx P ds < i \<longrightarrow> i < length ds \<longrightarrow> \<not> P (ds ! i)"
proof -
  have "last_idx P ds = HT_INVALID_IDX \<and> (\<forall>b \<in> set ds. \<not> P b) \<or>
    last_idx P ds < length ds \<and> P (ds ! last_idx P ds) \<and>
      (\<forall>i. last_idx P ds < i \<longrightarrow> i < length ds \<longrightarrow> \<not> P (ds ! i))"
    by (induction ds rule: rev_induct) (auto simp: nth_append less_Suc_eq)
  then show thesis using none some by blast
qed

lemma last_idx_append_none: "\<forall>b \<in> set bs. \<not> P b \<Longrightarrow> last_idx P (ds @ bs) = last_idx P ds"
  by (induction bs rule: rev_induct) (simp_all flip: append_assoc)

lemma last_idx_cong: "length ds = length es \<Longrightarrow> (\<And>i. i < length ds \<Longrightarrow> P (ds ! i) = Q (es ! i)) \<Longrightarrow>
  last_idx P ds = last_idx Q es"
proof (induction ds arbitrary: es rule: rev_induct)
  case (snoc b ds)
  from snoc.prems(1) obtain es' e where es: "es = es' @ [e]" by (cases es rule: rev_cases) auto
  then have "length es' = length ds" using snoc.prems(1) by simp
  note es = es this
  have "P (ds ! i) = Q (es' ! i)" if "i < length ds" for i
    using snoc.prems(2) [of i] that es by (simp add: nth_append)
  moreover have "P b = Q e" using snoc.prems(2) [of "length ds"] es by (simp add: nth_append)
  ultimately show ?case using snoc.IH [of es'] es by simp
qed simp

lemma last_idx_greatest:
  "j < length ds \<Longrightarrow> P (ds ! j) \<Longrightarrow> (\<forall>i. j < i \<longrightarrow> i < length ds \<longrightarrow> \<not> P (ds ! i)) \<Longrightarrow> last_idx P ds = j"
  by (cases rule: last_idx_cases [of P ds]) (metis nth_mem, metis linorder_neqE_nat)

lemma last_idx_ge: "p < length ds \<Longrightarrow> P (ds ! p) \<Longrightarrow> p \<le> last_idx P ds"
  by (cases rule: last_idx_cases [of P ds]) (metis nth_mem, metis not_le)

text \<open>Element \<open>j\<close> loses the property.\<close>

lemma last_idx_drop_one:
  assumes "length ds < HT_INVALID_IDX" and "j < length ds" and "length es = length ds"
    and "\<not> Q (es ! j)" and "\<And>i. i < length ds \<Longrightarrow> i \<noteq> j \<Longrightarrow> Q (es ! i) = P (ds ! i)"
  shows "last_idx Q es = (if last_idx P ds = j then last_idx P (take j ds) else last_idx P ds)"
proof (cases "last_idx P ds = j")
  case True
  have tail: "\<forall>b \<in> set (drop j es). \<not> Q b"
  proof
    fix b assume "b \<in> set (drop j es)"
    then obtain i where i: "i < length (drop j es)" "b = drop j es ! i" by (metis in_set_conv_nth)
    then have i: "j + i < length es" "b = es ! (j + i)" using assms(2,3) by auto
    show "\<not> Q b"
    proof (cases "i = 0")
      case True
      then show ?thesis using i assms(4) by simp
    next
      case False
      have "\<not> P (ds ! (j + i))"
        by (rule last_idx_cases [of P ds])
          (use True assms(1,2,3) i(1) False in auto)
      then show ?thesis using assms(3,5) i False by auto
    qed
  qed
  have "last_idx Q es = last_idx Q (take j es)"
    using last_idx_append_none [OF tail, of "take j es"] by simp
  also have "\<dots> = last_idx P (take j ds)"
    by (rule last_idx_cong) (use assms(2,3,5) in auto)
  finally show ?thesis using True by simp
next
  case False
  show ?thesis
  proof (cases rule: last_idx_cases [of P ds])
    case none
    then have "\<forall>b \<in> set es. \<not> Q b" using assms by (metis in_set_conv_nth)
    then show ?thesis using last_idx_append_none [of es Q "[]"] none(1) False by simp
  next
    case some
    have "last_idx Q es = last_idx P ds"
    proof (rule last_idx_greatest)
      show "last_idx P ds < length es" using some(1) assms(3) by simp
      show "Q (es ! last_idx P ds)" using some(1,2) assms(5) False by simp
      show "\<forall>i. last_idx P ds < i \<longrightarrow> i < length es \<longrightarrow> \<not> Q (es ! i)"
        using some(3) assms(3,4,5) by metis
    qed
    then show ?thesis using False by simp
  qed
qed

section \<open>Collision chains\<close>

definition live :: "'v bucket \<Rightarrow> bool" where
  "live b \<longleftrightarrow> b_val b \<noteq> IS_UNDEF"

definition in_chain :: "32 word \<Rightarrow> nat \<Rightarrow> 'v bucket \<Rightarrow> bool" where
  "in_chain m c b \<longleftrightarrow> live b \<and> ht_slot m (b_h b) = c"

definition chains :: "32 word \<Rightarrow> nat list \<Rightarrow> 'v bucket list \<Rightarrow> bool" where
  "chains m hs ds \<longleftrightarrow>
     (\<forall>c < length hs. hs ! c = last_idx (in_chain m c) ds) \<and>
     (\<forall>i < length ds. live (ds ! i) \<longrightarrow>
        b_next (ds ! i) = last_idx (in_chain m (ht_slot m (b_h (ds ! i)))) (take i ds))"

lemma chainsD:
  assumes "chains m hs ds"
  shows "c < length hs \<Longrightarrow> hs ! c = last_idx (in_chain m c) ds"
    and "i < length ds \<Longrightarrow> in_chain m c (ds ! i) \<Longrightarrow> b_next (ds ! i) = last_idx (in_chain m c) (take i ds)"
  using assms by (auto simp: chains_def in_chain_def)

lemma chains_empty: "chains m (HT_HASH_RESET m') []"
  by (simp add: chains_def HT_HASH_RESET_def)

text \<open>A walk from the last bucket of a chain in front of \<open>n\<close> finds the last bucket that matches.\<close>

lemma chain_find_eq:
  assumes "chains m hs ds" and "length ds < HT_INVALID_IDX" and "n \<le> length ds"
  shows "chain_find f ds (last_idx (in_chain m c) (take n ds)) =
    Some (let j = last_idx (\<lambda>b. in_chain m c b \<and> f b) (take n ds)
          in if j = HT_INVALID_IDX then None else Some j)"
  using assms(3)
proof (induction n)
  case 0
  then show ?case by (subst chain_find.simps) simp
next
  case (Suc n)
  then have n: "n < length ds" by simp
  show ?case
  proof (cases "in_chain m c (ds ! n)")
    case False
    then show ?thesis using Suc.IH n by (simp add: last_idx_take_Suc)
  next
    case True
    then have "chain_find f ds (last_idx (in_chain m c) (take (Suc n) ds)) = chain_find f ds n"
      using n by (simp add: last_idx_take_Suc)
    also have "\<dots> = (if f (ds ! n) then Some (Some n)
        else chain_find f ds (last_idx (in_chain m c) (take n ds)))"
      using n assms(2) chainsD(2) [OF assms(1) n True] by (subst chain_find.simps) simp
    finally show ?thesis using Suc.IH n True assms(2) by (simp add: last_idx_take_Suc)
  qed
qed

text \<open>The same walk with the predecessor.\<close>

definition pred_ok :: "('v bucket \<Rightarrow> bool) \<Rightarrow> 'v bucket list \<Rightarrow> nat \<Rightarrow> nat option \<Rightarrow> bool" where
  "pred_ok C ds j pr \<longleftrightarrow>
     (case pr of None \<Rightarrow> last_idx C ds = j
      | Some p \<Rightarrow> p < length ds \<and> C (ds ! p) \<and> last_idx C (take p ds) = j)"

lemma chain_del_eq:
  fixes f :: "'v bucket \<Rightarrow> bool"
  assumes "chains m hs ds" and "length ds < HT_INVALID_IDX" and "n \<le> length ds"
    and "pred_ok (in_chain m c) ds (last_idx (in_chain m c) (take n ds)) prev"
  defines "j \<equiv> last_idx (\<lambda>b. in_chain m c b \<and> f b) (take n ds)"
  shows "j = HT_INVALID_IDX \<and>
      chain_del f ds (last_idx (in_chain m c) (take n ds)) prev = Some None \<or>
    (\<exists>pr. j \<noteq> HT_INVALID_IDX \<and>
      chain_del f ds (last_idx (in_chain m c) (take n ds)) prev = Some (Some (j, pr)) \<and>
      pred_ok (in_chain m c) ds j pr)"
  using assms(3,4) unfolding j_def
proof (induction n arbitrary: prev)
  case 0
  then show ?case by (subst chain_del.simps) simp
next
  case (Suc n)
  then have n: "n < length ds" by simp
  show ?case
  proof (cases "in_chain m c (ds ! n)")
    case False
    then show ?thesis using Suc.IH [of prev] Suc.prems n by (simp add: last_idx_take_Suc)
  next
    case True
    then have first: "chain_del f ds (last_idx (in_chain m c) (take (Suc n) ds)) prev = chain_del f ds n prev"
      using n by (simp add: last_idx_take_Suc)
    have step: "chain_del f ds n prev = (if f (ds ! n) then Some (Some (n, prev))
        else chain_del f ds (last_idx (in_chain m c) (take n ds)) (Some n))"
      using n assms(2) chainsD(2) [OF assms(1) n True] by (subst chain_del.simps) simp
    have "pred_ok (in_chain m c) ds (last_idx (in_chain m c) (take n ds)) (Some n)"
      using n True by (simp add: pred_ok_def)
    then show ?thesis
      using Suc.IH [of "Some n"] Suc.prems(2) n True assms(2) unfolding first step
      by (auto simp: last_idx_take_Suc)
  qed
qed

lemma in_chain_next [simp]: "in_chain m c (b\<lparr>b_next := x\<rparr>) = in_chain m c b"
  by (simp add: in_chain_def live_def)

lemma live_next [simp]: "live (b\<lparr>b_next := x\<rparr>) = live b"
  by (simp add: live_def)

lemma chains_append:
  assumes "chains m hs ds" and "live b" and "c = ht_slot m (b_h b)" and "c < length hs"
    and "b_next b = hs ! c"
  shows "chains m (hs[c := length ds]) (ds @ [b])"
  using assms unfolding chains_def
  by (auto simp: nth_append nth_list_update in_chain_def less_Suc_eq)

lemma chains_drop_dead:
  assumes "chains m hs (ds @ es)" and "\<forall>b \<in> set es. \<not> live b"
  shows "chains m hs ds"
  unfolding chains_def
proof (intro conjI allI impI)
  fix c assume "c < length hs"
  then show "hs ! c = last_idx (in_chain m c) ds"
    using chainsD(1) [OF assms(1), of c] assms(2) by (simp add: last_idx_append_none in_chain_def)
next
  fix i assume "i < length ds" and "live (ds ! i)"
  then show "b_next (ds ! i) = last_idx (in_chain m (ht_slot m (b_h (ds ! i)))) (take i ds)"
    using chainsD(2) [OF assms(1), of i] by (simp add: nth_append in_chain_def)
qed

text \<open>Unlinking bucket \<open>j\<close> through its predecessor and marking it dead.\<close>

definition unlink_hash :: "32 word \<Rightarrow> nat list \<Rightarrow> 'v bucket list \<Rightarrow> nat \<Rightarrow> nat option \<Rightarrow> nat list" where
  "unlink_hash m hs ds j pr =
     (case pr of None \<Rightarrow> hs[ht_slot m (b_h (ds ! j)) := b_next (ds ! j)] | Some p \<Rightarrow> hs)"

definition unlink_data :: "'v bucket list \<Rightarrow> nat \<Rightarrow> nat option \<Rightarrow> 'v bucket list" where
  "unlink_data ds j pr =
     (case pr of None \<Rightarrow> ds | Some p \<Rightarrow> ds[p := (ds ! p)\<lparr>b_next := b_next (ds ! j)\<rparr>])"

lemma unlink_data_nth:
  "i < length ds \<Longrightarrow> unlink_data ds j pr ! i =
     (if pr = Some i then (ds ! i)\<lparr>b_next := b_next (ds ! j)\<rparr> else ds ! i)"
  by (auto simp: unlink_data_def split: option.splits)

lemma unlink_data_length [simp]: "length (unlink_data ds j pr) = length ds"
  by (simp add: unlink_data_def split: option.splits)

lemma pred_unique:
  assumes "pred_ok C ds j pr" and "length ds < HT_INVALID_IDX" and "j < i" and "i < length ds"
    and "C (ds ! i)" and "last_idx C (take i ds) = j"
  shows "pr = Some i"
proof (cases pr)
  case None
  then have "last_idx C ds = j" using assms(1) by (simp add: pred_ok_def)
  then show ?thesis using assms(2-5) by (cases rule: last_idx_cases [of C ds]) auto
next
  case (Some p)
  then have p: "p < length ds" "C (ds ! p)" "last_idx C (take p ds) = j"
    using assms(1) by (auto simp: pred_ok_def)
  have "\<not> i < p"
  proof
    assume "i < p"
    then show False using p(3) assms(2-5) p(1)
      by (cases rule: last_idx_cases [of C "take p ds"]) (auto simp: in_set_conv_nth)
  qed
  moreover have "\<not> p < i"
  proof
    assume "p < i"
    then have "j < p" using p(3) assms(2,3,4)
      by (cases rule: last_idx_cases [of C "take p ds"]) auto
    then show False using \<open>p < i\<close> p(2) assms(2,4,6)
      by (cases rule: last_idx_cases [of C "take i ds"]) auto
  qed
  ultimately show ?thesis using Some by simp
qed

lemma pred_gt:
  assumes "pred_ok C ds j (Some p)" and "length ds < HT_INVALID_IDX" and "j < length ds"
  shows "j < p \<and> p < length ds \<and> C (ds ! p) \<and> last_idx C (take p ds) = j"
  using assms by (cases rule: last_idx_cases [of C "take p ds"]) (auto simp: pred_ok_def)

lemma chains_unlink:
  assumes ch: "chains m hs ds" and len: "length ds < HT_INVALID_IDX" and j: "j < length ds"
    and lj: "live (ds ! j)" and dead: "\<not> live b" and c: "c = ht_slot m (b_h (ds ! j))"
    and pr: "pred_ok (in_chain m c) ds j pr"
  shows "chains m (unlink_hash m hs ds j pr) ((unlink_data ds j pr)[j := b])"
proof -
  define es where "es = (unlink_data ds j pr)[j := b]"
  have les: "length es = length ds" by (simp add: es_def)
  have esj: "\<not> in_chain m c' (es ! j)" for c' using dead j by (simp add: es_def in_chain_def)
  have esi: "in_chain m c' (es ! i) = in_chain m c' (ds ! i)" if "i < length ds" "i \<noteq> j" for c' i
    using that by (simp add: es_def unlink_data_nth)
  have cj: "in_chain m c (ds ! j)" using lj c by (simp add: in_chain_def)
  have other: "last_idx (in_chain m c') (take n es) = last_idx (in_chain m c') (take n ds)"
    if "c' \<noteq> c \<or> n \<le> j" for c' n
  proof (rule last_idx_cong)
    fix i assume "i < length (take n es)"
    then show "in_chain m c' (take n es ! i) = in_chain m c' (take n ds ! i)"
      using that esi [of i c'] esj [of c'] c les by (cases "i = j") (auto simp: in_chain_def)
  qed (simp add: les)
  have same: "last_idx (in_chain m c) (take n es) =
      (if last_idx (in_chain m c) (take n ds) = j then b_next (ds ! j)
       else last_idx (in_chain m c) (take n ds))" if "j < n" for n
    using last_idx_drop_one [of "take n ds" j "take n es" "in_chain m c" "in_chain m c"]
      that len j les esj esi chainsD(2) [OF ch j cj] by (simp add: min_absorb1)
  have "last_idx (in_chain m c') es = unlink_hash m hs ds j pr ! c'" if "c' < length hs" for c'
  proof (cases "c' = c")
    case False
    then show ?thesis using other [of c' "length ds"] chainsD(1) [OF ch that] les c
      by (simp add: unlink_hash_def split: option.splits)
  next
    case True
    have "last_idx (in_chain m c) ds \<noteq> j" if "pr = Some p" for p
      using pred_gt [OF pr [unfolded that] len j] last_idx_ge [of p ds "in_chain m c"] by linarith
    then show ?thesis
      using same [of "length ds"] j les True that c pr chainsD(1) [OF ch that]
      by (auto simp: unlink_hash_def pred_ok_def split: option.splits)
  qed
  moreover have "b_next (es ! i) = last_idx (in_chain m (ht_slot m (b_h (es ! i)))) (take i es)"
    if "i < length es" "live (es ! i)" for i
  proof -
    have ij: "i \<noteq> j" "i < length ds" using that les dead j by (auto simp: es_def)
    define c' where "c' = ht_slot m (b_h (ds ! i))"
    have hi: "b_h (es ! i) = b_h (ds ! i)" "live (ds ! i)"
      using that ij by (auto simp: es_def unlink_data_nth split: if_splits)
    then have ci: "in_chain m c' (ds ! i)" by (simp add: in_chain_def c'_def)
    have ne: "b_next (es ! i) = (if pr = Some i then b_next (ds ! j) else last_idx (in_chain m c') (take i ds))"
      using ij chainsD(2) [OF ch ij(2) ci] by (simp add: es_def unlink_data_nth)
    show ?thesis
    proof (cases "c' = c \<and> j < i")
      case True
      have "pr = Some i" if "last_idx (in_chain m c) (take i ds) = j"
        using pred_unique [OF pr len _ ij(2)] True ci that by simp
      moreover have "last_idx (in_chain m c) (take i ds) = j" if "pr = Some i"
        using pred_gt [OF pr [unfolded that] len j] by simp
      ultimately show ?thesis using ne same [of i] True hi c'_def by auto
    next
      case False
      then have "pr \<noteq> Some i"
        using pred_gt [OF _ len j, of "in_chain m c" i] pr ci by (auto simp: in_chain_def c'_def)
      then show ?thesis using ne other [of c' i] False hi c'_def by auto
    qed
  qed
  ultimately show ?thesis unfolding chains_def es_def [symmetric] using les
    by (simp add: unlink_hash_def split: option.splits)
qed

section \<open>Rebuilding the chains\<close>

text \<open>A bucket without its chain pointer.\<close>

definition content :: "'v bucket \<Rightarrow> 'v zval \<times> 64 word \<times> string option" where
  "content b = (b_val b, b_h b, b_key b)"

lemma content_next [simp]: "content (b\<lparr>b_next := x\<rparr>) = content b"
  by (simp add: content_def)

lemma live_content: "live b \<longleftrightarrow> fst (content b) \<noteq> IS_UNDEF"
  by (simp add: live_def content_def)

lemma filter_live_content:
  "map content (filter live ds) = filter (\<lambda>x. fst x \<noteq> IS_UNDEF) (map content ds)"
  by (induction ds) (auto simp: live_content)

lemma all_live_content:
  "(\<forall>b \<in> set ds. live b) \<longleftrightarrow> (\<forall>x \<in> set (map content ds). fst x \<noteq> IS_UNDEF)"
  by (auto simp: live_content)

lemma ht_link_step:
  assumes "chains m hs (take i ds)" and "i < length ds" and "live (ds ! i)"
    and "\<forall>h. ht_slot m h < length hs"
  obtains hs' ds' where "ht_link m hs ds i = Some (hs', ds')" "length hs' = length hs"
    "chains m hs' (take (Suc i) ds')" "map content ds' = map content ds" "drop (Suc i) ds' = drop (Suc i) ds"
    "length ds' = length ds"
proof
  let ?c = "ht_slot m (b_h (ds ! i))"
  let ?b = "(ds ! i)\<lparr>b_next := hs ! ?c\<rparr>"
  show "ht_link m hs ds i = Some (hs[?c := i], ds[i := ?b])"
    using assms(2,4) by (simp add: ht_link_def Let_def)
  have "chains m (hs[?c := length (take i ds)]) (take i ds @ [?b])"
    by (rule chains_append [OF assms(1)]) (use assms(3,4) in simp_all)
  then show "chains m (hs[?c := i]) (take (Suc i) (ds[i := ?b]))"
    using assms(2) by (simp add: take_Suc_conv_app_nth)
  have "map content (ds[i := ?b]) = (map content ds)[i := content ?b]" by (rule map_update)
  also have "content ?b = map content ds ! i" using assms(2) by simp
  finally show "map content (ds[i := ?b]) = map content ds" by (simp only: list_update_id)
qed simp_all

lemma rehash_plain_chains:
  assumes "chains m hs (take i ds)" and "i < length ds" and "\<forall>b \<in> set ds. live b"
    and "\<forall>h. ht_slot m h < length hs"
  shows "\<exists>hs' ds'. rehash_plain m hs ds i = Some (hs', ds') \<and> length hs' = length hs \<and>
    chains m hs' ds' \<and> map content ds' = map content ds"
  using assms
proof (induction m hs ds i rule: rehash_plain.induct)
  case (1 m hs ds i)
  obtain hs' ds' where l: "ht_link m hs ds i = Some (hs', ds')" "length hs' = length hs"
    "chains m hs' (take (Suc i) ds')" "map content ds' = map content ds" "length ds' = length ds"
    using ht_link_step [OF 1(2,3) _ 1(5)] 1(3,4) by (metis nth_mem)
  show ?case
  proof (cases "Suc i < length ds'")
    case False
    then show ?thesis using l 1(3) by (subst rehash_plain.simps) simp
  next
    case True
    have "\<forall>b \<in> set ds'. live b" using 1(4) l(4) unfolding all_live_content by simp
    with 1(1) [OF l(1) refl True l(3) True _] 1(5) l(2) obtain hs2 ds2 where
      "rehash_plain m hs' ds' (Suc i) = Some (hs2, ds2)" "length hs2 = length hs'"
      "chains m hs2 ds2" "map content ds2 = map content ds'" by auto
    then show ?thesis using l True by (subst rehash_plain.simps) simp
  qed
qed

lemma lower_pos_bound:
  "start \<le> used \<Longrightarrow> start \<le> zend_hash_iterators_lower_pos its used start \<and>
     zend_hash_iterators_lower_pos its used start \<le> used"
  unfolding zend_hash_iterators_lower_pos_def
proof (induction its arbitrary: used)
  case (Cons p its)
  show ?case using Cons.prems Cons.IH [of p] Cons.IH [of used]
    by (cases "start \<le> p \<and> p < used") auto
qed simp

lemma iter_move_total:
  "pos \<le> i \<Longrightarrow> i < used \<Longrightarrow> \<exists>r. iter_move used i j its pos = Some r"
proof (induction "i - pos" arbitrary: pos its rule: less_induct)
  case less
  define its' where "its' = zend_hash_iterators_update its pos j"
  define q where "q = zend_hash_iterators_lower_pos its' used (pos + 1)"
  have "pos + 1 \<le> q" using lower_pos_bound [of "pos + 1" used its'] less.prems by (simp add: q_def)
  then show ?case using less.hyps [of q its'] less.prems unfolding q_def
    by (subst iter_move.simps) (auto simp: Let_def simp flip: its'_def Suc_eq_plus1 simp: q_def)
qed

lemma compact_loop_chains:
  assumes "chains m hs (take j ds)" and "j \<le> i" and "i < length ds"
    and "\<forall>h. ht_slot m h < length hs"
  shows "\<exists>hs' ds' ip' its'. compact_loop m hs ds i j ip its pos = Some (hs', ds', ip', its') \<and>
    length hs' = length hs \<and> chains m hs' ds' \<and>
    map content ds' = map content (take j ds) @ map content (filter live (drop (Suc i) ds))"
  using assms
proof (induction m hs ds i j ip its pos rule: compact_loop.induct)
  case (1 m hs ds i j ip its pos)
  show ?case
  proof (cases "Suc i < length ds")
    case False
    then show ?thesis using 1(5,6) by (subst compact_loop.simps) (simp add: 1(4))
  next
    case i: True
    have drop: "drop (Suc i) ds = ds ! Suc i # drop (Suc (Suc i)) ds" using i by (simp add: Cons_nth_drop_Suc)
    show ?thesis
    proof (cases "live (ds ! Suc i)")
      case False
      then have u: "b_val (ds ! Suc i) = IS_UNDEF" by (simp add: live_def)
      from 1(1) [OF refl i u 1(4) _ i 1(7)] 1(5) False drop i u show ?thesis
        by (subst compact_loop.simps) simp
    next
      case True
      then have u: "b_val (ds ! Suc i) \<noteq> IS_UNDEF" by (simp add: live_def)
      define es where "es = ds[j := (ds ! j)\<lparr>b_val := b_val (ds ! Suc i), b_h := b_h (ds ! Suc i),
        b_key := b_key (ds ! Suc i)\<rparr>]"
      have j: "j < length ds" using 1(5,6) by simp
      have es: "length es = length ds" "take j es = take j ds" "drop (Suc (Suc i)) es = drop (Suc (Suc i)) ds"
        "content (es ! j) = content (ds ! Suc i)" "live (es ! j)"
        using j 1(5) True by (simp_all add: es_def content_def live_def)
      obtain hs' ds' where l: "ht_link m hs es j = Some (hs', ds')" "length hs' = length hs"
        "chains m hs' (take (Suc j) ds')" "map content ds' = map content es"
        "drop (Suc j) ds' = drop (Suc j) es" "length ds' = length es"
        using ht_link_step [of m hs j es] 1(4,7) es j by metis
      define ip' where "ip' = (if ip = Suc i then j else ip)"
      have tk: "map content (take (Suc j) ds') = map content (take j ds) @ [content (ds ! Suc i)]"
      proof -
        have "map content (take (Suc j) ds') = take (Suc j) (map content es)" by (metis l(4) take_map)
        also have "\<dots> = map content (take j es) @ [content (es ! j)]"
          using j es(1) by (simp add: take_Suc_conv_app_nth take_map)
        finally show ?thesis using es by simp
      qed
      have dr: "drop (Suc (Suc i)) ds' = drop (Suc (Suc i)) ds"
      proof -
        have "drop (Suc (Suc i)) ds' = drop (Suc i - j) (drop (Suc j) ds')" using 1(5) by simp
        also have "\<dots> = drop (Suc (Suc i)) es" using 1(5) l(5) by simp
        finally show ?thesis using es(3) by simp
      qed
      have rec: "\<exists>hs2 ds2 ip2 its2. compact_loop m hs' ds' (Suc i) (Suc j) ip' its' pos' =
            Some (hs2, ds2, ip2, its2) \<and> length hs2 = length hs \<and> chains m hs2 ds2 \<and>
          map content ds2 = map content (take j ds) @ map content (filter live (drop (Suc i) ds))"
        if "\<exists>hs2 ds2 ip2 its2. compact_loop m hs' ds' (Suc i) (Suc j) ip' its' pos' =
            Some (hs2, ds2, ip2, its2) \<and> length hs2 = length hs' \<and> chains m hs2 ds2 \<and>
          map content ds2 = map content (take (Suc j) ds') @ map content (filter live (drop (Suc (Suc i)) ds'))"
        for its' pos'
        using that tk dr l(2) True drop by auto
      have pre: "Suc j \<le> Suc i" "Suc i < length ds'" "\<forall>h. ht_slot m h < length hs'"
        using 1(5,7) i l es by auto
      show ?thesis
      proof (cases "pos \<le> Suc i")
        case True
        obtain its2 pos2 where mv: "iter_move (length ds') (Suc i) j its pos = Some (its2, pos2)"
          using iter_move_total [OF True pre(2), of j its] by auto
        have "compact_loop m hs ds i j ip its pos = compact_loop m hs' ds' (Suc i) (Suc j) ip' its2 pos2"
          using i u l(1) True mv by (subst compact_loop.simps) (simp add: Let_def es_def ip'_def)
        then show ?thesis
          using rec [OF 1(2) [OF refl i u l(1) [unfolded es_def] refl refl True mv refl l(3) pre,
                folded ip'_def]] by simp
      next
        case False
        then have "compact_loop m hs ds i j ip its pos = compact_loop m hs' ds' (Suc i) (Suc j) ip' its pos"
          using i u l(1) by (subst compact_loop.simps) (simp add: Let_def es_def ip'_def)
        then show ?thesis
          using rec [OF 1(3) [OF refl i u l(1) [unfolded es_def] refl refl False l(3) pre,
                folded ip'_def]] by simp
      qed
    qed
  qed
qed

lemma rehash_holes_chains:
  assumes "chains m hs (take i ds)" and "i < length ds" and "\<forall>b \<in> set (take i ds). live b"
    and "\<forall>h. ht_slot m h < length hs"
  shows "\<exists>hs' ds' ip' its'. rehash_holes m hs ds i ip its = Some (hs', ds', ip', its') \<and>
    length hs' = length hs \<and> chains m hs' ds' \<and> map content ds' = map content (filter live ds)"
  using assms
proof (induction m hs ds i ip its rule: rehash_holes.induct)
  case (1 m hs ds i ip its)
  show ?case
  proof (cases "live (ds ! i)")
    case False
    define pos where "pos = zend_hash_iterators_lower_pos its (length ds) (i + 1)"
    have "filter live ds = filter live (take i ds) @ filter live (drop i ds)"
      by (metis append_take_drop_id filter_append)
    also have "drop i ds = ds ! i # drop (Suc i) ds" using 1(3) by (simp add: Cons_nth_drop_Suc)
    finally have "filter live ds = take i ds @ filter live (drop (Suc i) ds)"
      using False 1(4) by (simp add: filter_id_conv)
    moreover have "rehash_holes m hs ds i ip its = compact_loop m hs ds i i ip its pos"
      using 1(3) False by (subst rehash_holes.simps) (simp add: live_def pos_def)
    ultimately show ?thesis
      using compact_loop_chains [OF 1(2) order_refl 1(3) 1(5), of ip its pos] by simp
  next
    case True
    then have u: "b_val (ds ! i) \<noteq> IS_UNDEF" by (simp add: live_def)
    obtain hs' ds' where l: "ht_link m hs ds i = Some (hs', ds')" "length hs' = length hs"
      "chains m hs' (take (Suc i) ds')" "map content ds' = map content ds" "length ds' = length ds"
      using ht_link_step [OF 1(2,3) True 1(5)] by metis
    have lv: "\<forall>b \<in> set (take (Suc i) ds). live b" using 1(3,4) True by (auto simp: take_Suc_conv_app_nth)
    then have lv': "\<forall>b \<in> set (take (Suc i) ds'). live b"
      unfolding all_live_content take_map [symmetric] l(4) .
    have fl: "map content (filter live ds') = map content (filter live ds)"
      by (simp add: filter_live_content l(4))
    show ?thesis
    proof (cases "Suc i < length ds'")
      case False
      then have "filter live ds' = ds'" using lv' by (simp add: filter_id_conv)
      then show ?thesis using False l 1(3) u fl by (subst rehash_holes.simps) simp
    next
      case s: True
      with 1(1) [OF 1(3) u l(1) refl s l(3) s lv'] 1(5) l(2) obtain hs2 ds2 ip2 its2 where
        "rehash_holes m hs' ds' (Suc i) ip its = Some (hs2, ds2, ip2, its2)" "length hs2 = length hs'"
        "chains m hs2 ds2" "map content ds2 = map content (filter live ds')" by auto
      then show ?thesis using l s 1(3) u fl by (subst rehash_holes.simps) simp
    qed
  qed
qed

section \<open>Abstract value and invariant\<close>

datatype hkey = Idx "64 word" | Str string

definition bkey :: "'v bucket \<Rightarrow> hkey" where
  "bkey b = (case b_key b of None \<Rightarrow> Idx (b_h b) | Some k \<Rightarrow> Str k)"

definition data_elems :: "'v bucket list \<Rightarrow> (hkey \<times> 'v zval) list" where
  "data_elems ds = map (\<lambda>b. (bkey b, b_val b)) (filter live ds)"

definition packed_elems :: "'v zval list \<Rightarrow> (hkey \<times> 'v zval) list" where
  "packed_elems vs =
     map (\<lambda>(i, v). (Idx (word_of_nat i), v)) (filter (\<lambda>(i, v). v \<noteq> IS_UNDEF) (enumerate 0 vs))"

definition ht_elems :: "'v HashTable \<Rightarrow> (hkey \<times> 'v zval) list" where
  "ht_elems ht = (if flag_packed ht then packed_elems (arPacked ht) else data_elems (arData ht))"

definition key_ok :: "'v bucket \<Rightarrow> bool" where
  "key_ok b \<longleftrightarrow> (\<forall>k. b_key b = Some k \<longrightarrow> b_h b = zend_inline_hash_func k)"

text \<open>The invariant for a table in use with chains, a packed one, and one not yet allocated.\<close>

definition mixed_wf :: "'v HashTable \<Rightarrow> bool" where
  "mixed_wf ht \<longleftrightarrow>
     nTableMask ht = HT_SIZE_TO_MASK (nTableSize ht) \<and> length (arHash ht) = 2 * nTableSize ht \<and>
     length (arData ht) \<le> nTableSize ht \<and> (\<forall>b \<in> set (arData ht). live b \<longrightarrow> key_ok b) \<and>
     distinct (map fst (data_elems (arData ht))) \<and> chains (nTableMask ht) (arHash ht) (arData ht)"

definition no_hash :: "'v HashTable \<Rightarrow> bool" where
  "no_hash ht \<longleftrightarrow> nTableMask ht = HT_MIN_MASK \<and> arHash ht = [HT_INVALID_IDX, HT_INVALID_IDX] \<and> arData ht = []"

definition hash_wf :: "'v HashTable \<Rightarrow> bool" where
  "hash_wf ht \<longleftrightarrow>
     size_ok (nTableSize ht) \<and> nNumOfElements ht = length (ht_elems ht) \<and>
     ZEND_LONG_MIN \<le> nNextFreeElement ht \<and> nNextFreeElement ht \<le> ZEND_LONG_MAX \<and>
     (if flag_packed ht
      then no_hash ht \<and> length (arPacked ht) \<le> nTableSize ht \<and> \<not> flag_uninit ht
      else if flag_uninit ht then no_hash ht
      else mixed_wf ht)"

lemma data_elems_append [simp]: "data_elems (ds @ es) = data_elems ds @ data_elems es"
  by (simp add: data_elems_def)

lemma data_elems_Nil [simp]: "data_elems [] = []"
  by (simp add: data_elems_def)

lemma data_elems_content: "map content (filter live ds) = map content (filter live es) \<Longrightarrow>
  data_elems ds = data_elems es"
proof -
  assume a: "map content (filter live ds) = map content (filter live es)"
  have e: "data_elems xs = map (\<lambda>(v, h, k). (case k of None \<Rightarrow> Idx h | Some k \<Rightarrow> Str k, v)) (map content (filter live xs))"
    for xs :: "'a bucket list" by (simp add: data_elems_def bkey_def content_def)
  show ?thesis unfolding e a ..
qed

lemma key_ok_content: "content b = content b' \<Longrightarrow> key_ok b = key_ok b'"
  by (simp add: key_ok_def content_def)

lemma keys_ok_content:
  assumes "map content ds = map content (filter live es)" and "\<forall>b \<in> set es. live b \<longrightarrow> key_ok b"
  shows "\<forall>b \<in> set ds. key_ok b"
proof
  fix b assume "b \<in> set ds"
  then have "content b \<in> set (map content (filter live es))" using assms(1) by (metis image_eqI list.set_map)
  then obtain b' where "b' \<in> set es" "live b'" "content b = content b'" by auto
  then show "key_ok b" using assms(2) key_ok_content by metis
qed

text \<open>Rehashing a table leaves its elements alone, drops the holes and restores the chains; the old
  chains need not be intact.\<close>

lemma zend_hash_rehash_wf:
  assumes "size_ok (nTableSize ht)" and "\<not> flag_packed ht" and "\<not> flag_uninit ht"
    and "nTableMask ht = HT_SIZE_TO_MASK (nTableSize ht)" and "length (arData ht) \<le> nTableSize ht"
    and "\<forall>b \<in> set (arData ht). live b \<longrightarrow> key_ok b" and "distinct (map fst (data_elems (arData ht)))"
    and "nNumOfElements ht = length (data_elems (arData ht))"
  obtains hs ds ip its where
    "zend_hash_rehash ht = Ret (ht\<lparr>arHash := hs, arData := ds, nInternalPointer := ip, ht_iterators := its\<rparr>)"
    "mixed_wf (ht\<lparr>arHash := hs, arData := ds\<rparr>)" "data_elems ds = data_elems (arData ht)"
    "length ds = nNumOfElements ht"
proof -
  note result = that
  let ?hs = "HT_HASH_RESET (nTableMask ht)"
  have len: "length ?hs = 2 * nTableSize ht" and slot: "\<forall>h. ht_slot (nTableMask ht) h < length ?hs"
    using size_mask [OF assms(1)] assms(4) by (simp_all add: HT_HASH_RESET_def)
  have num: "nNumOfElements ht = length (filter live (arData ht))"
    using assms(8) by (simp add: data_elems_def)
  have wf: thesis
    if r: "zend_hash_rehash ht = Ret (ht\<lparr>arHash := hs, arData := ds, nInternalPointer := ip, ht_iterators := its\<rparr>)"
      and l: "length hs = length ?hs" and c: "chains (nTableMask ht) hs ds"
      and m: "map content ds = map content (filter live (arData ht))" for hs ds ip its
  proof (rule result [OF r])
    have "\<forall>b \<in> set ds. live b" unfolding all_live_content m by (auto simp: live_content)
    then have fl: "filter live ds = ds" by (simp add: filter_id_conv)
    show e: "data_elems ds = data_elems (arData ht)" by (rule data_elems_content) (simp add: fl m)
    show ld: "length ds = nNumOfElements ht" using m num by (metis length_map)
    then have "length ds \<le> nTableSize ht" using num assms(5) by (metis le_trans length_filter_le)
    then show "mixed_wf (ht\<lparr>arHash := hs, arData := ds\<rparr>)"
      using l len c e keys_ok_content [OF m assms(6)] assms(4,7) by (simp add: mixed_wf_def)
  qed
  show thesis
  proof (cases "nNumOfElements ht = 0")
    case True
    then have "filter live (arData ht) = []" using num by simp
    then show ?thesis
      using True assms(3) wf [of "ht_iterators ht" "nInternalPointer ht" "[]" ?hs]
        chains_empty [of "nTableMask ht" "nTableMask ht"]
      by (simp add: zend_hash_rehash_def)
  next
    case False
    then have ne: "0 < length (arData ht)" using num by auto
    show ?thesis
    proof (cases "length (arData ht) = nNumOfElements ht")
      case True
      then have "\<forall>b \<in> set (arData ht). live b" and f: "filter live (arData ht) = arData ht"
        using num by (metis filter_id_conv length_filter_less less_irrefl)+
      from rehash_plain_chains [OF _ ne this(1) slot] chains_empty obtain hs ds where
        "rehash_plain (nTableMask ht) ?hs (arData ht) 0 = Some (hs, ds)" "length hs = length ?hs"
        "chains (nTableMask ht) hs ds" "map content ds = map content (arData ht)" by (metis take0)
      then show ?thesis
        using wf [of "ht_iterators ht" "nInternalPointer ht" ds hs] f False True
        by (simp add: zend_hash_rehash_def)
    next
      case holes: False
      from rehash_holes_chains [OF _ ne _ slot] chains_empty obtain hs ds ip its where
        "rehash_holes (nTableMask ht) ?hs (arData ht) 0 (nInternalPointer ht) (ht_iterators ht) =
           Some (hs, ds, ip, its)" "length hs = length ?hs"
        "chains (nTableMask ht) hs ds" "map content ds = map content (filter live (arData ht))"
        by (metis take0 empty_iff list.set(1))
      then show ?thesis
        using wf [of "zend_hash_iterators_update its (length (arData ht)) (length ds)" ip ds hs] False holes
        by (simp add: zend_hash_rehash_def)
    qed
  qed
qed

end
