(* ===== verification/Zend_Hash_Ops.thy ===== *)
theory Zend_Hash_Ops
  imports Zend_Hash_Inv "HOL-Library.AList"
begin

text \<open>
  The operations of the hash table against association lists: a lookup is \<open>map_of\<close>, an insertion
  \<open>AList.update\<close> (the value is replaced in place or the new key goes to the end), a deletion
  \<open>AList.delete\<close>. The table is \<open>ht_elems ht\<close> seen as a list of keys and values.
\<close>

section \<open>Association lists\<close>

lemma update_new: "k \<notin> fst ` set xs \<Longrightarrow> AList.update k v xs = xs @ [(k, v)]"
  by (induction xs) auto

lemma update_mid:
  "k \<notin> fst ` set xs \<Longrightarrow> AList.update k v (xs @ (k, w) # ys) = xs @ (k, v) # ys"
  by (induction xs) auto

lemma delete_mid:
  "distinct (map fst (xs @ (k, w) # ys)) \<Longrightarrow> AList.delete k (xs @ (k, w) # ys) = xs @ ys"
proof -
  assume d: "distinct (map fst (xs @ (k, w) # ys))"
  then have "k \<notin> fst ` set xs" "k \<notin> fst ` set ys" by auto
  then have "AList.delete k xs = xs" "AList.delete k ys = ys"
    by (force simp: AList.delete_eq filter_id_conv)+
  then show ?thesis by (simp add: AList.delete_eq)
qed

section \<open>Finding a bucket\<close>

definition find_pos :: "hkey \<Rightarrow> 'v bucket list \<Rightarrow> nat option" where
  "find_pos k ds =
     (let j = last_idx (\<lambda>b. live b \<and> bkey b = k) ds in if j = HT_INVALID_IDX then None else Some j)"

lemma data_elems_split:
  assumes "j < length ds" and "live (ds ! j)"
  shows "data_elems ds =
    data_elems (take j ds) @ (bkey (ds ! j), b_val (ds ! j)) # data_elems (drop (Suc j) ds)"
proof -
  have "data_elems ds = data_elems (take j ds @ ds ! j # drop (Suc j) ds)"
    using assms(1) by (simp add: id_take_nth_drop [symmetric])
  then show ?thesis using assms(2) by (simp add: data_elems_def)
qed

lemma find_pos_None:
  "length ds < HT_INVALID_IDX \<Longrightarrow> find_pos k ds = None \<Longrightarrow> k \<notin> fst ` set (data_elems ds)"
  by (cases rule: last_idx_cases [of "\<lambda>b. live b \<and> bkey b = k" ds])
    (auto simp: find_pos_def Let_def data_elems_def split: if_splits)

lemma find_pos_Some:
  assumes "length ds < HT_INVALID_IDX" and "find_pos k ds = Some j"
  shows "j < length ds" and "live (ds ! j)" and "bkey (ds ! j) = k"
  using assms
  by (cases rule: last_idx_cases [of "\<lambda>b. live b \<and> bkey b = k" ds];
      auto simp: find_pos_def Let_def split: if_splits)+

lemma find_pos_map_of:
  assumes "length ds < HT_INVALID_IDX" and "distinct (map fst (data_elems ds))"
  shows "map_of (data_elems ds) k = map_option (\<lambda>j. b_val (ds ! j)) (find_pos k ds)"
proof (cases "find_pos k ds")
  case None
  then show ?thesis using find_pos_None [OF assms(1)] by (simp add: map_of_eq_None_iff)
next
  case (Some j)
  note j = find_pos_Some [OF assms(1) Some]
  have "(k, b_val (ds ! j)) \<in> set (data_elems ds)"
    unfolding data_elems_split [OF j(1,2)] using j(3) by simp
  then show ?thesis using Some assms(2) by simp
qed

lemma mixed_length: "mixed_wf ht \<Longrightarrow> size_ok (nTableSize ht) \<Longrightarrow> length (arData ht) < HT_INVALID_IDX"
  using size_ok_bounds [of "nTableSize ht"] by (auto simp: mixed_wf_def)

lemma mixed_chains: "mixed_wf ht \<Longrightarrow> chains (nTableMask ht) (arHash ht) (arData ht)"
  unfolding mixed_wf_def by blast

lemma mixed_slot:
  "mixed_wf ht \<Longrightarrow> size_ok (nTableSize ht) \<Longrightarrow> ht_slot (nTableMask ht) h < length (arHash ht)"
  using size_mask(1) [of "nTableSize ht"] by (auto simp: mixed_wf_def)

text \<open>The walk finds the bucket of a key when matching a live bucket of the chain means having the
  key.\<close>

definition key_hash :: "hkey \<Rightarrow> 64 word" where
  "key_hash k = (case k of Idx h \<Rightarrow> h | Str s \<Rightarrow> zend_inline_hash_func s)"

lemma key_hash_simps [simp]: "key_hash (Idx h) = h" "key_hash (Str s) = zend_inline_hash_func s"
  by (simp_all add: key_hash_def)

definition key_matches :: "hkey \<Rightarrow> 'v bucket \<Rightarrow> bool" where
  "key_matches k = (case k of Idx h \<Rightarrow> has_index h | Str s \<Rightarrow> has_string s (zend_inline_hash_func s))"

lemma key_matches_iff:
  "key_ok b \<Longrightarrow> key_matches k b \<longleftrightarrow> bkey b = k"
  by (auto simp: key_matches_def has_index_def has_string_def bkey_def key_ok_def
      split: hkey.splits option.splits)

lemma key_ok_hash: "key_ok b \<Longrightarrow> b_h b = key_hash (bkey b)"
  by (auto simp: key_ok_def bkey_def split: option.splits)

lemma chain_pos:
  assumes "mixed_wf ht"
  shows "last_idx (\<lambda>b. in_chain (nTableMask ht) (ht_slot (nTableMask ht) (key_hash k)) b \<and> key_matches k b)
    (arData ht) = last_idx (\<lambda>b. live b \<and> bkey b = k) (arData ht)"
proof (rule last_idx_cong)
  fix i assume "i < length (arData ht)"
  then have "live (arData ht ! i) \<longrightarrow> key_ok (arData ht ! i)" using assms by (simp add: mixed_wf_def)
  then show "(in_chain (nTableMask ht) (ht_slot (nTableMask ht) (key_hash k)) (arData ht ! i) \<and>
      key_matches k (arData ht ! i)) = (live (arData ht ! i) \<and> bkey (arData ht ! i) = k)"
    using key_matches_iff [of "arData ht ! i" k] key_ok_hash [of "arData ht ! i"]
    by (auto simp: in_chain_def)
qed simp

lemma find_mixed:
  assumes "mixed_wf ht" and "size_ok (nTableSize ht)"
  shows "run_bind (HT_HASH ht (key_hash k)) (\<lambda>idx. run_of (chain_find (key_matches k) (arData ht) idx)) =
    Ret (find_pos k (arData ht))"
proof -
  let ?c = "ht_slot (nTableMask ht) (key_hash k)"
  have ch: "chains (nTableMask ht) (arHash ht) (arData ht)" by (rule mixed_chains [OF assms(1)])
  have "HT_HASH ht (key_hash k) = Ret (last_idx (in_chain (nTableMask ht) ?c) (arData ht))"
    using mixed_slot [OF assms] chainsD(1) [OF ch] by (simp add: HT_HASH_def Let_def)
  moreover have "chain_find (key_matches k) (arData ht) (last_idx (in_chain (nTableMask ht) ?c) (arData ht)) =
      Some (find_pos k (arData ht))"
    using chain_find_eq [OF ch mixed_length [OF assms] order_refl, of "key_matches k" ?c]
      chain_pos [OF assms(1), of k] by (simp add: find_pos_def)
  ultimately show ?thesis by simp
qed

lemma find_no_hash:
  "no_hash ht \<Longrightarrow> run_bind (HT_HASH ht h) (\<lambda>idx. run_of (chain_find f (arData ht) idx)) = Ret None"
proof -
  assume "no_hash ht"
  then have "HT_HASH ht h = Ret HT_INVALID_IDX"
    using min_mask_slot [of h] by (auto simp: HT_HASH_def Let_def no_hash_def less_2_cases_iff)
  then show ?thesis by (subst chain_find.simps) simp
qed

text \<open>In every state the walk finds the bucket of a string, or of an integer in a table that is not
  packed.\<close>

lemma find_any:
  assumes "hash_wf ht"
  shows "run_bind (HT_HASH ht (key_hash k)) (\<lambda>idx. run_of (chain_find (key_matches k) (arData ht) idx)) =
    Ret (find_pos k (arData ht))"
proof (cases "flag_packed ht \<or> flag_uninit ht")
  case True
  then have "no_hash ht" using assms by (auto simp: hash_wf_def split: if_splits)
  then show ?thesis by (simp add: find_no_hash) (simp add: no_hash_def find_pos_def)
next
  case False
  then show ?thesis using assms find_mixed by (auto simp: hash_wf_def)
qed

lemma find_bucket_eqs:
  assumes "hash_wf ht"
  shows "zend_hash_find_bucket ht key = Ret (find_pos (Str key) (arData ht))"
    and "zend_hash_str_find_bucket ht key (zend_inline_hash_func key) = Ret (find_pos (Str key) (arData ht))"
    and "zend_hash_index_find_bucket ht h = Ret (find_pos (Idx h) (arData ht))"
  using find_any [OF assms, of "Str key"] find_any [OF assms, of "Idx h"]
  by (simp_all add: zend_hash_find_bucket_def zend_hash_str_find_bucket_def
      zend_hash_index_find_bucket_def key_matches_def)

section \<open>Packed tables\<close>

text \<open>A packed array seen as buckets, as \<open>zend_hash_packed_to_hash\<close> writes them.\<close>

definition packed_buckets :: "'v zval list \<Rightarrow> 'v bucket list" where
  "packed_buckets vs =
     map (\<lambda>(i, zv). \<lparr>b_val = zv, b_next = HT_INVALID_IDX, b_h = word_of_nat i, b_key = None\<rparr>)
       (enumerate 0 vs)"

lemma packed_buckets_length [simp]: "length (packed_buckets vs) = length vs"
  by (simp add: packed_buckets_def)

lemma packed_buckets_nth:
  "i < length vs \<Longrightarrow> packed_buckets vs ! i =
     \<lparr>b_val = vs ! i, b_next = HT_INVALID_IDX, b_h = word_of_nat i, b_key = None\<rparr>"
  by (simp add: packed_buckets_def nth_enumerate_eq)

lemma packed_elems_data: "packed_elems vs = data_elems (packed_buckets vs)"
  by (auto simp: packed_elems_def data_elems_def packed_buckets_def filter_map o_def live_def bkey_def
      case_prod_beta intro!: map_cong filter_cong)

lemma packed_buckets_key: "b \<in> set (packed_buckets vs) \<Longrightarrow> key_ok b"
  by (auto simp: packed_buckets_def key_ok_def)

lemma word_of_nat_inj64: "a < HT_INVALID_IDX \<Longrightarrow> b < HT_INVALID_IDX \<Longrightarrow>
  (word_of_nat a :: 64 word) = word_of_nat b \<longleftrightarrow> a = b"
  by (simp add: word_of_nat_eq_iff take_bit_nat_eq_self)

lemma packed_keys_distinct:
  assumes "length vs < HT_INVALID_IDX"
  shows "distinct (map fst (data_elems (packed_buckets vs)))"
proof -
  have "distinct (map bkey (packed_buckets vs))"
    unfolding distinct_conv_nth
  proof (intro allI impI)
    fix i j assume "i < length (map bkey (packed_buckets vs))" "j < length (map bkey (packed_buckets vs))" "i \<noteq> j"
    then show "map bkey (packed_buckets vs) ! i \<noteq> map bkey (packed_buckets vs) ! j"
      using assms word_of_nat_inj64 [of i j] by (simp add: packed_buckets_nth bkey_def)
  qed
  then have "distinct (map bkey (filter live (packed_buckets vs)))" by (rule distinct_map_filter)
  moreover have "map fst (data_elems (packed_buckets vs)) = map bkey (filter live (packed_buckets vs))"
    by (simp add: data_elems_def)
  ultimately show ?thesis by simp
qed

lemma unat_index: "unat h < HT_INVALID_IDX \<Longrightarrow> word_of_nat (unat h) = (h :: 64 word)"
  by simp

lemma find_pos_unique:
  assumes "length ds < HT_INVALID_IDX" and "distinct (map fst (data_elems ds))" and "j < length ds"
    and "live (ds ! j)" and "bkey (ds ! j) = k"
  shows "find_pos k ds = Some j"
proof (cases "find_pos k ds")
  case None
  then show ?thesis
    using find_pos_None [OF assms(1)] data_elems_split [OF assms(3,4)] assms(5) by auto
next
  case (Some i)
  note i = find_pos_Some [OF assms(1) Some]
  have "i = j"
  proof (rule ccontr)
    assume "i \<noteq> j"
    then consider "i < j" | "j < i" by linarith
    then show False
    proof cases
      case 1
      then have "(k, b_val (ds ! i)) \<in> set (data_elems (take j ds))"
        using i by (auto simp: data_elems_def in_set_conv_nth image_iff intro!: bexI [of _ "ds ! i"] exI [of _ i])
      then show False using assms(2) data_elems_split [OF assms(3,4)] assms(5) by force
    next
      case 2
      then have "(k, b_val (ds ! j)) \<in> set (data_elems (take i ds))"
        using assms(3-5)
        by (auto simp: data_elems_def in_set_conv_nth image_iff intro!: bexI [of _ "ds ! j"] exI [of _ j])
      then show False using assms(2) data_elems_split [OF i(1,2)] i(3) by force
    qed
  qed
  then show ?thesis using Some by simp
qed

lemma packed_find:
  assumes "length vs < HT_INVALID_IDX"
  shows "find_pos (Idx h) (packed_buckets vs) =
    (if unat h < length vs \<and> vs ! unat h \<noteq> IS_UNDEF then Some (unat h) else None)"
proof (cases "unat h < length vs \<and> vs ! unat h \<noteq> IS_UNDEF")
  case True
  then show ?thesis
    using find_pos_unique [of "packed_buckets vs" "unat h" "Idx h"] packed_keys_distinct [OF assms] assms
    by (simp add: packed_buckets_nth live_def bkey_def)
next
  case False
  show ?thesis
  proof (cases "find_pos (Idx h) (packed_buckets vs)")
    case (Some j)
    have j: "j < length vs" "vs ! j \<noteq> IS_UNDEF" "word_of_nat j = h"
      using find_pos_Some [OF _ Some] assms by (simp_all add: packed_buckets_nth live_def bkey_def)
    have "unat (word_of_nat j :: 64 word) = j"
      using j(1) assms by (simp add: unsigned_of_nat take_bit_nat_eq_self)
    then have "unat h = j" using j(3) by simp
    then show ?thesis using False j by simp
  qed (use False in simp)
qed

section \<open>Lookup\<close>

lemma packed_length: "hash_wf ht \<Longrightarrow> flag_packed ht \<Longrightarrow> length (arPacked ht) < HT_INVALID_IDX"
  using size_ok_bounds [of "nTableSize ht"] by (auto simp: hash_wf_def)

lemma hash_wf_data:
  assumes "hash_wf ht" and "\<not> flag_packed ht"
  shows "length (arData ht) < HT_INVALID_IDX" and "distinct (map fst (data_elems (arData ht)))"
    and "ht_elems ht = data_elems (arData ht)"
  using assms mixed_length [of ht]
  by (auto simp: hash_wf_def no_hash_def mixed_wf_def ht_elems_def split: if_splits)

lemma hash_wf_packed:
  assumes "hash_wf ht" and "flag_packed ht"
  shows "arData ht = []" and "ht_elems ht = data_elems (packed_buckets (arPacked ht))"
  using assms by (auto simp: hash_wf_def no_hash_def ht_elems_def packed_elems_data)

lemma string_not_packed: "Str s \<notin> fst ` set (data_elems (packed_buckets vs))"
  by (auto simp: data_elems_def packed_buckets_def bkey_def)

lemma val_at_map: "val_at ht p = Ret (map_option (\<lambda>i. b_val (arData ht ! i)) p)"
  by (simp add: val_at_def)

lemma zend_hash_find_map:
  assumes "hash_wf ht"
  shows "zend_hash_find ht key = Ret (map_of (ht_elems ht) (Str key))"
proof (cases "flag_packed ht")
  case True
  then show ?thesis
    using hash_wf_packed [OF assms True] find_bucket_eqs(1) [OF assms]
      map_of_eq_None_iff [THEN iffD2, OF string_not_packed [of key "arPacked ht"]]
    by (simp add: zend_hash_find_def val_at_map find_pos_def)
next
  case False
  note w = hash_wf_data [OF assms False]
  show ?thesis
    using find_pos_map_of [OF w(1,2)] find_bucket_eqs(1) [OF assms] w(3)
    by (simp add: zend_hash_find_def val_at_map)
qed

lemma zend_hash_index_find_map:
  assumes "hash_wf ht"
  shows "zend_hash_index_find ht h = Ret (map_of (ht_elems ht) (Idx h))"
proof (cases "flag_packed ht")
  case True
  have l: "length (arPacked ht) < HT_INVALID_IDX" using packed_length [OF assms True] .
  have "map_of (ht_elems ht) (Idx h) =
      map_option (\<lambda>j. b_val (packed_buckets (arPacked ht) ! j)) (find_pos (Idx h) (packed_buckets (arPacked ht)))"
    using find_pos_map_of [of "packed_buckets (arPacked ht)"] packed_keys_distinct [OF l] l
      hash_wf_packed(2) [OF assms True] by simp
  then show ?thesis using True packed_find [OF l, of h]
    by (auto simp: zend_hash_index_find_def packed_buckets_nth)
next
  case False
  note w = hash_wf_data [OF assms False]
  show ?thesis
    using find_pos_map_of [OF w(1,2)] find_bucket_eqs(3) [OF assms] w(3) False
    by (simp add: zend_hash_index_find_def val_at_map)
qed

section \<open>Growth and conversion\<close>

text \<open>What internal reorganisation leaves alone.\<close>

definition frame :: "'v HashTable \<Rightarrow> 'v HashTable \<Rightarrow> bool" where
  "frame ht ht' \<longleftrightarrow> pDestructor ht' = pDestructor ht \<and> dtor_calls ht' = dtor_calls ht \<and> cvs ht' = cvs ht \<and>
     nNextFreeElement ht' = nNextFreeElement ht"

definition in_use :: "'v HashTable \<Rightarrow> bool" where
  "in_use ht \<longleftrightarrow> hash_wf ht \<and> \<not> flag_packed ht \<and> \<not> flag_uninit ht"

text \<open>The invariant of a table in use, without the chains.\<close>

definition body_ok :: "'v HashTable \<Rightarrow> bool" where
  "body_ok ht \<longleftrightarrow> size_ok (nTableSize ht) \<and> \<not> flag_packed ht \<and> \<not> flag_uninit ht \<and>
     nTableMask ht = HT_SIZE_TO_MASK (nTableSize ht) \<and> length (arData ht) \<le> nTableSize ht \<and>
     (\<forall>b \<in> set (arData ht). live b \<longrightarrow> key_ok b) \<and> distinct (map fst (data_elems (arData ht))) \<and>
     nNumOfElements ht = length (data_elems (arData ht)) \<and>
     ZEND_LONG_MIN \<le> nNextFreeElement ht \<and> nNextFreeElement ht \<le> ZEND_LONG_MAX"

lemma in_use_body: "in_use ht \<Longrightarrow> body_ok ht"
  by (auto simp: in_use_def body_ok_def hash_wf_def mixed_wf_def ht_elems_def)

lemma rehash_in_use:
  assumes "body_ok ht"
  obtains ht' where "zend_hash_rehash ht = Ret ht'" "in_use ht'" "ht_elems ht' = data_elems (arData ht)"
    "length (arData ht') = nNumOfElements ht" "nTableSize ht' = nTableSize ht" "frame ht ht'"
proof -
  have a: "size_ok (nTableSize ht)" "\<not> flag_packed ht" "\<not> flag_uninit ht"
    "nTableMask ht = HT_SIZE_TO_MASK (nTableSize ht)" "length (arData ht) \<le> nTableSize ht"
    "\<forall>b \<in> set (arData ht). live b \<longrightarrow> key_ok b" "distinct (map fst (data_elems (arData ht)))"
    "nNumOfElements ht = length (data_elems (arData ht))"
    "ZEND_LONG_MIN \<le> nNextFreeElement ht" "nNextFreeElement ht \<le> ZEND_LONG_MAX"
    using assms by (simp_all add: body_ok_def)
  obtain hs ds ip its where
    r: "zend_hash_rehash ht = Ret (ht\<lparr>arHash := hs, arData := ds, nInternalPointer := ip, ht_iterators := its\<rparr>)"
    and m: "mixed_wf (ht\<lparr>arHash := hs, arData := ds\<rparr>)" and e: "data_elems ds = data_elems (arData ht)"
    and l: "length ds = nNumOfElements ht"
    using zend_hash_rehash_wf [OF a(1-8)] by metis
  have "in_use (ht\<lparr>arHash := hs, arData := ds, nInternalPointer := ip, ht_iterators := its\<rparr>)"
    using m e a by (simp add: in_use_def hash_wf_def mixed_wf_def ht_elems_def)
  then show thesis
    by (rule that [OF r]) (use a(2) e l in \<open>simp_all add: ht_elems_def frame_def\<close>)
qed

lemma grow_hash_in_use:
  assumes "in_use ht" and "size_ok n" and "nTableSize ht \<le> n"
  obtains ht' where "grow_hash ht n = Ret ht'" "in_use ht'" "ht_elems ht' = ht_elems ht"
    "length (arData ht') = nNumOfElements ht" "nTableSize ht' = n" "frame ht ht'"
proof -
  let ?h = "ht\<lparr>nTableSize := n, nTableMask := HT_SIZE_TO_MASK n, arHash := HT_HASH_RESET (HT_SIZE_TO_MASK n)\<rparr>"
  have "body_ok ?h" using in_use_body [OF assms(1)] assms(2,3) by (simp add: body_ok_def)
  then obtain ht' where "zend_hash_rehash ?h = Ret ht'" "in_use ht'" "ht_elems ht' = data_elems (arData ht)"
    "length (arData ht') = nNumOfElements ht" "nTableSize ht' = n" "frame ?h ht'"
    by (rule rehash_in_use) auto
  then show thesis
    by (intro that [of ht'])
      (use assms(1) in \<open>simp_all add: grow_hash_def Let_def frame_def in_use_def ht_elems_def\<close>)
qed

lemma in_use_num: "in_use ht \<Longrightarrow> nNumOfElements ht \<le> length (arData ht) \<and> length (arData ht) \<le> nTableSize ht"
  using in_use_body [of ht] by (simp add: body_ok_def data_elems_def)

lemma if_full_in_use:
  assumes "in_use ht" and "nTableSize ht < HT_MAX_SIZE \<or> length (arData ht) < nTableSize ht"
  obtains ht' where "ZEND_HASH_IF_FULL_DO_RESIZE ht = Ret ht'" "in_use ht'" "ht_elems ht' = ht_elems ht"
    "length (arData ht') < nTableSize ht'" "frame ht ht'"
proof (cases "length (arData ht) \<ge> nTableSize ht")
  case False
  then show ?thesis using assms(1) by (intro that [of ht]) (auto simp: ZEND_HASH_IF_FULL_DO_RESIZE_def frame_def)
next
  case full: True
  have el: "ht_elems ht = data_elems (arData ht)" using assms(1) by (simp add: in_use_def ht_elems_def)
  show ?thesis
  proof (cases "length (arData ht) > nNumOfElements ht + nNumOfElements ht div 32")
    case True
    obtain ht' where "zend_hash_rehash ht = Ret ht'" "in_use ht'" "ht_elems ht' = data_elems (arData ht)"
      "length (arData ht') = nNumOfElements ht" "nTableSize ht' = nTableSize ht" "frame ht ht'"
      using rehash_in_use [OF in_use_body [OF assms(1)]] by metis
    then show ?thesis using True full in_use_num [OF assms(1)] el
      by (intro that [of ht']) (simp_all add: ZEND_HASH_IF_FULL_DO_RESIZE_def zend_hash_do_resize_def)
  next
    case False
    have s: "size_ok (nTableSize ht)" using in_use_body [OF assms(1)] by (simp add: body_ok_def)
    then obtain ht' where "grow_hash ht (nTableSize ht + nTableSize ht) = Ret ht'" "in_use ht'"
      "ht_elems ht' = ht_elems ht" "length (arData ht') = nNumOfElements ht"
      "nTableSize ht' = nTableSize ht + nTableSize ht" "frame ht ht'"
      using grow_hash_in_use [OF assms(1) size_ok_double [OF s]] assms(2) full by auto
    then show ?thesis using False full in_use_num [OF assms(1)] size_ok_bounds [OF s] assms(2)
      by (intro that [of ht']) (simp_all add: ZEND_HASH_IF_FULL_DO_RESIZE_def zend_hash_do_resize_def)
  qed
qed

text \<open>Conversion of a packed table, possibly after \<open>nTableSize\<close> has been raised.\<close>

lemma packed_to_hash_in_use:
  assumes "hash_wf ht" and "flag_packed ht" and "size_ok n" and "nTableSize ht \<le> n"
  obtains ht' where "zend_hash_packed_to_hash (ht\<lparr>nTableSize := n\<rparr>) = Ret ht'" "in_use ht'"
    "ht_elems ht' = ht_elems ht" "length (arData ht') = nNumOfElements ht" "nTableSize ht' = n" "frame ht ht'"
proof -
  let ?m = "HT_SIZE_TO_MASK n"
  let ?h = "ht\<lparr>nTableSize := n, flag_packed := False, nTableMask := ?m, arHash := HT_HASH_RESET ?m,
    arData := packed_buckets (arPacked ht), arPacked := []\<rparr>"
  have "body_ok ?h"
    using assms packed_keys_distinct [OF packed_length [OF assms(1,2)]] packed_buckets_key
    by (auto simp: body_ok_def hash_wf_def ht_elems_def packed_elems_data)
  then obtain ht' where "zend_hash_rehash ?h = Ret ht'" "in_use ht'"
    "ht_elems ht' = data_elems (packed_buckets (arPacked ht))"
    "length (arData ht') = nNumOfElements ht" "nTableSize ht' = n" "frame ?h ht'"
    by (rule rehash_in_use) auto
  then show thesis
    by (intro that [of ht'])
      (simp_all add: zend_hash_packed_to_hash_def Let_def frame_def packed_buckets_def hash_wf_packed [OF assms(1,2)])
qed

lemma hash_reset_length: "size_ok n \<Longrightarrow> length (HT_HASH_RESET (HT_SIZE_TO_MASK n)) = 2 * n"
  by (simp add: HT_HASH_RESET_def size_mask(2))

lemma real_init_mixed_in_use:
  assumes "hash_wf ht" and "flag_uninit ht"
  defines "ht' \<equiv> zend_hash_real_init_mixed_ex ht"
  shows "in_use ht'" and "ht_elems ht' = ht_elems ht" and "length (arData ht') < nTableSize ht'" and "frame ht ht'"
    and "ht_elems ht = []"
proof -
  have a: "size_ok (nTableSize ht)" "\<not> flag_packed ht" "arData ht = []"
    using assms(1,2) by (auto simp: hash_wf_def no_hash_def split: if_splits)
  then show "ht_elems ht' = ht_elems ht" "length (arData ht') < nTableSize ht'" "frame ht ht'" "ht_elems ht = []"
    using size_ok_bounds [OF a(1)]
    by (simp_all add: ht'_def zend_hash_real_init_mixed_ex_def Let_def ht_elems_def frame_def)
  show "in_use ht'"
    using assms(1) a hash_reset_length [OF a(1)]
    by (simp add: ht'_def zend_hash_real_init_mixed_ex_def Let_def in_use_def hash_wf_def ht_elems_def
        mixed_wf_def chains_empty)
qed

section \<open>Insertion\<close>

definition key_string :: "hkey \<Rightarrow> string option" where
  "key_string k = (case k of Idx h \<Rightarrow> None | Str s \<Rightarrow> Some s)"

lemma append_in_use:
  assumes "in_use ht" and "length (arData ht) < nTableSize ht" and "k \<notin> fst ` set (ht_elems ht)"
    and "v \<noteq> IS_UNDEF"
  obtains ht' where "append_bucket ht (key_hash k) (key_string k) v = Ret (ht', length (arData ht))"
    "in_use ht'" "ht_elems ht' = ht_elems ht @ [(k, v)]" "frame ht ht'"
proof -
  let ?c = "ht_slot (nTableMask ht) (key_hash k)"
  let ?b = "\<lparr>b_val = v, b_next = arHash ht ! ?c, b_h = key_hash k, b_key = key_string k\<rparr>"
  let ?h = "ht\<lparr>nNumOfElements := nNumOfElements ht + 1, arData := arData ht @ [?b],
    arHash := (arHash ht)[?c := length (arData ht)]\<rparr>"
  have w: "mixed_wf ht" "size_ok (nTableSize ht)" "\<not> flag_packed ht" "\<not> flag_uninit ht"
    "nNumOfElements ht = length (data_elems (arData ht))"
    and nf: "ZEND_LONG_MIN \<le> nNextFreeElement ht" "nNextFreeElement ht \<le> ZEND_LONG_MAX"
    using assms(1) by (auto simp: in_use_def hash_wf_def ht_elems_def)
  have c: "?c < length (arHash ht)" by (rule mixed_slot [OF w(1,2)])
  have b: "live ?b" "bkey ?b = k" "key_ok ?b"
    using assms(4) by (auto simp: live_def bkey_def key_string_def key_ok_def split: hkey.splits)
  have e: "data_elems [\<lparr>b_val = v, b_next = x, b_h = key_hash k, b_key = key_string k\<rparr>] = [(k, v)]" for x
    using assms(4) by (auto simp: data_elems_def live_def bkey_def key_string_def split: hkey.splits)
  have "chains (nTableMask ht) ((arHash ht)[?c := length (arData ht)]) (arData ht @ [?b])"
    by (rule chains_append [OF mixed_chains [OF w(1)] b(1)]) (use c in simp_all)
  then have "mixed_wf ?h"
    using w(1) assms(2,3) b(3) w(3) unfolding mixed_wf_def by (auto simp: e ht_elems_def)
  then have "in_use ?h" using w nf by (simp add: in_use_def hash_wf_def ht_elems_def e)
  then show thesis
    using assms(2) c w(3)
    by (intro that [of ?h]) (simp_all add: append_bucket_def Let_def ht_elems_def e frame_def)
qed

lemma add_to_hash_in_use:
  assumes "in_use ht" and "length (arData ht) < nTableSize ht" and "Str key \<notin> fst ` set (ht_elems ht)"
    and "new_val pData flag \<noteq> IS_UNDEF"
  obtains ht' i where "add_to_hash ht key (zend_inline_hash_func key) pData flag = Ret (ht', Some (Elem i))"
    "hash_wf ht'" "ht_elems ht' = ht_elems ht @ [(Str key, new_val pData flag)]" "frame ht ht'"
proof -
  obtain ht' where "append_bucket ht (key_hash (Str key)) (key_string (Str key)) (new_val pData flag) =
      Ret (ht', length (arData ht))"
    "in_use ht'" "ht_elems ht' = ht_elems ht @ [(Str key, new_val pData flag)]" "frame ht ht'"
    by (rule append_in_use [OF assms])
  then show thesis
    by (intro that [of ht' "length (arData ht)"]) (simp_all add: add_to_hash_def key_string_def in_use_def)
qed

text \<open>A key that is not there goes to the end, in every state of the table.\<close>

lemma add_new_string:
  assumes "hash_wf ht" and "Str key \<notin> fst ` set (ht_elems ht)" and "new_val pData flag \<noteq> IS_UNDEF"
    and "nTableSize ht < HT_MAX_SIZE"
  obtains ht' i where "zend_hash_add_or_update_i ht key pData flag = Ret (ht', Some (Elem i))"
    "hash_wf ht'" "ht_elems ht' = ht_elems ht @ [(Str key, new_val pData flag)]" "frame ht ht'"
proof -
  note result = that
  have full: thesis
    if "in_use ht1" "ht_elems ht1 = ht_elems ht" "frame ht ht1" "nTableSize ht1 < HT_MAX_SIZE"
      and "zend_hash_add_or_update_i ht key pData flag = run_bind (ZEND_HASH_IF_FULL_DO_RESIZE ht1)
          (\<lambda>ht. add_to_hash ht key (zend_inline_hash_func key) pData flag)" for ht1
  proof -
    obtain ht2 where r: "ZEND_HASH_IF_FULL_DO_RESIZE ht1 = Ret ht2" "in_use ht2" "ht_elems ht2 = ht_elems ht"
      "length (arData ht2) < nTableSize ht2" "frame ht1 ht2"
      using if_full_in_use [of ht1] \<open>in_use ht1\<close> \<open>ht_elems ht1 = _\<close> \<open>nTableSize ht1 < _\<close> by metis
    obtain ht' i where "add_to_hash ht2 key (zend_inline_hash_func key) pData flag = Ret (ht', Some (Elem i))"
      "hash_wf ht'" "ht_elems ht' = ht_elems ht2 @ [(Str key, new_val pData flag)]" "frame ht2 ht'"
      using add_to_hash_in_use [OF r(2,4) _ assms(3)] assms(2) r(3) by metis
    then show thesis
      by (intro result [of ht' i]) (use r \<open>frame ht ht1\<close> that(5) in \<open>simp_all add: frame_def\<close>)
  qed
  consider "flag_uninit ht" | "\<not> flag_uninit ht" "flag_packed ht" | "\<not> flag_uninit ht" "\<not> flag_packed ht" by blast
  then show thesis
  proof cases
    case 1
    note i = real_init_mixed_in_use [OF assms(1) 1]
    obtain ht' j where "add_to_hash (zend_hash_real_init_mixed_ex ht) key (zend_inline_hash_func key) pData flag =
        Ret (ht', Some (Elem j))" "hash_wf ht'"
      "ht_elems ht' = ht_elems (zend_hash_real_init_mixed_ex ht) @ [(Str key, new_val pData flag)]"
      "frame (zend_hash_real_init_mixed_ex ht) ht'"
      using add_to_hash_in_use [OF i(1,3) _ assms(3)] assms(2) i(2) by metis
    then show thesis
      by (intro that [of ht' j]) (use i 1 in \<open>simp_all add: zend_hash_add_or_update_i_def frame_def Let_def\<close>)
  next
    case 2
    have "size_ok (nTableSize ht)" using assms(1) by (simp add: hash_wf_def)
    from packed_to_hash_in_use [OF assms(1) 2(2) this order_refl] obtain ht1 where
      "zend_hash_packed_to_hash ht = Ret ht1" "in_use ht1" "ht_elems ht1 = ht_elems ht"
      "nTableSize ht1 = nTableSize ht" "frame ht ht1" by auto
    then show thesis using full [of ht1] 2 assms(4) by (simp add: zend_hash_add_or_update_i_def Let_def)
  next
    case 3
    have "find_pos (Str key) (arData ht) = None"
      using find_pos_Some(1,2,3) [of "arData ht" "Str key"] hash_wf_data [OF assms(1) 3(2)] assms(2)
        data_elems_split by (cases "find_pos (Str key) (arData ht)") fastforce+
    then have "zend_hash_add_or_update_i ht key pData flag = run_bind (ZEND_HASH_IF_FULL_DO_RESIZE ht)
        (\<lambda>ht. add_to_hash ht key (zend_inline_hash_func key) pData flag)"
      using 3 find_bucket_eqs(1) [OF assms(1)] by (simp add: zend_hash_add_or_update_i_def Let_def)
    then show thesis using full [of ht] 3 assms(1,4) by (simp add: in_use_def frame_def)
  qed
qed

text \<open>A key that is there is found.\<close>

lemma old_string_found:
  assumes "hash_wf ht" and "map_of (ht_elems ht) (Str key) = Some old" and "HASH_ADD_NEW \<notin> set flag"
  obtains j where "zend_hash_add_or_update_i ht key pData flag = Ret (update_found ht j pData flag)"
    "in_use ht" "j < length (arData ht)" "live (arData ht ! j)" "bkey (arData ht ! j) = Str key"
    "b_val (arData ht ! j) = old"
proof -
  have np: "\<not> flag_packed ht"
    using assms(2) hash_wf_packed(2) [OF assms(1)] string_not_packed [of key "arPacked ht"]
    by (metis map_of_eq_None_iff option.distinct(1))
  have nu: "\<not> flag_uninit ht" using assms(2) real_init_mixed_in_use(5) [OF assms(1)] by auto
  note w = hash_wf_data [OF assms(1) np]
  from find_pos_map_of [OF w(1,2), of "Str key"] assms(2) w(3) obtain j where
    j: "find_pos (Str key) (arData ht) = Some j" "b_val (arData ht ! j) = old" by auto
  then show thesis
    using find_pos_Some [OF w(1) j(1)] find_bucket_eqs(1) [OF assms(1)] assms(1,3) np nu
    by (intro that [of j]) (simp_all add: zend_hash_add_or_update_i_def Let_def in_use_def)
qed

lemma last_idx_same_flags: "\<lbrakk>j < length ds; b_h b = b_h (ds ! j); live b = live (ds ! j)\<rbrakk> \<Longrightarrow>
  last_idx (in_chain m c) (take n (ds[j := b])) = last_idx (in_chain m c) (take n ds)"
  by (rule last_idx_cong) (auto simp: nth_list_update in_chain_def)

lemma chains_set_val:
  assumes "chains m hs ds" and "j < length ds" and "live (ds ! j)" and "v \<noteq> IS_UNDEF"
  shows "chains m hs (ds[j := (ds ! j)\<lparr>b_val := v\<rparr>])"
proof -
  have n: "last_idx (in_chain m c) (take n (ds[j := (ds ! j)\<lparr>b_val := v\<rparr>])) = last_idx (in_chain m c) (take n ds)"
    for n c by (rule last_idx_same_flags) (use assms in \<open>simp_all add: live_def\<close>)
  show ?thesis
    using assms n [where n = "length ds"] n unfolding chains_def by (auto simp: nth_list_update live_def)
qed

lemma data_elems_set:
  assumes "j < length ds" and "live (ds ! j)" and "v \<noteq> IS_UNDEF" and "distinct (map fst (data_elems ds))"
  defines "es \<equiv> ds[j := (ds ! j)\<lparr>b_val := v\<rparr>]"
  shows "data_elems es = AList.update (bkey (ds ! j)) v (data_elems ds)"
    and "map fst (data_elems es) = map fst (data_elems ds)"
proof -
  let ?k = "bkey (ds ! j)"
  have b: "bkey ((ds ! j)\<lparr>b_val := v\<rparr>) = ?k" by (simp add: bkey_def split: option.splits)
  have es: "data_elems es = data_elems (take j ds) @ (?k, v) # data_elems (drop (Suc j) ds)"
    using data_elems_split [of j es] assms(1,3) b by (simp add: live_def es_def)
  have ds: "data_elems ds = data_elems (take j ds) @ (?k, b_val (ds ! j)) # data_elems (drop (Suc j) ds)"
    by (rule data_elems_split [OF assms(1,2)])
  have "?k \<notin> fst ` set (data_elems (take j ds))" using assms(4) unfolding ds by auto
  then show "data_elems es = AList.update ?k v (data_elems ds)" using update_mid es ds by metis
  show "map fst (data_elems es) = map fst (data_elems ds)" using es ds by simp
qed

lemma set_elem_in_use:
  assumes "in_use ht" and "j < length (arData ht)" and "live (arData ht ! j)" and "v \<noteq> IS_UNDEF"
  shows "in_use (set_elem ht j v)"
    and "ht_elems (set_elem ht j v) = AList.update (bkey (arData ht ! j)) v (ht_elems ht)"
proof -
  let ?ds = "arData ht" and ?es = "(arData ht)[j := (arData ht ! j)\<lparr>b_val := v\<rparr>]"
  have np: "\<not> flag_packed ht" "\<not> flag_uninit ht" and m: "mixed_wf ht"
    using assms(1) by (auto simp: in_use_def hash_wf_def)
  have d: "distinct (map fst (data_elems ?ds))" using m by (simp add: mixed_wf_def)
  note u = data_elems_set [OF assms(2,3,4) d]
  then show "ht_elems (set_elem ht j v) = AList.update (bkey (?ds ! j)) v (ht_elems ht)"
    using np by (simp add: ht_elems_def set_elem_def)
  have "key_ok (?ds ! j)" using m assms(2,3) by (simp add: mixed_wf_def)
  then have ko: "\<forall>b \<in> set ?es. live b \<longrightarrow> key_ok b"
    using m by (auto simp: mixed_wf_def key_ok_def dest!: set_update_subset_insert [THEN subsetD])
  have "chains (nTableMask ht) (arHash ht) ?es"
    by (rule chains_set_val [OF mixed_chains [OF m] assms(2,3,4)])
  then have "mixed_wf (set_elem ht j v)"
    using m np u(2) ko unfolding mixed_wf_def set_elem_def by simp
  moreover have "length (data_elems ?es) = length (data_elems ?ds)" using u(2) by (metis length_map)
  ultimately show "in_use (set_elem ht j v)"
    using assms(1) np by (simp add: in_use_def hash_wf_def set_elem_def ht_elems_def)
qed

section \<open>Insertion at an integer key\<close>

lemma packed_elems_add:
  "v \<noteq> IS_UNDEF \<Longrightarrow> packed_elems (vs @ replicate n IS_UNDEF @ [v]) =
     packed_elems vs @ [(Idx (word_of_nat (length vs + n)), v)]"
proof -
  assume "v \<noteq> IS_UNDEF"
  moreover have "filter (\<lambda>(i, v). v \<noteq> IS_UNDEF) (enumerate l (replicate n IS_UNDEF)) = []" for l
    by (auto simp: filter_empty_conv in_set_enumerate_eq)
  ultimately show ?thesis by (simp add: packed_elems_def enumerate_append_eq)
qed

lemma add_to_packed_wf:
  assumes "hash_wf ht" and "flag_packed ht" and "length (arPacked ht) \<le> i" and "i < nTableSize ht"
    and "\<not> (HASH_ADD_NEW \<in> set flag \<and> HASH_ADD_NEXT \<in> set flag) \<or> i = length (arPacked ht)"
    and "new_val pData flag \<noteq> IS_UNDEF"
  obtains ht' where "add_to_packed ht i pData flag = Ret (ht', Some (Elem i))" "hash_wf ht'"
    "ht_elems ht' = ht_elems ht @ [(Idx (word_of_nat i), new_val pData flag)]"
    "nNextFreeElement ht' = int i + 1" "pDestructor ht' = pDestructor ht" "dtor_calls ht' = dtor_calls ht"
    "cvs ht' = cvs ht"
proof -
  let ?vs = "arPacked ht @ replicate (i - length (arPacked ht)) IS_UNDEF @ [new_val pData flag]"
  let ?h = "ht\<lparr>arPacked := ?vs, nNextFreeElement := int i + 1, nNumOfElements := nNumOfElements ht + 1\<rparr>"
  have e: "packed_elems ?vs = packed_elems (arPacked ht) @ [(Idx (word_of_nat i), new_val pData flag)]"
    using packed_elems_add [OF assms(6), of "arPacked ht" "i - length (arPacked ht)"] assms(3) by simp
  have s: "size_ok (nTableSize ht)" using assms(1) by (simp add: hash_wf_def)
  have "hash_wf ?h"
    using assms(1-4) e size_ok_bounds [OF s] by (simp add: hash_wf_def ht_elems_def no_hash_def)
  then show thesis
    by (intro that [of ?h]) (use assms e in \<open>auto simp: add_to_packed_def Let_def ht_elems_def\<close>)
qed

lemma real_init_packed_wf:
  assumes "hash_wf ht" and "flag_uninit ht"
  defines "ht' \<equiv> zend_hash_real_init_packed_ex ht"
  shows "hash_wf ht'" and "flag_packed ht'" and "arPacked ht' = []" and "ht_elems ht' = ht_elems ht"
    and "nTableSize ht' = nTableSize ht" and "frame ht ht'"
  using assms(1,2) real_init_mixed_in_use(5) [OF assms(1,2)]
  by (auto simp: ht'_def zend_hash_real_init_packed_ex_def hash_wf_def no_hash_def ht_elems_def
      packed_elems_def frame_def split: if_splits)

lemma add_index_in_use:
  assumes "in_use ht" and "length (arData ht) < nTableSize ht" and "Idx h \<notin> fst ` set (ht_elems ht)"
    and "new_val pData flag \<noteq> IS_UNDEF"
  obtains ht' i where "add_index_to_hash ht h pData flag = Ret (ht', Some (Elem i))" "hash_wf ht'"
    "ht_elems ht' = ht_elems ht @ [(Idx h, new_val pData flag)]"
    "nNextFreeElement ht' = (if sint h \<ge> nNextFreeElement ht then min ZEND_LONG_MAX (sint h + 1)
        else nNextFreeElement ht)"
    "pDestructor ht' = pDestructor ht" "dtor_calls ht' = dtor_calls ht" "cvs ht' = cvs ht"
proof -
  obtain ht1 where a: "append_bucket ht h None (new_val pData flag) = Ret (ht1, length (arData ht))"
    "in_use ht1" "ht_elems ht1 = ht_elems ht @ [(Idx h, new_val pData flag)]" "frame ht ht1"
    using append_in_use [OF assms] by (auto simp: key_string_def)
  define nf where "nf = (if sint h < ZEND_LONG_MAX then sint h + 1 else ZEND_LONG_MAX)"
  have b: "- 9223372036854775808 \<le> sint h" "sint h \<le> 9223372036854775807"
    using sint_greater_eq [of h] sint_less [of h] by simp_all
  then have nf: "nf = min ZEND_LONG_MAX (sint h + 1)" "ZEND_LONG_MIN \<le> nf" "nf \<le> ZEND_LONG_MAX"
    by (auto simp: nf_def min_def)
  have w: "hash_wf (ht1\<lparr>nNextFreeElement := nf\<rparr>)" "ht_elems (ht1\<lparr>nNextFreeElement := nf\<rparr>) = ht_elems ht1"
    using a(2) nf by (auto simp: in_use_def hash_wf_def mixed_wf_def ht_elems_def)
  show thesis
  proof (cases "sint h \<ge> nNextFreeElement ht")
    case True
    then show ?thesis using a w nf(1)
      by (intro that [of "ht1\<lparr>nNextFreeElement := nf\<rparr>" "length (arData ht)"])
        (simp_all add: add_index_to_hash_def frame_def nf_def)
  next
    case False
    then show ?thesis using a
      by (intro that [of ht1 "length (arData ht)"]) (simp_all add: add_index_to_hash_def frame_def in_use_def)
  qed
qed

text \<open>What an insertion at an absent integer key does in every state of the table.\<close>

definition index_added :: "'v HashTable \<Rightarrow> 64 word \<Rightarrow> 'v zval \<Rightarrow> ('v HashTable \<times> zptr option) run \<Rightarrow> bool" where
  "index_added ht h v r \<longleftrightarrow>
     (\<exists>ht' i. r = Ret (ht', Some (Elem i)) \<and> hash_wf ht' \<and> ht_elems ht' = ht_elems ht @ [(Idx h, v)] \<and>
        dtor_calls ht' = dtor_calls ht \<and> cvs ht' = cvs ht \<and> pDestructor ht' = pDestructor ht \<and>
        sint h < nNextFreeElement ht' + of_bool (sint h = ZEND_LONG_MAX) \<and>
        (nNextFreeElement ht \<le> nNextFreeElement ht' \<or> flag_packed ht \<or> flag_uninit ht))"

lemma index_added_hash:
  assumes "in_use ht1" and "length (arData ht1) < nTableSize ht1" and "Idx h \<notin> fst ` set (ht_elems ht)"
    and "new_val pData flag \<noteq> IS_UNDEF" and "ht_elems ht1 = ht_elems ht" and "frame ht ht1"
  shows "index_added ht h (new_val pData flag) (add_index_to_hash ht1 h pData flag)"
proof -
  obtain ht' i where r: "add_index_to_hash ht1 h pData flag = Ret (ht', Some (Elem i))" "hash_wf ht'"
    "ht_elems ht' = ht_elems ht1 @ [(Idx h, new_val pData flag)]"
    "nNextFreeElement ht' = (if sint h \<ge> nNextFreeElement ht1 then min ZEND_LONG_MAX (sint h + 1)
        else nNextFreeElement ht1)"
    "pDestructor ht' = pDestructor ht1" "dtor_calls ht' = dtor_calls ht1" "cvs ht' = cvs ht1"
    using add_index_in_use [OF assms(1,2) _ assms(4)] assms(3,5) by metis
  moreover have "sint h \<le> ZEND_LONG_MAX" using sint_less [of h] by simp
  ultimately show ?thesis using assms(5,6)
    by (auto simp: index_added_def frame_def min_def)
qed

lemma index_added_packed:
  assumes "hash_wf ht1" and "flag_packed ht1" and "length (arPacked ht1) \<le> unat h" and "unat h < nTableSize ht1"
    and "\<not> (HASH_ADD_NEW \<in> set flag \<and> HASH_ADD_NEXT \<in> set flag) \<or> unat h = length (arPacked ht1)"
    and "new_val pData flag \<noteq> IS_UNDEF" and "ht_elems ht1 = ht_elems ht" and "frame ht ht1"
    and "flag_packed ht \<or> flag_uninit ht"
  shows "index_added ht h (new_val pData flag) (add_to_packed ht1 (unat h) pData flag)"
proof -
  obtain ht' where r: "add_to_packed ht1 (unat h) pData flag = Ret (ht', Some (Elem (unat h)))" "hash_wf ht'"
    "ht_elems ht' = ht_elems ht1 @ [(Idx (word_of_nat (unat h)), new_val pData flag)]"
    "nNextFreeElement ht' = int (unat h) + 1" "pDestructor ht' = pDestructor ht1"
    "dtor_calls ht' = dtor_calls ht1" "cvs ht' = cvs ht1"
    using add_to_packed_wf [OF assms(1-6)] by metis
  have "unat h < 2 ^ 63" using assms(1,4) size_ok_bounds [of "nTableSize ht1"] by (auto simp: hash_wf_def)
  then have "int (unat h) < int (2 ^ 63)" by (simp only: of_nat_less_iff)
  then have "uint h < 2 ^ 63" by simp
  moreover have "- (2 ^ 63) \<le> uint h" by (rule order_trans [OF _ uint_ge_0]) simp
  ultimately have "signed_take_bit 63 (uint h) = uint h" by (intro signed_take_bit_int_eq_self)
  then have "sint h = int (unat h)" by (simp add: sint_uint)
  then show ?thesis using r assms(7,8,9) by (auto simp: index_added_def frame_def)
qed

lemma index_key_absent:
  assumes "hash_wf ht" and "flag_packed ht"
  shows "Idx h \<notin> fst ` set (ht_elems ht) \<longleftrightarrow> \<not> (unat h < length (arPacked ht) \<and> arPacked ht ! unat h \<noteq> IS_UNDEF)"
proof -
  have "map_of (ht_elems ht) (Idx h) = None \<longleftrightarrow> \<not> (unat h < length (arPacked ht) \<and> arPacked ht ! unat h \<noteq> IS_UNDEF)"
    using zend_hash_index_find_map [OF assms(1), of h] assms(2) by (cases "map_of (ht_elems ht) (Idx h)") (auto simp: zend_hash_index_find_def split: if_splits)
  then show ?thesis by (simp add: map_of_eq_None_iff)
qed

lemma packed_hole_num:
  assumes "hash_wf ht" and "flag_packed ht" and "i < length (arPacked ht)" and "arPacked ht ! i = IS_UNDEF"
  shows "nNumOfElements ht < length (arPacked ht)"
proof -
  have "packed_buckets (arPacked ht) ! i \<in> set (packed_buckets (arPacked ht))" using assms(3) by simp
  moreover have "\<not> live (packed_buckets (arPacked ht) ! i)"
    using assms(3,4) by (simp add: packed_buckets_nth live_def)
  ultimately have "length (filter live (packed_buckets (arPacked ht))) < length (packed_buckets (arPacked ht))"
    by (rule length_filter_less)
  moreover have "nNumOfElements ht = length (filter live (packed_buckets (arPacked ht)))"
    using assms(1) hash_wf_packed(2) [OF assms(1,2)] by (simp add: hash_wf_def data_elems_def)
  ultimately show ?thesis by simp
qed

lemma add_new_index:
  assumes "hash_wf ht" and "nTableSize ht < HT_MAX_SIZE"
    and "h' = (if HASH_ADD_NEXT \<in> set flag \<and> h = word_of_int ZEND_LONG_MIN then 0 else h)"
    and "Idx h' \<notin> fst ` set (ht_elems ht)" and "new_val pData flag \<noteq> IS_UNDEF"
    and "HASH_ADD_NEW \<in> set flag \<and> HASH_ADD_NEXT \<in> set flag \<longrightarrow> flag_packed ht \<and> unat h' = length (arPacked ht)"
  shows "index_added ht h' (new_val pData flag) (zend_hash_index_add_or_update_i ht h pData flag)"
proof -
  let ?nn = "HASH_ADD_NEW \<in> set flag \<and> HASH_ADD_NEXT \<in> set flag" and ?v = "new_val pData flag"
  note body = zend_hash_index_add_or_update_i_def [of ht h pData flag, folded assms(3), unfolded Let_def]
  have s: "size_ok (nTableSize ht)" using assms(1) by (simp add: hash_wf_def)
  have ab: "\<not> (flag_packed ht \<and> unat h' < length (arPacked ht) \<and> arPacked ht ! unat h' \<noteq> IS_UNDEF)"
    using index_key_absent [OF assms(1)] assms(4) by blast
  have conv: "index_added ht h' ?v (run_bind (zend_hash_packed_to_hash (ht\<lparr>nTableSize := n\<rparr>))
      (\<lambda>ht. add_index_to_hash ht h' pData flag))"
    if "flag_packed ht" "size_ok n" "nTableSize ht \<le> n" "nNumOfElements ht < n" for n
  proof -
    note c = that
    obtain ht1 where "zend_hash_packed_to_hash (ht\<lparr>nTableSize := n\<rparr>) = Ret ht1" "in_use ht1"
      "ht_elems ht1 = ht_elems ht" "length (arData ht1) = nNumOfElements ht" "nTableSize ht1 = n" "frame ht ht1"
      using packed_to_hash_in_use [OF assms(1) c(1-3)] by metis
    then show ?thesis using index_added_hash [of ht1 h' ht] c(4) assms(4,5) by simp
  qed
  consider (hole) "flag_packed ht" "\<not> ?nn" "unat h' < length (arPacked ht)"
    | (cell) "flag_packed ht" "?nn \<or> length (arPacked ht) \<le> unat h'" "unat h' < nTableSize ht"
    | (grow) "flag_packed ht" "?nn \<or> length (arPacked ht) \<le> unat h'" "nTableSize ht \<le> unat h'"
        "unat h' div 2 < nTableSize ht" "nTableSize ht div 2 < nNumOfElements ht"
    | (convert) "flag_packed ht" "?nn \<or> length (arPacked ht) \<le> unat h'" "nTableSize ht \<le> unat h'"
        "\<not> (unat h' div 2 < nTableSize ht \<and> nTableSize ht div 2 < nNumOfElements ht)"
    | (init_packed) "\<not> flag_packed ht" "flag_uninit ht" "unat h' < nTableSize ht"
    | (init_mixed) "\<not> flag_packed ht" "flag_uninit ht" "\<not> unat h' < nTableSize ht"
    | (hash) "\<not> flag_packed ht" "\<not> flag_uninit ht" by linarith
  then show ?thesis
  proof cases
    case hole
    then have "nNumOfElements ht < length (arPacked ht)" using ab packed_hole_num [OF assms(1)] by blast
    then have "nNumOfElements ht < nTableSize ht" using assms(1) hole(1) by (simp add: hash_wf_def)
    then show ?thesis using conv [OF hole(1) s order_refl] hole ab unfolding body by simp
  next
    case cell
    then have "index_added ht h' ?v (add_to_packed ht (unat h') pData flag)"
      using assms(1,5,6) by (intro index_added_packed) (auto simp: frame_def)
    moreover have "\<not> (\<not> ?nn \<and> unat h' < length (arPacked ht))" using cell(2) by auto
    ultimately show ?thesis using cell(1,3) unfolding body by (simp only: if_True if_False)
  next
    case grow
    let ?h = "ht\<lparr>nTableSize := nTableSize ht * 2\<rparr>"
    have "size_ok (nTableSize ht * 2)" using size_ok_double [OF s assms(2)] by (simp add: mult_2_right)
    then have "hash_wf ?h" using assms(1) grow(1) by (simp add: hash_wf_def ht_elems_def no_hash_def)
    then have "index_added ht h' ?v (add_to_packed ?h (unat h') pData flag)"
      using grow assms(5,6) by (intro index_added_packed) (auto simp: frame_def ht_elems_def)
    moreover have "zend_hash_packed_grow ht = Ret ?h" using assms(2) by (simp add: zend_hash_packed_grow_def)
    moreover have "\<not> (\<not> ?nn \<and> unat h' < length (arPacked ht))" using grow(2) by auto
    moreover have "\<not> unat h' < nTableSize ht" using grow(3) by simp
    ultimately show ?thesis using grow(1,4,5) unfolding body by (simp only: if_True if_False run_bind.simps simp_thms)
  next
    case convert
    have le: "nNumOfElements ht \<le> length (arPacked ht)" "length (arPacked ht) \<le> nTableSize ht"
      using assms(1) convert(1) hash_wf_packed(2) [OF assms(1) convert(1)]
        length_filter_le [of live "packed_buckets (arPacked ht)"]
      by (simp_all add: hash_wf_def data_elems_def)
    have e: "zend_hash_index_add_or_update_i ht h pData flag =
        run_bind (zend_hash_packed_to_hash
          (ht\<lparr>nTableSize := (if length (arPacked ht) \<ge> nTableSize ht then nTableSize ht + nTableSize ht else nTableSize ht)\<rparr>))
          (\<lambda>ht. add_index_to_hash ht h' pData flag)"
    proof -
      have "\<not> (\<not> ?nn \<and> unat h' < length (arPacked ht))" using convert(2) by auto
      moreover have "\<not> unat h' < nTableSize ht" using convert(3) by simp
      moreover have "(if nTableSize ht \<le> length (arPacked ht) then ht\<lparr>nTableSize := nTableSize ht + nTableSize ht\<rparr> else ht) =
          ht\<lparr>nTableSize := (if length (arPacked ht) \<ge> nTableSize ht then nTableSize ht + nTableSize ht else nTableSize ht)\<rparr>"
        by simp
      ultimately show ?thesis using convert(1,4) unfolding body by (simp only: if_True if_False)
    qed
    show ?thesis unfolding e
      by (rule conv [OF convert(1)]) (use s size_ok_double [OF s assms(2)] le size_ok_bounds [OF s] in auto)
  next
    case init_packed
    note i = real_init_packed_wf [OF assms(1) init_packed(2)]
    have "index_added ht h' ?v (add_to_packed (zend_hash_real_init_packed_ex ht) (unat h') pData flag)"
      using i init_packed assms(5,6) by (intro index_added_packed) auto
    then show ?thesis using init_packed unfolding body by (simp only: if_True if_False)
  next
    case init_mixed
    note i = real_init_mixed_in_use [OF assms(1) init_mixed(2)]
    have "index_added ht h' ?v (add_index_to_hash (zend_hash_real_init_mixed_ex ht) h' pData flag)"
      by (rule index_added_hash [OF i(1,3) assms(4,5) i(2,4)])
    then show ?thesis using init_mixed unfolding body by (simp only: if_True if_False)
  next
    case hash
    have u: "in_use ht" using hash assms(1) by (simp add: in_use_def)
    then obtain ht1 where f: "ZEND_HASH_IF_FULL_DO_RESIZE ht = Ret ht1" "in_use ht1" "ht_elems ht1 = ht_elems ht"
      "length (arData ht1) < nTableSize ht1" "frame ht ht1" using if_full_in_use [of ht] assms(2) by metis
    have "find_pos (Idx h') (arData ht) = None"
      using find_pos_Some(1,2,3) [of "arData ht" "Idx h'"] hash_wf_data [OF assms(1) hash(1)] assms(4)
        data_elems_split by (cases "find_pos (Idx h') (arData ht)") fastforce+
    then have "zend_hash_index_add_or_update_i ht h pData flag = add_index_to_hash ht1 h' pData flag"
      using hash f(1) find_bucket_eqs(3) [OF assms(1), of h'] unfolding body by simp
    then show ?thesis using index_added_hash [OF f(2,4) assms(4,5) f(3,5)] by simp
  qed
qed

section \<open>Replacing a value\<close>

lemma call_dtor_simps [simp]:
  "arData (call_dtor ht v) = arData ht" "arPacked (call_dtor ht v) = arPacked ht"
  "flag_packed (call_dtor ht v) = flag_packed ht" "flag_uninit (call_dtor ht v) = flag_uninit ht"
  "arHash (call_dtor ht v) = arHash ht" "nTableMask (call_dtor ht v) = nTableMask ht"
  "nTableSize (call_dtor ht v) = nTableSize ht" "nNumOfElements (call_dtor ht v) = nNumOfElements ht"
  "nNextFreeElement (call_dtor ht v) = nNextFreeElement ht" "cvs (call_dtor ht v) = cvs ht"
  "pDestructor (call_dtor ht v) = pDestructor ht" "nInternalPointer (call_dtor ht v) = nInternalPointer ht"
  "dtor_calls (call_dtor ht v) = dtor_calls ht @ (if pDestructor ht then [v] else [])"
  by (simp_all add: call_dtor_def)

lemma call_dtor_wf [simp]: "hash_wf (call_dtor ht v) = hash_wf ht" "ht_elems (call_dtor ht v) = ht_elems ht"
  by (simp_all add: call_dtor_def hash_wf_def ht_elems_def no_hash_def mixed_wf_def)

lemma set_elem_frame: "frame ht (set_elem ht i v)"
  by (simp add: set_elem_def frame_def)

lemma replace_elem_eq: "replace_elem ht i old v = call_dtor (set_elem ht i v) old"
  by (simp add: replace_elem_def call_dtor_def set_elem_def)

lemma packed_buckets_set:
  "i < length vs \<Longrightarrow> packed_buckets (vs[i := v]) = (packed_buckets vs)[i := (packed_buckets vs ! i)\<lparr>b_val := v\<rparr>]"
  by (rule nth_equalityI) (auto simp: packed_buckets_nth nth_list_update)

lemma set_elem_packed:
  assumes "hash_wf ht" and "flag_packed ht" and "i < length (arPacked ht)" and "arPacked ht ! i \<noteq> IS_UNDEF"
    and "v \<noteq> IS_UNDEF"
  shows "hash_wf (set_elem ht i v)" and "ht_elems (set_elem ht i v) = AList.update (Idx (word_of_nat i)) v (ht_elems ht)"
proof -
  let ?ds = "packed_buckets (arPacked ht)"
  have l: "live (?ds ! i)" "bkey (?ds ! i) = Idx (word_of_nat i)"
    using assms(3,4) by (simp_all add: packed_buckets_nth live_def bkey_def)
  have "i < length ?ds" using assms(3) by simp
  note u = data_elems_set [OF this l(1) assms(5) packed_keys_distinct [OF packed_length [OF assms(1,2)]]]
  show e: "ht_elems (set_elem ht i v) = AList.update (Idx (word_of_nat i)) v (ht_elems ht)"
    using assms(2) u(1) l(2) by (simp add: ht_elems_def set_elem_def packed_elems_data packed_buckets_set [OF assms(3)])
  have "length (ht_elems (set_elem ht i v)) = length (ht_elems ht)"
    using assms(2) u(2) [THEN arg_cong [of _ _ length]]
    by (simp add: ht_elems_def set_elem_def packed_elems_data packed_buckets_set [OF assms(3)])
  then show "hash_wf (set_elem ht i v)" using assms(1,2) by (simp add: hash_wf_def set_elem_def no_hash_def)
qed

text \<open>An integer key that is there is found, packed or not.\<close>

lemma old_index_found:
  assumes "hash_wf ht" and "map_of (ht_elems ht) (Idx h') = Some old" and "HASH_ADD_NEW \<notin> set flag"
    and "h' = (if HASH_ADD_NEXT \<in> set flag \<and> h = word_of_int ZEND_LONG_MIN then 0 else h)"
  obtains j where "zend_hash_index_add_or_update_i ht h pData flag = Ret (replace_index ht j old pData flag)"
    "\<And>v. v \<noteq> IS_UNDEF \<Longrightarrow> hash_wf (set_elem ht j v) \<and> ht_elems (set_elem ht j v) = AList.update (Idx h') v (ht_elems ht)"
proof (cases "flag_packed ht")
  case True
  note body = zend_hash_index_add_or_update_i_def [of ht h pData flag, folded assms(4), unfolded Let_def]
  have f: "unat h' < length (arPacked ht)" "arPacked ht ! unat h' \<noteq> IS_UNDEF" "arPacked ht ! unat h' = old"
    using zend_hash_index_find_map [OF assms(1), of h'] assms(2) True
    by (auto simp: zend_hash_index_find_def split: if_splits)
  show ?thesis
  proof (rule that [of "unat h'"])
    show "zend_hash_index_add_or_update_i ht h pData flag = Ret (replace_index ht (unat h') old pData flag)"
      using True f assms(3) unfolding body by simp
    show "hash_wf (set_elem ht (unat h') v) \<and> ht_elems (set_elem ht (unat h') v) = AList.update (Idx h') v (ht_elems ht)"
      if "v \<noteq> IS_UNDEF" for v using set_elem_packed [OF assms(1) True f(1,2) that] by simp
  qed
next
  case False
  note body = zend_hash_index_add_or_update_i_def [of ht h pData flag, folded assms(4), unfolded Let_def]
  have nu: "\<not> flag_uninit ht" using assms(2) real_init_mixed_in_use(5) [OF assms(1)] by auto
  then have u: "in_use ht" using assms(1) False by (simp add: in_use_def)
  note w = hash_wf_data [OF assms(1) False]
  from find_pos_map_of [OF w(1,2), of "Idx h'"] assms(2) w(3) obtain j where
    j: "find_pos (Idx h') (arData ht) = Some j" "b_val (arData ht ! j) = old" by auto
  note p = find_pos_Some [OF w(1) j(1)]
  show ?thesis
  proof (rule that [of j])
    show "zend_hash_index_add_or_update_i ht h pData flag = Ret (replace_index ht j old pData flag)"
      using False nu assms(3) find_bucket_eqs(3) [OF assms(1), of h'] j unfolding body by simp
    show "hash_wf (set_elem ht j v) \<and> ht_elems (set_elem ht j v) = AList.update (Idx h') v (ht_elems ht)"
      if "v \<noteq> IS_UNDEF" for v using set_elem_in_use [OF u p(1,2) that] p(3) by (simp add: in_use_def)
  qed
qed

end
