(* ===== verification/Zend_Hash_Del.thy ===== *)
theory Zend_Hash_Del
  imports Zend_Hash_Ops
begin

text \<open>
  Deletion from the hash table: the chain walk with its predecessor, the unlinking, the trimming of
  \<open>nNumUsed\<close> and the position of the internal pointer.
\<close>

section \<open>Trimming\<close>

lemma trim_used_split:
  assumes "bs \<noteq> []"
  obtains es where "bs[length bs - 1 := d] = trim_used f bs @ es @ [d]" "\<forall>b \<in> set es. f b = IS_UNDEF"
proof -
  let ?P = "\<lambda>b. f b = IS_UNDEF"
  have "rev (butlast bs) = takeWhile ?P (rev (butlast bs)) @ dropWhile ?P (rev (butlast bs))" by simp
  then have "butlast bs = trim_used f bs @ rev (takeWhile ?P (rev (butlast bs)))"
    unfolding trim_used_def by (metis rev_append rev_rev_ident)
  moreover have "bs[length bs - 1 := d] = butlast bs @ [d]"
    using assms by (metis append_butlast_last_id length_butlast list_update_length)
  ultimately show thesis
    by (intro that [of "rev (takeWhile ?P (rev (butlast bs)))"]) (auto dest: set_takeWhileD)
qed

lemma data_elems_dead: "\<forall>b \<in> set es. \<not> live b \<Longrightarrow> data_elems es = []"
  by (simp add: data_elems_def)

lemma data_elems_del:
  assumes "j < length ds" and "live (ds ! j)" and "\<not> live d" and "distinct (map fst (data_elems ds))"
  shows "data_elems (ds[j := d]) = AList.delete (bkey (ds ! j)) (data_elems ds)"
proof -
  have "ds[j := d] = take j ds @ d # drop (Suc j) ds" using assms(1) by (rule upd_conv_take_nth_drop)
  then have "data_elems (ds[j := d]) = data_elems (take j ds) @ data_elems (drop (Suc j) ds)"
    using assms(3) by (simp add: data_elems_def)
  moreover note s = data_elems_split [OF assms(1,2)]
  ultimately show ?thesis using delete_mid assms(4) unfolding s by metis
qed

lemma skip_deleted_eq:
  obtains ip its where "skip_deleted ht i = ht\<lparr>nInternalPointer := ip, ht_iterators := its\<rparr>"
proof (cases "nInternalPointer ht = i \<or> ht_iterators ht \<noteq> []")
  case True
  then show ?thesis by (intro that) (simp add: skip_deleted_def Let_def)
next
  case False
  then show ?thesis using that [of "ht_iterators ht" "nInternalPointer ht"] by (simp add: skip_deleted_def)
qed

section \<open>Deletion from a packed table\<close>

lemma packed_elems_dead: "packed_elems (vs @ replicate n IS_UNDEF) = packed_elems vs"
proof -
  have "filter (\<lambda>(i, v). v \<noteq> IS_UNDEF) (enumerate l (replicate n IS_UNDEF)) = []" for l
    by (auto simp: filter_empty_conv in_set_enumerate_eq)
  then show ?thesis by (simp add: packed_elems_def enumerate_append_eq)
qed

text \<open>A table as the row of its cells: a hole, or the key and value of a live element.\<close>

definition cell :: "'v bucket \<Rightarrow> (hkey \<times> 'v zval) option" where
  "cell b = (if live b then Some (bkey b, b_val b) else None)"

definition hcells :: "'v HashTable \<Rightarrow> (hkey \<times> 'v zval) option list" where
  "hcells ht = map cell (if flag_packed ht then packed_buckets (arPacked ht) else arData ht)"

lemma cell_content: "content b = content b' \<Longrightarrow> cell b = cell b'"
  by (auto simp: cell_def content_def live_def bkey_def split: option.split)

lemma cells_content: "map content ds = map content es \<Longrightarrow> map cell ds = map cell es"
  by (auto simp: list_eq_iff_nth_eq intro!: cell_content)

lemma cells_dead: "\<forall>b \<in> set es. \<not> live b \<Longrightarrow> map cell es = replicate (length es) None"
  by (induction es) (simp_all add: cell_def)

lemma packed_buckets_append_dead:
  "map cell (packed_buckets (vs @ replicate n IS_UNDEF)) = map cell (packed_buckets vs) @ replicate n None"
  by (rule nth_equalityI) (auto simp: packed_buckets_nth nth_append cell_def live_def)

definition cell_dropped :: "'v HashTable \<Rightarrow> nat \<Rightarrow> 'v HashTable \<Rightarrow> bool" where
  "cell_dropped ht j ht' \<longleftrightarrow> flag_packed ht' = flag_packed ht \<and> flag_uninit ht' = flag_uninit ht \<and>
     (\<exists>n. hcells ht' @ replicate n None = (hcells ht)[j := None])"

definition deleted :: "'v HashTable \<Rightarrow> hkey \<Rightarrow> 'v zval \<Rightarrow> 'v HashTable \<Rightarrow> bool" where
  "deleted ht k old ht' \<longleftrightarrow>
     hash_wf ht' \<and> ht_elems ht' = AList.delete k (ht_elems ht) \<and>
     dtor_calls ht' = dtor_calls ht @ (if pDestructor ht then [old] else []) \<and> cvs ht' = cvs ht \<and>
     pDestructor ht' = pDestructor ht \<and> nTableSize ht' = nTableSize ht \<and>
     nNextFreeElement ht' = nNextFreeElement ht"

lemma delete_length:
  "distinct (map fst xs) \<Longrightarrow> k \<in> fst ` set xs \<Longrightarrow> length (AList.delete k xs) = length xs - 1"
proof -
  assume d: "distinct (map fst xs)" and "k \<in> fst ` set xs"
  then obtain w where "(k, w) \<in> set xs" by auto
  then obtain ys zs where x: "xs = ys @ (k, w) # zs" by (meson split_list)
  then have "AList.delete k xs = ys @ zs" using d delete_mid by metis
  then show ?thesis by (simp add: x)
qed

lemma zend_hash_packed_del_val_deleted:
  assumes "hash_wf ht" and "flag_packed ht" and "i < length (arPacked ht)" and "arPacked ht ! i \<noteq> IS_UNDEF"
  obtains ht' where "zend_hash_packed_del_val ht i = Ret ht'" "deleted ht (Idx (word_of_nat i)) (arPacked ht ! i) ht'"
    "cell_dropped ht i ht'"
proof -
  let ?vs = "arPacked ht" and ?k = "Idx (word_of_nat i)"
  let ?ds = "packed_buckets ?vs"
  have d: "distinct (map fst (data_elems ?ds))" by (rule packed_keys_distinct [OF packed_length [OF assms(1,2)]])
  have l: "i < length ?ds" "live (?ds ! i)" "bkey (?ds ! i) = ?k"
    using assms(3,4) by (simp_all add: packed_buckets_nth live_def bkey_def)
  have del: "packed_elems (?vs[i := IS_UNDEF]) = AList.delete ?k (ht_elems ht)"
    using data_elems_del [OF l(1,2) _ d, of "(?ds ! i)\<lparr>b_val := IS_UNDEF\<rparr>"] l(3) hash_wf_packed(2) [OF assms(1,2)]
    by (simp add: packed_elems_data packed_buckets_set [OF assms(3)] live_def)
  have num: "nNumOfElements ht - 1 = length (AList.delete ?k (ht_elems ht))"
  proof -
    have "?k \<in> fst ` set (data_elems ?ds)" using data_elems_split [OF l(1,2)] l(3) by auto
    then show ?thesis using delete_length [OF d] assms(1) hash_wf_packed(2) [OF assms(1,2)] by (simp add: hash_wf_def)
  qed
  define vs' where "vs' = (if length ?vs - 1 = i then trim_used id ?vs else ?vs[i := IS_UNDEF])"
  have v: "packed_elems vs' = AList.delete ?k (ht_elems ht) \<and> length vs' \<le> length ?vs \<and>
      (\<exists>n. vs' @ replicate n IS_UNDEF = ?vs[i := IS_UNDEF])"
  proof (cases "length ?vs - 1 = i")
    case True
    have "?vs \<noteq> []" using assms(3) by auto
    then obtain es where e: "?vs[length ?vs - 1 := IS_UNDEF] = trim_used id ?vs @ es @ [IS_UNDEF]"
      "\<forall>b \<in> set es. id b = IS_UNDEF" by (rule trim_used_split)
    then have "es @ [IS_UNDEF] = replicate (Suc (length es)) IS_UNDEF"
      by (metis id_apply replicate_append_same replicate_Suc replicate_length_same)
    then have "packed_elems (?vs[i := IS_UNDEF]) = packed_elems (trim_used id ?vs)"
      using e(1) True packed_elems_dead by metis
    moreover have "length (trim_used id ?vs) \<le> length ?vs"
      using e(1) [THEN arg_cong [of _ _ length]] by simp
    moreover have "trim_used id ?vs @ replicate (Suc (length es)) IS_UNDEF = ?vs[i := IS_UNDEF]"
      using e(1) \<open>es @ [IS_UNDEF] = _\<close> True by metis
    then have "\<exists>n. trim_used id ?vs @ replicate n IS_UNDEF = ?vs[i := IS_UNDEF]" by blast
    ultimately show ?thesis using True del by (simp add: vs'_def)
  next
    case False
    then show ?thesis using del by (auto simp: vs'_def intro: exI [of _ 0])
  qed
  then obtain n where n: "vs' @ replicate n IS_UNDEF = ?vs[i := IS_UNDEF]" by blast
  have "map cell (packed_buckets vs') @ replicate n None = (map cell (packed_buckets ?vs))[i := None]"
    unfolding packed_buckets_append_dead [symmetric] n
    by (simp add: packed_buckets_set [OF assms(3)] map_update cell_def live_def)
  note cells = this
  obtain ip its where r: "zend_hash_packed_del_val ht i =
      Ret (call_dtor (ht\<lparr>nNumOfElements := nNumOfElements ht - 1, arPacked := vs', nInternalPointer := ip,
        ht_iterators := its\<rparr>) (?vs ! i))"
  proof -
    obtain ip its where sk: "skip_deleted (ht\<lparr>nNumOfElements := nNumOfElements ht - 1\<rparr>) i =
        ht\<lparr>nNumOfElements := nNumOfElements ht - 1, nInternalPointer := ip, ht_iterators := its\<rparr>"
      by (rule skip_deleted_eq)
    have ok: "\<not> i \<ge> length ?vs" using assms(3) by simp
    show thesis
    proof (rule that [of its "if length ?vs - 1 = i then min ip (length vs') else ip"])
      show "zend_hash_packed_del_val ht i =
          Ret (call_dtor (ht\<lparr>nNumOfElements := nNumOfElements ht - 1, arPacked := vs',
            nInternalPointer := (if length ?vs - 1 = i then min ip (length vs') else ip),
            ht_iterators := its\<rparr>) (?vs ! i))"
        unfolding zend_hash_packed_del_val_def Let_def if_not_P [OF ok] sk
        by (auto simp: vs'_def intro!: arg_cong2 [of _ _ _ _ call_dtor] HashTable.equality)
    qed
  qed
  show thesis
    by (rule that [OF r])
      (use assms(1,2) v num cells in
        \<open>auto simp: deleted_def hash_wf_def ht_elems_def no_hash_def cell_dropped_def hcells_def\<close>)
qed

section \<open>Deletion from a table with chains\<close>

lemma del_el_ex_eq:
  assumes "j < length (arData ht)" and "ht_slot (nTableMask ht) (b_h (arData ht ! j)) < length (arHash ht)"
    and "\<And>q. pr = Some q \<Longrightarrow> q < length (arData ht) \<and> q \<noteq> j"
  obtains ds ip its es d where "zend_hash_del_el_ex ht j pr =
      Ret (call_dtor (ht\<lparr>nNumOfElements := nNumOfElements ht - 1,
        arHash := unlink_hash (nTableMask ht) (arHash ht) (arData ht) j pr, arData := ds, nInternalPointer := ip,
        ht_iterators := its\<rparr>) (b_val (arData ht ! j)))"
    "(unlink_data (arData ht) j pr)[j := d] = ds @ es" "\<not> live d" "\<forall>b \<in> set es. \<not> live b"
proof -
  define us where "us = unlink_data (arData ht) j pr"
  have lu: "length us = length (arData ht)" by (simp add: us_def)
  define ds where "ds = (if length (arData ht) - 1 = j then trim_used b_val us else us[j := (us ! j)\<lparr>b_val := IS_UNDEF\<rparr>])"
  have ok: "\<not> (j \<ge> length (arData ht) \<or> length (arHash ht) \<le> ht_slot (nTableMask ht) (b_h (arData ht ! j)) \<or>
      (case pr of None \<Rightarrow> False | Some q \<Rightarrow> q \<ge> length (arData ht)))"
    using assms by (auto split: option.splits)
  have base: "(case pr of Some q \<Rightarrow> ht\<lparr>arData := (arData ht)[q := (arData ht ! q)\<lparr>b_next := b_next (arData ht ! j)\<rparr>]\<rparr>
      | None \<Rightarrow> ht\<lparr>arHash := (arHash ht)[ht_slot (nTableMask ht) (b_h (arData ht ! j)) := b_next (arData ht ! j)]\<rparr>) =
    ht\<lparr>arHash := unlink_hash (nTableMask ht) (arHash ht) (arData ht) j pr, arData := us\<rparr>"
    by (auto simp: us_def unlink_data_def unlink_hash_def split: option.splits)
  obtain ip its where r: "zend_hash_del_el_ex ht j pr =
      Ret (call_dtor (ht\<lparr>nNumOfElements := nNumOfElements ht - 1,
        arHash := unlink_hash (nTableMask ht) (arHash ht) (arData ht) j pr, arData := ds, nInternalPointer := ip,
        ht_iterators := its\<rparr>) (b_val (arData ht ! j)))"
  proof -
    let ?b = "ht\<lparr>arHash := unlink_hash (nTableMask ht) (arHash ht) (arData ht) j pr, arData := us\<rparr>"
    have n: "nNumOfElements ?b = nNumOfElements ht" by simp
    obtain ip its where sk: "skip_deleted (?b\<lparr>nNumOfElements := nNumOfElements ht - 1\<rparr>) j =
        ?b\<lparr>nNumOfElements := nNumOfElements ht - 1, nInternalPointer := ip, ht_iterators := its\<rparr>"
      by (rule skip_deleted_eq)
    show thesis
    proof (rule that [of its "if length (arData ht) - 1 = j then min ip (length ds) else ip"])
      show "zend_hash_del_el_ex ht j pr =
          Ret (call_dtor (ht\<lparr>nNumOfElements := nNumOfElements ht - 1,
            arHash := unlink_hash (nTableMask ht) (arHash ht) (arData ht) j pr, arData := ds,
            nInternalPointer := (if length (arData ht) - 1 = j then min ip (length ds) else ip),
            ht_iterators := its\<rparr>) (b_val (arData ht ! j)))"
        unfolding zend_hash_del_el_ex_def Let_def if_not_P [OF ok] base n sk
        by (auto simp: ds_def intro!: arg_cong2 [of _ _ _ _ call_dtor] HashTable.equality)
    qed
  qed
  define d where "d = (us ! j)\<lparr>b_val := IS_UNDEF\<rparr>"
  have dead: "\<not> live d" by (simp add: d_def live_def)
  show thesis
  proof (cases "length (arData ht) - 1 = j")
    case True
    have "us \<noteq> []" using assms(1) lu by auto
    then obtain es where "us[length us - 1 := d] = trim_used b_val us @ es @ [d]" "\<forall>b \<in> set es. b_val b = IS_UNDEF"
      by (rule trim_used_split)
    then show ?thesis
      by (intro that [OF r, of d "es @ [d]"]) (use True lu dead in \<open>auto simp: ds_def us_def live_def\<close>)
  next
    case False
    then show ?thesis by (intro that [OF r, of d "[]"]) (use dead in \<open>simp_all add: ds_def d_def us_def\<close>)
  qed
qed

text \<open>The bucket may have lost its key before it is unlinked.\<close>

lemma chains_key:
  assumes "chains m hs ds"
  shows "chains m hs (ds[j := (ds ! j)\<lparr>b_key := k\<rparr>])"
proof (cases "j < length ds")
  case True
  have n: "last_idx (in_chain m c) (take n (ds[j := (ds ! j)\<lparr>b_key := k\<rparr>])) = last_idx (in_chain m c) (take n ds)"
    for n c by (rule last_idx_same_flags) (use True in \<open>simp_all add: live_def\<close>)
  show ?thesis
    using assms True n [where n = "length ds"] n unfolding chains_def by (auto simp: nth_list_update live_def)
qed (use assms in \<open>simp add: list_update_beyond\<close>)

lemma pred_ok_key:
  assumes "pred_ok (in_chain m c) ds j pr" and "i < length ds"
  shows "pred_ok (in_chain m c) (ds[i := (ds ! i)\<lparr>b_key := k\<rparr>]) j pr"
proof -
  have n: "last_idx (in_chain m c) (take n (ds[i := (ds ! i)\<lparr>b_key := k\<rparr>])) = last_idx (in_chain m c) (take n ds)"
    for n by (rule last_idx_same_flags) (use assms(2) in \<open>simp_all add: live_def\<close>)
  have "in_chain m c (ds[i := (ds ! i)\<lparr>b_key := k\<rparr>] ! p) = in_chain m c (ds ! p)" for p
    using assms(2) by (cases "p = i") (auto simp: in_chain_def live_def)
  then show ?thesis
    using assms(1) n [of "length ds"] n by (auto simp: pred_ok_def split: option.splits)
qed

lemma content_unlink: "map content (unlink_data ds j pr) = map content ds"
  by (rule nth_equalityI) (simp_all add: unlink_data_nth)

text \<open>Deleting bucket \<open>j\<close> of a table in use, found with its predecessor.\<close>

lemma del_el_deleted:
  assumes "in_use ht" and j: "j < length (arData ht)" "live (arData ht ! j)"
    and pr: "pred_ok (in_chain (nTableMask ht) (ht_slot (nTableMask ht) (b_h (arData ht ! j)))) (arData ht) j pr"
    and ht1: "ht1 = ht\<lparr>arData := (arData ht)[j := (arData ht ! j)\<lparr>b_key := k\<rparr>]\<rparr>"
  obtains ht' where "zend_hash_del_el_ex ht1 j pr = Ret ht'"
    "deleted ht (bkey (arData ht ! j)) (b_val (arData ht ! j)) ht'" "cell_dropped ht j ht'"
proof -
  let ?m = "nTableMask ht" and ?ds = "arData ht" and ?es = "(arData ht)[j := (arData ht ! j)\<lparr>b_key := k\<rparr>]"
  let ?c = "ht_slot ?m (b_h (?ds ! j))" and ?k = "bkey (?ds ! j)"
  have m: "mixed_wf ht" and s: "size_ok (nTableSize ht)" and np: "\<not> flag_packed ht" "\<not> flag_uninit ht"
    and num: "nNumOfElements ht = length (data_elems ?ds)"
    and nf: "ZEND_LONG_MIN \<le> nNextFreeElement ht" "nNextFreeElement ht \<le> ZEND_LONG_MAX"
    using assms(1) by (auto simp: in_use_def hash_wf_def ht_elems_def)
  have len: "length ?ds < HT_INVALID_IDX" by (rule mixed_length [OF m s])
  have d: "distinct (map fst (data_elems ?ds))" using m by (simp add: mixed_wf_def)
  have e: "length ?es = length ?ds" "live (?es ! j)" "b_h (?es ! j) = b_h (?ds ! j)" "b_val (?es ! j) = b_val (?ds ! j)"
    using j by (simp_all add: live_def)
  have prj: "q < length ?ds \<and> q \<noteq> j" if "pr = Some q" for q
    using pred_gt [OF pr [unfolded that] len j(1)] by auto
  obtain ds ip its es b where r: "zend_hash_del_el_ex ht1 j pr =
      Ret (call_dtor (ht1\<lparr>nNumOfElements := nNumOfElements ht1 - 1,
        arHash := unlink_hash (nTableMask ht1) (arHash ht1) (arData ht1) j pr, arData := ds, nInternalPointer := ip,
        ht_iterators := its\<rparr>) (b_val (arData ht1 ! j)))"
    "(unlink_data (arData ht1) j pr)[j := b] = ds @ es" "\<not> live b" "\<forall>b \<in> set es. \<not> live b"
    by (rule del_el_ex_eq [of j ht1 pr]) (use j e prj mixed_slot [OF m s] in \<open>auto simp: ht1\<close>)
  have "chains ?m (unlink_hash ?m (arHash ht) ?es j pr) ((unlink_data ?es j pr)[j := b])"
    by (rule chains_unlink [OF chains_key [OF mixed_chains [OF m]], where c = ?c])
      (use len j e r(3) pred_ok_key [OF pr j(1)] in simp_all)
  then have ch: "chains ?m (unlink_hash ?m (arHash ht) ?es j pr) ds"
    using r(2,4) chains_drop_dead [of ?m _ ds es] by (simp add: ht1)
  have "map content (ds @ es) = (map content ?ds)[j := content b]"
  proof -
    have q: "(unlink_data ?es j pr)[j := b] = ds @ es" using r(2) by (simp add: ht1)
    have "map content (ds @ es) = (map content ?es)[j := content b]"
      unfolding q [symmetric] by (simp only: map_update content_unlink)
    also have "\<dots> = (map content ?ds)[j := content b]" by (simp add: map_update)
    finally show ?thesis .
  qed
  then have cont: "map content (ds @ es) = map content (?ds[j := b])" by (simp add: map_update)
  then have el: "data_elems ds = AList.delete ?k (data_elems ?ds)"
  proof -
    have "data_elems ds = data_elems (ds @ es)" using r(4) by (simp add: data_elems_dead)
    also have "\<dots> = data_elems (?ds[j := b])"
      by (rule data_elems_content) (simp only: filter_live_content cont)
    also have "\<dots> = AList.delete ?k (data_elems ?ds)" by (rule data_elems_del [OF j r(3) d])
    finally show ?thesis .
  qed
  have ko: "\<forall>b \<in> set ds. live b \<longrightarrow> key_ok b"
  proof (intro ballI impI)
    fix x assume x: "x \<in> set ds" "live x"
    then have "content x \<in> set (map content (?ds[j := b]))" using cont by (metis Un_iff image_eqI set_append set_map)
    then obtain y where y: "y \<in> set (?ds[j := b])" "content x = content y" by auto
    then have "live y" using x(2) by (simp add: live_content)
    then have "y \<in> set ?ds" using y(1) r(3) set_update_subset_insert by (metis insertE subsetD)
    then have "key_ok y" using m \<open>live y\<close> by (simp add: mixed_wf_def)
    then show "key_ok x" using key_ok_content y(2) by metis
  qed
  have ln: "length ds \<le> length ?ds" using cont [THEN arg_cong [of _ _ length]] by simp
  have kin: "?k \<in> fst ` set (data_elems ?ds)" using data_elems_split [OF j] by auto
  let ?h = "ht1\<lparr>nNumOfElements := nNumOfElements ht1 - 1,
        arHash := unlink_hash (nTableMask ht1) (arHash ht1) (arData ht1) j pr, arData := ds, nInternalPointer := ip,
        ht_iterators := its\<rparr>"
  have "length (unlink_hash ?m (arHash ht) ?es j pr) = length (arHash ht)"
    by (simp add: unlink_hash_def split: option.splits)
  then have "mixed_wf ?h"
    using m ch el ko ln distinct_delete [OF d, of ?k] unfolding mixed_wf_def by (auto simp: ht1)
  then have "hash_wf ?h"
    using s np nf num el delete_length [OF d kin] by (simp add: hash_wf_def ht_elems_def ht1)
  then have "deleted ht ?k (b_val (?ds ! j)) (call_dtor ?h (b_val (arData ht1 ! j)))"
    using el np j by (simp add: deleted_def ht_elems_def ht1)
  moreover have "map cell ds @ replicate (length es) None = (map cell ?ds)[j := None]"
    using cells_content [OF cont] r(3,4) by (simp add: cells_dead map_update cell_def)
  then have "cell_dropped ht j (call_dtor ?h (b_val (arData ht1 ! j)))"
    using np by (auto simp: cell_dropped_def hcells_def ht1)
  ultimately show thesis using that r(1) by blast
qed

section \<open>Deletion by key\<close>

lemma chain_del_found:
  assumes "in_use ht" and "find_pos k (arData ht) = Some j"
  obtains pr where "run_bind (HT_HASH ht (key_hash k)) (\<lambda>idx. run_of (chain_del (key_matches k) (arData ht) idx None)) =
      Ret (Some (j, pr))"
    "pred_ok (in_chain (nTableMask ht) (ht_slot (nTableMask ht) (b_h (arData ht ! j)))) (arData ht) j pr"
    "j < length (arData ht)" "live (arData ht ! j)" "bkey (arData ht ! j) = k"
proof -
  let ?c = "ht_slot (nTableMask ht) (key_hash k)" and ?ds = "arData ht"
  let ?C = "in_chain (nTableMask ht) ?c"
  have m: "mixed_wf ht" and s: "size_ok (nTableSize ht)" using assms(1) by (auto simp: in_use_def hash_wf_def)
  note len = mixed_length [OF m s]
  note j = find_pos_Some [OF len assms(2)]
  have "key_ok (?ds ! j)" using m j by (simp add: mixed_wf_def)
  then have bh: "b_h (?ds ! j) = key_hash k" using key_ok_hash j(3) by metis
  have "last_idx (\<lambda>b. ?C b \<and> key_matches k b) ?ds = j" "j \<noteq> HT_INVALID_IDX"
    using chain_pos [OF m, of k] assms(2) by (auto simp: find_pos_def Let_def split: if_splits)
  then obtain pr where "chain_del (key_matches k) ?ds (last_idx ?C ?ds) None = Some (Some (j, pr))" "pred_ok ?C ?ds j pr"
    using chain_del_eq [OF mixed_chains [OF m] len order_refl, of ?c None "key_matches k"]
    by (auto simp: pred_ok_def)
  moreover have "HT_HASH ht (key_hash k) = Ret (last_idx ?C ?ds)"
    using mixed_slot [OF m s] chainsD(1) [OF mixed_chains [OF m]] by (simp add: HT_HASH_def Let_def)
  ultimately show thesis using that [of pr] j bh by simp
qed

lemma chain_del_absent:
  assumes "hash_wf ht" and "find_pos k (arData ht) = None"
  shows "run_bind (HT_HASH ht (key_hash k)) (\<lambda>idx. run_of (chain_del (key_matches k) (arData ht) idx None)) = Ret None"
proof (cases "flag_packed ht \<or> flag_uninit ht")
  case True
  then have "no_hash ht" using assms(1) by (auto simp: hash_wf_def split: if_splits)
  then have "HT_HASH ht (key_hash k) = Ret HT_INVALID_IDX"
    using min_mask_slot [of "key_hash k"] by (auto simp: HT_HASH_def Let_def no_hash_def less_2_cases_iff)
  then show ?thesis by (subst chain_del.simps) simp
next
  case False
  let ?c = "ht_slot (nTableMask ht) (key_hash k)" and ?ds = "arData ht"
  let ?C = "in_chain (nTableMask ht) ?c"
  have m: "mixed_wf ht" and s: "size_ok (nTableSize ht)" using assms(1) False by (auto simp: hash_wf_def)
  have "last_idx (\<lambda>b. ?C b \<and> key_matches k b) ?ds = HT_INVALID_IDX"
    using chain_pos [OF m, of k] assms(2) by (auto simp: find_pos_def Let_def split: if_splits)
  then have "chain_del (key_matches k) ?ds (last_idx ?C ?ds) None = Some None"
    using chain_del_eq [OF mixed_chains [OF m] mixed_length [OF m s] order_refl, of ?c None "key_matches k"]
    by (auto simp: pred_ok_def)
  moreover have "HT_HASH ht (key_hash k) = Ret (last_idx ?C ?ds)"
    using mixed_slot [OF m s] chainsD(1) [OF mixed_chains [OF m]] by (simp add: HT_HASH_def Let_def)
  ultimately show ?thesis by simp
qed

lemma run_bind_assoc: "run_bind (run_bind r f) g = run_bind r (\<lambda>x. run_bind (f x) g)"
  by (cases r) simp_all

text \<open>What a deletion does: with the key in the table it removes the element, otherwise nothing.\<close>

definition del_spec :: "'v HashTable \<Rightarrow> hkey \<Rightarrow> ('v HashTable \<times> bool) run \<Rightarrow> bool" where
  "del_spec ht k r \<longleftrightarrow>
     (case map_of (ht_elems ht) k of
        None \<Rightarrow> r = Ret (ht, False)
      | Some old \<Rightarrow> \<exists>ht'. r = Ret (ht', True) \<and> deleted ht k old ht')"

lemma zend_hash_del_deleted:
  assumes "hash_wf ht"
  shows "del_spec ht (Str key) (zend_hash_del ht key)"
proof -
  let ?R = "run_bind (HT_HASH ht (key_hash (Str key)))
      (\<lambda>idx. run_of (chain_del (key_matches (Str key)) (arData ht) idx None))"
  have e: "zend_hash_del ht key = run_bind ?R (\<lambda>r.
        case r of
          None \<Rightarrow> Ret (ht, False)
        | Some (idx, prev) \<Rightarrow>
            run_bind (zend_hash_del_el_ex (clear_key ht idx) idx prev) (\<lambda>ht. Ret (ht, True)))"
    by (simp add: zend_hash_del_def Let_def run_bind_assoc key_matches_def)
  show ?thesis
  proof (cases "find_pos (Str key) (arData ht)")
    case None
    have "map_of (ht_elems ht) (Str key) = None"
    proof (cases "flag_packed ht")
      case True
      then show ?thesis using hash_wf_packed(2) [OF assms True] string_not_packed by (simp add: map_of_eq_None_iff)
    next
      case False
      note w = hash_wf_data [OF assms False]
      show ?thesis using find_pos_map_of [OF w(1,2), of "Str key"] None w(3) by simp
    qed
    then show ?thesis using e chain_del_absent [OF assms None] by (simp add: del_spec_def)
  next
    case (Some j)
    then have "arData ht \<noteq> []" by (auto simp: find_pos_def)
    then have u: "in_use ht" using assms by (auto simp: in_use_def hash_wf_def no_hash_def split: if_splits)
    then have np: "\<not> flag_packed ht" by (simp add: in_use_def)
    note w = hash_wf_data [OF assms np]
    obtain pr where c: "?R = Ret (Some (j, pr))"
      "pred_ok (in_chain (nTableMask ht) (ht_slot (nTableMask ht) (b_h (arData ht ! j)))) (arData ht) j pr"
      "j < length (arData ht)" "live (arData ht ! j)" "bkey (arData ht ! j) = Str key"
      using chain_del_found [OF u Some] by metis
    obtain ht' where "zend_hash_del_el_ex (clear_key ht j) j pr = Ret ht'"
      "deleted ht (Str key) (b_val (arData ht ! j)) ht'"
      using del_el_deleted [OF u c(3,4,2), of "clear_key ht j" None] c(5) by (auto simp: clear_key_def)
    then show ?thesis
      using e c(1) find_pos_map_of [OF w(1,2), of "Str key"] Some w(3) by (simp add: del_spec_def)
  qed
qed

lemma zend_hash_index_del_deleted:
  assumes "hash_wf ht"
  shows "del_spec ht (Idx h) (zend_hash_index_del ht h)"
proof (cases "flag_packed ht")
  case True
  have f: "map_of (ht_elems ht) (Idx h) = (if unat h < length (arPacked ht) \<and> arPacked ht ! unat h \<noteq> IS_UNDEF
      then Some (arPacked ht ! unat h) else None)"
    using zend_hash_index_find_map [OF assms, of h] True by (auto simp: zend_hash_index_find_def split: if_splits)
  show ?thesis
  proof (cases "unat h < length (arPacked ht) \<and> arPacked ht ! unat h \<noteq> IS_UNDEF")
    case p: True
    then obtain ht' where "zend_hash_packed_del_val ht (unat h) = Ret ht'"
      "deleted ht (Idx (word_of_nat (unat h))) (arPacked ht ! unat h) ht'"
      using zend_hash_packed_del_val_deleted [OF assms True, of "unat h"] by metis
    then show ?thesis using f p True by (simp add: del_spec_def zend_hash_index_del_def)
  next
    case False
    then show ?thesis using f True by (auto simp: del_spec_def zend_hash_index_del_def)
  qed
next
  case False
  let ?R = "run_bind (HT_HASH ht (key_hash (Idx h)))
      (\<lambda>idx. run_of (chain_del (key_matches (Idx h)) (arData ht) idx None))"
  have e: "zend_hash_index_del ht h = run_bind ?R (\<lambda>r.
        case r of
          None \<Rightarrow> Ret (ht, False)
        | Some (idx, prev) \<Rightarrow> run_bind (zend_hash_del_el_ex ht idx prev) (\<lambda>ht. Ret (ht, True)))"
    using False by (simp add: zend_hash_index_del_def run_bind_assoc key_matches_def)
  note w = hash_wf_data [OF assms False]
  show ?thesis
  proof (cases "find_pos (Idx h) (arData ht)")
    case None
    then show ?thesis
      using e chain_del_absent [OF assms None] find_pos_map_of [OF w(1,2), of "Idx h"] w(3)
      by (simp add: del_spec_def)
  next
    case (Some j)
    then have "arData ht \<noteq> []" by (auto simp: find_pos_def)
    then have u: "in_use ht" using assms by (auto simp: in_use_def hash_wf_def no_hash_def split: if_splits)
    obtain pr where c: "?R = Ret (Some (j, pr))"
      "pred_ok (in_chain (nTableMask ht) (ht_slot (nTableMask ht) (b_h (arData ht ! j)))) (arData ht) j pr"
      "j < length (arData ht)" "live (arData ht ! j)" "bkey (arData ht ! j) = Idx h"
      using chain_del_found [OF u Some] by metis
    obtain ht' where "zend_hash_del_el_ex ht j pr = Ret ht'" "deleted ht (Idx h) (b_val (arData ht ! j)) ht'"
      using del_el_deleted [OF u c(3,4,2), of ht "b_key (arData ht ! j)"] c(5) by auto
    then show ?thesis
      using e c(1) find_pos_map_of [OF w(1,2), of "Idx h"] Some w(3) by (simp add: del_spec_def)
  qed
qed

lemma zend_hash_str_del_eq: "zend_hash_str_del ht str = zend_hash_del ht str"
  by (simp add: zend_hash_str_del_def zend_hash_del_def)

end
