(* ===== verification/Zend_Hash_Map.thy ===== *)
theory Zend_Hash_Map
  imports Zend_Hash_Del
begin

text \<open>
  The hash table as an ordered map: an interface with its laws, the interpretation of the interface
  on the operations of \<open>zend_hash.c\<close>, and the properties of the table.
\<close>

section \<open>Ordered maps\<close>

text \<open>\<open>find\<close>, \<open>put\<close> and \<open>del\<close> may fail; \<open>room\<close> says that an insertion finds room.\<close>

locale ordered_map =
  fixes inv :: "'t \<Rightarrow> bool" and elems :: "'t \<Rightarrow> ('k \<times> 'v) list" and room :: "'t \<Rightarrow> bool"
    and valid :: "'v \<Rightarrow> bool"
    and find :: "'t \<Rightarrow> 'k \<Rightarrow> 'v option run" and put :: "'t \<Rightarrow> 'k \<Rightarrow> 'v \<Rightarrow> 't run"
    and del :: "'t \<Rightarrow> 'k \<Rightarrow> 't run"
  assumes keys_distinct: "inv t \<Longrightarrow> distinct (map fst (elems t))"
    and find_law: "inv t \<Longrightarrow> find t k = Ret (map_of (elems t) k)"
    and put_law: "inv t \<Longrightarrow> room t \<Longrightarrow> valid v \<Longrightarrow>
      \<exists>t'. put t k v = Ret t' \<and> inv t' \<and> elems t' = AList.update k v (elems t)"
    and del_law: "inv t \<Longrightarrow> \<exists>t'. del t k = Ret t' \<and> inv t' \<and> elems t' = AList.delete k (elems t)"
begin

lemma find_after_put:
  assumes "inv t" "room t" "valid v"
  shows "run_bind (put t k v) (\<lambda>t'. find t' k') = (if k' = k then Ret (Some v) else find t k')"
  using put_law [OF assms, of k] find_law [OF assms(1)] find_law by (auto simp: update_conv')

lemma find_after_del:
  assumes "inv t"
  shows "run_bind (del t k) (\<lambda>t'. find t' k') = (if k' = k then Ret None else find t k')"
proof -
  obtain t' where t: "del t k = Ret t'" "inv t'" "elems t' = AList.delete k (elems t)"
    using del_law [OF assms] by metis
  then show ?thesis using find_law [OF assms] find_law [OF t(2)] by (simp add: delete_conv')
qed

lemma put_order:
  assumes "inv t" "room t" "valid v"
  shows "run_bind (put t k v) (\<lambda>t'. Ret (map fst (elems t'))) =
    Ret (if k \<in> fst ` set (elems t) then map fst (elems t) else map fst (elems t) @ [k])"
  using put_law [OF assms, of k] by (force simp: update_keys)

lemma del_order:
  assumes "inv t"
  shows "run_bind (del t k) (\<lambda>t'. Ret (map fst (elems t'))) = Ret (removeAll k (map fst (elems t)))"
  using del_law [OF assms, of k] by (auto simp: AList.delete_keys)

lemma del_put:
  assumes "inv t" "room t" "valid v" "find t k = Ret None"
  shows "run_bind (put t k v) (\<lambda>t'. run_bind (del t' k) (\<lambda>t''. Ret (elems t''))) = Ret (elems t)"
proof -
  obtain t1 where t1: "put t k v = Ret t1" "inv t1" "elems t1 = AList.update k v (elems t)"
    using put_law [OF assms(1-3)] by metis
  obtain t2 where t2: "del t1 k = Ret t2" "elems t2 = AList.delete k (elems t1)" using del_law [OF t1(2)] by metis
  have k: "k \<notin> fst ` set (elems t)" using assms(4) find_law [OF assms(1)] by (simp add: map_of_eq_None_iff)
  have "elems t2 = AList.delete k (elems t @ [(k, v)])" using t1(3) t2(2) update_new [OF k] by simp
  also have "\<dots> = elems t" using delete_mid [of "elems t" k v "[]"] keys_distinct [OF assms(1)] k by simp
  finally show ?thesis using t1(1) t2(1) by simp
qed

end

section \<open>The interpretation\<close>

definition hash_find :: "'v HashTable \<Rightarrow> hkey \<Rightarrow> 'v zval option run" where
  "hash_find ht k = (case k of Idx h \<Rightarrow> zend_hash_index_find ht h | Str s \<Rightarrow> zend_hash_find ht s)"

definition hash_put :: "'v HashTable \<Rightarrow> hkey \<Rightarrow> 'v zval \<Rightarrow> 'v HashTable run" where
  "hash_put ht k v =
     run_bind (case k of Idx h \<Rightarrow> zend_hash_index_update ht h v | Str s \<Rightarrow> zend_hash_update ht s v) (\<lambda>(ht, p). Ret ht)"

definition hash_del :: "'v HashTable \<Rightarrow> hkey \<Rightarrow> 'v HashTable run" where
  "hash_del ht k =
     run_bind (case k of Idx h \<Rightarrow> zend_hash_index_del ht h | Str s \<Rightarrow> zend_hash_del ht s) (\<lambda>(ht, r). Ret ht)"

lemma hash_wf_keys: "hash_wf ht \<Longrightarrow> distinct (map fst (ht_elems ht))"
  using hash_wf_data(2,3) [of ht] hash_wf_packed(2) [of ht] packed_keys_distinct [of "arPacked ht"]
    packed_length [of ht] by (cases "flag_packed ht") simp_all

lemma map_of_absent: "map_of xs k = None \<Longrightarrow> k \<notin> fst ` set xs"
  by (simp add: map_of_eq_None_iff)

definition old_calls :: "'v HashTable \<Rightarrow> hkey \<Rightarrow> 'v zval list" where
  "old_calls ht k =
     (case map_of (ht_elems ht) k of Some old \<Rightarrow> if pDestructor ht then [old] else [] | None \<Rightarrow> [])"

text \<open>Replacing with \<open>HASH_UPDATE\<close> and adding with \<open>HASH_ADD\<close>, for both kinds of key.\<close>

definition updated :: "'v HashTable \<Rightarrow> hkey \<Rightarrow> 'v zval \<Rightarrow> ('v HashTable \<times> zptr option) run \<Rightarrow> bool" where
  "updated ht k v r \<longleftrightarrow>
     (\<exists>ht' i. r = Ret (ht', Some (Elem i)) \<and> hash_wf ht' \<and> ht_elems ht' = AList.update k v (ht_elems ht) \<and>
        dtor_calls ht' = dtor_calls ht @ old_calls ht k \<and> cvs ht' = cvs ht \<and> pDestructor ht' = pDestructor ht)"

lemma zend_hash_update_updated:
  assumes "hash_wf ht" and "nTableSize ht < HT_MAX_SIZE" and "v \<noteq> IS_UNDEF"
  shows "updated ht (Str key) v (zend_hash_update ht key v)"
proof (cases "map_of (ht_elems ht) (Str key)")
  case None
  note k = map_of_absent [OF None]
  obtain ht' i where "zend_hash_add_or_update_i ht key v [HASH_UPDATE] = Ret (ht', Some (Elem i))" "hash_wf ht'"
    "ht_elems ht' = ht_elems ht @ [(Str key, v)]" "frame ht ht'"
    using add_new_string [OF assms(1) k _ assms(2), of v "[HASH_UPDATE]"] assms(3) by (auto simp: new_val_def)
  then show ?thesis
    using None update_new [OF k, of v] by (simp add: updated_def zend_hash_update_def old_calls_def frame_def)
next
  case (Some old)
  obtain j where j: "zend_hash_add_or_update_i ht key v [HASH_UPDATE] = Ret (update_found ht j v [HASH_UPDATE])"
    "in_use ht" "j < length (arData ht)" "live (arData ht ! j)" "bkey (arData ht ! j) = Str key"
    "b_val (arData ht ! j) = old"
    using old_string_found [OF assms(1) Some, of "[HASH_UPDATE]" v] by auto
  have "update_found ht j v [HASH_UPDATE] = (replace_elem ht j old v, Some (Elem j))"
    using j(6) by (simp add: update_found_def split: zval.splits)
  then show ?thesis
    using j(1) Some set_elem_in_use [OF j(2,3,4) assms(3)] j(5) set_elem_frame [of ht j v]
    by (simp add: updated_def zend_hash_update_def replace_elem_eq old_calls_def in_use_def frame_def)
qed

lemma zend_hash_index_update_updated:
  assumes "hash_wf ht" and "nTableSize ht < HT_MAX_SIZE" and "v \<noteq> IS_UNDEF"
  shows "updated ht (Idx h) v (zend_hash_index_update ht h v)"
proof (cases "map_of (ht_elems ht) (Idx h)")
  case None
  note k = map_of_absent [OF None]
  have "index_added ht h v (zend_hash_index_add_or_update_i ht h v [HASH_UPDATE])"
    using add_new_index [OF assms(1,2), of h "[HASH_UPDATE]" h v] k assms(3) by (simp add: new_val_def)
  then show ?thesis
    using None update_new [OF k, of v]
    by (auto simp: index_added_def updated_def zend_hash_index_update_def old_calls_def)
next
  case (Some old)
  obtain j where j: "zend_hash_index_add_or_update_i ht h v [HASH_UPDATE] = Ret (replace_index ht j old v [HASH_UPDATE])"
    "\<And>v. v \<noteq> IS_UNDEF \<Longrightarrow> hash_wf (set_elem ht j v) \<and> ht_elems (set_elem ht j v) = AList.update (Idx h) v (ht_elems ht)"
    using old_index_found [OF assms(1) Some, of "[HASH_UPDATE]" h v] by auto
  then show ?thesis
    using j(2) [OF assms(3)] Some set_elem_frame [of ht j v]
    by (simp add: updated_def zend_hash_index_update_def replace_index_def replace_elem_eq old_calls_def frame_def)
qed

interpretation zh: ordered_map hash_wf ht_elems "\<lambda>ht. nTableSize ht < HT_MAX_SIZE" "\<lambda>v. v \<noteq> IS_UNDEF"
  hash_find hash_put hash_del
proof
  fix t :: "'v HashTable" and k :: hkey and v :: "'v zval"
  show "hash_wf t \<Longrightarrow> distinct (map fst (ht_elems t))" by (rule hash_wf_keys)
  show "hash_wf t \<Longrightarrow> hash_find t k = Ret (map_of (ht_elems t) k)"
    by (cases k) (simp_all add: hash_find_def zend_hash_find_map zend_hash_index_find_map)
  show "\<exists>t'. hash_put t k v = Ret t' \<and> hash_wf t' \<and> ht_elems t' = AList.update k v (ht_elems t)"
    if "hash_wf t" "nTableSize t < HT_MAX_SIZE" "v \<noteq> IS_UNDEF"
  proof (cases k)
    case (Idx h)
    then show ?thesis using zend_hash_index_update_updated [OF that, of h] by (auto simp: updated_def hash_put_def)
  next
    case (Str s)
    then show ?thesis using zend_hash_update_updated [OF that, of s] by (auto simp: updated_def hash_put_def)
  qed
  show "\<exists>t'. hash_del t k = Ret t' \<and> hash_wf t' \<and> ht_elems t' = AList.delete k (ht_elems t)" if "hash_wf t"
  proof -
    have d: "del_spec t k (case k of Idx h \<Rightarrow> zend_hash_index_del t h | Str s \<Rightarrow> zend_hash_del t s)"
      by (cases k) (simp_all add: zend_hash_del_deleted zend_hash_index_del_deleted that)
    have "\<exists>ht' b. (case k of Idx h \<Rightarrow> zend_hash_index_del t h | Str s \<Rightarrow> zend_hash_del t s) = Ret (ht', b) \<and>
        hash_wf ht' \<and> ht_elems ht' = AList.delete k (ht_elems t)"
    proof (cases "map_of (ht_elems t) k")
      case None
      then have "AList.delete k (ht_elems t) = ht_elems t" using map_of_absent [OF None]
        by (force simp: AList.delete_eq filter_id_conv)
      then show ?thesis using None that d by (simp add: del_spec_def) blast
    next
      case (Some old)
      then show ?thesis using d by (auto simp: del_spec_def deleted_def)
    qed
    then show ?thesis by (auto simp: hash_del_def)
  qed
qed

section \<open>Further facts for the properties\<close>

lemma zend_hash_add_cases:
  assumes "hash_wf ht" and "nTableSize ht < HT_MAX_SIZE" and "v \<noteq> IS_UNDEF"
  shows "case map_of (ht_elems ht) (Str key) of
      Some old \<Rightarrow> zend_hash_add ht key v = Ret (ht, None)
    | None \<Rightarrow> updated ht (Str key) v (zend_hash_add ht key v)"
proof (cases "map_of (ht_elems ht) (Str key)")
  case None
  note k = map_of_absent [OF None]
  obtain ht' i where "zend_hash_add_or_update_i ht key v [HASH_ADD] = Ret (ht', Some (Elem i))" "hash_wf ht'"
    "ht_elems ht' = ht_elems ht @ [(Str key, v)]" "frame ht ht'"
    using add_new_string [OF assms(1) k _ assms(2), of v "[HASH_ADD]"] assms(3) by (auto simp: new_val_def)
  then show ?thesis
    using None update_new [OF k, of v] by (simp add: updated_def zend_hash_add_def old_calls_def frame_def)
next
  case (Some old)
  obtain j where "zend_hash_add_or_update_i ht key v [HASH_ADD] = Ret (update_found ht j v [HASH_ADD])"
    using old_string_found [OF assms(1) Some, of "[HASH_ADD]" v] by auto
  then show ?thesis using Some by (simp add: zend_hash_add_def update_found_def)
qed

lemma zend_hash_index_add_cases:
  assumes "hash_wf ht" and "nTableSize ht < HT_MAX_SIZE" and "v \<noteq> IS_UNDEF"
  shows "case map_of (ht_elems ht) (Idx h) of
      Some old \<Rightarrow> zend_hash_index_add ht h v = Ret (ht, None)
    | None \<Rightarrow> updated ht (Idx h) v (zend_hash_index_add ht h v)"
proof (cases "map_of (ht_elems ht) (Idx h)")
  case None
  note k = map_of_absent [OF None]
  have "index_added ht h v (zend_hash_index_add_or_update_i ht h v [HASH_ADD])"
    using add_new_index [OF assms(1,2), of h "[HASH_ADD]" h v] k assms(3) by (simp add: new_val_def)
  then show ?thesis
    using None update_new [OF k, of v]
    by (auto simp: index_added_def updated_def zend_hash_index_add_def old_calls_def)
next
  case (Some old)
  obtain j where "zend_hash_index_add_or_update_i ht h v [HASH_ADD] = Ret (replace_index ht j old v [HASH_ADD])"
    using old_index_found [OF assms(1) Some, of "[HASH_ADD]" h v] by auto
  then show ?thesis using Some by (simp add: zend_hash_index_add_def replace_index_def)
qed

text \<open>Every integer key is below the next free one.\<close>

definition next_ok :: "'v HashTable \<Rightarrow> bool" where
  "next_ok ht \<longleftrightarrow>
     (\<forall>h. Idx h \<in> fst ` set (ht_elems ht) \<longrightarrow> sint h < nNextFreeElement ht) \<or> nNextFreeElement ht = ZEND_LONG_MAX"

lemma sint_of_next:
  "ZEND_LONG_MIN \<le> n \<Longrightarrow> n \<le> ZEND_LONG_MAX \<Longrightarrow> sint (word_of_int n :: 64 word) = n"
  unfolding signed_of_int by (simp add: signed_take_bit_int_eq_self_iff)

lemma next_insert_added:
  assumes "hash_wf ht" and "nTableSize ht < HT_MAX_SIZE" and "v \<noteq> IS_UNDEF" and "next_ok ht"
    and "nNextFreeElement ht < ZEND_LONG_MAX"
    and "h = (if nNextFreeElement ht = ZEND_LONG_MIN then 0 else word_of_int (nNextFreeElement ht))"
  shows "index_added ht h v (zend_hash_next_index_insert ht v)"
    and "Idx h \<notin> fst ` set (ht_elems ht)"
proof -
  have b: "ZEND_LONG_MIN \<le> nNextFreeElement ht" "nNextFreeElement ht \<le> ZEND_LONG_MAX"
    using assms(1) by (simp_all add: hash_wf_def)
  note sn = sint_of_next [OF b]
  have lo: "ZEND_LONG_MIN \<le> sint h'" for h' :: "64 word" using sint_greater_eq [of h'] by simp
  show k: "Idx h \<notin> fst ` set (ht_elems ht)"
  proof
    assume "Idx h \<in> fst ` set (ht_elems ht)"
    then have "sint h < nNextFreeElement ht" using assms(4,5) by (auto simp: next_ok_def)
    then show False using assms(6) sn lo [of h] by (auto split: if_splits)
  qed
  have eq: "word_of_int (nNextFreeElement ht) = (word_of_int ZEND_LONG_MIN :: 64 word) \<longleftrightarrow>
      nNextFreeElement ht = ZEND_LONG_MIN"
  proof -
    have "sint (word_of_int ZEND_LONG_MIN :: 64 word) = ZEND_LONG_MIN" by (rule sint_of_next) simp_all
    then show ?thesis using sn by metis
  qed
  show "index_added ht h v (zend_hash_next_index_insert ht v)"
    using add_new_index [OF assms(1,2), of h "[HASH_ADD, HASH_ADD_NEXT]" "word_of_int (nNextFreeElement ht)" v]
      k assms(3,6) eq by (simp add: zend_hash_next_index_insert_def new_val_def)
qed

section \<open>Sample tables\<close>

definition fresh_table :: "nat HashTable" where
  "fresh_table = zend_empty_array"

definition pair_table :: "nat HashTable" where
  "pair_table =
     (zend_hash_real_init_packed_ex fresh_table)
       \<lparr>arPacked := [IS_VALUE 7, IS_VALUE 9], nNumOfElements := 2, nNextFreeElement := 2\<rparr>"

lemma size_ok_8: "size_ok 8"
  unfolding size_ok_def by (rule exI [of _ 3]) simp

lemma fresh_table_wf: "hash_wf fresh_table" "nTableSize fresh_table = 8" "ht_elems fresh_table = []"
    "nNextFreeElement fresh_table = 0" "dtor_calls fresh_table = []"
  by (simp_all add: fresh_table_def zend_empty_array_def hash_wf_def no_hash_def size_ok_8 ht_elems_def)

lemma pair_table_wf: "hash_wf pair_table" "nTableSize pair_table = 8"
    "ht_elems pair_table = [(Idx 0, IS_VALUE 7), (Idx 1, IS_VALUE 9)]"
    "nNextFreeElement pair_table = 2" "pDestructor pair_table" "dtor_calls pair_table = []"
  by (simp_all add: pair_table_def fresh_table_def zend_empty_array_def zend_hash_real_init_packed_ex_def
      hash_wf_def no_hash_def size_ok_8 ht_elems_def packed_elems_def)

section \<open>The hash of a string and the size of a table\<close>

definition djb_step :: "64 word \<Rightarrow> char \<Rightarrow> 64 word" where
  "djb_step h c = h * 33 + byte c"

lemma hash_loop_foldl:
  "hash_loop s h = (h', s') \<Longrightarrow> foldl djb_step h s = foldl djb_step h' s' \<and> length s' < 8"
  by (induction s h rule: hash_loop.induct) (auto simp: djb_step_def Let_def algebra_simps)

lemma hash_four_foldl:
  "hash_four s h = (h', s') \<Longrightarrow> length s < 8 \<Longrightarrow> foldl djb_step h s = foldl djb_step h' s' \<and> length s' < 4"
  by (cases "(s, h)" rule: hash_four.cases) (auto simp: djb_step_def algebra_simps)

lemma hash_rest_foldl: "length s < 4 \<Longrightarrow> hash_rest s h = foldl djb_step h s"
  by (cases "(s, h)" rule: hash_rest.cases) (auto simp: djb_step_def algebra_simps)

lemma hash_func_foldl: "zend_inline_hash_func str = foldl djb_step 5381 str OR 0x8000000000000000"
proof -
  obtain h1 s1 where 1: "hash_loop str 5381 = (h1, s1)" by (cases "hash_loop str 5381")
  obtain h2 s2 where 2: "hash_four s1 h1 = (h2, s2)" by (cases "hash_four s1 h1")
  note a = hash_loop_foldl [OF 1]
  note b = hash_four_foldl [OF 2]
  then show ?thesis using a hash_rest_foldl [of s2 h2] by (simp add: zend_inline_hash_func_def 1 2)
qed

text \<open>Spreading the highest bit of a word downwards fills it up.\<close>

definition smear :: "32 word \<Rightarrow> 32 word" where
  "smear x =
     (let x = x OR drop_bit 1 x; x = x OR drop_bit 2 x; x = x OR drop_bit 4 x; x = x OR drop_bit 8 x
      in x OR drop_bit 16 x)"

lemma ex_less_double: "(\<exists>d < n + n. P d) \<longleftrightarrow> (\<exists>d < n. P d) \<or> (\<exists>d < n. P (n + d))" for n :: nat
proof
  assume "\<exists>d < n + n. P d"
  then obtain d where d: "d < n + n" "P d" by blast
  show "(\<exists>d < n. P d) \<or> (\<exists>d < n. P (n + d))"
  proof (cases "d < n")
    case False
    then have "d - n < n" "P (n + (d - n))" using d by auto
    then show ?thesis by blast
  qed (use d in blast)
next
  assume "(\<exists>d < n. P d) \<or> (\<exists>d < n. P (n + d))"
  then show "\<exists>d < n + n. P d" by (meson add_less_cancel_left trans_less_add1)
qed

lemma bit_smear_step:
  fixes x :: "32 word"
  assumes "\<And>i. bit y i \<longleftrightarrow> (\<exists>d < n. bit x (i + d))"
  shows "bit (y OR drop_bit n y) i \<longleftrightarrow> (\<exists>d < n + n. bit x (i + d))"
proof -
  have "bit (y OR drop_bit n y) i \<longleftrightarrow> (\<exists>d < n. bit x (i + d)) \<or> (\<exists>d < n. bit x (i + (n + d)))"
    by (simp add: bit_or_iff bit_drop_bit_eq assms add.assoc add.left_commute)
  also have "\<dots> \<longleftrightarrow> (\<exists>d < n + n. bit x (i + d))"
    by (rule ex_less_double [symmetric])
  finally show ?thesis .
qed

lemma bit_smear: "bit (smear x) i \<longleftrightarrow> (\<exists>d < 32. bit x (i + d))"
proof -
  define a b c d where "a = x OR drop_bit 1 x" and "b = a OR drop_bit 2 a" and "c = b OR drop_bit 4 b"
    and "d = c OR drop_bit 8 c"
  have 1: "bit a i \<longleftrightarrow> (\<exists>d < 2. bit x (i + d))" for i
    using bit_smear_step [of x 1 x i] by (simp add: a_def numeral_2_eq_2)
  have 2: "bit b i \<longleftrightarrow> (\<exists>d < 4. bit x (i + d))" for i using bit_smear_step [OF 1, of i] by (simp add: b_def)
  have 3: "bit c i \<longleftrightarrow> (\<exists>d < 8. bit x (i + d))" for i using bit_smear_step [OF 2, of i] by (simp add: c_def)
  have 4: "bit d i \<longleftrightarrow> (\<exists>d < 16. bit x (i + d))" for i using bit_smear_step [OF 3, of i] by (simp add: d_def)
  show ?thesis
    using bit_smear_step [OF 4, of i] unfolding smear_def Let_def a_def [symmetric] b_def [symmetric]
      c_def [symmetric] d_def [symmetric] by simp
qed

lemma smear_mask:
  assumes "2 ^ k \<le> unat x" and "unat x < 2 ^ Suc k"
  shows "smear x = (mask (Suc k) :: 32 word)"
proof (rule bit_word_eqI)
  fix i assume i: "i < LENGTH(32)"
  have hi: "\<not> bit x j" if "k < j" for j
  proof -
    have "unat x < 2 ^ j" using assms(2) that power_increasing [of "Suc k" j "2::nat"] by (simp add: less_le_trans)
    then have "\<not> bit (unat x) j" by (simp add: bit_iff_odd)
    then show ?thesis by (simp add: bit_unsigned_iff)
  qed
  have "bit x k"
  proof -
    have "unat x div 2 ^ k = 1" using assms by (simp add: div_nat_eqI)
    then have "bit (unat x) k" by (simp add: bit_iff_odd)
    then show ?thesis by (simp add: bit_unsigned_iff)
  qed
  moreover have "k < 32" using bit_imp_le_length [OF \<open>bit x k\<close>] by simp
  ultimately have "(\<exists>d < 32. bit x (i + d)) \<longleftrightarrow> i \<le> k"
  proof (intro iffI)
    assume "\<exists>d < 32. bit x (i + d)"
    then show "i \<le> k" using hi by (meson le_add1 le_trans not_less)
  next
    assume "i \<le> k"
    then have "k - i < 32" "bit x (i + (k - i))" using \<open>bit x k\<close> \<open>k < 32\<close> by auto
    then show "\<exists>d < 32. bit x (i + d)" by blast
  qed
  then show "bit (smear x) i \<longleftrightarrow> bit (mask (Suc k) :: 32 word) i"
    using i by (simp add: bit_smear bit_mask_iff less_Suc_eq_le)
qed

lemma check_size_exp:
  assumes "HT_MIN_SIZE < unat n" and "unat n < HT_MAX_SIZE"
  obtains k where "zend_hash_check_size n = Ret (2 ^ Suc k)" "3 \<le> Suc k" "Suc k \<le> 30"
    "unat n \<le> 2 ^ Suc k" "2 ^ k < unat n"
proof -
  have "n \<noteq> 0" using assms(1) by auto
  then have u: "unat (n - 1) = unat n - 1" by (rule unat_minus_one)
  have "1 \<le> unat n - 1" using assms(1) by simp
  then obtain k where k: "2 ^ k \<le> unat n - 1" "unat n - 1 < 2 ^ (k + 1)" using ex_power_ivl1 [of 2] by auto
  have "k < 30"
  proof (rule ccontr)
    assume "\<not> k < 30"
    then have "(2::nat) ^ 30 \<le> 2 ^ k" by (intro power_increasing) auto
    then show False using k(1) assms(2) by simp
  qed
  have "2 \<le> k"
  proof (rule ccontr)
    assume "\<not> 2 \<le> k"
    then have "(2::nat) ^ (k + 1) \<le> 2 ^ 2" by (intro power_increasing) auto
    then show False using k(2) assms(1) by simp
  qed
  have "smear (n - 1) = mask (Suc k)" by (rule smear_mask) (use k u in simp_all)
  then have "smear (n - 1) + 1 = 2 ^ Suc k" by (simp add: mask_eq_exp_minus_1)
  moreover have "unat (2 ^ Suc k :: 32 word) = 2 ^ Suc k" by (rule unat_exp32) (use \<open>k < 30\<close> in simp)
  ultimately have "unat (smear (n - 1) + 1) = 2 ^ Suc k" by metis
  then have "zend_hash_check_size n = Ret (2 ^ Suc k)"
    using assms unfolding zend_hash_check_size_def smear_def Let_def by (simp del: power_Suc)
  then show thesis using that [of k] k \<open>k < 30\<close> \<open>2 \<le> k\<close> by simp
qed

section \<open>Properties\<close>

text \<open>C5. A lookup in a table that satisfies the invariant, packed, with collision chains or not yet
  allocated, ends and returns the value of the key in the table's list of elements, for integer and for
  string keys; it never leaves the arrays of the table.\<close>

theorem zend_hash_lookup_correct:
  assumes "hash_wf ht"
  shows "zend_hash_find ht key = Ret (map_of (ht_elems ht) (Str key)) \<and>
    zend_hash_str_find ht key = Ret (map_of (ht_elems ht) (Str key)) \<and>
    zend_hash_index_find ht h = Ret (map_of (ht_elems ht) (Idx h))"
  using zend_hash_find_map [OF assms] zend_hash_index_find_map [OF assms]
  by (simp add: zend_hash_str_find_def zend_hash_find_def zend_hash_find_bucket_def
      zend_hash_str_find_bucket_def Let_def)

theorem zend_hash_lookup_correct_witness:
  "hash_wf pair_table \<and> zend_hash_index_find pair_table 1 = Ret (Some (IS_VALUE 9)) \<and>
    zend_hash_find pair_table ''key'' = Ret None"
  using zend_hash_lookup_correct [of pair_table "''key''" 1] by (simp add: pair_table_wf)

text \<open>C1. \<open>zend_hash_update\<close> and \<open>zend_hash_index_update\<close> keep the invariant through every growth,
  compaction and conversion of the table: the value of a present key is replaced in place after the
  destructor has seen the old value, a new key goes to the end, and all other elements and their order
  stay; they fail only in a table of the maximal size.\<close>

theorem zend_hash_update_refines:
  assumes "hash_wf ht" and "nTableSize ht < HT_MAX_SIZE" and "v \<noteq> IS_UNDEF"
  shows "(\<exists>ht' i. zend_hash_update ht key v = Ret (ht', Some (Elem i)) \<and> hash_wf ht' \<and>
      ht_elems ht' = AList.update (Str key) v (ht_elems ht) \<and>
      dtor_calls ht' = dtor_calls ht @ old_calls ht (Str key)) \<and>
    (\<exists>ht' i. zend_hash_index_update ht h v = Ret (ht', Some (Elem i)) \<and> hash_wf ht' \<and>
      ht_elems ht' = AList.update (Idx h) v (ht_elems ht) \<and>
      dtor_calls ht' = dtor_calls ht @ old_calls ht (Idx h))"
  using zend_hash_update_updated [OF assms, of key] zend_hash_index_update_updated [OF assms, of h]
  unfolding updated_def by blast

theorem zend_hash_update_refines_witness:
  "hash_wf pair_table \<and> nTableSize pair_table < HT_MAX_SIZE \<and>
    (\<exists>ht' i. zend_hash_update pair_table ''k'' (IS_VALUE 5) = Ret (ht', Some (Elem i)) \<and> hash_wf ht' \<and>
      ht_elems ht' = [(Idx 0, IS_VALUE 7), (Idx 1, IS_VALUE 9), (Str ''k'', IS_VALUE 5)]) \<and>
    (\<exists>ht' i. zend_hash_index_update pair_table 0 (IS_VALUE 5) = Ret (ht', Some (Elem i)) \<and>
      ht_elems ht' = [(Idx 0, IS_VALUE 5), (Idx 1, IS_VALUE 9)] \<and> dtor_calls ht' = [IS_VALUE 7])"
  using zend_hash_update_refines [of pair_table "IS_VALUE 5" "''k''" 0]
  by (auto simp: pair_table_wf old_calls_def)

text \<open>C34. \<open>zend_hash_add\<close> and \<open>zend_hash_index_add\<close> refuse a key that is there and leave the table as it
  was; otherwise the element goes to the end.\<close>

theorem zend_hash_add_correct:
  assumes "hash_wf ht" and "nTableSize ht < HT_MAX_SIZE" and "v \<noteq> IS_UNDEF"
  shows "(if Str key \<in> fst ` set (ht_elems ht) then zend_hash_add ht key v = Ret (ht, None)
      else \<exists>ht' i. zend_hash_add ht key v = Ret (ht', Some (Elem i)) \<and> hash_wf ht' \<and>
        ht_elems ht' = ht_elems ht @ [(Str key, v)] \<and> dtor_calls ht' = dtor_calls ht) \<and>
    (if Idx h \<in> fst ` set (ht_elems ht) then zend_hash_index_add ht h v = Ret (ht, None)
      else \<exists>ht' i. zend_hash_index_add ht h v = Ret (ht', Some (Elem i)) \<and> hash_wf ht' \<and>
        ht_elems ht' = ht_elems ht @ [(Idx h, v)] \<and> dtor_calls ht' = dtor_calls ht)"
proof -
  have s: "Str key \<in> fst ` set (ht_elems ht) \<longleftrightarrow> map_of (ht_elems ht) (Str key) \<noteq> None"
    and i: "Idx h \<in> fst ` set (ht_elems ht) \<longleftrightarrow> map_of (ht_elems ht) (Idx h) \<noteq> None"
    by (simp_all only: map_of_eq_None_iff not_not)
  show ?thesis
    using zend_hash_add_cases [OF assms, of key] zend_hash_index_add_cases [OF assms, of h]
      update_new [of "Str key" "ht_elems ht" v] update_new [of "Idx h" "ht_elems ht" v]
    unfolding s i updated_def old_calls_def by (auto split: option.splits)
qed

theorem zend_hash_add_correct_witness:
  "hash_wf pair_table \<and> zend_hash_index_add pair_table 1 (IS_VALUE 5) = Ret (pair_table, None) \<and>
    (\<exists>ht' i. zend_hash_add pair_table ''k'' (IS_VALUE 5) = Ret (ht', Some (Elem i)) \<and>
      ht_elems ht' = [(Idx 0, IS_VALUE 7), (Idx 1, IS_VALUE 9), (Str ''k'', IS_VALUE 5)])"
  using zend_hash_add_correct [of pair_table "IS_VALUE 5" "''k''" 1] by (auto simp: pair_table_wf)

text \<open>C2. \<open>zend_hash_del\<close> and \<open>zend_hash_index_del\<close> remove exactly the element of the key, unlink it from
  its collision chain, hand its value to the destructor and keep the invariant and the order of the
  rest; for an absent key they report failure and change nothing.\<close>

theorem zend_hash_del_correct:
  assumes "hash_wf ht"
  shows "(case map_of (ht_elems ht) (Str key) of
        None \<Rightarrow> zend_hash_del ht key = Ret (ht, False)
      | Some old \<Rightarrow> \<exists>ht'. zend_hash_del ht key = Ret (ht', True) \<and> hash_wf ht' \<and>
          ht_elems ht' = AList.delete (Str key) (ht_elems ht) \<and>
          dtor_calls ht' = dtor_calls ht @ (if pDestructor ht then [old] else [])) \<and>
    (case map_of (ht_elems ht) (Idx h) of
        None \<Rightarrow> zend_hash_index_del ht h = Ret (ht, False)
      | Some old \<Rightarrow> \<exists>ht'. zend_hash_index_del ht h = Ret (ht', True) \<and> hash_wf ht' \<and>
          ht_elems ht' = AList.delete (Idx h) (ht_elems ht) \<and>
          dtor_calls ht' = dtor_calls ht @ (if pDestructor ht then [old] else []))"
  using zend_hash_del_deleted [OF assms, of key] zend_hash_index_del_deleted [OF assms, of h]
  unfolding del_spec_def deleted_def by (auto split: option.splits)

theorem zend_hash_del_correct_witness:
  "hash_wf pair_table \<and>
    (\<exists>ht'. zend_hash_index_del pair_table 0 = Ret (ht', True) \<and> hash_wf ht' \<and>
      ht_elems ht' = [(Idx 1, IS_VALUE 9)] \<and> dtor_calls ht' = [IS_VALUE 7]) \<and>
    zend_hash_del pair_table ''k'' = Ret (pair_table, False)"
  using zend_hash_del_correct [of pair_table "''k''" 0] by (auto simp: pair_table_wf)

text \<open>What one operation writes the lookups read: after \<open>zend_hash_update\<close> the key has the new value
  and every other string key and every integer key has the value it had; after \<open>zend_hash_index_del\<close>
  the integer key has none and every other key what it had.\<close>

theorem zend_hash_find_after:
  assumes "hash_wf ht" and "nTableSize ht < HT_MAX_SIZE" and "v \<noteq> IS_UNDEF"
  shows "run_bind (zend_hash_update ht key v) (\<lambda>(ht', p). zend_hash_find ht' key') =
      (if key' = key then Ret (Some v) else zend_hash_find ht key') \<and>
    run_bind (zend_hash_update ht key v) (\<lambda>(ht', p). zend_hash_index_find ht' h') = zend_hash_index_find ht h' \<and>
    run_bind (zend_hash_index_del ht h) (\<lambda>(ht', r). zend_hash_index_find ht' h') =
      (if h' = h then Ret None else zend_hash_index_find ht h') \<and>
    run_bind (zend_hash_index_del ht h) (\<lambda>(ht', r). zend_hash_find ht' key') = zend_hash_find ht key'"
proof -
  have put: "run_bind (zend_hash_update ht key v) (\<lambda>(ht', p). f ht') = run_bind (hash_put ht (Str key) v) f"
    for f :: "'a HashTable \<Rightarrow> 'a zval option run"
    by (simp add: hash_put_def run_bind_assoc split_def)
  have del: "run_bind (zend_hash_index_del ht h) (\<lambda>(ht', r). f ht') = run_bind (hash_del ht (Idx h)) f"
    for f :: "'a HashTable \<Rightarrow> 'a zval option run"
    by (simp add: hash_del_def run_bind_assoc split_def)
  show ?thesis
    using zh.find_after_put [OF assms, of "Str key" "Str key'"] zh.find_after_put [OF assms, of "Str key" "Idx h'"]
      zh.find_after_del [OF assms(1), of "Idx h" "Idx h'"] zh.find_after_del [OF assms(1), of "Idx h" "Str key'"]
    unfolding put del by (simp add: hash_find_def)
qed

theorem zend_hash_find_after_witness:
  "hash_wf pair_table \<and> run_bind (zend_hash_update pair_table ''k'' (IS_VALUE 5))
      (\<lambda>(ht', p). zend_hash_find ht' ''k'') = Ret (Some (IS_VALUE 5)) \<and>
    run_bind (zend_hash_index_del pair_table 1) (\<lambda>(ht', r). zend_hash_index_find ht' 1) = Ret None"
  using zend_hash_find_after [of pair_table "IS_VALUE 5" "''k''" "''k''" 0 1 ]
    zend_hash_find_after [of pair_table "IS_VALUE 5" "''k''" "''k''" 1 1]
  by (simp add: pair_table_wf)

text \<open>Appending with \<open>zend_hash_next_index_insert\<close> to a table whose integer keys are all below the next
  free one uses that number as key (0 in a table that never had one), which is not in the table, puts
  the element at the end and keeps the keys below the next free one.\<close>

theorem zend_hash_next_insert_correct:
  assumes "hash_wf ht" and "nTableSize ht < HT_MAX_SIZE" and "v \<noteq> IS_UNDEF" and "next_ok ht"
    and "nNextFreeElement ht < ZEND_LONG_MAX"
  shows "\<exists>ht' i. zend_hash_next_index_insert ht v = Ret (ht', Some (Elem i)) \<and> hash_wf ht' \<and> next_ok ht' \<and>
    ht_elems ht' = ht_elems ht @
      [(Idx (if nNextFreeElement ht = ZEND_LONG_MIN then 0 else word_of_int (nNextFreeElement ht)), v)]"
proof -
  define h :: "64 word" where
    "h = (if nNextFreeElement ht = ZEND_LONG_MIN then 0 else word_of_int (nNextFreeElement ht))"
  obtain ht' i where r: "zend_hash_next_index_insert ht v = Ret (ht', Some (Elem i))" "hash_wf ht'"
    "ht_elems ht' = ht_elems ht @ [(Idx h, v)]" "sint h < nNextFreeElement ht' + of_bool (sint h = ZEND_LONG_MAX)"
    using next_insert_added(1) [OF assms h_def] by (auto simp: index_added_def)
  have b: "ZEND_LONG_MIN \<le> nNextFreeElement ht" "nNextFreeElement ht \<le> ZEND_LONG_MAX"
    using assms(1) by (simp_all add: hash_wf_def)
  have h: "nNextFreeElement ht \<le> sint h" "sint h < ZEND_LONG_MAX"
    using sint_of_next [OF b] b assms(5) by (auto simp: h_def)
  then have lt: "sint h < nNextFreeElement ht'" using r(4) by simp
  have "sint k < nNextFreeElement ht'" if "Idx k \<in> fst ` set (ht_elems ht')" for k
  proof (cases "k = h")
    case False
    then have "Idx k \<in> fst ` set (ht_elems ht)" using that r(3) by auto
    then have "sint k < nNextFreeElement ht" using assms(4,5) by (auto simp: next_ok_def)
    then show ?thesis using h lt by linarith
  qed (use lt in simp)
  then show ?thesis using r(1-3) by (auto simp: next_ok_def h_def)
qed

theorem zend_hash_next_insert_correct_witness:
  "hash_wf pair_table \<and> next_ok pair_table \<and>
    (\<exists>ht' i. zend_hash_next_index_insert pair_table (IS_VALUE 4) = Ret (ht', Some (Elem i)) \<and>
      ht_elems ht' = [(Idx 0, IS_VALUE 7), (Idx 1, IS_VALUE 9), (Idx 2, IS_VALUE 4)])"
proof -
  have "next_ok pair_table" by (auto simp: next_ok_def pair_table_wf)
  then show ?thesis
    using zend_hash_next_insert_correct [of pair_table "IS_VALUE 4"] by (auto simp: pair_table_wf)
qed

text \<open>The operations on C strings do what those on string objects do, although they compare and hash
  the bytes themselves.\<close>

theorem zend_hash_str_equivalent:
  "zend_hash_str_find ht str = zend_hash_find ht str \<and>
    zend_hash_str_add_or_update_i ht str (zend_inline_hash_func str) pData flag =
      zend_hash_add_or_update_i ht str pData flag \<and>
    zend_hash_str_del ht str = zend_hash_del ht str"
  by (simp add: zend_hash_str_find_def zend_hash_find_def zend_hash_find_bucket_def zend_hash_str_find_bucket_def
      zend_hash_str_add_or_update_i_def zend_hash_add_or_update_i_def zend_hash_str_del_eq Let_def)

text \<open>The string hash, computed in blocks of eight, four and up to three bytes with multiplications by
  powers of 33, is Bernstein's \<open>h * 33 + c\<close> over the bytes from 5381 with the highest bit set, so it is
  never zero.\<close>

theorem zend_inline_hash_func_djb:
  "zend_inline_hash_func str = foldl (\<lambda>h c. h * 33 + byte c) 5381 str OR 0x8000000000000000 \<and>
    zend_inline_hash_func str \<noteq> 0"
proof -
  have "zend_inline_hash_func str = foldl (\<lambda>h c. h * 33 + byte c) 5381 str OR 0x8000000000000000"
    unfolding hash_func_foldl djb_step_def ..
  moreover have "bit (zend_inline_hash_func str) 63"
    unfolding hash_func_foldl by (simp add: bit_or_iff)
  then have "zend_inline_hash_func str \<noteq> 0" by auto
  ultimately show ?thesis by simp
qed

text \<open>The size of a table for a requested number of elements is the smallest power of two that is
  not smaller, at least 8; a request of \<open>HT_MAX_SIZE\<close> or more ends with a fatal error.\<close>

theorem zend_hash_check_size_correct:
  "case zend_hash_check_size n of
      Ret ts \<Rightarrow> size_ok ts \<and> unat n \<le> ts \<and> (ts = HT_MIN_SIZE \<or> ts < 2 * unat n) \<and> unat n < HT_MAX_SIZE
    | Fatal msg \<Rightarrow> HT_MAX_SIZE \<le> unat n
    | Undef \<Rightarrow> False"
proof (cases "HT_MIN_SIZE < unat n \<and> unat n < HT_MAX_SIZE")
  case True
  then obtain k where "zend_hash_check_size n = Ret (2 ^ Suc k)" "3 \<le> Suc k" "Suc k \<le> 30"
    "unat n \<le> 2 ^ Suc k" "2 ^ k < unat n" using check_size_exp by metis
  moreover from this have "size_ok (2 ^ Suc k)" unfolding size_ok_def by (intro exI [of _ "Suc k"]) simp
  ultimately show ?thesis using True by simp
next
  case False
  then show ?thesis by (auto simp: zend_hash_check_size_def size_ok_8)
qed

text \<open>C33. Rehashing keeps the elements, their keys and their order, leaves no holes in the array and
  rebuilds chains through which every key is found.\<close>

theorem zend_hash_rehash_correct:
  assumes "in_use ht"
  shows "\<exists>ht'. zend_hash_rehash ht = Ret ht' \<and> in_use ht' \<and> ht_elems ht' = ht_elems ht \<and>
    length (arData ht') = length (ht_elems ht) \<and> zend_hash_find ht' key = zend_hash_find ht key"
proof -
  obtain ht' where r: "zend_hash_rehash ht = Ret ht'" "in_use ht'" "ht_elems ht' = data_elems (arData ht)"
    "length (arData ht') = nNumOfElements ht"
    using rehash_in_use [OF in_use_body [OF assms]] by metis
  have w: "hash_wf ht" "hash_wf ht'" "ht_elems ht = data_elems (arData ht)" "nNumOfElements ht = length (ht_elems ht)"
    using assms r(2) by (auto simp: in_use_def hash_wf_def ht_elems_def)
  then show ?thesis using r zend_hash_find_map [OF w(1)] zend_hash_find_map [OF w(2)] by auto
qed

theorem zend_hash_rehash_correct_witness:
  "\<exists>ht. zend_hash_packed_to_hash pair_table = Ret ht \<and> in_use ht \<and>
    (\<exists>ht'. zend_hash_rehash ht = Ret ht' \<and> ht_elems ht' = [(Idx 0, IS_VALUE 7), (Idx 1, IS_VALUE 9)])"
proof -
  have "flag_packed pair_table" "pair_table\<lparr>nTableSize := 8\<rparr> = pair_table"
    by (simp_all add: pair_table_def fresh_table_def zend_empty_array_def zend_hash_real_init_packed_ex_def)
  with packed_to_hash_in_use [OF pair_table_wf(1), of 8] obtain ht where
    "zend_hash_packed_to_hash pair_table = Ret ht" "in_use ht" "ht_elems ht = ht_elems pair_table"
    by (auto simp: size_ok_8 pair_table_wf(2))
  then show ?thesis using zend_hash_rehash_correct [of ht] by (auto simp: pair_table_wf)
qed



text \<open>In a packed table from whose end elements were deleted, writing a key behind the last element
  sets the next free key to the one after it even when that lowers it; a table with chains never
  lowers the next free key.\<close>

theorem packed_next_free_lowered:
  assumes "hash_wf ht" and "flag_packed ht" and "length (arPacked ht) \<le> unat h" and "unat h < nTableSize ht"
    and "v \<noteq> IS_UNDEF"
  shows "\<exists>ht' p. zend_hash_index_update ht h v = Ret (ht', p) \<and> nNextFreeElement ht' = int (unat h) + 1"
proof -
  obtain ht' where "add_to_packed ht (unat h) v [HASH_UPDATE] = Ret (ht', Some (Elem (unat h)))"
    "nNextFreeElement ht' = int (unat h) + 1"
    using add_to_packed_wf [OF assms(1-4), of "[HASH_UPDATE]" v] assms(5) by (auto simp: new_val_def)
  then show ?thesis
    using assms(2-4) by (simp add: zend_hash_index_update_def zend_hash_index_add_or_update_i_def Let_def)
qed

theorem packed_next_free_lowered_witness:
  "\<exists>ht1 ht2 ht' p. zend_hash_index_del pair_table 1 = Ret (ht1, True) \<and> zend_hash_index_del ht1 0 = Ret (ht2, True) \<and>
    nNextFreeElement ht2 = 2 \<and> zend_hash_index_update ht2 0 (IS_VALUE 3) = Ret (ht', p) \<and> nNextFreeElement ht' = 1"
proof -
  let ?ht2 = "pair_table\<lparr>arPacked := [], nNumOfElements := 0, nInternalPointer := 0,
    dtor_calls := [IS_VALUE 9, IS_VALUE 7]\<rparr>"
  obtain ht1 where 1: "zend_hash_index_del pair_table 1 = Ret (ht1, True)" "zend_hash_index_del ht1 0 = Ret (?ht2, True)"
    by (auto simp: zend_hash_index_del_def zend_hash_packed_del_val_def pair_table_def fresh_table_def
        zend_empty_array_def zend_hash_real_init_packed_ex_def Let_def trim_used_def skip_deleted_def call_dtor_def
        ht_vals_def valid_pos.simps zend_hash_iterators_update_def)
  have "hash_wf ?ht2" "flag_packed ?ht2"
    by (simp_all add: pair_table_def fresh_table_def zend_empty_array_def zend_hash_real_init_packed_ex_def
        hash_wf_def no_hash_def size_ok_8 ht_elems_def packed_elems_def)
  then have "\<exists>ht' p. zend_hash_index_update ?ht2 0 (IS_VALUE 3) = Ret (ht', p) \<and> nNextFreeElement ht' = int (unat (0 :: 64 word)) + 1"
    by (rule packed_next_free_lowered) (simp_all add: pair_table_wf)
  then obtain ht' p where "zend_hash_index_update ?ht2 0 (IS_VALUE 3) = Ret (ht', p)" "nNextFreeElement ht' = 1"
    by auto
  then show ?thesis
    using 1 by (intro exI [of _ ht1] exI [of _ ?ht2] exI [of _ ht'] exI [of _ p]) (simp add: pair_table_wf)
qed

end
