(* ===== verification/Zend_Hash_Iter.thy ===== *)
theory Zend_Hash_Iter
  imports Zend_Hash_Map
begin

text \<open>
  Walking over a hash table: positions and the internal pointer, application of a callback that may
  change, remove or stop, emptying and destruction. The proofs see a table as the row of its cells,
  \<open>hcells\<close>, whose contents in order are the elements.
\<close>

unbundle bit_operations_syntax

section \<open>Positions\<close>

text \<open>The loop \<open>while (idx > 0) { idx--; if (Z_TYPE(...) != IS_UNDEF) ... }\<close>.\<close>

primrec prev_pos :: "'v zval list \<Rightarrow> nat \<Rightarrow> nat option" where
  "prev_pos vs 0 = None"
| "prev_pos vs (Suc idx) = (if vs ! idx \<noteq> IS_UNDEF then Some idx else prev_pos vs idx)"

text \<open>The loop \<open>while (1) { idx++; if (idx >= ht->nNumUsed) ...; if (Z_TYPE(...) != IS_UNDEF) ... }\<close>.\<close>

function next_pos :: "'v zval list \<Rightarrow> nat \<Rightarrow> nat" where
  "next_pos vs idx =
     (let idx = Suc idx in
      if idx \<ge> length vs then length vs
      else if vs ! idx \<noteq> IS_UNDEF then idx
      else next_pos vs idx)"
  by pat_completeness auto

termination
  by (relation "measure (\<lambda>(vs, idx). length vs - idx)") auto

text \<open>The functions below return the new value of \<open>*pos\<close>; \<open>True\<close> is \<open>SUCCESS\<close>.\<close>

definition zend_hash_internal_pointer_reset_ex :: "'v HashTable \<Rightarrow> nat" where
  "zend_hash_internal_pointer_reset_ex ht = zend_hash_get_valid_pos ht 0"

definition zend_hash_internal_pointer_end_ex :: "'v HashTable \<Rightarrow> nat" where
  "zend_hash_internal_pointer_end_ex ht =
     (case prev_pos (ht_vals ht) (nNumUsed ht) of Some idx \<Rightarrow> idx | None \<Rightarrow> nNumUsed ht)"

definition zend_hash_move_forward_ex :: "'v HashTable \<Rightarrow> nat \<Rightarrow> bool \<times> nat" where
  "zend_hash_move_forward_ex ht pos =
     (let idx = zend_hash_get_valid_pos ht pos
      in if idx < nNumUsed ht then (True, next_pos (ht_vals ht) idx) else (False, pos))"

definition zend_hash_move_backwards_ex :: "'v HashTable \<Rightarrow> nat \<Rightarrow> bool \<times> nat" where
  "zend_hash_move_backwards_ex ht pos =
     (if pos < nNumUsed ht
      then (True, case prev_pos (ht_vals ht) pos of Some idx \<Rightarrow> idx | None \<Rightarrow> nNumUsed ht)
      else (False, pos))"

datatype hash_key_type = HASH_KEY_IS_STRING | HASH_KEY_IS_LONG | HASH_KEY_NON_EXISTENT

text \<open>\<open>zend_hash_get_current_key_ex\<close>: the type and what is stored in \<open>*str_index\<close> and \<open>*num_index\<close>.\<close>

definition zend_hash_get_current_key_ex ::
  "'v HashTable \<Rightarrow> nat \<Rightarrow> hash_key_type \<times> string option \<times> 64 word option" where
  "zend_hash_get_current_key_ex ht pos =
     (let idx = zend_hash_get_valid_pos ht pos in
      if idx < nNumUsed ht then
        if flag_packed ht then (HASH_KEY_IS_LONG, None, Some (word_of_nat idx))
        else
          let p = arData ht ! idx
          in case b_key p of
               Some key \<Rightarrow> (HASH_KEY_IS_STRING, Some key, None)
             | None \<Rightarrow> (HASH_KEY_IS_LONG, None, Some (b_h p))
      else (HASH_KEY_NON_EXISTENT, None, None))"

datatype key_zval = Key_Null | Key_Long "64 word" | Key_Str string

definition zend_hash_get_current_key_zval_ex :: "'v HashTable \<Rightarrow> nat \<Rightarrow> key_zval" where
  "zend_hash_get_current_key_zval_ex ht pos =
     (let idx = zend_hash_get_valid_pos ht pos in
      if idx \<ge> nNumUsed ht then Key_Null
      else if flag_packed ht then Key_Long (word_of_nat idx)
      else
        let p = arData ht ! idx
        in case b_key p of Some key \<Rightarrow> Key_Str key | None \<Rightarrow> Key_Long (b_h p))"

definition zend_hash_get_current_key_type_ex :: "'v HashTable \<Rightarrow> nat \<Rightarrow> hash_key_type" where
  "zend_hash_get_current_key_type_ex ht pos =
     (let idx = zend_hash_get_valid_pos ht pos in
      if idx < nNumUsed ht then
        if flag_packed ht then HASH_KEY_IS_LONG
        else if b_key (arData ht ! idx) \<noteq> None then HASH_KEY_IS_STRING else HASH_KEY_IS_LONG
      else HASH_KEY_NON_EXISTENT)"

definition zend_hash_get_current_data_ex :: "'v HashTable \<Rightarrow> nat \<Rightarrow> zptr option" where
  "zend_hash_get_current_data_ex ht pos =
     (let idx = zend_hash_get_valid_pos ht pos in if idx < nNumUsed ht then Some (Elem idx) else None)"

section \<open>Deleting the element at a position\<close>

text \<open>The walk of \<open>_zend_hash_del_el\<close> along the chain to the bucket in front of \<open>idx\<close>.\<close>

partial_function (option) chain_prev :: "'v bucket list \<Rightarrow> nat \<Rightarrow> nat \<Rightarrow> nat option" where
  "chain_prev ds idx i =
     (if i < length ds then
        if b_next (ds ! i) = idx then Some i else chain_prev ds idx (b_next (ds ! i))
      else None)"

definition zend_hash_del_el :: "'v HashTable \<Rightarrow> nat \<Rightarrow> 'v HashTable run" where
  "zend_hash_del_el ht idx =
     (if idx \<ge> length (arData ht) then Undef
      else
        run_bind (HT_HASH ht (b_h (arData ht ! idx))) (\<lambda>i.
        run_bind (if i \<noteq> idx then run_of (map_option Some (chain_prev (arData ht) idx i)) else Ret None) (\<lambda>prev.
          zend_hash_del_el_ex (clear_key ht idx) idx prev)))"

definition zend_hash_del_bucket :: "'v HashTable \<Rightarrow> nat \<Rightarrow> 'v HashTable run" where
  "zend_hash_del_bucket ht p = zend_hash_del_el ht p"

text \<open>What the loops below do with an element they remove.\<close>

definition del_at :: "'v HashTable \<Rightarrow> nat \<Rightarrow> 'v HashTable run" where
  "del_at ht idx = (if flag_packed ht then zend_hash_packed_del_val ht idx else zend_hash_del_el ht idx)"

section \<open>Application of a callback\<close>

text \<open>
  A callback works on a state of its own, may write to the value it is given and returns an int, of which
  two bits count. The code has each loop twice, for packed tables and for tables with chains.
\<close>

abbreviation (input) ZEND_HASH_APPLY_KEEP :: int where "ZEND_HASH_APPLY_KEEP \<equiv> 0"
abbreviation (input) ZEND_HASH_APPLY_REMOVE :: int where "ZEND_HASH_APPLY_REMOVE \<equiv> 1"
abbreviation (input) ZEND_HASH_APPLY_STOP :: int where "ZEND_HASH_APPLY_STOP \<equiv> 2"

type_synonym ('s, 'v) apply_func = "'s \<Rightarrow> hkey \<Rightarrow> 'v zval \<Rightarrow> 's \<times> 'v zval \<times> int"

definition key_at :: "'v HashTable \<Rightarrow> nat \<Rightarrow> hkey" where
  "key_at ht idx = (if flag_packed ht then Idx (word_of_nat idx) else bkey (arData ht ! idx))"

lemma run_bind_cong [fundef_cong]:
  "r = r' \<Longrightarrow> (\<And>x. r' = Ret x \<Longrightarrow> f x = g x) \<Longrightarrow> run_bind r f = run_bind r' g"
  by (cases r') simp_all

lemma trim_used_length: "length (trim_used f bs) \<le> length bs"
proof -
  have "length (trim_used f bs) \<le> length (rev (butlast bs))"
    unfolding trim_used_def by (metis length_rev length_dropWhile_le)
  then show ?thesis by simp
qed

lemma skip_deleted_fields [simp]:
  "flag_packed (skip_deleted ht i) = flag_packed ht" "arPacked (skip_deleted ht i) = arPacked ht"
  "arData (skip_deleted ht i) = arData ht"
  by (simp_all add: skip_deleted_def Let_def)

lemma packed_del_val_used:
  "zend_hash_packed_del_val ht idx = Ret ht' \<Longrightarrow>
     flag_packed ht' = flag_packed ht \<and> length (arPacked ht') \<le> length (arPacked ht) \<and> arData ht' = arData ht"
  using trim_used_length [of id "arPacked ht"]
  by (auto simp: zend_hash_packed_del_val_def Let_def call_dtor_simps split: if_splits)

lemma del_el_ex_used:
  "zend_hash_del_el_ex ht idx prev = Ret ht' \<Longrightarrow>
     flag_packed ht' = flag_packed ht \<and> length (arData ht') \<le> length (arData ht) \<and> arPacked ht' = arPacked ht"
  using trim_used_length [of b_val "arData ht"]
    trim_used_length [of b_val "(arData ht)[the prev := (arData ht ! the prev)\<lparr>b_next := b_next (arData ht ! idx)\<rparr>]"]
  by (auto simp: zend_hash_del_el_ex_def Let_def call_dtor_simps split: if_splits option.splits)

lemma del_at_used: "del_at ht idx = Ret ht' \<Longrightarrow> nNumUsed ht' \<le> nNumUsed ht"
proof (cases "flag_packed ht")
  case False
  assume "del_at ht idx = Ret ht'"
  then obtain prev where "zend_hash_del_el_ex (clear_key ht idx) idx prev = Ret ht'"
    using False by (auto simp: del_at_def zend_hash_del_el_def run_of_def HT_HASH_def Let_def
        split: if_splits option.splits)
  then show ?thesis using del_el_ex_used False by (fastforce simp: nNumUsed_def clear_key_def)
qed (auto simp: del_at_def nNumUsed_def dest!: packed_del_val_used)

lemma set_elem_used [simp]: "nNumUsed (set_elem ht i v) = nNumUsed ht"
  by (simp add: nNumUsed_def set_elem_def)

function hash_apply_loop :: "('s, 'v) apply_func \<Rightarrow> 's \<Rightarrow> 'v HashTable \<Rightarrow> nat \<Rightarrow> ('v HashTable \<times> 's) run" where
  "hash_apply_loop apply_func s ht idx =
     (if idx < nNumUsed ht then
        if ht_vals ht ! idx = IS_UNDEF then hash_apply_loop apply_func s ht (Suc idx)
        else
          let (s, v, result) = apply_func s (key_at ht idx) (ht_vals ht ! idx);
              ht = set_elem ht idx v
          in run_bind (if result AND ZEND_HASH_APPLY_REMOVE \<noteq> 0 then del_at ht idx else Ret ht) (\<lambda>ht.
               if result AND ZEND_HASH_APPLY_STOP \<noteq> 0 then Ret (ht, s)
               else hash_apply_loop apply_func s ht (Suc idx))
      else Ret (ht, s))"
  by pat_completeness auto

termination
proof (relation "measure (\<lambda>(f, s, ht, idx). nNumUsed ht - idx)")
  fix f :: "('s, 'v) apply_func" and s ht idx x xa y xb ya htx x1
  assume "idx < nNumUsed ht" "htx = set_elem ht idx xb"
    "(if ya AND ZEND_HASH_APPLY_REMOVE \<noteq> 0 then del_at htx idx else Ret htx) = Ret x1"
  then have "nNumUsed x1 \<le> nNumUsed ht" by (auto split: if_splits dest!: del_at_used)
  then show "((f, xa, x1, Suc idx), f, s, ht, idx) \<in> measure (\<lambda>(f, s, ht, idx). nNumUsed ht - idx)"
    using \<open>idx < nNumUsed ht\<close> by simp
qed auto

text \<open>The loop from the end. It counts its position down on its own: the cells it passes that are no longer
  below \<open>nNumUsed\<close> have just been emptied by deletions.\<close>

primrec reverse_apply_loop :: "('s, 'v) apply_func \<Rightarrow> 's \<Rightarrow> 'v HashTable \<Rightarrow> nat \<Rightarrow> ('v HashTable \<times> 's) run" where
  "reverse_apply_loop apply_func s ht 0 = Ret (ht, s)"
| "reverse_apply_loop apply_func s ht (Suc idx) =
     (if idx \<ge> nNumUsed ht \<or> ht_vals ht ! idx = IS_UNDEF then reverse_apply_loop apply_func s ht idx
      else
        let (s, v, result) = apply_func s (key_at ht idx) (ht_vals ht ! idx);
            ht = set_elem ht idx v
        in run_bind (if result AND ZEND_HASH_APPLY_REMOVE \<noteq> 0 then del_at ht idx else Ret ht) (\<lambda>ht.
             if result AND ZEND_HASH_APPLY_STOP \<noteq> 0 then Ret (ht, s)
             else reverse_apply_loop apply_func s ht idx))"

definition zend_hash_apply ::
  "'v HashTable \<Rightarrow> ('s \<Rightarrow> 'v zval \<Rightarrow> 's \<times> 'v zval \<times> int) \<Rightarrow> 's \<Rightarrow> ('v HashTable \<times> 's) run" where
  "zend_hash_apply ht apply_func s = hash_apply_loop (\<lambda>s key zv. apply_func s zv) s ht 0"

definition zend_hash_apply_with_argument ::
  "'v HashTable \<Rightarrow> ('s \<Rightarrow> 'v zval \<Rightarrow> 'a \<Rightarrow> 's \<times> 'v zval \<times> int) \<Rightarrow> 'a \<Rightarrow> 's \<Rightarrow> ('v HashTable \<times> 's) run" where
  "zend_hash_apply_with_argument ht apply_func argument s =
     hash_apply_loop (\<lambda>s key zv. apply_func s zv argument) s ht 0"

definition zend_hash_apply_with_arguments ::
  "'v HashTable \<Rightarrow> ('s \<Rightarrow> 'v zval \<Rightarrow> 'a list \<Rightarrow> hkey \<Rightarrow> 's \<times> 'v zval \<times> int) \<Rightarrow> 'a list \<Rightarrow> 's \<Rightarrow>
    ('v HashTable \<times> 's) run" where
  "zend_hash_apply_with_arguments ht apply_func args s =
     hash_apply_loop (\<lambda>s key zv. apply_func s zv args key) s ht 0"

definition zend_hash_reverse_apply ::
  "'v HashTable \<Rightarrow> ('s \<Rightarrow> 'v zval \<Rightarrow> 's \<times> 'v zval \<times> int) \<Rightarrow> 's \<Rightarrow> ('v HashTable \<times> 's) run" where
  "zend_hash_reverse_apply ht apply_func s = reverse_apply_loop (\<lambda>s key zv. apply_func s zv) s ht (nNumUsed ht)"

section \<open>Emptying and destruction\<close>

text \<open>The values a destructor is called for: without holes every cell, otherwise those that are not
  \<open>IS_UNDEF\<close>.\<close>

definition dtor_vals :: "'v HashTable \<Rightarrow> 'v zval list" where
  "dtor_vals ht =
     (if nNumUsed ht = nNumOfElements ht then ht_vals ht else filter (\<lambda>v. v \<noteq> IS_UNDEF) (ht_vals ht))"

definition call_dtors :: "'v HashTable \<Rightarrow> 'v HashTable" where
  "call_dtors ht = (if pDestructor ht then ht\<lparr>dtor_calls := dtor_calls ht @ dtor_vals ht\<rparr> else ht)"

text \<open>Of a destroyed table only the calls of the destructor remain to be seen.\<close>

definition zend_hash_destroy :: "'v HashTable \<Rightarrow> 'v zval list" where
  "zend_hash_destroy ht = dtor_calls (if nNumUsed ht \<noteq> 0 then call_dtors ht else ht)"

definition zend_hash_clean :: "'v HashTable \<Rightarrow> 'v HashTable" where
  "zend_hash_clean ht =
     (let ht = (if nNumUsed ht \<noteq> 0 then
                  if flag_packed ht then call_dtors ht
                  else (call_dtors ht)\<lparr>arHash := HT_HASH_RESET (nTableMask ht)\<rparr>
                else ht)
      in ht\<lparr>arData := [], arPacked := [], nNumOfElements := 0, nNextFreeElement := ZEND_LONG_MIN,
            nInternalPointer := 0\<rparr>)"

function hash_destroy_loop :: "'v HashTable \<Rightarrow> nat \<Rightarrow> 'v HashTable run" where
  "hash_destroy_loop ht idx =
     (if idx < nNumUsed ht then
        if ht_vals ht ! idx = IS_UNDEF then hash_destroy_loop ht (Suc idx)
        else run_bind (del_at ht idx) (\<lambda>ht. hash_destroy_loop ht (Suc idx))
      else Ret ht)"
  by pat_completeness auto

termination
  by (relation "measure (\<lambda>(ht, idx). nNumUsed ht - idx)") (auto dest!: del_at_used)

primrec reverse_destroy_loop :: "'v HashTable \<Rightarrow> nat \<Rightarrow> 'v HashTable run" where
  "reverse_destroy_loop ht 0 = Ret ht"
| "reverse_destroy_loop ht (Suc idx) =
     (if idx \<ge> nNumUsed ht \<or> ht_vals ht ! idx = IS_UNDEF then reverse_destroy_loop ht idx
      else run_bind (del_at ht idx) (\<lambda>ht. reverse_destroy_loop ht idx))"

definition zend_hash_graceful_destroy :: "'v HashTable \<Rightarrow> 'v zval list run" where
  "zend_hash_graceful_destroy ht = run_bind (hash_destroy_loop ht 0) (\<lambda>ht. Ret (dtor_calls ht))"

definition zend_hash_graceful_reverse_destroy :: "'v HashTable \<Rightarrow> 'v zval list run" where
  "zend_hash_graceful_reverse_destroy ht =
     run_bind (reverse_destroy_loop ht (nNumUsed ht)) (\<lambda>ht. Ret (dtor_calls ht))"

declare hash_apply_loop.simps [simp del] hash_destroy_loop.simps [simp del] next_pos.simps [simp del]

section \<open>Cells\<close>

definition somes :: "'a option list \<Rightarrow> 'a list" where
  "somes cs = map the (filter (\<lambda>c. c \<noteq> None) cs)"

lemma somes_simps [simp]:
  "somes [] = []" "somes (None # cs) = somes cs" "somes (Some x # cs) = x # somes cs"
  "somes (cs @ cs') = somes cs @ somes cs'" "somes (replicate n None) = []"
  by (simp_all add: somes_def)

lemma hcells_length [simp]: "length (hcells ht) = nNumUsed ht"
  by (simp add: hcells_def nNumUsed_def)

lemma ht_vals_length [simp]: "length (ht_vals ht) = nNumUsed ht"
  by (simp add: ht_vals_def nNumUsed_def)

lemma hcells_nth:
  "i < nNumUsed ht \<Longrightarrow> hcells ht ! i = (if ht_vals ht ! i = IS_UNDEF then None else Some (key_at ht i, ht_vals ht ! i))"
  by (auto simp: hcells_def nNumUsed_def ht_vals_def key_at_def cell_def live_def packed_buckets_nth bkey_def)

lemma somes_cells: "somes (map cell ds) = data_elems ds"
  by (induction ds) (simp_all add: cell_def data_elems_def)

lemma ht_elems_cells: "ht_elems ht = somes (hcells ht)"
  by (simp add: ht_elems_def hcells_def somes_cells packed_elems_data)

section \<open>Deletion at a position\<close>

lemma chain_prev_eq:
  assumes "chains m hs ds" and "length ds < HT_INVALID_IDX" and "in_chain m c (ds ! j)"
    and "j < n" and "n \<le> length ds" and "last_idx (in_chain m c) (take n ds) \<noteq> j"
  obtains q where "chain_prev ds j (last_idx (in_chain m c) (take n ds)) = Some q"
    "pred_ok (in_chain m c) ds j (Some q)"
  using assms(4-)
proof (induction n arbitrary: thesis)
  case (Suc n)
  then have n: "n < length ds" by simp
  show ?case
  proof (cases "in_chain m c (ds ! n)")
    case False
    then have l: "last_idx (in_chain m c) (take (Suc n) ds) = last_idx (in_chain m c) (take n ds)"
      using n by (simp add: last_idx_take_Suc)
    have "j < n" using False assms(3) Suc.prems(2) less_SucE by blast
    then show ?thesis using Suc.IH [of thesis] Suc.prems n l by simp
  next
    case True
    then have l: "last_idx (in_chain m c) (take (Suc n) ds) = n" using n by (simp add: last_idx_take_Suc)
    then have j: "j < n" using Suc.prems(2,4) by simp
    have nx: "b_next (ds ! n) = last_idx (in_chain m c) (take n ds)" using chainsD(2) [OF assms(1) n True] .
    show ?thesis
    proof (cases "last_idx (in_chain m c) (take n ds) = j")
      case eq: True
      then have "chain_prev ds j n = Some n" using n nx by (subst chain_prev.simps) simp
      then show ?thesis using Suc.prems(1) [of n] l n True eq by (simp add: pred_ok_def)
    next
      case False
      obtain q where "chain_prev ds j (last_idx (in_chain m c) (take n ds)) = Some q" "pred_ok (in_chain m c) ds j (Some q)"
        using Suc.IH [OF _ j _ False] n by auto
      moreover have "chain_prev ds j n = chain_prev ds j (last_idx (in_chain m c) (take n ds))"
        using n nx False by (subst chain_prev.simps) simp
      ultimately show ?thesis using Suc.prems(1) l by simp
    qed
  qed
qed simp

lemma zend_hash_del_el_deleted:
  assumes "in_use ht" and "j < length (arData ht)" and "live (arData ht ! j)"
  obtains ht' where "zend_hash_del_el ht j = Ret ht'" "deleted ht (bkey (arData ht ! j)) (b_val (arData ht ! j)) ht'"
    "cell_dropped ht j ht'"
proof -
  let ?m = "nTableMask ht" and ?ds = "arData ht"
  let ?c = "ht_slot ?m (b_h (?ds ! j))"
  have m: "mixed_wf ht" and s: "size_ok (nTableSize ht)" using assms(1) by (auto simp: in_use_def hash_wf_def)
  note ch = mixed_chains [OF m] and len = mixed_length [OF m s]
  have hd: "HT_HASH ht (b_h (?ds ! j)) = Ret (last_idx (in_chain ?m ?c) ?ds)"
    using mixed_slot [OF m s] chainsD(1) [OF ch] by (simp add: HT_HASH_def Let_def)
  have C: "in_chain ?m ?c (?ds ! j)" using assms(3) by (simp add: in_chain_def)
  obtain pr where pr: "(if last_idx (in_chain ?m ?c) ?ds \<noteq> j
      then run_of (map_option Some (chain_prev ?ds j (last_idx (in_chain ?m ?c) ?ds))) else Ret None) = Ret pr"
    "pred_ok (in_chain ?m ?c) ?ds j pr"
  proof (cases "last_idx (in_chain ?m ?c) ?ds = j")
    case True
    then show ?thesis by (intro that [of None]) (simp_all add: pred_ok_def)
  next
    case False
    then obtain q where "chain_prev ?ds j (last_idx (in_chain ?m ?c) ?ds) = Some q" "pred_ok (in_chain ?m ?c) ?ds j (Some q)"
      using chain_prev_eq [OF ch len C assms(2) order_refl] by auto
    then show ?thesis using False by (intro that [of "Some q"]) simp_all
  qed
  obtain ht' where "zend_hash_del_el_ex (clear_key ht j) j pr = Ret ht'"
    "deleted ht (bkey (?ds ! j)) (b_val (?ds ! j)) ht'" "cell_dropped ht j ht'"
    using del_el_deleted [OF assms pr(2), of "clear_key ht j" None] by (auto simp: clear_key_def)
  then show thesis using that [of ht'] assms(2) hd pr(1) by (simp add: zend_hash_del_el_def)
qed

lemma hash_wf_live_in_use:
  "hash_wf ht \<Longrightarrow> \<not> flag_packed ht \<Longrightarrow> j < length (arData ht) \<Longrightarrow> in_use ht"
  by (auto simp: in_use_def hash_wf_def no_hash_def split: if_splits)

lemma del_at_deleted:
  assumes "hash_wf ht" and "j < nNumUsed ht" and "ht_vals ht ! j \<noteq> IS_UNDEF"
  obtains ht' where "del_at ht j = Ret ht'" "deleted ht (key_at ht j) (ht_vals ht ! j) ht'" "cell_dropped ht j ht'"
proof (cases "flag_packed ht")
  case True
  then show ?thesis
    using zend_hash_packed_del_val_deleted [OF assms(1) True, of j] assms(2,3) that
    by (auto simp: del_at_def key_at_def nNumUsed_def ht_vals_def)
next
  case False
  then have j: "j < length (arData ht)" using assms(2) by (simp add: nNumUsed_def)
  then have "live (arData ht ! j)" using assms(3) False by (simp add: live_def ht_vals_def)
  then show ?thesis
    using zend_hash_del_el_deleted [OF hash_wf_live_in_use [OF assms(1) False j] j] that False j
    by (auto simp: del_at_def key_at_def ht_vals_def)
qed

section \<open>Traversal\<close>

lemma somes_nth: "somes cs = map (\<lambda>i. the (cs ! i)) (filter (\<lambda>i. cs ! i \<noteq> None) [0..<length cs])"
proof -
  have "somes (map (\<lambda>i. cs ! i) [0..<length cs]) = map (\<lambda>i. the (cs ! i)) (filter (\<lambda>i. cs ! i \<noteq> None) [0..<length cs])"
    by (simp add: somes_def filter_map o_def)
  then show ?thesis by (simp add: map_nth)
qed

definition lives :: "'v HashTable \<Rightarrow> nat list" where
  "lives ht = filter (\<lambda>i. ht_vals ht ! i \<noteq> IS_UNDEF) [0..<nNumUsed ht]"

lemma lives_elems: "ht_elems ht = map (\<lambda>i. (key_at ht i, ht_vals ht ! i)) (lives ht)"
proof -
  have "filter (\<lambda>i. hcells ht ! i \<noteq> None) [0..<nNumUsed ht] = lives ht"
    unfolding lives_def by (rule filter_cong) (simp_all add: hcells_nth)
  then show ?thesis unfolding ht_elems_cells somes_nth by (auto simp: hcells_nth lives_def)
qed

lemma lives_split:
  assumes "i < length (lives ht)"
  shows "lives ht ! i < nNumUsed ht" and "ht_vals ht ! (lives ht ! i) \<noteq> IS_UNDEF"
    and "take i (lives ht) = filter (\<lambda>i. ht_vals ht ! i \<noteq> IS_UNDEF) [0..<lives ht ! i]"
    and "drop (Suc i) (lives ht) = filter (\<lambda>i. ht_vals ht ! i \<noteq> IS_UNDEF) [Suc (lives ht ! i)..<nNumUsed ht]"
proof -
  let ?P = "\<lambda>i. ht_vals ht ! i \<noteq> IS_UNDEF"
  define j where "j = lives ht ! i"
  have "j \<in> set (lives ht)" using assms by (simp add: j_def)
  then have j: "j < nNumUsed ht" "?P j" by (auto simp: lives_def)
  then show "lives ht ! i < nNumUsed ht" "?P (lives ht ! i)" by (simp_all add: j_def)
  have "[0..<nNumUsed ht] = [0..<j] @ j # [Suc j..<nNumUsed ht]"
    using j(1) upt_add_eq_append [of 0 j "nNumUsed ht - j"] by (simp add: upt_conv_Cons)
  then have l: "lives ht = filter ?P [0..<j] @ j # filter ?P [Suc j..<nNumUsed ht]" using j(2) by (simp add: lives_def)
  then have "lives ht ! length (filter ?P [0..<j]) = j" "length (filter ?P [0..<j]) < length (lives ht)"
    by simp_all
  then have "lives ht ! length (filter ?P [0..<j]) = lives ht ! i" "length (filter ?P [0..<j]) < length (lives ht)"
    unfolding j_def .
  moreover have "distinct (lives ht)" by (simp add: lives_def)
  ultimately have i: "length (filter ?P [0..<j]) = i" using assms nth_eq_iff_index_eq by blast
  show "take i (lives ht) = filter ?P [0..<lives ht ! i]" unfolding j_def [symmetric] using l i by simp
  show "drop (Suc i) (lives ht) = filter ?P [Suc (lives ht ! i)..<nNumUsed ht]" unfolding j_def [symmetric] using l i by simp
qed

lemma valid_pos_hd: "p \<le> length vs \<Longrightarrow> valid_pos vs p = hd (filter (\<lambda>i. vs ! i \<noteq> IS_UNDEF) [p..<length vs] @ [length vs])"
proof (induction vs p rule: valid_pos.induct)
  case (1 vs p)
  show ?case
  proof (cases "p < length vs \<and> vs ! p = IS_UNDEF")
    case True
    then show ?thesis using 1 by (subst valid_pos.simps) (simp add: upt_conv_Cons)
  next
    case False
    then consider "p = length vs" | "p < length vs" "vs ! p \<noteq> IS_UNDEF" using 1(2) by linarith
    then show ?thesis by cases (subst valid_pos.simps, simp add: upt_conv_Cons)+
  qed
qed

lemma next_pos_valid: "idx < length vs \<Longrightarrow> next_pos vs idx = valid_pos vs (Suc idx)"
proof (induction vs idx rule: next_pos.induct)
  case (1 vs idx)
  show ?case
  proof (cases "Suc idx < length vs \<and> vs ! Suc idx = IS_UNDEF")
    case True
    then show ?thesis using 1(1) [OF refl] by (subst next_pos.simps, subst valid_pos.simps) simp
  next
    case False
    then show ?thesis using 1(2) by (subst next_pos.simps, subst valid_pos.simps) (auto simp: Let_def)
  qed
qed

lemma prev_pos_last: "prev_pos vs p = (let l = filter (\<lambda>i. vs ! i \<noteq> IS_UNDEF) [0..<p] in if l = [] then None else Some (last l))"
  by (induction p) (simp_all add: Let_def)

lemma valid_pos_lives:
  assumes "i \<le> length (lives ht)"
  shows "zend_hash_get_valid_pos ht ((lives ht @ [nNumUsed ht]) ! i) = (lives ht @ [nNumUsed ht]) ! i"
proof (cases "i < length (lives ht)")
  case True
  then show ?thesis using lives_split(1,2) [OF True]
    by (simp add: zend_hash_get_valid_pos_def nth_append valid_pos.simps)
next
  case False
  then show ?thesis using assms by (simp add: zend_hash_get_valid_pos_def nth_append valid_pos.simps)
qed

lemma forward_lives:
  "i < length (lives ht) \<Longrightarrow>
     zend_hash_move_forward_ex ht ((lives ht @ [nNumUsed ht]) ! i) = (True, (lives ht @ [nNumUsed ht]) ! Suc i)"
proof -
  assume i: "i < length (lives ht)"
  note l = lives_split [OF i]
  have "valid_pos (ht_vals ht) (Suc (lives ht ! i)) = hd (drop (Suc i) (lives ht) @ [nNumUsed ht])"
    using valid_pos_hd [of "Suc (lives ht ! i)" "ht_vals ht"] l(1,4) by simp
  also have "\<dots> = hd (drop (Suc i) (lives ht @ [nNumUsed ht]))" using i by simp
  also have "\<dots> = (lives ht @ [nNumUsed ht]) ! Suc i" using i by (intro hd_drop_conv_nth) simp
  finally show ?thesis
    using valid_pos_lives [of i ht] i l(1) by (simp add: zend_hash_move_forward_ex_def nth_append next_pos_valid)
qed

lemma backwards_lives:
  assumes "i < length (lives ht)"
  shows "zend_hash_move_backwards_ex ht (lives ht ! i) = (True, if i = 0 then nNumUsed ht else lives ht ! (i - 1))"
proof -
  note l = lives_split [OF assms]
  have "prev_pos (ht_vals ht) (lives ht ! i) = (if i = 0 then None else Some (last (take i (lives ht))))"
    using assms l(3) [symmetric] by (auto simp: prev_pos_last)
  moreover have "last (take i (lives ht)) = lives ht ! (i - 1)" if "i \<noteq> 0"
    using that assms by (subst last_conv_nth) auto
  ultimately show ?thesis using l(1) by (simp add: zend_hash_move_backwards_ex_def)
qed

lemma end_lives:
  "zend_hash_internal_pointer_end_ex ht = (if lives ht = [] then nNumUsed ht else last (lives ht))"
  by (simp add: zend_hash_internal_pointer_end_ex_def prev_pos_last lives_def Let_def)

lemma reset_lives: "zend_hash_internal_pointer_reset_ex ht = (lives ht @ [nNumUsed ht]) ! 0"
  using valid_pos_hd [of 0 "ht_vals ht"]
  by (simp add: zend_hash_internal_pointer_reset_ex_def zend_hash_get_valid_pos_def lives_def hd_conv_nth)

text \<open>The positions after some steps from either end, and the element the functions on a position show.\<close>

definition fwd_pos :: "'v HashTable \<Rightarrow> nat \<Rightarrow> nat" where
  "fwd_pos ht n = ((\<lambda>pos. snd (zend_hash_move_forward_ex ht pos)) ^^ n) (zend_hash_internal_pointer_reset_ex ht)"

definition bwd_pos :: "'v HashTable \<Rightarrow> nat \<Rightarrow> nat" where
  "bwd_pos ht n = ((\<lambda>pos. snd (zend_hash_move_backwards_ex ht pos)) ^^ n) (zend_hash_internal_pointer_end_ex ht)"

definition current_elem :: "'v HashTable \<Rightarrow> nat \<Rightarrow> (hkey \<times> 'v zval) option" where
  "current_elem ht pos =
     (case (zend_hash_get_current_key_ex ht pos, zend_hash_get_current_data_ex ht pos) of
        ((HASH_KEY_IS_STRING, Some key, _), Some (Elem j)) \<Rightarrow> Some (Str key, ht_vals ht ! j)
      | ((HASH_KEY_IS_LONG, _, Some h), Some (Elem j)) \<Rightarrow> Some (Idx h, ht_vals ht ! j)
      | _ \<Rightarrow> None)"

lemma fwd_pos_lives: "i \<le> length (lives ht) \<Longrightarrow> fwd_pos ht i = (lives ht @ [nNumUsed ht]) ! i"
  by (induction i) (simp_all add: fwd_pos_def reset_lives forward_lives)

lemma bwd_pos_lives:
  "i \<le> length (lives ht) \<Longrightarrow> bwd_pos ht i = (rev (lives ht) @ [nNumUsed ht]) ! i"
proof (induction i)
  case 0
  then show ?case by (simp add: bwd_pos_def end_lives nth_append rev_nth last_conv_nth)
next
  case (Suc i)
  then have "bwd_pos ht i = lives ht ! (length (lives ht) - Suc i)" by (simp add: nth_append rev_nth)
  moreover have "bwd_pos ht (Suc i) = snd (zend_hash_move_backwards_ex ht (bwd_pos ht i))" by (simp add: bwd_pos_def)
  ultimately show ?case
    using Suc.prems backwards_lives [of "length (lives ht) - Suc i" ht] by (auto simp: nth_append rev_nth)
qed

lemma current_lives:
  "i < length (lives ht) \<Longrightarrow> current_elem ht (lives ht ! i) = Some (ht_elems ht ! i)"
  using valid_pos_lives [of i ht] lives_split(1) [of i ht]
  by (auto simp: current_elem_def zend_hash_get_current_key_ex_def zend_hash_get_current_data_ex_def lives_elems
      key_at_def bkey_def nth_append Let_def split: option.splits)

lemma current_end: "current_elem ht (nNumUsed ht) = None"
  using valid_pos_lives [of "length (lives ht)" ht]
  by (simp add: current_elem_def zend_hash_get_current_key_ex_def zend_hash_get_current_data_ex_def)

section \<open>Application\<close>

text \<open>What a callback does to a list of elements: the elements that are left, the values of those it removed,
  and its state.\<close>

fun apply_elems :: "('s, 'v) apply_func \<Rightarrow> 's \<Rightarrow> (hkey \<times> 'v zval) list \<Rightarrow> (hkey \<times> 'v zval) list \<times> 'v zval list \<times> 's" where
  "apply_elems f s [] = ([], [], s)"
| "apply_elems f s ((k, v) # es) =
     (let (s, v, result) = f s k v;
          (kept, gone) = (if result AND ZEND_HASH_APPLY_REMOVE \<noteq> 0 then ([], [v]) else ([(k, v)], []))
      in if result AND ZEND_HASH_APPLY_STOP \<noteq> 0 then (kept @ es, gone, s)
         else let (es, gone', s) = apply_elems f s es in (kept @ es, gone @ gone', s))"

lemma somes_pad:
  assumes "xs @ replicate n None = ys"
  shows "somes (take m xs) = somes (take m ys)" and "somes (drop m xs) = somes (drop m ys)"
  unfolding assms [symmetric] by (simp_all add: take_replicate drop_replicate)

lemma bkey_val [simp]: "bkey (b\<lparr>b_val := v\<rparr>) = bkey b"
  by (simp add: bkey_def split: option.split)

lemma set_elem_cells:
  assumes "hash_wf ht" and "j < nNumUsed ht" and "ht_vals ht ! j \<noteq> IS_UNDEF" and "v \<noteq> IS_UNDEF"
  shows "hash_wf (set_elem ht j v)" and "hcells (set_elem ht j v) = (hcells ht)[j := Some (key_at ht j, v)]"
    and "key_at (set_elem ht j v) j = key_at ht j" and "ht_vals (set_elem ht j v) ! j = v"
    and "pDestructor (set_elem ht j v) = pDestructor ht" and "dtor_calls (set_elem ht j v) = dtor_calls ht"
proof -
  show "hash_wf (set_elem ht j v)"
  proof (cases "flag_packed ht")
    case True
    then show ?thesis using set_elem_packed(1) [OF assms(1) True _ _ assms(4)] assms(2,3)
      by (simp add: nNumUsed_def ht_vals_def)
  next
    case False
    then have j: "j < length (arData ht)" using assms(2) by (simp add: nNumUsed_def)
    have "live (arData ht ! j)" using assms(3) False j by (simp add: ht_vals_def live_def)
    then show ?thesis
      using set_elem_in_use(1) [OF hash_wf_live_in_use [OF assms(1) False j] j _ assms(4)] by (simp add: in_use_def)
  qed
  show k: "key_at (set_elem ht j v) j = key_at ht j"
    using assms(2) by (auto simp: key_at_def set_elem_def nNumUsed_def)
  show v: "ht_vals (set_elem ht j v) ! j = v"
    using assms(2) by (auto simp: ht_vals_def set_elem_def nNumUsed_def)
  have "hcells (set_elem ht j v) ! i = hcells ht ! i" if "i < nNumUsed ht" "i \<noteq> j" for i
    using that by (auto simp: hcells_def set_elem_def nNumUsed_def packed_buckets_nth cell_def live_def bkey_def)
  moreover have "hcells (set_elem ht j v) ! j = Some (key_at ht j, v)"
    using assms(2,4) hcells_nth [of j "set_elem ht j v"] k v by simp
  ultimately show "hcells (set_elem ht j v) = (hcells ht)[j := Some (key_at ht j, v)]"
    using assms(2) by (intro nth_equalityI) (auto simp: nth_list_update)
qed (simp_all add: set_elem_def)

text \<open>One round at a live element: the callback writes the value, and the element goes or stays.\<close>

lemma apply_step:
  assumes "hash_wf ht" and "j < nNumUsed ht" and "ht_vals ht ! j \<noteq> IS_UNDEF" and "v \<noteq> IS_UNDEF"
  obtains ht' n where "(if rm then del_at (set_elem ht j v) j else Ret (set_elem ht j v)) = Ret ht'" "hash_wf ht'"
    "hcells ht' @ replicate n None = (hcells ht)[j := if rm then None else Some (key_at ht j, v)]"
    "dtor_calls ht' = dtor_calls ht @ (if pDestructor ht \<and> rm then [v] else [])" "pDestructor ht' = pDestructor ht"
    "nNumUsed ht' \<le> nNumUsed ht"
proof (cases rm)
  case False
  then show ?thesis using set_elem_cells [OF assms] by (intro that [of "set_elem ht j v" 0]) auto
next
  case True
  note w = set_elem_cells [OF assms]
  obtain ht' where d: "del_at (set_elem ht j v) j = Ret ht'"
    "deleted (set_elem ht j v) (key_at (set_elem ht j v) j) (ht_vals (set_elem ht j v) ! j) ht'"
    "cell_dropped (set_elem ht j v) j ht'"
    by (rule del_at_deleted [OF w(1), of j]) (use assms(2,4) w(4) in simp_all)
  obtain n where "hcells ht' @ replicate n None = (hcells (set_elem ht j v))[j := None]"
    using d(3) by (auto simp: cell_dropped_def)
  then show ?thesis
    using d True w del_at_used [OF d(1)] by (intro that [of ht' n]) (auto simp: deleted_def)
qed

lemma cells_at:
  assumes "j < nNumUsed ht"
  shows "somes (take j ((hcells ht)[j := c])) = somes (take j (hcells ht))"
    and "somes (drop (Suc j) ((hcells ht)[j := c])) = somes (drop (Suc j) (hcells ht))"
    and "somes (take (Suc j) ((hcells ht)[j := c])) = somes (take j (hcells ht)) @ somes [c]"
    and "somes (drop j ((hcells ht)[j := c])) = somes [c] @ somes (drop (Suc j) (hcells ht))"
    and "somes (take (Suc j) (hcells ht)) =
      somes (take j (hcells ht)) @ (if ht_vals ht ! j = IS_UNDEF then [] else [(key_at ht j, ht_vals ht ! j)])"
    and "somes (drop j (hcells ht)) = (if ht_vals ht ! j = IS_UNDEF then [] else [(key_at ht j, ht_vals ht ! j)]) @
      somes (drop (Suc j) (hcells ht))"
  using assms
  by (cases c; simp add: take_Suc_conv_app_nth Cons_nth_drop_Suc [symmetric] hcells_nth)+

lemma apply_loop_spec:
  fixes f :: "('s, 'v) apply_func"
  assumes f: "\<And>s k v. v \<noteq> IS_UNDEF \<Longrightarrow> fst (snd (f s k v)) \<noteq> IS_UNDEF"
    and "hash_wf ht" and "apply_elems f s (somes (drop idx (hcells ht))) = (es, gone, s')"
  shows "\<exists>ht'. hash_apply_loop f s ht idx = Ret (ht', s') \<and> hash_wf ht' \<and>
    ht_elems ht' = somes (take idx (hcells ht)) @ es \<and> dtor_calls ht' = dtor_calls ht @ (if pDestructor ht then gone else [])"
  using assms(2,3)
proof (induction "nNumUsed ht - idx" arbitrary: ht idx s es gone rule: less_induct)
  case less
  show ?case
  proof (cases "idx < nNumUsed ht")
    case False
    then have "hash_apply_loop f s ht idx = Ret (ht, s)" by (simp add: hash_apply_loop.simps [of f s ht])
    then show ?thesis using less.prems False by (simp add: ht_elems_cells)
  next
    case i: True
    show ?thesis
    proof (cases "ht_vals ht ! idx = IS_UNDEF")
      case True
      have "\<exists>ht'. hash_apply_loop f s ht (Suc idx) = Ret (ht', s') \<and> hash_wf ht' \<and>
          ht_elems ht' = somes (take (Suc idx) (hcells ht)) @ es \<and>
          dtor_calls ht' = dtor_calls ht @ (if pDestructor ht then gone else [])"
        by (rule less.hyps) (use i less.prems True cells_at(6) [OF i] in simp_all)
      then show ?thesis using i True by (simp add: hash_apply_loop.simps [of f s ht] take_Suc_conv_app_nth hcells_nth)
    next
      case False
      obtain s1 v r where fr: "f s (key_at ht idx) (ht_vals ht ! idx) = (s1, v, r)" by (metis prod_cases3)
      define rm st where "rm \<longleftrightarrow> r AND ZEND_HASH_APPLY_REMOVE \<noteq> 0" and "st \<longleftrightarrow> r AND ZEND_HASH_APPLY_STOP \<noteq> 0"
      have "v \<noteq> IS_UNDEF" using f [OF False, of s "key_at ht idx"] fr by simp
      then obtain h n where h: "(if rm then del_at (set_elem ht idx v) idx else Ret (set_elem ht idx v)) = Ret h" "hash_wf h"
        "hcells h @ replicate n None = (hcells ht)[idx := if rm then None else Some (key_at ht idx, v)]"
        "dtor_calls h = dtor_calls ht @ (if pDestructor ht \<and> rm then [v] else [])" "pDestructor h = pDestructor ht"
        "nNumUsed h \<le> nNumUsed ht"
        using apply_step [OF less.prems(1) i False] by metis
      have a: "hash_apply_loop f s ht idx = (if st then Ret (h, s1) else hash_apply_loop f s1 h (Suc idx))"
        using i False fr h(1) by (simp add: hash_apply_loop.simps [of f s ht] rm_def [symmetric] st_def [symmetric])
      have dr: "somes (drop (Suc idx) (hcells h)) = somes (drop (Suc idx) (hcells ht))"
        unfolding somes_pad(2) [OF h(3)] by (rule cells_at(2) [OF i])
      have tk: "somes (take (Suc idx) (hcells h)) =
          somes (take idx (hcells ht)) @ (if rm then [] else [(key_at ht idx, v)])"
        unfolding somes_pad(1) [OF h(3)] using cells_at(3) [OF i] by simp
      have p: "apply_elems f s ((key_at ht idx, ht_vals ht ! idx) # somes (drop (Suc idx) (hcells ht))) = (es, gone, s')"
        using less.prems(2) cells_at(6) [OF i] False by simp
      show ?thesis
      proof (cases st)
        case True
        have "ht_elems h = somes (take (Suc idx) (hcells h)) @ somes (drop (Suc idx) (hcells h))"
          unfolding ht_elems_cells somes_simps(4) [symmetric] by simp
        then show ?thesis using a True p fr h tk dr
          by (auto simp: rm_def [symmetric] st_def [symmetric] split: if_splits)
      next
        case st: False
        obtain es1 g1 where e: "apply_elems f s1 (somes (drop (Suc idx) (hcells h))) = (es1, g1, s')"
          "es = (if rm then [] else [(key_at ht idx, v)]) @ es1" "gone = (if rm then [v] else []) @ g1"
          using p fr st dr by (auto simp: rm_def [symmetric] st_def [symmetric] split: if_splits prod.splits)
        have "\<exists>ht'. hash_apply_loop f s1 h (Suc idx) = Ret (ht', s') \<and> hash_wf ht' \<and>
            ht_elems ht' = somes (take (Suc idx) (hcells h)) @ es1 \<and>
            dtor_calls ht' = dtor_calls h @ (if pDestructor h then g1 else [])"
          by (rule less.hyps [OF _ h(2) e(1)]) (use i h(6) in simp)
        then show ?thesis using a st tk e h by auto
      qed
    qed
  qed
qed

lemma reverse_apply_loop_spec:
  fixes f :: "('s, 'v) apply_func"
  assumes f: "\<And>s k v. v \<noteq> IS_UNDEF \<Longrightarrow> fst (snd (f s k v)) \<noteq> IS_UNDEF"
    and "hash_wf ht" and "apply_elems f s (rev (somes (take idx (hcells ht)))) = (es, gone, s')"
  shows "\<exists>ht'. reverse_apply_loop f s ht idx = Ret (ht', s') \<and> hash_wf ht' \<and>
    ht_elems ht' = rev es @ somes (drop idx (hcells ht)) \<and> dtor_calls ht' = dtor_calls ht @ (if pDestructor ht then gone else [])"
  using assms(2,3)
proof (induction idx arbitrary: ht s es gone)
  case 0
  then show ?case by (simp add: ht_elems_cells)
next
  case (Suc idx)
  show ?case
  proof (cases "idx \<ge> nNumUsed ht")
    case True
    then show ?thesis using Suc.IH [OF Suc.prems(1)] Suc.prems(2) by simp
  next
    case False
    then have i: "idx < nNumUsed ht" by simp
    show ?thesis
    proof (cases "ht_vals ht ! idx = IS_UNDEF")
      case True
      then show ?thesis
        using Suc.IH [OF Suc.prems(1), of s es gone] Suc.prems(2) cells_at(5,6) [OF i] by simp
    next
      case live: False
      obtain s1 v r where fr: "f s (key_at ht idx) (ht_vals ht ! idx) = (s1, v, r)" by (metis prod_cases3)
      define rm st where "rm \<longleftrightarrow> r AND ZEND_HASH_APPLY_REMOVE \<noteq> 0" and "st \<longleftrightarrow> r AND ZEND_HASH_APPLY_STOP \<noteq> 0"
      have "v \<noteq> IS_UNDEF" using f [OF live, of s "key_at ht idx"] fr by simp
      then obtain h n where h: "(if rm then del_at (set_elem ht idx v) idx else Ret (set_elem ht idx v)) = Ret h" "hash_wf h"
        "hcells h @ replicate n None = (hcells ht)[idx := if rm then None else Some (key_at ht idx, v)]"
        "dtor_calls h = dtor_calls ht @ (if pDestructor ht \<and> rm then [v] else [])" "pDestructor h = pDestructor ht"
        using apply_step [OF Suc.prems(1) i live] by metis
      have a: "reverse_apply_loop f s ht (Suc idx) = (if st then Ret (h, s1) else reverse_apply_loop f s1 h idx)"
        using i live fr h(1) by (simp add: rm_def [symmetric] st_def [symmetric])
      have tk: "somes (take idx (hcells h)) = somes (take idx (hcells ht))"
        unfolding somes_pad(1) [OF h(3)] by (rule cells_at(1) [OF i])
      have dr: "somes (drop idx (hcells h)) =
          (if rm then [] else [(key_at ht idx, v)]) @ somes (drop (Suc idx) (hcells ht))"
        unfolding somes_pad(2) [OF h(3)] using cells_at(4) [OF i] by simp
      have p: "apply_elems f s ((key_at ht idx, ht_vals ht ! idx) # rev (somes (take idx (hcells ht)))) = (es, gone, s')"
        using Suc.prems(2) cells_at(5) [OF i] live by simp
      show ?thesis
      proof (cases st)
        case True
        have "ht_elems h = somes (take idx (hcells h)) @ somes (drop idx (hcells h))"
          unfolding ht_elems_cells somes_simps(4) [symmetric] by simp
        then show ?thesis using a True p fr h tk dr
          by (auto simp: rm_def [symmetric] st_def [symmetric] split: if_splits)
      next
        case st: False
        obtain es1 g1 where e: "apply_elems f s1 (rev (somes (take idx (hcells h)))) = (es1, g1, s')"
          "es = (if rm then [] else [(key_at ht idx, v)]) @ es1" "gone = (if rm then [v] else []) @ g1"
          using p fr st tk by (auto simp: rm_def [symmetric] st_def [symmetric] split: if_splits prod.splits)
        show ?thesis using Suc.IH [OF h(2) e(1)] a st dr e h by auto
      qed
    qed
  qed
qed

text \<open>Graceful destruction is the application of a callback that removes everything.\<close>

abbreviation remove_all :: "(unit, 'v) apply_func" where
  "remove_all \<equiv> \<lambda>s k v. ((), v, ZEND_HASH_APPLY_REMOVE)"

lemma set_elem_same: "ht_vals ht ! j = v \<Longrightarrow> set_elem ht j v = ht"
  by (cases "j < nNumUsed ht")
    (auto simp: set_elem_def ht_vals_def nNumUsed_def list_update_beyond intro!: HashTable.equality list_update_same_conv [THEN iffD2])

lemma destroy_loop_apply: "run_bind (hash_apply_loop remove_all s ht idx) (\<lambda>(ht, s). Ret ht) = hash_destroy_loop ht idx"
proof (induction "nNumUsed ht - idx" arbitrary: ht idx s rule: less_induct)
  case less
  show ?case
  proof (cases "idx < nNumUsed ht")
    case True
    show ?thesis
    proof (cases "del_at ht idx")
      case (Ret h)
      then show ?thesis
        using True less.hyps [of ht "Suc idx"] less.hyps [of h "Suc idx"] del_at_used [OF Ret]
        by (auto simp: hash_apply_loop.simps [of _ _ ht] hash_destroy_loop.simps [of ht] set_elem_same)
    qed (use True less.hyps [of ht "Suc idx"] in
        \<open>auto simp: hash_apply_loop.simps [of _ _ ht] hash_destroy_loop.simps [of ht] set_elem_same\<close>)
  qed (simp add: hash_apply_loop.simps [of _ _ ht] hash_destroy_loop.simps [of ht])
qed

lemma reverse_destroy_loop_apply:
  "run_bind (reverse_apply_loop remove_all s ht idx) (\<lambda>(ht, s). Ret ht) = reverse_destroy_loop ht idx"
proof (induction idx arbitrary: ht s)
  case (Suc idx)
  show ?case by (cases "del_at ht idx") (auto simp: Suc set_elem_same)
qed simp

lemma apply_remove_all: "apply_elems remove_all s es = ([], map snd es, ())"
  by (induction es arbitrary: s) auto

section \<open>Emptying\<close>

lemma vals_elems: "map snd (ht_elems ht) = filter (\<lambda>v. v \<noteq> IS_UNDEF) (ht_vals ht)"
proof -
  have "map snd (ht_elems ht) = map (\<lambda>i. ht_vals ht ! i) (filter (\<lambda>i. ht_vals ht ! i \<noteq> IS_UNDEF) [0..<nNumUsed ht])"
    by (simp add: lives_elems lives_def o_def)
  also have "\<dots> = filter (\<lambda>v. v \<noteq> IS_UNDEF) (map (\<lambda>i. ht_vals ht ! i) [0..<length (ht_vals ht)])"
    by (simp add: filter_map o_def)
  finally show ?thesis unfolding map_nth .
qed

lemma full_live: "hash_wf ht \<Longrightarrow> nNumUsed ht = nNumOfElements ht \<Longrightarrow> filter (\<lambda>v. v \<noteq> IS_UNDEF) (ht_vals ht) = ht_vals ht"
proof -
  assume "hash_wf ht" "nNumUsed ht = nNumOfElements ht"
  then have "length (filter (\<lambda>v. v \<noteq> IS_UNDEF) (ht_vals ht)) = length (ht_vals ht)"
    using vals_elems [THEN arg_cong [of _ _ length], of ht] by (simp add: hash_wf_def)
  then show ?thesis by (metis filter_id_conv length_filter_less less_irrefl)
qed

lemma dtor_vals_elems: "hash_wf ht \<Longrightarrow> dtor_vals ht = map snd (ht_elems ht)"
  using vals_elems [of ht] full_live [of ht] by (auto simp: dtor_vals_def)

lemma call_dtors_eq:
  "hash_wf ht \<Longrightarrow> call_dtors ht = ht\<lparr>dtor_calls := dtor_calls ht @ (if pDestructor ht then map snd (ht_elems ht) else [])\<rparr>"
  by (simp add: call_dtors_def dtor_vals_elems)

lemma no_elems: "nNumUsed ht = 0 \<Longrightarrow> ht_elems ht = []"
  by (simp add: lives_elems lives_def)

lemma zend_hash_clean_wf:
  assumes "hash_wf ht"
  shows "hash_wf (zend_hash_clean ht)" and "ht_elems (zend_hash_clean ht) = []"
    and "dtor_calls (zend_hash_clean ht) = dtor_calls ht @ (if pDestructor ht then map snd (ht_elems ht) else [])"
proof -
  show d: "dtor_calls (zend_hash_clean ht) = dtor_calls ht @ (if pDestructor ht then map snd (ht_elems ht) else [])"
    using no_elems [of ht] by (auto simp: zend_hash_clean_def call_dtors_eq [OF assms] Let_def)
  show e: "ht_elems (zend_hash_clean ht) = []"
    by (simp add: zend_hash_clean_def ht_elems_def packed_elems_def Let_def)
  have f: "flag_packed (zend_hash_clean ht) = flag_packed ht" "flag_uninit (zend_hash_clean ht) = flag_uninit ht"
    "nTableMask (zend_hash_clean ht) = nTableMask ht" "nTableSize (zend_hash_clean ht) = nTableSize ht"
    "arData (zend_hash_clean ht) = []" "arPacked (zend_hash_clean ht) = []"
    by (simp_all add: zend_hash_clean_def call_dtors_def Let_def)
  have h: "arHash (zend_hash_clean ht) = (if nNumUsed ht \<noteq> 0 \<and> \<not> flag_packed ht then HT_HASH_RESET (nTableMask ht) else arHash ht)"
    by (simp add: zend_hash_clean_def call_dtors_def Let_def)
  show "hash_wf (zend_hash_clean ht)"
  proof (cases "flag_packed ht \<or> flag_uninit ht")
    case True
    then have "no_hash ht" using assms by (auto simp: hash_wf_def split: if_splits)
    moreover have "nNumUsed ht = 0" if "\<not> flag_packed ht" using that calculation by (simp add: nNumUsed_def no_hash_def)
    ultimately have "no_hash (zend_hash_clean ht)" using f h by (auto simp: no_hash_def)
    then show ?thesis using assms True e f by (auto simp: hash_wf_def) (simp_all add: zend_hash_clean_def Let_def)
  next
    case False
    then have m: "mixed_wf ht" and s: "size_ok (nTableSize ht)" using assms by (auto simp: hash_wf_def)
    have "chains (nTableMask ht) (arHash (zend_hash_clean ht)) (arData (zend_hash_clean ht))"
    proof (cases "nNumUsed ht = 0")
      case True
      then have "arData ht = []" using False by (simp add: nNumUsed_def)
      then show ?thesis using mixed_chains [OF m] h f(5) True by simp
    next
      case n: False
      then show ?thesis using h f(5) False chains_empty by simp
    qed
    moreover have "length (arHash (zend_hash_clean ht)) = 2 * nTableSize ht"
      using h m hash_reset_length [OF s] by (simp add: mixed_wf_def)
    ultimately have "mixed_wf (zend_hash_clean ht)" using m f by (simp add: mixed_wf_def)
    then show ?thesis using assms False e f by (simp add: hash_wf_def) (simp add: zend_hash_clean_def Let_def)
  qed
qed

section \<open>Properties of traversal\<close>

text \<open>C10. Walking a table from either end with the position functions shows every element once, forwards in
  insertion order and backwards in the opposite order, skips the holes, and then stands at the end, where
  there is no element and a further step fails.\<close>

theorem zend_hash_traversal:
  "map (\<lambda>i. current_elem ht (fwd_pos ht i)) [0..<Suc (length (ht_elems ht))] = map Some (ht_elems ht) @ [None] \<and>
   map (\<lambda>i. current_elem ht (bwd_pos ht i)) [0..<Suc (length (ht_elems ht))] = map Some (rev (ht_elems ht)) @ [None] \<and>
   map (\<lambda>i. fst (zend_hash_move_forward_ex ht (fwd_pos ht i))) [0..<Suc (length (ht_elems ht))] =
     replicate (length (ht_elems ht)) True @ [False] \<and>
   map (\<lambda>i. fst (zend_hash_move_backwards_ex ht (bwd_pos ht i))) [0..<Suc (length (ht_elems ht))] =
     replicate (length (ht_elems ht)) True @ [False]"
proof -
  have n: "length (ht_elems ht) = length (lives ht)" by (simp add: lives_elems)
  have f: "fwd_pos ht i = lives ht ! i" "bwd_pos ht i = lives ht ! (length (lives ht) - Suc i)" if "i < length (lives ht)" for i
    using that fwd_pos_lives [of i ht] bwd_pos_lives [of i ht] by (simp_all add: nth_append rev_nth)
  have e: "fwd_pos ht (length (lives ht)) = nNumUsed ht" "bwd_pos ht (length (lives ht)) = nNumUsed ht"
    using fwd_pos_lives [of "length (lives ht)" ht] bwd_pos_lives [of "length (lives ht)" ht] by (simp_all add: nth_append)
  have last: "fst (zend_hash_move_forward_ex ht (nNumUsed ht)) = False" "fst (zend_hash_move_backwards_ex ht (nNumUsed ht)) = False"
    using valid_pos_lives [of "length (lives ht)" ht]
    by (simp_all add: zend_hash_move_forward_ex_def zend_hash_move_backwards_ex_def)
  have step: "fst (zend_hash_move_forward_ex ht (lives ht ! i))" "fst (zend_hash_move_backwards_ex ht (lives ht ! i))"
    if "i < length (lives ht)" for i
    using that forward_lives [of i ht] backwards_lives [of i ht] by (simp_all add: nth_append)
  show ?thesis
    unfolding upt_Suc_append [OF zero_le] map_append n
    by (intro conjI arg_cong2 [of _ _ _ _ append] nth_equalityI)
      (simp_all add: n f e last step current_lives current_end rev_nth)
qed

text \<open>C11. \<open>zend_hash_apply\<close> runs its callback on the elements in order, until it asks to stop: values it writes
  are kept, elements it asks to remove are gone and exactly these are handed to the destructor, in that
  order; the other elements, their order and the invariant stay. \<open>zend_hash_reverse_apply\<close> does the same
  from the last element to the first.\<close>

theorem zend_hash_apply_correct:
  fixes f :: "'s \<Rightarrow> 'v zval \<Rightarrow> 's \<times> 'v zval \<times> int"
  assumes "hash_wf ht" and "\<And>s v. v \<noteq> IS_UNDEF \<Longrightarrow> fst (snd (f s v)) \<noteq> IS_UNDEF"
    and "apply_elems (\<lambda>s k. f s) s (ht_elems ht) = (es, gone, s')"
    and "apply_elems (\<lambda>s k. f s) s (rev (ht_elems ht)) = (es_r, gone_r, s_r)"
  shows "(\<exists>ht'. zend_hash_apply ht f s = Ret (ht', s') \<and> hash_wf ht' \<and> ht_elems ht' = es \<and>
      dtor_calls ht' = dtor_calls ht @ (if pDestructor ht then gone else [])) \<and>
    (\<exists>ht'. zend_hash_reverse_apply ht f s = Ret (ht', s_r) \<and> hash_wf ht' \<and> ht_elems ht' = rev es_r \<and>
      dtor_calls ht' = dtor_calls ht @ (if pDestructor ht then gone_r else []))"
  using apply_loop_spec [of "\<lambda>s k. f s" ht s 0 es gone s'] assms
    reverse_apply_loop_spec [of "\<lambda>s k. f s" ht s "nNumUsed ht" es_r gone_r s_r]
  by (simp add: zend_hash_apply_def zend_hash_reverse_apply_def ht_elems_cells)

theorem zend_hash_apply_correct_witness:
  "hash_wf pair_table \<and>
    (\<exists>ht'. zend_hash_apply pair_table (\<lambda>n v. (Suc n, v, if n = 0 then ZEND_HASH_APPLY_REMOVE else ZEND_HASH_APPLY_KEEP)) 0 =
        Ret (ht', 2 :: nat) \<and> ht_elems ht' = [(Idx 1, IS_VALUE 9)] \<and> dtor_calls ht' = [IS_VALUE 7])"
  using zend_hash_apply_correct [of pair_table
      "\<lambda>n v. (Suc n, v, if n = 0 then ZEND_HASH_APPLY_REMOVE else ZEND_HASH_APPLY_KEEP)" 0
      "[(Idx 1, IS_VALUE 9)]" "[IS_VALUE 7]" 2 "[(Idx 0, IS_VALUE 7)]" "[IS_VALUE 9]" 2]
  by (auto simp: pair_table_wf numeral_2_eq_2)

text \<open>However a table is emptied or destroyed, the destructor sees the value of every element exactly once:
  in order, or in the opposite order for \<open>zend_hash_graceful_reverse_destroy\<close>; a cleaned table is empty and
  well formed.\<close>

theorem zend_hash_destruction:
  assumes "hash_wf ht" and "pDestructor ht"
  shows "hash_wf (zend_hash_clean ht) \<and> ht_elems (zend_hash_clean ht) = [] \<and>
    dtor_calls (zend_hash_clean ht) = dtor_calls ht @ map snd (ht_elems ht) \<and>
    zend_hash_destroy ht = dtor_calls ht @ map snd (ht_elems ht) \<and>
    zend_hash_graceful_destroy ht = Ret (dtor_calls ht @ map snd (ht_elems ht)) \<and>
    zend_hash_graceful_reverse_destroy ht = Ret (dtor_calls ht @ rev (map snd (ht_elems ht)))"
proof -
  obtain h1 where h1: "hash_apply_loop remove_all () ht 0 = Ret (h1, ())" "dtor_calls h1 = dtor_calls ht @ map snd (ht_elems ht)"
    using apply_loop_spec [of remove_all ht "()" 0, OF _ assms(1) apply_remove_all] assms(2) by (auto simp: ht_elems_cells)
  obtain h2 where h2: "reverse_apply_loop remove_all () ht (nNumUsed ht) = Ret (h2, ())"
    "dtor_calls h2 = dtor_calls ht @ rev (map snd (ht_elems ht))"
    using reverse_apply_loop_spec [of remove_all ht "()" "nNumUsed ht", OF _ assms(1) apply_remove_all] assms(2)
    by (auto simp: ht_elems_cells rev_map)
  have "zend_hash_destroy ht = dtor_calls ht @ map snd (ht_elems ht)"
    using assms no_elems [of ht] by (simp add: zend_hash_destroy_def call_dtors_eq)
  then show ?thesis
    using zend_hash_clean_wf [OF assms(1)] assms(2) h1 h2
      destroy_loop_apply [of "()" ht 0, symmetric] reverse_destroy_loop_apply [of "()" ht "nNumUsed ht", symmetric]
    by (simp add: zend_hash_graceful_destroy_def zend_hash_graceful_reverse_destroy_def)
qed

theorem zend_hash_destruction_witness:
  "hash_wf pair_table \<and> pDestructor pair_table \<and> zend_hash_destroy pair_table = [IS_VALUE 7, IS_VALUE 9] \<and>
    zend_hash_graceful_reverse_destroy pair_table = Ret [IS_VALUE 9, IS_VALUE 7]"
  using zend_hash_destruction [OF pair_table_wf(1,5)] by (simp add: pair_table_wf)

end
