(* ===== verification/Zend_Numeric.thy ===== *)
theory Zend_Numeric
  imports Zend_Hash_Map
begin

text \<open>
  Integer-like string keys: \<open>_zend_handle_numeric_str\<close> of \<open>Zend/zend_hash.h\<close> and \<open>zend_hash.c\<close>, which decides
  whether the key of a PHP array is an integer, \<open>zend_long_to_str\<close> of \<open>zend_operators.c\<close>, and the
  \<open>zend_symtable\<close> functions that are built on the decision. The build is the 64-bit one:
  \<open>SIZEOF_ZEND_LONG\<close> is 8 and \<open>MAX_LENGTH_OF_LONG\<close> is 20.
\<close>

section \<open>Reading\<close>

abbreviation MAX_LENGTH_OF_LONG :: nat where "MAX_LENGTH_OF_LONG \<equiv> 20"

text \<open>A byte as a signed \<open>char\<close>; a string has a NUL byte behind its end.\<close>

definition schar :: "char \<Rightarrow> int" where
  "schar c = (if of_char c < (128 :: int) then of_char c else of_char c - 256)"

definition char_at :: "string \<Rightarrow> nat \<Rightarrow> int" where
  "char_at s i = (if i < length s then schar (s ! i) else 0)"

abbreviation CH_ZERO :: int where "CH_ZERO \<equiv> 48"
abbreviation CH_NINE :: int where "CH_NINE \<equiv> 57"
abbreviation CH_MINUS :: int where "CH_MINUS \<equiv> 45"

text \<open>The rounds of \<open>while (1)\<close> after \<open>++tmp\<close>, up to \<open>tmp == end\<close>.\<close>

primrec numeric_loop :: "string \<Rightarrow> 64 word \<Rightarrow> 64 word option" where
  "numeric_loop [] idx = Some idx"
| "numeric_loop (c # tmp) idx =
     (if schar c \<le> CH_NINE \<and> schar c \<ge> CH_ZERO
      then numeric_loop tmp (idx * 10 + word_of_int (schar c - CH_ZERO))
      else None)"

text \<open>The result is 0 or 1 with the index. Without a digit the code would step over the end of the
  string.\<close>

definition zend_handle_numeric_str_ex :: "string \<Rightarrow> 64 word option run" where
  "zend_handle_numeric_str_ex key =
     (let minus = (char_at key 0 = CH_MINUS);
          tmp = (if minus then tl key else key)
      in if char_at tmp 0 = CH_ZERO \<and> length key > 1 \<or> length tmp > MAX_LENGTH_OF_LONG - 1 then Ret None
         else
           case tmp of
             [] \<Rightarrow> Undef
           | c # rest \<Rightarrow>
               Ret (case numeric_loop rest (word_of_int (schar c - CH_ZERO)) of
                      None \<Rightarrow> None
                    | Some idx \<Rightarrow>
                        if minus then
                          if idx - 1 > word_of_int ZEND_LONG_MAX then None else Some (0 - idx)
                        else if idx > word_of_int ZEND_LONG_MAX then None else Some idx))"

definition zend_handle_numeric_str :: "string \<Rightarrow> 64 word option run" where
  "zend_handle_numeric_str key =
     (if char_at key 0 > CH_NINE then Ret None
      else if char_at key 0 < CH_ZERO then
        if char_at key 0 \<noteq> CH_MINUS then Ret None
        else if char_at key 1 > CH_NINE \<or> char_at key 1 < CH_ZERO then Ret None
        else zend_handle_numeric_str_ex key
      else zend_handle_numeric_str_ex key)"

section \<open>Printing\<close>

function zend_print_ulong_to_buf :: "string \<Rightarrow> 64 word \<Rightarrow> string" where
  "zend_print_ulong_to_buf buf num =
     (let buf = char_of (unat (num mod 10) + 48) # buf; num = num div 10
      in if num > 0 then zend_print_ulong_to_buf buf num else buf)"
  by pat_completeness auto

termination
proof (relation "measure (\<lambda>(buf, num). unat num)")
  fix buf x and num xa :: "64 word"
  assume "xa = num div 10" "xa > 0"
  then have "unat num div 10 > 0" "unat xa = unat num div 10" by (simp_all add: word_less_nat_alt unat_div)
  then show "((x, xa), buf, num) \<in> measure (\<lambda>(buf, num). unat num)" by simp
qed simp

declare zend_print_ulong_to_buf.simps [simp del]

definition zend_print_long_to_buf :: "string \<Rightarrow> 64 word \<Rightarrow> string" where
  "zend_print_long_to_buf buf num =
     (if sint num < 0 then CHR ''-'' # zend_print_ulong_to_buf buf (NOT num + 1)
      else zend_print_ulong_to_buf buf num)"

definition zend_long_to_str :: "64 word \<Rightarrow> string" where
  "zend_long_to_str num =
     (if num \<le> 9 then [char_of (48 + unat num)] else zend_print_long_to_buf [] num)"

section \<open>Symbol tables\<close>

definition by_key :: "string \<Rightarrow> (64 word \<Rightarrow> 'a run) \<Rightarrow> 'a run \<Rightarrow> 'a run" where
  "by_key key f g =
     run_bind (zend_handle_numeric_str key) (\<lambda>r. case r of Some idx \<Rightarrow> f idx | None \<Rightarrow> g)"

definition ind_find :: "'v HashTable \<Rightarrow> 'v zval option \<Rightarrow> 'v zval option" where
  "ind_find ht zv =
     (case zv of
        Some (IS_INDIRECT k) \<Rightarrow> if cvs ht k \<noteq> IS_UNDEF then Some (cvs ht k) else None
      | _ \<Rightarrow> zv)"

definition zend_hash_find_ind :: "'v HashTable \<Rightarrow> string \<Rightarrow> 'v zval option run" where
  "zend_hash_find_ind ht key = run_bind (zend_hash_find ht key) (\<lambda>zv. Ret (ind_find ht zv))"

definition zend_hash_str_find_ind :: "'v HashTable \<Rightarrow> string \<Rightarrow> 'v zval option run" where
  "zend_hash_str_find_ind ht str = run_bind (zend_hash_str_find ht str) (\<lambda>zv. Ret (ind_find ht zv))"

definition zend_hash_exists_ind :: "'v HashTable \<Rightarrow> string \<Rightarrow> bool run" where
  "zend_hash_exists_ind ht key =
     run_bind (zend_hash_find ht key) (\<lambda>zv.
       Ret (case zv of
              None \<Rightarrow> False
            | Some (IS_INDIRECT k) \<Rightarrow> cvs ht k \<noteq> IS_UNDEF
            | Some _ \<Rightarrow> True))"

definition zend_symtable_add_new :: "'v HashTable \<Rightarrow> string \<Rightarrow> 'v zval \<Rightarrow> ('v HashTable \<times> zptr option) run" where
  "zend_symtable_add_new ht key pData =
     by_key key (\<lambda>idx. zend_hash_index_add_new ht idx pData) (zend_hash_add_new ht key pData)"

definition zend_symtable_update :: "'v HashTable \<Rightarrow> string \<Rightarrow> 'v zval \<Rightarrow> ('v HashTable \<times> zptr option) run" where
  "zend_symtable_update ht key pData =
     by_key key (\<lambda>idx. zend_hash_index_update ht idx pData) (zend_hash_update ht key pData)"

definition zend_symtable_update_ind :: "'v HashTable \<Rightarrow> string \<Rightarrow> 'v zval \<Rightarrow> ('v HashTable \<times> zptr option) run" where
  "zend_symtable_update_ind ht key pData =
     by_key key (\<lambda>idx. zend_hash_index_update ht idx pData) (zend_hash_update_ind ht key pData)"

definition zend_symtable_del :: "'v HashTable \<Rightarrow> string \<Rightarrow> ('v HashTable \<times> bool) run" where
  "zend_symtable_del ht key = by_key key (zend_hash_index_del ht) (zend_hash_del ht key)"

definition zend_symtable_del_ind :: "'v HashTable \<Rightarrow> string \<Rightarrow> ('v HashTable \<times> bool) run" where
  "zend_symtable_del_ind ht key = by_key key (zend_hash_index_del ht) (zend_hash_del_ind ht key)"

definition zend_symtable_find :: "'v HashTable \<Rightarrow> string \<Rightarrow> 'v zval option run" where
  "zend_symtable_find ht key = by_key key (zend_hash_index_find ht) (zend_hash_find ht key)"

definition zend_symtable_find_ind :: "'v HashTable \<Rightarrow> string \<Rightarrow> 'v zval option run" where
  "zend_symtable_find_ind ht key = by_key key (zend_hash_index_find ht) (zend_hash_find_ind ht key)"

definition zend_symtable_exists_ind :: "'v HashTable \<Rightarrow> string \<Rightarrow> bool run" where
  "zend_symtable_exists_ind ht key =
     by_key key (\<lambda>idx. run_bind (zend_hash_index_find ht idx) (\<lambda>v. Ret (v \<noteq> None))) (zend_hash_exists_ind ht key)"

definition zend_symtable_exists :: "'v HashTable \<Rightarrow> string \<Rightarrow> bool run" where
  "zend_symtable_exists ht key =
     by_key key (\<lambda>idx. run_bind (zend_hash_index_find ht idx) (\<lambda>v. Ret (v \<noteq> None)))
       (run_bind (zend_hash_find ht key) (\<lambda>v. Ret (v \<noteq> None)))"

definition zend_symtable_str_update :: "'v HashTable \<Rightarrow> string \<Rightarrow> 'v zval \<Rightarrow> ('v HashTable \<times> zptr option) run" where
  "zend_symtable_str_update ht str pData =
     by_key str (\<lambda>idx. zend_hash_index_update ht idx pData) (zend_hash_str_update ht str pData)"

definition zend_symtable_str_update_ind :: "'v HashTable \<Rightarrow> string \<Rightarrow> 'v zval \<Rightarrow> ('v HashTable \<times> zptr option) run" where
  "zend_symtable_str_update_ind ht str pData =
     by_key str (\<lambda>idx. zend_hash_index_update ht idx pData) (zend_hash_str_update_ind ht str pData)"

definition zend_symtable_str_del :: "'v HashTable \<Rightarrow> string \<Rightarrow> ('v HashTable \<times> bool) run" where
  "zend_symtable_str_del ht str = by_key str (zend_hash_index_del ht) (zend_hash_str_del ht str)"

definition zend_symtable_str_find :: "'v HashTable \<Rightarrow> string \<Rightarrow> 'v zval option run" where
  "zend_symtable_str_find ht str = by_key str (zend_hash_index_find ht) (zend_hash_str_find ht str)"

section \<open>Decimal strings\<close>

text \<open>Digits, and the value of a string of digits.\<close>

definition is_dig :: "char \<Rightarrow> bool" where
  "is_dig c \<longleftrightarrow> (48 :: nat) \<le> of_char c \<and> of_char c \<le> (57 :: nat)"

definition dig :: "char \<Rightarrow> nat" where
  "dig c = of_char c - 48"

definition decval :: "string \<Rightarrow> nat" where
  "decval s = foldl (\<lambda>n c. n * 10 + dig c) 0 s"

lemma decval_simps [simp]: "decval [] = 0" "decval (s @ [c]) = decval s * 10 + dig c"
  by (simp_all add: decval_def)

lemma of_char_digit: "n < 10 \<Longrightarrow> of_char (char_of (n + 48) :: char) = n + 48" for n :: nat
  by simp

lemma dig_char [simp]: "n < 10 \<Longrightarrow> is_dig (char_of (n + 48))" "n < 10 \<Longrightarrow> dig (char_of (n + 48)) = n"
  by (simp_all add: is_dig_def dig_def of_char_digit)

lemma char_dig: "is_dig c \<Longrightarrow> char_of (dig c + 48) = c"
  by (simp add: is_dig_def dig_def)

lemma dig_less: "is_dig c \<Longrightarrow> dig c < 10"
  unfolding is_dig_def dig_def by linarith

lemma dec_decval: "decval (dec n) = n"
proof (induction n rule: dec.induct)
  case (1 n)
  then show ?case by (subst dec.simps) (use decval_simps(2) [of "[]"] in auto)
qed

lemma dec_digits: "list_all is_dig (dec n)"
proof (induction n rule: dec.induct)
  case (1 n)
  then show ?case by (subst dec.simps) auto
qed

lemma dec_neq_Nil [simp]: "dec n \<noteq> []"
  by (subst dec.simps) simp

lemma dec_hd: "n > 0 \<Longrightarrow> dig (hd (dec n)) > 0"
proof (induction n rule: dec.induct)
  case (1 n)
  then show ?case by (subst dec.simps) auto
qed

lemma dec_length: "n < 10 ^ Suc k \<Longrightarrow> length (dec n) \<le> Suc k"
proof (induction k arbitrary: n)
  case 0
  then show ?case by (subst dec.simps) simp
next
  case (Suc k)
  then have "n div 10 < 10 ^ Suc k" by (simp add: div_less_iff_less_mult mult.commute)
  then show ?case using Suc.IH [of "n div 10"] by (subst dec.simps) simp
qed

lemma decval_less: "list_all is_dig s \<Longrightarrow> decval s < 10 ^ length s"
proof (induction s rule: rev_induct)
  case (snoc c s)
  then have "decval s + 1 \<le> 10 ^ length s" "dig c < 10" by (simp_all add: dig_less)
  then have "(decval s + 1) * 10 \<le> 10 ^ length s * 10" by (metis mult_le_mono1)
  then show ?case using \<open>dig c < 10\<close> by simp
qed simp

lemma decval_pos: "list_all is_dig s \<Longrightarrow> s \<noteq> [] \<Longrightarrow> dig (hd s) > 0 \<Longrightarrow> decval s > 0"
proof (induction s rule: rev_induct)
  case (snoc c s)
  then show ?case using decval_simps(2) [of s c] decval_simps(2) [of "[]" c] by (cases "s = []") auto
qed simp

lemma dec_of_decval:
  assumes "list_all is_dig s" and "s \<noteq> []" and "dig (hd s) > 0 \<or> length s = 1"
  shows "dec (decval s) = s"
  using assms
proof (induction s rule: rev_induct)
  case (snoc c s)
  have c: "is_dig c" "dig c < 10" using snoc.prems(1) by (simp_all add: dig_less)
  show ?case
  proof (cases "s = []")
    case True
    then show ?thesis using c decval_simps(2) [of "[]" c] by (subst dec.simps) (simp add: char_dig)
  next
    case False
    then have s: "list_all is_dig s" "dig (hd s) > 0" using snoc.prems by auto
    then have "decval s > 0" using decval_pos False by blast
    moreover have "dec (decval s) = s" using snoc.IH s False by blast
    ultimately show ?thesis using c by (subst dec.simps) (simp add: char_dig)
  qed
qed simp

lemma is_dig_schar: "schar c \<le> CH_NINE \<and> schar c \<ge> CH_ZERO \<longleftrightarrow> is_dig c"
  and schar_dig: "is_dig c \<Longrightarrow> schar c = int (dig c) + CH_ZERO"
proof -
  define n :: nat where "n = of_char c"
  have n: "(of_char c :: int) = int n" "n < 256" by (simp_all add: n_def of_nat_of_char)
  show "schar c \<le> CH_NINE \<and> schar c \<ge> CH_ZERO \<longleftrightarrow> is_dig c"
    unfolding schar_def is_dig_def n(1) n_def [symmetric] using n(2) by (auto split: if_splits)
  show "schar c = int (dig c) + CH_ZERO" if "is_dig c"
    using that unfolding schar_def is_dig_def dig_def n(1) n_def [symmetric] by (auto split: if_splits)
qed

lemma numeric_loop_digits:
  "numeric_loop s (word_of_nat n) =
     (if list_all is_dig s then Some (word_of_nat (foldl (\<lambda>n c. n * 10 + dig c) n s)) else None)"
proof (induction s arbitrary: n)
  case (Cons c s)
  show ?case
  proof (cases "is_dig c")
    case True
    have "word_of_nat n * 10 + word_of_int (int (dig c)) = (word_of_nat (n * 10 + dig c) :: 64 word)" by simp
    then show ?thesis using True dig_less [OF True] Cons [of "n * 10 + dig c"] by (simp only: numeric_loop.simps is_dig_schar schar_dig [OF True]) simp
  next
    case False
    then show ?thesis by (simp add: is_dig_schar)
  qed
qed simp

lemma print_ulong: "zend_print_ulong_to_buf buf num = dec (unat num) @ buf"
proof (induction buf num rule: zend_print_ulong_to_buf.induct)
  case (1 buf num)
  have u: "unat (num div 10) = unat num div 10" "unat (num mod 10) = unat num mod 10"
    by (simp_all add: unat_div unat_mod)
  show ?case
  proof (cases "num div 10 > 0")
    case True
    then have "unat num \<ge> 10" using u(1) by (simp add: word_less_nat_alt)
    then show ?thesis using 1 [OF refl refl True] True u
      by (subst zend_print_ulong_to_buf.simps, subst dec.simps) simp
  next
    case False
    then have "unat num < 10" using u(1) by (simp add: word_less_nat_alt)
    then show ?thesis using False u by (subst zend_print_ulong_to_buf.simps, subst dec.simps) simp
  qed
qed

section \<open>Which strings are integers\<close>

lemma unat_small: "0 \<le> i \<Longrightarrow> i < 2 ^ 64 \<Longrightarrow> unat (word_of_int i :: 64 word) = nat i"
  by (simp add: unsigned_of_int take_bit_int_eq_self)

lemma sint_range: "- (2 ^ 63) \<le> sint w" "sint w < 2 ^ 63" for w :: "64 word"
  using sint_ge [of w] sint_lt [of w] by simp_all

lemma zend_long_to_str_sdec: "zend_long_to_str num = sdec (sint num)"
proof -
  have w: "num = word_of_int (sint num)" by simp
  have pos: "zend_print_ulong_to_buf [] num = dec (nat (sint num))" if "sint num \<ge> 0"
    using unat_small [of "sint num"] that sint_range [of num] by (simp add: print_ulong)
  have "NOT num + 1 = word_of_int (- sint num)" by (simp add: not_eq_complement)
  then have neg: "zend_print_ulong_to_buf [] (NOT num + 1) = dec (nat (- sint num))" if "sint num < 0"
    using unat_small [of "- sint num"] that sint_range [of num] by (simp add: print_ulong)
  have nine: "zend_long_to_str num = dec (unat num)" "sint num \<ge> 0" if "num \<le> 9"
  proof -
    have "unat num \<le> 9" using that by (simp add: word_le_nat_alt)
    then show "zend_long_to_str num = dec (unat num)"
      using that by (subst dec.simps) (simp add: zend_long_to_str_def add.commute)
    have "sint (word_of_int (int (unat num)) :: 64 word) = int (unat num)"
      by (rule sint_of_next) (use \<open>unat num \<le> 9\<close> in linarith)+
    then show "sint num \<ge> 0" by simp
  qed
  show ?thesis
  proof (cases "num \<le> 9")
    case True
    then show ?thesis using nine pos by (simp add: sdec_def print_ulong)
  next
    case False
    then show ?thesis using pos neg by (simp add: zend_long_to_str_def zend_print_long_to_buf_def sdec_def)
  qed
qed

lemma loop_decval:
  "is_dig c \<Longrightarrow> numeric_loop s (word_of_int (schar c - CH_ZERO)) =
     (if list_all is_dig (c # s) then Some (word_of_nat (decval (c # s))) else None)"
proof -
  assume c: "is_dig c"
  have "word_of_int (schar c - CH_ZERO) = (word_of_nat (dig c) :: 64 word)" using schar_dig [OF c] by simp
  then show ?thesis using numeric_loop_digits [of s "dig c"] c by (simp add: decval_def)
qed

lemma of_nat_small: "n < 2 ^ 64 \<Longrightarrow> unat (word_of_nat n :: 64 word) = n"
  by (simp add: unsigned_of_nat take_bit_nat_eq_self)

lemma decval_word: "list_all is_dig s \<Longrightarrow> length s \<le> 19 \<Longrightarrow> unat (word_of_nat (decval s) :: 64 word) = decval s"
proof -
  assume "list_all is_dig s" and l: "length s \<le> 19"
  then have "decval s < 10 ^ length s" by (simp add: decval_less)
  also have "\<dots> \<le> 10 ^ 19" using l by (intro power_increasing) simp_all
  finally show ?thesis by (intro of_nat_small) simp
qed

text \<open>The two forms of an integer: digits without a leading zero, and these after a minus sign.\<close>

lemma handle_digits:
  assumes "is_dig c"
  shows "zend_handle_numeric_str_ex (c # s) =
    Ret (if list_all is_dig s \<and> (dig c > 0 \<or> s = []) \<and> length s < 19 \<and> decval (c # s) < 2 ^ 63
         then Some (word_of_nat (decval (c # s))) else None)"
proof -
  have c: "char_at (c # s) 0 = int (dig c) + CH_ZERO" using schar_dig [OF assms] by (simp add: char_at_def)
  have le: "word_of_nat (decval (c # s)) > (word_of_int ZEND_LONG_MAX :: 64 word) \<longleftrightarrow> \<not> decval (c # s) < 2 ^ 63"
    if "list_all is_dig s" "length s < 19"
    using decval_word [of "c # s"] that assms by (auto simp: word_less_nat_alt)
  show ?thesis using c le assms loop_decval [OF assms, of s]
    by (auto simp: zend_handle_numeric_str_ex_def Let_def)
qed

lemma handle_minus:
  assumes "is_dig c"
  shows "zend_handle_numeric_str_ex (CHR ''-'' # c # s) =
    Ret (if list_all is_dig s \<and> dig c > 0 \<and> length s < 19 \<and> decval (c # s) \<le> 2 ^ 63
         then Some (- word_of_nat (decval (c # s))) else None)"
proof -
  have m: "char_at (CHR ''-'' # c # s) 0 = CH_MINUS" by (simp add: char_at_def schar_def)
  have c: "char_at (c # s) 0 = int (dig c) + CH_ZERO" using schar_dig [OF assms] by (simp add: char_at_def)
  have le: "word_of_nat (decval (c # s)) - 1 > (word_of_int ZEND_LONG_MAX :: 64 word) \<longleftrightarrow> \<not> decval (c # s) \<le> 2 ^ 63"
    if "list_all is_dig s" "length s < 19" "dig c > 0"
  proof -
    have p: "decval (c # s) > 0" using decval_pos [of "c # s"] that assms by simp
    have u: "unat (word_of_nat (decval (c # s)) :: 64 word) = decval (c # s)" using decval_word [of "c # s"] that assms by simp
    then have "unat (word_of_nat (decval (c # s)) - 1 :: 64 word) = decval (c # s) - 1"
      using p by (metis unat_minus_one unat_eq_zero not_gr_zero)
    then show ?thesis using p by (auto simp: word_less_nat_alt)
  qed
  show ?thesis using m c le assms loop_decval [OF assms, of s]
    by (auto simp: zend_handle_numeric_str_ex_def Let_def)
qed

lemma dec_Cons: "dec n = c # s \<Longrightarrow> is_dig c \<and> list_all is_dig s \<and> (dig c > 0 \<or> s = []) \<and> (n > 0 \<longrightarrow> dig c > 0)"
proof -
  assume e: "dec n = c # s"
  have "list_all is_dig (c # s)" using dec_digits [of n] e by simp
  moreover have "dig c > 0" if "n > 0" using dec_hd [OF that] e by simp
  moreover have "s = []" if "n = 0" using e that by (simp add: dec.simps)
  ultimately show ?thesis by auto
qed

lemma dec_Cons_length: "dec n = c # s \<Longrightarrow> n \<le> 2 ^ 63 \<Longrightarrow> length s < 19"
  using dec_length [of n 18] by simp

lemma handle_first_digit: "is_dig c \<Longrightarrow> zend_handle_numeric_str (c # s) = zend_handle_numeric_str_ex (c # s)"
proof -
  assume "is_dig c"
  then have "\<not> char_at (c # s) 0 > CH_NINE" "\<not> char_at (c # s) 0 < CH_ZERO"
    using is_dig_schar [of c] by (simp_all add: char_at_def)
  then show ?thesis by (simp add: zend_handle_numeric_str_def)
qed

lemma handle_first_minus:
  "zend_handle_numeric_str (CHR ''-'' # s) =
     (if s \<noteq> [] \<and> is_dig (hd s) then zend_handle_numeric_str_ex (CHR ''-'' # s) else Ret None)"
proof -
  have "char_at (CHR ''-'' # s) 0 = CH_MINUS" "char_at (CHR ''-'' # s) 1 = (case s of [] \<Rightarrow> 0 | c # _ \<Rightarrow> schar c)"
    by (simp_all add: char_at_def schar_def split: list.split)
  then show ?thesis
    using is_dig_schar [of "hd s"] by (auto simp: zend_handle_numeric_str_def split: list.splits)
qed

lemma handle_other:
  assumes "\<not> is_dig c" and "c \<noteq> CHR ''-''"
  shows "zend_handle_numeric_str (c # s) = Ret None"
proof -
  have "schar c \<noteq> CH_MINUS"
  proof
    assume "schar c = CH_MINUS"
    then have "(of_char c :: int) = 45 \<or> (of_char c :: int) = 301" by (auto simp: schar_def split: if_splits)
    moreover have "(of_char c :: int) = int (of_char c)" by (simp only: of_nat_of_char)
    moreover have "of_char c < (256 :: nat)" by simp
    ultimately have "(of_char c :: int) = of_char (CHR ''-'')" by simp
    then show False using assms(2) by (simp only: of_char_eq_iff)
  qed
  then show ?thesis using assms(1) is_dig_schar [of c]
    by (auto simp: zend_handle_numeric_str_def char_at_def)
qed

lemma word_nonneg: "word_of_nat n = (w :: 64 word) \<and> n < 2 ^ 63 \<longleftrightarrow> n = nat (sint w) \<and> sint w \<ge> 0"
proof
  assume "word_of_nat n = w \<and> n < 2 ^ 63"
  then show "n = nat (sint w) \<and> sint w \<ge> 0" using sint_of_next [of "int n"] by auto
next
  assume a: "n = nat (sint w) \<and> sint w \<ge> 0"
  then have "int n = sint w" by simp
  then have "word_of_int (int n) = w" by simp
  then show "word_of_nat n = w \<and> n < 2 ^ 63" using a sint_range [of w] by auto
qed

lemma word_neg: "- word_of_nat n = (w :: 64 word) \<and> 0 < n \<and> n \<le> 2 ^ 63 \<longleftrightarrow> n = nat (- sint w) \<and> sint w < 0"
proof
  assume a: "- word_of_nat n = w \<and> 0 < n \<and> n \<le> 2 ^ 63"
  then have "w = word_of_int (- int n)" by simp
  then show "n = nat (- sint w) \<and> sint w < 0" using sint_of_next [of "- int n"] a by auto
next
  assume a: "n = nat (- sint w) \<and> sint w < 0"
  then have "- int n = sint w" by simp
  then have "word_of_int (- int n) = w" by simp
  then show "- word_of_nat n = w \<and> 0 < n \<and> n \<le> 2 ^ 63" using a sint_range [of w] by auto
qed

lemma minus_no_digit: "\<not> is_dig (CHR ''-'')"
  by (simp add: is_dig_def)

lemma sdec_digit:
  fixes w :: "64 word"
  assumes "is_dig c"
  shows "c # s = sdec (sint w) \<longleftrightarrow> list_all is_dig s \<and> (dig c > 0 \<or> s = []) \<and> length s < 19 \<and>
    decval (c # s) < 2 ^ 63 \<and> word_of_nat (decval (c # s)) = w"
proof
  assume e: "c # s = sdec (sint w)"
  then have n: "sint w \<ge> 0" using assms minus_no_digit by (auto simp: sdec_def split: if_splits)
  then have d: "dec (nat (sint w)) = c # s" using e by (simp add: sdec_def)
  then have v: "decval (c # s) = nat (sint w)" by (metis dec_decval)
  then show "list_all is_dig s \<and> (dig c > 0 \<or> s = []) \<and> length s < 19 \<and>
      decval (c # s) < 2 ^ 63 \<and> word_of_nat (decval (c # s)) = w"
    using dec_Cons [OF d] dec_Cons_length [OF d] sint_range [of w] n word_nonneg [of "decval (c # s)" w] by auto
next
  assume a: "list_all is_dig s \<and> (dig c > 0 \<or> s = []) \<and> length s < 19 \<and>
      decval (c # s) < 2 ^ 63 \<and> word_of_nat (decval (c # s)) = w"
  then have "dec (decval (c # s)) = c # s" using dec_of_decval [of "c # s"] assms by auto
  then show "c # s = sdec (sint w)" using a word_nonneg [of "decval (c # s)" w] by (simp add: sdec_def)
qed

lemma sdec_minus:
  fixes w :: "64 word"
  assumes "is_dig c"
  shows "CHR ''-'' # c # s = sdec (sint w) \<longleftrightarrow> list_all is_dig s \<and> dig c > 0 \<and> length s < 19 \<and>
    decval (c # s) \<le> 2 ^ 63 \<and> - word_of_nat (decval (c # s)) = w"
proof
  assume e: "CHR ''-'' # c # s = sdec (sint w)"
  have n: "sint w < 0"
  proof (rule ccontr)
    assume "\<not> sint w < 0"
    then have "dec (nat (sint w)) = CHR ''-'' # c # s" using e by (simp add: sdec_def)
    then show False using dec_Cons minus_no_digit by blast
  qed
  then have d: "dec (nat (- sint w)) = c # s" using e by (simp add: sdec_def)
  then have v: "decval (c # s) = nat (- sint w)" by (metis dec_decval)
  then show "list_all is_dig s \<and> dig c > 0 \<and> length s < 19 \<and>
      decval (c # s) \<le> 2 ^ 63 \<and> - word_of_nat (decval (c # s)) = w"
    using dec_Cons [OF d] dec_Cons_length [OF d] sint_range [of w] n word_neg [of "decval (c # s)" w] by auto
next
  assume a: "list_all is_dig s \<and> dig c > 0 \<and> length s < 19 \<and>
      decval (c # s) \<le> 2 ^ 63 \<and> - word_of_nat (decval (c # s)) = w"
  then have "dec (decval (c # s)) = c # s" "decval (c # s) > 0"
    using dec_of_decval [of "c # s"] decval_pos [of "c # s"] assms by auto
  then show "CHR ''-'' # c # s = sdec (sint w)" using a word_neg [of "decval (c # s)" w] by (simp add: sdec_def)
qed

lemma sdec_first: "sdec i = c # s \<Longrightarrow> is_dig c \<or> c = CHR ''-'' \<and> s \<noteq> [] \<and> is_dig (hd s)"
proof -
  assume e: "sdec i = c # s"
  have d: "is_dig (hd (dec n))" for n using dec_digits [of n] by (cases "dec n") auto
  show ?thesis using e d [of "nat i"] d [of "nat (- i)"] by (auto simp: sdec_def split: if_splits)
qed

lemma sdec_neq_Nil: "sdec i \<noteq> []"
  by (simp add: sdec_def)

lemma zend_handle_numeric_iff:
  "\<exists>r. zend_handle_numeric_str key = Ret r \<and> (\<forall>idx. r = Some idx \<longleftrightarrow> key = zend_long_to_str idx)"
proof (cases key)
  case Nil
  then show ?thesis
    using sdec_neq_Nil by (auto simp: zend_handle_numeric_str_def char_at_def zend_long_to_str_sdec) metis
next
  case (Cons c s)
  consider "is_dig c" | d t where "c = CHR ''-''" "s = d # t" "is_dig d" | "\<not> is_dig c" "c = CHR ''-''" "s = [] \<or> \<not> is_dig (hd s)"
    | "\<not> is_dig c" "c \<noteq> CHR ''-''" using minus_no_digit by (cases s) auto
  then show ?thesis
  proof cases
    case 1
    then show ?thesis
      using Cons sdec_digit [OF 1, of s] by (auto simp: handle_first_digit handle_digits zend_long_to_str_sdec)
  next
    case 2
    then show ?thesis
      using Cons sdec_minus [OF 2(3), of t] by (auto simp: handle_first_minus handle_minus zend_long_to_str_sdec)
  next
    case 3
    then have "key \<noteq> sdec i" for i using sdec_first [of i c s] Cons by auto
    then show ?thesis using 3 Cons by (auto simp: handle_first_minus zend_long_to_str_sdec)
  next
    case 4
    then have "key \<noteq> sdec i" for i using sdec_first [of i c s] Cons by auto
    then show ?thesis using 4 Cons by (auto simp: handle_other zend_long_to_str_sdec)
  qed
qed

lemma zend_long_to_str_inj [simp]: "zend_long_to_str a = zend_long_to_str b \<longleftrightarrow> a = b"
  using zend_handle_numeric_iff [of "zend_long_to_str a"] by (metis option.inject)

definition norm_key :: "string \<Rightarrow> hkey" where
  "norm_key key = (case zend_handle_numeric_str key of Ret (Some idx) \<Rightarrow> Idx idx | _ \<Rightarrow> Str key)"

lemma norm_key_cases:
  obtains (Idx) idx where "norm_key key = Idx idx" "key = zend_long_to_str idx" "zend_handle_numeric_str key = Ret (Some idx)"
    | (Str) "norm_key key = Str key" "\<And>idx. key \<noteq> zend_long_to_str idx" "zend_handle_numeric_str key = Ret None"
proof -
  obtain r where r: "zend_handle_numeric_str key = Ret r" "\<forall>idx. r = Some idx \<longleftrightarrow> key = zend_long_to_str idx"
    using zend_handle_numeric_iff by blast
  show thesis
  proof (cases r)
    case None
    then show ?thesis using Str r by (simp add: norm_key_def)
  next
    case (Some idx)
    then have "key = zend_long_to_str idx" using r(2) by simp
    then show ?thesis using Idx [of idx] Some r(1) by (simp add: norm_key_def)
  qed
qed

lemma norm_key_inj: "norm_key a = norm_key b \<longleftrightarrow> a = b"
  by (cases a rule: norm_key_cases; cases b rule: norm_key_cases) auto

lemma norm_key_idx: "norm_key key = Idx h \<longleftrightarrow> key = zend_long_to_str h"
  by (cases key rule: norm_key_cases) auto

lemma symtable_eqs:
  "zend_symtable_find ht key = hash_find ht (norm_key key)"
  "run_bind (zend_symtable_update ht key v) (\<lambda>(ht', p). Ret ht') = hash_put ht (norm_key key) v"
  "run_bind (zend_symtable_del ht key) (\<lambda>(ht', r). Ret ht') = hash_del ht (norm_key key)"
  by (cases key rule: norm_key_cases;
      simp add: zend_symtable_find_def zend_symtable_update_def zend_symtable_del_def by_key_def
        hash_find_def hash_put_def hash_del_def split_def)+

section \<open>Properties\<close>

text \<open>C12. A string is taken for an integer exactly when it is the decimal form \<open>zend_long_to_str\<close> prints for a
  64-bit integer, and then for that integer: no leading zeros, no \<open>-0\<close>, no plus sign, nothing out of range.
  The check never reads behind the end of the string.\<close>

theorem zend_handle_numeric_correct:
  "(\<exists>r. zend_handle_numeric_str key = Ret r) \<and>
   (zend_handle_numeric_str key = Ret (Some idx) \<longleftrightarrow> key = zend_long_to_str idx) \<and>
   zend_handle_numeric_str (zend_long_to_str idx) = Ret (Some idx)"
  using zend_handle_numeric_iff [of key] zend_handle_numeric_iff [of "zend_long_to_str idx"] by auto

text \<open>In a symbol table the key of \<open>zend_symtable_update\<close> and the integer it spells are one key: what is
  stored under the one is found under the other, deleted with it, and no other key is affected.\<close>

theorem zend_symtable_correct:
  assumes "hash_wf ht" and "nTableSize ht < HT_MAX_SIZE" and "v \<noteq> IS_UNDEF"
  shows "run_bind (zend_symtable_update ht key v) (\<lambda>(ht', p). zend_symtable_find ht' key') =
      (if key' = key then Ret (Some v) else zend_symtable_find ht key') \<and>
    run_bind (zend_symtable_update ht key v) (\<lambda>(ht', p). zend_hash_index_find ht' h) =
      (if key = zend_long_to_str h then Ret (Some v) else zend_hash_index_find ht h) \<and>
    run_bind (zend_symtable_del ht key) (\<lambda>(ht', r). zend_symtable_find ht' key') =
      (if key' = key then Ret None else zend_symtable_find ht key') \<and>
    run_bind (zend_hash_index_del ht h) (\<lambda>(ht', r). zend_symtable_find ht' key') =
      (if key' = zend_long_to_str h then Ret None else zend_symtable_find ht key')"
proof -
  have up: "run_bind (zend_symtable_update ht key v) (\<lambda>(ht', p). f ht') = run_bind (hash_put ht (norm_key key) v) f"
    and de: "run_bind (zend_symtable_del ht key) (\<lambda>(ht', r). f ht') = run_bind (hash_del ht (norm_key key)) f"
    for f :: "'a HashTable \<Rightarrow> 'a zval option run"
    unfolding symtable_eqs(2,3) [symmetric] by (simp_all add: run_bind_assoc split_def)
  have di: "run_bind (zend_hash_index_del ht h) (\<lambda>(ht', r). f ht') = run_bind (hash_del ht (Idx h)) f"
    for f :: "'a HashTable \<Rightarrow> 'a zval option run"
    by (simp add: hash_del_def run_bind_assoc split_def)
  have fi: "zend_hash_index_find ht' h = hash_find ht' (Idx h)" for ht' :: "'a HashTable" by (simp add: hash_find_def)
  show ?thesis
    unfolding up de di fi symtable_eqs(1)
    using zh.find_after_put [OF assms, of "norm_key key"] zh.find_after_del [OF assms(1)]
      norm_key_inj [of key' key] norm_key_idx [of key h] norm_key_idx [of key' h]
    by (auto simp: eq_commute [of "Idx h"])
qed

theorem zend_symtable_correct_witness:
  "hash_wf pair_table \<and> nTableSize pair_table < HT_MAX_SIZE \<and>
    run_bind (zend_symtable_update pair_table ''1'' (IS_VALUE 5)) (\<lambda>(ht', p). zend_hash_index_find ht' 1) =
      Ret (Some (IS_VALUE 5))"
proof -
  have "''1'' = zend_long_to_str 1" by (simp add: zend_long_to_str_def char_of_def bit_0)
  then show ?thesis
    using zend_symtable_correct [of pair_table "IS_VALUE 5" "''1''" undefined 1] by (simp add: pair_table_wf)
qed

end
