(* ===== verification/Zend_Hash_Copy.thy ===== *)
theory Zend_Hash_Copy
  imports Zend_Hash_Iter Zend_Numeric
begin

text \<open>
  Whole-table operations: copying and merging, duplication, and the conversions between
  symbol tables and property tables. Copy constructors only count
  references, which are not part of the model, so the copying functions have none.
\<close>

section \<open>Iteration macros\<close>

text \<open>\<open>ZEND_HASH_FOREACH\<close>: the index, key and value of every cell that is not \<open>IS_UNDEF\<close>; with \<open>indirect\<close> a
  value that refers to a variable slot is followed first, in tables that are not packed.\<close>

definition deref :: "(nat \<Rightarrow> 'v zval) \<Rightarrow> 'v zval \<Rightarrow> 'v zval" where
  "deref slots v = (case v of IS_INDIRECT k \<Rightarrow> slots k | _ \<Rightarrow> v)"

definition ZEND_HASH_FOREACH :: "'v HashTable \<Rightarrow> bool \<Rightarrow> (64 word \<times> string option \<times> 'v zval) list" where
  "ZEND_HASH_FOREACH ht indirect =
     filter (\<lambda>(h, key, v). v \<noteq> IS_UNDEF)
       (if flag_packed ht then map (\<lambda>(i, v). (word_of_nat i, None, v)) (enumerate 0 (arPacked ht))
        else map (\<lambda>p. (b_h p, b_key p, if indirect then deref (cvs ht) (b_val p) else b_val p)) (arData ht))"

section \<open>Copying and merging\<close>

primrec hash_copy_loop :: "(64 word \<times> string option \<times> 'v zval) list \<Rightarrow> 'v HashTable \<Rightarrow> 'v HashTable run" where
  "hash_copy_loop [] target = Ret target"
| "hash_copy_loop (p # ps) target =
     (case p of (h, key, data) \<Rightarrow>
        run_bind (case key of Some key \<Rightarrow> zend_hash_update target key data
                  | None \<Rightarrow> zend_hash_index_update target h data) (\<lambda>(target, new_entry).
          hash_copy_loop ps target))"

definition zend_hash_copy :: "'v HashTable \<Rightarrow> 'v HashTable \<Rightarrow> 'v HashTable run" where
  "zend_hash_copy target source = hash_copy_loop (ZEND_HASH_FOREACH source True) target"

primrec merge_loop :: "bool \<Rightarrow> (64 word \<times> string option \<times> 'v zval) list \<Rightarrow> 'v HashTable \<Rightarrow> 'v HashTable run" where
  "merge_loop overwrite [] target = Ret target"
| "merge_loop overwrite (p # ps) target =
     (case p of (h, key, s) \<Rightarrow>
        run_bind
          (case key of
             Some key \<Rightarrow>
               zend_hash_add_or_update_i target key s
                 [if overwrite then HASH_UPDATE else HASH_ADD, HASH_UPDATE_INDIRECT]
           | None \<Rightarrow>
               if overwrite then zend_hash_index_update target h s else zend_hash_index_add target h s)
          (\<lambda>(target, t). merge_loop overwrite ps target))"

definition zend_hash_merge :: "'v HashTable \<Rightarrow> 'v HashTable \<Rightarrow> bool \<Rightarrow> 'v HashTable run" where
  "zend_hash_merge target source overwrite = merge_loop overwrite (ZEND_HASH_FOREACH source True) target"

text \<open>\<open>zend_hash_merge_ex\<close>; \<open>pMergeSource\<close> sees the target, the value and the key. The source is not packed and
  its keys are strings.\<close>

primrec merge_ex_loop :: "('v HashTable \<Rightarrow> 'v zval \<Rightarrow> 64 word \<Rightarrow> string option \<Rightarrow> bool) \<Rightarrow>
    (64 word \<times> string option \<times> 'v zval) list \<Rightarrow> 'v HashTable \<Rightarrow> 'v HashTable run" where
  "merge_ex_loop pMergeSource [] target = Ret target"
| "merge_ex_loop pMergeSource (p # ps) target =
     (case p of (h, key, val) \<Rightarrow>
        if pMergeSource target val h key then
          (case key of
             None \<Rightarrow> Undef
           | Some key \<Rightarrow>
               run_bind (zend_hash_update target key val) (\<lambda>(target, t). merge_ex_loop pMergeSource ps target))
        else merge_ex_loop pMergeSource ps target)"

definition zend_hash_merge_ex :: "'v HashTable \<Rightarrow> 'v HashTable \<Rightarrow>
    ('v HashTable \<Rightarrow> 'v zval \<Rightarrow> 64 word \<Rightarrow> string option \<Rightarrow> bool) \<Rightarrow> 'v HashTable run" where
  "zend_hash_merge_ex target source pMergeSource =
     merge_ex_loop pMergeSource (ZEND_HASH_FOREACH source False) target"

section \<open>Duplication\<close>

definition zend_array_dup_value :: "(nat \<Rightarrow> 'v zval) \<Rightarrow> bool \<Rightarrow> bool \<Rightarrow> 'v zval \<Rightarrow> 'v zval option" where
  "zend_array_dup_value slots packed with_holes data =
     (let ind = (\<not> packed \<and> (case data of IS_INDIRECT k \<Rightarrow> True | _ \<Rightarrow> False));
          data = (if \<not> packed then deref slots data else data)
      in if (with_holes \<or> ind) \<and> data = IS_UNDEF then None else Some data)"

definition zend_array_dup_packed_elements :: "'v HashTable \<Rightarrow> bool \<Rightarrow> 'v zval list" where
  "zend_array_dup_packed_elements source with_holes =
     map (\<lambda>p. case zend_array_dup_value (cvs source) True with_holes p of Some v \<Rightarrow> v | None \<Rightarrow> IS_UNDEF) (arPacked source)"

text \<open>\<open>zend_array_dup_elements\<close>: the target's hash part, buckets and internal pointer. From the first element
  that is left out on, \<open>idx\<close> is ahead of the target's index and the internal pointer has to be moved.\<close>

fun dup_loop :: "(nat \<Rightarrow> 'v zval) \<Rightarrow> bool \<Rightarrow> nat \<Rightarrow> 32 word \<Rightarrow> 'v bucket list \<Rightarrow> nat \<Rightarrow> nat list \<Rightarrow> 'v bucket list \<Rightarrow> nat \<Rightarrow>
    (nat list \<times> 'v bucket list \<times> nat) option" where
  "dup_loop slots with_holes source_ip m [] idx hs ds ip = Some (hs, ds, ip)"
| "dup_loop slots with_holes source_ip m (p # ps) idx hs ds ip =
     (case zend_array_dup_value slots False with_holes (b_val p) of
        None \<Rightarrow> dup_loop slots with_holes source_ip m ps (Suc idx) hs ds ip
      | Some v \<Rightarrow>
          let c = ht_slot m (b_h p); target_idx = length ds
          in if c < length hs then
               dup_loop slots with_holes source_ip m ps (Suc idx) (hs[c := target_idx])
                 (ds @ [\<lparr>b_val = v, b_next = hs ! c, b_h = b_h p, b_key = b_key p\<rparr>])
                 (if target_idx < idx \<and> source_ip = idx then target_idx else ip)
             else None)"

text \<open>\<open>immutable\<close> is the flag \<open>IS_ARRAY_IMMUTABLE\<close> of the source.\<close>

definition zend_array_dup :: "bool \<Rightarrow> 'v HashTable \<Rightarrow> 'v HashTable run" where
  "zend_array_dup immutable source =
     (let target = source\<lparr>pDestructor := True, dtor_calls := [], ht_iterators := []\<rparr>;
          ip = (if nInternalPointer source < nNumUsed source then nInternalPointer source else 0)
      in if nNumOfElements source = 0 then
           Ret (target\<lparr>flag_packed := False, flag_uninit := True, flag_empty_ind := False, nTableMask := HT_MIN_MASK,
                       arHash := [HT_INVALID_IDX, HT_INVALID_IDX], arData := [], arPacked := [], nNumOfElements := 0,
                       nInternalPointer := 0, nTableSize := HT_MIN_SIZE\<rparr>)
         else if immutable then Ret target
         else if flag_packed source then
           Ret (target\<lparr>nTableMask := HT_MIN_MASK, nInternalPointer := ip, arHash := [HT_INVALID_IDX, HT_INVALID_IDX],
                       arPacked := zend_array_dup_packed_elements source (nNumUsed source \<noteq> nNumOfElements source)\<rparr>)
         else
           run_bind (run_of (dup_loop (cvs source) (nNumUsed source \<noteq> nNumOfElements source) (nInternalPointer source)
                       (nTableMask source) (arData source) 0 (HT_HASH_RESET (nTableMask source)) [] ip))
             (\<lambda>(hs, ds, ip).
               Ret (target\<lparr>nInternalPointer := ip, arHash := hs, arData := ds, nNumOfElements := length ds\<rparr>)))"

section \<open>Symbol tables and property tables\<close>

primrec prop_loop :: "(64 word \<times> string option \<times> 'v zval) list \<Rightarrow> 'v HashTable \<Rightarrow> 'v HashTable run" where
  "prop_loop [] new_ht = Ret new_ht"
| "prop_loop (p # ps) new_ht =
     (case p of (num_key, str_key, zv) \<Rightarrow>
        run_bind (zend_hash_update new_ht (case str_key of Some str_key \<Rightarrow> str_key | None \<Rightarrow> zend_long_to_str num_key) zv)
          (\<lambda>(new_ht, r). prop_loop ps new_ht))"

definition zend_symtable_to_proptable :: "'v HashTable \<Rightarrow> 'v HashTable run" where
  "zend_symtable_to_proptable ht =
     (if \<not> flag_packed ht \<and> list_all (\<lambda>(h, str_key, v). str_key \<noteq> None) (ZEND_HASH_FOREACH ht False) then Ret ht
      else
        run_bind (zend_new_array (cvs ht) (word_of_nat (nNumOfElements ht))) (\<lambda>new_ht.
          prop_loop (ZEND_HASH_FOREACH ht False) new_ht))"

primrec any_numeric :: "(64 word \<times> string option \<times> 'v zval) list \<Rightarrow> bool run" where
  "any_numeric [] = Ret False"
| "any_numeric (p # ps) =
     (case p of (h, str_key, zv) \<Rightarrow>
        (case str_key of
           None \<Rightarrow> any_numeric ps
         | Some key \<Rightarrow>
             run_bind (zend_handle_numeric_str key) (\<lambda>r. if r \<noteq> None then Ret True else any_numeric ps)))"

primrec sym_loop :: "(64 word \<times> string option \<times> 'v zval) list \<Rightarrow> 'v HashTable \<Rightarrow> 'v HashTable run" where
  "sym_loop [] new_ht = Ret new_ht"
| "sym_loop (p # ps) new_ht =
     (case p of (num_key, str_key, zv) \<Rightarrow>
        run_bind
          (case str_key of
             None \<Rightarrow> zend_hash_index_update new_ht num_key zv
           | Some key \<Rightarrow>
               by_key key (\<lambda>num_key. zend_hash_index_update new_ht num_key zv) (zend_hash_update new_ht key zv))
          (\<lambda>(new_ht, r). sym_loop ps new_ht))"

definition zend_proptable_to_symtable :: "bool \<Rightarrow> 'v HashTable \<Rightarrow> bool \<Rightarrow> 'v HashTable run" where
  "zend_proptable_to_symtable immutable ht always_duplicate =
     run_bind (if flag_packed ht then Ret False else any_numeric (ZEND_HASH_FOREACH ht False)) (\<lambda>convert.
       if convert then
         run_bind (zend_new_array (cvs ht) (word_of_nat (nNumOfElements ht))) (\<lambda>new_ht.
           sym_loop (ZEND_HASH_FOREACH ht True) new_ht)
       else if always_duplicate then zend_array_dup immutable ht
       else Ret ht)"

section \<open>Growth over many insertions\<close>

text \<open>How large a table can get while at most \<open>N div 4\<close> elements are inserted: a packed table doubles only
  when it is more than half full, a table with chains only when it is full of live elements, and the
  conversion may double once more.\<close>

definition size_bound :: "nat \<Rightarrow> 'v HashTable \<Rightarrow> bool" where
  "size_bound N ht \<longleftrightarrow> nTableSize ht \<le> (if flag_packed ht \<or> flag_uninit ht then N else 2 * N)"

lemma run_bind_Ret: "run_bind r f = Ret y \<longleftrightarrow> (\<exists>x. r = Ret x \<and> f x = Ret y)"
  by (cases r) auto

lemma rehash_same:
  "zend_hash_rehash ht = Ret ht' \<Longrightarrow> nTableSize ht' = nTableSize ht \<and> nNumOfElements ht' = nNumOfElements ht \<and>
     flag_packed ht' = flag_packed ht \<and> flag_uninit ht' = flag_uninit ht"
  by (auto simp: zend_hash_rehash_def run_bind_Ret Let_def split: if_splits)

lemma packed_to_hash_same:
  "zend_hash_packed_to_hash ht = Ret ht' \<Longrightarrow> nTableSize ht' = nTableSize ht \<and> nNumOfElements ht' = nNumOfElements ht \<and>
     \<not> flag_packed ht' \<and> flag_uninit ht' = flag_uninit ht"
  by (auto simp: zend_hash_packed_to_hash_def Let_def dest!: rehash_same)

lemma if_full_size:
  "ZEND_HASH_IF_FULL_DO_RESIZE ht = Ret ht' \<Longrightarrow>
     nTableSize ht' \<le> max (nTableSize ht) (4 * nNumOfElements ht) \<and> flag_packed ht' = flag_packed ht \<and>
     flag_uninit ht' = flag_uninit ht"
  by (auto simp: ZEND_HASH_IF_FULL_DO_RESIZE_def zend_hash_do_resize_def grow_hash_def Let_def
      split: if_splits dest!: rehash_same)

lemma append_size:
  "append_bucket ht h k v = Ret (ht', i) \<Longrightarrow> nTableSize ht' = nTableSize ht \<and> flag_packed ht' = flag_packed ht \<and>
     flag_uninit ht' = flag_uninit ht"
  by (auto simp: append_bucket_def Let_def split: if_splits)

lemma add_to_hash_size:
  "add_to_hash ht key h v fl = Ret (ht', p) \<Longrightarrow> nTableSize ht' = nTableSize ht \<and> flag_packed ht' = flag_packed ht \<and>
     flag_uninit ht' = flag_uninit ht"
  by (auto simp: add_to_hash_def run_bind_Ret split: prod.splits dest!: append_size)

lemma add_index_to_hash_size:
  "add_index_to_hash ht h v fl = Ret (ht', p) \<Longrightarrow> nTableSize ht' = nTableSize ht \<and> flag_packed ht' = flag_packed ht \<and>
     flag_uninit ht' = flag_uninit ht"
  by (auto simp: add_index_to_hash_def run_bind_Ret split: prod.splits if_splits dest!: append_size)

lemma add_to_packed_size:
  "add_to_packed ht i v fl = Ret (ht', p) \<Longrightarrow> nTableSize ht' = nTableSize ht \<and> flag_packed ht' = flag_packed ht \<and>
     flag_uninit ht' = flag_uninit ht"
  by (auto simp: add_to_packed_def Let_def split: if_splits)

lemma replace_size:
  "update_found ht i v fl = (ht', p) \<Longrightarrow> nTableSize ht' = nTableSize ht \<and> flag_packed ht' = flag_packed ht \<and>
     flag_uninit ht' = flag_uninit ht"
  "replace_index ht i old v fl = (ht', p) \<Longrightarrow> nTableSize ht' = nTableSize ht \<and> flag_packed ht' = flag_packed ht \<and>
     flag_uninit ht' = flag_uninit ht"
  by (auto simp: update_found_def replace_index_def replace_elem_def replace_slot_def set_elem_def
      split: if_splits zval.splits)

lemmas size_dests = if_full_size append_size add_to_hash_size add_index_to_hash_size add_to_packed_size
  packed_to_hash_same replace_size

lemma update_size:
  assumes "zend_hash_add_or_update_i ht key v fl = Ret (ht', p)" and "size_bound N ht" and "4 * nNumOfElements ht \<le> N"
  shows "size_bound N ht'"
  using assms
  by (auto simp: zend_hash_add_or_update_i_def size_bound_def Let_def run_bind_Ret
      zend_hash_real_init_mixed_ex_def split: if_splits option.splits dest!: size_dests)

lemma index_update_size:
  assumes "zend_hash_index_add_or_update_i ht h v fl = Ret (ht', p)" and "size_bound N ht" and "4 * nNumOfElements ht + 4 \<le> N"
    and "flag_packed ht \<longrightarrow> \<not> flag_uninit ht"
  shows "size_bound N ht'"
  using assms
  by (auto simp: zend_hash_index_add_or_update_i_def size_bound_def Let_def run_bind_Ret zend_hash_packed_grow_def
      zend_hash_real_init_mixed_ex_def zend_hash_real_init_packed_ex_def split: if_splits option.splits dest!: size_dests)

lemma hash_put_size:
  assumes "hash_put ht k v = Ret ht'" and "hash_wf ht" and "size_bound N ht" and "4 * nNumOfElements ht + 4 \<le> N"
  shows "size_bound N ht'"
proof -
  have "flag_packed ht \<longrightarrow> \<not> flag_uninit ht" using assms(2) by (auto simp: hash_wf_def)
  then show ?thesis
    using assms update_size [of ht _ v _ ht' _ N] index_update_size [of ht _ v _ ht' _ N]
    by (auto simp: hash_put_def run_bind_Ret zend_hash_update_def zend_hash_index_update_def split: hkey.splits)
qed

primrec put_list :: "(hkey \<times> 'v zval) list \<Rightarrow> 'v HashTable \<Rightarrow> 'v HashTable run" where
  "put_list [] ht = Ret ht"
| "put_list (e # es) ht = run_bind (hash_put ht (fst e) (snd e)) (put_list es)"

definition put_elems :: "('k \<times> 'v) list \<Rightarrow> ('k \<times> 'v) list \<Rightarrow> ('k \<times> 'v) list" where
  "put_elems es xs = fold (\<lambda>(k, v). AList.update k v) es xs"

lemma update_length: "length (AList.update k v xs) \<le> Suc (length xs)"
  by (induction xs) auto

lemma put_list_ok:
  assumes "hash_wf ht" and "size_bound N ht" and "4 * (length (ht_elems ht) + length es) \<le> N" and "2 * N < HT_MAX_SIZE"
    and "\<forall>e \<in> set es. snd e \<noteq> IS_UNDEF"
  shows "\<exists>ht'. put_list es ht = Ret ht' \<and> hash_wf ht' \<and> ht_elems ht' = put_elems es (ht_elems ht) \<and> size_bound N ht'"
  using assms
proof (induction es arbitrary: ht)
  case Nil
  then show ?case by (simp add: put_elems_def)
next
  case (Cons e es)
  have room: "nTableSize ht < HT_MAX_SIZE" using Cons.prems(2,4) by (auto simp: size_bound_def split: if_splits)
  obtain h where h: "hash_put ht (fst e) (snd e) = Ret h" "hash_wf h" "ht_elems h = AList.update (fst e) (snd e) (ht_elems ht)"
    using zh.put_law [OF Cons.prems(1) room, of "snd e" "fst e"] Cons.prems(5) by auto
  have n: "nNumOfElements ht = length (ht_elems ht)" using Cons.prems(1) by (simp add: hash_wf_def)
  have s: "size_bound N h"
    by (rule hash_put_size [OF h(1) Cons.prems(1,2)]) (use Cons.prems(3) n in simp)
  have l: "length (ht_elems h) \<le> Suc (length (ht_elems ht))" unfolding h(3) by (rule update_length)
  show ?case
    using Cons.IH [OF h(2) s _ Cons.prems(4)] Cons.prems(3,5) l h by (auto simp: put_elems_def split_def)
qed

section \<open>The elements a loop sees\<close>

definition fkey :: "64 word \<times> string option \<times> 'v zval \<Rightarrow> hkey \<times> 'v zval" where
  "fkey p = (case p of (h, key, v) \<Rightarrow> (case key of None \<Rightarrow> Idx h | Some k \<Rightarrow> Str k, v))"

definition deref_elems :: "(nat \<Rightarrow> 'v zval) \<Rightarrow> (hkey \<times> 'v zval) list \<Rightarrow> (hkey \<times> 'v zval) list" where
  "deref_elems slots es = filter (\<lambda>(k, v). v \<noteq> IS_UNDEF) (map (\<lambda>(k, v). (k, deref slots v)) es)"

definition no_ind :: "(hkey \<times> 'v zval) list \<Rightarrow> bool" where
  "no_ind es \<longleftrightarrow> (\<forall>e \<in> set es. \<forall>k. snd e \<noteq> IS_INDIRECT k)"

lemma foreach_elems: "map fkey (ZEND_HASH_FOREACH ht False) = ht_elems ht"
proof (cases "flag_packed ht")
  case True
  then show ?thesis
    by (simp add: ZEND_HASH_FOREACH_def ht_elems_def packed_elems_def filter_map o_def split_def fkey_def)
next
  case False
  have "map fkey (filter (\<lambda>(h, key, v). v \<noteq> IS_UNDEF) (map (\<lambda>p. (b_h p, b_key p, b_val p)) ds)) = data_elems ds"
    for ds :: "'a bucket list"
    by (induction ds) (simp_all add: data_elems_def live_def fkey_def bkey_def)
  then show ?thesis using False by (simp add: ZEND_HASH_FOREACH_def ht_elems_def)
qed

lemma deref_elems_simps [simp]:
  "deref_elems slots [] = []"
  "deref_elems slots ((k, v) # es) = (if deref slots v = IS_UNDEF then [] else [(k, deref slots v)]) @ deref_elems slots es"
  "deref_elems slots (es @ es') = deref_elems slots es @ deref_elems slots es'"
  by (simp_all add: deref_elems_def)

lemma foreach_ind_elems:
  "map fkey (ZEND_HASH_FOREACH ht True) = (if flag_packed ht then ht_elems ht else deref_elems (cvs ht) (ht_elems ht))"
proof (cases "flag_packed ht")
  case True
  then have "ZEND_HASH_FOREACH ht True = ZEND_HASH_FOREACH ht False" by (simp add: ZEND_HASH_FOREACH_def)
  then show ?thesis using True foreach_elems by metis
next
  case False
  have "map fkey (filter (\<lambda>(h, key, v). v \<noteq> IS_UNDEF) (map (\<lambda>p. (b_h p, b_key p, deref sl (b_val p))) ds)) =
      deref_elems sl (data_elems ds)" for sl and ds :: "'a bucket list"
    by (induction ds) (simp_all add: data_elems_def live_def fkey_def bkey_def deref_def)
  then show ?thesis using False by (simp add: ZEND_HASH_FOREACH_def ht_elems_def)
qed

lemma deref_no_ind:
  assumes "no_ind es" and "\<forall>e \<in> set es. snd e \<noteq> IS_UNDEF"
  shows "deref_elems slots es = es"
proof -
  have "deref slots (snd e) = snd e" if "e \<in> set es" for e
    using assms(1) that by (auto simp: no_ind_def deref_def split: zval.splits)
  then have "map (\<lambda>(k, v). (k, deref slots v)) es = es" by (intro map_idI) (auto simp: split_def)
  then show ?thesis using assms(2) by (auto simp: deref_elems_def filter_id_conv)
qed

lemma ht_elems_defined: "e \<in> set (ht_elems ht) \<Longrightarrow> snd e \<noteq> IS_UNDEF"
  by (auto simp: lives_elems lives_def)

lemma foreach_ind_no_ind: "no_ind (ht_elems ht) \<Longrightarrow> map fkey (ZEND_HASH_FOREACH ht True) = ht_elems ht"
proof -
  assume n: "no_ind (ht_elems ht)"
  have "deref_elems (cvs ht) (ht_elems ht) = ht_elems ht"
    by (rule deref_no_ind [OF n]) (use ht_elems_defined in blast)
  then show ?thesis by (simp add: foreach_ind_elems)
qed

section \<open>Copies\<close>

lemma copy_loop_put: "hash_copy_loop ps t = put_list (map fkey ps) t"
proof (induction ps arbitrary: t)
  case (Cons p ps)
  obtain h key v where p: "p = (h, key, v)" by (cases p)
  show ?case
    by (cases key) (simp_all add: p Cons fkey_def hash_put_def run_bind_assoc split_def)
qed simp

lemma put_elems_closed:
  assumes "distinct (map fst es)" and "distinct (map fst xs)"
  shows "put_elems es xs = map (\<lambda>(k, v). (k, case map_of es k of Some w \<Rightarrow> w | None \<Rightarrow> v)) xs @
    filter (\<lambda>e. fst e \<notin> fst ` set xs) es"
  using assms
proof (induction es arbitrary: xs)
  case Nil
  then show ?case by (simp add: put_elems_def map_idI)
next
  case (Cons e es)
  obtain k v where e: "e = (k, v)" by (cases e)
  have k: "map_of es k = None" using Cons.prems(1) e by (simp add: map_of_eq_None_iff)
  have d: "distinct (map fst (AList.update k v xs))" by (rule distinct_update [OF Cons.prems(2)])
  have ih: "put_elems es (AList.update k v xs) =
      map (\<lambda>(k, v). (k, case map_of es k of Some w \<Rightarrow> w | None \<Rightarrow> v)) (AList.update k v xs) @
      filter (\<lambda>e. fst e \<notin> fst ` set (AList.update k v xs)) es"
    using Cons.IH [OF _ d] Cons.prems(1) by simp
  have keys: "fst ` set (AList.update k v xs) = insert k (fst ` set xs)" by (simp add: dom_update)
  have flt: "filter (\<lambda>e. fst e \<notin> insert k (fst ` set xs)) es = filter (\<lambda>e. fst e \<notin> fst ` set xs) es"
    using Cons.prems(1) e by (intro filter_cong) force+
  have step: "put_elems (e # es) xs = put_elems es (AList.update k v xs)" by (simp add: put_elems_def e)
  show ?case
  proof (cases "k \<in> fst ` set xs")
    case True
    then obtain w where "(k, w) \<in> set xs" by auto
    then obtain ys zs where x: "xs = ys @ (k, w) # zs" by (meson split_list)
    then have n: "k \<notin> fst ` set ys" "k \<notin> fst ` set zs" using Cons.prems(2) by auto
    have "AList.update k v xs = ys @ (k, v) # zs" unfolding x by (rule update_mid [OF n(1)])
    moreover have "map (\<lambda>(k', v'). (k', case map_of (e # es) k' of Some w \<Rightarrow> w | None \<Rightarrow> v')) us =
        map (\<lambda>(k', v'). (k', case map_of es k' of Some w \<Rightarrow> w | None \<Rightarrow> v')) us" if "k \<notin> fst ` set us" for us
      using that e by (intro map_cong) force+
    ultimately show ?thesis
      using step ih keys flt True n k unfolding x by (simp add: e)
  next
    case False
    then have "AList.update k v xs = xs @ [(k, v)]" by (rule update_new)
    moreover have "map (\<lambda>(k', v'). (k', case map_of (e # es) k' of Some w \<Rightarrow> w | None \<Rightarrow> v')) xs =
        map (\<lambda>(k', v'). (k', case map_of es k' of Some w \<Rightarrow> w | None \<Rightarrow> v')) xs"
      using False e by (intro map_cong) force+
    ultimately show ?thesis using step ih keys flt False k by (simp add: e)
  qed
qed

section \<open>Merging\<close>

text \<open>In a table without references to slots \<open>HASH_UPDATE_INDIRECT\<close> changes nothing.\<close>

lemma find_bucket_not_ind:
  assumes "hash_wf t" and "no_ind (ht_elems t)" and "zend_hash_find_bucket t key = Ret (Some i)"
  shows "b_val (arData t ! i) \<noteq> IS_INDIRECT k"
proof -
  have f: "find_pos (Str key) (arData t) = Some i" using find_bucket_eqs(1) [OF assms(1)] assms(3) by simp
  then have "arData t \<noteq> []" by (auto simp: find_pos_def)
  then have np: "\<not> flag_packed t" using assms(1) by (auto simp: hash_wf_def no_hash_def)
  note w = hash_wf_data [OF assms(1) np]
  note j = find_pos_Some [OF w(1) f]
  have "(bkey (arData t ! i), b_val (arData t ! i)) \<in> set (ht_elems t)"
    unfolding w(3) data_elems_split [OF j(1,2)] by simp
  then show ?thesis using assms(2) by (force simp: no_ind_def)
qed

lemma add_to_hash_flags: "new_val v fl = new_val v fl' \<Longrightarrow> add_to_hash ht key h v fl = add_to_hash ht key h v fl'"
  by (simp add: add_to_hash_def)

lemma update_indirect_same:
  assumes "hash_wf t" and "no_ind (ht_elems t)" and "f = HASH_UPDATE \<or> f = HASH_ADD"
  shows "zend_hash_add_or_update_i t key v [f, HASH_UPDATE_INDIRECT] = zend_hash_add_or_update_i t key v [f]"
proof -
  have n: "new_val v [f, HASH_UPDATE_INDIRECT] = new_val v [f]" using assms(3) by (auto simp: new_val_def)
  have u: "update_found t i v [f, HASH_UPDATE_INDIRECT] = update_found t i v [f]"
    if "zend_hash_find_bucket t key = Ret (Some i)" for i
    using find_bucket_not_ind [OF assms(1,2) that] assms(3)
    by (cases "b_val (arData t ! i)") (auto simp: update_found_def)
  obtain p where p: "zend_hash_find_bucket t key = Ret p" using find_bucket_eqs(1) [OF assms(1)] by blast
  show ?thesis
    using u assms(3) unfolding zend_hash_add_or_update_i_def add_to_hash_flags [OF n]
    by (cases p) (auto simp: p Let_def)
qed

definition merge_elem :: "bool \<Rightarrow> hkey \<times> 'v zval \<Rightarrow> (hkey \<times> 'v zval) list \<Rightarrow> (hkey \<times> 'v zval) list" where
  "merge_elem overwrite e xs =
     (if overwrite \<or> fst e \<notin> fst ` set xs then AList.update (fst e) (snd e) xs else xs)"

lemma merge_one:
  assumes "hash_wf t" and "no_ind (ht_elems t)" and "nTableSize t < HT_MAX_SIZE" and "v \<noteq> IS_UNDEF"
    and "size_bound N t" and "4 * length (ht_elems t) + 4 \<le> N"
  obtains t' q where "(case key of
             Some key \<Rightarrow> zend_hash_add_or_update_i t key v [if ov then HASH_UPDATE else HASH_ADD, HASH_UPDATE_INDIRECT]
           | None \<Rightarrow> if ov then zend_hash_index_update t h v else zend_hash_index_add t h v) = Ret (t', q)"
    "hash_wf t'" "ht_elems t' = merge_elem ov (fkey (h, key, v)) (ht_elems t)" "size_bound N t'"
proof -
  let ?r = "case key of
             Some key \<Rightarrow> zend_hash_add_or_update_i t key v [if ov then HASH_UPDATE else HASH_ADD, HASH_UPDATE_INDIRECT]
           | None \<Rightarrow> if ov then zend_hash_index_update t h v else zend_hash_index_add t h v"
  have n: "nNumOfElements t = length (ht_elems t)" "flag_packed t \<longrightarrow> \<not> flag_uninit t"
    using assms(1) by (auto simp: hash_wf_def)
  have sz: "size_bound N t'" if "?r = Ret (t', q)" for t' q
    using that update_size [of t _ v _ t' q N] index_update_size [of t _ v _ t' q N] n assms(5,6)
    by (cases key) (auto simp: zend_hash_index_update_def zend_hash_index_add_def split: if_splits)
  define k where "k = fst (fkey (h, key, v))"
  have "?r = (case key of Some key \<Rightarrow> if ov then zend_hash_update t key v else zend_hash_add t key v
      | None \<Rightarrow> if ov then zend_hash_index_update t h v else zend_hash_index_add t h v)"
    using update_indirect_same [OF assms(1,2)]
    by (cases key) (auto simp: zend_hash_update_def zend_hash_add_def)
  then have r: "?r = (case k of Str s \<Rightarrow> if ov then zend_hash_update t s v else zend_hash_add t s v
      | Idx h \<Rightarrow> if ov then zend_hash_index_update t h v else zend_hash_index_add t h v)"
    by (cases key) (simp_all add: k_def fkey_def)
  show thesis
  proof (cases "ov \<or> k \<notin> fst ` set (ht_elems t)")
    case True
    then have m: "ov \<or> map_of (ht_elems t) k = None" by (simp add: map_of_eq_None_iff)
    have "updated t k v ?r"
    proof (cases k)
      case (Idx x)
      then show ?thesis
        using m zend_hash_index_update_updated [OF assms(1,3,4), of x] zend_hash_index_add_cases [OF assms(1,3,4), of x]
        unfolding r by auto
    next
      case (Str x)
      then show ?thesis
        using m zend_hash_update_updated [OF assms(1,3,4), of x] zend_hash_add_cases [OF assms(1,3,4), of x]
        unfolding r by auto
    qed
    then obtain t' i where "?r = Ret (t', Some (Elem i))" "hash_wf t'" "ht_elems t' = AList.update k v (ht_elems t)"
      by (auto simp: updated_def)
    then show ?thesis
      using that sz True by (auto simp: merge_elem_def k_def fkey_def)
  next
    case False
    then obtain w where m: "map_of (ht_elems t) k = Some w" "\<not> ov" by (metis map_of_eq_None_iff option.exhaust)
    then have "?r = Ret (t, None)"
      using zend_hash_add_cases [OF assms(1,3,4), of "case k of Str x \<Rightarrow> x"]
        zend_hash_index_add_cases [OF assms(1,3,4), of "case k of Idx x \<Rightarrow> x"]
      unfolding r by (cases k) auto
    then show ?thesis using that assms(1) sz False by (auto simp: merge_elem_def k_def)
  qed
qed

lemma no_ind_merge: "no_ind xs \<Longrightarrow> no_ind [e] \<Longrightarrow> no_ind (merge_elem ov e xs)"
proof -
  assume a: "no_ind xs" "no_ind [e]"
  have "set (AList.update (fst e) (snd e) xs) \<subseteq> insert e (set xs)" by (induction xs) auto
  then show ?thesis using a by (auto simp: merge_elem_def no_ind_def)
qed

lemma merge_elem_length: "length (merge_elem ov e xs) \<le> Suc (length xs)"
  using update_length [of "fst e" "snd e" xs] by (simp add: merge_elem_def)

lemma merge_loop_ok:
  assumes "hash_wf t" and "no_ind (ht_elems t)" and "size_bound N t" and "4 * (length (ht_elems t) + length ps) \<le> N"
    and "2 * N < HT_MAX_SIZE" and "\<forall>e \<in> set (map fkey ps). snd e \<noteq> IS_UNDEF" and "no_ind (map fkey ps)"
  shows "\<exists>t'. merge_loop ov ps t = Ret t' \<and> hash_wf t' \<and> ht_elems t' = fold (merge_elem ov) (map fkey ps) (ht_elems t)"
  using assms
proof (induction ps arbitrary: t)
  case (Cons p ps)
  obtain h key v where p: "p = (h, key, v)" by (cases p)
  have room: "nTableSize t < HT_MAX_SIZE" using Cons.prems(3,5) by (auto simp: size_bound_def split: if_splits)
  have v: "v \<noteq> IS_UNDEF" using Cons.prems(6) by (simp add: p fkey_def)
  obtain t1 q where t1: "(case key of
             Some key \<Rightarrow> zend_hash_add_or_update_i t key v [if ov then HASH_UPDATE else HASH_ADD, HASH_UPDATE_INDIRECT]
           | None \<Rightarrow> if ov then zend_hash_index_update t h v else zend_hash_index_add t h v) = Ret (t1, q)"
    "hash_wf t1" "ht_elems t1 = merge_elem ov (fkey p) (ht_elems t)" "size_bound N t1"
    using merge_one [OF Cons.prems(1,2) room v Cons.prems(3), where key = key and ov = ov and h = h] Cons.prems(4) unfolding p by auto
  have ni: "no_ind (ht_elems t1)" "no_ind (map fkey ps)"
    using Cons.prems(2,7) no_ind_merge [of "ht_elems t" "fkey p" ov] by (auto simp: t1(3) no_ind_def)
  have l: "4 * (length (ht_elems t1) + length ps) \<le> N"
    using merge_elem_length [of ov "fkey p" "ht_elems t"] Cons.prems(4) by (simp add: t1(3))
  have "\<forall>e \<in> set (map fkey ps). snd e \<noteq> IS_UNDEF" using Cons.prems(6) by simp
  then obtain t' where "merge_loop ov ps t1 = Ret t'" "hash_wf t'" "ht_elems t' = fold (merge_elem ov) (map fkey ps) (ht_elems t1)"
    using Cons.IH [OF t1(2) ni(1) t1(4) l Cons.prems(5) _ ni(2)] by blast
  then show ?case using t1(1,3) by (simp add: p)
qed simp

lemma merge_elems_put: "fold (merge_elem True) es xs = put_elems es xs"
  by (induction es arbitrary: xs) (simp_all add: put_elems_def merge_elem_def split_def)

lemma merge_elems_add:
  "distinct (map fst es) \<Longrightarrow> fold (merge_elem False) es xs = xs @ filter (\<lambda>e. fst e \<notin> fst ` set xs) es"
proof (induction es arbitrary: xs)
  case (Cons e es)
  have "merge_elem False e xs = (if fst e \<in> fst ` set xs then xs else xs @ [e])"
    using update_new [of "fst e" xs "snd e"] by (simp add: merge_elem_def)
  moreover have "filter (\<lambda>e'. fst e' \<notin> insert (fst e) (fst ` set xs)) es = filter (\<lambda>e'. fst e' \<notin> fst ` set xs) es"
    using Cons.prems by (intro filter_cong) (auto simp: image_iff)
  ultimately show ?case using Cons by (simp add: Un_commute)
qed simp

section \<open>Duplicates\<close>

lemma dup_value_eq:
  "zend_array_dup_value slots False with_holes v =
     (if deref slots v = IS_UNDEF \<and> (with_holes \<or> v \<noteq> IS_UNDEF) then None else Some (deref slots v))"
  by (cases v) (auto simp: zend_array_dup_value_def deref_def Let_def)

lemma dup_loop_chains:
  assumes "chains m hs ds" and "\<forall>h. ht_slot m h < length hs" and "\<forall>b \<in> set ds. live b \<and> key_ok b"
    and "\<forall>b \<in> set ps. live b \<longrightarrow> key_ok b" and "with_holes \<or> (\<forall>b \<in> set ps. live b)"
  shows "\<exists>hs' ds' ip'. dup_loop slots with_holes sip m ps idx hs ds ip = Some (hs', ds', ip') \<and> chains m hs' ds' \<and>
    length hs' = length hs \<and> (\<forall>b \<in> set ds'. live b \<and> key_ok b) \<and> length ds' \<le> length ds + length ps \<and>
    data_elems ds' = data_elems ds @ deref_elems slots (data_elems ps)"
  using assms
proof (induction ps arbitrary: idx hs ds ip)
  case (Cons p ps)
  have pl: "with_holes \<or> live p" using Cons.prems(5) by auto
  show ?case
  proof (cases "deref slots (b_val p) = IS_UNDEF")
    case True
    then have "zend_array_dup_value slots False with_holes (b_val p) = None"
      using pl by (auto simp: dup_value_eq live_def)
    moreover have "deref_elems slots (data_elems (p # ps)) = deref_elems slots (data_elems ps)"
      using True by (simp add: data_elems_def)
    ultimately show ?thesis using Cons.IH [OF Cons.prems(1-3), of "Suc idx" ip] Cons.prems(4,5) by fastforce
  next
    case False
    then have lp: "live p" by (auto simp: live_def deref_def)
    define c where "c = ht_slot m (b_h p)"
    have c: "c < length hs" using Cons.prems(2) by (simp add: c_def)
    define q where "q = \<lparr>b_val = deref slots (b_val p), b_next = hs ! c, b_h = b_h p, b_key = b_key p\<rparr>"
    define ip' where "ip' = (if length ds < idx \<and> sip = idx then length ds else ip)"
    have q: "live q" "key_ok q" using False lp Cons.prems(4) by (simp_all add: q_def live_def key_ok_def)
    have ch: "chains m (hs[c := length ds]) (ds @ [q])"
      using chains_append [OF Cons.prems(1), of q] q(1) Cons.prems(2) by (simp add: q_def c_def)
    have e: "dup_loop slots with_holes sip m (p # ps) idx hs ds ip =
        dup_loop slots with_holes sip m ps (Suc idx) (hs[c := length ds]) (ds @ [q]) ip'"
      using False c by (simp add: dup_value_eq Let_def c_def [symmetric] q_def [symmetric] ip'_def)
    have el: "data_elems (ds @ [q]) @ deref_elems slots (data_elems ps) = data_elems ds @ deref_elems slots (data_elems (p # ps))"
      using False lp q(1) by (auto simp: data_elems_def bkey_def q_def split: option.splits)
    have "\<exists>hs' ds' ip2. dup_loop slots with_holes sip m ps (Suc idx) (hs[c := length ds]) (ds @ [q]) ip' = Some (hs', ds', ip2) \<and>
        chains m hs' ds' \<and> length hs' = length (hs[c := length ds]) \<and> (\<forall>b \<in> set ds'. live b \<and> key_ok b) \<and>
        length ds' \<le> length (ds @ [q]) + length ps \<and> data_elems ds' = data_elems (ds @ [q]) @ deref_elems slots (data_elems ps)"
      by (rule Cons.IH [OF ch]) (use Cons.prems q in auto)
    then show ?thesis unfolding e el by auto
  qed
qed simp

lemma dup_packed_elements: "zend_array_dup_packed_elements s w = arPacked s"
  unfolding zend_array_dup_packed_elements_def
  by (rule map_idI) (simp add: zend_array_dup_value_def Let_def)

definition dup_of :: "bool \<Rightarrow> 'v HashTable \<Rightarrow> 'v HashTable \<Rightarrow> bool" where
  "dup_of imm s t \<longleftrightarrow> hash_wf t \<and>
     ht_elems t = (if imm \<or> flag_packed s then ht_elems s else deref_elems (cvs s) (ht_elems s)) \<and>
     nNextFreeElement t = nNextFreeElement s \<and> dtor_calls t = []"

lemma hash_wf_frame [simp]:
  "hash_wf (s\<lparr>pDestructor := d, dtor_calls := c, ht_iterators := i\<rparr>) = hash_wf s"
  "ht_elems (s\<lparr>pDestructor := d, dtor_calls := c, ht_iterators := i\<rparr>) = ht_elems s"
  by (simp_all add: hash_wf_def no_hash_def mixed_wf_def ht_elems_def)

lemma zend_array_dup_ok:
  assumes "hash_wf s"
  shows "\<exists>t. zend_array_dup imm s = Ret t \<and> dup_of imm s t"
proof -
  have w: "nNumOfElements s = length (ht_elems s)" "size_ok (nTableSize s)"
    "ZEND_LONG_MIN \<le> nNextFreeElement s" "nNextFreeElement s \<le> ZEND_LONG_MAX" using assms by (simp_all add: hash_wf_def)
  consider "nNumOfElements s = 0" | "nNumOfElements s > 0" "imm" | "nNumOfElements s > 0" "\<not> imm" "flag_packed s"
    | "nNumOfElements s > 0" "\<not> imm" "\<not> flag_packed s" by auto
  then show ?thesis
  proof cases
    case 1
    then have "ht_elems s = []" using w(1) by simp
    then show ?thesis
      using 1 w
      by (auto simp: zend_array_dup_def Let_def dup_of_def hash_wf_def no_hash_def size_ok_8 ht_elems_def split: if_splits)
  next
    case 2
    then show ?thesis using assms by (simp add: zend_array_dup_def Let_def dup_of_def)
  next
    case 3
    then show ?thesis
      using assms
      by (simp add: zend_array_dup_def Let_def dup_of_def hash_wf_def no_hash_def ht_elems_def dup_packed_elements)
  next
    case 4
    have u: "in_use s" using assms 4 w(1) by (auto simp: in_use_def hash_wf_def no_hash_def ht_elems_def split: if_splits)
    then have m: "mixed_wf s" "\<not> flag_uninit s" using 4 by (auto simp: in_use_def hash_wf_def)
    let ?hs = "HT_HASH_RESET (nTableMask s)" and ?w = "nNumUsed s \<noteq> nNumOfElements s"
    let ?ip = "if nInternalPointer s < nNumUsed s then nInternalPointer s else 0"
    have mask: "nTableMask s = HT_SIZE_TO_MASK (nTableSize s)" using m(1) by (simp add: mixed_wf_def)
    have slot: "\<forall>h. ht_slot (nTableMask s) h < length ?hs" and lh: "length ?hs = 2 * nTableSize s"
      using size_mask [OF w(2)] by (simp_all add: mask HT_HASH_RESET_def)
    have el: "ht_elems s = data_elems (arData s)" using 4 by (simp add: ht_elems_def)
    have lv: "?w \<or> (\<forall>b \<in> set (arData s). live b)"
    proof (rule disjCI)
      assume "\<not> (\<forall>b \<in> set (arData s). live b)"
      then have "length (filter live (arData s)) < length (arData s)" by (auto intro: length_filter_less)
      then show ?w using w(1) 4 by (simp add: el data_elems_def nNumUsed_def)
    qed
    obtain hs ds ip where d: "dup_loop (cvs s) ?w (nInternalPointer s) (nTableMask s) (arData s) 0 ?hs [] ?ip = Some (hs, ds, ip)"
      "chains (nTableMask s) hs ds" "length hs = length ?hs" "\<forall>b \<in> set ds. live b \<and> key_ok b"
      "length ds \<le> length (arData s)" "data_elems ds = deref_elems (cvs s) (data_elems (arData s))"
      using dup_loop_chains [OF chains_empty slot _ _ lv, of "cvs s" "nInternalPointer s" 0 ?ip] m(1)
      by (auto simp: mixed_wf_def)
    have dk: "distinct (map fst (data_elems ds))"
      unfolding d(6) deref_elems_def using m(1)
      by (auto simp: mixed_wf_def split_def o_def intro!: distinct_map_filter)
    have "length (data_elems ds) = length ds" using d(4) by (simp add: data_elems_def filter_id_conv)
    then show ?thesis
      using 4 d dk m w lh mask u
      by (simp add: zend_array_dup_def Let_def dup_of_def hash_wf_def mixed_wf_def ht_elems_def el)
  qed
qed

section \<open>Conversions\<close>

lemma check_size_small:
  assumes "n \<le> 2 ^ 26"
  obtains ts where "zend_hash_check_size (word_of_nat n) = Ret ts" "size_ok ts" "ts \<le> 2 ^ 28"
proof -
  have u: "unat (word_of_nat n :: 32 word) = n" using assms by (simp add: unsigned_of_nat take_bit_nat_eq_self)
  show thesis
  proof (cases "n \<le> HT_MIN_SIZE")
    case True
    then show ?thesis using u by (intro that [of 8]) (simp_all add: zend_hash_check_size_def size_ok_8)
  next
    case False
    then have a: "HT_MIN_SIZE < unat (word_of_nat n :: 32 word)" "unat (word_of_nat n :: 32 word) < HT_MAX_SIZE"
      using u assms by simp_all
    obtain k where k: "zend_hash_check_size (word_of_nat n) = Ret (2 ^ Suc k)" "3 \<le> Suc k" "Suc k \<le> 30" "2 ^ k < n"
      using check_size_exp [OF a] unfolding u by metis
    have "size_ok (2 ^ Suc k)" using k(2,3) unfolding size_ok_def by blast
    moreover have "(2 :: nat) ^ Suc k \<le> 2 ^ 28" using k(4) assms by simp
    ultimately show ?thesis using that k(1) by blast
  qed
qed

lemma new_array_ok:
  assumes "n \<le> 2 ^ 26"
  obtains t where "zend_new_array slots (word_of_nat n) = Ret t" "hash_wf t" "ht_elems t = []" "size_bound (2 ^ 28) t"
proof -
  obtain ts where ts: "zend_hash_check_size (word_of_nat n) = Ret ts" "size_ok ts" "ts \<le> 2 ^ 28"
    by (rule check_size_small [OF assms])
  then show thesis
    by (intro that)
      (auto simp: zend_new_array_def zend_hash_init_int_def hash_wf_def no_hash_def ht_elems_def size_bound_def)
qed

definition key_text :: "hkey \<Rightarrow> string" where
  "key_text k = (case k of Idx h \<Rightarrow> zend_long_to_str h | Str s \<Rightarrow> s)"

definition is_symtable :: "(hkey \<times> 'v zval) list \<Rightarrow> bool" where
  "is_symtable es \<longleftrightarrow> (\<forall>s. Str s \<in> fst ` set es \<longrightarrow> (\<forall>i. s \<noteq> zend_long_to_str i))"

definition prop_elems :: "(hkey \<times> 'v zval) list \<Rightarrow> (hkey \<times> 'v zval) list" where
  "prop_elems es = map (\<lambda>(k, v). (Str (key_text k), v)) es"

lemma norm_text:
  assumes "is_symtable es" and "k \<in> fst ` set es"
  shows "norm_key (key_text k) = k"
proof (cases k)
  case (Idx h)
  then show ?thesis by (simp add: key_text_def norm_key_idx)
next
  case (Str s)
  then have "s \<noteq> zend_long_to_str i" for i using assms by (auto simp: is_symtable_def)
  then show ?thesis using Str by (cases s rule: norm_key_cases) (auto simp: key_text_def)
qed

lemma put_elems_Nil: "distinct (map fst es) \<Longrightarrow> put_elems es [] = es"
  using put_elems_closed [of es "[]"] by simp

lemma prop_elems_distinct:
  assumes "is_symtable es" and "distinct (map fst es)"
  shows "distinct (map fst (prop_elems es))"
proof -
  have "inj_on (\<lambda>k. Str (key_text k)) (fst ` set es)"
    using norm_text [OF assms(1)] by (intro inj_on_inverseI [of _ "\<lambda>k. norm_key (case k of Str s \<Rightarrow> s)"]) simp
  moreover have "map fst (prop_elems es) = map (\<lambda>k. Str (key_text k)) (map fst es)"
    by (simp add: prop_elems_def split_def)
  ultimately show ?thesis using assms(2) by (simp only: distinct_map set_map)
qed

lemma prop_loop_put: "prop_loop ps t = put_list (prop_elems (map fkey ps)) t"
proof (induction ps arbitrary: t)
  case (Cons p ps)
  obtain h key v where p: "p = (h, key, v)" by (cases p)
  show ?case
    by (cases key) (simp_all add: p Cons fkey_def hash_put_def run_bind_assoc split_def prop_elems_def key_text_def)
qed (simp add: prop_elems_def)

lemma sym_loop_put: "sym_loop ps t = put_list (map (\<lambda>(k, v). (case k of Str s \<Rightarrow> norm_key s | Idx h \<Rightarrow> Idx h, v)) (map fkey ps)) t"
proof (induction ps arbitrary: t)
  case (Cons p ps)
  obtain h key v where p: "p = (h, key, v)" by (cases p)
  show ?case
  proof (cases key)
    case None
    then show ?thesis by (simp add: p Cons fkey_def hash_put_def run_bind_assoc split_def)
  next
    case (Some k)
    then show ?thesis
      by (cases k rule: norm_key_cases)
        (simp_all add: p Cons fkey_def hash_put_def run_bind_assoc split_def by_key_def)
  qed
qed simp

lemma any_numeric_eq: "any_numeric ps = Ret (\<exists>s \<in> fst ` set (map fkey ps). \<exists>i. s = Str (zend_long_to_str i))"
proof (induction ps)
  case (Cons p ps)
  obtain h key v where p: "p = (h, key, v)" by (cases p)
  show ?case
  proof (cases key)
    case None
    then show ?thesis using Cons by (simp add: p fkey_def)
  next
    case (Some k)
    then show ?thesis using Cons by (cases k rule: norm_key_cases) (auto simp: p fkey_def)
  qed
qed simp

lemma to_proptable_ok:
  assumes "hash_wf ht" and "is_symtable (ht_elems ht)" and "length (ht_elems ht) \<le> 2 ^ 26"
  obtains h where "zend_symtable_to_proptable ht = Ret h" "hash_wf h" "ht_elems h = prop_elems (ht_elems ht)"
proof (cases "\<not> flag_packed ht \<and> list_all (\<lambda>(h, str_key, v). str_key \<noteq> None) (ZEND_HASH_FOREACH ht False)")
  case True
  then have str: "\<exists>s. fst e = Str s" if "e \<in> set (ht_elems ht)" for e
    using that unfolding foreach_elems [symmetric] by (force simp: fkey_def list_all_iff)
  have "prop_elems (ht_elems ht) = ht_elems ht"
    unfolding prop_elems_def
  proof (rule map_idI)
    fix e assume "e \<in> set (ht_elems ht)"
    from str [OF this] obtain s v where "e = (Str s, v)" by (cases e) auto
    then show "(case e of (k, v) \<Rightarrow> (Str (key_text k), v)) = e" by (simp add: key_text_def)
  qed
  then show ?thesis using True assms(1) by (intro that [of ht]) (simp_all add: zend_symtable_to_proptable_def)
next
  case False
  obtain t where t: "zend_new_array (cvs ht) (word_of_nat (length (ht_elems ht))) = Ret t" "hash_wf t" "ht_elems t = []"
    "size_bound (2 ^ 28) t" by (rule new_array_ok [OF assms(3)])
  have "\<exists>ht'. put_list (prop_elems (ht_elems ht)) t = Ret ht' \<and> hash_wf ht' \<and>
      ht_elems ht' = put_elems (prop_elems (ht_elems ht)) (ht_elems t) \<and> size_bound (2 ^ 28) ht'"
    by (rule put_list_ok [OF t(2,4)])
      (use assms(3) t(3) in \<open>auto simp: prop_elems_def dest: ht_elems_defined\<close>)
  moreover have "nNumOfElements ht = length (ht_elems ht)" using assms(1) by (simp add: hash_wf_def)
  ultimately show ?thesis
    using False t that put_elems_Nil [OF prop_elems_distinct [OF assms(2) hash_wf_keys [OF assms(1)]]]
    by (auto simp: zend_symtable_to_proptable_def prop_loop_put foreach_elems)
qed

lemma to_symtable_ok:
  assumes "hash_wf h" and "ht_elems h = prop_elems es" and "no_ind es" and "is_symtable es" and "distinct (map fst es)"
    and "length es \<le> 2 ^ 26"
  obtains h' where "zend_proptable_to_symtable imm h dup = Ret h'" "hash_wf h'" "ht_elems h' = es"
proof -
  have ni: "no_ind (ht_elems h)" using assms(3) by (auto simp: assms(2) prop_elems_def no_ind_def)
  have np: "\<not> flag_packed h" if ne: "es \<noteq> []"
  proof
    assume "flag_packed h"
    then have no_str: "Str s \<notin> fst ` set (ht_elems h)" for s
      using hash_wf_packed(2) [OF assms(1)] string_not_packed by metis
    obtain k v es' where "es = (k, v) # es'" using ne by (cases es) auto
    then show False using no_str [of "key_text k"] by (simp add: assms(2) prop_elems_def)
  qed
  have conv: "any_numeric (ZEND_HASH_FOREACH h False) = Ret (\<exists>i. Idx i \<in> fst ` set es)"
  proof -
    have "(\<exists>s \<in> fst ` set (ht_elems h). \<exists>i. s = Str (zend_long_to_str i)) \<longleftrightarrow> (\<exists>i. Idx i \<in> fst ` set es)"
    proof
      assume "\<exists>s \<in> fst ` set (ht_elems h). \<exists>i. s = Str (zend_long_to_str i)"
      then obtain k v i where k: "(k, v) \<in> set es" "key_text k = zend_long_to_str i"
        by (auto simp: assms(2) prop_elems_def)
      then have "k = Idx i" using norm_text [OF assms(4), of k] norm_key_idx by force
      then show "\<exists>i. Idx i \<in> fst ` set es" using k(1) by force
    next
      assume "\<exists>i. Idx i \<in> fst ` set es"
      then obtain i v where "(Idx i, v) \<in> set es" by auto
      then have "(Str (zend_long_to_str i), v) \<in> set (ht_elems h)"
        by (force simp: assms(2) prop_elems_def key_text_def)
      then show "\<exists>s \<in> fst ` set (ht_elems h). \<exists>i. s = Str (zend_long_to_str i)" by force
    qed
    then show ?thesis unfolding any_numeric_eq foreach_elems by simp
  qed
  show thesis
  proof (cases "\<exists>i. Idx i \<in> fst ` set es")
    case True
    obtain t where t: "zend_new_array (cvs h) (word_of_nat (length es)) = Ret t" "hash_wf t" "ht_elems t = []"
      "size_bound (2 ^ 28) t" by (rule new_array_ok [OF assms(6)])
    have norm_back: "map (\<lambda>(k, v). (case k of Str s \<Rightarrow> norm_key s | Idx h \<Rightarrow> Idx h, v)) (prop_elems es) = es"
      using norm_text [OF assms(4)] unfolding prop_elems_def map_map by (intro map_idI) force
    have "\<exists>ht'. put_list es t = Ret ht' \<and> hash_wf ht' \<and> ht_elems ht' = put_elems es (ht_elems t) \<and> size_bound (2 ^ 28) ht'"
    proof (rule put_list_ok [OF t(2,4)])
      show "\<forall>e \<in> set es. snd e \<noteq> IS_UNDEF"
        using ht_elems_defined [of _ h] by (force simp: assms(2) prop_elems_def)
    qed (use assms(6) t(3) in simp_all)
    moreover have "nNumOfElements h = length es" using assms(1,2) by (simp add: hash_wf_def prop_elems_def)
    moreover have "\<not> flag_packed h" by (rule np) (use True in auto)
    ultimately show ?thesis
      using that True t put_elems_Nil [OF assms(5)]
      by (auto simp: zend_proptable_to_symtable_def conv sym_loop_put foreach_ind_no_ind [OF ni] assms(2) norm_back)
  next
    case False
    then have e: "ht_elems h = es"
      unfolding assms(2) prop_elems_def by (intro map_idI) (force simp: key_text_def split: hkey.split)
    have same: "deref_elems (cvs h) (ht_elems h) = ht_elems h"
      using deref_no_ind [OF ni] ht_elems_defined by blast
    obtain t where "zend_array_dup imm h = Ret t" "hash_wf t" "ht_elems t = es"
      using zend_array_dup_ok [OF assms(1), of imm] same e by (auto simp: dup_of_def)
    then show ?thesis
      using that [of "if dup then t else h"] False conv assms(1) e by (auto simp: zend_proptable_to_symtable_def)
  qed
qed

section \<open>Properties\<close>

text \<open>Copying and merging tables: every element of the source ends up in the target. \<open>zend_hash_copy\<close> and the
  overwriting \<open>zend_hash_merge\<close> replace the values of keys both tables have, in place; the other merge, PHP's
  array union, keeps them; the keys that are new come behind those of the target, in the order of the source.
  With up to \<open>2 ^ 26\<close> elements the table never outgrows its maximal size on the way.\<close>

theorem zend_hash_merge_correct:
  assumes "hash_wf target" and "hash_wf source" and "no_ind (ht_elems target)" and "no_ind (ht_elems source)"
    and "nTableSize target \<le> 2 ^ 28" and "length (ht_elems target) + length (ht_elems source) \<le> 2 ^ 26"
  defines "replaced \<equiv> map (\<lambda>(k, v). (k, case map_of (ht_elems source) k of Some w \<Rightarrow> w | None \<Rightarrow> v)) (ht_elems target)"
    and "added \<equiv> filter (\<lambda>e. fst e \<notin> fst ` set (ht_elems target)) (ht_elems source)"
  shows "(\<exists>ht'. zend_hash_copy target source = Ret ht' \<and> hash_wf ht' \<and> ht_elems ht' = replaced @ added) \<and>
    (\<exists>ht'. zend_hash_merge target source True = Ret ht' \<and> hash_wf ht' \<and> ht_elems ht' = replaced @ added) \<and>
    (\<exists>ht'. zend_hash_merge target source False = Ret ht' \<and> hash_wf ht' \<and> ht_elems ht' = ht_elems target @ added)"
proof -
  let ?ps = "ZEND_HASH_FOREACH source True"
  note d = hash_wf_keys [OF assms(1)] hash_wf_keys [OF assms(2)]
  have es: "map fkey ?ps = ht_elems source" by (rule foreach_ind_no_ind [OF assms(4)])
  have l: "length ?ps = length (ht_elems source)" using es by (metis length_map)
  have sb: "size_bound (2 ^ 28) target" using assms(5) by (simp add: size_bound_def)
  have ud: "\<forall>e \<in> set (ht_elems source). snd e \<noteq> IS_UNDEF" using ht_elems_defined by blast
  have "\<exists>ht'. put_list (ht_elems source) target = Ret ht' \<and> hash_wf ht' \<and>
      ht_elems ht' = put_elems (ht_elems source) (ht_elems target) \<and> size_bound (2 ^ 28) ht'"
    by (rule put_list_ok [OF assms(1) sb _ _ ud]) (use assms(6) in simp_all)
  then have c: "\<exists>ht'. zend_hash_copy target source = Ret ht' \<and> hash_wf ht' \<and> ht_elems ht' = replaced @ added"
    using put_elems_closed [OF d(2,1)] by (auto simp: zend_hash_copy_def copy_loop_put es replaced_def added_def)
  have "\<exists>ht'. merge_loop ov ?ps target = Ret ht' \<and> hash_wf ht' \<and>
      ht_elems ht' = fold (merge_elem ov) (ht_elems source) (ht_elems target)" for ov
    unfolding es [symmetric]
    by (rule merge_loop_ok [OF assms(1,3) sb]) (use assms(4,6) l es ud in simp_all)
  from this [of True] this [of False] show ?thesis
    using c put_elems_closed [OF d(2,1)] merge_elems_add [OF d(2), of "ht_elems target"]
    by (simp add: zend_hash_merge_def merge_elems_put replaced_def added_def)
qed

theorem zend_hash_merge_correct_witness:
  "hash_wf pair_table \<and> hash_wf fresh_table \<and>
    (\<exists>ht'. zend_hash_merge fresh_table pair_table False = Ret ht' \<and> hash_wf ht' \<and>
      ht_elems ht' = [(Idx 0, IS_VALUE 7), (Idx 1, IS_VALUE 9)])"
  using zend_hash_merge_correct [of fresh_table pair_table]
  by (simp add: pair_table_wf fresh_table_wf no_ind_def)



text \<open>Converting an array to a property table and back, as the casts to object and to array do, gives the
  same elements in the same order: integer keys become their decimal strings and these become the integers
  again.\<close>

theorem zend_proptable_roundtrip:
  assumes "hash_wf ht" and "no_ind (ht_elems ht)" and "length (ht_elems ht) \<le> 2 ^ 26"
    and "\<And>s i. Str s \<in> fst ` set (ht_elems ht) \<Longrightarrow> s \<noteq> zend_long_to_str i"
  shows "\<exists>props sym. zend_symtable_to_proptable ht = Ret props \<and> hash_wf props \<and>
    ht_elems props = map (\<lambda>(k, v). (Str (case k of Idx h \<Rightarrow> zend_long_to_str h | Str s \<Rightarrow> s), v)) (ht_elems ht) \<and>
    zend_proptable_to_symtable immutable props always_duplicate = Ret sym \<and> hash_wf sym \<and> ht_elems sym = ht_elems ht"
proof -
  have s: "is_symtable (ht_elems ht)" using assms(4) by (auto simp: is_symtable_def)
  obtain h where h: "zend_symtable_to_proptable ht = Ret h" "hash_wf h" "ht_elems h = prop_elems (ht_elems ht)"
    by (rule to_proptable_ok [OF assms(1) s assms(3)])
  obtain h' where "zend_proptable_to_symtable immutable h always_duplicate = Ret h'" "hash_wf h'" "ht_elems h' = ht_elems ht"
    by (rule to_symtable_ok [OF h(2,3) assms(2) s hash_wf_keys [OF assms(1)] assms(3)])
  then show ?thesis using h by (auto simp: prop_elems_def key_text_def)
qed

theorem zend_proptable_roundtrip_witness:
  "hash_wf pair_table \<and> (\<exists>props sym. zend_symtable_to_proptable pair_table = Ret props \<and>
    map fst (ht_elems props) = [Str (zend_long_to_str 0), Str (zend_long_to_str 1)] \<and>
    zend_proptable_to_symtable False props True = Ret sym \<and> ht_elems sym = [(Idx 0, IS_VALUE 7), (Idx 1, IS_VALUE 9)])"
  using zend_proptable_roundtrip [of pair_table False True] by (auto simp: pair_table_wf no_ind_def)

end
