(* ===== verification/Zend_Hash_Sort.thy ===== *)
theory Zend_Hash_Sort
  imports Zend_Hash_Map Zend_Sort
begin

text \<open>
  Sorting a hash table, \<open>zend_hash_sort\<close> and its relatives of \<open>Zend/zend_hash.c\<close>, together with the
  comparison wrapper of \<open>ext/standard/array.c\<close> that makes every PHP array sort stable. The sort function
  is an argument, as in the code; what the table needs of it is the locale \<open>array_sort\<close>, interpreted for
  \<open>zend_sort\<close> and \<open>zend_insert_sort\<close>.
\<close>

section \<open>The operations\<close>

text \<open>\<open>Z_EXTRA\<close> and \<open>Z_NEXT\<close> are one field, so storing the original order overwrites the chains.\<close>

primrec store_order :: "'v bucket list \<Rightarrow> nat \<Rightarrow> 'v bucket list" where
  "store_order [] i = []"
| "store_order (p # ds) i = p\<lparr>b_next := i\<rparr> # store_order ds (Suc i)"

text \<open>The loop for a table with holes, which also moves the buckets together.\<close>

primrec drop_holes :: "'v bucket list \<Rightarrow> nat \<Rightarrow> 'v bucket list" where
  "drop_holes [] i = []"
| "drop_holes (p # ds) i =
     (if b_val p = IS_UNDEF then drop_holes ds i else p\<lparr>b_next := i\<rparr> # drop_holes ds (Suc i))"

primrec renumber_loop :: "'v bucket list \<Rightarrow> nat \<Rightarrow> 'v bucket list" where
  "renumber_loop [] j = []"
| "renumber_loop (p # ds) j = p\<lparr>b_h := word_of_nat j, b_key := None\<rparr> # renumber_loop ds (Suc j)"

text \<open>
  \<open>zend_hash_sort_internal\<close>. The table is not packed from the conversion on, so the branches for packed
  tables after it are never taken. \<open>zend_hash_bucket_swap\<close> exchanges whole buckets. With \<open>renumber\<close> the code
  swaps the values and their \<open>Z_EXTRA\<close> only and leaves \<open>h\<close> and \<open>key\<close> in place, to be overwritten after the
  sort; whole buckets are exchanged here too, which is the same for a comparison that does not look at the
  keys, as those of the callers do not.
\<close>

definition zend_hash_sort_internal ::
  "'v HashTable \<Rightarrow> (('v bucket \<Rightarrow> 'v bucket \<Rightarrow> int) \<Rightarrow> 'v bucket list \<Rightarrow> 'v bucket list option) \<Rightarrow>
    ('v bucket \<Rightarrow> 'v bucket \<Rightarrow> int) \<Rightarrow> bool \<Rightarrow> 'v HashTable run" where
  "zend_hash_sort_internal ht srt compar renumber =
     (if \<not> nNumOfElements ht > 1 \<and> \<not> (renumber \<and> nNumOfElements ht > 0) then Ret ht
      else
        run_bind (if flag_packed ht then zend_hash_packed_to_hash ht else Ret ht) (\<lambda>ht.
          let ds = (if length (arData ht) = nNumOfElements ht then store_order (arData ht) 0
                    else drop_holes (arData ht) 0);
              i = length ds
          in run_bind (run_of (srt compar ds)) (\<lambda>ds.
               let ht = ht\<lparr>arData := ds, arHash := HT_HASH_RESET (nTableMask ht), nInternalPointer := 0\<rparr>
               in if renumber then
                    Ret (ht\<lparr>nNextFreeElement := int i, flag_packed := True, nTableMask := HT_MIN_MASK,
                            arPacked := map b_val (renumber_loop (arData ht) 0), arData := [],
                            arHash := [HT_INVALID_IDX, HT_INVALID_IDX]\<rparr>)
                  else zend_hash_rehash ht)))"

definition zend_hash_sort_ex ::
  "'v HashTable \<Rightarrow> (('v bucket \<Rightarrow> 'v bucket \<Rightarrow> int) \<Rightarrow> 'v bucket list \<Rightarrow> 'v bucket list option) \<Rightarrow>
    ('v bucket \<Rightarrow> 'v bucket \<Rightarrow> int) \<Rightarrow> bool \<Rightarrow> 'v HashTable run" where
  "zend_hash_sort_ex ht srt compar renumber = zend_hash_sort_internal ht srt compar renumber"

definition zend_hash_sort :: "'v HashTable \<Rightarrow> ('v bucket \<Rightarrow> 'v bucket \<Rightarrow> int) \<Rightarrow> bool \<Rightarrow> 'v HashTable run" where
  "zend_hash_sort ht compare_func renumber = zend_hash_sort_ex ht zend_sort compare_func renumber"

definition zend_array_sort_ex ::
  "'v HashTable \<Rightarrow> (('v bucket \<Rightarrow> 'v bucket \<Rightarrow> int) \<Rightarrow> 'v bucket list \<Rightarrow> 'v bucket list option) \<Rightarrow>
    ('v bucket \<Rightarrow> 'v bucket \<Rightarrow> int) \<Rightarrow> bool \<Rightarrow> 'v HashTable run" where
  "zend_array_sort_ex ht srt compar renumber =
     run_bind (if flag_packed ht then zend_hash_packed_to_hash ht else Ret ht) (\<lambda>ht.
       zend_hash_sort_internal ht srt compar renumber)"

definition zend_array_sort :: "'v HashTable \<Rightarrow> ('v bucket \<Rightarrow> 'v bucket \<Rightarrow> int) \<Rightarrow> bool \<Rightarrow> 'v HashTable run" where
  "zend_array_sort ht compare_func renumber = zend_array_sort_ex ht zend_sort compare_func renumber"

section \<open>Stable comparison\<close>

definition stable_sort_fallback :: "'v bucket \<Rightarrow> 'v bucket \<Rightarrow> int" where
  "stable_sort_fallback a b =
     (if b_next a > b_next b then 1 else if b_next a < b_next b then -1 else 0)"

definition RETURN_STABLE_SORT :: "'v bucket \<Rightarrow> 'v bucket \<Rightarrow> int \<Rightarrow> int" where
  "RETURN_STABLE_SORT a b result = (if result \<noteq> 0 then result else stable_sort_fallback a b)"

text \<open>The variants \<open>DEFINE_SORT_VARIANTS\<close> generates from a comparison of two buckets.\<close>

definition php_array_stable :: "('v bucket \<Rightarrow> 'v bucket \<Rightarrow> int) \<Rightarrow> 'v bucket \<Rightarrow> 'v bucket \<Rightarrow> int" where
  "php_array_stable unstable_i a b = RETURN_STABLE_SORT a b (unstable_i a b)"

definition php_array_reverse_unstable :: "('v bucket \<Rightarrow> 'v bucket \<Rightarrow> int) \<Rightarrow> 'v bucket \<Rightarrow> 'v bucket \<Rightarrow> int" where
  "php_array_reverse_unstable unstable a b = unstable a b * -1"

definition php_array_reverse :: "('v bucket \<Rightarrow> 'v bucket \<Rightarrow> int) \<Rightarrow> 'v bucket \<Rightarrow> 'v bucket \<Rightarrow> int" where
  "php_array_reverse unstable a b = RETURN_STABLE_SORT a b (php_array_reverse_unstable unstable a b)"

section \<open>What the table needs of a sort function\<close>

text \<open>A comparison whose sign is that of a total preorder, with ties broken by numbers.\<close>

lemma comparator_ties:
  fixes cmp :: "'a \<Rightarrow> 'a \<Rightarrow> int" and num :: "'a \<Rightarrow> nat"
  assumes "\<And>x y. cmp y x > 0 \<longleftrightarrow> cmp x y < 0"
    and "\<And>x y z. cmp x y \<le> 0 \<Longrightarrow> cmp y z \<le> 0 \<Longrightarrow> cmp x z \<le> 0"
  shows "comparator (\<lambda>x y. if cmp x y \<noteq> 0 then cmp x y else sgn (int (num x) - int (num y)))"
proof
  let ?c = "\<lambda>x y. if cmp x y \<noteq> 0 then cmp x y else sgn (int (num x) - int (num y))"
  fix x y z
  show "\<not> ?c y x > 0" if "?c x y > 0"
    using that assms(1) [of x y] assms(1) [of y x] by (auto simp: sgn_if split: if_splits)
  show "\<not> ?c x z > 0" if "\<not> ?c x y > 0" "\<not> ?c y z > 0"
  proof -
    have le: "cmp x y \<le> 0" "cmp y z \<le> 0" using that by (auto split: if_splits)
    have "cmp x z \<le> 0" by (rule assms(2) [OF le])
    moreover have "cmp x y = 0 \<and> cmp y z = 0" if "cmp x z = 0"
    proof -
      have "cmp z x \<le> 0" using that assms(1) [of z x] assms(1) [of x z] by linarith
      then have "cmp z y \<le> 0" "cmp y x \<le> 0" using assms(2) le by blast+
      then show ?thesis using le assms(1) [of y z] assms(1) [of x y] assms(1) [of z y] assms(1) [of y x] by linarith
    qed
    ultimately show ?thesis using that by (auto simp: sgn_if split: if_splits)
  qed
qed

locale array_sort =
  fixes srt :: "('a \<Rightarrow> 'a \<Rightarrow> int) \<Rightarrow> 'a list \<Rightarrow> 'a list option"
  assumes sorts: "comparator cmp \<Longrightarrow>
    \<exists>ys. srt cmp xs = Some ys \<and> mset ys = mset xs \<and> sorted_wrt (\<lambda>x y. \<not> cmp x y > 0) ys"
begin

text \<open>When ties are broken by a number that grows along the list, equivalent elements keep their order.\<close>

lemma sorts_stable:
  fixes cmp :: "'a \<Rightarrow> 'a \<Rightarrow> int" and num :: "'a \<Rightarrow> nat"
  assumes "comparator (\<lambda>x y. if cmp x y \<noteq> 0 then cmp x y else sgn (int (num x) - int (num y)))"
    and eqv: "\<And>x y z. cmp x z = 0 \<Longrightarrow> cmp y z = 0 \<Longrightarrow> cmp x y = 0"
    and "sorted (map num xs)" and "distinct (map num xs)"
  obtains ys where "srt (\<lambda>x y. if cmp x y \<noteq> 0 then cmp x y else sgn (int (num x) - int (num y))) xs = Some ys"
    "mset ys = mset xs" "sorted_wrt (\<lambda>x y. \<not> cmp x y > 0) ys"
    "\<And>z. filter (\<lambda>x. cmp x z = 0) ys = filter (\<lambda>x. cmp x z = 0) xs"
proof -
  let ?c = "\<lambda>x y. if cmp x y \<noteq> 0 then cmp x y else sgn (int (num x) - int (num y))"
  obtain ys where y: "srt ?c xs = Some ys" "mset ys = mset xs" "sorted_wrt (\<lambda>x y. \<not> ?c x y > 0) ys"
    using sorts [OF assms(1), of xs] by (elim exE conjE) (rule that)
  have "mset (map num ys) = mset (map num xs)" using y(2) by simp
  then have d: "distinct (map num ys)" using assms(4) mset_eq_imp_distinct_iff by blast
  have "filter (\<lambda>x. cmp x z = 0) ys = filter (\<lambda>x. cmp x z = 0) xs" for z
  proof (rule map_sorted_distinct_set_unique [of num])
    let ?P = "\<lambda>x. cmp x z = 0"
    have "sorted_wrt (\<lambda>x y. \<not> ?c x y > 0) (filter ?P ys)" by (rule sorted_wrt_filter [OF y(3)])
    then have "sorted_wrt (\<lambda>x y. num x \<le> num y) (filter ?P ys)"
    proof (rule sorted_wrt_mono_rel [rotated])
      fix x y assume "x \<in> set (filter ?P ys)" "y \<in> set (filter ?P ys)" and le: "\<not> ?c x y > 0"
      then have "cmp x y = 0" using eqv [of x z y] by simp
      then show "num x \<le> num y" using le by (simp add: sgn_if split: if_splits)
    qed
    then show "sorted (map num (filter ?P ys))" by (simp add: sorted_map)
    show "sorted (map num (filter ?P xs))" using assms(3) sorted_wrt_filter by (simp add: sorted_map)
    show "distinct (map num (filter ?P ys))" "distinct (map num (filter ?P xs))"
      using d assms(4) by (simp_all add: distinct_map_filter)
    show s: "set (filter ?P ys) = set (filter ?P xs)" using y(2) by (metis mset_filter set_mset_mset)
    show "inj_on num (set (filter ?P ys) \<union> set (filter ?P xs))"
      unfolding s using assms(4) by (auto simp: distinct_map inj_on_def)
  qed
  moreover have "sorted_wrt (\<lambda>x y. \<not> cmp x y > 0) ys"
    by (rule sorted_wrt_mono_rel [OF _ y(3)]) auto
  ultimately show thesis using that y(1,2) by blast
qed

end

section \<open>Sorting a table\<close>

definition elem :: "'v bucket \<Rightarrow> hkey \<times> 'v zval" where
  "elem b = (bkey b, b_val b)"

text \<open>\<open>ys\<close> is \<open>xs\<close> in the order of \<open>cmp\<close>, equivalent elements in their old order.\<close>

definition stable_sorted :: "('a \<Rightarrow> 'a \<Rightarrow> int) \<Rightarrow> 'a list \<Rightarrow> 'a list \<Rightarrow> bool" where
  "stable_sorted cmp xs ys \<longleftrightarrow> mset ys = mset xs \<and> sorted_wrt (\<lambda>x y. \<not> cmp x y > 0) ys \<and>
     (\<forall>z. filter (\<lambda>x. cmp x z = 0) ys = filter (\<lambda>x. cmp x z = 0) xs)"

definition total_cmp :: "('a \<Rightarrow> 'a \<Rightarrow> int) \<Rightarrow> bool" where
  "total_cmp cmp \<longleftrightarrow> (\<forall>x y. cmp y x > 0 \<longleftrightarrow> cmp x y < 0) \<and>
     (\<forall>x y z. cmp x y \<le> 0 \<longrightarrow> cmp y z \<le> 0 \<longrightarrow> cmp x z \<le> 0)"

lemma data_elems_elem: "data_elems ds = map elem (filter live ds)"
  by (simp add: data_elems_def elem_def)

lemma store_order_props:
  "map content (store_order ds i) = map content ds" "map b_next (store_order ds i) = [i..<i + length ds]"
  by (induction ds arbitrary: i) (simp_all add: upt_rec)

lemma drop_holes_props:
  "map content (drop_holes ds i) = map content (filter live ds)"
  "map b_next (drop_holes ds i) = [i..<i + length (filter live ds)]"
  by (induction ds arbitrary: i) (simp_all add: live_def upt_conv_Cons del: upt_Suc)

lemma stable_compare_eq:
  "php_array_stable (\<lambda>a b. cmp (elem a) (elem b)) =
     (\<lambda>a b. if cmp (elem a) (elem b) \<noteq> 0 then cmp (elem a) (elem b) else sgn (int (b_next a) - int (b_next b)))"
  by (intro ext) (simp add: php_array_stable_def RETURN_STABLE_SORT_def stable_sort_fallback_def sgn_if)

lemma numbered:
  assumes "in_use ht"
  defines "ds \<equiv> if length (arData ht) = nNumOfElements ht then store_order (arData ht) 0 else drop_holes (arData ht) 0"
  shows "map content ds = map content (filter live (arData ht))" and "map b_next ds = [0..<length ds]"
    and "length ds = nNumOfElements ht"
proof -
  have num: "nNumOfElements ht = length (filter live (arData ht))"
    using in_use_body [OF assms(1)] by (simp add: body_ok_def data_elems_def)
  have full: "filter live (arData ht) = arData ht" if "length (arData ht) = nNumOfElements ht"
    using that num by (metis filter_id_conv length_filter_less less_irrefl)
  show c: "map content ds = map content (filter live (arData ht))"
    using full by (simp add: ds_def store_order_props(1) drop_holes_props(1))
  then show l: "length ds = nNumOfElements ht" using num by (metis length_map)
  show "map b_next ds = [0..<length ds]"
    using store_order_props(2) [of "arData ht" 0] drop_holes_props(2) [of "arData ht" 0] num l
    by (auto simp: ds_def split: if_splits)
qed

lemma unpacked:
  assumes "hash_wf ht" and "nNumOfElements ht > 0"
  obtains ht' where "(if flag_packed ht then zend_hash_packed_to_hash ht else Ret ht) = Ret ht'" "in_use ht'"
    "ht_elems ht' = ht_elems ht" "frame ht ht'"
proof (cases "flag_packed ht")
  case True
  have s: "size_ok (nTableSize ht)" "ht\<lparr>nTableSize := nTableSize ht\<rparr> = ht" using assms(1) by (simp_all add: hash_wf_def)
  show ?thesis
    using packed_to_hash_in_use [OF assms(1) True s(1) order_refl, unfolded s(2)] True that by metis
next
  case False
  then have "in_use ht"
    using assms by (auto simp: in_use_def hash_wf_def no_hash_def ht_elems_def split: if_splits)
  then show ?thesis using False by (intro that [of ht]) (simp_all add: frame_def)
qed

text \<open>The buckets of a table may be replaced by a permutation of its live ones.\<close>

lemma body_ok_perm:
  assumes "in_use ht" and "mset ds' = mset ds" and "map content ds = map content (filter live (arData ht))"
  shows "body_ok (ht\<lparr>arData := ds', arHash := hs, nInternalPointer := ip\<rparr>)"
proof -
  note b = in_use_body [OF assms(1), unfolded body_ok_def]
  have lv: "\<forall>b \<in> set ds. live b" unfolding all_live_content assms(3) by (auto simp: live_content)
  then have lv': "\<forall>b \<in> set ds'. live b" using assms(2) by (metis set_mset_mset)
  have f: "filter live ds = ds" "filter live ds' = ds'" using lv lv' by (simp_all add: filter_id_conv)
  have e: "data_elems ds = data_elems (arData ht)" by (rule data_elems_content) (simp add: f assms(3))
  have m: "mset (map fst (data_elems ds')) = mset (map fst (data_elems ds))"
    using assms(2) by (simp add: data_elems_def f)
  have "\<forall>b \<in> set ds. key_ok b" by (rule keys_ok_content [OF assms(3)]) (use b in blast)
  then have k: "\<forall>b \<in> set ds'. key_ok b" using assms(2) by (metis set_mset_mset)
  have "length ds' = length (data_elems ds)" using assms(2) by (metis size_mset f(1) length_map data_elems_def)
  then have l: "length ds' = nNumOfElements ht" using e b by simp
  moreover have "length (data_elems ds') = length ds'" by (simp add: data_elems_def f)
  moreover have "nNumOfElements ht \<le> nTableSize ht" using in_use_num [OF assms(1)] by simp
  moreover have "distinct (map fst (data_elems ds'))" using m e b mset_eq_imp_distinct_iff by metis
  ultimately show ?thesis using b k by (simp add: body_ok_def)
qed

lemma renumber_loop_vals: "map b_val (renumber_loop ds j) = map b_val ds"
  by (induction ds arbitrary: j) simp_all

lemma packed_elems_live:
  "\<forall>v \<in> set vs. v \<noteq> IS_UNDEF \<Longrightarrow> packed_elems vs = map (\<lambda>(i, v). (Idx (word_of_nat i), v)) (enumerate 0 vs)"
  unfolding packed_elems_def
  by (intro arg_cong [of _ _ "map _"] filter_True) (auto simp: in_set_enumerate_eq)

lemma stable_sorted_snd:
  assumes "stable_sorted (\<lambda>x y. cmp (snd x) (snd y)) xs ys"
  shows "stable_sorted cmp (map snd xs) (map snd ys)"
proof -
  have "filter (\<lambda>x. cmp x z = 0) (map snd ys) = filter (\<lambda>x. cmp x z = 0) (map snd xs)" for z
    using assms by (auto simp: stable_sorted_def filter_map o_def dest!: spec [of _ "(undefined, z)"])
  then show ?thesis using assms by (simp add: stable_sorted_def sorted_wrt_map)
qed

locale table_sort = array_sort srt
  for srt :: "('v bucket \<Rightarrow> 'v bucket \<Rightarrow> int) \<Rightarrow> 'v bucket list \<Rightarrow> 'v bucket list option"
begin

lemma sort_buckets:
  fixes cmp :: "hkey \<times> 'v zval \<Rightarrow> hkey \<times> 'v zval \<Rightarrow> int"
  assumes "total_cmp cmp" and ds: "map content ds = map content (filter live es)"
    and nx: "map b_next ds = [0..<length ds]"
  obtains ds' where "srt (php_array_stable (\<lambda>a b. cmp (elem a) (elem b))) ds = Some ds'" "mset ds' = mset ds"
    "stable_sorted cmp (data_elems es) (map elem ds')" "\<forall>b \<in> set ds'. live b"
proof -
  have a: "cmp y x > 0 \<longleftrightarrow> cmp x y < 0" and t: "cmp x y \<le> 0 \<Longrightarrow> cmp y z \<le> 0 \<Longrightarrow> cmp x z \<le> 0" for x y z
    using assms(1) unfolding total_cmp_def by blast+
  let ?c = "\<lambda>a b. cmp (elem a) (elem b)"
  have c: "comparator (\<lambda>a b. if ?c a b \<noteq> 0 then ?c a b else sgn (int (b_next a) - int (b_next b)))"
    by (rule comparator_ties) (use a t in blast)+
  have eqv: "?c x y = 0" if "?c x z = 0" "?c y z = 0" for x y z
  proof -
    have "?c z y \<le> 0" "?c z x \<le> 0" using that a [of "elem z" "elem y"] a [of "elem z" "elem x"] by linarith+
    then have "?c x y \<le> 0" "?c y x \<le> 0" using t that by (metis order_refl)+
    then show ?thesis using a [of "elem x" "elem y"] a [of "elem y" "elem x"] by linarith
  qed
  obtain ds' where r: "srt (php_array_stable ?c) ds = Some ds'" "mset ds' = mset ds"
    "sorted_wrt (\<lambda>x y. \<not> ?c x y > 0) ds'"
    "\<And>z. filter (\<lambda>x. ?c x z = 0) ds' = filter (\<lambda>x. ?c x z = 0) ds"
    unfolding stable_compare_eq by (rule sorts_stable [OF c eqv]) (use nx in auto)
  have lv: "\<forall>b \<in> set ds. live b" unfolding all_live_content ds by (auto simp: live_content)
  have el: "data_elems es = map elem ds"
  proof -
    have "filter live ds = ds" using lv by (simp add: filter_id_conv)
    then show ?thesis using data_elems_content [of ds es] ds by (simp add: data_elems_elem)
  qed
  have "filter (\<lambda>x. cmp x z = 0) (map elem ds') = filter (\<lambda>x. cmp x z = 0) (map elem ds)" for z
  proof -
    let ?b = "\<lparr>b_val = snd z, b_next = 0, b_h = (case fst z of Idx h \<Rightarrow> h | Str s \<Rightarrow> 0),
      b_key = (case fst z of Idx h \<Rightarrow> None | Str s \<Rightarrow> Some s)\<rparr>"
    have "elem ?b = z" by (cases z) (simp add: elem_def bkey_def split: hkey.split)
    then show ?thesis using r(4) [of ?b] by (simp add: filter_map o_def)
  qed
  then have "stable_sorted cmp (data_elems es) (map elem ds')"
    using r(2,3) by (simp add: stable_sorted_def el sorted_wrt_map)
  moreover have "\<forall>b \<in> set ds'. live b" using lv r(2) by (metis set_mset_mset)
  ultimately show thesis using that r(1,2) by blast
qed

lemma sort_internal_stable:
  fixes cmp :: "hkey \<times> 'v zval \<Rightarrow> hkey \<times> 'v zval \<Rightarrow> int"
  assumes "hash_wf ht" and "total_cmp cmp"
  obtains ht' where
    "zend_hash_sort_internal ht srt (php_array_stable (\<lambda>a b. cmp (elem a) (elem b))) False = Ret ht'"
    "hash_wf ht'" "stable_sorted cmp (ht_elems ht) (ht_elems ht')"
proof (cases "nNumOfElements ht > 1")
  case False
  then have "length (ht_elems ht) \<le> 1" using assms(1) by (simp add: hash_wf_def)
  then have "sorted_wrt (\<lambda>x y. \<not> cmp x y > 0) (ht_elems ht)" by (cases "ht_elems ht") auto
  then show ?thesis using False assms(1)
    by (intro that [of ht]) (simp_all add: zend_hash_sort_internal_def stable_sorted_def)
next
  case True
  obtain h1 where h1: "(if flag_packed ht then zend_hash_packed_to_hash ht else Ret ht) = Ret h1"
    "in_use h1" "ht_elems h1 = ht_elems ht"
    using unpacked [OF assms(1)] True by (metis gr_implies_not0 not_gr_zero)
  define ds where "ds = (if length (arData h1) = nNumOfElements h1 then store_order (arData h1) 0
    else drop_holes (arData h1) 0)"
  have ds: "map content ds = map content (filter live (arData h1))" "map b_next ds = [0..<length ds]"
    using numbered [OF h1(2)] by (simp_all add: ds_def)
  obtain ds' where r: "srt (php_array_stable (\<lambda>a b. cmp (elem a) (elem b))) ds = Some ds'" "mset ds' = mset ds"
    "stable_sorted cmp (data_elems (arData h1)) (map elem ds')" "\<forall>b \<in> set ds'. live b"
    using sort_buckets [OF assms(2) ds] by metis
  define h2 where "h2 = h1\<lparr>arData := ds', arHash := HT_HASH_RESET (nTableMask h1), nInternalPointer := 0\<rparr>"
  have "body_ok h2" unfolding h2_def by (rule body_ok_perm [OF h1(2) r(2) ds(1)])
  then obtain ht' where "zend_hash_rehash h2 = Ret ht'" "in_use ht'" "ht_elems ht' = data_elems (arData h2)"
    by (rule rehash_in_use)
  moreover have "data_elems (arData h2) = map elem ds'" using r(4) by (simp add: h2_def data_elems_elem filter_id_conv)
  moreover have "data_elems (arData h1) = ht_elems ht" using h1 by (simp add: in_use_def ht_elems_def)
  ultimately show thesis
    using True h1(1) r(1,3)
    by (intro that [of ht'])
      (simp_all add: zend_hash_sort_internal_def ds_def [symmetric] h2_def [symmetric] in_use_def Let_def)
qed

lemma sort_internal_renumber:
  fixes cmp :: "'v zval \<Rightarrow> 'v zval \<Rightarrow> int"
  assumes "hash_wf ht" and "total_cmp cmp"
  obtains ht' vs where
    "zend_hash_sort_internal ht srt (php_array_stable (\<lambda>a b. cmp (b_val a) (b_val b))) True = Ret ht'"
    "hash_wf ht'" "stable_sorted cmp (map snd (ht_elems ht)) vs"
    "ht_elems ht' = map (\<lambda>(i, v). (Idx (word_of_nat i), v)) (enumerate 0 vs)"
    "ht_elems ht \<noteq> [] \<longrightarrow> flag_packed ht' \<and> nNextFreeElement ht' = int (length vs)"
proof (cases "nNumOfElements ht > 0")
  case False
  then have "ht_elems ht = []" using assms(1) by (simp add: hash_wf_def)
  then show ?thesis using False assms(1)
    by (intro that [of ht "[]"]) (simp_all add: zend_hash_sort_internal_def stable_sorted_def)
next
  case True
  obtain h1 where h1: "(if flag_packed ht then zend_hash_packed_to_hash ht else Ret ht) = Ret h1"
    "in_use h1" "ht_elems h1 = ht_elems ht"
    using unpacked [OF assms(1) True] by metis
  define ds where "ds = (if length (arData h1) = nNumOfElements h1 then store_order (arData h1) 0
    else drop_holes (arData h1) 0)"
  have ds: "map content ds = map content (filter live (arData h1))" "map b_next ds = [0..<length ds]"
    "length ds = nNumOfElements h1"
    using numbered [OF h1(2)] by (simp_all add: ds_def)
  let ?c = "\<lambda>x y. cmp (snd x) (snd y)"
  have "total_cmp (?c :: hkey \<times> 'v zval \<Rightarrow> hkey \<times> 'v zval \<Rightarrow> int)" using assms(2) unfolding total_cmp_def by blast
  then obtain ds' where r: "srt (php_array_stable (\<lambda>a b. cmp (b_val a) (b_val b))) ds = Some ds'" "mset ds' = mset ds"
    "stable_sorted ?c (data_elems (arData h1)) (map elem ds')" "\<forall>b \<in> set ds'. live b"
    by (rule sort_buckets [OF _ ds(1,2)]) (simp add: elem_def)
  define vs where "vs = map b_val ds'"
  have vs: "\<forall>v \<in> set vs. v \<noteq> IS_UNDEF" "length vs = nNumOfElements h1"
    using r(4) ds(3) mset_eq_length [OF r(2)] by (auto simp: vs_def live_def)
  have st: "stable_sorted cmp (map snd (ht_elems ht)) vs"
    using stable_sorted_snd [OF r(3)] h1 by (simp add: in_use_def ht_elems_def vs_def elem_def o_def)
  define ht' where "ht' = h1\<lparr>arHash := [HT_INVALID_IDX, HT_INVALID_IDX], nInternalPointer := 0, nNextFreeElement := int (length vs),
    flag_packed := True, nTableMask := HT_MIN_MASK, arPacked := vs, arData := []\<rparr>"
  have "zend_hash_sort_internal ht srt (php_array_stable (\<lambda>a b. cmp (b_val a) (b_val b))) True = Ret ht'"
    using True h1(1) r(1) mset_eq_length [OF r(2)]
    by (simp add: zend_hash_sort_internal_def ds_def [symmetric] ht'_def vs_def renumber_loop_vals Let_def)
  moreover have el: "ht_elems ht' = map (\<lambda>(i, v). (Idx (word_of_nat i), v)) (enumerate 0 vs)"
    using packed_elems_live [OF vs(1)] by (simp add: ht'_def ht_elems_def)
  moreover have "hash_wf ht'"
  proof -
    have s: "size_ok (nTableSize h1)" "\<not> flag_uninit h1" "length vs \<le> nTableSize h1"
      using h1(2) in_use_num [OF h1(2)] vs(2) by (auto simp: in_use_def hash_wf_def)
    then show ?thesis
      using size_ok_bounds [OF s(1)] el vs(2) by (simp add: hash_wf_def no_hash_def) (simp add: ht'_def)
  qed
  ultimately show thesis using st by (intro that [of ht' vs]) (simp_all add: ht'_def)
qed

end

interpretation qsort: array_sort zend_sort
proof
  fix cmp :: "'a \<Rightarrow> 'a \<Rightarrow> int" and xs
  assume c: "comparator cmp"
  then have "comparator.le cmp = (\<lambda>x y. \<not> cmp x y > 0)" by (intro ext) (rule comparator.le_def)
  with comparator.sort_sorted [OF c, of xs]
  show "\<exists>ys. zend_sort cmp xs = Some ys \<and> mset ys = mset xs \<and> sorted_wrt (\<lambda>x y. \<not> cmp x y > 0) ys" by metis
qed

interpretation isort: array_sort zend_insert_sort
proof
  fix cmp :: "'a \<Rightarrow> 'a \<Rightarrow> int" and xs
  assume c: "comparator cmp"
  then have "comparator.le cmp = (\<lambda>x y. \<not> cmp x y > 0)" by (intro ext) (rule comparator.le_def)
  with comparator.insert_sort_sorted [OF c, of xs]
  show "\<exists>ys. zend_insert_sort cmp xs = Some ys \<and> mset ys = mset xs \<and> sorted_wrt (\<lambda>x y. \<not> cmp x y > 0) ys" by metis
qed

interpretation tq: table_sort zend_sort
  by unfold_locales

interpretation ti: table_sort zend_insert_sort
  by unfold_locales

section \<open>Sample comparisons\<close>

definition zval_num :: "nat zval \<Rightarrow> int" where
  "zval_num v = (case v of IS_VALUE n \<Rightarrow> int n | _ \<Rightarrow> 0)"

lemma total_cmp_num: "total_cmp (\<lambda>x y. zval_num (f y) - zval_num (f x))"
  by (auto simp: total_cmp_def)

lemma mset_two: "mset xs = {#a, b#} \<Longrightarrow> xs = [a, b] \<or> xs = [b, a]"
proof -
  assume m: "mset xs = {#a, b#}"
  then have "length xs = 2" by (metis size_mset size_add_mset size_empty numeral_2_eq_2)
  then obtain x y where "xs = [x, y]" by (auto simp: length_Suc_conv numeral_2_eq_2)
  then show ?thesis using m by (auto simp: add_eq_conv_ex)
qed

section \<open>Properties\<close>



text \<open>Sorting with renumbering, as \<open>sort\<close> and \<open>usort\<close> do, leaves a packed table with the values in the
  stable order of the comparison under the keys 0, 1, ..., and the next free key is their number.\<close>

theorem zend_hash_sort_renumber:
  fixes cmp :: "'v zval \<Rightarrow> 'v zval \<Rightarrow> int"
  assumes "hash_wf ht" and "total_cmp cmp"
  shows "\<exists>ht' vs. zend_hash_sort ht (php_array_stable (\<lambda>a b. cmp (b_val a) (b_val b))) True = Ret ht' \<and> hash_wf ht' \<and>
    mset vs = mset (map snd (ht_elems ht)) \<and> sorted_wrt (\<lambda>x y. \<not> cmp x y > 0) vs \<and>
    (\<forall>z. filter (\<lambda>x. cmp x z = 0) vs = filter (\<lambda>x. cmp x z = 0) (map snd (ht_elems ht))) \<and>
    ht_elems ht' = map (\<lambda>(i, v). (Idx (word_of_nat i), v)) (enumerate 0 vs) \<and>
    (ht_elems ht \<noteq> [] \<longrightarrow> flag_packed ht' \<and> nNextFreeElement ht' = int (length vs))"
proof -
  obtain ht' vs where
    "zend_hash_sort_internal ht zend_sort (php_array_stable (\<lambda>a b. cmp (b_val a) (b_val b))) True = Ret ht'"
    "hash_wf ht'" "stable_sorted cmp (map snd (ht_elems ht)) vs"
    "ht_elems ht' = map (\<lambda>(i, v). (Idx (word_of_nat i), v)) (enumerate 0 vs)"
    "ht_elems ht \<noteq> [] \<longrightarrow> flag_packed ht' \<and> nNextFreeElement ht' = int (length vs)"
    by (rule tq.sort_internal_renumber [OF assms])
  then show ?thesis
    by (intro exI [of _ ht'] exI [of _ vs])
      (simp add: zend_hash_sort_def zend_hash_sort_ex_def stable_sorted_def)
qed

theorem zend_hash_sort_renumber_witness:
  "hash_wf pair_table \<and> (\<exists>ht'. zend_hash_sort pair_table
      (php_array_stable (\<lambda>a b. zval_num (b_val b) - zval_num (b_val a))) True = Ret ht' \<and>
    ht_elems ht' = [(Idx 0, IS_VALUE 9), (Idx 1, IS_VALUE 7)] \<and> nNextFreeElement ht' = 2)"
proof -
  obtain ht' vs where r: "zend_hash_sort pair_table
      (php_array_stable (\<lambda>a b. zval_num (b_val b) - zval_num (b_val a))) True = Ret ht'"
    "mset vs = {#IS_VALUE 7, IS_VALUE 9#}" "sorted_wrt (\<lambda>x y. \<not> zval_num y - zval_num x > 0) vs"
    "ht_elems ht' = map (\<lambda>(i, v). (Idx (word_of_nat i), v)) (enumerate 0 vs)" "nNextFreeElement ht' = int (length vs)"
    using zend_hash_sort_renumber [OF pair_table_wf(1) total_cmp_num [of id]] by (auto simp: pair_table_wf)
  then have "vs = [IS_VALUE 9, IS_VALUE 7]" using mset_two [OF r(2)] by (auto simp: zval_num_def)
  then show ?thesis using r pair_table_wf(1) by simp
qed

end
