(* ===== verification/Zend_Hash_Cmp.thy ===== *)
theory Zend_Hash_Cmp
  imports Zend_Hash_Copy Zend_Hash_Sort
begin

text \<open>
  Queries over whole tables: comparison, minimum and maximum, list arrays, and the number of elements when
  some of them refer to unset variables, together with the deletion that unsets such a variable.
\<close>

section \<open>Comparison\<close>

text \<open>All cells of a table as the comparison reads them: index, key and value.\<close>

definition ht_cells :: "'v HashTable \<Rightarrow> (64 word \<times> string option \<times> 'v zval) list" where
  "ht_cells ht =
     (if flag_packed ht then map (\<lambda>(i, v). (word_of_nat i, None, v)) (enumerate 0 (arPacked ht))
      else map (\<lambda>p. (b_h p, b_key p, b_val p)) (arData ht))"

text \<open>The comparison of the keys of two elements; 0 says that they are the same.\<close>

definition compare_keys :: "64 word \<Rightarrow> string option \<Rightarrow> 64 word \<Rightarrow> string option \<Rightarrow> int" where
  "compare_keys h1 key1 h2 key2 =
     (case (key1, key2) of
        (None, None) \<Rightarrow> if h1 \<noteq> h2 then if h1 > h2 then 1 else -1 else 0
      | (Some key1, Some key2) \<Rightarrow>
          if length key1 \<noteq> length key2 then if length key1 > length key2 then 1 else -1
          else memcmp key1 key2 (length key1)
      | _ \<Rightarrow> if key1 \<noteq> None then 1 else -1)"

text \<open>The comparison of two values, each in front of its variable slots.\<close>

definition compare_values ::
  "('v zval \<Rightarrow> 'v zval \<Rightarrow> int) \<Rightarrow> (nat \<Rightarrow> 'v zval) \<Rightarrow> (nat \<Rightarrow> 'v zval) \<Rightarrow> 'v zval \<Rightarrow> 'v zval \<Rightarrow> int" where
  "compare_values compar slots1 slots2 pData1 pData2 =
     (let pData1 = deref slots1 pData1; pData2 = deref slots2 pData2
      in if pData1 = IS_UNDEF then if pData2 \<noteq> IS_UNDEF then -1 else 0
         else if pData2 = IS_UNDEF then 1
         else compar pData1 pData2)"

text \<open>The loop over the cells of the first table. \<open>cs2\<close> are the cells of the second one from \<open>idx2\<close> on; the
  ordered comparison skips its holes and would leave the array when there is no further element.\<close>

primrec compare_loop ::
  "'v HashTable \<Rightarrow> 'v HashTable \<Rightarrow> ('v zval \<Rightarrow> 'v zval \<Rightarrow> int) \<Rightarrow> bool \<Rightarrow>
    (64 word \<times> string option \<times> 'v zval) list \<Rightarrow> (64 word \<times> string option \<times> 'v zval) list \<Rightarrow> int run" where
  "compare_loop ht1 ht2 compar ordered [] cs2 = Ret 0"
| "compare_loop ht1 ht2 compar ordered (c # cs1) cs2 =
     (case c of (h1, key1, pData1) \<Rightarrow>
        if pData1 = IS_UNDEF then compare_loop ht1 ht2 compar ordered cs1 cs2
        else if ordered then
          (case dropWhile (\<lambda>(h, key, v). v = IS_UNDEF) cs2 of
             [] \<Rightarrow> Undef
           | (h2, key2, pData2) # cs2 \<Rightarrow>
               if compare_keys h1 key1 h2 key2 \<noteq> 0 then Ret (compare_keys h1 key1 h2 key2)
               else
                 let result = compare_values compar (cvs ht1) (cvs ht2) pData1 pData2
                 in if result \<noteq> 0 then Ret result else compare_loop ht1 ht2 compar ordered cs1 cs2)
        else
          run_bind (case key1 of None \<Rightarrow> zend_hash_index_find ht2 h1 | Some key1 \<Rightarrow> zend_hash_find ht2 key1) (\<lambda>r.
            case r of
              None \<Rightarrow> Ret 1
            | Some pData2 \<Rightarrow>
                let result = compare_values compar (cvs ht1) (cvs ht2) pData1 pData2
                in if result \<noteq> 0 then Ret result else compare_loop ht1 ht2 compar ordered cs1 cs2))"

definition zend_hash_compare_impl ::
  "'v HashTable \<Rightarrow> 'v HashTable \<Rightarrow> ('v zval \<Rightarrow> 'v zval \<Rightarrow> int) \<Rightarrow> bool \<Rightarrow> int run" where
  "zend_hash_compare_impl ht1 ht2 compar ordered =
     (if nNumOfElements ht1 \<noteq> nNumOfElements ht2 then Ret (if nNumOfElements ht1 > nNumOfElements ht2 then 1 else -1)
      else compare_loop ht1 ht2 compar ordered (ht_cells ht1) (ht_cells ht2))"

text \<open>\<open>same\<close> says that both arguments are one table, \<open>recursive\<close> is \<open>GC_IS_RECURSIVE(ht1)\<close>.\<close>

definition zend_hash_compare ::
  "bool \<Rightarrow> bool \<Rightarrow> 'v HashTable \<Rightarrow> 'v HashTable \<Rightarrow> ('v zval \<Rightarrow> 'v zval \<Rightarrow> int) \<Rightarrow> bool \<Rightarrow> int run" where
  "zend_hash_compare same recursive ht1 ht2 compar ordered =
     (if same then Ret 0
      else if recursive then Fatal ''Nesting level too deep - recursive dependency?''
      else zend_hash_compare_impl ht1 ht2 compar ordered)"

section \<open>Minimum and maximum\<close>

primrec minmax_loop :: "('v zval \<Rightarrow> 'v zval \<Rightarrow> int) \<Rightarrow> bool \<Rightarrow> 'v zval list \<Rightarrow> 'v zval \<Rightarrow> 'v zval" where
  "minmax_loop compar flag [] res = res"
| "minmax_loop compar flag (zv # zvs) res =
     (if zv = IS_UNDEF then minmax_loop compar flag zvs res
      else
        minmax_loop compar flag zvs
          (if flag then if compar res zv < 0 then zv else res
           else if compar res zv > 0 then zv else res))"

definition zend_hash_minmax :: "'v HashTable \<Rightarrow> ('v zval \<Rightarrow> 'v zval \<Rightarrow> int) \<Rightarrow> bool \<Rightarrow> 'v zval option" where
  "zend_hash_minmax ht compar flag =
     (if nNumOfElements ht = 0 then None
      else
        case dropWhile (\<lambda>v. v = IS_UNDEF) (ht_vals ht) of
          [] \<Rightarrow> None
        | res # zvs \<Rightarrow> Some (minmax_loop compar flag (res # zvs) res))"

section \<open>Lists\<close>

text \<open>\<open>ZEND_HASH_FILL_PACKED\<close> with \<open>ZEND_HASH_FILL_ADD\<close>: the values are stored without a check of the size.\<close>

primrec fill_packed :: "nat \<Rightarrow> 'v zval list \<Rightarrow> 'v zval list \<Rightarrow> 'v zval list option" where
  "fill_packed cap [] vs = Some vs"
| "fill_packed cap (entry # es) vs =
     (if length vs < cap then fill_packed cap es (vs @ [entry]) else None)"

definition zend_array_to_list :: "'v HashTable \<Rightarrow> 'v HashTable run" where
  "zend_array_to_list source =
     run_bind (zend_new_array (cvs source) (word_of_nat (nNumOfElements source))) (\<lambda>result.
       let result = zend_hash_real_init result True in
       run_bind (run_of (fill_packed (nTableSize result) (map (\<lambda>(h, key, v). v) (ZEND_HASH_FOREACH source False)) []))
         (\<lambda>vs. Ret (result\<lparr>arPacked := vs, nNumOfElements := length vs, nNextFreeElement := int (length vs),
                           nInternalPointer := 0\<rparr>)))"

primrec list_loop :: "(64 word \<times> string option \<times> 'v zval) list \<Rightarrow> 64 word \<Rightarrow> bool" where
  "list_loop [] expected_idx = True"
| "list_loop (c # cs) expected_idx =
     (case c of (num_idx, str_idx, v) \<Rightarrow>
        if str_idx \<noteq> None \<or> num_idx \<noteq> expected_idx then False else list_loop cs (expected_idx + 1))"

definition zend_array_is_list :: "'v HashTable \<Rightarrow> bool" where
  "zend_array_is_list array =
     (if nNumOfElements array = 0 then True
      else if flag_packed array \<and> nNumUsed array = nNumOfElements array then True
      else list_loop (ZEND_HASH_FOREACH array False) 0)"

section \<open>Elements that refer to unset variables\<close>

primrec recalc_loop :: "(nat \<Rightarrow> 'v zval) \<Rightarrow> (64 word \<times> string option \<times> 'v zval) list \<Rightarrow> nat \<Rightarrow> nat" where
  "recalc_loop slots [] num = num"
| "recalc_loop slots (c # cs) num =
     (case c of (h, key, val) \<Rightarrow>
        recalc_loop slots cs
          (case val of IS_INDIRECT k \<Rightarrow> if slots k = IS_UNDEF then num - 1 else num | _ \<Rightarrow> num))"

definition zend_array_recalc_elements :: "'v HashTable \<Rightarrow> nat" where
  "zend_array_recalc_elements ht = recalc_loop (cvs ht) (ZEND_HASH_FOREACH ht False) (nNumOfElements ht)"

text \<open>\<open>is_symbol_table\<close> is the test \<open>ht == &EG(symbol_table)\<close>.\<close>

definition zend_array_count :: "bool \<Rightarrow> 'v HashTable \<Rightarrow> 'v HashTable \<times> nat" where
  "zend_array_count is_symbol_table ht =
     (if flag_empty_ind ht then
        let num = zend_array_recalc_elements ht
        in (if nNumOfElements ht = num then ht\<lparr>flag_empty_ind := False\<rparr> else ht, num)
      else if is_symbol_table then (ht, zend_array_recalc_elements ht)
      else (ht, nNumOfElements ht))"

text \<open>\<open>zend_hash_str_del_ind\<close>; unlike \<open>zend_hash_del_ind\<close> it calls the destructor before it unsets the slot.\<close>

definition zend_hash_str_del_ind :: "'v HashTable \<Rightarrow> string \<Rightarrow> ('v HashTable \<times> bool) run" where
  "zend_hash_str_del_ind ht str =
     (let h = zend_inline_hash_func str in
      run_bind (HT_HASH ht h) (\<lambda>idx.
      run_bind (run_of (chain_del (has_string str h) (arData ht) idx None)) (\<lambda>r.
        case r of
          None \<Rightarrow> Ret (ht, False)
        | Some (idx, prev) \<Rightarrow>
            (case b_val (arData ht ! idx) of
               IS_INDIRECT k \<Rightarrow>
                 if cvs ht k = IS_UNDEF then Ret (ht, False)
                 else
                   let ht = call_dtor ht (cvs ht k)
                   in Ret (ht\<lparr>cvs := (cvs ht)(k := IS_UNDEF), flag_empty_ind := True\<rparr>, True)
             | _ \<Rightarrow>
                 run_bind (zend_hash_del_el_ex (clear_key ht idx) idx prev) (\<lambda>ht. Ret (ht, True))))))"

section \<open>Comparison of sequences\<close>

abbreviation live_cell :: "64 word \<times> string option \<times> 'v zval \<Rightarrow> bool" where
  "live_cell c \<equiv> case c of (h, key, v) \<Rightarrow> v \<noteq> IS_UNDEF"

lemma foreach_cells: "ZEND_HASH_FOREACH ht False = filter live_cell (ht_cells ht)"
  by (simp add: ZEND_HASH_FOREACH_def ht_cells_def)

text \<open>The first difference of two sequences of the same length.\<close>

fun seq_compare :: "('a \<Rightarrow> 'b \<Rightarrow> int) \<Rightarrow> 'a list \<Rightarrow> 'b list \<Rightarrow> int" where
  "seq_compare f (x # xs) (y # ys) = (if f x y \<noteq> 0 then f x y else seq_compare f xs ys)"
| "seq_compare f xs ys = 0"

lemma seq_compare_zero:
  "length xs = length ys \<Longrightarrow> seq_compare f xs ys = 0 \<longleftrightarrow> list_all2 (\<lambda>x y. f x y = 0) xs ys"
  by (induction xs ys rule: list_induct2) simp_all

lemma seq_compare_swap:
  assumes "\<And>x y. sgn (g y x) = - sgn (f x y)"
  shows "sgn (seq_compare g ys xs) = - sgn (seq_compare f xs ys)"
proof (induction xs arbitrary: ys)
  case (Cons x xs)
  show ?case
  proof (cases ys)
    case y: (Cons y ys')
    have "g y x = 0 \<longleftrightarrow> f x y = 0" using assms [of y x] by (metis neg_equal_0_iff_equal sgn_eq_0_iff)
    then show ?thesis using Cons.IH assms by (simp add: y)
  qed simp
qed (cases ys, simp_all)

lemma memcmp_zero: "length as = n \<Longrightarrow> length bs = n \<Longrightarrow> memcmp as bs n = 0 \<longleftrightarrow> as = bs"
  by (induction as bs n rule: memcmp.induct) auto

lemma memcmp_swap: "length as = n \<Longrightarrow> length bs = n \<Longrightarrow> memcmp bs as n = - memcmp as bs n"
  by (induction as bs n rule: memcmp.induct) auto

lemma compare_keys_zero:
  "compare_keys h1 key1 h2 key2 = 0 \<longleftrightarrow> fst (fkey (h1, key1, v1)) = fst (fkey (h2, key2, v2))"
  by (auto simp: compare_keys_def fkey_def memcmp_zero split: option.splits)

lemma compare_keys_swap: "compare_keys h2 key2 h1 key1 = - compare_keys h1 key1 h2 key2"
proof (cases "\<exists>s t. key1 = Some s \<and> key2 = Some t \<and> length s = length t")
  case True
  then obtain s t where "key1 = Some s" "key2 = Some t" "length s = length t" by blast
  then show ?thesis using memcmp_swap [of s "length t" t] by (simp add: compare_keys_def)
qed (auto simp: compare_keys_def split: option.split)

lemma compare_values_swap:
  assumes "\<And>x y. sgn (compar y x) = - sgn (compar x y)"
  shows "sgn (compare_values compar s2 s1 w v) = - sgn (compare_values compar s1 s2 v w)"
  using assms [of "deref s2 w" "deref s1 v"] by (auto simp: compare_values_def Let_def)

section \<open>The ordered comparison\<close>

definition compare_cells ::
  "'v HashTable \<Rightarrow> 'v HashTable \<Rightarrow> ('v zval \<Rightarrow> 'v zval \<Rightarrow> int) \<Rightarrow>
    64 word \<times> string option \<times> 'v zval \<Rightarrow> 64 word \<times> string option \<times> 'v zval \<Rightarrow> int" where
  "compare_cells ht1 ht2 compar c1 c2 =
     (case (c1, c2) of ((h1, key1, v1), (h2, key2, v2)) \<Rightarrow>
        if compare_keys h1 key1 h2 key2 \<noteq> 0 then compare_keys h1 key1 h2 key2
        else compare_values compar (cvs ht1) (cvs ht2) v1 v2)"

lemma compare_cells_swap:
  assumes "\<And>x y. sgn (compar y x) = - sgn (compar x y)"
  shows "sgn (compare_cells ht2 ht1 compar c2 c1) = - sgn (compare_cells ht1 ht2 compar c1 c2)"
proof -
  obtain h1 k1 v1 h2 k2 v2 where "c1 = (h1, k1, v1)" "c2 = (h2, k2, v2)" by (cases c1, cases c2)
  then show ?thesis
    using compare_keys_swap [of h2 k2 h1 k1] compare_values_swap [OF assms]
    by (auto simp: compare_cells_def)
qed

lemma compare_loop_ordered:
  "length (filter live_cell cs1) \<le> length (filter live_cell cs2) \<Longrightarrow>
    compare_loop ht1 ht2 compar True cs1 cs2 =
      Ret (seq_compare (compare_cells ht1 ht2 compar) (filter live_cell cs1) (filter live_cell cs2))"
proof (induction cs1 arbitrary: cs2)
  case (Cons c cs1)
  obtain h1 key1 v1 where c: "c = (h1, key1, v1)" by (cases c)
  show ?case
  proof (cases "v1 = IS_UNDEF")
    case False
    have dead: "(\<lambda>(h :: 64 word, key :: string option, v :: 'a zval). v = IS_UNDEF) = (\<lambda>c. \<not> live_cell c)" by auto
    have "filter live_cell cs2 \<noteq> []" using Cons.prems False by (auto simp: c)
    then obtain c2 rest where d: "dropWhile (\<lambda>c. \<not> live_cell c) cs2 = c2 # rest" "live_cell c2"
      by (metis (mono_tags, lifting) dropWhile_eq_Nil_conv filter_False hd_dropWhile list.exhaust_sel list.sel(1))
    have "filter live_cell cs2 = filter live_cell (dropWhile (\<lambda>c. \<not> live_cell c) cs2)"
      by (induction cs2) auto
    then have f: "filter live_cell cs2 = c2 # filter live_cell rest" using d by simp
    obtain h2 key2 v2 where c2: "c2 = (h2, key2, v2)" by (cases c2)
    have "length (filter live_cell cs1) \<le> length (filter live_cell rest)" using Cons.prems f False by (simp add: c)
    from Cons.IH [OF this] show ?thesis
      using False d(1) f unfolding dead by (simp add: c c2 dead compare_cells_def Let_def)
  qed (use Cons in \<open>simp add: c\<close>)
qed simp

lemma list_all2_cells:
  "list_all2 (\<lambda>c1 c2. compare_cells ht1 ht2 compar c1 c2 = 0) cs1 cs2 \<longleftrightarrow>
     list_all2 (\<lambda>(k, v) (k', v'). k = k' \<and> compare_values compar (cvs ht1) (cvs ht2) v v' = 0)
       (map fkey cs1) (map fkey cs2)"
proof -
  have "compare_cells ht1 ht2 compar c1 c2 = 0 \<longleftrightarrow>
      (case fkey c1 of (k, v) \<Rightarrow> case fkey c2 of (k', v') \<Rightarrow>
         k = k' \<and> compare_values compar (cvs ht1) (cvs ht2) v v' = 0)" for c1 c2
  proof -
    obtain h1 k1 v1 h2 k2 v2 where c: "c1 = (h1, k1, v1)" "c2 = (h2, k2, v2)" by (cases c1, cases c2)
    have s: "snd (fkey c1) = v1" "snd (fkey c2) = v2" by (simp_all add: c fkey_def)
    show ?thesis
      using compare_keys_zero [of h1 k1 h2 k2 v1 v2] s
      by (simp add: compare_cells_def c split_def)
  qed
  then show ?thesis by (simp add: list.rel_map split_def)
qed

section \<open>The unordered comparison\<close>

lemma compare_loop_unordered:
  assumes "hash_wf ht2"
  shows "\<exists>r. compare_loop ht1 ht2 compar False cs1 cs2 = Ret r \<and>
    (r = 0 \<longleftrightarrow> (\<forall>(k, v) \<in> set (map fkey (filter live_cell cs1)). \<exists>v'. map_of (ht_elems ht2) k = Some v' \<and>
      compare_values compar (cvs ht1) (cvs ht2) v v' = 0))"
proof (induction cs1)
  case (Cons c cs1)
  then obtain r where r: "compare_loop ht1 ht2 compar False cs1 cs2 = Ret r"
    "r = 0 \<longleftrightarrow> (\<forall>(k, v) \<in> set (map fkey (filter live_cell cs1)). \<exists>v'. map_of (ht_elems ht2) k = Some v' \<and>
      compare_values compar (cvs ht1) (cvs ht2) v v' = 0)" by blast
  obtain h1 key1 v1 where c: "c = (h1, key1, v1)" by (cases c)
  define k where "k = fst (fkey c)"
  have find: "(case key1 of None \<Rightarrow> zend_hash_index_find ht2 h1 | Some key1 \<Rightarrow> zend_hash_find ht2 key1) =
      Ret (map_of (ht_elems ht2) k)"
    using zend_hash_find_map [OF assms] zend_hash_index_find_map [OF assms]
    by (simp add: k_def c fkey_def split: option.split)
  have fk: "fkey c = (k, v1)" by (simp add: k_def c fkey_def)
  show ?case
  proof (cases "v1 = IS_UNDEF")
    case False
    then have s: "set (map fkey (filter live_cell (c # cs1))) = insert (k, v1) (set (map fkey (filter live_cell cs1)))"
      using fk by (simp add: c)
    show ?thesis
    proof (cases "map_of (ht_elems ht2) k")
      case None
      then show ?thesis unfolding s using False find by (simp add: c)
    next
      case (Some w)
      then show ?thesis unfolding s using False find r
        by (cases "compare_values compar (cvs ht1) (cvs ht2) v1 w = 0") (simp_all add: c Let_def)
    qed
  qed (use r in \<open>simp add: c\<close>)
qed simp

lemma same_maps:
  assumes "distinct (map fst xs)" and "distinct (map fst ys)"
  shows "length xs = length ys \<and> (\<forall>(k, v) \<in> set xs. \<exists>v'. map_of ys k = Some v' \<and> P v v') \<longleftrightarrow>
    (\<forall>k. rel_option P (map_of xs k) (map_of ys k))"
proof
  assume a: "length xs = length ys \<and> (\<forall>(k, v) \<in> set xs. \<exists>v'. map_of ys k = Some v' \<and> P v v')"
  have "fst ` set xs \<subseteq> fst ` set ys" using a by (force dest: map_of_SomeD)
  moreover have "card (fst ` set xs) = card (fst ` set ys)"
    using a assms by (metis distinct_card length_map list.set_map)
  ultimately have "fst ` set xs = fst ` set ys" by (simp add: card_subset_eq)
  then have dom: "map_of xs k = None \<longleftrightarrow> map_of ys k = None" for k by (metis map_of_eq_None_iff)
  show "\<forall>k. rel_option P (map_of xs k) (map_of ys k)"
  proof
    fix k
    show "rel_option P (map_of xs k) (map_of ys k)"
    proof (cases "map_of xs k")
      case (Some v)
      then show ?thesis using a map_of_SomeD [OF Some] by fastforce
    qed (use dom in simp)
  qed
next
  assume a: "\<forall>k. rel_option P (map_of xs k) (map_of ys k)"
  have "map_of xs k = None \<longleftrightarrow> map_of ys k = None" for k using a by (metis option.rel_sel)
  then have "fst ` set xs = fst ` set ys" by (metis map_of_eq_None_iff subsetI subset_antisym)
  then have "length xs = length ys" using assms by (metis distinct_card length_map list.set_map)
  moreover have "\<exists>v'. map_of ys k = Some v' \<and> P v v'" if "(k, v) \<in> set xs" for k v
    using a [rule_format, of k] that assms(1) by (cases "map_of ys k") auto
  ultimately show "length xs = length ys \<and> (\<forall>(k, v) \<in> set xs. \<exists>v'. map_of ys k = Some v' \<and> P v v')" by blast
qed

section \<open>Minimum and maximum\<close>

lemma minmax_loop_live: "minmax_loop compar flag zvs res = minmax_loop compar flag (filter (\<lambda>v. v \<noteq> IS_UNDEF) zvs) res"
  by (induction zvs arbitrary: res) simp_all

text \<open>With \<open>best\<close> the reflexive order the loop searches in, its result is the first best value.\<close>

lemma minmax_loop_first:
  assumes tot: "\<And>x y. \<not> best x y \<Longrightarrow> best y x" and tr: "\<And>x y z. best x y \<Longrightarrow> best y z \<Longrightarrow> best x z"
    and step: "\<And>res zv. (if flag then if compar res zv < 0 then zv else res else if compar res zv > 0 then zv else res) =
      (if best res zv then res else zv)"
    and "\<forall>v \<in> set zvs. v \<noteq> IS_UNDEF"
  shows "Some (minmax_loop compar flag zvs res) = find (\<lambda>v. \<forall>w \<in> set (res # zvs). best v w) (res # zvs)"
  using assms(4)
proof (induction zvs arbitrary: res)
  case Nil
  have "best res res" using tot by blast
  then show ?case by simp
next
  case (Cons z zvs)
  have refl: "best x x" for x using tot by blast
  let ?ok = "\<lambda>v. \<forall>w \<in> set (res # z # zvs). best v w"
  have ih: "Some (minmax_loop compar flag zvs x) = find (\<lambda>v. \<forall>w \<in> set (x # zvs). best v w) (x # zvs)" for x
    using Cons by simp
  have run: "minmax_loop compar flag (z # zvs) res = minmax_loop compar flag zvs (if best res z then res else z)"
    using Cons.prems step [of res z] by simp
  show ?case
  proof (cases "best res z")
    case True
    then have eq: "(\<forall>w \<in> set (res # zvs). best v w) = ?ok v" for v using tr [of v res z] by auto
    have "?ok z \<Longrightarrow> ?ok res" using True tr [of res z] by (auto simp: refl)
    then have "find ?ok (res # z # zvs) = find ?ok (res # zvs)" by auto
    then show ?thesis using ih [of res] run True eq by presburger
  next
    case False
    then have "best z res" using tot by blast
    then have eq: "(\<forall>w \<in> set (z # zvs). best v w) = ?ok v" for v using tr [of v z res] by auto
    have "find ?ok (res # z # zvs) = find ?ok (z # zvs)" using False by auto
    then show ?thesis using ih [of z] run False eq by presburger
  qed
qed

section \<open>Lists\<close>

lemma fill_packed_all: "length vs + length es \<le> cap \<Longrightarrow> fill_packed cap es vs = Some (vs @ es)"
  by (induction es arbitrary: vs) simp_all

definition list_keys :: "nat \<Rightarrow> hkey list" where
  "list_keys n = map (\<lambda>i. Idx (word_of_nat i)) [0..<n]"

lemma list_loop_keys:
  "list_loop cs (word_of_nat e) \<longleftrightarrow> map (fst \<circ> fkey) cs = map (\<lambda>i. Idx (word_of_nat i)) [e..<e + length cs]"
proof (induction cs arbitrary: e)
  case (Cons c cs)
  obtain h key v where c: "c = (h, key, v)" by (cases c)
  have "list_loop cs (word_of_nat e + 1) \<longleftrightarrow>
      map (fst \<circ> fkey) cs = map (\<lambda>i. Idx (word_of_nat i)) [Suc e..<Suc e + length cs]"
    using Cons.IH [of "Suc e"] by (simp add: add.commute o_def)
  moreover have "[e..<e + length (c # cs)] = e # [Suc e..<Suc e + length cs]" by (simp add: upt_conv_Cons del: upt_Suc)
  ultimately show ?case by (cases key) (simp_all add: c fkey_def o_def del: upt_Suc)
qed simp

lemma packed_elems_list:
  assumes "\<forall>v \<in> set vs. v \<noteq> IS_UNDEF"
  shows "map fst (packed_elems vs) = list_keys (length vs)" and "map snd (packed_elems vs) = vs"
proof -
  have "map fst (packed_elems vs) = map (\<lambda>i. Idx (word_of_nat i)) (map fst (enumerate 0 vs))"
    unfolding packed_elems_live [OF assms] map_map by (simp add: split_def o_def)
  then show "map fst (packed_elems vs) = list_keys (length vs)" by (simp add: list_keys_def map_fst_enumerate)
  show "map snd (packed_elems vs) = vs"
    unfolding packed_elems_live [OF assms] map_map using map_snd_enumerate [of 0 vs] by (simp add: split_def o_def)
qed

lemma full_packed_live:
  assumes "hash_wf ht" and "flag_packed ht" and "nNumUsed ht = nNumOfElements ht"
  shows "\<forall>v \<in> set (arPacked ht). v \<noteq> IS_UNDEF"
  using full_live [OF assms(1,3)] assms(2) by (simp add: ht_vals_def filter_id_conv)

lemma is_list_keys:
  assumes "hash_wf ht"
  shows "zend_array_is_list ht \<longleftrightarrow> map fst (ht_elems ht) = list_keys (length (ht_elems ht))"
proof -
  have n: "nNumOfElements ht = length (ht_elems ht)" using assms by (simp add: hash_wf_def)
  have full: "map fst (ht_elems ht) = list_keys (length (ht_elems ht))"
    if "flag_packed ht" "nNumUsed ht = nNumOfElements ht"
    using packed_elems_list(1) [OF full_packed_live [OF assms that]] that n by (simp add: ht_elems_def nNumUsed_def)
  have "list_loop (ZEND_HASH_FOREACH ht False) 0 \<longleftrightarrow> map fst (ht_elems ht) = list_keys (length (ht_elems ht))"
    using list_loop_keys [of "ZEND_HASH_FOREACH ht False" 0] unfolding foreach_elems [symmetric] list_keys_def by simp
  then show ?thesis using full n by (auto simp: zend_array_is_list_def list_keys_def)
qed

lemma new_array_fits:
  assumes "n < HT_MAX_SIZE"
  obtains t where "zend_new_array slots (word_of_nat n) = Ret t" "no_hash t" "size_ok (nTableSize t)" "n \<le> nTableSize t"
proof -
  have u: "unat (word_of_nat n :: 32 word) = n" using assms by (simp add: unsigned_of_nat take_bit_nat_eq_self)
  obtain ts where ts: "zend_hash_check_size (word_of_nat n) = Ret ts" "size_ok ts" "n \<le> ts"
  proof (cases "n \<le> HT_MIN_SIZE")
    case True
    then show ?thesis using u by (intro that [of 8]) (simp_all add: zend_hash_check_size_def size_ok_8)
  next
    case False
    then obtain k where k: "zend_hash_check_size (word_of_nat n) = Ret (2 ^ Suc k)" "3 \<le> Suc k" "Suc k \<le> 30" "n \<le> 2 ^ Suc k"
      using check_size_exp [of "word_of_nat n"] assms unfolding u by (metis not_le_imp_less)
    then have "size_ok (2 ^ Suc k)" unfolding size_ok_def by blast
    then show ?thesis using that k by blast
  qed
  then show thesis
    by (intro that) (auto simp: zend_new_array_def zend_hash_init_int_def no_hash_def)
qed

lemma to_list_ok:
  assumes "hash_wf ht" and "length (ht_elems ht) < HT_MAX_SIZE"
  obtains l where "zend_array_to_list ht = Ret l" "hash_wf l" "map snd (ht_elems l) = map snd (ht_elems ht)"
    "map fst (ht_elems l) = list_keys (length (ht_elems ht))" "nNextFreeElement l = int (length (ht_elems ht))"
proof -
  let ?vs = "map snd (ht_elems ht)"
  have n: "nNumOfElements ht = length (ht_elems ht)" using assms(1) by (simp add: hash_wf_def)
  obtain t where t: "zend_new_array (cvs ht) (word_of_nat (nNumOfElements ht)) = Ret t" "no_hash t" "size_ok (nTableSize t)"
    "length ?vs \<le> nTableSize t" using new_array_fits [OF assms(2)] n by (metis length_map)
  have vs: "map (\<lambda>(h, key, v). v) (ZEND_HASH_FOREACH ht False) = ?vs"
    unfolding foreach_elems [symmetric] map_map by (rule map_cong) (auto simp: fkey_def)
  have live: "\<forall>v \<in> set ?vs. v \<noteq> IS_UNDEF" using ht_elems_defined [of _ ht] by auto
  define r where "r = zend_hash_real_init t True"
  define l where "l = r\<lparr>arPacked := ?vs, nNumOfElements := length ?vs, nNextFreeElement := int (length ?vs),
      nInternalPointer := 0\<rparr>"
  have cap: "nTableSize r = nTableSize t"
    by (simp add: r_def zend_hash_real_init_def zend_hash_real_init_ex_def zend_hash_real_init_packed_ex_def)
  have "zend_array_to_list ht = Ret l"
    using t(1,4) fill_packed_all [of "[]" ?vs "nTableSize t"] cap
    by (simp add: zend_array_to_list_def vs l_def r_def Let_def run_of_def)
  moreover have e: "ht_elems l = packed_elems ?vs"
    by (simp add: l_def r_def ht_elems_def zend_hash_real_init_def zend_hash_real_init_ex_def
        zend_hash_real_init_packed_ex_def)
  moreover have "hash_wf l"
    using t(2-4) assms(2) arg_cong [OF packed_elems_list(2) [OF live], of length]
    by (simp add: hash_wf_def e) (simp add: l_def r_def no_hash_def zend_hash_real_init_def zend_hash_real_init_ex_def
        zend_hash_real_init_packed_ex_def)
  ultimately show thesis using that [of l] packed_elems_list [OF live] by (simp add: l_def)
qed

section \<open>Elements that refer to unset variables\<close>

lemma recalc_loop_length:
  "num \<ge> length cs \<Longrightarrow> \<forall>c \<in> set cs. live_cell c \<Longrightarrow>
    recalc_loop slots cs num + length cs = num + length (deref_elems slots (map fkey cs))"
proof (induction cs arbitrary: num)
  case (Cons c cs)
  obtain h key v where c: "c = (h, key, v)" by (cases c)
  have v: "v \<noteq> IS_UNDEF" using Cons.prems by (simp add: c)
  have d: "deref slots v = IS_UNDEF \<longleftrightarrow> (\<exists>k. v = IS_INDIRECT k \<and> slots k = IS_UNDEF)"
    using v by (cases v) (simp_all add: deref_def)
  show ?case
  proof (cases "deref slots v = IS_UNDEF")
    case True
    then have "recalc_loop slots (c # cs) num = recalc_loop slots cs (num - 1)" using d by (auto simp: c)
    then show ?thesis using Cons.IH [of "num - 1"] Cons.prems True by (simp add: c fkey_def)
  next
    case False
    then have "recalc_loop slots (c # cs) num = recalc_loop slots cs num" using d v by (auto simp: c split: zval.split)
    then show ?thesis using Cons.IH [of num] Cons.prems False by (simp add: c fkey_def)
  qed
qed simp

lemma recalc_elements: "hash_wf ht \<Longrightarrow> zend_array_recalc_elements ht = length (deref_elems (cvs ht) (ht_elems ht))"
proof -
  assume w: "hash_wf ht"
  have "\<forall>c \<in> set (ZEND_HASH_FOREACH ht False). live_cell c" by (simp add: ZEND_HASH_FOREACH_def)
  moreover have "nNumOfElements ht = length (ZEND_HASH_FOREACH ht False)"
    using w arg_cong [OF foreach_elems [of ht], of length] by (simp add: hash_wf_def)
  ultimately show ?thesis
    using recalc_loop_length [of "ZEND_HASH_FOREACH ht False" "nNumOfElements ht" "cvs ht"]
    by (simp add: zend_array_recalc_elements_def foreach_elems)
qed

text \<open>Unless the table is the symbol table, a reference to an unset variable is announced by a flag.\<close>

definition count_ok :: "bool \<Rightarrow> 'v HashTable \<Rightarrow> bool" where
  "count_ok is_sym ht \<longleftrightarrow> flag_empty_ind ht \<or> is_sym \<or> (\<forall>e \<in> set (ht_elems ht). deref (cvs ht) (snd e) \<noteq> IS_UNDEF)"

lemma deref_elems_length: "length (deref_elems slots es) = length (filter (\<lambda>e. deref slots (snd e) \<noteq> IS_UNDEF) es)"
  by (induction es) auto

lemma array_count:
  assumes "hash_wf ht" and "count_ok is_sym ht"
  shows "snd (zend_array_count is_sym ht) = length (deref_elems (cvs ht) (ht_elems ht))"
proof (cases "flag_empty_ind ht \<or> is_sym")
  case True
  then show ?thesis using recalc_elements [OF assms(1)] by (auto simp: zend_array_count_def Let_def)
next
  case False
  then have "filter (\<lambda>e. deref (cvs ht) (snd e) \<noteq> IS_UNDEF) (ht_elems ht) = ht_elems ht"
    using assms(2) by (auto simp: count_ok_def filter_id_conv)
  then have "length (deref_elems (cvs ht) (ht_elems ht)) = length (ht_elems ht)" by (simp only: deref_elems_length)
  then show ?thesis using False assms(1) by (simp add: zend_array_count_def hash_wf_def)
qed

lemma str_del_ind_eq: "zend_hash_str_del_ind ht str = zend_hash_del_ind ht str"
proof -
  have ind: "(let ht = call_dtor ht v in Ret (ht\<lparr>cvs := (cvs ht)(k := IS_UNDEF), flag_empty_ind := True\<rparr>, True)) =
      Ret ((call_dtor (ht\<lparr>cvs := (cvs ht)(k := IS_UNDEF)\<rparr>) v)\<lparr>flag_empty_ind := True\<rparr>, True)" for k v
    by (simp add: call_dtor_def Let_def)
  show ?thesis unfolding zend_hash_str_del_ind_def zend_hash_del_ind_def ind ..
qed

lemma string_search:
  fixes key :: string
  assumes "hash_wf ht"
  defines "R \<equiv> run_bind (HT_HASH ht (zend_inline_hash_func key))
    (\<lambda>idx. run_of (chain_del (has_string key (zend_inline_hash_func key)) (arData ht) idx None))"
  shows "case map_of (ht_elems ht) (Str key) of
      None \<Rightarrow> R = Ret None
    | Some v \<Rightarrow> \<exists>j prev. R = Ret (Some (j, prev)) \<and> b_val (arData ht ! j) = v"
proof -
  have R: "R = run_bind (HT_HASH ht (key_hash (Str key)))
      (\<lambda>idx. run_of (chain_del (key_matches (Str key)) (arData ht) idx None))"
    by (simp add: R_def key_matches_def)
  show ?thesis
  proof (cases "find_pos (Str key) (arData ht)")
    case None
    have "map_of (ht_elems ht) (Str key) = None"
    proof (cases "flag_packed ht")
      case True
      then show ?thesis using hash_wf_packed(2) [OF assms(1) True] string_not_packed by (simp add: map_of_eq_None_iff)
    next
      case False
      note w = hash_wf_data [OF assms(1) False]
      show ?thesis using find_pos_map_of [OF w(1,2), of "Str key"] None w(3) by simp
    qed
    then show ?thesis using chain_del_absent [OF assms(1) None] R by simp
  next
    case (Some j)
    then have "arData ht \<noteq> []" by (auto simp: find_pos_def)
    then have u: "in_use ht" using assms(1) by (auto simp: in_use_def hash_wf_def no_hash_def split: if_splits)
    then have np: "\<not> flag_packed ht" by (simp add: in_use_def)
    note w = hash_wf_data [OF assms(1) np]
    obtain pr where "R = Ret (Some (j, pr))" unfolding R by (rule chain_del_found [OF u Some])
    then show ?thesis using find_pos_map_of [OF w(1,2), of "Str key"] Some w(3) by simp
  qed
qed

lemma del_el_ex_flags:
  "zend_hash_del_el_ex ht idx prev = Ret ht' \<Longrightarrow> flag_empty_ind ht' = flag_empty_ind ht"
  by (auto simp: zend_hash_del_el_ex_def skip_deleted_def call_dtor_def Let_def split: if_splits option.splits)

lemma del_flags: "zend_hash_del ht key = Ret (ht', r) \<Longrightarrow> flag_empty_ind ht' = flag_empty_ind ht"
proof -
  assume a: "zend_hash_del ht key = Ret (ht', r)"
  have c: "flag_empty_ind (clear_key ht j) = flag_empty_ind ht" for j by (simp add: clear_key_def)
  show ?thesis
  proof (cases "ht' = ht")
    case False
    then obtain j prev where "zend_hash_del_el_ex (clear_key ht j) j prev = Ret ht'"
      using a by (auto simp: zend_hash_del_def Let_def run_bind_Ret split: option.splits)
    then show ?thesis using del_el_ex_flags c by metis
  qed simp
qed

text \<open>What unsetting an element through its name does to the table.\<close>

lemma del_ind_cases:
  assumes "hash_wf ht" and "count_ok is_sym ht"
  shows "case map_of (ht_elems ht) (Str key) of
      None \<Rightarrow> zend_hash_del_ind ht key = Ret (ht, False)
    | Some v \<Rightarrow>
        (case v of
           IS_INDIRECT k \<Rightarrow>
             zend_hash_del_ind ht key =
               (if cvs ht k = IS_UNDEF then Ret (ht, False)
                else Ret ((call_dtor (ht\<lparr>cvs := (cvs ht)(k := IS_UNDEF)\<rparr>) (cvs ht k))\<lparr>flag_empty_ind := True\<rparr>, True))
         | _ \<Rightarrow> \<exists>ht'. zend_hash_del_ind ht key = Ret (ht', True) \<and> deleted ht (Str key) v ht' \<and> count_ok is_sym ht')"
proof (cases "map_of (ht_elems ht) (Str key)")
  case None
  then show ?thesis using string_search [OF assms(1), of key]
    by (simp add: zend_hash_del_ind_def Let_def run_bind_assoc [symmetric])
next
  case (Some v)
  obtain j prev where R: "run_bind (HT_HASH ht (zend_inline_hash_func key))
      (\<lambda>idx. run_of (chain_del (has_string key (zend_inline_hash_func key)) (arData ht) idx None)) = Ret (Some (j, prev))"
    "b_val (arData ht ! j) = v" using string_search [OF assms(1), of key] Some by auto
  show ?thesis
  proof (cases "\<exists>k. v = IS_INDIRECT k")
    case True
    then show ?thesis using R Some by (auto simp: zend_hash_del_ind_def Let_def run_bind_assoc [symmetric])
  next
    case False
    have "zend_hash_del_ind ht key = zend_hash_del ht key"
      using R False by (simp add: zend_hash_del_ind_def zend_hash_del_def Let_def run_bind_assoc [symmetric] split: zval.split)
    moreover obtain ht' where d: "zend_hash_del ht key = Ret (ht', True)" "deleted ht (Str key) v ht'"
      using zend_hash_del_deleted [OF assms(1), of key] Some by (auto simp: del_spec_def)
    moreover have "count_ok is_sym ht'"
    proof -
      have "set (ht_elems ht') \<subseteq> set (ht_elems ht)" using d(2) by (auto simp: deleted_def AList.delete_eq)
      then show ?thesis using assms(2) del_flags [OF d(1)] d(2) by (auto simp: count_ok_def deleted_def)
    qed
    ultimately show ?thesis using Some False by (auto split: zval.split)
  qed
qed

section \<open>Sample tables\<close>

definition nat_cmp :: "nat zval \<Rightarrow> nat zval \<Rightarrow> int" where
  "nat_cmp x y = zval_num x - zval_num y"

lemma total_nat_cmp: "total_cmp nat_cmp"
  by (auto simp: total_cmp_def nat_cmp_def)

section \<open>Properties\<close>

text \<open>C32. \<open>zend_hash_compare\<close> of two tables always returns: the ordered comparison never steps over the end of
  the second table. It returns 0 exactly when the tables are equal, with order as sequences of keys and
  values, without as maps from keys to values; with different numbers of elements the larger table is
  greater; and the ordered comparison is antisymmetric when that of the values is.\<close>

theorem zend_hash_compare_correct:
  assumes "hash_wf ht1" and "hash_wf ht2"
  shows "\<exists>r. zend_hash_compare False False ht1 ht2 compar ordered = Ret r \<and>
    (r = 0 \<longleftrightarrow>
      (if ordered
       then list_all2 (\<lambda>(k, v) (k', v'). k = k' \<and> compare_values compar (cvs ht1) (cvs ht2) v v' = 0)
              (ht_elems ht1) (ht_elems ht2)
       else \<forall>k. rel_option (\<lambda>v v'. compare_values compar (cvs ht1) (cvs ht2) v v' = 0)
              (map_of (ht_elems ht1) k) (map_of (ht_elems ht2) k))) \<and>
    (length (ht_elems ht1) \<noteq> length (ht_elems ht2) \<longrightarrow>
      r = (if length (ht_elems ht1) > length (ht_elems ht2) then 1 else -1)) \<and>
    (ordered \<and> (\<forall>x y. sgn (compar y x) = - sgn (compar x y)) \<longrightarrow>
      (\<exists>r'. zend_hash_compare False False ht2 ht1 compar ordered = Ret r' \<and> sgn r' = - sgn r))"
proof (cases "length (ht_elems ht1) = length (ht_elems ht2)")
  case False
  have n: "nNumOfElements ht1 = length (ht_elems ht1)" "nNumOfElements ht2 = length (ht_elems ht2)"
    using assms by (simp_all add: hash_wf_def)
  have "\<not> (\<forall>k. rel_option P (map_of (ht_elems ht1) k) (map_of (ht_elems ht2) k))" for P
    using same_maps [OF assms [THEN hash_wf_keys], of P] False by blast
  then show ?thesis
    using False list_all2_lengthD n
    by (auto simp: zend_hash_compare_def zend_hash_compare_impl_def)
next
  case True
  have n: "nNumOfElements ht1 = nNumOfElements ht2" using assms True by (simp add: hash_wf_def)
  let ?c1 = "filter live_cell (ht_cells ht1)" and ?c2 = "filter live_cell (ht_cells ht2)"
  have e: "map fkey ?c1 = ht_elems ht1" "map fkey ?c2 = ht_elems ht2"
    using foreach_elems [of ht1] foreach_elems [of ht2] unfolding foreach_cells .
  have len: "length ?c1 = length ?c2" using True arg_cong [OF e(1), of length] arg_cong [OF e(2), of length] by simp
  show ?thesis
  proof (cases ordered)
    case o: True
    have c: "zend_hash_compare False False ht1 ht2 compar ordered = Ret (seq_compare (compare_cells ht1 ht2 compar) ?c1 ?c2)"
      "zend_hash_compare False False ht2 ht1 compar ordered = Ret (seq_compare (compare_cells ht2 ht1 compar) ?c2 ?c1)"
      using compare_loop_ordered [of "ht_cells ht1" "ht_cells ht2"] compare_loop_ordered [of "ht_cells ht2" "ht_cells ht1"] len n o
      by (simp_all add: zend_hash_compare_def zend_hash_compare_impl_def)
    have z: "seq_compare (compare_cells ht1 ht2 compar) ?c1 ?c2 = 0 \<longleftrightarrow>
        list_all2 (\<lambda>(k, v) (k', v'). k = k' \<and> compare_values compar (cvs ht1) (cvs ht2) v v' = 0) (ht_elems ht1) (ht_elems ht2)"
      using seq_compare_zero [OF len] list_all2_cells [of ht1 ht2 compar ?c1 ?c2] unfolding e by simp
    define anti where "anti \<longleftrightarrow> (\<forall>x y. sgn (compar y x) = - sgn (compar x y))"
    have "sgn (seq_compare (compare_cells ht2 ht1 compar) ?c2 ?c1) = - sgn (seq_compare (compare_cells ht1 ht2 compar) ?c1 ?c2)"
      if anti
      by (rule seq_compare_swap, rule compare_cells_swap) (use that in \<open>unfold anti_def, blast\<close>)
    then show ?thesis using c z o True unfolding anti_def [symmetric] by simp
  next
    case o: False
    have run: "zend_hash_compare False False ht1 ht2 compar ordered =
        compare_loop ht1 ht2 compar False (ht_cells ht1) (ht_cells ht2)"
      using n o by (simp add: zend_hash_compare_def zend_hash_compare_impl_def)
    obtain r where r: "zend_hash_compare False False ht1 ht2 compar ordered = Ret r"
      "r = 0 \<longleftrightarrow> (\<forall>(k, v) \<in> set (ht_elems ht1). \<exists>v'. map_of (ht_elems ht2) k = Some v' \<and>
        compare_values compar (cvs ht1) (cvs ht2) v v' = 0)"
      using compare_loop_unordered [OF assms(2), of ht1 compar "ht_cells ht1" "ht_cells ht2"]
      unfolding run e(1) by blast
    then show ?thesis
      using o True same_maps [OF assms [THEN hash_wf_keys], of "\<lambda>v v'. compare_values compar (cvs ht1) (cvs ht2) v v' = 0"]
      by auto
  qed
qed

theorem zend_hash_compare_correct_witness:
  "hash_wf pair_table \<and> (\<exists>r. zend_hash_compare False False pair_table fresh_table nat_cmp False = Ret r \<and> r = 1) \<and>
    (\<exists>r. zend_hash_compare False False pair_table pair_table nat_cmp True = Ret r \<and> r = 0)"
  using zend_hash_compare_correct [OF pair_table_wf(1) fresh_table_wf(1), of nat_cmp False]
    zend_hash_compare_correct [OF pair_table_wf(1) pair_table_wf(1), of nat_cmp True]
  by (auto simp: pair_table_wf fresh_table_wf nat_cmp_def compare_values_def deref_def)

text \<open>\<open>zend_hash_minmax\<close> returns, for a comparison that is a total preorder, the first value in the order
  of the table that no other value exceeds, or with \<open>flag\<close> unset is below; for an empty table it returns
  nothing.\<close>

theorem zend_hash_minmax_correct:
  assumes "hash_wf ht" and "total_cmp compar"
  shows "zend_hash_minmax ht compar flag =
    find (\<lambda>v. \<forall>w \<in> set (map snd (ht_elems ht)). if flag then compar v w \<ge> 0 else compar v w \<le> 0) (map snd (ht_elems ht))"
proof -
  let ?best = "\<lambda>v w. if flag then compar v w \<ge> 0 else compar v w \<le> 0"
  let ?live = "\<lambda>v. v \<noteq> IS_UNDEF"
  have t: "compar y x > 0 \<longleftrightarrow> compar x y < 0" "compar x y \<le> 0 \<Longrightarrow> compar y z \<le> 0 \<Longrightarrow> compar x z \<le> 0" for x y z
    using assms(2) unfolding total_cmp_def by blast+
  have tot: "\<not> ?best x y \<Longrightarrow> ?best y x" for x y using t(1) [of x y] t(1) [of y x] by (auto split: if_splits)
  have tr: "?best x y \<Longrightarrow> ?best y z \<Longrightarrow> ?best x z" for x y z
    using t(2) [of x y z] t(2) [of z y x] t(1) [of x y] t(1) [of y z] t(1) [of x z] t(1) [of y x] t(1) [of z y] t(1) [of z x]
    by (auto simp: not_less [symmetric] split: if_splits)
  have step: "(if flag then if compar res zv < 0 then zv else res else if compar res zv > 0 then zv else res) =
      (if ?best res zv then res else zv)" for res zv by auto
  show ?thesis
  proof (cases "dropWhile (\<lambda>v. v = IS_UNDEF) (ht_vals ht)")
    case Nil
    then have "ht_elems ht = []" using vals_elems [of ht] by simp
    then show ?thesis using assms(1) by (simp add: zend_hash_minmax_def hash_wf_def)
  next
    case (Cons res zvs)
    have "res \<noteq> IS_UNDEF" using Cons hd_dropWhile [of "\<lambda>v. v = IS_UNDEF" "ht_vals ht"] by simp
    moreover have "filter ?live (dropWhile (\<lambda>v. v = IS_UNDEF) vs) = filter ?live vs" for vs :: "'a zval list"
      by (induction vs) auto
    from this [of "ht_vals ht"] have "filter ?live (ht_vals ht) = filter ?live (res # zvs)" unfolding Cons by simp
    ultimately have m: "map snd (ht_elems ht) = res # filter ?live zvs" using vals_elems [of ht] Cons by simp
    have "?best res res" using tot [of res res] by blast
    then have "minmax_loop compar flag (res # zvs) res = minmax_loop compar flag (filter ?live zvs) res"
      using \<open>res \<noteq> IS_UNDEF\<close> minmax_loop_live [of compar flag zvs res] by auto
    moreover have "Some (minmax_loop compar flag (filter ?live zvs) res) =
        find (\<lambda>v. \<forall>w \<in> set (map snd (ht_elems ht)). ?best v w) (map snd (ht_elems ht))"
      unfolding m by (rule minmax_loop_first [OF tot tr step]) auto
    moreover have "nNumOfElements ht \<noteq> 0" using assms(1) m by (auto simp: hash_wf_def)
    ultimately show ?thesis using Cons by (simp add: zend_hash_minmax_def)
  qed
qed

theorem zend_hash_minmax_correct_witness:
  "hash_wf pair_table \<and> zend_hash_minmax pair_table nat_cmp True = Some (IS_VALUE 9) \<and>
    zend_hash_minmax pair_table nat_cmp False = Some (IS_VALUE 7)"
  using zend_hash_minmax_correct [OF pair_table_wf(1) total_nat_cmp, of True]
    zend_hash_minmax_correct [OF pair_table_wf(1) total_nat_cmp, of False]
  by (simp add: pair_table_wf nat_cmp_def zval_num_def)

text \<open>\<open>zend_array_to_list\<close> stays inside the array it allocates and returns a table whose keys are 0, 1, 2
  and so on and whose values are those of the source in order; the next key is the number of elements.
  \<open>zend_array_is_list\<close> recognises exactly the tables with such keys, and for those the new table has the
  same elements.\<close>

theorem zend_array_list_correct:
  assumes "hash_wf ht" and "length (ht_elems ht) < HT_MAX_SIZE"
  shows "\<exists>l. zend_array_to_list ht = Ret l \<and> hash_wf l \<and> zend_array_is_list l \<and>
    map fst (ht_elems l) = list_keys (length (ht_elems ht)) \<and> map snd (ht_elems l) = map snd (ht_elems ht) \<and>
    nNextFreeElement l = int (length (ht_elems ht)) \<and>
    (zend_array_is_list ht \<longleftrightarrow> map fst (ht_elems ht) = list_keys (length (ht_elems ht))) \<and>
    (zend_array_is_list ht \<longrightarrow> ht_elems l = ht_elems ht)"
proof -
  obtain l where l: "zend_array_to_list ht = Ret l" "hash_wf l" "map snd (ht_elems l) = map snd (ht_elems ht)"
    "map fst (ht_elems l) = list_keys (length (ht_elems ht))" "nNextFreeElement l = int (length (ht_elems ht))"
    by (rule to_list_ok [OF assms])
  have "length (ht_elems l) = length (ht_elems ht)" using arg_cong [OF l(3), of length] by simp
  then have "zend_array_is_list l" using is_list_keys [OF l(2)] l(4) by simp
  moreover have "ht_elems l = ht_elems ht" if "zend_array_is_list ht"
    using that is_list_keys [OF assms(1)] l(3,4) by (metis zip_map_fst_snd)
  ultimately show ?thesis using l is_list_keys [OF assms(1)] by blast
qed

theorem zend_array_list_correct_witness:
  "hash_wf pair_table \<and> zend_array_is_list pair_table \<and>
    (\<exists>l. zend_array_to_list pair_table = Ret l \<and> ht_elems l = [(Idx 0, IS_VALUE 7), (Idx 1, IS_VALUE 9)])"
proof -
  have "list_keys (Suc (Suc 0)) = [Idx 0, Idx 1]" by (simp add: list_keys_def)
  then show ?thesis
    using zend_array_list_correct [OF pair_table_wf(1)] by (auto simp: pair_table_wf)
qed

text \<open>\<open>zend_hash_del_ind\<close> and \<open>zend_hash_str_del_ind\<close> on an element that refers to a variable slot unset the
  variable and leave the element, once; on any other element they delete it; both hand the value to the
  destructor. Afterwards \<open>zend_array_count\<close> still counts exactly the elements that have a value.\<close>

theorem zend_hash_del_ind_correct:
  assumes "hash_wf ht" and "count_ok is_sym ht"
  shows "zend_hash_str_del_ind ht key = zend_hash_del_ind ht key \<and>
    (\<exists>ht' ok. zend_hash_del_ind ht key = Ret (ht', ok) \<and> hash_wf ht' \<and>
      snd (zend_array_count is_sym ht') = length (deref_elems (cvs ht') (ht_elems ht')) \<and>
      (case map_of (ht_elems ht) (Str key) of
         None \<Rightarrow> ht' = ht \<and> \<not> ok
       | Some (IS_INDIRECT k) \<Rightarrow>
           if cvs ht k = IS_UNDEF then ht' = ht \<and> \<not> ok
           else ok \<and> ht_elems ht' = ht_elems ht \<and> cvs ht' = (cvs ht)(k := IS_UNDEF) \<and>
             dtor_calls ht' = dtor_calls ht @ (if pDestructor ht then [cvs ht k] else [])
       | Some old \<Rightarrow>
           ok \<and> ht_elems ht' = AList.delete (Str key) (ht_elems ht) \<and> cvs ht' = cvs ht \<and>
             dtor_calls ht' = dtor_calls ht @ (if pDestructor ht then [old] else [])))"
proof -
  note c = del_ind_cases [OF assms, of key]
  have same: "\<exists>ht' ok. zend_hash_del_ind ht key = Ret (ht', ok) \<and> hash_wf ht' \<and>
      snd (zend_array_count is_sym ht') = length (deref_elems (cvs ht') (ht_elems ht')) \<and> ht' = ht \<and> \<not> ok"
    if "zend_hash_del_ind ht key = Ret (ht, False)" using that assms array_count by blast
  show ?thesis
  proof (cases "map_of (ht_elems ht) (Str key)")
    case None
    then show ?thesis using c same str_del_ind_eq [of ht key] by simp
  next
    case (Some v)
    show ?thesis
    proof (cases "\<exists>k. v = IS_INDIRECT k")
      case True
      then obtain k where k: "v = IS_INDIRECT k" by blast
      show ?thesis
      proof (cases "cvs ht k = IS_UNDEF")
        case True
        then show ?thesis using c same str_del_ind_eq [of ht key] Some k by simp
      next
        case False
        define ht' where "ht' = (call_dtor (ht\<lparr>cvs := (cvs ht)(k := IS_UNDEF)\<rparr>) (cvs ht k))\<lparr>flag_empty_ind := True\<rparr>"
        have w: "ht_elems ht' = ht_elems ht" "cvs ht' = (cvs ht)(k := IS_UNDEF)" "flag_empty_ind ht'"
          "dtor_calls ht' = dtor_calls ht @ (if pDestructor ht then [cvs ht k] else [])"
          by (simp_all add: ht'_def call_dtor_def ht_elems_def)
        have "hash_wf ht' = hash_wf ht"
          by (simp add: ht'_def call_dtor_def hash_wf_def no_hash_def mixed_wf_def ht_elems_def)
        then have wf: "hash_wf ht'" using assms(1) by simp
        with w have "snd (zend_array_count is_sym ht') = length (deref_elems (cvs ht') (ht_elems ht'))"
          by (intro array_count) (simp_all add: count_ok_def)
        then show ?thesis using c str_del_ind_eq [of ht key] Some k False w wf by (auto simp: ht'_def [symmetric])
      qed
    next
      case False
      then obtain ht' where "zend_hash_del_ind ht key = Ret (ht', True)" "deleted ht (Str key) v ht'" "count_ok is_sym ht'"
        using c Some by (cases v) auto
      then show ?thesis using False Some str_del_ind_eq [of ht key] array_count [of ht' is_sym]
        by (cases v) (auto simp: deleted_def)
    qed
  qed
qed

theorem zend_hash_del_ind_correct_witness:
  "hash_wf pair_table \<and> count_ok False pair_table \<and> zend_hash_del_ind pair_table ''k'' = Ret (pair_table, False) \<and>
    snd (zend_array_count False pair_table) = 2"
proof -
  have c: "count_ok False pair_table" by (simp add: count_ok_def pair_table_wf deref_def)
  from zend_hash_del_ind_correct [OF pair_table_wf(1) c, of "''k''"] show ?thesis
    using c by (auto simp: pair_table_wf deref_def)
qed

end
