(* ===== verification/Cal_Sdn.thy ===== *)
theory Cal_Sdn
  imports Prelude "HOL-Library.Signed_Division"
begin

text \<open>
  Serial day numbers: the conversions of \<open>gregor.c\<close>, \<open>julian.c\<close> and \<open>french.c\<close> of \<open>ext/calendar\<close> and the day of
  the week of \<open>dow.c\<close>. A date is the triple of the output parameters \<open>*pYear\<close>, \<open>*pMonth\<close> and \<open>*pDay\<close>. Where the
  operands are not negative the truncating division of C is \<open>div\<close> and \<open>mod\<close>.

  The proofs see a calendar year that begins in March, so that the leap day is its last day: centuries,
  years and months then are blocks of days that start at \<open>(a * c + f) div k\<close> for block number \<open>c\<close>, and the
  block of a day is found by the division in the code.
\<close>

section \<open>The Gregorian calendar\<close>

abbreviation GREGOR_SDN_OFFSET :: int where "GREGOR_SDN_OFFSET \<equiv> 32045"
abbreviation DAYS_PER_5_MONTHS :: int where "DAYS_PER_5_MONTHS \<equiv> 153"
abbreviation DAYS_PER_4_YEARS :: int where "DAYS_PER_4_YEARS \<equiv> 1461"
abbreviation DAYS_PER_400_YEARS :: int where "DAYS_PER_400_YEARS \<equiv> 146097"

text \<open>The last steps of \<open>SdnToGregorian\<close> and \<open>SdnToJulian\<close>, from the day of the year on.\<close>

definition month_and_day :: "int \<Rightarrow> int \<Rightarrow> (int \<times> int \<times> int) run" where
  "month_and_day year dayOfYear =
     (let temp = dayOfYear * 5 - 3;
          month = temp div DAYS_PER_5_MONTHS;
          day = (temp mod DAYS_PER_5_MONTHS) div 5 + 1
      in run_bind (if month < 10 then Ret (year, month + 3)
                   else run_bind (c_int (year + 1)) (\<lambda>year. Ret (year, month - 9))) (\<lambda>(year, month).
         run_bind (c_int (year - 4800)) (\<lambda>year.
         run_bind (if year \<le> 0 then c_int (year - 1) else Ret year) (\<lambda>year.
           Ret (year, month, day)))))"

definition SdnToGregorian :: "int \<Rightarrow> (int \<times> int \<times> int) run" where
  "SdnToGregorian sdn =
     (if sdn \<le> 0 \<or> sdn > (ZEND_LONG_MAX - 4 * GREGOR_SDN_OFFSET) div 4 then Ret (0, 0, 0)
      else
        run_bind (c_long ((sdn + GREGOR_SDN_OFFSET) * 4 - 1)) (\<lambda>temp.
          if temp < 0 \<or> temp div DAYS_PER_400_YEARS > INT_MAX then Ret (0, 0, 0)
          else
            let century = temp div DAYS_PER_400_YEARS;
                temp = ((temp mod DAYS_PER_400_YEARS) div 4) * 4 + 3
            in if century > INT_MAX div 100 - temp div DAYS_PER_4_YEARS then Ret (0, 0, 0)
               else
                 run_bind (c_int (century * 100 + temp div DAYS_PER_4_YEARS)) (\<lambda>year.
                   month_and_day year ((temp mod DAYS_PER_4_YEARS) div 4 + 1))))"

text \<open>The first steps of \<open>GregorianToSdn\<close> and \<open>JulianToSdn\<close>: the year is counted from 4801 B.C. and begins in
  March. The sum is computed as an \<open>int\<close>.\<close>

definition shifted_year :: "int \<Rightarrow> int \<Rightarrow> (int \<times> int) run" where
  "shifted_year inputYear inputMonth =
     run_bind (c_int (if inputYear < 0 then inputYear + 4801 else inputYear + 4800)) (\<lambda>year.
       Ret (if inputMonth > 2 then (year, inputMonth - 3) else (year - 1, inputMonth + 9)))"

definition GregorianToSdn :: "int \<Rightarrow> int \<Rightarrow> int \<Rightarrow> int run" where
  "GregorianToSdn inputYear inputMonth inputDay =
     (if inputYear = 0 \<or> inputYear < - 4714 \<or> inputMonth \<le> 0 \<or> inputMonth > 12 \<or> inputDay \<le> 0 \<or> inputDay > 31
      then Ret 0
      else if inputYear = - 4714 \<and> (inputMonth < 11 \<or> inputMonth = 11 \<and> inputDay < 25) then Ret 0
      else
        run_bind (shifted_year inputYear inputMonth) (\<lambda>(year, month).
          Ret (((year div 100) * DAYS_PER_400_YEARS) div 4 + ((year mod 100) * DAYS_PER_4_YEARS) div 4
               + (month * DAYS_PER_5_MONTHS + 2) div 5 + inputDay - GREGOR_SDN_OFFSET)))"

section \<open>The Julian calendar\<close>

abbreviation JULIAN_SDN_OFFSET :: int where "JULIAN_SDN_OFFSET \<equiv> 32083"

definition SdnToJulian :: "int \<Rightarrow> (int \<times> int \<times> int) run" where
  "SdnToJulian sdn =
     (if sdn \<le> 0 then Ret (0, 0, 0)
      else if sdn > (ZEND_LONG_MAX - JULIAN_SDN_OFFSET * 4 + 1) div 4 \<or> sdn < ZEND_LONG_MIN div 4 then Ret (0, 0, 0)
      else
        run_bind (c_long (sdn * 4 + (JULIAN_SDN_OFFSET * 4 - 1))) (\<lambda>temp.
          let yearl = temp div DAYS_PER_4_YEARS
          in if yearl > INT_MAX \<or> yearl < INT_MIN then Ret (0, 0, 0)
             else month_and_day yearl ((temp mod DAYS_PER_4_YEARS) div 4 + 1)))"

definition JulianToSdn :: "int \<Rightarrow> int \<Rightarrow> int \<Rightarrow> int run" where
  "JulianToSdn inputYear inputMonth inputDay =
     (if inputYear = 0 \<or> inputYear < - 4713 \<or> inputMonth \<le> 0 \<or> inputMonth > 12 \<or> inputDay \<le> 0 \<or> inputDay > 31
      then Ret 0
      else if inputYear = - 4713 \<and> inputMonth = 1 \<and> inputDay = 1 then Ret 0
      else
        run_bind (shifted_year inputYear inputMonth) (\<lambda>(year, month).
          Ret ((year * DAYS_PER_4_YEARS) div 4 + (month * DAYS_PER_5_MONTHS + 2) div 5 + inputDay - JULIAN_SDN_OFFSET)))"

section \<open>The French republican calendar\<close>

abbreviation FRENCH_SDN_OFFSET :: int where "FRENCH_SDN_OFFSET \<equiv> 2375474"
abbreviation DAYS_PER_MONTH :: int where "DAYS_PER_MONTH \<equiv> 30"
abbreviation FIRST_VALID :: int where "FIRST_VALID \<equiv> 2375840"
abbreviation LAST_VALID :: int where "LAST_VALID \<equiv> 2380952"

definition SdnToFrench :: "int \<Rightarrow> (int \<times> int \<times> int) run" where
  "SdnToFrench sdn =
     (if sdn < FIRST_VALID \<or> sdn > LAST_VALID then Ret (0, 0, 0)
      else
        let temp = (sdn - FRENCH_SDN_OFFSET) * 4 - 1;
            dayOfYear = (temp mod DAYS_PER_4_YEARS) div 4
        in Ret (temp div DAYS_PER_4_YEARS, dayOfYear div DAYS_PER_MONTH + 1, dayOfYear mod DAYS_PER_MONTH + 1))"

definition FrenchToSdn :: "int \<Rightarrow> int \<Rightarrow> int \<Rightarrow> int run" where
  "FrenchToSdn year month day =
     Ret (if year < 1 \<or> year > 14 \<or> month < 1 \<or> month > 13 \<or> day < 1 \<or> day > 30 then 0
          else (year * DAYS_PER_4_YEARS) div 4 + (month - 1) * DAYS_PER_MONTH + day + FRENCH_SDN_OFFSET)"

section \<open>The day of the week\<close>

text \<open>0 is Sunday.\<close>

definition DayOfWeek :: "int \<Rightarrow> int" where
  "DayOfWeek sdn = (sdn smod 7 + 8) mod 7"

section \<open>Blocks of days\<close>

text \<open>Block \<open>c\<close> starts with day \<open>(a * c + f) div k\<close>. The day \<open>x\<close> lies in block \<open>(k * x + e) div a\<close>, and the
  remainder gives its place there.\<close>

lemma block_split:
  fixes a k f e c x :: int
  assumes "k > 0" "f + e = k - 1" "a > 0"
  shows "x = (a * ((k * x + e) div a) + f) div k + ((k * x + e) mod a) div k"
proof -
  let ?c = "(k * x + e) div a" and ?s = "(k * x + e) mod a"
  let ?u = "(a * ?c + f) mod k" and ?v = "?s mod k"
  have "(a * ?c + f) + ?s = k * x + (k - 1)" using assms(2) mult_div_mod_eq [of a "k * x + e"] by simp
  moreover have "a * ?c + f = k * ((a * ?c + f) div k) + ?u" "?s = k * (?s div k) + ?v" by simp_all
  ultimately have sum: "k * ((a * ?c + f) div k + ?s div k - x) = k - 1 - ?u - ?v" by (simp add: algebra_simps)
  have uv: "0 \<le> ?u" "?u < k" "0 \<le> ?v" "?v < k" using assms(1) by simp_all
  have "(a * ?c + f) div k + ?s div k - x < 1"
  proof (rule ccontr)
    assume "\<not> ?thesis"
    then have "k * 1 \<le> k * ((a * ?c + f) div k + ?s div k - x)" using assms(1) by (intro mult_left_mono) auto
    then show False using sum uv by linarith
  qed
  moreover have "(a * ?c + f) div k + ?s div k - x > - 1"
  proof (rule ccontr)
    assume "\<not> ?thesis"
    then have "k * ((a * ?c + f) div k + ?s div k - x) \<le> k * - 1" using assms(1) by (intro mult_left_mono) auto
    then show False using sum uv by linarith
  qed
  ultimately show ?thesis by linarith
qed

lemma div_rem:
  fixes n a :: int
  assumes "a > 0"
  obtains s where "n = a * (n div a) + s" "n mod a = s" "0 \<le> s" "s < a"
  using assms that [of "n mod a"] by simp

lemma block_join:
  fixes a k f e c r :: int
  assumes "k > 0" "f + e = k - 1" "0 \<le> f" "0 \<le> e" "0 \<le> r" "r < (a * (c + 1) + f) div k - (a * c + f) div k"
  defines "x \<equiv> (a * c + f) div k + r"
  shows "(k * x + e) div a = c" and "((k * x + e) mod a) div k = r"
proof -
  let ?u = "(a * c + f) mod k" and ?w = "(a * (c + 1) + f) mod k"
  define s where "s = k * r + (k - 1 - ?u)"
  have uw: "0 \<le> ?u" "?u < k" "0 \<le> ?w" using assms(1) by simp_all
  have u: "k * ((a * c + f) div k) = a * c + f - ?u" and w: "k * ((a * (c + 1) + f) div k) = a * (c + 1) + f - ?w"
    by (simp_all add: minus_mod_eq_mult_div [symmetric])
  have x: "k * x + e = s + c * a"
    using u assms(2) by (simp add: x_def s_def algebra_simps)
  have s0: "0 \<le> s" using uw assms(1,5) by (simp add: s_def)
  have "k * (r + 1) \<le> k * ((a * (c + 1) + f) div k - (a * c + f) div k)"
    using assms(1,6) by (intro mult_left_mono) linarith+
  then have "k * r + k \<le> (a * (c + 1) + f - ?w) - (a * c + f - ?u)"
    unfolding right_diff_distrib u w by (simp only: distrib_left mult_1_right)
  moreover have "a * (c + 1) = a * c + a" by (simp add: algebra_simps)
  ultimately have s1: "s < a" unfolding s_def using uw by linarith
  show "(k * x + e) div a = c" unfolding x using s0 s1 by simp
  have "(k - 1 - ?u) div k = 0" by (rule div_pos_pos_trivial) (use uw in linarith)+
  then have "s div k = r" unfolding s_def using assms(1) by simp
  then show "((k * x + e) mod a) div k = r" unfolding x using s0 s1 by simp
qed

section \<open>The calendars as they are defined\<close>

text \<open>There is no year 0: the year before 1 is \<open>- 1\<close>. The leap year rules are those of the astronomical count,
  where that year is 0.\<close>

definition ayear :: "int \<Rightarrow> int" where
  "ayear y = (if y < 0 then y + 1 else y)"

definition gregorian_leap :: "int \<Rightarrow> bool" where
  "gregorian_leap y \<longleftrightarrow> 4 dvd ayear y \<and> (\<not> 100 dvd ayear y \<or> 400 dvd ayear y)"

definition julian_leap :: "int \<Rightarrow> bool" where
  "julian_leap y \<longleftrightarrow> 4 dvd ayear y"

definition month_length :: "bool \<Rightarrow> int \<Rightarrow> int" where
  "month_length leap m =
     (if m = 2 then if leap then 29 else 28 else if m = 4 \<or> m = 6 \<or> m = 9 \<or> m = 11 then 30 else 31)"

definition valid_date :: "(int \<Rightarrow> bool) \<Rightarrow> int \<times> int \<times> int \<Rightarrow> bool" where
  "valid_date leap = (\<lambda>(y, m, d). y \<noteq> 0 \<and> 1 \<le> m \<and> m \<le> 12 \<and> 1 \<le> d \<and> d \<le> month_length (leap y) m)"

definition next_date :: "(int \<Rightarrow> bool) \<Rightarrow> int \<times> int \<times> int \<Rightarrow> int \<times> int \<times> int" where
  "next_date leap = (\<lambda>(y, m, d).
     if d < month_length (leap y) m then (y, m, d + 1)
     else if m < 12 then (y, m + 1, 1)
     else (if y = - 1 then 1 else y + 1, 1, 1))"

text \<open>The date in years that begin in March, counted from 4801 B.C.\<close>

definition myear :: "int \<Rightarrow> int \<Rightarrow> int" where
  "myear y m = ayear y + 4800 - (if m > 2 then 0 else 1)"

definition mmonth :: "int \<Rightarrow> int" where
  "mmonth m = (if m > 2 then m - 3 else m + 9)"

text \<open>The first day of a month in such a year, and the length of the year.\<close>

definition mstart :: "int \<Rightarrow> int" where
  "mstart M = (M * 153 + 2) div 5"

lemma mmonth_cases:
  assumes "0 \<le> M" "M \<le> 11"
  shows "M = 0 \<or> M = 1 \<or> M = 2 \<or> M = 3 \<or> M = 4 \<or> M = 5 \<or> M = 6 \<or> M = 7 \<or> M = 8 \<or> M = 9 \<or> M = 10 \<or> M = (11 :: int)"
  using assms by presburger

lemma month_cases:
  assumes "1 \<le> m" "m \<le> 12"
  shows "m = 1 \<or> m = 2 \<or> m = 3 \<or> m = 4 \<or> m = 5 \<or> m = 6 \<or> m = 7 \<or> m = 8 \<or> m = 9 \<or> m = 10 \<or> m = 11 \<or> m = (12 :: int)"
  using assms by presburger

lemma mstart_length:
  assumes "1 \<le> m" "m \<le> 12" "m \<noteq> 2"
  shows "mstart (mmonth m + 1) = mstart (mmonth m) + month_length leap m"
  using month_cases [OF assms(1,2)] assms(3) by (auto simp: mstart_def mmonth_def month_length_def)

lemma mstart_Feb: "mstart (mmonth 2) = 337"
  by (simp add: mstart_def mmonth_def)

text \<open>A day of such a year, from 0 on, and its month.\<close>

lemma day_of_year:
  assumes "1 \<le> m" "m \<le> 12" "1 \<le> d" "d \<le> month_length leap m"
  shows "0 \<le> mstart (mmonth m) + d - 1" and "mstart (mmonth m) + d \<le> (if leap then 366 else 365)"
  using month_cases [OF assms(1,2)] assms(3,4) by (auto simp: mstart_def mmonth_def month_length_def)

lemma month_found:
  assumes "1 \<le> m" "m \<le> 12" "1 \<le> d" "d \<le> month_length leap m"
  defines "x \<equiv> mstart (mmonth m) + d - 1"
  shows "((x + 1) * 5 - 3) div 153 = mmonth m" and "(((x + 1) * 5 - 3) mod 153) div 5 + 1 = d"
proof -
  have e: "(x + 1) * 5 - 3 = 5 * ((153 * mmonth m + 2) div 5 + (d - 1)) + 2"
    by (simp add: x_def mstart_def mult.commute)
  have "d - 1 < (153 * (mmonth m + 1) + 2) div 5 - (153 * mmonth m + 2) div 5"
  proof (cases "m = 2")
    case True
    then show ?thesis using assms(4) by (simp add: mmonth_def month_length_def split: if_splits)
  next
    case False
    then show ?thesis
      using mstart_length [OF assms(1,2) False, of leap] assms(4) unfolding mstart_def mult.commute [of 153] by linarith
  qed
  note j = block_join [where k = 5 and f = 2 and e = 2, OF _ _ _ _ _ this]
  show "((x + 1) * 5 - 3) div 153 = mmonth m" unfolding e by (rule j(1)) (use assms(3) in simp_all)
  have "((x + 1) * 5 - 3) mod 153 div 5 = d - 1" unfolding e by (rule j(2)) (use assms(3) in simp_all)
  then show "(((x + 1) * 5 - 3) mod 153) div 5 + 1 = d" by simp
qed

lemma month_split:
  assumes "0 \<le> x" "x \<le> 365"
  defines "M \<equiv> ((x + 1) * 5 - 3) div 153" and "d \<equiv> (((x + 1) * 5 - 3) mod 153) div 5 + 1"
  shows "0 \<le> M" "M \<le> 11" "x = mstart M + d - 1" "1 \<le> d" "x < mstart (M + 1)"
proof -
  have e: "(x + 1) * 5 - 3 = 5 * x + 2" by simp
  obtain s where s: "5 * x + 2 = 153 * M + s" "0 \<le> s" "s < 153"
    using div_rem [of 153 "5 * x + 2"] unfolding M_def e by auto
  show "0 \<le> M" "M \<le> 11" using s assms(1,2) by simp_all
  show d: "1 \<le> d" unfolding d_def by simp
  show x: "x = mstart M + d - 1"
    using block_split [of 5 2 2 153 x] unfolding M_def d_def e mstart_def by (simp add: mult.commute)
  have "5 * x + 2 < (M + 1) * 153" using s by simp
  then show "x < mstart (M + 1)" unfolding mstart_def by linarith
qed

text \<open>A day of a year that begins in March, and of a century of such years.\<close>

lemma four_years: "(t * 1461) div 4 = 365 * t + t div 4" for t :: int
proof -
  have "t * 1461 = t + 4 * (365 * t)" by simp
  then show ?thesis by (simp only: div_mult_self2)
qed

lemma four_centuries: "(c * 146097) div 4 = 36524 * c + c div 4" for c :: int
proof -
  have "c * 146097 = c + 4 * (36524 * c)" by simp
  then show ?thesis by (simp only: div_mult_self2)
qed

lemma quarter_step: "(t + 1) div 4 = t div 4 + (if t mod 4 = 3 then 1 else 0)" for t :: int
  by (simp, presburger)

lemma four_years_step: "(1461 * (t + 1) + 0) div 4 - (1461 * t + 0) div 4 = 365 + (if t mod 4 = 3 then 1 else 0)" for t :: int
  unfolding add_0_right mult.commute [of 1461] four_years quarter_step by simp

lemma four_centuries_step:
  "(146097 * (c + 1) + 0) div 4 - (146097 * c + 0) div 4 = 36524 + (if c mod 4 = 3 then 1 else 0)" for c :: int
  unfolding add_0_right mult.commute [of 146097] four_centuries quarter_step by simp

lemma last_of_four: "t = 4 * k + 3 \<Longrightarrow> t mod 4 = 3" for t k :: int
  by presburger

lemma year_found:
  fixes t x :: int
  assumes "0 \<le> x" "x \<le> 364 \<or> x = 365 \<and> t mod 4 = 3"
  defines "r \<equiv> (t * 1461) div 4 + x"
  shows "(4 * r + 3) div 1461 = t" and "((4 * r + 3) mod 1461) div 4 = x"
proof -
  have e: "r = (1461 * t + 0) div 4 + x" by (simp add: r_def mult.commute)
  have "x < (1461 * (t + 1) + 0) div 4 - (1461 * t + 0) div 4"
    using assms(2) unfolding four_years_step by auto
  note j = block_join [of 4 0 3 x 1461 t, OF _ _ _ _ assms(1) this]
  show "(4 * r + 3) div 1461 = t" unfolding e by (rule j(1)) simp_all
  show "((4 * r + 3) mod 1461) div 4 = x" unfolding e by (rule j(2)) simp_all
qed

lemma year_split:
  fixes r :: int
  assumes "0 \<le> r"
  defines "t \<equiv> (4 * r + 3) div 1461" and "x \<equiv> ((4 * r + 3) mod 1461) div 4"
  shows "0 \<le> t" "0 \<le> x" "r = (t * 1461) div 4 + x" "x \<le> 364 \<or> x = 365 \<and> t mod 4 = 3"
proof -
  show "0 \<le> t" unfolding t_def using assms(1) by linarith
  show "0 \<le> x" unfolding x_def by simp
  show "r = (t * 1461) div 4 + x"
    using block_split [of 4 0 3 1461 r] unfolding t_def x_def by (simp add: mult.commute)
  obtain u where u: "4 * r + 3 = 1461 * t + u" "(4 * r + 3) mod 1461 = u" "0 \<le> u" "u < 1461"
    using div_rem [of 1461 "4 * r + 3"] unfolding t_def by auto
  have x: "x = u div 4" by (simp add: x_def u(2))
  then have "x \<le> 365" using u(4) by linarith
  moreover have "t mod 4 = 3" if "x = 365"
  proof -
    have "u = 1460" using that u(4) unfolding x by linarith
    then have "t = 4 * (r - 365 * t - 365) + 3" using u(1) by simp
    then show ?thesis by (rule last_of_four)
  qed
  ultimately show "x \<le> 364 \<or> x = 365 \<and> t mod 4 = 3" by linarith
qed

lemma century_found:
  fixes c r :: int
  assumes "0 \<le> r" "r \<le> 36523 \<or> r = 36524 \<and> c mod 4 = 3"
  defines "x \<equiv> (c * 146097) div 4 + r"
  shows "(4 * x + 3) div 146097 = c" and "((4 * x + 3) mod 146097) div 4 = r"
proof -
  have e: "x = (146097 * c + 0) div 4 + r" by (simp add: x_def mult.commute)
  have "r < (146097 * (c + 1) + 0) div 4 - (146097 * c + 0) div 4"
    using assms(2) unfolding four_centuries_step by auto
  note j = block_join [of 4 0 3 r 146097 c, OF _ _ _ _ assms(1) this]
  show "(4 * x + 3) div 146097 = c" unfolding e by (rule j(1)) simp_all
  show "((4 * x + 3) mod 146097) div 4 = r" unfolding e by (rule j(2)) simp_all
qed

lemma century_split:
  fixes x :: int
  assumes "0 \<le> x"
  defines "c \<equiv> (4 * x + 3) div 146097" and "r \<equiv> ((4 * x + 3) mod 146097) div 4"
  shows "0 \<le> c" "0 \<le> r" "x = (c * 146097) div 4 + r" "r \<le> 36523 \<or> r = 36524 \<and> c mod 4 = 3"
proof -
  show "0 \<le> c" unfolding c_def using assms(1) by linarith
  show "0 \<le> r" unfolding r_def by simp
  show "x = (c * 146097) div 4 + r"
    using block_split [of 4 0 3 146097 x] unfolding c_def r_def by (simp add: mult.commute)
  obtain u where u: "4 * x + 3 = 146097 * c + u" "(4 * x + 3) mod 146097 = u" "0 \<le> u" "u < 146097"
    using div_rem [of 146097 "4 * x + 3"] unfolding c_def by auto
  have r: "r = u div 4" by (simp add: r_def u(2))
  then have "r \<le> 36524" using u(4) by linarith
  moreover have "c mod 4 = 3" if "r = 36524"
  proof -
    have "u = 146096" using that u(4) unfolding r by linarith
    then have "c = 4 * (x - 36524 * c - 36524) + 3" using u(1) by simp
    then show ?thesis by (rule last_of_four)
  qed
  ultimately show "r \<le> 36523 \<or> r = 36524 \<and> c mod 4 = 3" by linarith
qed

text \<open>The leap day is the last day of the year before.\<close>

lemma julian_leap_Feb: "julian_leap y \<longleftrightarrow> myear y 2 mod 4 = 3"
  unfolding julian_leap_def myear_def by presburger

lemma gregorian_leap_Feb:
  "gregorian_leap y \<longleftrightarrow> myear y 2 mod 100 mod 4 = 3 \<and> (myear y 2 mod 100 = 99 \<longrightarrow> myear y 2 div 100 mod 4 = 3)"
proof -
  define c t where "c = myear y 2 div 100" and "t = myear y 2 mod 100"
  have t: "0 \<le> t" "t \<le> 99" by (simp_all add: t_def)
  have y: "ayear y = 100 * c + t + 1 - 4800"
    using mult_div_mod_eq [of 100 "myear y 2"] by (simp add: c_def t_def myear_def)
  have "4 dvd ayear y \<longleftrightarrow> t mod 4 = 3" unfolding y by presburger
  moreover have "100 dvd ayear y \<longleftrightarrow> t = 99"
  proof -
    have "ayear y = 100 * (c - 48) + (t + 1)" using y by simp
    then have "100 dvd ayear y \<longleftrightarrow> 100 dvd t + 1" by (simp only: dvd_add_right_iff dvd_triv_left)
    then show ?thesis using zdvd_imp_le [of 100 "t + 1"] t by auto
  qed
  moreover have "400 dvd ayear y \<longleftrightarrow> c mod 4 = 3" if "t = 99"
  proof -
    have "ayear y = 100 * (c + 1 - 48)" using that y by simp
    then have "400 dvd ayear y \<longleftrightarrow> 100 * 4 dvd 100 * (c + 1 - 48)" by simp
    also have "\<dots> \<longleftrightarrow> 4 dvd c + 1 - 48" by (rule dvd_times_left_cancel_iff) simp
    also have "\<dots> \<longleftrightarrow> c mod 4 = 3" by presburger
    finally show ?thesis .
  qed
  ultimately show ?thesis unfolding gregorian_leap_def c_def [symmetric] t_def [symmetric] by auto
qed

section \<open>Counting days\<close>

text \<open>The number of a date when \<open>ystart\<close> gives the start of a year; the calendars differ in it and in the leap
  years.\<close>

definition day_number :: "(int \<Rightarrow> int) \<Rightarrow> int \<times> int \<times> int \<Rightarrow> int" where
  "day_number ystart = (\<lambda>(y, m, d). ystart (myear y m) + mstart (mmonth m) + d)"

locale march_calendar =
  fixes leap :: "int \<Rightarrow> bool" and ystart :: "int \<Rightarrow> int"
  assumes year_length: "ystart (myear y 3) = ystart (myear y 2) + (if leap y then 366 else 365)"
begin

lemma next_valid: "valid_date leap e \<Longrightarrow> valid_date leap (next_date leap e)"
  by (cases e) (auto simp: valid_date_def next_date_def month_length_def split: if_splits)

lemma next_number:
  assumes "valid_date leap e"
  shows "day_number ystart (next_date leap e) = day_number ystart e + 1"
proof -
  obtain y m d where e: "e = (y, m, d)" by (cases e)
  have v: "y \<noteq> 0" "1 \<le> m" "m \<le> 12" "1 \<le> d" "d \<le> month_length (leap y) m"
    using assms by (simp_all add: e valid_date_def)
  consider "d < month_length (leap y) m" | "d = month_length (leap y) m" "m = 2"
    | "d = month_length (leap y) m" "m = 12" | "d = month_length (leap y) m" "m < 12" "m \<noteq> 2"
    using v by linarith
  then show ?thesis
  proof cases
    case 1
    then show ?thesis by (simp add: e next_date_def day_number_def)
  next
    case 2
    then show ?thesis
      using year_length [of y] mstart_Feb
      by (simp add: e next_date_def day_number_def month_length_def mstart_def mmonth_def)
  next
    case 3
    have "myear (if y = - 1 then 1 else y + 1) 1 = myear y 12" using v(1) by (auto simp: myear_def ayear_def)
    moreover have "mstart (mmonth 1) = mstart (mmonth 12) + 31" by (simp add: mstart_def mmonth_def)
    ultimately show ?thesis using 3 by (simp add: e next_date_def day_number_def month_length_def)
  next
    case 4
    then have "myear y (m + 1) = myear y m" "mmonth (m + 1) = mmonth m + 1" using v by (auto simp: myear_def mmonth_def)
    then show ?thesis
      using 4 mstart_length [OF v(2,3), of "leap y"] by (simp add: e next_date_def day_number_def)
  qed
qed

lemma number_after: "valid_date leap e \<Longrightarrow> day_number ystart ((next_date leap ^^ k) e) = day_number ystart e + int k"
proof (induction k)
  case (Suc k)
  have "valid_date leap ((next_date leap ^^ k) e)" using Suc.prems by (induction k) (simp_all add: next_valid)
  then show ?case using Suc next_number by simp
qed simp

lemma month_number:
  assumes "y \<noteq> 0" "1 \<le> m" "m \<le> 12"
  shows "m < 12 \<Longrightarrow> day_number ystart (y, m + 1, 1) = day_number ystart (y, m, 1) + month_length (leap y) m"
    "m = 12 \<Longrightarrow> day_number ystart (if y = - 1 then 1 else y + 1, 1, 1) = day_number ystart (y, m, 1) + month_length (leap y) m"
proof -
  have "valid_date leap (y, m, month_length (leap y) m)" using assms by (simp add: valid_date_def month_length_def)
  note n = next_number [OF this]
  show "m < 12 \<Longrightarrow> day_number ystart (y, m + 1, 1) = day_number ystart (y, m, 1) + month_length (leap y) m"
    "m = 12 \<Longrightarrow> day_number ystart (if y = - 1 then 1 else y + 1, 1, 1) = day_number ystart (y, m, 1) + month_length (leap y) m"
    using n by (simp_all add: next_date_def day_number_def)
qed

end

definition gregorian_start :: "int \<Rightarrow> int" where
  "gregorian_start Y = ((Y div 100) * 146097) div 4 + ((Y mod 100) * 1461) div 4"

definition julian_start :: "int \<Rightarrow> int" where
  "julian_start Y = (Y * 1461) div 4"

lemma myear_3: "myear y 3 = myear y 2 + 1"
  by (simp add: myear_def)

interpretation jul: march_calendar julian_leap julian_start
proof
  fix y
  show "julian_start (myear y 3) = julian_start (myear y 2) + (if julian_leap y then 366 else 365)"
    unfolding julian_start_def four_years myear_3 quarter_step julian_leap_Feb by simp
qed

interpretation greg: march_calendar gregorian_leap gregorian_start
proof
  fix y
  define c t where "c = myear y 2 div 100" and "t = myear y 2 mod 100"
  have Y: "myear y 2 = 100 * c + t" "0 \<le> t" "t \<le> 99" by (simp_all add: c_def t_def)
  have leap: "gregorian_leap y \<longleftrightarrow> t mod 4 = 3 \<and> (t = 99 \<longrightarrow> c mod 4 = 3)"
    unfolding gregorian_leap_Feb c_def t_def by simp
  have s2: "gregorian_start (myear y 2) = 36524 * c + c div 4 + (365 * t + t div 4)"
    unfolding gregorian_start_def four_years four_centuries c_def t_def ..
  show "gregorian_start (myear y 3) = gregorian_start (myear y 2) + (if gregorian_leap y then 366 else 365)"
  proof (cases "t = 99")
    case True
    then have "myear y 3 div 100 = c + 1" "myear y 3 mod 100 = 0" using Y by (simp_all add: myear_3)
    then have "gregorian_start (myear y 3) = 36524 * (c + 1) + (c + 1) div 4"
      unfolding gregorian_start_def four_years four_centuries by simp
    then show ?thesis unfolding s2 leap quarter_step using True by simp
  next
    case False
    then have "myear y 3 = (t + 1) + 100 * c" "0 \<le> t + 1" "t + 1 < 100" using Y by (simp_all add: myear_3)
    then have "myear y 3 div 100 = c" "myear y 3 mod 100 = t + 1" by simp_all
    then have "gregorian_start (myear y 3) = 36524 * c + c div 4 + (365 * (t + 1) + (t + 1) div 4)"
      unfolding gregorian_start_def four_years four_centuries by simp
    then show ?thesis unfolding s2 leap quarter_step using False by simp
  qed
qed

section \<open>The conversions\<close>

lemma myear_limits: "ayear y + 4799 \<le> myear y m" "myear y m \<le> ayear y + 4800"
  by (simp_all add: myear_def)

lemma shifted_year_eq:
  assumes "INT_MIN \<le> ayear y + 4800" "ayear y + 4800 \<le> INT_MAX"
  shows "shifted_year y m = Ret (myear y m, mmonth m)"
  using assms by (simp add: shifted_year_def ayear_def myear_def mmonth_def split: if_splits)

lemma month_and_day_found:
  assumes "valid_date leap (y, m, d)" "0 \<le> myear y m" "myear y m < INT_MAX"
  shows "month_and_day (myear y m) (mstart (mmonth m) + d - 1 + 1) = Ret (y, m, d)"
proof -
  have v: "y \<noteq> 0" "1 \<le> m" "m \<le> 12" "1 \<le> d" "d \<le> month_length (leap y) m" using assms(1) by (simp_all add: valid_date_def)
  have y: "(if mmonth m < 10 then myear y m else myear y m + 1) - 4800 = ayear y"
    "(if mmonth m < 10 then mmonth m + 3 else mmonth m - 9) = m"
    using v(2,3) by (auto simp: mmonth_def myear_def)
  have a: "ayear y - (if ayear y \<le> 0 then 1 else 0) = y" using v(1) by (simp add: ayear_def)
  show ?thesis
    unfolding month_and_day_def month_found [OF v(2-5)] Let_def
    using y a assms(2,3) by (auto split: if_splits)
qed

lemma month_and_day_split:
  assumes "0 \<le> x" "x \<le> 365" "0 \<le> Y" "Y < INT_MAX"
  obtains y m d where "month_and_day Y (x + 1) = Ret (y, m, d)" "y \<noteq> 0" "1 \<le> m" "m \<le> 12" "1 \<le> d"
    "myear y m = Y" "x = mstart (mmonth m) + d - 1" "m \<noteq> 2 \<longrightarrow> d \<le> month_length leap m"
proof -
  define M d where "M = ((x + 1) * 5 - 3) div 153" and "d = (((x + 1) * 5 - 3) mod 153) div 5 + 1"
  note s = month_split [OF assms(1,2), folded M_def d_def]
  define a m where "a = (if M < 10 then Y else Y + 1) - 4800" and "m = (if M < 10 then M + 3 else M - 9)"
  define y where "y = (if a \<le> 0 then a - 1 else a)"
  have m: "1 \<le> m" "m \<le> 12" "mmonth m = M" using s(1,2) by (auto simp: m_def mmonth_def)
  have y: "y \<noteq> 0" "myear y m = Y" using s(1,2) by (auto simp: y_def a_def m_def myear_def ayear_def)
  have "d \<le> month_length leap m" if "m \<noteq> 2" using mstart_length [OF m(1,2) that, of leap] s(3,5) m(3) by simp
  moreover have "month_and_day Y (x + 1) = Ret (y, m, d)"
    unfolding month_and_day_def M_def [symmetric] d_def [symmetric] Let_def
    using assms(3,4) by (auto simp: y_def a_def m_def)
  ultimately show thesis using that [of y m d] m y s by simp
qed

subsection \<open>Gregorian\<close>

text \<open>From 25 November 4714 B.C., day 1, to the end of February 2147468900. The program gives up on later days.\<close>

definition gregorian_range :: "int \<times> int \<times> int \<Rightarrow> bool" where
  "gregorian_range = (\<lambda>(y, m, d).
     (y > - 4714 \<or> y = - 4714 \<and> (m > 11 \<or> m = 11 \<and> d \<ge> 25)) \<and> (y < 2147468900 \<or> y = 2147468900 \<and> m \<le> 2))"

abbreviation GREGORIAN_LAST :: int where "GREGORIAN_LAST \<equiv> 784348630827"

lemma gregorian_start_eq:
  "gregorian_start Y = 36524 * (Y div 100) + Y div 100 div 4 + 365 * (Y mod 100) + Y mod 100 div 4"
  unfolding gregorian_start_def four_years four_centuries by simp

lemma gregorian_start_ge:
  assumes "0 \<le> Y"
  shows "365 * Y \<le> gregorian_start Y"
proof -
  obtain t where "Y = 100 * (Y div 100) + t" "Y mod 100 = t" "0 \<le> t" using div_rem [of 100 Y] by auto
  moreover have "0 \<le> Y div 100" "0 \<le> Y div 100 div 4" "0 \<le> t div 4" using assms calculation(3) by simp_all
  ultimately show ?thesis unfolding gregorian_start_eq by linarith
qed

lemma gregorian_start_less:
  assumes "0 \<le> Y" "Y < 87"
  shows "gregorian_start Y \<le> 31411"
proof -
  have "Y div 100 = 0" "Y mod 100 = Y" using assms by simp_all
  then show ?thesis unfolding gregorian_start_eq using assms by linarith
qed

lemma gregorian_start_87: "gregorian_start 87 = 31776"
  by (simp add: gregorian_start_def)

lemma gregorian_day:
  assumes "valid_date gregorian_leap (y, m, d)"
  defines "Y \<equiv> myear y m" and "x \<equiv> mstart (mmonth m) + d - 1"
  defines "r \<equiv> ((Y mod 100) * 1461) div 4 + x"
  shows "0 \<le> x" "x \<le> 364 \<or> x = 365 \<and> Y mod 100 mod 4 = 3" "0 \<le> r" "r \<le> 36523 \<or> r = 36524 \<and> Y div 100 mod 4 = 3"
    "day_number gregorian_start (y, m, d) - 1 = ((Y div 100) * 146097) div 4 + r"
proof -
  have v: "1 \<le> m" "m \<le> 12" "1 \<le> d" "d \<le> month_length (gregorian_leap y) m" using assms(1) by (simp_all add: valid_date_def)
  note d = day_of_year [OF v]
  define t where "t = Y mod 100"
  have t: "0 \<le> t" "t \<le> 99" by (simp_all add: t_def)
  show x0: "0 \<le> x" using d(1) by (simp add: x_def)
  have leap: "m = 2 \<and> gregorian_leap y" if "x \<ge> 365"
  proof -
    have "mstart (mmonth m) + d \<ge> 366" using that by (simp add: x_def)
    then have "gregorian_leap y" using d(2) by (simp split: if_splits)
    moreover have "m = 2"
      using that month_cases [OF v(1,2)] v(4) by (auto simp: x_def mstart_def mmonth_def month_length_def split: if_splits)
    ultimately show ?thesis by simp
  qed
  have x365: "x \<le> 365" using d(2) by (simp add: x_def split: if_splits)
  have lt: "t mod 4 = 3 \<and> (t = 99 \<longrightarrow> Y div 100 mod 4 = 3)" if "x = 365"
    using leap that gregorian_leap_Feb [of y] by (auto simp: Y_def t_def)
  show "x \<le> 364 \<or> x = 365 \<and> Y mod 100 mod 4 = 3" using x365 lt unfolding t_def by linarith
  have r: "r = 365 * t + t div 4 + x" unfolding r_def t_def four_years ..
  show "0 \<le> r" using r t(1) x0 by simp
  show "r \<le> 36523 \<or> r = 36524 \<and> Y div 100 mod 4 = 3"
  proof (cases "t = 99")
    case True
    then show ?thesis using r lt x365 by auto
  next
    case False
    then have "t div 4 \<le> 24" "365 * t \<le> 365 * 98" using t by linarith+
    then show ?thesis using r x365 by linarith
  qed
  show "day_number gregorian_start (y, m, d) - 1 = ((Y div 100) * 146097) div 4 + r"
    by (simp add: day_number_def gregorian_start_def r_def x_def Y_def)
qed

lemma SdnToGregorian_run:
  assumes "1 \<le> n" "n \<le> GREGORIAN_LAST" and T: "(n + 32045) * 4 - 1 = T" and c: "T div 146097 = c"
    and r: "T mod 146097 div 4 = r" and t: "(r * 4 + 3) div 1461 = t" and x: "(r * 4 + 3) mod 1461 div 4 = x"
    and "0 \<le> c" "0 \<le> t" "c + t \<le> 21474836"
  shows "SdnToGregorian n = month_and_day (c * 100 + t) (x + 1)"
proof -
  have g: "(n \<le> 0 \<or> n > (ZEND_LONG_MAX - 4 * 32045) div 4) = False" using assms(1,2) by simp
  have l: "c_long T = Ret T" "(T < 0 \<or> c > INT_MAX) = False" using assms(1,2,9,10) T by simp_all
  have y: "(c > INT_MAX div 100 - t) = False" "c_int (c * 100 + t) = Ret (c * 100 + t)" using assms(8-10) by simp_all
  show ?thesis unfolding SdnToGregorian_def by (simp only: g T l c r t x y if_False Let_def run_bind.simps)
qed

lemma gregorian_found:
  assumes "valid_date gregorian_leap (y, m, d)" "gregorian_range (y, m, d)"
  defines "n \<equiv> day_number gregorian_start (y, m, d) - GREGOR_SDN_OFFSET"
  shows "GregorianToSdn y m d = Ret n" "1 \<le> n" "n \<le> GREGORIAN_LAST" "SdnToGregorian n = Ret (y, m, d)"
proof -
  have v: "y \<noteq> 0" "1 \<le> m" "m \<le> 12" "1 \<le> d" "d \<le> month_length (gregorian_leap y) m"
    using assms(1) by (simp_all add: valid_date_def)
  have d31: "d \<le> 31" using v(5) by (simp add: month_length_def split: if_splits)
  have rg: "y > - 4714 \<or> y = - 4714 \<and> (m > 11 \<or> m = 11 \<and> d \<ge> 25)" "y < 2147468900 \<or> y = 2147468900 \<and> m \<le> 2"
    using assms(2) by (simp_all add: gregorian_range_def)
  define Y x where "Y = myear y m" and "x = mstart (mmonth m) + d - 1"
  define r where "r = ((Y mod 100) * 1461) div 4 + x"
  note g = gregorian_day [OF assms(1), folded Y_def x_def, folded r_def]
  have Y: "87 \<le> Y" "Y \<le> 2147473699" using rg v(2,3) by (auto simp: Y_def myear_def ayear_def)
  have ay: "INT_MIN \<le> ayear y + 4800" "ayear y + 4800 \<le> INT_MAX" using rg by (auto simp: ayear_def)
  show to: "GregorianToSdn y m d = Ret n"
    using v d31 rg(1) unfolding GregorianToSdn_def shifted_year_eq [OF ay]
    by (auto simp: n_def day_number_def gregorian_start_def mstart_def)
  have num: "day_number gregorian_start (y, m, d) = gregorian_start Y + x + 1"
    by (simp add: day_number_def Y_def x_def)
  show n1: "1 \<le> n"
  proof (cases "Y \<ge> 88")
    case True
    then show ?thesis using gregorian_start_ge [of Y] g(1) num by (simp add: n_def)
  next
    case False
    then have Y87: "Y = 87" using Y by simp
    have "x \<ge> 269"
      using Y87 rg(1) month_cases [OF v(2,3)] v(4)
      by (auto simp: Y_def x_def myear_def ayear_def mstart_def mmonth_def split: if_splits)
    then show ?thesis using num Y87 gregorian_start_87 by (simp add: n_def)
  qed
  define c t where "c = Y div 100" and "t = Y mod 100"
  have ct: "Y = c * 100 + t" "0 \<le> t" "t \<le> 99" "0 \<le> c" using Y by (simp_all add: c_def t_def)
  have c: "c \<le> 21474736" using Y ct by linarith
  have "n + 32044 = 36524 * c + c div 4 + r" using g(5) unfolding four_centuries c_def [symmetric] n_def by simp
  moreover have "c div 4 \<le> 5368684" using c by linarith
  moreover have "r \<le> 36523" if "c = 21474736" using that g(4) by (auto simp: c_def)
  ultimately show last: "n \<le> GREGORIAN_LAST" using g(4) c by (cases "c = 21474736") auto
  have "SdnToGregorian n = month_and_day (c * 100 + t) (x + 1)"
  proof (rule SdnToGregorian_run [OF n1 last])
    note cf = century_found [OF g(3,4)] and yf = year_found [OF g(1,2)]
    show "(n + 32045) * 4 - 1 = 4 * (((Y div 100) * 146097) div 4 + r) + 3" using g(5) by (simp add: n_def)
    show "(4 * (((Y div 100) * 146097) div 4 + r) + 3) div 146097 = c" using cf(1) by (simp add: c_def)
    show "(4 * (((Y div 100) * 146097) div 4 + r) + 3) mod 146097 div 4 = r" by (rule cf(2))
    show "(r * 4 + 3) div 1461 = t" using yf(1) by (simp add: r_def t_def mult.commute)
    show "(r * 4 + 3) mod 1461 div 4 = x" using yf(2) by (simp add: r_def mult.commute)
  qed (use ct c in auto)
  then show "SdnToGregorian n = Ret (y, m, d)"
    using month_and_day_found [OF assms(1)] Y ct(1) unfolding Y_def x_def by simp
qed

lemma gregorian_split:
  assumes "1 \<le> n" "n \<le> GREGORIAN_LAST"
  obtains y m d where "SdnToGregorian n = Ret (y, m, d)" "valid_date gregorian_leap (y, m, d)"
    "gregorian_range (y, m, d)" "day_number gregorian_start (y, m, d) - GREGOR_SDN_OFFSET = n"
proof -
  define X where "X = n + 32044"
  have X: "0 \<le> X" "(n + 32045) * 4 - 1 = 4 * X + 3" using assms(1) by (simp_all add: X_def)
  define c r where "c = (4 * X + 3) div 146097" and "r = ((4 * X + 3) mod 146097) div 4"
  note cs = century_split [OF X(1), folded c_def r_def]
  define t x where "t = (4 * r + 3) div 1461" and "x = ((4 * r + 3) mod 1461) div 4"
  note ys = year_split [OF cs(2), folded t_def x_def]
  have t99: "t \<le> 99" using cs(4) unfolding t_def by linarith
  have c: "c \<le> 21474736"
  proof (rule ccontr)
    assume "\<not> ?thesis"
    then have "c \<ge> 21474737" by simp
    moreover from this have "c div 4 \<ge> 5368684" by linarith
    ultimately show False using cs(2,3) assms(2) unfolding four_centuries X_def by linarith
  qed
  define Y where "Y = c * 100 + t"
  have ct: "Y div 100 = c" "Y mod 100 = t" using ys(1) t99 by (simp_all add: Y_def)
  have Y: "0 \<le> Y" "Y \<le> 2147473699" using c cs(1) ys(1) t99 by (simp_all add: Y_def)
  have x: "0 \<le> x" "x \<le> 365" using ys(2,4) by auto
  obtain y m d where md: "month_and_day Y (x + 1) = Ret (y, m, d)" "y \<noteq> 0" "1 \<le> m" "m \<le> 12" "1 \<le> d"
    "myear y m = Y" "x = mstart (mmonth m) + d - 1" "m \<noteq> 2 \<longrightarrow> d \<le> month_length True m"
    by (rule month_and_day_split [of x Y True, OF x Y(1)]) (use Y in auto)
  have "SdnToGregorian n = month_and_day (c * 100 + t) (x + 1)"
  proof (rule SdnToGregorian_run [OF assms X(2) c_def [symmetric] r_def [symmetric]])
    show "(r * 4 + 3) div 1461 = t" "(r * 4 + 3) mod 1461 div 4 = x"
      unfolding t_def x_def mult.commute [of r] by (rule refl)+
  qed (use c cs(1) ys(1) t99 in linarith)+
  then have run: "SdnToGregorian n = Ret (y, m, d)" using md(1) by (simp add: Y_def)
  have r36524: "t = 99 \<longrightarrow> c mod 4 = 3" if "x = 365"
    using that cs(4) ys(3) by (auto simp: four_years)
  have "d \<le> month_length (gregorian_leap y) m"
  proof (cases "m = 2")
    case True
    then have d: "d = x - 336" using md(7) mstart_Feb by simp
    show ?thesis
    proof (cases "x = 365")
      case x365: True
      then have "gregorian_leap y" using True md(6) ct r36524 ys(4) by (auto simp: gregorian_leap_Feb)
      then show ?thesis using True d x365 by (simp add: month_length_def)
    qed (use True d ys(4) in \<open>auto simp: month_length_def\<close>)
  qed (use md(8) in \<open>auto simp: month_length_def\<close>)
  then have valid: "valid_date gregorian_leap (y, m, d)" using md by (simp add: valid_date_def)
  have num: "day_number gregorian_start (y, m, d) = gregorian_start Y + x + 1"
    using md(6,7) by (simp add: day_number_def)
  have "gregorian_start Y = (c * 146097) div 4 + (t * 1461) div 4" by (simp add: gregorian_start_def ct)
  then have n: "day_number gregorian_start (y, m, d) - 32045 = n" using num cs(3) ys(3) by (simp add: X_def)
  have "gregorian_range (y, m, d)"
  proof -
    have "y < 2147468900 \<or> y = 2147468900 \<and> m \<le> 2" using Y(2) md(2,6) by (auto simp: myear_def ayear_def split: if_splits)
    moreover have "y > - 4714 \<or> y = - 4714 \<and> (m > 11 \<or> m = 11 \<and> d \<ge> 25)"
    proof (cases "Y < 87")
      case True
      then have False using gregorian_start_less [OF Y(1) True] num n x assms(1) by simp
      then show ?thesis ..
    next
      case False
      show ?thesis
      proof (cases "y > - 4714")
        case y: False
        then have "Y = 87" "y = - 4714" using \<open>\<not> Y < 87\<close> md(2,6) by (auto simp: myear_def ayear_def split: if_splits)
        then have "x \<ge> 269" using num n assms(1) gregorian_start_87 by simp
        moreover have "m > 2" using \<open>Y = 87\<close> \<open>y = - 4714\<close> md(6) by (auto simp: myear_def ayear_def split: if_splits)
        ultimately show ?thesis
          using \<open>y = - 4714\<close> month_cases [OF md(3,4)] md(7,8) by (auto simp: mstart_def mmonth_def month_length_def)
      qed simp
    qed
    ultimately show ?thesis by (simp add: gregorian_range_def)
  qed
  then show thesis using that run valid n by blast
qed

subsection \<open>Julian\<close>

text \<open>From 2 January 4713 B.C., day 1, to the end of February 2147478847.\<close>

definition julian_range :: "int \<times> int \<times> int \<Rightarrow> bool" where
  "julian_range = (\<lambda>(y, m, d).
     (y > - 4713 \<or> y = - 4713 \<and> (m > 1 \<or> d \<ge> 2)) \<and> (y < 2147478847 \<or> y = 2147478847 \<and> m \<le> 2))"

abbreviation JULIAN_LAST :: int where "JULIAN_LAST \<equiv> 784368369983"

lemma julian_start_eq: "julian_start Y = 365 * Y + Y div 4"
  by (simp add: julian_start_def four_years)

lemma julian_day:
  assumes "valid_date julian_leap (y, m, d)"
  defines "Y \<equiv> myear y m" and "x \<equiv> mstart (mmonth m) + d - 1"
  shows "0 \<le> x" "x \<le> 364 \<or> x = 365 \<and> Y mod 4 = 3" "day_number julian_start (y, m, d) - 1 = (Y * 1461) div 4 + x"
proof -
  have v: "1 \<le> m" "m \<le> 12" "1 \<le> d" "d \<le> month_length (julian_leap y) m" using assms(1) by (simp_all add: valid_date_def)
  note d = day_of_year [OF v]
  show "0 \<le> x" using d(1) by (simp add: x_def)
  have "m = 2 \<and> julian_leap y" if "x \<ge> 365"
  proof -
    have "mstart (mmonth m) + d \<ge> 366" using that by (simp add: x_def)
    then have "julian_leap y" using d(2) by (simp split: if_splits)
    moreover have "m = 2"
      using that month_cases [OF v(1,2)] v(4) by (auto simp: x_def mstart_def mmonth_def month_length_def split: if_splits)
    ultimately show ?thesis by simp
  qed
  moreover have "x \<le> 365" using d(2) by (simp add: x_def split: if_splits)
  ultimately show "x \<le> 364 \<or> x = 365 \<and> Y mod 4 = 3" using julian_leap_Feb [of y] by (cases "x = 365") (auto simp: Y_def)
  show "day_number julian_start (y, m, d) - 1 = (Y * 1461) div 4 + x"
    by (simp add: day_number_def julian_start_def x_def Y_def)
qed

lemma SdnToJulian_run:
  assumes "1 \<le> n" "n \<le> JULIAN_LAST + 366" and T: "n * 4 + (32083 * 4 - 1) = T" and Y: "T div 1461 = Y"
    and x: "T mod 1461 div 4 = x" and "0 \<le> Y" "Y \<le> INT_MAX"
  shows "SdnToJulian n = month_and_day Y (x + 1)"
proof -
  have g: "(n \<le> 0) = False" "(n > (ZEND_LONG_MAX - 32083 * 4 + 1) div 4 \<or> n < ZEND_LONG_MIN div 4) = False"
    using assms(1,2) by simp_all
  have l: "c_long T = Ret T" "(Y > INT_MAX \<or> Y < INT_MIN) = False" using assms(1,2,6,7) T by simp_all
  show ?thesis unfolding SdnToJulian_def by (simp only: g T l Y x if_False Let_def run_bind.simps)
qed

lemma julian_found:
  assumes "valid_date julian_leap (y, m, d)" "julian_range (y, m, d)"
  defines "n \<equiv> day_number julian_start (y, m, d) - JULIAN_SDN_OFFSET"
  shows "JulianToSdn y m d = Ret n" "1 \<le> n" "n \<le> JULIAN_LAST" "SdnToJulian n = Ret (y, m, d)"
proof -
  have v: "y \<noteq> 0" "1 \<le> m" "m \<le> 12" "1 \<le> d" "d \<le> month_length (julian_leap y) m"
    using assms(1) by (simp_all add: valid_date_def)
  have d31: "d \<le> 31" using v(5) by (simp add: month_length_def split: if_splits)
  have rg: "y > - 4713 \<or> y = - 4713 \<and> (m > 1 \<or> d \<ge> 2)" "y < 2147478847 \<or> y = 2147478847 \<and> m \<le> 2"
    using assms(2) by (simp_all add: julian_range_def)
  define Y x where "Y = myear y m" and "x = mstart (mmonth m) + d - 1"
  note g = julian_day [OF assms(1), folded Y_def x_def]
  have Y: "87 \<le> Y" "Y < INT_MAX" using rg v(2,3) by (auto simp: Y_def myear_def ayear_def)
  have ay: "INT_MIN \<le> ayear y + 4800" "ayear y + 4800 \<le> INT_MAX" using rg by (auto simp: ayear_def)
  show "JulianToSdn y m d = Ret n"
    using v d31 rg(1) unfolding JulianToSdn_def shifted_year_eq [OF ay]
    by (auto simp: n_def day_number_def julian_start_def mstart_def)
  have n: "n + 32082 = 365 * Y + Y div 4 + x" using g(3) by (simp add: n_def four_years)
  show n1: "1 \<le> n"
  proof (cases "Y \<ge> 88")
    case True
    then have "Y div 4 \<ge> 22" by linarith
    then show ?thesis using n True g(1) by linarith
  next
    case False
    then have Y87: "Y = 87" using Y by simp
    have "x \<ge> 307"
      using Y87 rg(1) month_cases [OF v(2,3)] v(4)
      by (auto simp: Y_def x_def myear_def ayear_def mstart_def mmonth_def split: if_splits)
    then show ?thesis using n Y87 by simp
  qed
  have "Y div 4 \<le> 536870911" using Y by linarith
  moreover have "x \<le> 364" if "Y = 2147483646" using that g(2) by auto
  ultimately show last: "n \<le> JULIAN_LAST" using n g(2) Y by (cases "Y = 2147483646") auto
  have "SdnToJulian n = month_and_day Y (x + 1)"
  proof (rule SdnToJulian_run [OF n1])
    note yf = year_found [OF g(1,2)]
    show "n * 4 + (32083 * 4 - 1) = 4 * ((Y * 1461) div 4 + x) + 3" using g(3) by (simp add: n_def)
    show "(4 * ((Y * 1461) div 4 + x) + 3) div 1461 = Y" "(4 * ((Y * 1461) div 4 + x) + 3) mod 1461 div 4 = x" by (rule yf)+
  qed (use last Y in auto)
  then show "SdnToJulian n = Ret (y, m, d)"
    using month_and_day_found [OF assms(1)] Y unfolding Y_def x_def by simp
qed

lemma julian_split:
  assumes "1 \<le> n" "n \<le> JULIAN_LAST"
  obtains y m d where "SdnToJulian n = Ret (y, m, d)" "valid_date julian_leap (y, m, d)"
    "julian_range (y, m, d)" "day_number julian_start (y, m, d) - JULIAN_SDN_OFFSET = n"
proof -
  define X where "X = n + 32082"
  have X: "0 \<le> X" "n * 4 + (32083 * 4 - 1) = 4 * X + 3" using assms(1) by (simp_all add: X_def)
  define Y x where "Y = (4 * X + 3) div 1461" and "x = ((4 * X + 3) mod 1461) div 4"
  note ys = year_split [OF X(1), folded Y_def x_def]
  have XY: "X = 365 * Y + Y div 4 + x" using ys(3) by (simp add: four_years)
  have Ylast: "Y < INT_MAX"
  proof (rule ccontr)
    assume "\<not> ?thesis"
    then have "Y \<ge> 2147483647" by simp
    moreover from this have "Y div 4 \<ge> 536870911" by linarith
    ultimately show False using XY ys(2) assms(2) unfolding X_def by linarith
  qed
  have x: "0 \<le> x" "x \<le> 365" using ys(2,4) by auto
  obtain y m d where md: "month_and_day Y (x + 1) = Ret (y, m, d)" "y \<noteq> 0" "1 \<le> m" "m \<le> 12" "1 \<le> d"
    "myear y m = Y" "x = mstart (mmonth m) + d - 1" "m \<noteq> 2 \<longrightarrow> d \<le> month_length True m"
    by (rule month_and_day_split [of x Y True, OF x ys(1) Ylast])
  have "SdnToJulian n = month_and_day Y (x + 1)"
    by (rule SdnToJulian_run [OF assms(1) _ X(2) Y_def [symmetric] x_def [symmetric]]) (use assms ys(1) Ylast in auto)
  then have run: "SdnToJulian n = Ret (y, m, d)" using md(1) by simp
  have "d \<le> month_length (julian_leap y) m"
  proof (cases "m = 2")
    case True
    then have "d = x - 336" using md(7) mstart_Feb by simp
    then show ?thesis using True md(6) ys(4) by (auto simp: month_length_def julian_leap_Feb)
  qed (use md(8) in \<open>auto simp: month_length_def\<close>)
  then have valid: "valid_date julian_leap (y, m, d)" using md by (simp add: valid_date_def)
  have n: "day_number julian_start (y, m, d) - 32083 = n"
    using julian_day(3) [OF valid] md(6,7) XY by (simp add: four_years X_def)
  have "julian_range (y, m, d)"
  proof -
    have "y < 2147478847 \<or> y = 2147478847 \<and> m \<le> 2" using Ylast md(2,6) by (auto simp: myear_def ayear_def split: if_splits)
    moreover have "y > - 4713 \<or> y = - 4713 \<and> (m > 1 \<or> d \<ge> 2)"
    proof -
      have "Y div 4 \<le> 21" if "Y \<le> 86" using that by linarith
      then have Y: "Y \<ge> 87" using XY x assms(1) unfolding X_def by linarith
      have "x \<ge> 307" if "Y = 87" using that XY assms(1) by (simp add: X_def)
      then have Y87: "m = 1 \<and> d \<ge> 2 \<or> m = 2" if "Y = 87"
        using that md(7,8) month_cases [OF md(3,4)] by (auto simp: mstart_def mmonth_def month_length_def)
      show ?thesis
      proof (cases "Y = 87")
        case True
        then show ?thesis using Y87 md(6) by (auto simp: myear_def ayear_def split: if_splits)
      next
        case False
        then show ?thesis using Y md(2,6) by (auto simp: myear_def ayear_def split: if_splits)
      qed
    qed
    ultimately show ?thesis by (simp add: julian_range_def)
  qed
  then show thesis using that run valid n by blast
qed

subsection \<open>French\<close>

text \<open>Twelve months of thirty days and five or six further days; from year 1 to the end of year 14.\<close>

definition french_length :: "int \<Rightarrow> int \<Rightarrow> int" where
  "french_length y m = (if m = 13 then if y mod 4 = 3 then 6 else 5 else 30)"

definition french_date :: "int \<times> int \<times> int \<Rightarrow> bool" where
  "french_date = (\<lambda>(y, m, d). 1 \<le> y \<and> y \<le> 14 \<and> 1 \<le> m \<and> m \<le> 13 \<and> 1 \<le> d \<and> d \<le> french_length y m)"

definition french_next :: "int \<times> int \<times> int \<Rightarrow> int \<times> int \<times> int" where
  "french_next = (\<lambda>(y, m, d).
     if d < french_length y m then (y, m, d + 1) else if m < 13 then (y, m + 1, 1) else (y + 1, 1, 1))"

definition french_number :: "int \<times> int \<times> int \<Rightarrow> int" where
  "french_number = (\<lambda>(y, m, d). (y * 1461) div 4 + (m - 1) * 30 + d)"

lemma french_found:
  assumes "french_date (y, m, d)"
  defines "n \<equiv> french_number (y, m, d) + FRENCH_SDN_OFFSET"
  shows "FrenchToSdn y m d = Ret n" "FIRST_VALID \<le> n" "n \<le> LAST_VALID" "SdnToFrench n = Ret (y, m, d)"
proof -
  have v: "1 \<le> y" "y \<le> 14" "1 \<le> m" "m \<le> 13" "1 \<le> d" "d \<le> french_length y m"
    using assms(1) by (simp_all add: french_date_def)
  define x where "x = (m - 1) * 30 + (d - 1)"
  have d30: "d \<le> 30" using v(6) by (simp add: french_length_def split: if_splits)
  have x: "0 \<le> x" "x \<le> 364 \<or> x = 365 \<and> y mod 4 = 3"
    using v d30 by (auto simp: x_def french_length_def split: if_splits)
  have n: "n = (y * 1461) div 4 + x + 1 + 2375474" by (simp add: n_def french_number_def x_def)
  have n': "n = 365 * y + y div 4 + x + 1 + 2375474" using n four_years by simp
  show "FrenchToSdn y m d = Ret n" using v d30 by (simp add: FrenchToSdn_def n_def french_number_def)
  show first: "FIRST_VALID \<le> n" using n' v(1) x(1) by linarith
  have "y div 4 \<le> 3" using v(2) by linarith
  moreover have "x \<le> 364" if "y = 14" using that x(2) by auto
  ultimately show last: "n \<le> LAST_VALID" using n' v(2) x(2) by (cases "y = 14") auto
  have T: "(n - 2375474) * 4 - 1 = 4 * ((y * 1461) div 4 + x) + 3" by (simp add: n)
  note yf = year_found [OF x]
  have x': "x = (d - 1) + 30 * (m - 1)" by (simp add: x_def)
  have "x div 30 = (m - 1) + (d - 1) div 30" unfolding x' by (rule div_mult_self2) simp
  moreover have "x mod 30 = (d - 1) mod 30" unfolding x' by (rule mod_mult_self2)
  moreover have "(d - 1) div 30 = 0" "(d - 1) mod 30 = d - 1" using v(5) d30 by simp_all
  ultimately have "x div 30 + 1 = m" "x mod 30 + 1 = d" by simp_all
  then show "SdnToFrench n = Ret (y, m, d)"
    using first last unfolding SdnToFrench_def T Let_def yf by simp
qed

lemma french_split:
  assumes "FIRST_VALID \<le> n" "n \<le> LAST_VALID"
  obtains y m d where "SdnToFrench n = Ret (y, m, d)" "french_date (y, m, d)"
    "french_number (y, m, d) + FRENCH_SDN_OFFSET = n"
proof -
  define X where "X = n - 2375475"
  have X: "0 \<le> X" "(n - 2375474) * 4 - 1 = 4 * X + 3" using assms(1) by (simp_all add: X_def)
  define y x where "y = (4 * X + 3) div 1461" and "x = ((4 * X + 3) mod 1461) div 4"
  note ys = year_split [OF X(1), folded y_def x_def]
  define m d where "m = x div 30 + 1" and "d = x mod 30 + 1"
  have XY: "X = 365 * y + y div 4 + x" using ys(3) by (simp add: four_years)
  have x: "x = (m - 1) * 30 + (d - 1)" by (simp add: m_def d_def)
  have y: "1 \<le> y" "y \<le> 14"
  proof -
    show "1 \<le> y"
    proof (rule ccontr)
      assume "\<not> ?thesis"
      then have "y = 0" using ys(1) by simp
      then show False using XY ys(4) assms(1) by (auto simp: X_def)
    qed
    show "y \<le> 14"
    proof (rule ccontr)
      assume "\<not> ?thesis"
      then have "y \<ge> 15" "y div 4 \<ge> 3" by linarith+
      then show False using XY ys(2) assms(2) unfolding X_def by linarith
    qed
  qed
  have m: "1 \<le> m" "m \<le> 13" "1 \<le> d" "d \<le> 30" using ys(2,4) unfolding m_def d_def by auto
  have "d \<le> french_length y m" using m ys(4) x by (auto simp: french_length_def)
  then have "french_date (y, m, d)" using y m by (simp add: french_date_def)
  moreover have "SdnToFrench n = Ret (y, m, d)"
    using assms unfolding SdnToFrench_def X(2) Let_def y_def x_def m_def d_def by simp
  moreover have "french_number (y, m, d) + 2375474 = n"
    using XY x by (simp add: french_number_def four_years X_def)
  ultimately show thesis using that by blast
qed

section \<open>The interface of a calendar\<close>

text \<open>What the functions of \<open>calendar.c\<close> rely on: on the days of the calendar the two conversions are inverse to
  each other, and the day after a date has the next number.\<close>

locale sdn_calendar =
  fixes to_jd :: "int \<Rightarrow> int \<Rightarrow> int \<Rightarrow> int run" and from_jd :: "int \<Rightarrow> (int \<times> int \<times> int) run"
    and ok :: "int \<times> int \<times> int \<Rightarrow> bool" and succ :: "int \<times> int \<times> int \<Rightarrow> int \<times> int \<times> int"
    and first :: int and final :: int
  assumes to_from: "ok (y, m, d) \<Longrightarrow> \<exists>n. to_jd y m d = Ret n \<and> first \<le> n \<and> n \<le> final \<and> from_jd n = Ret (y, m, d)"
    and from_to: "first \<le> n \<Longrightarrow> n \<le> final \<Longrightarrow> \<exists>y m d. from_jd n = Ret (y, m, d) \<and> ok (y, m, d) \<and> to_jd y m d = Ret n"
    and succ_number: "ok (y, m, d) \<Longrightarrow> to_jd y m d = Ret n \<Longrightarrow> n < final \<Longrightarrow> succ (y, m, d) = (y', m', d') \<Longrightarrow>
      ok (y', m', d') \<and> to_jd y' m' d' = Ret (n + 1)"
begin

lemma from_succ:
  assumes "first \<le> n" "n < final" "from_jd n = Ret e"
  shows "from_jd (n + 1) = Ret (succ e)"
proof -
  obtain y m d where e: "from_jd n = Ret (y, m, d)" "ok (y, m, d)" "to_jd y m d = Ret n" using from_to assms(1,2) by force
  obtain y' m' d' where s: "succ (y, m, d) = (y', m', d')" by (cases "succ (y, m, d)")
  have o: "ok (y', m', d')" "to_jd y' m' d' = Ret (n + 1)" using succ_number [OF e(2,3) assms(2) s] by simp_all
  then have "from_jd (n + 1) = Ret (y', m', d')" using to_from [OF o(1)] by auto
  then show ?thesis using assms(3) e(1) s by simp
qed

lemma to_pow:
  assumes "ok (y, m, d)" "to_jd y m d = Ret n"
  shows "n + int k \<le> final \<Longrightarrow> (succ ^^ k) (y, m, d) = (y', m', d') \<Longrightarrow> ok (y', m', d') \<and> to_jd y' m' d' = Ret (n + int k)"
proof (induction k arbitrary: y' m' d')
  case (Suc k)
  obtain y1 m1 d1 where s: "(succ ^^ k) (y, m, d) = (y1, m1, d1)" by (cases "(succ ^^ k) (y, m, d)")
  then have "ok (y1, m1, d1)" "to_jd y1 m1 d1 = Ret (n + int k)" using Suc by simp_all
  then show ?case using succ_number [of y1 m1 d1 "n + int k" y' m' d'] Suc.prems s by (simp add: algebra_simps)
qed (use assms in simp)

text \<open>The days from the first on are the dates the calendar goes through.\<close>

lemma counts:
  assumes "from_jd first = Ret e" "first + int k \<le> final"
  shows "from_jd (first + int k) = Ret ((succ ^^ k) e)"
  using assms(2)
proof (induction k)
  case (Suc k)
  then have "from_jd (first + int k + 1) = Ret (succ ((succ ^^ k) e))" by (intro from_succ) simp_all
  then show ?case by (simp add: algebra_simps)
qed (use assms(1) in simp)

lemma counts_back:
  assumes "from_jd first = Ret e" "first + int k \<le> final" "(succ ^^ k) e = (y, m, d)"
  shows "from_jd (first + int k) = Ret (y, m, d) \<and> to_jd y m d = Ret (first + int k) \<and> ok (y, m, d)"
proof -
  have "from_jd (first + int k) = Ret (y, m, d)" using counts [OF assms(1,2)] assms(3) by simp
  then show ?thesis using from_to [of "first + int k"] assms(2) by auto
qed

end

text \<open>Dates with the same number are the same.\<close>

lemma gregorian_inj:
  assumes "valid_date gregorian_leap (y, m, d)" "valid_date gregorian_leap (y', m', d')"
    and "0 \<le> myear y m" "myear y m < INT_MAX" "0 \<le> myear y' m'" "myear y' m' < INT_MAX"
    and eq: "day_number gregorian_start (y, m, d) = day_number gregorian_start (y', m', d')"
  shows "(y, m, d) = (y', m', d')"
proof -
  define x x' where "x = mstart (mmonth m) + d - 1" and "x' = mstart (mmonth m') + d' - 1"
  note g = gregorian_day [OF assms(1), folded x_def] and g' = gregorian_day [OF assms(2), folded x'_def]
  note c = century_found [OF g(3,4), folded g(5)] and c' = century_found [OF g'(3,4), folded g'(5)]
  have cc: "myear y m div 100 = myear y' m' div 100" by (rule trans [OF c(1) [unfolded eq, symmetric] c'(1)])
  have r: "(myear y m mod 100 * 1461) div 4 + x = (myear y' m' mod 100 * 1461) div 4 + x'"
    by (rule trans [OF c(2) [unfolded eq, symmetric] c'(2)])
  note y = year_found [OF g(1,2)] and y' = year_found [OF g'(1,2)]
  have t: "myear y m mod 100 = myear y' m' mod 100" by (rule trans [OF y(1) [unfolded r, symmetric] y'(1)])
  have x: "x = x'" by (rule trans [OF y(2) [unfolded r, symmetric] y'(2)])
  have "myear y m = myear y' m'" using cc t by (metis mult_div_mod_eq)
  then have "month_and_day (myear y m) (x + 1) = month_and_day (myear y' m') (x' + 1)" using x by simp
  then show ?thesis
    using month_and_day_found [OF assms(1,3,4)] month_and_day_found [OF assms(2,5,6)] unfolding x_def x'_def by simp
qed

lemma julian_inj:
  assumes "valid_date julian_leap (y, m, d)" "valid_date julian_leap (y', m', d')"
    and "0 \<le> myear y m" "myear y m < INT_MAX" "0 \<le> myear y' m'" "myear y' m' < INT_MAX"
    and eq: "day_number julian_start (y, m, d) = day_number julian_start (y', m', d')"
  shows "(y, m, d) = (y', m', d')"
proof -
  define x x' where "x = mstart (mmonth m) + d - 1" and "x' = mstart (mmonth m') + d' - 1"
  note g = julian_day [OF assms(1), folded x_def] and g' = julian_day [OF assms(2), folded x'_def]
  note c = year_found [OF g(1,2), folded g(3)] and c' = year_found [OF g'(1,2), folded g'(3)]
  have "myear y m = myear y' m'" by (rule trans [OF c(1) [unfolded eq, symmetric] c'(1)])
  moreover have "x = x'" by (rule trans [OF c(2) [unfolded eq, symmetric] c'(2)])
  ultimately have run: "month_and_day (myear y m) (x + 1) = month_and_day (myear y' m') (x' + 1)" by simp
  show ?thesis
    using run month_and_day_found [OF assms(1,3,4)] month_and_day_found [OF assms(2,5,6)] unfolding x_def x'_def by simp
qed

lemma next_date_year:
  assumes "next_date leap (y, m, d) = (y', m', d')" "y \<noteq> 0"
  shows "ayear y \<le> ayear y'" "ayear y' \<le> ayear y + 1"
  using assms by (auto simp: next_date_def ayear_def split: if_splits)

interpretation gregorian: sdn_calendar GregorianToSdn SdnToGregorian
  "\<lambda>e. valid_date gregorian_leap e \<and> gregorian_range e" "next_date gregorian_leap" 1 GREGORIAN_LAST
proof
  fix y m d assume "valid_date gregorian_leap (y, m, d) \<and> gregorian_range (y, m, d)"
  then show "\<exists>n. GregorianToSdn y m d = Ret n \<and> 1 \<le> n \<and> n \<le> GREGORIAN_LAST \<and> SdnToGregorian n = Ret (y, m, d)"
    using gregorian_found by blast
next
  fix n assume n: "1 \<le> n" "n \<le> GREGORIAN_LAST"
  show "\<exists>y m d. SdnToGregorian n = Ret (y, m, d) \<and> (valid_date gregorian_leap (y, m, d) \<and> gregorian_range (y, m, d)) \<and>
      GregorianToSdn y m d = Ret n"
    using gregorian_split [OF n] gregorian_found(1) by metis
next
  fix y m d n y' m' d'
  assume e: "valid_date gregorian_leap (y, m, d) \<and> gregorian_range (y, m, d)" "GregorianToSdn y m d = Ret n"
    "n < GREGORIAN_LAST" "next_date gregorian_leap (y, m, d) = (y', m', d')"
  have n: "n = day_number gregorian_start (y, m, d) - 32045" "1 \<le> n" using gregorian_found [of y m d] e by simp_all
  have v': "valid_date gregorian_leap (y', m', d')" using greg.next_valid [of "(y, m, d)"] e by simp
  have num: "day_number gregorian_start (y', m', d') = n + 1 + 32045" using greg.next_number [of "(y, m, d)"] e n by simp
  have "y \<noteq> 0" using e(1) by (simp add: valid_date_def)
  note yy = next_date_year [OF e(4) this]
  have "- 4714 \<le> y" "y \<le> 2147468900" using e(1) by (auto simp: gregorian_range_def)
  then have ay: "- 4713 \<le> ayear y" "ayear y \<le> 2147468900" by (simp_all add: ayear_def)
  obtain y2 m2 d2 where s: "SdnToGregorian (n + 1) = Ret (y2, m2, d2)" "valid_date gregorian_leap (y2, m2, d2)"
    "gregorian_range (y2, m2, d2)" "day_number gregorian_start (y2, m2, d2) - 32045 = n + 1"
    by (rule gregorian_split [of "n + 1"]) (use n(2) e(3) in auto)
  have "- 4714 \<le> y2" "y2 \<le> 2147468900" using s(3) by (auto simp: gregorian_range_def)
  then have ay2: "- 4713 \<le> ayear y2" "ayear y2 \<le> 2147468900" by (simp_all add: ayear_def)
  have "(y', m', d') = (y2, m2, d2)"
    by (rule gregorian_inj [OF v' s(2)])
      (use ay ay2 yy myear_limits [of y' m'] myear_limits [of y2 m2] num s(4) in linarith)+
  then show "(valid_date gregorian_leap (y', m', d') \<and> gregorian_range (y', m', d')) \<and> GregorianToSdn y' m' d' = Ret (n + 1)"
    using s gregorian_found(1) [OF s(2,3)] by simp
qed

interpretation julian: sdn_calendar JulianToSdn SdnToJulian
  "\<lambda>e. valid_date julian_leap e \<and> julian_range e" "next_date julian_leap" 1 JULIAN_LAST
proof
  fix y m d assume "valid_date julian_leap (y, m, d) \<and> julian_range (y, m, d)"
  then show "\<exists>n. JulianToSdn y m d = Ret n \<and> 1 \<le> n \<and> n \<le> JULIAN_LAST \<and> SdnToJulian n = Ret (y, m, d)"
    using julian_found by blast
next
  fix n assume n: "1 \<le> n" "n \<le> JULIAN_LAST"
  show "\<exists>y m d. SdnToJulian n = Ret (y, m, d) \<and> (valid_date julian_leap (y, m, d) \<and> julian_range (y, m, d)) \<and>
      JulianToSdn y m d = Ret n"
    using julian_split [OF n] julian_found(1) by metis
next
  fix y m d n y' m' d'
  assume e: "valid_date julian_leap (y, m, d) \<and> julian_range (y, m, d)" "JulianToSdn y m d = Ret n"
    "n < JULIAN_LAST" "next_date julian_leap (y, m, d) = (y', m', d')"
  have n: "n = day_number julian_start (y, m, d) - 32083" "1 \<le> n" using julian_found [of y m d] e by simp_all
  have v': "valid_date julian_leap (y', m', d')" using jul.next_valid [of "(y, m, d)"] e by simp
  have num: "day_number julian_start (y', m', d') = n + 1 + 32083" using jul.next_number [of "(y, m, d)"] e n by simp
  have "y \<noteq> 0" using e(1) by (simp add: valid_date_def)
  note yy = next_date_year [OF e(4) this]
  have "- 4713 \<le> y" "y \<le> 2147478847" using e(1) by (auto simp: julian_range_def)
  then have ay: "- 4712 \<le> ayear y" "ayear y \<le> 2147478847" by (simp_all add: ayear_def)
  obtain y2 m2 d2 where s: "SdnToJulian (n + 1) = Ret (y2, m2, d2)" "valid_date julian_leap (y2, m2, d2)"
    "julian_range (y2, m2, d2)" "day_number julian_start (y2, m2, d2) - 32083 = n + 1"
    by (rule julian_split [of "n + 1"]) (use n(2) e(3) in auto)
  have Y2: "0 \<le> myear y2 m2" "myear y2 m2 < INT_MAX" using s(3) by (auto simp: julian_range_def myear_def ayear_def)
  have "0 \<le> myear y' m'" using ay yy myear_limits [of y' m'] by linarith
  moreover have "myear y' m' < INT_MAX"
  proof (rule ccontr)
    assume "\<not> ?thesis"
    then have Y: "myear y' m' \<ge> 2147483647" by simp
    then have "myear y' m' div 4 \<ge> 536870911" by linarith
    moreover have "n + 32083 = 365 * myear y' m' + myear y' m' div 4 + (mstart (mmonth m') + d' - 1)"
      using julian_day(3) [OF v'] num unfolding four_years by simp
    ultimately show False using Y julian_day(1) [OF v'] e(3) by linarith
  qed
  ultimately have Y': "0 \<le> myear y' m'" "myear y' m' < INT_MAX" .
  have "(y', m', d') = (y2, m2, d2)" by (rule julian_inj [OF v' s(2) Y' Y2]) (use num s(4) in linarith)
  then show "(valid_date julian_leap (y', m', d') \<and> julian_range (y', m', d')) \<and> JulianToSdn y' m' d' = Ret (n + 1)"
    using s julian_found(1) [OF s(2,3)] by simp
qed

interpretation french: sdn_calendar FrenchToSdn SdnToFrench french_date french_next FIRST_VALID LAST_VALID
proof
  fix y m d assume "french_date (y, m, d)"
  then show "\<exists>n. FrenchToSdn y m d = Ret n \<and> FIRST_VALID \<le> n \<and> n \<le> LAST_VALID \<and> SdnToFrench n = Ret (y, m, d)"
    using french_found by blast
next
  fix n assume n: "FIRST_VALID \<le> n" "n \<le> LAST_VALID"
  show "\<exists>y m d. SdnToFrench n = Ret (y, m, d) \<and> french_date (y, m, d) \<and> FrenchToSdn y m d = Ret n"
    using french_split [OF n] french_found(1) by metis
next
  fix y m d n y' m' d'
  assume e: "french_date (y, m, d)" "FrenchToSdn y m d = Ret n" "n < LAST_VALID" "french_next (y, m, d) = (y', m', d')"
  have v: "1 \<le> y" "y \<le> 14" "1 \<le> m" "m \<le> 13" "1 \<le> d" "d \<le> french_length y m" using e(1) by (simp_all add: french_date_def)
  have n: "n = 365 * y + y div 4 + (m - 1) * 30 + d + 2375474"
    using french_found(1) [OF e(1)] e(2) by (simp add: french_number_def four_years)
  have "french_date (y', m', d') \<and> french_number (y', m', d') = french_number (y, m, d) + 1"
  proof (cases "d < french_length y m \<or> m < 13")
    case True
    then show ?thesis
      using e(4) v by (auto simp: french_next_def french_date_def french_number_def french_length_def split: if_splits)
  next
    case False
    then have l: "m = 13" "d = french_length y 13" "(y', m', d') = (y + 1, 1, 1)" using e(4) v by (simp_all add: french_next_def)
    have "y \<noteq> 14" using n e(3) l by (auto simp: french_length_def)
    then show ?thesis using v l quarter_step [of y] four_years [of y] four_years [of "y + 1"]
      by (auto simp: french_date_def french_number_def french_length_def)
  qed
  then show "french_date (y', m', d') \<and> FrenchToSdn y' m' d' = Ret (n + 1)"
    using french_found(1) [of y' m' d'] french_found(1) [OF e(1)] e(2) by simp
qed

lemma DayOfWeek_eq: "DayOfWeek sdn = (sdn + 1) mod 7"
proof -
  obtain q where "sdn = q * 7 + sdn smod 7" using sdiv_mult_smod_eq [of sdn 7] by metis
  then have "sdn + 1 = (sdn smod 7 + 8) + 7 * (q - 1)" by simp
  moreover have "((sdn smod 7 + 8) + 7 * (q - 1)) mod 7 = (sdn smod 7 + 8) mod 7" by (rule mod_mult_self2)
  ultimately show ?thesis unfolding DayOfWeek_def by metis
qed

lemma month_and_day_safe: "0 \<le> Y \<Longrightarrow> Y < INT_MAX \<Longrightarrow> month_and_day Y k \<noteq> Undef"
  by (auto simp: month_and_day_def Let_def)

lemma SdnToGregorian_safe: "SdnToGregorian n \<noteq> Undef"
proof (cases "n \<le> 0 \<or> n > (ZEND_LONG_MAX - 4 * GREGOR_SDN_OFFSET) div 4")
  case False
  define T where "T = (n + 32045) * 4 - 1"
  define r where "r = T mod 146097 div 4"
  define c t where "c = T div 146097" and "t = (r * 4 + 3) div 1461"
  have n: "1 \<le> n" "n \<le> 2305843009213661906" using False by simp_all
  then have T: "0 \<le> T" "T \<le> ZEND_LONG_MAX" by (simp_all add: T_def)
  have "0 \<le> r" by (simp add: r_def)
  then have ct: "0 \<le> c" "0 \<le> t" using T(1) by (simp_all add: c_def t_def pos_imp_zdiv_nonneg_iff)
  have "SdnToGregorian n =
      (if T < 0 \<or> c > INT_MAX then Ret (0, 0, 0)
       else if c > INT_MAX div 100 - t then Ret (0, 0, 0)
       else run_bind (c_int (c * 100 + t)) (\<lambda>year. month_and_day year ((r * 4 + 3) mod 1461 div 4 + 1)))"
    using T False unfolding SdnToGregorian_def Let_def T_def [symmetric] c_def r_def t_def by simp
  moreover have "c * 100 + t < INT_MAX" if "\<not> c > INT_MAX div 100 - t" using that ct by simp
  ultimately show ?thesis using ct month_and_day_safe by auto
qed (simp add: SdnToGregorian_def)

lemma first_days:
  "SdnToGregorian 1 = Ret (- 4714, 11, 25)" "SdnToJulian 1 = Ret (- 4713, 1, 2)" "SdnToFrench FIRST_VALID = Ret (1, 1, 1)"
  by (simp_all add: SdnToGregorian_def SdnToJulian_def SdnToFrench_def month_and_day_def Let_def)

section \<open>Properties\<close>



text \<open>The Julian conversions count days from 2 January 4713 B.C. in the same way, and the French republican
  ones from 1 Vendemiaire of year 1 to the last day of year 14; outside of that range \<open>SdnToFrench\<close>
  returns zeros.\<close>

theorem julian_french_calendar_correct:
  "(1 + int k \<le> 784368369983 \<and> (next_date julian_leap ^^ k) (- 4713, 1, 2) = (y, m, d) \<longrightarrow>
      SdnToJulian (1 + int k) = Ret (y, m, d) \<and> JulianToSdn y m d = Ret (1 + int k) \<and> valid_date julian_leap (y, m, d)) \<and>
    (FIRST_VALID + int k \<le> LAST_VALID \<and> (french_next ^^ k) (1, 1, 1) = (y, m, d) \<longrightarrow>
      SdnToFrench (FIRST_VALID + int k) = Ret (y, m, d) \<and> FrenchToSdn y m d = Ret (FIRST_VALID + int k)) \<and>
    (n < FIRST_VALID \<or> LAST_VALID < n \<longrightarrow> SdnToFrench n = Ret (0, 0, 0))"
  using julian.counts_back [OF first_days(2), of k y m d] french.counts_back [OF first_days(3), of k y m d]
  by (auto simp: SdnToFrench_def)

theorem julian_french_calendar_correct_witness:
  "SdnToJulian 4 = Ret (- 4713, 1, 5) \<and> SdnToFrench (FIRST_VALID + 3) = Ret (1, 1, 4) \<and> SdnToFrench 7 = Ret (0, 0, 0)"
proof -
  have "(next_date julian_leap ^^ 3) (- 4713, 1, 2) = (- 4713, 1, 5)" "(french_next ^^ 3) (1, 1, 1) = (1, 1, 4)"
    by (simp_all add: eval_nat_numeral next_date_def month_length_def french_next_def french_length_def)
  then show ?thesis
    using julian_french_calendar_correct [of 3 "- 4713" 1 5 7] julian_french_calendar_correct [of 3 1 1 4 7] by simp
qed

text \<open>Years near the end of the \<open>int\<close> range overflow: \<open>GregorianToSdn\<close> and \<open>JulianToSdn\<close> add 4800 to the year
  before they widen it, and \<open>SdnToJulian\<close> adds 1 to a year it has only tested against \<open>INT_MAX\<close>; the checks
  in front of \<open>SdnToGregorian\<close> rule an overflow out.\<close>

lemma calendar_overflow:
  "(INT_MAX - 4800 < y \<and> 1 \<le> m \<and> m \<le> 12 \<and> 1 \<le> d \<and> d \<le> 31 \<longrightarrow>
      GregorianToSdn y m d = Undef \<and> JulianToSdn y m d = Undef) \<and>
    SdnToJulian 784368370300 = Undef \<and> SdnToGregorian n \<noteq> Undef"
proof -
  have "SdnToJulian 784368370300 = month_and_day 2147483647 (316 + 1)"
    by (rule SdnToJulian_run [where T = "784368370300 * 4 + (32083 * 4 - 1)"]) simp_all
  then have "SdnToJulian 784368370300 = Undef" by (simp add: month_and_day_def c_int_def)
  then show ?thesis
    using SdnToGregorian_safe by (simp add: GregorianToSdn_def JulianToSdn_def shifted_year_def c_int_def)
qed

end
