(* ===== verification/Cal_Jewish.thy ===== *)
theory Cal_Jewish
  imports Cal_Sdn "HOL-Library.Word"
begin

text \<open>
  The Jewish calendar of \<open>ext/calendar/jewish.c\<close>: the molad of a metonic cycle in 64-bit words, the search for the
  molad of a year near a day, the postponements of the new year and the two conversions. The proofs measure
  time in halakim since the epoch; the molad of year number \<open>i\<close>, from 0 on, is at \<open>molad i\<close>.
\<close>

unbundle bit_operations_syntax

section \<open>Constants\<close>

abbreviation HALAKIM_PER_HOUR :: int where "HALAKIM_PER_HOUR \<equiv> 1080"
abbreviation HALAKIM_PER_DAY :: int where "HALAKIM_PER_DAY \<equiv> 25920"
abbreviation HALAKIM_PER_LUNAR_CYCLE :: int where "HALAKIM_PER_LUNAR_CYCLE \<equiv> 765433"
abbreviation HALAKIM_PER_METONIC_CYCLE :: int where "HALAKIM_PER_METONIC_CYCLE \<equiv> 179876755"
abbreviation JEWISH_SDN_OFFSET :: int where "JEWISH_SDN_OFFSET \<equiv> 347997"
abbreviation JEWISH_SDN_MAX :: int where "JEWISH_SDN_MAX \<equiv> 324542846"
abbreviation NEW_MOON_OF_CREATION :: int where "NEW_MOON_OF_CREATION \<equiv> 31524"
abbreviation NOON :: int where "NOON \<equiv> 18 * HALAKIM_PER_HOUR"
abbreviation AM3_11_20 :: int where "AM3_11_20 \<equiv> 9 * HALAKIM_PER_HOUR + 204"
abbreviation AM9_32_43 :: int where "AM9_32_43 \<equiv> 15 * HALAKIM_PER_HOUR + 589"

definition monthsPerYear :: "int \<Rightarrow> int" where
  "monthsPerYear i = [12, 12, 13, 12, 12, 13, 12, 13, 12, 12, 13, 12, 12, 13, 12, 12, 13, 12, 13] ! nat i"

definition yearOffset :: "int \<Rightarrow> int" where
  "yearOffset i = [0, 12, 24, 37, 49, 61, 74, 86, 99, 111, 123, 136, 148, 160, 173, 185, 197, 210, 222] ! nat i"

section \<open>The new year\<close>

definition Tishri1 :: "int \<Rightarrow> int \<Rightarrow> int \<Rightarrow> int" where
  "Tishri1 metonicYear moladDay moladHalakim =
     (let tishri1 = moladDay;
          dow = tishri1 mod 7;
          leapYear = metonicYear \<in> {2, 5, 7, 10, 13, 16, 18};
          lastWasLeapYear = metonicYear \<in> {3, 6, 8, 11, 14, 17, 0};
          (tishri1, dow) =
            (if moladHalakim \<ge> NOON \<or> \<not> leapYear \<and> dow = 2 \<and> moladHalakim \<ge> AM3_11_20 \<or>
                lastWasLeapYear \<and> dow = 1 \<and> moladHalakim \<ge> AM9_32_43
             then (tishri1 + 1, if dow + 1 = 7 then 0 else dow + 1)
             else (tishri1, dow))
      in if dow = 3 \<or> dow = 5 \<or> dow = 0 then tishri1 + 1 else tishri1)"

text \<open>The result is \<open>*pMoladDay\<close> and \<open>*pMoladHalakim\<close>. The first test compares signed numbers, the second one unsigned
  ones.\<close>

definition MoladOfMetonicCycle :: "int \<Rightarrow> int \<times> int" where
  "MoladOfMetonicCycle metonicCycle =
     (let chk = metonicCycle;
          lo = HALAKIM_PER_METONIC_CYCLE AND 0xFFFF;
          hi = drop_bit 16 HALAKIM_PER_METONIC_CYCLE AND 0xFFFF
      in if chk > (ZEND_LONG_MAX - NEW_MOON_OF_CREATION) div lo then (0, 0)
         else
           let r1 = word_of_int NEW_MOON_OF_CREATION + word_of_int (chk * lo) :: 64 word
           in if (word_of_int chk :: 64 word) > (word_of_int ZEND_LONG_MAX - drop_bit 16 r1) div word_of_int hi then (0, 0)
              else
                let r2 = drop_bit 16 r1 + word_of_int (chk * hi);
                    d2 = r2 div word_of_int HALAKIM_PER_DAY;
                    r2 = r2 - d2 * word_of_int HALAKIM_PER_DAY;
                    r1 = push_bit 16 r2 OR (r1 AND 0xFFFF);
                    d1 = r1 div word_of_int HALAKIM_PER_DAY;
                    r1 = r1 - d1 * word_of_int HALAKIM_PER_DAY
                in (sint (push_bit 16 d2 OR d1), sint r1))"

section \<open>The molad near a day\<close>

partial_function (option) cycle_loop :: "int \<Rightarrow> int \<Rightarrow> int \<Rightarrow> int \<Rightarrow> (int \<times> int \<times> int) option" where
  "cycle_loop inputDay metonicCycle moladDay moladHalakim =
     (if moladDay < inputDay - 6940 + 310 then
        let moladHalakim = moladHalakim + HALAKIM_PER_METONIC_CYCLE
        in cycle_loop inputDay (metonicCycle + 1) (moladDay + moladHalakim div HALAKIM_PER_DAY)
             (moladHalakim mod HALAKIM_PER_DAY)
      else Some (metonicCycle, moladDay, moladHalakim))"

function year_loop :: "int \<Rightarrow> int \<Rightarrow> int \<Rightarrow> int \<Rightarrow> int \<times> int \<times> int" where
  "year_loop inputDay metonicYear moladDay moladHalakim =
     (if metonicYear < 18 then
        if moladDay > inputDay - 74 then (metonicYear, moladDay, moladHalakim)
        else
          let moladHalakim = moladHalakim + HALAKIM_PER_LUNAR_CYCLE * monthsPerYear metonicYear
          in year_loop inputDay (metonicYear + 1) (moladDay + moladHalakim div HALAKIM_PER_DAY)
               (moladHalakim mod HALAKIM_PER_DAY)
      else (metonicYear, moladDay, moladHalakim))"
  by pat_completeness auto

termination
  by (relation "measure (\<lambda>(d, y, m, h). nat (18 - y))") auto

declare year_loop.simps [simp del]

text \<open>The result is \<open>*pMetonicCycle\<close>, \<open>*pMetonicYear\<close>, \<open>*pMoladDay\<close> and \<open>*pMoladHalakim\<close>. The operands of \<open>/\<close> and
  \<open>%\<close> are never negative from here on (\<open>year\<close> is at least 1), where they are \<open>div\<close> and \<open>mod\<close>.\<close>

definition FindTishriMolad :: "int \<Rightarrow> (int \<times> int \<times> int \<times> int) run" where
  "FindTishriMolad inputDay =
     (let metonicCycle = (inputDay + 310) sdiv 6940;
          (moladDay, moladHalakim) = MoladOfMetonicCycle metonicCycle
      in run_bind (run_of (cycle_loop inputDay metonicCycle moladDay moladHalakim))
           (\<lambda>(metonicCycle, moladDay, moladHalakim).
             Ret (metonicCycle, year_loop inputDay 0 moladDay moladHalakim)))"

definition FindStartOfYear :: "int \<Rightarrow> int \<times> int \<times> int \<times> int \<times> int" where
  "FindStartOfYear year =
     (let metonicCycle = (year - 1) div 19;
          metonicYear = (year - 1) mod 19;
          (moladDay, moladHalakim) = MoladOfMetonicCycle metonicCycle;
          moladHalakim = moladHalakim + HALAKIM_PER_LUNAR_CYCLE * yearOffset metonicYear;
          moladDay = moladDay + moladHalakim div HALAKIM_PER_DAY;
          moladHalakim = moladHalakim mod HALAKIM_PER_DAY
      in (metonicCycle, metonicYear, moladDay, moladHalakim,
          int_of_long (Tishri1 metonicYear moladDay moladHalakim)))"

section \<open>The conversions\<close>

text \<open>The last part of \<open>SdnToJewish\<close>: the day is in Heshvan or Kislev.\<close>

definition heshvan_or_kislev :: "int \<Rightarrow> int \<Rightarrow> int \<Rightarrow> int \<Rightarrow> int \<times> int \<times> int" where
  "heshvan_or_kislev year inputDay tishri1 tishri1After =
     (let yearLength = tishri1After - tishri1;
          day = inputDay - tishri1 - 29
      in if yearLength = 355 \<or> yearLength = 385 then
           if day \<le> 30 then (year, 2, day) else (year, 3, day - 30)
         else if day \<le> 29 then (year, 2, day) else (year, 3, day - 29))"

text \<open>The months before the last six, counted back from the next new year; \<open>None\<close> when the day is earlier than
  Tevet.\<close>

definition months_7_to_4 :: "int \<Rightarrow> int \<Rightarrow> int \<Rightarrow> (int \<times> int) option" where
  "months_7_to_4 year inputDay tishri1 =
     (let day = inputDay - tishri1 + 207
      in if day > 0 then Some (7, day)
         else if monthsPerYear ((year - 1) mod 19) = 13 then
           let day = day + 30
           in if day > 0 then Some (6, day)
              else
                let day = day + 30
                in if day > 0 then Some (5, day)
                   else let day = day + 29 in if day > 0 then Some (4, day) else None
         else
           let day = day + 30
           in if day > 0 then Some (5, day)
              else let day = day + 29 in if day > 0 then Some (4, day) else None)"

definition SdnToJewish :: "int \<Rightarrow> (int \<times> int \<times> int) run" where
  "SdnToJewish sdn =
     (if sdn \<le> JEWISH_SDN_OFFSET \<or> sdn > JEWISH_SDN_MAX then Ret (0, 0, 0)
      else
        let inputDay = sdn - JEWISH_SDN_OFFSET in
        run_bind (FindTishriMolad inputDay) (\<lambda>(metonicCycle, metonicYear, day, halakim).
          let tishri1 = int_of_long (Tishri1 metonicYear day halakim) in
          if inputDay \<ge> tishri1 then
            let year = metonicCycle * 19 + metonicYear + 1 in
            if inputDay < tishri1 + 59 then
              if inputDay < tishri1 + 30 then Ret (year, 1, inputDay - tishri1 + 1)
              else Ret (year, 2, inputDay - tishri1 - 29)
            else
              let halakim = halakim + HALAKIM_PER_LUNAR_CYCLE * monthsPerYear metonicYear;
                  day = day + halakim div HALAKIM_PER_DAY;
                  halakim = halakim mod HALAKIM_PER_DAY;
                  tishri1After = int_of_long (Tishri1 ((metonicYear + 1) mod 19) day halakim)
              in Ret (heshvan_or_kislev year inputDay tishri1 tishri1After)
          else
            let year = metonicCycle * 19 + metonicYear in
            if inputDay \<ge> tishri1 - 177 then
              Ret (if inputDay > tishri1 - 30 then (year, 13, inputDay - tishri1 + 30)
                   else if inputDay > tishri1 - 60 then (year, 12, inputDay - tishri1 + 60)
                   else if inputDay > tishri1 - 89 then (year, 11, inputDay - tishri1 + 89)
                   else if inputDay > tishri1 - 119 then (year, 10, inputDay - tishri1 + 119)
                   else if inputDay > tishri1 - 148 then (year, 9, inputDay - tishri1 + 148)
                   else (year, 8, inputDay - tishri1 + 178))
            else
              case months_7_to_4 year inputDay tishri1 of
                Some (month, day) \<Rightarrow> Ret (year, month, day)
              | None \<Rightarrow>
                  let tishri1After = tishri1 in
                  run_bind (FindTishriMolad (day - 365)) (\<lambda>(metonicCycle, metonicYear, day, halakim).
                    Ret (heshvan_or_kislev year inputDay (int_of_long (Tishri1 metonicYear day halakim)) tishri1After))))"

definition JewishToSdn :: "int \<Rightarrow> int \<Rightarrow> int \<Rightarrow> int run" where
  "JewishToSdn year month day =
     (if year \<le> 0 \<or> day \<le> 0 \<or> day > 30 then Ret 0
      else if month = 1 \<or> month = 2 then
        (case FindStartOfYear year of (metonicCycle, metonicYear, moladDay, moladHalakim, tishri1) \<Rightarrow>
           run_bind (c_int (tishri1 + day)) (\<lambda>sum.
           run_bind (c_int (if month = 1 then sum - 1 else sum + 29)) (\<lambda>sdn.
             Ret (sdn + JEWISH_SDN_OFFSET))))
      else if month = 3 then
        (case FindStartOfYear year of (metonicCycle, metonicYear, moladDay, moladHalakim, tishri1) \<Rightarrow>
           let moladHalakim = moladHalakim + HALAKIM_PER_LUNAR_CYCLE * monthsPerYear metonicYear;
               moladDay = moladDay + moladHalakim div HALAKIM_PER_DAY;
               moladHalakim = moladHalakim mod HALAKIM_PER_DAY;
               tishri1After = int_of_long (Tishri1 ((metonicYear + 1) mod 19) moladDay moladHalakim)
           in run_bind (c_int (tishri1After - tishri1)) (\<lambda>yearLength.
              run_bind (c_int (tishri1 + day + (if yearLength = 355 \<or> yearLength = 385 then 59 else 58))) (\<lambda>sdn.
                Ret (sdn + JEWISH_SDN_OFFSET))))
      else
        run_bind (c_int (year + 1)) (\<lambda>next_year.
          case FindStartOfYear next_year of (metonicCycle, metonicYear, moladDay, moladHalakim, tishri1After) \<Rightarrow>
            let lengthOfAdarIAndII = (if monthsPerYear ((year - 1) mod 19) = 12 then 29 else 59) in
            if month = 4 \<or> month = 5 \<or> month = 6 then
              run_bind (c_int (tishri1After + day)) (\<lambda>sum.
              run_bind (c_int (sum - lengthOfAdarIAndII -
                  (if month = 4 then 237 else if month = 5 then 208 else 178))) (\<lambda>sdn.
                Ret (sdn + JEWISH_SDN_OFFSET)))
            else if 7 \<le> month \<and> month \<le> 13 then
              run_bind (c_int (tishri1After + day)) (\<lambda>sum.
              run_bind (c_int (sum - (if month = 7 then 207 else if month = 8 then 178 else if month = 9 then 148
                  else if month = 10 then 119 else if month = 11 then 89 else if month = 12 then 60 else 30))) (\<lambda>sdn.
                Ret (sdn + JEWISH_SDN_OFFSET)))
            else Ret 0))"

section \<open>Division of positive numbers\<close>

lemma sdiv_nonneg: "0 \<le> a \<Longrightarrow> 0 < b \<Longrightarrow> a sdiv b = a div b" for a b :: int
  by (cases "a = 0") (simp_all add: signed_divide_int_def sgn_if)

lemma smod_nonneg: "0 \<le> a \<Longrightarrow> 0 < b \<Longrightarrow> a smod b = a mod b" for a b :: int
  by (metis minus_div_mult_eq_mod minus_sdiv_mult_eq_smod sdiv_nonneg)

section \<open>Words\<close>

lemma uint_small: "0 \<le> x \<Longrightarrow> x < 2 ^ 64 \<Longrightarrow> uint (word_of_int x :: 64 word) = x"
  by (simp add: uint_word_of_int_eq take_bit_int_eq_self)

lemma sint_small: "0 \<le> x \<Longrightarrow> x < 2 ^ 63 \<Longrightarrow> sint (word_of_int x :: 64 word) = x"
  by (simp add: sint_sbintrunc' signed_take_bit_int_eq_self)

lemma div_self_le: "0 \<le> x \<Longrightarrow> 0 < y \<Longrightarrow> x div y \<le> x" for x y :: int
  using zdiv_mono2 [of x 1 y] by simp

lemma div_small:
  assumes "0 \<le> x" "x < 2 ^ 64" "0 < y" "y < 2 ^ 64"
  shows "(word_of_int x :: 64 word) div word_of_int y = word_of_int (x div y)"
proof (rule word_uint_eqI)
  have "x div y \<le> x" using assms(1,3) by (rule div_self_le)
  then show "uint ((word_of_int x :: 64 word) div word_of_int y) = uint (word_of_int (x div y) :: 64 word)"
    using assms by (simp add: uint_div uint_small pos_imp_zdiv_nonneg_iff)
qed

lemma drop_small: "0 \<le> x \<Longrightarrow> x < 2 ^ 64 \<Longrightarrow> drop_bit 16 (word_of_int x :: 64 word) = word_of_int (x div 65536)"
  using div_small [of x 65536] by (simp add: drop_bit_eq_div)

lemma less_small:
  assumes "0 \<le> x" "x < 2 ^ 64" "0 \<le> y" "y < 2 ^ 64"
  shows "(word_of_int x :: 64 word) < word_of_int y \<longleftrightarrow> x < y"
  using assms by (simp add: word_less_def uint_small)

lemma push_small: "push_bit 16 (word_of_int x :: 64 word) = word_of_int (x * 65536)"
  by (simp add: push_bit_eq_mult)

lemma and_small: "(word_of_int x :: 64 word) AND 0xFFFF = word_of_int (x mod 65536)"
proof -
  have "(0xFFFF :: 64 word) = mask 16" by (simp add: mask_eq_exp_minus_1)
  then have "(word_of_int x :: 64 word) AND 0xFFFF = take_bit 16 (word_of_int x)" by (simp add: take_bit_eq_mask)
  also have "\<dots> = word_of_int (take_bit 16 x)" by (rule bit_word_eqI) (simp add: bit_simps bit_word_of_int_iff)
  finally show ?thesis by (simp add: take_bit_eq_mod)
qed

lemma or_small:
  assumes "0 \<le> b" "b < 65536"
  shows "(word_of_int (a * 65536) :: 64 word) OR word_of_int b = word_of_int (a * 65536 + b)"
proof -
  have "b = take_bit 16 b" using assms by (simp add: take_bit_int_eq_self)
  then have b: "\<not> bit b n" if "16 \<le> n" for n using that by (metis bit_take_bit_iff not_less)
  have "(word_of_int (push_bit 16 a) :: 64 word) AND word_of_int b = 0"
    using b by (auto simp: bit_eq_iff bit_simps bit_word_of_int_iff)
  then have "(word_of_int (push_bit 16 a) :: 64 word) OR word_of_int b = word_of_int (push_bit 16 a) + word_of_int b"
    by (simp only: disjunctive_add_eq_or)
  then show ?thesis by (simp add: push_bit_eq_mult)
qed

section \<open>The molad of a year\<close>

text \<open>The number of months before year number \<open>i\<close>, from 0 on, and the time of its molad in halakim; the day and the
  part of the day the code keeps are the quotient and the rest.\<close>

definition months_before :: "int \<Rightarrow> int" where
  "months_before i = 235 * (i div 19) + yearOffset (i mod 19)"

definition molad :: "int \<Rightarrow> int" where
  "molad i = NEW_MOON_OF_CREATION + HALAKIM_PER_LUNAR_CYCLE * months_before i"

abbreviation mday :: "int \<Rightarrow> int" where "mday i \<equiv> molad i div HALAKIM_PER_DAY"
abbreviation mrest :: "int \<Rightarrow> int" where "mrest i \<equiv> molad i mod HALAKIM_PER_DAY"

lemma metonic_cases:
  fixes y :: int
  assumes "0 \<le> y" "y < 19"
  shows "y \<in> {0, 1, 2, 3, 4, 5, 6, 7, 8, 9, 10, 11, 12, 13, 14, 15, 16, 17, 18}"
proof -
  have e: "[0..18] = [0, 1, 2, 3, 4, 5, 6, 7, 8, 9, 10, 11, 12, 13, 14, 15, 16, 17, 18 :: int]" by (simp add: upto.simps)
  have "y \<in> set [0..18]" using assms by simp
  then show ?thesis unfolding e by simp
qed

lemma yearOffset_step:
  assumes "0 \<le> y" "y < 19"
  shows "(if y = 18 then 235 else yearOffset (y + 1)) = yearOffset y + monthsPerYear y"
  using metonic_cases [OF assms] by (auto simp: yearOffset_def monthsPerYear_def)

lemma monthsPerYear_leap:
  assumes "0 \<le> y" "y < 19"
  shows "monthsPerYear y = (if y \<in> {2, 5, 7, 10, 13, 16, 18} then 13 else 12)"
  using metonic_cases [OF assms] by (auto simp: monthsPerYear_def)

lemma metonic_step:
  fixes i :: int
  shows "(i + 1) mod 19 = (if i mod 19 = 18 then 0 else i mod 19 + 1)"
    "(i + 1) div 19 = (if i mod 19 = 18 then i div 19 + 1 else i div 19)"
proof -
  define q r where "q = i div 19" and "r = i mod 19"
  have i: "i = 19 * q + r" "0 \<le> r" "r < 19" by (simp_all add: q_def r_def)
  have "i + 1 = 19 * (if r = 18 then q + 1 else q) + (if r = 18 then 0 else r + 1)" using i(1) by simp
  moreover have "0 \<le> (if r = 18 then 0 else r + 1)" "(if r = 18 then 0 else r + 1) < 19" using i by simp_all
  ultimately have "(i + 1) mod 19 = (if r = 18 then 0 else r + 1)" "(i + 1) div 19 = (if r = 18 then q + 1 else q)"
    by (rule int_mod_pos_eq, rule int_div_pos_eq)
  then show "(i + 1) mod 19 = (if i mod 19 = 18 then 0 else i mod 19 + 1)"
    "(i + 1) div 19 = (if i mod 19 = 18 then i div 19 + 1 else i div 19)" unfolding q_def r_def .
qed

lemma months_before_step: "months_before (i + 1) = months_before i + monthsPerYear (i mod 19)"
  using yearOffset_step [of "i mod 19"] by (auto simp: months_before_def metonic_step yearOffset_def [of 0] split: if_splits)

lemma molad_step: "molad (i + 1) = molad i + HALAKIM_PER_LUNAR_CYCLE * monthsPerYear (i mod 19)"
  by (simp add: molad_def months_before_step distrib_left)

lemma molad_cycle: "molad (19 * c) = NEW_MOON_OF_CREATION + c * HALAKIM_PER_METONIC_CYCLE"
  by (simp add: molad_def months_before_def yearOffset_def)

text \<open>Adding a span to a day and a part of a day, the way the code does it.\<close>

lemma carry:
  fixes m k :: int
  shows "m div 25920 + (m mod 25920 + k) div 25920 = (m + k) div 25920" "(m mod 25920 + k) mod 25920 = (m + k) mod 25920"
proof -
  have "m + k = 25920 * (m div 25920) + (m mod 25920 + k)" using mult_div_mod_eq [of 25920 m] by linarith
  then have "(m + k) div 25920 = (25920 * (m div 25920) + (m mod 25920 + k)) div 25920" by (rule arg_cong)
  also have "\<dots> = m div 25920 + (m mod 25920 + k) div 25920" by (rule div_mult_self4) simp
  finally show "m div 25920 + (m mod 25920 + k) div 25920 = (m + k) div 25920" by (rule sym)
qed (rule mod_add_left_eq)

text \<open>The computation in 16-bit halves divides the exact time.\<close>

lemma halves:
  fixes c :: int
  assumes "0 \<le> c" "c \<le> INT_MAX"
  defines "r \<equiv> 31524 + c * 45971"
  defines "s \<equiv> r div 65536 + c * 2744"
  defines "u \<equiv> s mod 25920 * 65536 + r mod 65536"
  shows "0 \<le> r" "r < 2 ^ 48" "0 \<le> s" "s < 2 ^ 48" "0 \<le> u" "u < 25920 * 65536" "0 \<le> u div 25920" "u div 25920 < 65536"
    "molad (19 * c) = 25920 * (s div 25920 * 65536) + u"
proof -
  show r: "0 \<le> r" "r < 2 ^ 48" using assms(1,2) by (simp_all add: r_def)
  have q: "0 \<le> r div 65536" "r div 65536 < 2 ^ 32" using r by (simp_all add: pos_imp_zdiv_nonneg_iff) 
  show "0 \<le> s" "s < 2 ^ 48" using q assms(1,2) by (simp_all add: s_def)
  have m: "0 \<le> s mod 25920" "s mod 25920 < 25920" "0 \<le> r mod 65536" "r mod 65536 < 65536" by simp_all
  then show u: "0 \<le> u" "u < 25920 * 65536" unfolding u_def by linarith+
  show "0 \<le> u div 25920" using u by (simp add: pos_imp_zdiv_nonneg_iff)
  show "u div 25920 < 65536" using u by linarith
  have "molad (19 * c) = r + c * 2744 * 65536" by (simp add: molad_cycle r_def)
  also have "\<dots> = s * 65536 + r mod 65536" using mult_div_mod_eq [of 65536 r] unfolding s_def by (simp add: algebra_simps)
  also have "\<dots> = 25920 * (s div 25920 * 65536) + u"
    using mult_div_mod_eq [of 25920 s] unfolding u_def by (metis (no_types, lifting) add.assoc distrib_right mult.assoc)
  finally show "molad (19 * c) = 25920 * (s div 25920 * 65536) + u" .
qed

lemma MoladOfMetonicCycle_eq:
  assumes c: "0 \<le> c" "c \<le> INT_MAX"
  shows "MoladOfMetonicCycle c = (mday (19 * c), mrest (19 * c))"
proof -
  define r where "r = 31524 + c * 45971"
  define s where "s = r div 65536 + c * 2744"
  define u where "u = s mod 25920 * 65536 + r mod 65536"
  note h = halves [OF c, folded r_def, folded s_def, folded u_def]
  have k: "(HALAKIM_PER_METONIC_CYCLE AND 0xFFFF) = 45971" "(drop_bit 16 HALAKIM_PER_METONIC_CYCLE AND 0xFFFF) = 2744" 
    by (simp_all add: drop_bit_eq_div)
  have w: "(word_of_int NEW_MOON_OF_CREATION + word_of_int (c * 45971) :: 64 word) = word_of_int r" by (simp add: r_def)
  have g1: "\<not> c > (ZEND_LONG_MAX - NEW_MOON_OF_CREATION) div 45971" using c by simp
  have "r div 65536 \<le> 2 ^ 32" using h(2) by simp
  then have b: "c \<le> (ZEND_LONG_MAX - r div 65536) div 2744" "(ZEND_LONG_MAX - r div 65536) div 2744 < 2 ^ 63"
    "0 \<le> r div 65536" using c h(1) by (simp_all add: pos_imp_zdiv_nonneg_iff)
  have lim: "(word_of_int ZEND_LONG_MAX - word_of_int (r div 65536)) div word_of_int 2744 =
      (word_of_int ((ZEND_LONG_MAX - r div 65536) div 2744) :: 64 word)"
    unfolding wi_hom_sub using \<open>r div 65536 \<le> 2 ^ 32\<close> b(3) by (intro div_small) simp_all
  have "(word_of_int ((ZEND_LONG_MAX - r div 65536) div 2744) :: 64 word) < word_of_int c \<longleftrightarrow>
      (ZEND_LONG_MAX - r div 65536) div 2744 < c"
    by (rule less_small) (use order_trans [OF c(1) b(1)] b(2) c in \<open>(assumption | simp)+\<close>)
  then have g2: "\<not> (word_of_int c :: 64 word) > (word_of_int ZEND_LONG_MAX - word_of_int (r div 65536)) div word_of_int 2744"
    unfolding lim using b(1) by linarith
  have sw: "word_of_int (r div 65536) + word_of_int (c * 2744) = (word_of_int s :: 64 word)" by (simp only: wi_hom_add s_def)
  have d2: "(word_of_int s :: 64 word) div word_of_int 25920 = word_of_int (s div 25920)"
    using h(3,4) by (intro div_small) simp_all
  have r2: "(word_of_int s :: 64 word) - word_of_int (s div 25920) * word_of_int 25920 = word_of_int (s mod 25920)"
    by (simp only: wi_hom_mult wi_hom_sub minus_div_mult_eq_mod)
  have d1: "(word_of_int u :: 64 word) div word_of_int 25920 = word_of_int (u div 25920)"
    using h(5,6) by (intro div_small) simp_all
  have r1: "(word_of_int u :: 64 word) - word_of_int (u div 25920) * word_of_int 25920 = word_of_int (u mod 25920)"
    by (simp only: wi_hom_mult wi_hom_sub minus_div_mult_eq_mod)
  have dr: "drop_bit 16 (word_of_int r :: 64 word) = word_of_int (r div 65536)" using h(1,2) by (intro drop_small) simp_all
  have pu: "(push_bit 16 (word_of_int (s mod 25920)) OR (word_of_int r AND 0xFFFF) :: 64 word) = word_of_int u"
    by (simp only: push_small and_small u_def) (intro or_small; simp)
  have "MoladOfMetonicCycle c = (sint (push_bit 16 (word_of_int (s div 25920)) OR word_of_int (u div 25920) :: 64 word),
      sint (word_of_int (u mod 25920) :: 64 word))"
    unfolding MoladOfMetonicCycle_def Let_def k w if_not_P [OF g1] dr if_not_P [OF g2] sw d2 r2 pu d1 r1 ..
  also have "(push_bit 16 (word_of_int (s div 25920)) OR word_of_int (u div 25920) :: 64 word) =
      word_of_int (s div 25920 * 65536 + u div 25920)"
    unfolding push_small using h(7,8) by (rule or_small)
  also have "sint (word_of_int (s div 25920 * 65536 + u div 25920) :: 64 word) = s div 25920 * 65536 + u div 25920"
  proof (rule sint_small)
    have "0 \<le> s div 25920" "s div 25920 \<le> 2 ^ 40" using h(3,4) by (simp_all add: pos_imp_zdiv_nonneg_iff)
    then show "0 \<le> s div 25920 * 65536 + u div 25920" "s div 25920 * 65536 + u div 25920 < 2 ^ 63"
      using h(7,8) by simp_all
  qed
  also have "\<dots> = mday (19 * c)" unfolding h(9) by simp
  also have "sint (word_of_int (u mod 25920) :: 64 word) = u mod 25920" 
    using pos_mod_bound [of 25920 u] by (intro sint_small) simp_all
  also have "u mod 25920 = mrest (19 * c)" unfolding h(9) by (rule mod_mult_self4 [symmetric])
  finally show ?thesis .
qed

section \<open>The length of a year\<close>

text \<open>The first day of year number \<open>i\<close>: the code's \<open>Tishri1\<close> at the exact molad.\<close>

definition new_year :: "int \<Rightarrow> int" where
  "new_year i = Tishri1 (i mod 19) (mday i) (mrest i)"

text \<open>The delay depends on whether the year and the year before are leap years, on the weekday and on the time.\<close>

definition delay :: "bool \<Rightarrow> bool \<Rightarrow> int \<Rightarrow> int \<Rightarrow> int" where
  "delay leap last_leap dow halakim =
     (if halakim \<ge> NOON \<or> \<not> leap \<and> dow = 2 \<and> halakim \<ge> AM3_11_20 \<or> last_leap \<and> dow = 1 \<and> halakim \<ge> AM9_32_43
      then 1 + (if dow = 2 \<or> dow = 4 \<or> dow = 6 then 1 else 0)
      else if dow = 3 \<or> dow = 5 \<or> dow = 0 then 1 else 0)"

definition leap_index :: "int \<Rightarrow> bool" where
  "leap_index i \<longleftrightarrow> monthsPerYear (i mod 19) = 13"

lemma leap_index_mod: "leap_index i \<longleftrightarrow> i mod 19 \<in> {2, 5, 7, 10, 13, 16, 18}"
  using monthsPerYear_leap [of "i mod 19"] by (simp add: leap_index_def)

lemma leap_index_before: "leap_index (i - 1) \<longleftrightarrow> i mod 19 \<in> {3, 6, 8, 11, 14, 17, 0}"
proof -
  have "i mod 19 = (if (i - 1) mod 19 = 18 then 0 else (i - 1) mod 19 + 1)" using metonic_step(1) [of "i - 1"] by simp
  then show ?thesis unfolding leap_index_mod by (auto split: if_splits)
qed

lemma weekday_cases: "0 \<le> w \<Longrightarrow> w < 7 \<Longrightarrow> w = 0 \<or> w = 1 \<or> w = 2 \<or> w = 3 \<or> w = 4 \<or> w = 5 \<or> w = 6" for w :: int
  by presburger

lemma Tishri1_delay: "Tishri1 y d h = d + delay (y \<in> {2, 5, 7, 10, 13, 16, 18}) (y \<in> {3, 6, 8, 11, 14, 17, 0}) (d mod 7) h"
proof -
  define w leap prev where "w = d mod 7" and "leap = (y \<in> {2, 5, 7, 10, 13, 16, 18 :: int})" and
    "prev = (y \<in> {3, 6, 8, 11, 14, 17, 0 :: int})"
  have "0 \<le> w" "w < 7" by (simp_all add: w_def)
  note w = weekday_cases [OF this]
  show ?thesis unfolding Tishri1_def Let_def w_def [symmetric] leap_def [symmetric] prev_def [symmetric] using w
    by (elim disjE) (simp_all add: delay_def)
qed

lemma new_year_delay: "new_year i = mday i + delay (leap_index i) (leap_index (i - 1)) (mday i mod 7) (mrest i)"
  unfolding new_year_def Tishri1_delay leap_index_before unfolding leap_index_mod ..

lemma delay_bounds: "0 \<le> delay a b w h" "delay a b w h \<le> 2"
  by (simp_all add: delay_def)

lemma new_year_bounds: "mday i \<le> new_year i" "new_year i \<le> mday i + 2"
  using delay_bounds unfolding new_year_delay by simp_all

lemma span_days:
  fixes m k q e :: int
  assumes "k = 25920 * q + e"
  shows "(m + k) div 25920 = m div 25920 + q + (m mod 25920 + e) div 25920" "(m + k) mod 25920 = (m mod 25920 + e) mod 25920"
proof -
  have "(m mod 25920 + k) div 25920 = q + (m mod 25920 + e) div 25920" unfolding assms by (simp add: algebra_simps)
  then show "(m + k) div 25920 = m div 25920 + q + (m mod 25920 + e) div 25920" using carry(1) [of m k] by simp
  have "(m + k) mod 25920 = (25920 * q + (m mod 25920 + e)) mod 25920" using carry(2) [of m k] by (simp add: assms algebra_simps)
  then show "(m + k) mod 25920 = (m mod 25920 + e) mod 25920" by (simp only: mod_mult_self4)
qed

text \<open>From one molad to the next year's: 354 days and 9516 halakim, or 383 days and 23269 halakim.\<close>

lemma molad_next:
  defines "q i \<equiv> if leap_index i then 383 else 354" and "e i \<equiv> if leap_index i then 23269 else 9516"
  shows "mday (i + 1) = mday i + q i + (mrest i + e i) div 25920" "mrest (i + 1) = (mrest i + e i) mod 25920"
proof -
  have "765433 * monthsPerYear (i mod 19) = 25920 * q i + e i"
    using monthsPerYear_leap [of "i mod 19"] unfolding q_def e_def leap_index_def by (simp split: if_splits)
  note s = span_days [OF this, of "molad i"]
  show "mday (i + 1) = mday i + q i + (mrest i + e i) div 25920" unfolding molad_step by (rule s(1))
  show "mrest (i + 1) = (mrest i + e i) mod 25920" unfolding molad_step by (rule s(2))
qed

lemma carry_bit:
  fixes m e :: int
  assumes "0 \<le> e" "e < 25920"
  shows "0 \<le> (m mod 25920 + e) div 25920" "(m mod 25920 + e) div 25920 \<le> 1"
proof -
  have "0 \<le> m mod 25920 + e" "m mod 25920 + e < 2 * 25920"
    using assms pos_mod_bound [of 25920 m] pos_mod_sign [of 25920 m] by simp_all
  then show "0 \<le> (m mod 25920 + e) div 25920" "(m mod 25920 + e) div 25920 \<le> 1" by simp_all
qed

lemma mday_step:
  "mday i + (if leap_index i then 383 else 354) \<le> mday (i + 1)"
  "mday (i + 1) \<le> mday i + (if leap_index i then 383 else 354) + 1"
  using carry_bit [of "if leap_index i then 23269 else 9516" "molad i"] unfolding molad_next by (simp_all split: if_splits)

lemma carry_one: "0 \<le> x \<Longrightarrow> x < 25920 \<Longrightarrow> (25920 + x) div 25920 = 1 \<and> (25920 + x) mod 25920 = x" for x :: int
  by simp

lemma common_length:
  fixes w h :: int and a b :: bool
  assumes "0 \<le> w" "w < 7" "0 \<le> h" "h < 25920"
  defines "c \<equiv> (h + 9516) div 25920"
  defines "L \<equiv> 354 + c + delay a False ((w + 354 + c) mod 7) ((h + 9516) mod 25920) - delay False b w h"
  shows "353 \<le> L \<and> L \<le> 355"
proof (cases "h < 16404")
  case True
  then have "(h + 9516) div 25920 = 0" "(h + 9516) mod 25920 = h + 9516" using assms(3) by simp_all
  then have L: "L = 354 + delay a False ((w + 354) mod 7) (h + 9516) - delay False b w h" by (simp add: L_def c_def)
  show ?thesis unfolding L using True assms(3) weekday_cases [OF assms(1,2)] by (elim disjE; hypsubst; simp add: delay_def)
next
  case False
  then have "(25920 + (h - 16404)) div 25920 = 1 \<and> (25920 + (h - 16404)) mod 25920 = h - 16404"
    using assms(4) by (intro carry_one) simp_all
  then have "c = 1" "(h + 9516) mod 25920 = h - 16404" unfolding c_def by (simp_all add: add.commute)
  then have L: "L = 355 + delay a False ((w + 355) mod 7) (h - 16404) - delay False b w h" by (simp add: L_def add.commute)
  show ?thesis unfolding L using False assms(4) weekday_cases [OF assms(1,2)] by (elim disjE; hypsubst; simp add: delay_def)
qed

lemma leap_length:
  fixes w h :: int and b :: bool
  assumes "0 \<le> w" "w < 7" "0 \<le> h" "h < 25920"
  defines "c \<equiv> (h + 23269) div 25920"
  defines "L \<equiv> 383 + c + delay False True ((w + 383 + c) mod 7) ((h + 23269) mod 25920) - delay True b w h"
  shows "383 \<le> L \<and> L \<le> 385"
proof (cases "h < 2651")
  case True
  then have "(h + 23269) div 25920 = 0" "(h + 23269) mod 25920 = h + 23269" using assms(3) by simp_all
  then have L: "L = 383 + delay False True ((w + 383) mod 7) (h + 23269) - delay True b w h" by (simp add: L_def c_def)
  show ?thesis unfolding L using True assms(3) weekday_cases [OF assms(1,2)] by (elim disjE; hypsubst; simp add: delay_def)
next
  case False
  then have "(25920 + (h - 2651)) div 25920 = 1 \<and> (25920 + (h - 2651)) mod 25920 = h - 2651"
    using assms(4) by (intro carry_one) simp_all
  then have "c = 1" "(h + 23269) mod 25920 = h - 2651" unfolding c_def by (simp_all add: add.commute)
  then have L: "L = 384 + delay False True ((w + 384) mod 7) (h - 2651) - delay True b w h" by (simp add: L_def add.commute)
  show ?thesis unfolding L using False assms(4) weekday_cases [OF assms(1,2)] by (elim disjE; hypsubst; simp add: delay_def)
qed

lemma not_both_leap: "leap_index i \<Longrightarrow> \<not> leap_index (i + 1)"
  unfolding leap_index_mod metonic_step by auto

lemma year_length:
  "\<not> leap_index i \<Longrightarrow> 353 \<le> new_year (i + 1) - new_year i \<and> new_year (i + 1) - new_year i \<le> 355"
  "leap_index i \<Longrightarrow> 383 \<le> new_year (i + 1) - new_year i \<and> new_year (i + 1) - new_year i \<le> 385"
proof -
  define w h where "w = mday i mod 7" and "h = mrest i"
  have wh: "0 \<le> w" "w < 7" "0 \<le> h" "h < 25920" by (simp_all add: w_def h_def)
  have e: "new_year i = mday i + delay (leap_index i) (leap_index (i - 1)) w h" by (simp add: new_year_delay w_def h_def)
  have m: "(mday i + q + c) mod 7 = (w + q + c) mod 7" for q c
    unfolding w_def by (metis add.assoc mod_add_left_eq)
  note n = molad_next [of i, folded h_def]
  show "353 \<le> new_year (i + 1) - new_year i \<and> new_year (i + 1) - new_year i \<le> 355" if "\<not> leap_index i"
  proof -
    define D where "D = delay (leap_index (i + 1)) False ((w + 354 + (h + 9516) div 25920) mod 7) ((h + 9516) mod 25920)"
    note n' = n [unfolded if_not_P [OF that]]
    have "new_year (i + 1) = mday i + 354 + (h + 9516) div 25920 + D"
      unfolding new_year_delay [of "i + 1"] n' m D_def using that by simp
    then show ?thesis
      using common_length [OF wh, of "leap_index (i + 1)" "leap_index (i - 1)", folded D_def] that unfolding e by simp
  qed
  show "383 \<le> new_year (i + 1) - new_year i \<and> new_year (i + 1) - new_year i \<le> 385" if "leap_index i"
  proof -
    define D where "D = delay False True ((w + 383 + (h + 23269) div 25920) mod 7) ((h + 23269) mod 25920)"
    note n' = n [unfolded if_P [OF that]]
    have "new_year (i + 1) = mday i + 383 + (h + 23269) div 25920 + D"
      unfolding new_year_delay [of "i + 1"] n' m D_def using that not_both_leap [OF that] by simp
    then show ?thesis
      using leap_length [OF wh, of "leap_index (i - 1)", folded D_def] that unfolding e by simp
  qed
qed

lemma new_year_step: "new_year i + 353 \<le> new_year (i + 1)" "new_year (i + 1) \<le> new_year i + 385"
  using year_length [of i] by (cases "leap_index i"; simp)+

lemma new_year_mono: "i \<le> j \<Longrightarrow> new_year i + 353 * (j - i) \<le> new_year j"
proof (induction j rule: int_ge_induct)
  case (step j)
  then show ?case using new_year_step(1) [of j] by (simp add: algebra_simps)
qed simp

lemma new_year_le: "i \<le> j \<Longrightarrow> new_year i \<le> new_year j"
  using new_year_mono [of i j] by simp

lemma mday_mono: "i \<le> j \<Longrightarrow> mday i + 354 * (j - i) \<le> mday j"
proof (induction j rule: int_ge_induct)
  case (step j)
  then show ?case using mday_step(1) [of j] by (cases "leap_index j") (simp_all add: algebra_simps)
qed simp

lemma new_year_0: "new_year 0 = 1"
  by (simp add: new_year_def molad_def months_before_def yearOffset_def Tishri1_def)

lemma new_year_weekday: "new_year i mod 7 \<notin> {0, 3, 5}"
proof -
  define w where "w = mday i mod 7"
  have w: "0 \<le> w" "w < 7" by (simp_all add: w_def)
  have "new_year i mod 7 = (w + delay (leap_index i) (leap_index (i - 1)) w (mrest i)) mod 7"
    unfolding new_year_delay w_def by (simp add: mod_add_left_eq)
  then show ?thesis using weekday_cases [OF w] by (elim disjE) (simp_all add: delay_def)
qed

section \<open>The search for a molad\<close>

lemma cycle_days: "mday (19 * c) + 6939 \<le> mday (19 * (c + 1))" "mday (19 * (c + 1)) \<le> mday (19 * c) + 6940"
proof -
  have "molad (19 * (c + 1)) = molad (19 * c) + HALAKIM_PER_METONIC_CYCLE" unfolding molad_cycle by (simp add: algebra_simps)
  moreover have "(m + 179876755) div 25920 = m div 25920 + 6939 + (m mod 25920 + 17875) div 25920" for m :: int
    by (rule span_days(1)) simp
  moreover note carry_bit [of 17875 "molad (19 * c)"]
  ultimately show "mday (19 * c) + 6939 \<le> mday (19 * (c + 1))" "mday (19 * (c + 1)) \<le> mday (19 * c) + 6940" by simp_all
qed

lemma cycle_loop_correct:
  "\<exists>c'. cycle_loop x c (mday (19 * c)) (mrest (19 * c)) = Some (c', mday (19 * c'), mrest (19 * c')) \<and> c \<le> c' \<and>
     x - 6630 \<le> mday (19 * c') \<and> (c' = c \<or> mday (19 * (c' - 1)) < x - 6630)"
proof (induction "nat (x - mday (19 * c))" arbitrary: c rule: less_induct)
  case less
  show ?case
  proof (cases "mday (19 * c) < x - 6940 + 310")
    case True
    have n: "molad (19 * (c + 1)) = molad (19 * c) + HALAKIM_PER_METONIC_CYCLE" unfolding molad_cycle by (simp add: algebra_simps)
    have "nat (x - mday (19 * (c + 1))) < nat (x - mday (19 * c))" using True cycle_days(1) [of c] by simp
    note IH = less [OF this]
    have "cycle_loop x c (mday (19 * c)) (mrest (19 * c)) = cycle_loop x (c + 1) (mday (19 * (c + 1))) (mrest (19 * (c + 1)))"
      unfolding n by (subst cycle_loop.simps) (simp only: True if_True Let_def carry)
    then show ?thesis using IH True by auto
  qed (simp add: cycle_loop.simps)
qed

lemma year_loop_correct:
  assumes "0 \<le> y" "y \<le> 18"
  shows "\<exists>y'. year_loop x y (mday (19 * c + y)) (mrest (19 * c + y)) = (y', mday (19 * c + y'), mrest (19 * c + y')) \<and>
    y \<le> y' \<and> y' \<le> 18 \<and> (x - 74 < mday (19 * c + y') \<or> y' = 18) \<and> (y' = y \<or> mday (19 * c + y' - 1) \<le> x - 74)"
  using assms
proof (induction "nat (18 - y)" arbitrary: y rule: less_induct)
  case less
  show ?case
  proof (cases "y < 18 \<and> mday (19 * c + y) \<le> x - 74")
    case True
    have "(19 * c + y) mod 19 = y" using less.prems by simp
    then have n: "molad (19 * c + (y + 1)) = molad (19 * c + y) + HALAKIM_PER_LUNAR_CYCLE * monthsPerYear y"
      using molad_step [of "19 * c + y"] by (simp add: add.assoc)
    have "nat (18 - (y + 1)) < nat (18 - y)" using True by simp
    note IH = less.hyps [OF this]
    have "year_loop x y (mday (19 * c + y)) (mrest (19 * c + y)) =
        year_loop x (y + 1) (mday (19 * c + (y + 1))) (mrest (19 * c + (y + 1)))"
      unfolding n using True by (subst year_loop.simps) (simp add: Let_def carry)
    then obtain y' where y': "year_loop x y (mday (19 * c + y)) (mrest (19 * c + y)) = (y', mday (19 * c + y'), mrest (19 * c + y'))"
      "y + 1 \<le> y'" "y' \<le> 18" "x - 74 < mday (19 * c + y') \<or> y' = 18" "y' = y + 1 \<or> mday (19 * c + y' - 1) \<le> x - 74"
      using IH less.prems True by auto
    moreover have "mday (19 * c + y' - 1) \<le> x - 74" using y'(5) True by auto
    ultimately show ?thesis by auto
  next
    case False
    then show ?thesis by (subst year_loop.simps) (use less.prems in auto)
  qed
qed

lemma last_year: "mday (19 * c) + 6555 \<le> mday (19 * c + 18)"
proof -
  have "molad (19 * c + 18) = molad (19 * c) + 169926126" by (simp add: molad_def months_before_def yearOffset_def)
  moreover have "(m + 169926126) div 25920 = m div 25920 + 6555 + (m mod 25920 + 20526) div 25920" for m :: int
    by (rule span_days(1)) simp
  ultimately show ?thesis using carry_bit [of 20526 "molad (19 * c)"] by simp
qed

lemma first_year:
  assumes "0 \<le> c"
  shows "mday (19 * c) \<le> 6940 * c + 1"
proof -
  have "molad (19 * c) < 25920 * (6940 * c + 2)" using assms by (simp add: molad_cycle)
  then have "mday (19 * c) < 6940 * c + 2" by (simp add: div_less_iff_less_mult mult.commute)
  then show ?thesis by simp
qed

text \<open>The molad found is at most 75 days before the day, and the one of the year before is at least 72 days before it.\<close>

lemma FindTishriMolad_correct:
  assumes x: "- 310 \<le> x" "x \<le> JEWISH_SDN_MAX"
  obtains c y where "FindTishriMolad x = Ret (c, y, mday (19 * c + y), mrest (19 * c + y))" "0 \<le> c" "0 \<le> y" "y \<le> 18"
    "x \<le> mday (19 * c + y) + 75" "19 * c + y = 0 \<or> mday (19 * c + y - 1) + 72 \<le> x"
proof -
  define c\<^sub>0 where "c\<^sub>0 = (x + 310) div 6940"
  have c\<^sub>0: "(x + 310) sdiv 6940 = c\<^sub>0" "0 \<le> c\<^sub>0" "c\<^sub>0 \<le> INT_MAX" "6940 * c\<^sub>0 \<le> x + 310"
    using x by (simp_all add: c\<^sub>0_def sdiv_nonneg pos_imp_zdiv_nonneg_iff)
  obtain c where c: "cycle_loop x c\<^sub>0 (mday (19 * c\<^sub>0)) (mrest (19 * c\<^sub>0)) = Some (c, mday (19 * c), mrest (19 * c))"
    "c\<^sub>0 \<le> c" "x - 6630 \<le> mday (19 * c)" "c = c\<^sub>0 \<or> mday (19 * (c - 1)) < x - 6630" using cycle_loop_correct by blast
  obtain y where y: "year_loop x 0 (mday (19 * c)) (mrest (19 * c)) = (y, mday (19 * c + y), mrest (19 * c + y))"
    "0 \<le> y" "y \<le> 18" "x - 74 < mday (19 * c + y) \<or> y = 18" "y = 0 \<or> mday (19 * c + y - 1) \<le> x - 74"
    using year_loop_correct [of 0 x c] by auto
  have "FindTishriMolad x = Ret (c, y, mday (19 * c + y), mrest (19 * c + y))"
    using c(1) y(1) by (simp add: FindTishriMolad_def run_of_def c\<^sub>0 MoladOfMetonicCycle_eq)
  moreover have "x \<le> mday (19 * c + y) + 75" using y(4) c(3) last_year [of c] by auto
  moreover have "19 * c + y = 0 \<or> mday (19 * c + y - 1) + 72 \<le> x"
  proof (cases "y = 0 \<and> c > 0")
    case True
    have "mday (19 * c) \<le> x + 311" using c(4) first_year [of c] c\<^sub>0(2,4) cycle_days(2) [of "c - 1"] by auto
    moreover have "mday (19 * c - 1) + 383 \<le> mday (19 * c)"
    proof -
      have "(19 * c - 1) mod 19 = 18" by presburger
      then have "leap_index (19 * c - 1)" by (simp add: leap_index_mod)
      then show ?thesis using mday_step(1) [of "19 * c - 1"] by simp
    qed
    ultimately show ?thesis using True by simp
  qed (use y(2,5) c(2) c\<^sub>0(2) in auto)
  ultimately show thesis using that y(2,3) c(2) c\<^sub>0(2) by simp
qed

section \<open>Dates\<close>

definition jewish_leap :: "int \<Rightarrow> bool" where
  "jewish_leap y \<longleftrightarrow> leap_index (y - 1)"

definition year_days :: "int \<Rightarrow> int" where
  "year_days y = new_year y - new_year (y - 1)"

text \<open>The length of a month; month 6, Adar I, is only there in a leap year.\<close>

definition jewish_length :: "int \<Rightarrow> int \<Rightarrow> int" where
  "jewish_length y m =
     (if m = 2 then if year_days y \<in> {355, 385} then 30 else 29
      else if m = 3 then if year_days y \<in> {353, 383} then 29 else 30
      else if m = 6 then if jewish_leap y then 30 else 0
      else if m \<in> {1, 5, 8, 10, 12} then 30 else 29)"

definition month_start :: "int \<Rightarrow> int \<Rightarrow> int" where
  "month_start y m = sum_list (map (jewish_length y) [1..m - 1])"

definition jewish_number :: "int \<times> int \<times> int \<Rightarrow> int" where
  "jewish_number = (\<lambda>(y, m, d). JEWISH_SDN_OFFSET + new_year (y - 1) + month_start y m + d - 1)"

definition jewish_date :: "int \<times> int \<times> int \<Rightarrow> bool" where
  "jewish_date = (\<lambda>(y, m, d). 1 \<le> y \<and> 1 \<le> m \<and> m \<le> 13 \<and> 1 \<le> d \<and> d \<le> jewish_length y m \<and>
     jewish_number (y, m, d) \<le> JEWISH_SDN_MAX)"

definition jewish_next :: "int \<times> int \<times> int \<Rightarrow> int \<times> int \<times> int" where
  "jewish_next = (\<lambda>(y, m, d).
     if d < jewish_length y m then (y, m, d + 1)
     else if m = 13 then (y + 1, 1, 1)
     else if jewish_length y (m + 1) = 0 then (y, m + 2, 1)
     else (y, m + 1, 1))"

lemma year_days_cases:
  "\<not> jewish_leap y \<Longrightarrow> year_days y \<in> {353, 354, 355}" "jewish_leap y \<Longrightarrow> year_days y \<in> {383, 384, 385}"
  using year_length [of "y - 1"] by (auto simp: jewish_leap_def year_days_def)

lemma jewish_length_bounds: "0 \<le> jewish_length y m" "jewish_length y m \<le> 30"
  by (simp_all add: jewish_length_def)

lemma month_start_step: "1 \<le> m \<Longrightarrow> month_start y (m + 1) = month_start y m + jewish_length y m"
  using upto_rec2 [of 1 m] by (simp add: month_start_def)

lemma month_start_mono:
  assumes "1 \<le> m" "m < m'"
  shows "month_start y m + jewish_length y m \<le> month_start y m'"
  using assms(2)
proof (induction m' rule: int_gr_induct)
  case base
  then show ?case using assms(1) by (simp add: month_start_step)
next
  case (step m')
  then show ?case using assms(1) month_start_step [of m' y] jewish_length_bounds [of y m'] by simp
qed

lemma month_starts:
  "month_start y 1 = 0" "month_start y 2 = 30" "month_start y 3 = 30 + jewish_length y 2"
  "month_start y 4 = year_days y - (if jewish_leap y then 295 else 265)"
  "month_start y 5 = year_days y - (if jewish_leap y then 266 else 236)" "month_start y 6 = year_days y - (if jewish_leap y then 236 else 206)"
  "month_start y 7 = year_days y - 206" "month_start y 8 = year_days y - 177" "month_start y 9 = year_days y - 147"
  "month_start y 10 = year_days y - 118" "month_start y 11 = year_days y - 88" "month_start y 12 = year_days y - 59"
  "month_start y 13 = year_days y - 29" "month_start y 14 = year_days y"
proof -
  have u: "[1..2] = [1, 2 :: int]" "[1..3] = [1, 2, 3 :: int]" by (simp_all add: upto.simps)
  show "month_start y 1 = 0" "month_start y 2 = 30" "month_start y 3 = 30 + jewish_length y 2"
    by (simp_all add: month_start_def u) (simp_all add: jewish_length_def)
  show 4: "month_start y 4 = year_days y - (if jewish_leap y then 295 else 265)"
    using year_days_cases [of y] by (cases "jewish_leap y") (auto simp: month_start_def u jewish_length_def)
  note s = month_start_step [of _ y, unfolded jewish_length_def]
  show 5: "month_start y 5 = year_days y - (if jewish_leap y then 266 else 236)" using s [of 4] 4 by simp
  show 6: "month_start y 6 = year_days y - (if jewish_leap y then 236 else 206)" using s [of 5] 5 by simp
  show 7: "month_start y 7 = year_days y - 206" using s [of 6] 6 by simp
  show 8: "month_start y 8 = year_days y - 177" using s [of 7] 7 by simp
  show 9: "month_start y 9 = year_days y - 147" using s [of 8] 8 by simp
  show 10: "month_start y 10 = year_days y - 118" using s [of 9] 9 by simp
  show 11: "month_start y 11 = year_days y - 88" using s [of 10] 10 by simp
  show 12: "month_start y 12 = year_days y - 59" using s [of 11] 11 by simp
  show 13: "month_start y 13 = year_days y - 29" using s [of 12] 12 by simp
  show "month_start y 14 = year_days y" using s [of 13] 13 by simp
qed

text \<open>A day of a month is a day of its year.\<close>

lemma date_in_year:
  assumes "1 \<le> m" "m \<le> 13" "1 \<le> d" "d \<le> jewish_length y m"
  shows "new_year (y - 1) \<le> jewish_number (y, m, d) - JEWISH_SDN_OFFSET" "jewish_number (y, m, d) - JEWISH_SDN_OFFSET < new_year y"
proof -
  have "month_start y m + d \<le> year_days y" using month_start_mono [of m 14 y] assms month_starts(14) [of y] by simp
  moreover have "0 \<le> month_start y m"
    using month_start_mono [of 1 m y] jewish_length_bounds [of y 1] month_starts(1) [of y] assms(1) by (cases "m = 1") auto
  ultimately show "new_year (y - 1) \<le> jewish_number (y, m, d) - JEWISH_SDN_OFFSET" "jewish_number (y, m, d) - JEWISH_SDN_OFFSET < new_year y"
    using assms(3) by (simp_all add: jewish_number_def year_days_def)
qed

lemma jewish_inj:
  assumes "jewish_date (y, m, d)" "jewish_date (y', m', d')" "jewish_number (y, m, d) = jewish_number (y', m', d')"
  shows "(y, m, d) = (y', m', d')"
proof -
  have r: "1 \<le> m" "m \<le> 13" "1 \<le> d" "d \<le> jewish_length y m" "1 \<le> m'" "m' \<le> 13" "1 \<le> d'" "d' \<le> jewish_length y' m'"
    using assms(1,2) by (simp_all add: jewish_date_def)
  note i = date_in_year [OF r(1-4)] and i' = date_in_year [OF r(5-8)]
  have y: "y = y'"
  proof (rule ccontr)
    assume "y \<noteq> y'"
    then consider "y \<le> y' - 1" | "y' \<le> y - 1" by linarith
    then show False
    proof cases
      case 1
      then show ?thesis using new_year_le [OF 1] i i' assms(3) by simp
    next
      case 2
      then show ?thesis using new_year_le [OF 2] i i' assms(3) by simp
    qed
  qed
  have n: "month_start y m + d = month_start y m' + d'" using assms(3) y by (simp add: jewish_number_def)
  have "m = m'"
  proof (rule ccontr)
    assume "m \<noteq> m'"
    then consider "m < m'" | "m' < m" by linarith
    then show False using month_start_mono [of m m' y] month_start_mono [of m' m y] r n y by cases simp_all
  qed
  then show ?thesis using y n by simp
qed

section \<open>The conversions count days\<close>

lemma new_year_index: "0 \<le> i \<Longrightarrow> i < new_year i"
  using new_year_mono [of 0 i] by (simp add: new_year_0)

lemma FindStartOfYear_eq:
  assumes "1 \<le> y" "new_year (y - 1) \<le> INT_MAX"
  shows "FindStartOfYear y = ((y - 1) div 19, (y - 1) mod 19, mday (y - 1), mrest (y - 1), new_year (y - 1))"
proof -
  define i where "i = y - 1"
  have i: "0 \<le> i" "i \<le> INT_MAX" using new_year_index [of i] assms by (simp_all add: i_def)
  then have c: "0 \<le> i div 19" "i div 19 \<le> INT_MAX" by (simp_all add: pos_imp_zdiv_nonneg_iff)
  have m: "molad i = molad (19 * (i div 19)) + 765433 * yearOffset (i mod 19)"
    by (simp add: molad_def months_before_def yearOffset_def [of 0])
  have "INT_MIN \<le> new_year i" using new_year_index [OF i(1)] i(1) by simp
  then have "int_of_long (Tishri1 (i mod 19) (mday i) (mrest i)) = new_year i"
    using assms(2) by (simp add: new_year_def i_def)
  then show ?thesis
    unfolding FindStartOfYear_def i_def [symmetric] Let_def MoladOfMetonicCycle_eq [OF c] prod.case carry m [symmetric] by simp
qed

lemma year_end:
  assumes "new_year y \<le> INT_MAX" "1 \<le> y"
  defines "k \<equiv> HALAKIM_PER_LUNAR_CYCLE * monthsPerYear ((y - 1) mod 19)"
  shows "int_of_long (Tishri1 (((y - 1) mod 19 + 1) mod 19) (mday (y - 1) + (mrest (y - 1) + k) div HALAKIM_PER_DAY)
    ((mrest (y - 1) + k) mod HALAKIM_PER_DAY)) = new_year y"
proof -
  have m: "molad y = molad (y - 1) + k" using molad_step [of "y - 1"] by (simp add: k_def)
  have "((y - 1) mod 19 + 1) mod 19 = y mod 19" by (simp add: mod_add_left_eq)
  moreover have "INT_MIN \<le> new_year y" using new_year_index [of y] assms(2) by simp
  ultimately show ?thesis unfolding carry m [symmetric] using assms(1) by (simp add: new_year_def)
qed

lemma months_13:
  fixes m :: int
  assumes "1 \<le> m" "m \<le> 13"
  shows "m \<in> {1, 2, 3, 4, 5, 6, 7, 8, 9, 10, 11, 12, 13}"
proof -
  have e: "[1..13] = [1, 2, 3, 4, 5, 6, 7, 8, 9, 10, 11, 12, 13 :: int]" by (simp add: upto.simps)
  have "m \<in> set [1..13]" using assms by simp
  then show ?thesis unfolding e by simp
qed

lemma JewishToSdn_day:
  assumes r: "1 \<le> y" "1 \<le> m" "m \<le> 13" "1 \<le> d" and d: "d \<le> 30" and "new_year y \<le> 324500000"
  shows "JewishToSdn y m d = Ret (jewish_number (y, m, d))"
proof -
  have n: "0 < new_year (y - 1)" "new_year (y - 1) \<le> 324500000" "0 < new_year y" "new_year y \<le> 324500000"
    using new_year_index [of "y - 1"] new_year_step [of "y - 1"] r(1) assms(6) by simp_all
  have y: "y + 1 \<le> INT_MAX" using new_year_index [of y] r(1) n(4) by simp
  have s: "FindStartOfYear y = ((y - 1) div 19, (y - 1) mod 19, mday (y - 1), mrest (y - 1), new_year (y - 1))"
    "FindStartOfYear (y + 1) = (y div 19, y mod 19, mday y, mrest y, new_year y)"
    using FindStartOfYear_eq [of y] FindStartOfYear_eq [of "y + 1"] r(1) n by simp_all
  note e = year_end [of y, OF _ r(1)]
  have L: "new_year y - new_year (y - 1) = year_days y" by (simp add: year_days_def)
  have ml: "monthsPerYear ((y - 1) mod 19) = (if jewish_leap y then 13 else 12)"
    using monthsPerYear_leap [of "(y - 1) mod 19"] by (simp add: jewish_leap_def leap_index_def split: if_splits)
  have b: "\<not> (y \<le> 0 \<or> d \<le> 0 \<or> d > 30)" using r d by simp
  consider "m = 1 \<or> m = 2" | "m = 3" | "m = 4 \<or> m = 5 \<or> m = 6"
    | "m = 7 \<or> m = 8 \<or> m = 9 \<or> m = 10 \<or> m = 11 \<or> m = 12 \<or> m = 13"
    using months_13 [OF r(2,3)] by blast
  then show ?thesis
  proof cases
    case 1
    then show ?thesis unfolding JewishToSdn_def if_not_P [OF b] s(1) prod.case using n r(4) d
      by (elim disjE) (simp_all add: jewish_number_def month_starts)
  next
    case 2
    have "year_days y = 355 \<or> year_days y = 385 \<longleftrightarrow> jewish_length y 2 = 30" "jewish_length y 2 = 30 \<or> jewish_length y 2 = 29"
      by (simp_all add: jewish_length_def)
    moreover have "jewish_number (y, 3, d) = JEWISH_SDN_OFFSET + new_year (y - 1) + 30 + jewish_length y 2 + d - 1"
      by (simp add: jewish_number_def month_starts)
    moreover have "c_int (year_days y) = Ret (year_days y)"
      using year_days_cases [of y] by (cases "jewish_leap y") auto
    ultimately show ?thesis
      unfolding JewishToSdn_def if_not_P [OF b] s(1) prod.case Let_def e [OF order_trans [OF n(4)], simplified] L
      using 2 n r(4) d by auto
  next
    case 3
    then show ?thesis unfolding JewishToSdn_def if_not_P [OF b] ml using n r(4) d y r(1)
      by (elim disjE) (simp_all add: s jewish_number_def month_starts year_days_def)
  next
    case 4
    then show ?thesis unfolding JewishToSdn_def if_not_P [OF b] ml using n r(4) d y r(1)
      by (elim disjE) (simp_all add: s jewish_number_def month_starts year_days_def)
  qed
qed

lemma JewishToSdn_eq:
  assumes "jewish_date (y, m, d)"
  shows "JewishToSdn y m d = Ret (jewish_number (y, m, d))"
proof -
  have r: "1 \<le> y" "1 \<le> m" "m \<le> 13" "1 \<le> d" "d \<le> jewish_length y m" "jewish_number (y, m, d) \<le> JEWISH_SDN_MAX"
    using assms by (simp_all add: jewish_date_def)
  have "new_year y \<le> 324500000" using date_in_year [OF r(2-5)] new_year_step(2) [of "y - 1"] r(6) by simp
  then show ?thesis using JewishToSdn_day [OF r(1-4)] jewish_length_bounds(2) [of y m] r(5) by simp
qed

text \<open>\<open>found n e\<close>: the date \<open>e\<close> has the number \<open>n\<close>.\<close>

definition found :: "int \<Rightarrow> int \<times> int \<times> int \<Rightarrow> bool" where
  "found n e \<longleftrightarrow> jewish_date e \<and> jewish_number e = n"

lemma heshvan_or_kislev_found:
  assumes "1 \<le> y" "n \<le> JEWISH_SDN_MAX" "n = x + JEWISH_SDN_OFFSET"
    and x: "new_year (y - 1) + 30 \<le> x" "x < new_year (y - 1) + month_start y 4"
  shows "found n (heshvan_or_kislev y x (new_year (y - 1)) (new_year y))"
proof -
  have s: "month_start y 4 = 30 + jewish_length y 2 + jewish_length y 3"
    using month_start_step [of 3 y] month_starts(3) [of y] by simp
  have l: "jewish_length y 2 = (if new_year y - new_year (y - 1) = 355 \<or> new_year y - new_year (y - 1) = 385 then 30 else 29)"
    by (simp add: jewish_length_def year_days_def)
  show ?thesis
    using assms s l unfolding found_def heshvan_or_kislev_def Let_def
    by (auto simp: jewish_date_def jewish_number_def month_starts)
qed

lemma last_months_found:
  assumes "1 \<le> y" "n \<le> JEWISH_SDN_MAX" "n = x + JEWISH_SDN_OFFSET" "x < new_year y" "new_year y - 177 \<le> x"
  defines "t \<equiv> new_year y"
  shows "found n (if x > t - 30 then (y, 13, x - t + 30) else if x > t - 60 then (y, 12, x - t + 60)
    else if x > t - 89 then (y, 11, x - t + 89) else if x > t - 119 then (y, 10, x - t + 119)
    else if x > t - 148 then (y, 9, x - t + 148) else (y, 8, x - t + 178))"
  using assms unfolding found_def by (auto simp: jewish_date_def jewish_number_def month_starts year_days_def jewish_length_def)

lemma months_7_to_4_found:
  assumes "1 \<le> y" "n \<le> JEWISH_SDN_MAX" "n = x + JEWISH_SDN_OFFSET" "x < new_year y - 177"
  shows "case months_7_to_4 y x (new_year y) of
      Some (m, d) \<Rightarrow> found n (y, m, d)
    | None \<Rightarrow> x < new_year (y - 1) + month_start y 4"
proof -
  have ml: "monthsPerYear ((y - 1) mod 19) = 13 \<longleftrightarrow> jewish_leap y" by (simp add: jewish_leap_def leap_index_def)
  show ?thesis
    using assms unfolding found_def months_7_to_4_def ml Let_def
    by (cases "jewish_leap y") (simp_all add: jewish_date_def jewish_number_def month_starts year_days_def jewish_length_def)
qed

lemma mday_0: "mday 0 = 1"
  by (simp add: molad_def months_before_def yearOffset_def)

lemma mday_le: "i \<le> j \<Longrightarrow> mday i \<le> mday j"
  using mday_mono [of i j] by simp

text \<open>365 days before a molad, the search finds the molad of the year before.\<close>

lemma year_before:
  assumes "mday i - 365 \<le> mday j + 75" "j = 0 \<or> mday (j - 1) + 72 \<le> mday i - 365" "1 \<le> i" "0 \<le> j"
  shows "j = i - 1"
proof (rule ccontr)
  assume "j \<noteq> i - 1"
  then consider "j \<le> i - 2" | "i - 1 \<le> j - 1" "1 \<le> j" using assms(3,4) by linarith
  then show False
  proof cases
    case 1
    then have "mday j + 354 * 2 \<le> mday i" using mday_mono [of j "i - 2"] mday_mono [of "i - 2" i] by simp
    then show ?thesis using assms(1) by simp
  next
    case 2
    then have "mday (i - 1) \<le> mday (j - 1)" by (intro mday_le)
    moreover have "mday i \<le> mday (i - 1) + 384" using mday_step(2) [of "i - 1"] by (simp split: if_splits)
    ultimately show ?thesis using assms(2) 2(2) by simp
  qed
qed

lemma SdnToJewish_found:
  assumes n: "JEWISH_SDN_OFFSET < n" "n \<le> JEWISH_SDN_MAX"
  shows "\<exists>e. SdnToJewish n = Ret e \<and> found n e"
proof -
  define x where "x = n - JEWISH_SDN_OFFSET"
  have x: "0 < x" "x \<le> 324200000" "n = x + JEWISH_SDN_OFFSET" using n by (simp_all add: x_def)
  obtain c k where f: "FindTishriMolad x = Ret (c, k, mday (19 * c + k), mrest (19 * c + k))" "0 \<le> c" "0 \<le> k" "k \<le> 18"
    "x \<le> mday (19 * c + k) + 75" "19 * c + k = 0 \<or> mday (19 * c + k - 1) + 72 \<le> x"
    by (rule FindTishriMolad_correct [of x]) (use x in auto)
  define i where "i = 19 * c + k"
  note f = f [folded i_def]
  have k: "k = i mod 19" "c * 19 + k = i" using f(3,4) by (simp_all add: i_def)
  have i: "0 \<le> i" using f(2,3) by (simp add: i_def)
  have "new_year i \<le> x + 400"
    using f(6) new_year_bounds [of i] mday_step(2) [of "i - 1"] x(1) new_year_0 by (auto split: if_splits)
  then have N: "0 < new_year i" "new_year i \<le> 324300000" "new_year (i + 1) \<le> 400000000" "mday i < new_year i + 1"
    using x(2) new_year_index [OF i] new_year_step [of i] i new_year_bounds [of i] by simp_all
  have t: "int_of_long (Tishri1 k (mday i) (mrest i)) = new_year i" using N(1,2) by (simp add: new_year_def k(1))
  have "\<not> (n \<le> JEWISH_SDN_OFFSET \<or> n > JEWISH_SDN_MAX)" using n by simp
  note S = SdnToJewish_def [of n, unfolded if_not_P [OF this] x_def [symmetric] Let_def f(1) run_bind.simps prod.case t k(2)]
  show ?thesis
  proof (cases "x \<ge> new_year i")
    case True
    have e: "i + 1 - 1 = i" by simp
    note F = found_def jewish_date_def jewish_number_def
    show ?thesis
    proof (cases "x < new_year i + 59")
      case early: True
      have "29 \<le> jewish_length (i + 1) 2" "jewish_length (i + 1) 1 = 30" by (simp_all add: jewish_length_def)
      then show ?thesis using True early i x n unfolding S by (auto simp: F month_starts)
    next
      case False
      have "88 \<le> month_start (i + 1) 4" using year_days_cases [of "i + 1"] by (auto simp: month_starts)
      then have "found n (heshvan_or_kislev (i + 1) x (new_year i) (new_year (i + 1)))"
        using heshvan_or_kislev_found [of "i + 1" n x, unfolded e] False f(5) N(4) new_year_bounds [of i] i x n by simp
      moreover have "SdnToJewish n = Ret (heshvan_or_kislev (i + 1) x (new_year i) (new_year (i + 1)))"
        unfolding S using True False year_end [of "i + 1", unfolded e, OF _ _] N(3) i k(1) by simp
      ultimately show ?thesis by blast
    qed
  next
    case False
    then have "i \<noteq> 0" using x(1) new_year_0 by auto
    then have y: "1 \<le> i" "new_year (i - 1) + 70 \<le> x" using i f(6) new_year_bounds [of "i - 1"] by auto
    show ?thesis
    proof (cases "x \<ge> new_year i - 177")
      case late: True
      show ?thesis unfolding S using False late last_months_found [OF y(1) n(2) x(3) _ late] by auto
    next
      case early: False
      show ?thesis
      proof (cases "months_7_to_4 i x (new_year i)")
        case (Some e)
        then show ?thesis unfolding S using False early months_7_to_4_found [OF y(1) n(2) x(3)] by (cases e) auto
      next
        case None
        obtain c' k' where f': "FindTishriMolad (mday i - 365) = Ret (c', k', mday (19 * c' + k'), mrest (19 * c' + k'))"
          "0 \<le> c'" "0 \<le> k'" "k' \<le> 18" "mday i - 365 \<le> mday (19 * c' + k') + 75"
          "19 * c' + k' = 0 \<or> mday (19 * c' + k' - 1) + 72 \<le> mday i - 365"
          by (rule FindTishriMolad_correct [of "mday i - 365"]) (use N new_year_bounds [of i] y mday_mono [of 0 i] mday_0 in auto)
        have j: "19 * c' + k' = i - 1" by (rule year_before) (use f' y in auto)
        have k': "k' = (i - 1) mod 19" by (rule int_mod_pos_eq [OF j [symmetric], symmetric]) (use f'(3,4) in auto)
        have t': "int_of_long (Tishri1 k' (mday (i - 1)) (mrest (i - 1))) = new_year (i - 1)"
          using N(1,2) y x new_year_index [of "i - 1"] new_year_step [of "i - 1"] by (simp add: new_year_def k')
        have "found n (heshvan_or_kislev i x (new_year (i - 1)) (new_year i))"
          using heshvan_or_kislev_found [OF y(1) n(2) x(3)] y(2) months_7_to_4_found [OF y(1) n(2) x(3)] early None by simp
        moreover have "SdnToJewish n = Ret (heshvan_or_kislev i x (new_year (i - 1)) (new_year i))"
          unfolding S using False early None f'(1) by (simp add: j t')
        ultimately show ?thesis by blast
      qed
    qed
  qed
qed

lemma jewish_next_number:
  assumes "jewish_date (y, m, d)" "jewish_next (y, m, d) = (y', m', d')"
  shows "1 \<le> y' \<and> 1 \<le> m' \<and> m' \<le> 13 \<and> 1 \<le> d' \<and> d' \<le> jewish_length y' m' \<and>
    jewish_number (y', m', d') = jewish_number (y, m, d) + 1"
proof -
  have r: "1 \<le> y" "1 \<le> m" "m \<le> 13" "1 \<le> d" "d \<le> jewish_length y m" using assms(1) by (simp_all add: jewish_date_def)
  have l: "jewish_length y k = 0 \<longleftrightarrow> k = 6 \<and> \<not> jewish_leap y" for k by (simp add: jewish_length_def)
  consider "d < jewish_length y m" | "d = jewish_length y m" "m = 13" | "d = jewish_length y m" "m < 13" using r by linarith
  then show ?thesis
  proof cases
    case 1
    then show ?thesis using r assms(2) by (auto simp: jewish_next_def jewish_number_def)
  next
    case 2
    then have "(y', m', d') = (y + 1, 1, 1)" using assms(2) by (simp add: jewish_next_def)
    then show ?thesis using 2 r month_starts(13) [of y]
      by (auto simp: jewish_number_def month_starts jewish_length_def year_days_def)
  next
    case 3
    have s: "month_start y (m + 1) = month_start y m + d" using month_start_step [OF r(2)] 3 by simp
    have "jewish_length y (m + 1) = 0 \<Longrightarrow> month_start y (m + 2) = month_start y (m + 1)"
      using month_start_step [of "m + 1" y] r(2) by (simp add: add.commute)
    moreover have "1 \<le> jewish_length y k" if "jewish_length y k \<noteq> 0" for k using that jewish_length_bounds [of y k] by linarith
    moreover have "m + 2 \<le> 13 \<and> jewish_length y (m + 2) \<noteq> 0" if "jewish_length y (m + 1) = 0" using that l by auto
    ultimately show ?thesis using 3 s r assms(2) by (auto simp: jewish_next_def jewish_number_def split: if_splits)
  qed
qed

interpretation jewish: sdn_calendar JewishToSdn SdnToJewish jewish_date jewish_next "JEWISH_SDN_OFFSET + 1" JEWISH_SDN_MAX
proof
  fix y m d assume a: "jewish_date (y, m, d)"
  then have r: "1 \<le> y" "1 \<le> m" "m \<le> 13" "1 \<le> d" "d \<le> jewish_length y m" "jewish_number (y, m, d) \<le> JEWISH_SDN_MAX"
    by (simp_all add: jewish_date_def)
  have n: "JEWISH_SDN_OFFSET < jewish_number (y, m, d)" using date_in_year(1) [OF r(2-5)] new_year_index [of "y - 1"] r(1) by simp
  obtain e where e: "SdnToJewish (jewish_number (y, m, d)) = Ret e" "found (jewish_number (y, m, d)) e"
    using SdnToJewish_found [OF n r(6)] by blast
  have "e = (y, m, d)" using e(2) a jewish_inj [of "fst e" "fst (snd e)" "snd (snd e)" y m d] by (simp add: found_def)
  then show "\<exists>n. JewishToSdn y m d = Ret n \<and> JEWISH_SDN_OFFSET + 1 \<le> n \<and> n \<le> JEWISH_SDN_MAX \<and> SdnToJewish n = Ret (y, m, d)"
    using JewishToSdn_eq [OF a] n r(6) e(1) by simp
next
  fix n assume n: "JEWISH_SDN_OFFSET + 1 \<le> n" "n \<le> JEWISH_SDN_MAX"
  then obtain y m d where "SdnToJewish n = Ret (y, m, d)" "found n (y, m, d)"
    using SdnToJewish_found [of n] by force
  then show "\<exists>y m d. SdnToJewish n = Ret (y, m, d) \<and> jewish_date (y, m, d) \<and> JewishToSdn y m d = Ret n"
    using JewishToSdn_eq [of y m d] by (auto simp: found_def)
next
  fix y m d n y' m' d'
  assume e: "jewish_date (y, m, d)" "JewishToSdn y m d = Ret n" "n < JEWISH_SDN_MAX" "jewish_next (y, m, d) = (y', m', d')"
  have "jewish_number (y, m, d) = n" using JewishToSdn_eq [OF e(1)] e(2) by simp
  moreover have "1 \<le> y' \<and> 1 \<le> m' \<and> m' \<le> 13 \<and> 1 \<le> d' \<and> d' \<le> jewish_length y' m' \<and>
      jewish_number (y', m', d') = jewish_number (y, m, d) + 1"
    using e(1,4) by (rule jewish_next_number)
  ultimately have "jewish_date (y', m', d')" "jewish_number (y', m', d') = n + 1" using e(3) by (simp_all add: jewish_date_def)
  then show "jewish_date (y', m', d') \<and> JewishToSdn y' m' d' = Ret (n + 1)" using JewishToSdn_eq [of y' m' d'] by simp
qed

section \<open>Properties\<close>

lemma jewish_first: "SdnToJewish (JEWISH_SDN_OFFSET + 1) = Ret (1, 1, 1)"
proof -
  have "jewish_date (1, 1, 1)" "jewish_number (1, 1, 1) = JEWISH_SDN_OFFSET + 1"
    by (simp_all add: jewish_date_def jewish_number_def new_year_0 month_starts jewish_length_def)
  then show ?thesis using jewish.to_from [of 1 1 1] JewishToSdn_eq [of 1 1 1] by simp
qed

text \<open>C14. The conversions of the Jewish calendar count days: from 1 Tishri of year 1 on, day by day, \<open>SdnToJewish\<close>
  goes through the months of each year (a year has the length that the postponed new years give it, a leap year
  has Adar I) up to day 324542846, and \<open>JewishToSdn\<close> takes each date back; the search loops return, nothing
  overflows. Other days give zeros.\<close>

theorem jewish_calendar_correct:
  "(JEWISH_SDN_OFFSET + 1 + int k \<le> JEWISH_SDN_MAX \<and> (jewish_next ^^ k) (1, 1, 1) = (y, m, d) \<longrightarrow>
      SdnToJewish (JEWISH_SDN_OFFSET + 1 + int k) = Ret (y, m, d) \<and> JewishToSdn y m d = Ret (JEWISH_SDN_OFFSET + 1 + int k) \<and>
      1 \<le> m \<and> m \<le> 13 \<and> 1 \<le> d \<and> d \<le> jewish_length y m) \<and>
    (n \<le> JEWISH_SDN_OFFSET \<or> JEWISH_SDN_MAX < n \<longrightarrow> SdnToJewish n = Ret (0, 0, 0))"
  using jewish.counts_back [OF jewish_first, of k y m d] by (auto simp: SdnToJewish_def jewish_date_def)

theorem jewish_calendar_correct_witness:
  "(jewish_next ^^ 30) (1, 1, 1) = (1, 2, 1) \<and> SdnToJewish 348028 = Ret (1, 2, 1) \<and> SdnToJewish 5 = Ret (0, 0, 0)"
proof -
  have "(jewish_next ^^ 30) (1, 1, 1) = (1, 2, 1)"
    by (simp add: eval_nat_numeral jewish_next_def jewish_length_def)
  then show ?thesis using jewish_calendar_correct [of 30 1 2 1 5] by simp
qed

text \<open>The rules of the new year: \<open>Tishri1\<close> delays the day of the molad by at most two days, the new year never is
  a Sunday, a Wednesday or a Friday, and a year has 353 to 355 days, a leap year 383 to 385.\<close>

theorem jewish_year_lengths:
  "mday i \<le> new_year i \<and> new_year i \<le> mday i + 2 \<and> new_year i mod 7 \<notin> {0, 3, 5} \<and>
    new_year (i + 1) - new_year i \<in> (if monthsPerYear (i mod 19) = 13 then {383..385} else {353..355})"
  using new_year_bounds [of i] new_year_weekday [of i] year_length [of i] by (simp add: leap_index_def)

end
