(* ===== verification/Cal_Main.thy ===== *)
theory Cal_Main
  imports Cal_Jewish
begin

text \<open>
  The PHP functions of \<open>ext/calendar\<close>: \<open>calendar.c\<close> (the table of the four calendars and the functions that dispatch
  on it, the names of days and months, Hebrew numerals), \<open>easter.c\<close> and \<open>cal_unix.c\<close>. A function returns
  \<open>Inl\<close> of the message when it throws a \<open>ValueError\<close>. The arguments are \<open>zend_long\<close>s and lose their high 32 bits
  where they are passed as \<open>int\<close>. The clock, the local time and \<open>mktime\<close> of the C library are parameters.
\<close>

section \<open>Names\<close>

definition DayNameShort :: "string list" where
  "DayNameShort = [''Sun'', ''Mon'', ''Tue'', ''Wed'', ''Thu'', ''Fri'', ''Sat'']"

definition DayNameLong :: "string list" where
  "DayNameLong = [''Sunday'', ''Monday'', ''Tuesday'', ''Wednesday'', ''Thursday'', ''Friday'', ''Saturday'']"

definition MonthNameShort :: "string list" where
  "MonthNameShort = [[], ''Jan'', ''Feb'', ''Mar'', ''Apr'', ''May'', ''Jun'', ''Jul'', ''Aug'', ''Sep'', ''Oct'', ''Nov'',
     ''Dec'']"

definition MonthNameLong :: "string list" where
  "MonthNameLong = [[], ''January'', ''February'', ''March'', ''April'', ''May'', ''June'', ''July'', ''August'',
     ''September'', ''October'', ''November'', ''December'']"

definition FrenchMonthName :: "string list" where
  "FrenchMonthName = [[], ''Vendemiaire'', ''Brumaire'', ''Frimaire'', ''Nivose'', ''Pluviose'', ''Ventose'', ''Germinal'',
     ''Floreal'', ''Prairial'', ''Messidor'', ''Thermidor'', ''Fructidor'', ''Extra'']"

definition JewishMonthNameLeap :: "string list" where
  "JewishMonthNameLeap = [[], ''Tishri'', ''Heshvan'', ''Kislev'', ''Tevet'', ''Shevat'', ''Adar I'', ''Adar II'', ''Nisan'',
     ''Iyyar'', ''Sivan'', ''Tammuz'', ''Av'', ''Elul'']"

definition JewishMonthName :: "string list" where
  "JewishMonthName = [[], ''Tishri'', ''Heshvan'', ''Kislev'', ''Tevet'', ''Shevat'', [], ''Adar'', ''Nisan'', ''Iyyar'',
     ''Sivan'', ''Tammuz'', ''Av'', ''Elul'']"

text \<open>Bytes of ISO-8859-8.\<close>

abbreviation bytes :: "nat list \<Rightarrow> string" where
  "bytes \<equiv> map char_of"

definition JewishMonthHebNameLeap :: "string list" where
  "JewishMonthHebNameLeap = map bytes
     [[], [0xFA, 0xF9, 0xF8, 0xE9], [0xE7, 0xF9, 0xE5, 0xEF], [0xEB, 0xF1, 0xEC, 0xE5], [0xE8, 0xE1, 0xFA],
      [0xF9, 0xE1, 0xE8], [0xE0, 0xE3, 0xF8, 0x20, 0xE0, 0x27], [0xE0, 0xE3, 0xF8, 0x20, 0xE1, 0x27],
      [0xF0, 0xE9, 0xF1, 0xEF], [0xE0, 0xE9, 0xE9, 0xF8], [0xF1, 0xE9, 0xE5, 0xEF], [0xFA, 0xEE, 0xE5, 0xE6],
      [0xE0, 0xE1], [0xE0, 0xEC, 0xE5, 0xEC]]"

definition JewishMonthHebName :: "string list" where
  "JewishMonthHebName = map bytes
     [[], [0xFA, 0xF9, 0xF8, 0xE9], [0xE7, 0xF9, 0xE5, 0xEF], [0xEB, 0xF1, 0xEC, 0xE5], [0xE8, 0xE1, 0xFA],
      [0xF9, 0xE1, 0xE8], [], [0xE0, 0xE3, 0xF8],
      [0xF0, 0xE9, 0xF1, 0xEF], [0xE0, 0xE9, 0xE9, 0xF8], [0xF1, 0xE9, 0xE5, 0xEF], [0xFA, 0xEE, 0xE5, 0xE6],
      [0xE0, 0xE1], [0xE0, 0xEC, 0xE5, 0xEC]]"

text \<open>An element of a constant array; outside of its bounds the access is undefined.\<close>

definition arr_get :: "'a list \<Rightarrow> int \<Rightarrow> 'a run" where
  "arr_get xs i = (if 0 \<le> i \<and> i < int (length xs) then Ret (xs ! nat i) else Undef)"

section \<open>The table of calendars\<close>

abbreviation CAL_GREGORIAN :: int where "CAL_GREGORIAN \<equiv> 0"
abbreviation CAL_JULIAN :: int where "CAL_JULIAN \<equiv> 1"
abbreviation CAL_JEWISH :: int where "CAL_JEWISH \<equiv> 2"
abbreviation CAL_FRENCH :: int where "CAL_FRENCH \<equiv> 3"
abbreviation CAL_NUM_CALS :: int where "CAL_NUM_CALS \<equiv> 4"

record cal_entry =
  cal_name :: string
  cal_symbol :: string
  to_jd :: "int \<Rightarrow> int \<Rightarrow> int \<Rightarrow> int run"
  from_jd :: "int \<Rightarrow> (int \<times> int \<times> int) run"
  num_months :: int
  max_days_in_month :: int
  month_name_short :: "string list"
  month_name_long :: "string list"

definition cal_conversion_table :: "int \<Rightarrow> cal_entry" where
  "cal_conversion_table cal =
     (if cal = CAL_GREGORIAN then
        \<lparr>cal_name = ''Gregorian'', cal_symbol = ''CAL_GREGORIAN'', to_jd = GregorianToSdn, from_jd = SdnToGregorian,
         num_months = 12, max_days_in_month = 31, month_name_short = MonthNameShort, month_name_long = MonthNameLong\<rparr>
      else if cal = CAL_JULIAN then
        \<lparr>cal_name = ''Julian'', cal_symbol = ''CAL_JULIAN'', to_jd = JulianToSdn, from_jd = SdnToJulian,
         num_months = 12, max_days_in_month = 31, month_name_short = MonthNameShort, month_name_long = MonthNameLong\<rparr>
      else if cal = CAL_JEWISH then
        \<lparr>cal_name = ''Jewish'', cal_symbol = ''CAL_JEWISH'', to_jd = JewishToSdn, from_jd = SdnToJewish,
         num_months = 13, max_days_in_month = 30, month_name_short = JewishMonthNameLeap,
         month_name_long = JewishMonthNameLeap\<rparr>
      else
        \<lparr>cal_name = ''French'', cal_symbol = ''CAL_FRENCH'', to_jd = FrenchToSdn, from_jd = SdnToFrench,
         num_months = 13, max_days_in_month = 30, month_name_short = FrenchMonthName, month_name_long = FrenchMonthName\<rparr>)"

definition JEWISH_MONTH_NAME :: "int \<Rightarrow> string list" where
  "JEWISH_MONTH_NAME year = (if monthsPerYear ((year - 1) mod 19) = 13 then JewishMonthNameLeap else JewishMonthName)"

definition JEWISH_HEB_MONTH_NAME :: "int \<Rightarrow> string list" where
  "JEWISH_HEB_MONTH_NAME year =
     (if monthsPerYear ((year - 1) mod 19) = 13 then JewishMonthHebNameLeap else JewishMonthHebName)"

definition valid_cal :: "int \<Rightarrow> bool" where
  "valid_cal cal \<longleftrightarrow> \<not> (cal < 0 \<or> cal \<ge> CAL_NUM_CALS)"

abbreviation bad_cal :: "(string + 'a) run" where
  "bad_cal \<equiv> Ret (Inl ''must be a valid calendar ID'')"

section \<open>Values returned to PHP\<close>

datatype cal_zval = CLong int | CStr string | CNull | CIndexed "(int \<times> cal_zval) list" | CAssoc "(string \<times> cal_zval) list"

primrec info_months :: "string list \<Rightarrow> nat \<Rightarrow> (int \<times> cal_zval) list run" where
  "info_months names 0 = Ret []"
| "info_months names (Suc k) =
     run_bind (info_months names k) (\<lambda>l. run_bind (arr_get names (int (Suc k))) (\<lambda>s. Ret (l @ [(int (Suc k), CStr s)])))"

text \<open>The arrays of the two loops are filled side by side.\<close>

definition php_cal_info :: "int \<Rightarrow> cal_zval run" where
  "php_cal_info cal =
     (let calendar = cal_conversion_table cal in
      run_bind (info_months (month_name_long calendar) (nat (num_months calendar))) (\<lambda>months.
      run_bind (info_months (month_name_short calendar) (nat (num_months calendar))) (\<lambda>smonths.
        Ret (CAssoc [(''months'', CIndexed months), (''abbrevmonths'', CIndexed smonths),
                     (''maxdaysinmonth'', CLong (max_days_in_month calendar)),
                     (''calname'', CStr (cal_name calendar)), (''calsymbol'', CStr (cal_symbol calendar))]))))"

primrec info_all :: "nat \<Rightarrow> (int \<times> cal_zval) list run" where
  "info_all 0 = Ret []"
| "info_all (Suc k) = run_bind (info_all k) (\<lambda>l. run_bind (php_cal_info (int k)) (\<lambda>v. Ret (l @ [(int k, v)])))"

definition cal_info :: "int \<Rightarrow> (string + cal_zval) run" where
  "cal_info cal =
     (if cal = - 1 then run_bind (info_all (nat CAL_NUM_CALS)) (\<lambda>l. Ret (Inr (CIndexed l)))
      else if \<not> valid_cal cal then bad_cal
      else run_bind (php_cal_info cal) (\<lambda>v. Ret (Inr v)))"

section \<open>The length of a month\<close>

definition cal_days_in_month :: "int \<Rightarrow> int \<Rightarrow> int \<Rightarrow> (string + int) run" where
  "cal_days_in_month cal month year =
     (if \<not> valid_cal cal then bad_cal
      else
        let to_jd = (\<lambda>y m d. to_jd (cal_conversion_table cal) (int_of_long y) (int_of_long m) (int_of_long d)) in
        run_bind (to_jd year month 1) (\<lambda>sdn_start.
          if sdn_start = 0 then Ret (Inl ''Invalid date'')
          else
            run_bind (c_long (1 + month)) (\<lambda>next_month.
            run_bind (to_jd year next_month 1) (\<lambda>sdn_next.
            run_bind
              (if sdn_next = 0 then
                 if year = - 1 then to_jd 1 1 1
                 else
                   run_bind (c_long (year + 1)) (\<lambda>next_year.
                   run_bind (to_jd next_year 1 1) (\<lambda>sdn_next.
                     Ret (if cal = CAL_FRENCH \<and> sdn_next = 0 then 2380953 else sdn_next)))
               else Ret sdn_next) (\<lambda>sdn_next.
            run_bind (c_long (sdn_next - sdn_start)) (\<lambda>days.
              Ret (Inr days)))))))"

section \<open>Conversions\<close>

definition cal_to_jd :: "int \<Rightarrow> int \<Rightarrow> int \<Rightarrow> int \<Rightarrow> (string + int) run" where
  "cal_to_jd cal month day year =
     (if \<not> valid_cal cal then bad_cal
      else run_bind (to_jd (cal_conversion_table cal) (int_of_long year) (int_of_long month) (int_of_long day)) (\<lambda>jd.
        Ret (Inr jd)))"

definition date_str :: "int \<Rightarrow> int \<Rightarrow> int \<Rightarrow> string" where
  "date_str month day year = sdec month @ ''/'' @ sdec day @ ''/'' @ sdec year"

definition cal_from_jd :: "int \<Rightarrow> int \<Rightarrow> (string + cal_zval) run" where
  "cal_from_jd jd cal =
     (if \<not> valid_cal cal then bad_cal
      else
        let calendar = cal_conversion_table cal in
        run_bind (from_jd calendar jd) (\<lambda>(year, month, day).
        run_bind
          (if cal \<noteq> CAL_JEWISH \<or> year > 0 then
             let dow = DayOfWeek jd in
             run_bind (arr_get DayNameShort dow) (\<lambda>short. run_bind (arr_get DayNameLong dow) (\<lambda>long.
               Ret [(''dow'', CLong dow), (''abbrevdayname'', CStr short), (''dayname'', CStr long)]))
           else Ret [(''dow'', CNull), (''abbrevdayname'', CStr []), (''dayname'', CStr [])]) (\<lambda>dow.
        run_bind
          (if cal = CAL_JEWISH then
             run_bind (if year > 0 then arr_get (JEWISH_MONTH_NAME year) month else Ret []) (\<lambda>name. Ret (name, name))
           else
             run_bind (arr_get (month_name_short calendar) month) (\<lambda>short.
             run_bind (arr_get (month_name_long calendar) month) (\<lambda>long. Ret (short, long)))) (\<lambda>(short, long).
        Ret (Inr (CAssoc ([(''date'', CStr (date_str month day year)), (''month'', CLong month), (''day'', CLong day),
          (''year'', CLong year)] @ dow @ [(''abbrevmonth'', CStr short), (''monthname'', CStr long)])))))))"

definition jdtogregorian :: "int \<Rightarrow> string run" where
  "jdtogregorian julday = run_bind (SdnToGregorian julday) (\<lambda>(year, month, day). Ret (date_str month day year))"

definition gregoriantojd :: "int \<Rightarrow> int \<Rightarrow> int \<Rightarrow> int run" where
  "gregoriantojd month day year = GregorianToSdn (int_of_long year) (int_of_long month) (int_of_long day)"

definition jdtojulian :: "int \<Rightarrow> string run" where
  "jdtojulian julday = run_bind (SdnToJulian julday) (\<lambda>(year, month, day). Ret (date_str month day year))"

definition juliantojd :: "int \<Rightarrow> int \<Rightarrow> int \<Rightarrow> int run" where
  "juliantojd month day year = JulianToSdn (int_of_long year) (int_of_long month) (int_of_long day)"

definition jewishtojd :: "int \<Rightarrow> int \<Rightarrow> int \<Rightarrow> int run" where
  "jewishtojd month day year = JewishToSdn (int_of_long year) (int_of_long month) (int_of_long day)"

definition jdtofrench :: "int \<Rightarrow> string run" where
  "jdtofrench julday = run_bind (SdnToFrench julday) (\<lambda>(year, month, day). Ret (date_str month day year))"

definition frenchtojd :: "int \<Rightarrow> int \<Rightarrow> int \<Rightarrow> int run" where
  "frenchtojd month day year = FrenchToSdn (int_of_long year) (int_of_long month) (int_of_long day)"

definition jddayofweek :: "int \<Rightarrow> int \<Rightarrow> cal_zval run" where
  "jddayofweek julday mode =
     (let day = DayOfWeek julday in
      run_bind (arr_get DayNameLong day) (\<lambda>daynamel.
      run_bind (arr_get DayNameShort day) (\<lambda>daynames.
        Ret (if mode = 1 then CStr daynamel else if mode = 2 then CStr daynames else CLong day))))"

definition jdmonthname :: "int \<Rightarrow> int \<Rightarrow> string run" where
  "jdmonthname julday mode =
     (if mode = 1 then run_bind (SdnToGregorian julday) (\<lambda>(year, month, day). arr_get MonthNameLong month)
      else if mode = 2 then run_bind (SdnToJulian julday) (\<lambda>(year, month, day). arr_get MonthNameShort month)
      else if mode = 3 then run_bind (SdnToJulian julday) (\<lambda>(year, month, day). arr_get MonthNameLong month)
      else if mode = 4 then
        run_bind (SdnToJewish julday) (\<lambda>(year, month, day). if year > 0 then arr_get (JEWISH_MONTH_NAME year) month else Ret [])
      else if mode = 5 then run_bind (SdnToFrench julday) (\<lambda>(year, month, day). arr_get FrenchMonthName month)
      else run_bind (SdnToGregorian julday) (\<lambda>(year, month, day). arr_get MonthNameShort month))"

section \<open>Hebrew numerals\<close>

definition alef_bet :: string where
  "alef_bet = [CHR 0x30, CHR 0xE0, CHR 0xE1, CHR 0xE2, CHR 0xE3, CHR 0xE4, CHR 0xE5, CHR 0xE6, CHR 0xE7, CHR 0xE8, CHR 0xE9,
     CHR 0xEB, CHR 0xEC, CHR 0xEE, CHR 0xF0, CHR 0xF1, CHR 0xF2, CHR 0xF4, CHR 0xF6, CHR 0xF7, CHR 0xF8, CHR 0xF9,
     CHR 0xFA, CHR 0x00, CHR 0x00]"

text \<open>The thousands, with the flags \<open>CAL_JEWISH_ADD_ALAFIM_GERESH\<close> and \<open>CAL_JEWISH_ADD_ALAFIM\<close>.\<close>

definition heb_alafim :: "int \<Rightarrow> int \<Rightarrow> (string \<times> int) run" where
  "heb_alafim n fl =
     (if n div 1000 \<noteq> 0 then
        run_bind (arr_get alef_bet (n div 1000)) (\<lambda>c.
          Ret ([c] @ (if 2 AND fl \<noteq> 0 then [CHR 0x27] else []) @
               (if 4 AND fl \<noteq> 0 then bytes [0x20, 0xE0, 0xEC, 0xF4, 0xE9, 0xED, 0x20] else []), n mod 1000))
      else Ret ([], n))"

function heb_tav_loop :: "string \<Rightarrow> int \<Rightarrow> string \<times> int" where
  "heb_tav_loop p n = (if n \<ge> 400 then heb_tav_loop (p @ [alef_bet ! 22]) (n - 400) else (p, n))"
  by pat_completeness auto

termination
  by (relation "measure (\<lambda>(p, n). nat n)") auto

declare heb_tav_loop.simps [simp del]

definition heb_meot :: "string \<Rightarrow> int \<Rightarrow> (string \<times> int) run" where
  "heb_meot p n =
     (if n \<ge> 100 then run_bind (arr_get alef_bet (18 + n div 100)) (\<lambda>c. Ret (p @ [c], n mod 100)) else Ret (p, n))"

definition heb_asarot :: "string \<Rightarrow> int \<Rightarrow> string run" where
  "heb_asarot p n =
     (if n = 15 \<or> n = 16 then
        run_bind (arr_get alef_bet 9) (\<lambda>c. run_bind (arr_get alef_bet (n - 9)) (\<lambda>c'. Ret (p @ [c, c'])))
      else
        run_bind (if n \<ge> 10 then run_bind (arr_get alef_bet (9 + n div 10)) (\<lambda>c. Ret (p @ [c], n mod 10)) else Ret (p, n))
          (\<lambda>(p, n). if n > 0 then run_bind (arr_get alef_bet n) (\<lambda>c. Ret (p @ [c])) else Ret p))"

text \<open>The last letter moves behind a quotation mark, a single one gets a geresh.\<close>

definition heb_gereshayim :: "string \<Rightarrow> int \<Rightarrow> string" where
  "heb_gereshayim p fl =
     (if 8 AND fl \<noteq> 0 then
        if length p = 0 then p else if length p = 1 then p @ [CHR 0x27] else butlast p @ [CHR 0x22, last p]
      else p)"

text \<open>The result is \<open>*ret\<close>; the buffer \<open>old\<close> has 18 bytes, one of them for the terminator.\<close>

definition heb_number_to_chars :: "int \<Rightarrow> int \<Rightarrow> string option run" where
  "heb_number_to_chars n fl =
     (if n > 9999 \<or> n < 1 then Ret None
      else
        run_bind (heb_alafim n fl) (\<lambda>(alafim, n).
          case heb_tav_loop [] n of (p, n) \<Rightarrow>
            run_bind (heb_meot p n) (\<lambda>(p, n).
            run_bind (heb_asarot p n) (\<lambda>p.
              let old = alafim @ heb_gereshayim p fl
              in if length old + 1 > 18 then Undef else Ret (Some old)))))"

text \<open>\<open>%s\<close> prints a null pointer as \<open>(null)\<close>.\<close>

definition str_or_null :: "string option \<Rightarrow> string" where
  "str_or_null s = (case s of None \<Rightarrow> ''(null)'' | Some s \<Rightarrow> s)"

definition jdtojewish :: "int \<Rightarrow> bool \<Rightarrow> int \<Rightarrow> (string + string) run" where
  "jdtojewish julday heb fl =
     run_bind (SdnToJewish julday) (\<lambda>(year, month, day).
       if \<not> heb then Ret (Inr (date_str month day year))
       else if year \<le> 0 \<or> year > 9999 then Ret (Inl ''Year out of range (0-9999)'')
       else
         run_bind (heb_number_to_chars day (int_of_long fl)) (\<lambda>d.
         run_bind (arr_get (JEWISH_HEB_MONTH_NAME year) month) (\<lambda>m.
         run_bind (heb_number_to_chars year (int_of_long fl)) (\<lambda>y.
           Ret (Inr (str_or_null d @ '' '' @ m @ '' '' @ str_or_null y))))))"

section \<open>Easter\<close>

text \<open>The remainder with a correction of its sign, which \<open>_cal_easter\<close> writes out each time.\<close>

definition pos_rem :: "int \<Rightarrow> int \<Rightarrow> int" where
  "pos_rem a b = (let r = a smod b in if r < 0 then r + b else r)"

definition easter_julian :: "int \<Rightarrow> int \<Rightarrow> bool" where
  "easter_julian year meth \<longleftrightarrow>
     year \<le> 1582 \<and> meth \<noteq> 2 \<or> year \<ge> 1583 \<and> year \<le> 1752 \<and> meth \<noteq> 1 \<and> meth \<noteq> 2 \<or> meth = 3"

text \<open>The dominical number and the uncorrected full moon of a positive year.\<close>

definition easter_dom_pfm :: "int \<Rightarrow> int \<Rightarrow> int \<Rightarrow> (int \<times> int) run" where
  "easter_dom_pfm year meth golden =
     (if easter_julian year meth then
        run_bind (c_long (year + year sdiv 4 + 5)) (\<lambda>s. Ret (pos_rem s 7, pos_rem (3 - 11 * golden - 7) 30))
      else
        run_bind (c_long (year + year sdiv 4)) (\<lambda>s.
        run_bind (c_long (s - year sdiv 100 + year sdiv 400)) (\<lambda>s.
          let solar = (year - 1600) sdiv 100 - (year - 1600) sdiv 400;
              lunar = ((year - 1400) sdiv 100 * 8) sdiv 25
          in Ret (pos_rem s 7, pos_rem (3 - 11 * golden + solar - lunar) 30))))"

definition easter_offset :: "int \<Rightarrow> int \<Rightarrow> int run" where
  "easter_offset year meth =
     (let golden = year smod 19 + 1 in
      run_bind (easter_dom_pfm year meth golden) (\<lambda>(dom, pfm).
        let pfm = (if pfm = 29 \<or> pfm = 28 \<and> golden > 11 then pfm - 1 else pfm);
            tmp = pos_rem (4 - pfm - dom) 7
        in Ret (pfm + tmp + 1)))"

abbreviation max_year :: int where "max_year \<equiv> (ZEND_LONG_MAX div 5) * 4"

text \<open>\<open>_cal_easter\<close>: \<open>now\<close> is the \<open>tm_year\<close> of the current local time, \<open>mktime\<close> gets \<open>tm_year\<close>, \<open>tm_mon\<close> and
  \<open>tm_mday\<close> of a midnight.\<close>

definition cal_easter :: "int option \<Rightarrow> (int \<Rightarrow> int \<Rightarrow> int \<Rightarrow> int) \<Rightarrow> bool \<Rightarrow> int option \<Rightarrow> int \<Rightarrow> (string + int) run" where
  "cal_easter now mktime gm year meth =
     run_bind (case year of Some y \<Rightarrow> Ret y
               | None \<Rightarrow> (case now of None \<Rightarrow> Ret 1900 | Some tm_year \<Rightarrow> c_int (1900 + tm_year))) (\<lambda>year.
       if year \<le> 0 \<or> year > max_year then Ret (Inl (''must be between 1 and '' @ sdec max_year))
       else if gm \<and> (year < 1970 \<or> year > 2037) then Ret (Inl ''must be between 1970 and 2037 (inclusive)'')
       else
         run_bind (easter_offset year meth) (\<lambda>easter.
           Ret (Inr (if gm then
                       if easter < 11 then mktime (year - 1900) 2 (easter + 21) else mktime (year - 1900) 3 (easter - 10)
                     else easter))))"

definition easter_date :: "int option \<Rightarrow> (int \<Rightarrow> int \<Rightarrow> int \<Rightarrow> int) \<Rightarrow> int option \<Rightarrow> int \<Rightarrow> (string + int) run" where
  "easter_date now mktime year meth = cal_easter now mktime True year meth"

definition easter_days :: "int option \<Rightarrow> (int \<Rightarrow> int \<Rightarrow> int \<Rightarrow> int) \<Rightarrow> int option \<Rightarrow> int \<Rightarrow> (string + int) run" where
  "easter_days now mktime year meth = cal_easter now mktime False year meth"

section \<open>Unix time\<close>

abbreviation SECS_PER_DAY :: int where "SECS_PER_DAY \<equiv> 86400"

text \<open>\<open>now\<close> is the time, \<open>localtime\<close> gives \<open>tm_year\<close>, \<open>tm_mon\<close> and \<open>tm_mday\<close> of a time, or \<open>None\<close>; the result \<open>None\<close>
  is \<open>false\<close>.\<close>

definition unixtojd :: "int \<Rightarrow> (int \<Rightarrow> (int \<times> int \<times> int) option) \<Rightarrow> int option \<Rightarrow> (string + int option) run" where
  "unixtojd now localtime timestamp =
     (case (case timestamp of None \<Rightarrow> Some now | Some t \<Rightarrow> if t \<ge> 0 then Some t else None) of
        None \<Rightarrow> Ret (Inl ''must be greater than or equal to 0'')
      | Some ts \<Rightarrow>
          (case localtime ts of
             None \<Rightarrow> Ret (Inr None)
           | Some (tm_year, tm_mon, tm_mday) \<Rightarrow>
               run_bind (c_int (tm_year + 1900)) (\<lambda>y. run_bind (c_int (tm_mon + 1)) (\<lambda>m.
               run_bind (GregorianToSdn y m tm_mday) (\<lambda>jd. Ret (Inr (Some jd)))))))"

definition jdtounix :: "int \<Rightarrow> (string + int) run" where
  "jdtounix uday =
     (if uday < 2440588 \<or> uday - 2440588 > ZEND_LONG_MAX div SECS_PER_DAY
      then Ret (Inl (''jday must be between 2440588 and '' @ sdec (ZEND_LONG_MAX div SECS_PER_DAY + 2440588)))
      else
        run_bind (c_long (uday - 2440588)) (\<lambda>uday.
        run_bind (c_long (uday * SECS_PER_DAY)) (\<lambda>r. Ret (Inr r))))"

section \<open>The length of a month is the calendar's\<close>

lemma valid_cal_iff: "valid_cal cal \<longleftrightarrow> cal = CAL_GREGORIAN \<or> cal = CAL_JULIAN \<or> cal = CAL_JEWISH \<or> cal = CAL_FRENCH"
  unfolding valid_cal_def by presburger

lemma cal_days_in_month_eq:
  assumes "valid_cal cal" "INT_MIN \<le> y" "y < INT_MAX" "1 \<le> m" "m \<le> 13" "to_jd (cal_conversion_table cal) y m 1 = Ret s"
    "s \<noteq> 0" "to_jd (cal_conversion_table cal) y (1 + m) 1 = Ret n"
    "n = 0 \<longrightarrow> to_jd (cal_conversion_table cal) (if y = - 1 then 1 else y + 1) 1 1 = Ret n'"
    "t = (if n \<noteq> 0 then n else if y \<noteq> - 1 \<and> cal = CAL_FRENCH \<and> n' = 0 then 2380953 else n')"
    "\<bar>t - s\<bar> \<le> 100"
  shows "cal_days_in_month cal m y = Ret (Inr (t - s))"
proof -
  have "int_of_long y = y" "int_of_long m = m" "int_of_long (1 + m) = 1 + m" "int_of_long 1 = 1" "int_of_long (y + 1) = y + 1"
    "c_long (1 + m) = Ret (1 + m)" "c_long (y + 1) = Ret (y + 1)" "c_long (t - s) = Ret (t - s)" using assms by simp_all
  note i = this
  consider "n \<noteq> 0" | "n = 0" "y = - 1" | "n = 0" "y \<noteq> - 1" by blast
  then show ?thesis
  proof cases
    case 1
    then show ?thesis using i assms(1,6,7,8,10) unfolding cal_days_in_month_def by (simp add: Let_def)
  next
    case 2
    then show ?thesis using i assms(1,6,7,8,9,10) unfolding cal_days_in_month_def by (simp add: Let_def)
  next
    case 3
    then have "to_jd (cal_conversion_table cal) (y + 1) 1 1 = Ret n'" using assms(9) by simp
    then show ?thesis using 3 i assms(1,6,7,8,10) unfolding cal_days_in_month_def by (simp add: Let_def split: if_splits)
  qed
qed

lemma days_by_start:
  assumes "valid_cal cal" "cal \<noteq> CAL_FRENCH" "INT_MIN \<le> y" "y < INT_MAX" "1 \<le> m" "m \<le> k" "k \<le> 13" "0 \<le> L" "L \<le> 31"
    and s: "to_jd (cal_conversion_table cal) y m 1 = Ret s" "1 \<le> s"
    and inner: "m < k \<Longrightarrow> to_jd (cal_conversion_table cal) y (1 + m) 1 = Ret (s + L)"
    and last: "m = k \<Longrightarrow> to_jd (cal_conversion_table cal) y (1 + k) 1 = Ret 0 \<and>
      to_jd (cal_conversion_table cal) (if y = - 1 then 1 else y + 1) 1 1 = Ret (s + L)"
  shows "cal_days_in_month cal m y = Ret (Inr L)"
proof (cases "m = k")
  case True
  have "cal_days_in_month cal m y = Ret (Inr (s + L - s))"
    by (rule cal_days_in_month_eq [where n = 0 and n' = "s + L"]) (use assms True in auto)
  then show ?thesis by simp
next
  case False
  have "cal_days_in_month cal m y = Ret (Inr (s + L - s))"
    by (rule cal_days_in_month_eq [where n = "s + L" and n' = 0]) (use assms False in auto)
  then show ?thesis by simp
qed

lemma gregorian_days:
  assumes "y \<noteq> 0" "- 4713 \<le> y" "y \<le> 2147468899" "1 \<le> m" "m \<le> 12"
  shows "cal_days_in_month CAL_GREGORIAN m y = Ret (Inr (month_length (gregorian_leap y) m))"
proof -
  have ok: "GregorianToSdn y' m' 1 = Ret (day_number gregorian_start (y', m', 1) - 32045)"
    "1 \<le> day_number gregorian_start (y', m', 1) - 32045"
    if "y' \<noteq> 0" "- 4713 \<le> y'" "y' < 2147468900 \<or> y' = 2147468900 \<and> m' = 1" "1 \<le> m'" "m' \<le> 12" for y' m'
    using gregorian_found(1,2) [of y' m' 1] that
    by (auto simp: valid_date_def month_length_def gregorian_range_def)
  note n = greg.month_number [OF assms(1,4,5)]
  have l: "28 \<le> month_length (gregorian_leap y) m" "month_length (gregorian_leap y) m \<le> 31" by (simp_all add: month_length_def)
  have t: "to_jd (cal_conversion_table CAL_GREGORIAN) = GregorianToSdn" by (simp add: cal_conversion_table_def)
  show ?thesis
  proof (rule days_by_start [where cal = CAL_GREGORIAN and k = 12, unfolded t])
    show "GregorianToSdn y m 1 = Ret (day_number gregorian_start (y, m, 1) - 32045)"
      "1 \<le> day_number gregorian_start (y, m, 1) - 32045" by (rule ok; use assms in simp)+
    show "m < 12 \<Longrightarrow> GregorianToSdn y (1 + m) 1 =
        Ret (day_number gregorian_start (y, m, 1) - 32045 + month_length (gregorian_leap y) m)"
      using ok(1) [of y "m + 1"] n(1) assms by (simp add: add.commute)
    let ?y = "if y = - 1 then 1 else y + 1"
    have "GregorianToSdn ?y 1 1 = Ret (day_number gregorian_start (?y, 1, 1) - 32045)" using assms by (intro ok) auto
    moreover have "GregorianToSdn y (1 + 12) 1 = Ret 0" by (simp add: GregorianToSdn_def)
    ultimately show "m = 12 \<Longrightarrow> GregorianToSdn y (1 + 12) 1 = Ret 0 \<and> GregorianToSdn ?y 1 1 =
        Ret (day_number gregorian_start (y, m, 1) - 32045 + month_length (gregorian_leap y) m)"
      using n(2) by simp
  qed (use assms l in \<open>simp_all add: valid_cal_iff\<close>)
qed

lemma julian_days:
  assumes "y \<noteq> 0" "- 4712 \<le> y" "y \<le> 2147478846" "1 \<le> m" "m \<le> 12"
  shows "cal_days_in_month CAL_JULIAN m y = Ret (Inr (month_length (julian_leap y) m))"
proof -
  have ok: "JulianToSdn y' m' 1 = Ret (day_number julian_start (y', m', 1) - 32083)"
    "1 \<le> day_number julian_start (y', m', 1) - 32083"
    if "y' \<noteq> 0" "- 4712 \<le> y'" "y' < 2147478847 \<or> y' = 2147478847 \<and> m' = 1" "1 \<le> m'" "m' \<le> 12" for y' m'
    using julian_found(1,2) [of y' m' 1] that
    by (auto simp: valid_date_def month_length_def julian_range_def)
  note n = jul.month_number [OF assms(1,4,5)]
  have l: "28 \<le> month_length (julian_leap y) m" "month_length (julian_leap y) m \<le> 31" by (simp_all add: month_length_def)
  have t: "to_jd (cal_conversion_table CAL_JULIAN) = JulianToSdn" by (simp add: cal_conversion_table_def)
  show ?thesis
  proof (rule days_by_start [where cal = CAL_JULIAN and k = 12, unfolded t])
    show "JulianToSdn y m 1 = Ret (day_number julian_start (y, m, 1) - 32083)"
      "1 \<le> day_number julian_start (y, m, 1) - 32083" by (rule ok; use assms in simp)+
    show "m < 12 \<Longrightarrow> JulianToSdn y (1 + m) 1 =
        Ret (day_number julian_start (y, m, 1) - 32083 + month_length (julian_leap y) m)"
      using ok(1) [of y "m + 1"] n(1) assms by (simp add: add.commute)
    let ?y = "if y = - 1 then 1 else y + 1"
    have "JulianToSdn ?y 1 1 = Ret (day_number julian_start (?y, 1, 1) - 32083)" using assms by (intro ok) auto
    moreover have "JulianToSdn y (1 + 12) 1 = Ret 0" by (simp add: JulianToSdn_def)
    ultimately show "m = 12 \<Longrightarrow> JulianToSdn y (1 + 12) 1 = Ret 0 \<and> JulianToSdn ?y 1 1 =
        Ret (day_number julian_start (y, m, 1) - 32083 + month_length (julian_leap y) m)"
      using n(2) by simp
  qed (use assms l in \<open>simp_all add: valid_cal_iff\<close>)
qed

lemma french_days:
  assumes "1 \<le> y" "y \<le> 14" "1 \<le> m" "m \<le> 13"
  shows "cal_days_in_month CAL_FRENCH m y = Ret (Inr (french_length y m))"
proof -
  define s where "s = 365 * y + y div 4 + (m - 1) * 30 + 1 + 2375474"
  have q: "0 \<le> y div 4" "y div 4 \<le> 14" using assms by (simp_all add: pos_imp_zdiv_nonneg_iff)
  have t: "to_jd (cal_conversion_table CAL_FRENCH) = FrenchToSdn" by (simp add: cal_conversion_table_def)
  have F: "FrenchToSdn y' m' 1 = Ret (365 * y' + y' div 4 + (m' - 1) * 30 + 1 + 2375474)"
    if "1 \<le> y'" "y' \<le> 14" "1 \<le> m'" "m' \<le> 13" for y' m'
    using that unfolding FrenchToSdn_def four_years by simp
  have S: "FrenchToSdn y m 1 = Ret s" "s > 0" using F [of y m] assms q by (simp_all add: s_def)
  have "cal_days_in_month CAL_FRENCH m y = Ret (Inr (s + french_length y m - s))"
  proof (cases "m = 13")
    case False
    show ?thesis
      by (rule cal_days_in_month_eq [where cal = CAL_FRENCH and n = "s + 30" and n' = 0, unfolded t])
        (use assms S F [of y "1 + m"] False in \<open>auto simp: valid_cal_iff french_length_def s_def\<close>)
  next
    case True
    define n' where "n' = (if y = 14 then 0 else 365 * (y + 1) + (y + 1) div 4 + 1 + 2375474)"
    have n': "FrenchToSdn (y + 1) 1 1 = Ret n'" using F [of "y + 1" 1] assms by (auto simp: n'_def FrenchToSdn_def)
    have "(if n' = 0 then 2380953 else n') = s + french_length y 13"
      using quarter_step [of y] True assms q by (auto simp: n'_def s_def french_length_def)
    then show ?thesis using True assms S n'
      by (intro cal_days_in_month_eq [where cal = CAL_FRENCH and n = 0 and n' = n', unfolded t])
        (auto simp: valid_cal_iff french_length_def FrenchToSdn_def)
  qed
  then show ?thesis by simp
qed

lemma new_year_limit:
  assumes "0 \<le> i" "i \<le> 888000"
  shows "new_year i \<le> 324500000"
proof -
  define c where "c = i div 19 + 1"
  have c: "0 \<le> c" "c \<le> 46737" "i \<le> 19 * c" using assms by (simp_all add: c_def pos_imp_zdiv_nonneg_iff)
  have "new_year i \<le> new_year (19 * c)" using c(3) by (rule new_year_le)
  also have "\<dots> \<le> 6940 * c + 3" using new_year_bounds(2) [of "19 * c"] first_year [OF c(1)] by simp
  finally show ?thesis using c(2) by simp
qed

lemma jewish_days:
  assumes "1 \<le> y" "y \<le> 887605" "1 \<le> m" "m \<le> 13"
  shows "cal_days_in_month CAL_JEWISH m y = Ret (Inr (jewish_length y m))"
proof -
  have t: "to_jd (cal_conversion_table CAL_JEWISH) = JewishToSdn" by (simp add: cal_conversion_table_def)
  have ok: "JewishToSdn y' m' 1 = Ret (JEWISH_SDN_OFFSET + new_year (y' - 1) + month_start y' m')"
    if "1 \<le> y'" "y' \<le> 887606" "1 \<le> m'" "m' \<le> 13" for y' m'
    using JewishToSdn_day [of y' m' 1] new_year_limit [of y'] that by (simp add: jewish_number_def)
  have p: "0 < new_year (y - 1)" "0 \<le> month_start y m"
    using new_year_index [of "y - 1"] month_start_mono [of 1 m y] month_starts(1) [of y] jewish_length_bounds [of y 1] assms
    by (cases "m = 1"; simp)+
  show ?thesis
  proof (rule days_by_start [where cal = CAL_JEWISH and k = 13, unfolded t])
    show "JewishToSdn y m 1 = Ret (JEWISH_SDN_OFFSET + new_year (y - 1) + month_start y m)" using assms by (intro ok) simp_all
    show "1 \<le> JEWISH_SDN_OFFSET + new_year (y - 1) + month_start y m" using p by simp
    show "m < 13 \<Longrightarrow> JewishToSdn y (1 + m) 1 = Ret (JEWISH_SDN_OFFSET + new_year (y - 1) + month_start y m + jewish_length y m)"
      using ok [of y "1 + m"] month_start_step [of m y] assms by (simp add: add.commute)
    have "JewishToSdn y (1 + 13) 1 = Ret 0"
      using assms by (simp add: JewishToSdn_def split: prod.split)
    moreover have "JewishToSdn (y + 1) 1 1 = Ret (JEWISH_SDN_OFFSET + new_year y)"
      using ok [of "y + 1" 1] assms by (simp add: month_starts)
    moreover have "new_year (y - 1) + month_start y 13 + jewish_length y 13 = new_year y"
      using month_start_step [of 13 y] month_starts(14) [of y] by (simp add: year_days_def)
    ultimately show "m = 13 \<Longrightarrow> JewishToSdn y (1 + 13) 1 = Ret 0 \<and> JewishToSdn (if y = - 1 then 1 else y + 1) 1 1 =
        Ret (JEWISH_SDN_OFFSET + new_year (y - 1) + month_start y m + jewish_length y m)"
      using assms(1) by (simp add: algebra_simps)
  qed (use assms jewish_length_bounds [of y m] in \<open>simp_all add: valid_cal_iff\<close>)
qed

section \<open>Easter is a Sunday\<close>

lemma pos_rem_mod: "0 < b \<Longrightarrow> pos_rem a b = a mod b"
proof -
  assume b: "0 < b"
  have r: "a smod b > - b" "a smod b < b" using smod_int_range [of b a] b by auto
  have a: "a = b * (a sdiv b) + a smod b" "a = b * (a sdiv b - 1) + (a smod b + b)"
    using mult_sdiv_smod_eq [of b a] by (simp_all add: algebra_simps)
  show ?thesis
  proof (cases "a smod b < 0")
    case True
    then show ?thesis using int_mod_pos_eq [OF a(2)] r by (simp add: pos_rem_def Let_def)
  next
    case False
    then show ?thesis using int_mod_pos_eq [OF a(1)] r by (simp add: pos_rem_def Let_def)
  qed
qed

text \<open>The date of the full moon in days after 21 March, by the Golden number and, in the Gregorian calendar, the solar
  and the lunar correction.\<close>

definition paschal_moon :: "bool \<Rightarrow> int \<Rightarrow> int" where
  "paschal_moon julian y =
     (let g = y mod 19 + 1;
          p = (if julian then (26 - 11 * g) mod 30
               else (3 - 11 * g + (y div 100 - y div 400 - 12) - (8 * (y div 100) - 112) div 25) mod 30)
      in if p = 29 \<or> p = 28 \<and> g > 11 then p - 1 else p)"

lemma add_div: "0 < b \<Longrightarrow> (a + b * k) div b = a div b + k" for a b k :: int
  by simp

lemma easter_corrections:
  fixes y :: int
  assumes "1600 \<le> y"
  shows "(y - 1600) sdiv 100 = y div 100 - 16" "(y - 1600) sdiv 400 = y div 400 - 4"
    "((y - 1400) sdiv 100 * 8) sdiv 25 = (8 * (y div 100) - 112) div 25"
proof -
  have "(y - 1600) div 100 = y div 100 - 16" "(y - 1600) div 400 = y div 400 - 4" "(y - 1400) div 100 = y div 100 - 14"
    using add_div [of 100 "y - 1600" 16] add_div [of 400 "y - 1600" 4] add_div [of 100 "y - 1400" 14] by simp_all
  moreover have "16 \<le> y div 100" using assms by simp
  ultimately have q: "(y - 1600) sdiv 100 = y div 100 - 16" "(y - 1600) sdiv 400 = y div 400 - 4"
      "(y - 1400) sdiv 100 = y div 100 - 14" "0 \<le> y div 100 - 14"
    using assms by (simp_all add: sdiv_nonneg)
  then show "(y - 1600) sdiv 100 = y div 100 - 16" "(y - 1600) sdiv 400 = y div 400 - 4" by simp_all
  have "((y div 100 - 14) * 8) sdiv 25 = ((y div 100 - 14) * 8) div 25" using q(4) by (intro sdiv_nonneg) simp_all
  moreover have "(y div 100 - 14) * 8 = 8 * (y div 100) - 112" by simp
  ultimately show "((y - 1400) sdiv 100 * 8) sdiv 25 = (8 * (y div 100) - 112) div 25" unfolding q(3) by (simp only:)
qed

lemma easter_dom_pfm_eq:
  assumes "1 \<le> y" "y \<le> 2147468899"
  shows "easter_dom_pfm y meth g =
    (if easter_julian y meth then Ret ((y + y div 4 + 5) mod 7, (26 - 11 * g) mod 30)
     else Ret ((y + y div 4 - y div 100 + y div 400) mod 7,
       (3 - 11 * g + ((y - 1600) sdiv 100 - (y - 1600) sdiv 400) - ((y - 1400) sdiv 100 * 8) sdiv 25) mod 30))"
proof -
  have d: "0 \<le> y div 4" "y div 4 \<le> y" "0 \<le> y div 100" "y div 100 \<le> y" "0 \<le> y div 400" "y div 400 \<le> y"
    using assms by (simp_all add: pos_imp_zdiv_nonneg_iff div_self_le)
  have "(3 - 11 * g - 7 + 30) mod 30 = (3 - 11 * g - 7) mod 30" by (rule mod_add_self2)
  moreover have "3 - 11 * g - 7 + 30 = 26 - 11 * g" by simp
  ultimately have "(3 - 11 * g - 7) mod 30 = (26 - 11 * g) mod 30" by (simp only:)
  note moon = this
  have q: "y sdiv 4 = y div 4" "y sdiv 100 = y div 100" "y sdiv 400 = y div 400" using assms by (simp_all add: sdiv_nonneg)
  have l: "c_long (y + y div 4 + 5) = Ret (y + y div 4 + 5)" "c_long (y + y div 4) = Ret (y + y div 4)"
    "c_long (y + y div 4 - y div 100 + y div 400) = Ret (y + y div 4 - y div 100 + y div 400)"
    by (rule c_long_Ret; use d assms in linarith)+
  have r: "pos_rem a 7 = a mod 7" "pos_rem a 30 = a mod 30" for a by (rule pos_rem_mod; simp)+
  show ?thesis
    by (cases "easter_julian y meth") (simp_all only: easter_dom_pfm_def q l r moon run_bind.simps Let_def if_True if_False)
qed

text \<open>What the weekday needs: \<open>e\<close> days after the full moon \<open>p\<close> is the day with the dominical number \<open>sun\<close>.\<close>

lemma easter_offset_eq:
  fixes y meth :: int
  assumes y: "1 \<le> y" "y \<le> 2147468899"
  defines "sun \<equiv> (if easter_julian y meth then y + y div 4 + 5 else y + y div 4 - y div 100 + y div 400)"
  obtains p e where "easter_offset y meth = Ret e" "p < e" "e \<le> p + 7" "0 \<le> p" "p \<le> 28" "(e + sun) mod 7 = 5"
    "easter_julian y meth \<or> 1600 \<le> y \<longrightarrow> p = paschal_moon (easter_julian y meth) y"
proof -
  define g where "g = y mod 19 + 1"
  define p\<^sub>0 where "p\<^sub>0 = (if easter_julian y meth then (26 - 11 * g) mod 30
    else (3 - 11 * g + ((y - 1600) sdiv 100 - (y - 1600) sdiv 400) - ((y - 1400) sdiv 100 * 8) sdiv 25) mod 30)"
  define p where "p = (if p\<^sub>0 = 29 \<or> p\<^sub>0 = 28 \<and> g > 11 then p\<^sub>0 - 1 else p\<^sub>0)"
  define t where "t = (4 - p - sun mod 7) mod 7"
  have p\<^sub>0: "0 \<le> p\<^sub>0" "p\<^sub>0 < 30" by (simp_all add: p\<^sub>0_def)
  have t: "0 \<le> t" "t < 7" by (simp_all add: t_def)
  have "y smod 19 + 1 = g" using y(1) by (simp add: g_def smod_nonneg)
  moreover have "easter_dom_pfm y meth g = Ret (sun mod 7, p\<^sub>0)"
    unfolding easter_dom_pfm_eq [OF y] p\<^sub>0_def sun_def by simp
  moreover have "pos_rem (4 - p - sun mod 7) 7 = t" unfolding t_def by (rule pos_rem_mod) simp
  ultimately have r: "easter_offset y meth = Ret (p + t + 1)"
    by (simp only: easter_offset_def Let_def run_bind.simps prod.case p_def [symmetric])
  moreover have "(p + t + 1 + sun) mod 7 = 5"
  proof -
    have "(p + t + 1 + sun) mod 7 = (p + t + 1 + sun mod 7) mod 7" by (rule mod_add_right_eq [symmetric])
    also have "(p + t + 1 + sun mod 7) mod 7 = (p + 1 + sun mod 7 + t) mod 7" by (rule arg_cong [where f = "\<lambda>x. x mod 7"]) simp
    also have "\<dots> = (p + 1 + sun mod 7 + (4 - p - sun mod 7)) mod 7" unfolding t_def by (rule mod_add_right_eq)
    finally show ?thesis by simp
  qed
  moreover have "0 \<le> p" "p \<le> 28" using p\<^sub>0 by (auto simp: p_def)
  moreover have "p = paschal_moon (easter_julian y meth) y" if "easter_julian y meth \<or> 1600 \<le> y"
  proof (cases "easter_julian y meth")
    case True
    then show ?thesis by (simp only: paschal_moon_def p_def p\<^sub>0_def g_def Let_def if_True)
  next
    case False
    then have y': "1600 \<le> y" using that by simp
    have "y div 100 - 16 - (y div 400 - 4) = y div 100 - y div 400 - 12" by simp
    then show ?thesis
      using False by (simp only: paschal_moon_def p_def p\<^sub>0_def g_def Let_def if_False easter_corrections [OF y'])
  qed
  ultimately show thesis using that [of "p + t + 1" p] t by simp
qed

lemma equinox_julian:
  assumes "1 \<le> y" "y \<le> 2147468899"
  shows "JulianToSdn y 3 21 = Ret (365 * y + y div 4 + 1721138)"
proof -
  have v: "valid_date julian_leap (y, 3, 21)" "julian_range (y, 3, 21)"
    using assms by (simp_all add: valid_date_def month_length_def julian_range_def)
  have "(y + 4 * 1200) div 4 = y div 4 + 1200" by (rule add_div) simp
  then have "day_number julian_start (y, 3, 21) - JULIAN_SDN_OFFSET = 365 * y + y div 4 + 1721138"
    using assms(1) by (simp add: day_number_def julian_start_eq myear_def ayear_def mmonth_def mstart_def)
  then show ?thesis using julian_found(1) [OF v] by simp
qed

lemma equinox_gregorian:
  assumes "1 \<le> y" "y \<le> 2147468899"
  shows "GregorianToSdn y 3 21 = Ret (365 * y + y div 4 - y div 100 + y div 400 + 1721140)"
proof -
  define c r where "c = y div 100" and "r = y mod 100"
  have v: "valid_date gregorian_leap (y, 3, 21)" "gregorian_range (y, 3, 21)"
    using assms by (simp_all add: valid_date_def month_length_def gregorian_range_def)
  have y: "y = 100 * c + r" "0 \<le> r" "r < 100" by (simp_all add: c_def r_def)
  have D: "day_number gregorian_start (y, 3, 21) = gregorian_start (y + 4800) + 21"
    using assms(1) by (simp add: day_number_def myear_def ayear_def mmonth_def mstart_def)
  have "(y + 100 * 48) div 100 = c + 48" unfolding c_def by (rule add_div) simp
  moreover have "(y + 100 * 48) mod 100 = r" unfolding r_def by (rule mod_mult_self2)
  moreover have "(c + 4 * 12) div 4 = c div 4 + 12" by (rule add_div) simp
  ultimately have g: "gregorian_start (y + 4800) = 36524 * (c + 48) + c div 4 + 12 + 365 * r + r div 4"
    unfolding gregorian_start_eq by simp
  have q: "y div 4 = r div 4 + 25 * c" "y div 400 = c div 4" "y div 100 = c"
    using add_div [of 4 r "25 * c"] zdiv_zmult2_eq [of 4 y 100] unfolding c_def by (simp_all add: r_def add.commute)
  have "day_number gregorian_start (y, 3, 21) - GREGOR_SDN_OFFSET = 365 * y + y div 4 - y div 100 + y div 400 + 1721140"
    unfolding D g q using y(1) by simp
  then show ?thesis using gregorian_found(1) [OF v] by simp
qed

lemma sunday:
  assumes "(e + s) mod 7 = 5" "n = s + 7 * k + 1"
  shows "DayOfWeek (n + e) = 0"
proof -
  have "n + e + 1 = (e + s + 2) + 7 * k" using assms(2) by simp
  then have "(n + e + 1) mod 7 = (e + s + 2) mod 7" by (simp only: mod_mult_self2)
  also have "\<dots> = 0" using assms(1) by presburger
  finally show ?thesis by (simp add: DayOfWeek_eq)
qed

section \<open>Hebrew letters\<close>

text \<open>The number a letter stands for; other characters count nothing.\<close>

definition heb_value :: "char \<Rightarrow> int" where
  "heb_value c = (case map_of
     [(CHR 0xE0, 1), (CHR 0xE1, 2), (CHR 0xE2, 3), (CHR 0xE3, 4), (CHR 0xE4, 5), (CHR 0xE5, 6), (CHR 0xE6, 7), (CHR
      0xE7, 8), (CHR 0xE8, 9), (CHR 0xE9, 10), (CHR 0xEB, 20), (CHR 0xEC, 30), (CHR 0xEE, 40), (CHR 0xF0, 50), (CHR
      0xF1, 60), (CHR 0xF2, 70), (CHR 0xF4, 80), (CHR 0xF6, 90), (CHR 0xF7, 100), (CHR 0xF8, 200), (CHR 0xF9, 300),
      (CHR 0xFA, 400)] c of
     None \<Rightarrow> 0 | Some v \<Rightarrow> v)"

definition heb_sum :: "string \<Rightarrow> int" where
  "heb_sum s = sum_list (map heb_value s)"

lemma heb_sum_simps [simp]: "heb_sum [] = 0" "heb_sum (c # s) = heb_value c + heb_sum s" "heb_sum (s @ t) = heb_sum s + heb_sum t"
  by (simp_all add: heb_sum_def)

lemma heb_values [simp]:
  "heb_value (alef_bet ! 1) = 1" "heb_value (alef_bet ! 2) = 2" "heb_value (alef_bet ! 3) = 3" "heb_value (alef_bet ! 4) = 4"
  "heb_value (alef_bet ! 5) = 5" "heb_value (alef_bet ! 6) = 6" "heb_value (alef_bet ! 7) = 7" "heb_value (alef_bet ! 8) = 8"
  "heb_value (alef_bet ! 9) = 9" "heb_value (alef_bet ! 10) = 10" "heb_value (alef_bet ! 11) = 20" "heb_value (alef_bet ! 12) = 30"
  "heb_value (alef_bet ! 13) = 40" "heb_value (alef_bet ! 14) = 50" "heb_value (alef_bet ! 15) = 60" "heb_value (alef_bet ! 16) = 70"
  "heb_value (alef_bet ! 17) = 80" "heb_value (alef_bet ! 18) = 90" "heb_value (alef_bet ! 19) = 100" "heb_value (alef_bet ! 20) = 200"
  "heb_value (alef_bet ! 21) = 300" "heb_value (alef_bet ! 22) = 400" "heb_value (CHR 0x27) = 0" "heb_value (CHR 0x22) = 0"
  by (simp_all add: heb_value_def alef_bet_def eval_nat_numeral)

lemma alef_bet_get: "0 \<le> i \<Longrightarrow> i < 25 \<Longrightarrow> arr_get alef_bet i = Ret (alef_bet ! nat i)"
  by (simp add: arr_get_def alef_bet_def)

lemma digit_cases: "0 \<le> k \<Longrightarrow> k \<le> 9 \<Longrightarrow> k \<in> {0, 1, 2, 3, 4, 5, 6, 7, 8, 9}" for k :: int
  using metonic_cases [of k] by auto

lemma letter_ones: "1 \<le> k \<Longrightarrow> k \<le> 9 \<Longrightarrow> heb_value (alef_bet ! nat k) = k"
  using digit_cases [of k] heb_values(1) by auto

lemma letter_tens: "1 \<le> k \<Longrightarrow> k \<le> 9 \<Longrightarrow> heb_value (alef_bet ! nat (9 + k)) = 10 * k"
  using digit_cases [of k] by auto

lemma letter_hundreds: "1 \<le> k \<Longrightarrow> k \<le> 3 \<Longrightarrow> heb_value (alef_bet ! nat (18 + k)) = 100 * k"
  using digit_cases [of k] by auto

lemma heb_tav_loop_eq:
  assumes "0 \<le> n" "n < 1000"
  obtains k where "heb_tav_loop [] n = (replicate k (alef_bet ! 22), n - 400 * int k)" "k \<le> 2" "0 \<le> n - 400 * int k" "n - 400 * int k < 400"
proof -
  consider "n < 400" | "400 \<le> n" "n < 800" | "800 \<le> n" by linarith
  then show thesis
  proof cases
    case 1
    then show ?thesis using that [of 0] assms by (simp add: heb_tav_loop.simps)
  next
    case 2
    then show ?thesis using that [of 1] by (simp add: heb_tav_loop.simps)
  next
    case 3
    then show ?thesis using that [of 2] assms by (simp add: heb_tav_loop.simps numeral_2_eq_2)
  qed
qed

lemma heb_meot_eq:
  assumes "0 \<le> n" "n < 400"
  obtains q where "heb_meot p n = Ret (p @ q, n mod 100)" "length q \<le> 1" "heb_sum q = n - n mod 100"
proof (cases "n \<ge> 100")
  case True
  then have k: "1 \<le> n div 100" "n div 100 \<le> 3" using assms by simp_all
  then have "heb_meot p n = Ret (p @ [alef_bet ! nat (18 + n div 100)], n mod 100)"
    using True by (simp add: heb_meot_def alef_bet_get)
  moreover have "100 * (n div 100) = n - n mod 100" by (simp add: minus_mod_eq_mult_div)
  ultimately show thesis using that [of "[alef_bet ! nat (18 + n div 100)]"] letter_hundreds [OF k] by simp
qed (use assms that [of "[]"] in \<open>simp add: heb_meot_def\<close>)

lemma heb_asarot_eq:
  assumes "0 \<le> n" "n < 100"
  obtains q where "heb_asarot p n = Ret (p @ q)" "length q \<le> 2" "heb_sum q = n"
proof (cases "n = 15 \<or> n = 16")
  case True
  then show thesis using that [of "[alef_bet ! 9, alef_bet ! nat (n - 9)]"]
    by (auto simp: heb_asarot_def alef_bet_get)
next
  case False
  define t u where "t = n div 10" and "u = n mod 10"
  have n: "n = 10 * t + u" "0 \<le> u" "u \<le> 9" "0 \<le> t" "t \<le> 9"
    using assms by (simp_all add: t_def u_def pos_imp_zdiv_nonneg_iff)
  define a where "a = (if t > 0 then [alef_bet ! nat (9 + t)] else [])"
  define b where "b = (if u > 0 then [alef_bet ! nat u] else [])"
  have "heb_asarot p n = run_bind (Ret (p @ a, u)) (\<lambda>(p, n). if n > 0 then run_bind (arr_get alef_bet n) (\<lambda>c. Ret (p @ [c])) else Ret p)"
  proof (cases "n \<ge> 10")
    case True
    then have "t > 0" using n by simp
    then show ?thesis using False True n unfolding heb_asarot_def t_def [symmetric] u_def [symmetric] by (simp add: alef_bet_get a_def)
  next
    case small: False
    then have "t = 0" "u = n" using n by simp_all
    then show ?thesis using False small unfolding heb_asarot_def by (simp add: a_def)
  qed
  then have "heb_asarot p n = Ret (p @ a @ b)" using n(2,3) by (auto simp: b_def alef_bet_get)
  moreover have "heb_sum (a @ b) = n" using letter_ones [of u] letter_tens [of t] n by (simp add: a_def b_def)
  moreover have "length (a @ b) \<le> 2" by (simp add: a_def b_def)
  ultimately show thesis using that [of "a @ b"] by simp
qed

lemma heb_gereshayim_eq: "length (heb_gereshayim p fl) \<le> length p + 1" "heb_sum (heb_gereshayim p fl) = heb_sum p"
proof -
  show "length (heb_gereshayim p fl) \<le> length p + 1" by (auto simp: heb_gereshayim_def)
  have "heb_sum (butlast p @ [CHR 0x22, last p]) = heb_sum p" if "p \<noteq> []"
  proof -
    have "heb_sum p = heb_sum (butlast p @ [last p])" using that by simp
    then show ?thesis by (simp only: heb_sum_simps heb_values)
  qed
  then show "heb_sum (heb_gereshayim p fl) = heb_sum p" by (auto simp: heb_gereshayim_def)
qed

lemma heb_alafim_eq:
  assumes "1 \<le> n" "n \<le> 9999"
  obtains a where "heb_alafim n fl = Ret (a, n mod 1000)" "length a \<le> 9" "if n < 1000 then a = [] else heb_value (hd a) = n div 1000"
proof (cases "n < 1000")
  case True
  then show thesis using that [of "[]"] assms by (simp add: heb_alafim_def)
next
  case False
  then have k: "1 \<le> n div 1000" "n div 1000 \<le> 9" using assms by simp_all
  show thesis
    by (rule that [of "[alef_bet ! nat (n div 1000)] @ (if 2 AND fl \<noteq> 0 then [CHR 0x27] else []) @
        (if 4 AND fl \<noteq> 0 then bytes [0x20, 0xE0, 0xEC, 0xF4, 0xE9, 0xED, 0x20] else [])"])
      (use k False letter_ones [OF k] in \<open>simp_all add: heb_alafim_def alef_bet_get\<close>)
qed

section \<open>From a day to a date and back\<close>

text \<open>The days on which a calendar is defined.\<close>

definition cal_range :: "int \<Rightarrow> int \<Rightarrow> bool" where
  "cal_range cal jd \<longleftrightarrow>
     (if cal = CAL_GREGORIAN then 1 \<le> jd \<and> jd \<le> GREGORIAN_LAST
      else if cal = CAL_JULIAN then 1 \<le> jd \<and> jd \<le> JULIAN_LAST
      else if cal = CAL_JEWISH then JEWISH_SDN_OFFSET + 1 \<le> jd \<and> jd \<le> JEWISH_SDN_MAX
      else FIRST_VALID \<le> jd \<and> jd \<le> LAST_VALID)"

definition cal_months :: "int \<Rightarrow> int \<Rightarrow> string list \<times> string list" where
  "cal_months cal year =
     (if cal = CAL_JEWISH then (JEWISH_MONTH_NAME year, JEWISH_MONTH_NAME year)
      else (month_name_short (cal_conversion_table cal), month_name_long (cal_conversion_table cal)))"

lemma names_length:
  "length DayNameShort = 7" "length DayNameLong = 7" "length MonthNameShort = 13" "length MonthNameLong = 13"
  "length (JEWISH_MONTH_NAME y) = 14" "length FrenchMonthName = 14"
  by (simp_all add: DayNameShort_def DayNameLong_def MonthNameShort_def MonthNameLong_def JEWISH_MONTH_NAME_def
      JewishMonthNameLeap_def JewishMonthName_def FrenchMonthName_def)

lemma cal_from_jd_eq:
  assumes "valid_cal cal" "from_jd (cal_conversion_table cal) jd = Ret (y, m, d)" "cal = CAL_JEWISH \<longrightarrow> y > 0"
    "0 \<le> m" "m < (if cal = CAL_JEWISH \<or> cal = CAL_FRENCH then 14 else 13)"
  defines "w \<equiv> (jd + 1) mod 7"
  shows "cal_from_jd jd cal = Ret (Inr (CAssoc
    [(''date'', CStr (date_str m d y)), (''month'', CLong m), (''day'', CLong d), (''year'', CLong y), (''dow'', CLong w),
     (''abbrevdayname'', CStr (DayNameShort ! nat w)), (''dayname'', CStr (DayNameLong ! nat w)),
     (''abbrevmonth'', CStr (fst (cal_months cal y) ! nat m)), (''monthname'', CStr (snd (cal_months cal y) ! nat m))]))"
proof -
  have w: "0 \<le> w" "w < 7" "DayOfWeek jd = w" by (simp_all add: w_def DayOfWeek_eq)
  have n: "arr_get DayNameShort w = Ret (DayNameShort ! nat w)" "arr_get DayNameLong w = Ret (DayNameLong ! nat w)"
    using w by (simp_all add: arr_get_def names_length)
  have c: "cal = CAL_GREGORIAN \<or> cal = CAL_JULIAN \<or> cal = CAL_JEWISH \<or> cal = CAL_FRENCH" using assms(1) by (simp add: valid_cal_iff)
  show ?thesis
    using assms(1-5) n c
    unfolding cal_from_jd_def Let_def w(3) by (elim disjE) (simp_all add: cal_months_def arr_get_def names_length cal_conversion_table_def)
qed

lemma cal_dates:
  assumes "valid_cal cal" "cal_range cal jd"
  obtains y m d where "from_jd (cal_conversion_table cal) jd = Ret (y, m, d)" "to_jd (cal_conversion_table cal) y m d = Ret jd"
    "cal = CAL_JEWISH \<longrightarrow> y > 0" "1 \<le> m" "m \<le> (if cal = CAL_JEWISH \<or> cal = CAL_FRENCH then 13 else 12)" "1 \<le> d" "d \<le> 31"
    "INT_MIN \<le> y" "y \<le> INT_MAX"
proof -
  consider "cal = CAL_GREGORIAN" | "cal = CAL_JULIAN" | "cal = CAL_JEWISH" | "cal = CAL_FRENCH" using assms(1) by (auto simp: valid_cal_iff)
  then show thesis
  proof cases
    case 1
    then obtain y m d where "SdnToGregorian jd = Ret (y, m, d)" "valid_date gregorian_leap (y, m, d) \<and> gregorian_range (y, m, d)"
      "GregorianToSdn y m d = Ret jd" using gregorian.from_to [of jd] assms(2) by (auto simp: cal_range_def)
    then show ?thesis using 1 that [of y m d]
      by (auto simp: cal_conversion_table_def valid_date_def gregorian_range_def month_length_def split: if_splits)
  next
    case 2
    then obtain y m d where "SdnToJulian jd = Ret (y, m, d)" "valid_date julian_leap (y, m, d) \<and> julian_range (y, m, d)"
      "JulianToSdn y m d = Ret jd" using julian.from_to [of jd] assms(2) by (auto simp: cal_range_def)
    then show ?thesis using 2 that [of y m d]
      by (auto simp: cal_conversion_table_def valid_date_def julian_range_def month_length_def split: if_splits)
  next
    case 3
    then obtain y m d where e: "SdnToJewish jd = Ret (y, m, d)" "jewish_date (y, m, d)" "JewishToSdn y m d = Ret jd"
      using jewish.from_to [of jd] assms(2) by (auto simp: cal_range_def)
    then have r: "1 \<le> y" "1 \<le> m" "m \<le> 13" "1 \<le> d" "d \<le> jewish_length y m" "jewish_number (y, m, d) \<le> JEWISH_SDN_MAX"
      by (simp_all add: jewish_date_def)
    then have "y \<le> INT_MAX" using date_in_year(1) [OF r(2-5)] new_year_index [of "y - 1"] by simp
    then show ?thesis using 3 that [of y m d] e r jewish_length_bounds [of y m] by (simp add: cal_conversion_table_def)
  next
    case 4
    then obtain y m d where "SdnToFrench jd = Ret (y, m, d)" "french_date (y, m, d)" "FrenchToSdn y m d = Ret jd"
      using french.from_to [of jd] assms(2) by (auto simp: cal_range_def)
    then show ?thesis using 4 that [of y m d]
      by (auto simp: cal_conversion_table_def french_date_def french_length_def split: if_splits)
  qed
qed

section \<open>Properties\<close>



text \<open>C17. \<open>cal_days_in_month\<close> returns the length the calendar gives the month, in each calendar: over the change of the
  year, from 1 B.C. to A.D. 1, at the end of the French calendar, and 0 for the month Adar I that a
  Jewish year does not have; other calendar numbers are an error.\<close>

theorem cal_days_in_month_correct:
  "(y \<noteq> 0 \<and> - 4713 \<le> y \<and> y \<le> 2147468899 \<and> 1 \<le> m \<and> m \<le> 12 \<longrightarrow>
      cal_days_in_month CAL_GREGORIAN m y = Ret (Inr (month_length (gregorian_leap y) m))) \<and>
    (y \<noteq> 0 \<and> - 4712 \<le> y \<and> y \<le> 2147478846 \<and> 1 \<le> m \<and> m \<le> 12 \<longrightarrow>
      cal_days_in_month CAL_JULIAN m y = Ret (Inr (month_length (julian_leap y) m))) \<and>
    (1 \<le> y \<and> y \<le> 887605 \<and> 1 \<le> m \<and> m \<le> 13 \<longrightarrow>
      cal_days_in_month CAL_JEWISH m y = Ret (Inr (jewish_length y m))) \<and>
    (1 \<le> y \<and> y \<le> 14 \<and> 1 \<le> m \<and> m \<le> 13 \<longrightarrow>
      cal_days_in_month CAL_FRENCH m y = Ret (Inr (french_length y m))) \<and>
    (cal < 0 \<or> 4 \<le> cal \<longrightarrow> cal_days_in_month cal m y = Ret (Inl ''must be a valid calendar ID''))"
  using gregorian_days [of y m] julian_days [of y m] jewish_days [of y m] french_days [of y m]
  by (auto simp: cal_days_in_month_def valid_cal_def)

theorem cal_days_in_month_correct_witness:
  "cal_days_in_month CAL_GREGORIAN 2 2000 = Ret (Inr 29) \<and> cal_days_in_month CAL_GREGORIAN 12 (- 1) = Ret (Inr 31) \<and>
    cal_days_in_month CAL_FRENCH 13 14 = Ret (Inr 5) \<and> cal_days_in_month CAL_JEWISH 8 5784 = Ret (Inr 30)"
  using cal_days_in_month_correct [of 2000 2 0] cal_days_in_month_correct [of "- 1" 12 0]
    cal_days_in_month_correct [of 14 13 0] cal_days_in_month_correct [of 5784 8 0]
  by (simp add: month_length_def gregorian_leap_def ayear_def french_length_def jewish_length_def)



text \<open>The buffer of the Hebrew numerals is large enough: every number from 1 to 9999, with any flags, gives a string
  of at most 15 characters for the 18 bytes; it begins with the letter of the thousands, and the values of
  the letters after the thousands add up to the rest of the number. Other numbers give none.\<close>

theorem heb_number_correct:
  "(1 \<le> n \<and> n \<le> 9999 \<longrightarrow>
      (\<exists>a t. heb_number_to_chars n fl = Ret (Some (a @ t)) \<and> length (a @ t) \<le> 15 \<and> heb_sum t = n mod 1000 \<and>
        (if n < 1000 then a = [] else heb_value (hd a) = n div 1000))) \<and>
    (n < 1 \<or> 9999 < n \<longrightarrow> heb_number_to_chars n fl = Ret None)"
proof (cases "1 \<le> n \<and> n \<le> 9999")
  case True
  then have n: "1 \<le> n" "n \<le> 9999" by simp_all
  obtain a where a: "heb_alafim n fl = Ret (a, n mod 1000)" "length a \<le> 9"
    "if n < 1000 then a = [] else heb_value (hd a) = n div 1000" by (rule heb_alafim_eq [OF n])
  obtain k where k: "heb_tav_loop [] (n mod 1000) = (replicate k (alef_bet ! 22), n mod 1000 - 400 * int k)" "k \<le> 2"
    "0 \<le> n mod 1000 - 400 * int k" "n mod 1000 - 400 * int k < 400"
    by (rule heb_tav_loop_eq [of "n mod 1000"]) (simp_all add: pos_mod_bound)
  define r where "r = n mod 1000 - 400 * int k"
  obtain q where q: "heb_meot (replicate k (alef_bet ! 22)) r = Ret (replicate k (alef_bet ! 22) @ q, r mod 100)" "length q \<le> 1"
    "heb_sum q = r - r mod 100" using heb_meot_eq [of r] k(3,4) unfolding r_def by metis
  obtain u where u: "heb_asarot (replicate k (alef_bet ! 22) @ q) (r mod 100) = Ret ((replicate k (alef_bet ! 22) @ q) @ u)"
    "length u \<le> 2" "heb_sum u = r mod 100"
    by (rule heb_asarot_eq [of "r mod 100" "replicate k (alef_bet ! 22) @ q"]) (simp_all add: pos_mod_bound)
  define t where "t = heb_gereshayim ((replicate k (alef_bet ! 22) @ q) @ u) fl"
  have "heb_sum (replicate k (alef_bet ! 22)) = 400 * int k" by (induction k) simp_all
  then have "heb_sum t = n mod 1000" using q(3) u(3) by (simp add: t_def heb_gereshayim_eq r_def)
  moreover have l: "length (a @ t) \<le> 15"
    using heb_gereshayim_eq(1) [of "(replicate k (alef_bet ! 22) @ q) @ u" fl] a(2) k(2) q(2) u(2) by (simp add: t_def)
  moreover have "heb_number_to_chars n fl = Ret (Some (a @ t))"
    using n a(1) k(1) q(1) u(1) l by (simp add: heb_number_to_chars_def r_def t_def Let_def)
  ultimately have "heb_number_to_chars n fl = Ret (Some (a @ t)) \<and> length (a @ t) \<le> 15 \<and> heb_sum t = n mod 1000 \<and>
      (if n < 1000 then a = [] else heb_value (hd a) = n div 1000)" using a(3) by blast
  then show ?thesis using n by (intro conjI impI exI) auto
qed (auto simp: heb_number_to_chars_def)

theorem heb_number_correct_witness:
  "\<exists>a t. heb_number_to_chars 5784 14 = Ret (Some (a @ t)) \<and> heb_sum t = 784 \<and> heb_value (hd a) = 5"
  using heb_number_correct [of 5784 14] by auto

text \<open>Days and Unix time: when the local time is UTC, so that a time is a date the whole number of days after 1 January 1970, \<open>unixtojd\<close> takes the time \<open>jdtounix\<close> gives for a day back to this
  day; \<open>jdtounix\<close> never overflows and refuses the days before 1970 and those whose time does not fit.\<close>

theorem unix_roundtrip:
  assumes utc: "\<And>t y m d. 0 \<le> t \<Longrightarrow> (next_date gregorian_leap ^^ nat (t div SECS_PER_DAY)) (1970, 1, 1) = (y, m, d) \<Longrightarrow>
      localtime t = Some (y - 1900, m - 1, d)"
  shows "(2440588 \<le> jd \<and> jd \<le> GREGORIAN_LAST \<longrightarrow> (\<exists>t. jdtounix jd = Ret (Inr t) \<and>
      unixtojd now localtime (Some t) = Ret (Inr (Some jd)))) \<and> jdtounix jd \<noteq> Undef"
proof
  show "2440588 \<le> jd \<and> jd \<le> GREGORIAN_LAST \<longrightarrow> (\<exists>t. jdtounix jd = Ret (Inr t) \<and>
      unixtojd now localtime (Some t) = Ret (Inr (Some jd)))"
  proof
    assume "2440588 \<le> jd \<and> jd \<le> GREGORIAN_LAST"
    then have jd: "2440588 \<le> jd" "jd \<le> GREGORIAN_LAST" by simp_all
    define t where "t = (jd - 2440588) * SECS_PER_DAY"
    have t: "0 \<le> t" "nat (t div SECS_PER_DAY) = nat (jd - 2440588)" using jd by (simp_all add: t_def)
    have j: "jdtounix jd = Ret (Inr t)" using jd by (simp add: jdtounix_def t_def)
    obtain y m d where e: "(next_date gregorian_leap ^^ nat (jd - 2440588)) (1970, 1, 1) = (y, m, d)"
      by (cases "(next_date gregorian_leap ^^ nat (jd - 2440588)) (1970, 1, 1)")
    have "valid_date gregorian_leap (1970, 1, 1) \<and> gregorian_range (1970, 1, 1)" "GregorianToSdn 1970 1 1 = Ret 2440588"
      by (simp_all add: valid_date_def month_length_def gregorian_range_def GregorianToSdn_def shifted_year_def)
    note p = gregorian.to_pow [OF this _ e]
    have g: "valid_date gregorian_leap (y, m, d)" "gregorian_range (y, m, d)" "GregorianToSdn y m d = Ret jd" using p jd by simp_all
    have "localtime t = Some (y - 1900, m - 1, d)" using utc [OF t(1)] t(2) e by simp
    then have "unixtojd now localtime (Some t) = Ret (Inr (Some jd))"
      using t(1) g by (auto simp: unixtojd_def valid_date_def gregorian_range_def)
    then show "\<exists>t. jdtounix jd = Ret (Inr t) \<and> unixtojd now localtime (Some t) = Ret (Inr (Some jd))" using j by blast
  qed
  show "jdtounix jd \<noteq> Undef" by (simp add: jdtounix_def)
qed

theorem unix_roundtrip_witness:
  "\<exists>t. jdtounix 2440590 = Ret (Inr t) \<and>
    unixtojd 0 (\<lambda>t. case (next_date gregorian_leap ^^ nat (t div SECS_PER_DAY)) (1970, 1, 1) of (y, m, d) \<Rightarrow> Some (y - 1900, m - 1, d))
      (Some t) = Ret (Inr (Some 2440590))"
  using unix_roundtrip [of "\<lambda>t. case (next_date gregorian_leap ^^ nat (t div SECS_PER_DAY)) (1970, 1, 1) of (y, m, d) \<Rightarrow> Some (y - 1900, m - 1, d)" 2440590 0]
  by simp

lemma easter_overflow:
  assumes "y \<in> {max_year - 1, max_year}"
  shows "easter_days now mktime (Some y) 3 = Undef"
  using assms by (auto simp: easter_days_def cal_easter_def easter_offset_def easter_dom_pfm_def easter_julian_def sdiv_nonneg
      c_long_def Let_def)

lemma december_overflow: "cal_days_in_month CAL_GREGORIAN 12 ZEND_LONG_MAX = Undef"
proof -
  have "int_of_long ZEND_LONG_MAX = - 1" "int_of_long 12 = 12" "int_of_long 1 = 1" "int_of_long 13 = 13"
    by (simp_all add: int_of_long_def)
  moreover have "GregorianToSdn (- 1) 12 1 = Ret 1721395" "GregorianToSdn (- 1) 13 1 = Ret 0"
    by (simp_all add: GregorianToSdn_def shifted_year_def)
  ultimately show ?thesis
    by (simp add: cal_days_in_month_def valid_cal_iff cal_conversion_table_def c_long_def [of 9223372036854775808] Let_def)
qed

text \<open>C40. Checks on the year that come too late or are missing. \<open>gregoriantojd\<close> and \<open>juliantojd\<close> add 4800 to an \<open>int\<close>
  year; \<open>jdtojulian\<close> adds 1 to a year that it has only tested against \<open>INT_MAX\<close>, while \<open>jdtogregorian\<close> never
  overflows; \<open>easter_days\<close> lets the two largest years it accepts overflow in the Julian calendar; and
  \<open>cal_days_in_month\<close>, which has cut the year to 32 bits for the conversion, adds 1 to the largest \<open>zend_long\<close>
  for the December of what it takes for 1 B.C.\<close>

theorem calendar_overflows:
  "(INT_MAX - 4800 < y \<and> y \<le> INT_MAX \<and> 1 \<le> m \<and> m \<le> 12 \<and> 1 \<le> d \<and> d \<le> 31 \<longrightarrow>
      gregoriantojd m d y = Undef \<and> juliantojd m d y = Undef) \<and>
    jdtojulian 784368370300 = Undef \<and> jdtogregorian n \<noteq> Undef \<and>
    (e \<in> {max_year - 1, max_year} \<longrightarrow> easter_days now mktime (Some e) 3 = Undef) \<and>
    cal_days_in_month CAL_GREGORIAN 12 ZEND_LONG_MAX = Undef"
proof -
  have "SdnToJulian 784368370300 = Undef" using calendar_overflow by blast
  moreover have "jdtogregorian n \<noteq> Undef" using SdnToGregorian_safe [of n] by (cases "SdnToGregorian n") (auto simp: jdtogregorian_def)
  moreover have "gregoriantojd m d y = Undef \<and> juliantojd m d y = Undef"
    if "INT_MAX - 4800 < y" "y \<le> INT_MAX" "1 \<le> m" "m \<le> 12" "1 \<le> d" "d \<le> 31"
    using that calendar_overflow [of y m d] by (simp add: gregoriantojd_def juliantojd_def)
  ultimately show ?thesis using easter_overflow december_overflow by (simp add: jdtojulian_def)
qed

theorem calendar_overflows_witness:
  "gregoriantojd 1 1 2147483647 = Undef \<and> easter_days None (\<lambda>y m d. 0) (Some 7378697629483820644) 3 = Undef"
  using calendar_overflows [of 2147483647 1 1 0 7378697629483820644 None "\<lambda>y m d. 0"] by simp

end
