(* ===== verification/Std_Base64.thy ===== *)
theory Std_Base64
  imports Prelude "HOL-Library.Word"
begin

text \<open>
  Base64 of \<open>ext/standard/base64.c\<close>: the portable encoder and decoder. A byte is an 8-bit word. The decoder
  writes into a buffer with an arbitrary initial content; a write outside of it is \<open>Undef\<close>. The vector
  variants for ARM, SSSE3 and AVX2 are not modelled.
\<close>

unbundle bit_operations_syntax

type_synonym octet = "8 word"

section \<open>Codecs\<close>

text \<open>What every pair of an encoder and a decoder promises: the encoder returns, and the decoder gives back the string. Two
  strings are then never encoded alike, and whatever the encoder returns is accepted.\<close>

locale codec =
  fixes enc :: "octet list \<Rightarrow> octet list run" and decode :: "octet list \<Rightarrow> octet list option run"
  assumes roundtrip: "\<exists>e. enc s = Ret e \<and> decode e = Ret (Some s)"
begin

lemma enc_inj: "enc s = enc t \<Longrightarrow> s = t"
  using roundtrip [of s] roundtrip [of t] by auto

lemma decode_enc: "enc s = Ret e \<Longrightarrow> decode e = Ret (Some s)"
  using roundtrip [of s] by auto

end

section \<open>Tables\<close>

definition base64_table :: "octet list" where
  "base64_table = map (\<lambda>c. of_char c)
     (''ABCDEFGHIJKLM'' @ ''NOPQRSTUVWXYZ'' @ ''abcdefghijklm'' @ ''nopqrstuvwxyz'' @ ''0123456789+/'') @ [0]"

abbreviation base64_pad :: octet where "base64_pad \<equiv> 61"

definition base64_reverse_table :: "int list" where
  "base64_reverse_table =
    [-2, -2, -2, -2, -2, -2, -2, -2, -2, -1, -1, -2, -2, -1, -2, -2,
     -2, -2, -2, -2, -2, -2, -2, -2, -2, -2, -2, -2, -2, -2, -2, -2,
     -1, -2, -2, -2, -2, -2, -2, -2, -2, -2, -2, 62, -2, -2, -2, 63,
     52, 53, 54, 55, 56, 57, 58, 59, 60, 61, -2, -2, -2, -2, -2, -2,
     -2,  0,  1,  2,  3,  4,  5,  6,  7,  8,  9, 10, 11, 12, 13, 14,
     15, 16, 17, 18, 19, 20, 21, 22, 23, 24, 25, -2, -2, -2, -2, -2,
     -2, 26, 27, 28, 29, 30, 31, 32, 33, 34, 35, 36, 37, 38, 39, 40,
     41, 42, 43, 44, 45, 46, 47, 48, 49, 50, 51, -2, -2, -2, -2, -2] @ replicate 128 (- 2)"

section \<open>Encoding\<close>

fun php_base64_encode_impl :: "octet list \<Rightarrow> octet list" where
  "php_base64_encode_impl (a # b # c # inp) =
     [base64_table ! unat (drop_bit 2 a), base64_table ! unat (push_bit 4 (a AND 0x03) + drop_bit 4 b),
      base64_table ! unat (push_bit 2 (b AND 0x0F) + drop_bit 6 c), base64_table ! unat (c AND 0x3F)] @
     php_base64_encode_impl inp"
| "php_base64_encode_impl [a, b] =
     [base64_table ! unat (drop_bit 2 a), base64_table ! unat (push_bit 4 (a AND 0x03) + drop_bit 4 b),
      base64_table ! unat (push_bit 2 (b AND 0x0F)), base64_pad]"
| "php_base64_encode_impl [a] =
     [base64_table ! unat (drop_bit 2 a), base64_table ! unat (push_bit 4 (a AND 0x03)), base64_pad, base64_pad]"
| "php_base64_encode_impl [] = []"

text \<open>The buffer has four bytes for every three, and one for the terminator.\<close>

definition php_base64_encode :: "octet list \<Rightarrow> octet list run" where
  "php_base64_encode str =
     (let result = php_base64_encode_impl str
      in if length result + 1 > (length str + 2) div 3 * 4 + 1 then Undef else Ret result)"

definition base64_encode :: "octet list \<Rightarrow> octet list run" where
  "base64_encode str = php_base64_encode str"

section \<open>Decoding\<close>

definition out_store :: "octet list \<Rightarrow> nat \<Rightarrow> octet \<Rightarrow> octet list run" where
  "out_store out j v = (if j < length out then Ret (out[j := v]) else Undef)"

definition or_store :: "octet list \<Rightarrow> nat \<Rightarrow> int \<Rightarrow> octet list run" where
  "or_store out j v = (if j < length out then Ret (out[j := out ! j OR word_of_int v]) else Undef)"

text \<open>One sextet, at its place in a group of four.\<close>

definition put_sextet :: "int \<Rightarrow> nat \<Rightarrow> nat \<Rightarrow> octet list \<Rightarrow> (nat \<times> octet list) run" where
  "put_sextet ch i j out =
     (if i mod 4 = 0 then run_bind (out_store out j (word_of_int (push_bit 2 ch))) (\<lambda>out. Ret (j, out))
      else if i mod 4 = 1 then
        run_bind (or_store out j (drop_bit 4 ch)) (\<lambda>out.
        run_bind (out_store out (j + 1) (word_of_int (push_bit 4 (ch AND 0x0F)))) (\<lambda>out. Ret (j + 1, out)))
      else if i mod 4 = 2 then
        run_bind (or_store out j (drop_bit 2 ch)) (\<lambda>out.
        run_bind (out_store out (j + 1) (word_of_int (push_bit 6 (ch AND 0x03)))) (\<lambda>out. Ret (j + 1, out)))
      else run_bind (or_store out j ch) (\<lambda>out. Ret (j + 1, out)))"

text \<open>The loop over the input; \<open>None\<close> is the jump to \<open>fail\<close>.\<close>

fun decode_loop :: "bool \<Rightarrow> octet list \<Rightarrow> nat \<Rightarrow> nat \<Rightarrow> nat \<Rightarrow> octet list \<Rightarrow> (nat \<times> nat \<times> nat \<times> octet list) option run" where
  "decode_loop strict [] i padding j out = Ret (Some (i, padding, j, out))"
| "decode_loop strict (c # inp) i padding j out =
     (if c = base64_pad then decode_loop strict inp i (padding + 1) j out
      else
        let ch = base64_reverse_table ! unat c in
        if \<not> strict \<and> ch < 0 then decode_loop strict inp i padding j out
        else if strict \<and> ch = - 1 then decode_loop strict inp i padding j out
        else if strict \<and> (ch = - 2 \<or> padding \<noteq> 0) then Ret None
        else run_bind (put_sextet ch i j out) (\<lambda>(j, out). decode_loop strict inp (i + 1) padding j out))"

definition php_base64_decode_impl :: "octet list \<Rightarrow> octet list \<Rightarrow> bool \<Rightarrow> octet list option run" where
  "php_base64_decode_impl inp out strict =
     run_bind (decode_loop strict inp 0 0 0 out) (\<lambda>r.
       case r of None \<Rightarrow> Ret None
       | Some (i, padding, j, out) \<Rightarrow>
           if strict \<and> i mod 4 = 1 then Ret None
           else if strict \<and> padding \<noteq> 0 \<and> (padding > 2 \<or> (i + padding) mod 4 \<noteq> 0) then Ret None
           else run_bind (out_store out j 0) (\<lambda>out. Ret (Some (take j out))))"

text \<open>\<open>buf\<close> is the content of the fresh buffer, which has a byte more than the input.\<close>

definition php_base64_decode_ex :: "octet list \<Rightarrow> octet list \<Rightarrow> bool \<Rightarrow> octet list option run" where
  "php_base64_decode_ex buf str strict = php_base64_decode_impl str buf strict"

definition base64_decode :: "octet list \<Rightarrow> octet list \<Rightarrow> bool \<Rightarrow> octet list option run" where
  "base64_decode buf str strict = php_base64_decode_ex buf str strict"

section \<open>The alphabet\<close>

lemma table_length: "length base64_table = 65" "length base64_reverse_table = 256"
  by (simp_all add: base64_table_def base64_reverse_table_def)

lemma table_bytes:
  "base64_table =
    [65, 66, 67, 68, 69, 70, 71, 72, 73, 74, 75, 76, 77, 78, 79, 80, 81, 82, 83, 84, 85, 86, 87, 88, 89, 90, 97,
     98, 99, 100, 101, 102, 103, 104, 105, 106, 107, 108, 109, 110, 111, 112, 113, 114, 115, 116, 117, 118, 119,
     120, 121, 122, 48, 49, 50, 51, 52, 53, 54, 55, 56, 57, 43, 47, 0]"
  by (simp add: base64_table_def)

lemma reverse_all: "list_all (\<lambda>k. base64_table ! k \<noteq> base64_pad \<and> base64_reverse_table ! unat (base64_table ! k) = int k) [0..<64]"
proof -
  have u: "[0..<64] =
    [0, 1, 2, 3, 4, 5, 6, 7, 8, 9, 10, 11, 12, 13, 14, 15, 16, 17, 18, 19, 20, 21, 22, 23, 24, 25, 26, 27, 28, 29,
     30, 31, 32, 33, 34, 35, 36, 37, 38, 39, 40, 41, 42, 43, 44, 45, 46, 47, 48, 49, 50, 51, 52, 53, 54, 55, 56,
     57, 58, 59, 60, 61, 62, 63]" by (simp add: upt_rec)
  show ?thesis unfolding u by (simp add: table_bytes base64_reverse_table_def)
qed

lemma reverse_table:
  assumes "x < (64 :: octet)"
  shows "base64_table ! unat x \<noteq> base64_pad" "base64_reverse_table ! unat (base64_table ! unat x) = uint x"
proof -
  have "unat x < unat (64 :: octet)" using assms by (simp only: word_less_nat_alt)
  then have "unat x \<in> set [0..<64]" by simp
  then have "base64_table ! unat x \<noteq> base64_pad \<and> base64_reverse_table ! unat (base64_table ! unat x) = int (unat x)"
    using reverse_all [unfolded list_all_iff] by (rule bspec [rotated])
  then show "base64_table ! unat x \<noteq> base64_pad" "base64_reverse_table ! unat (base64_table ! unat x) = uint x"
    unfolding uint_nat by blast+
qed

section \<open>Six bits at a time\<close>

lemma masks: "(a :: octet) AND 0x03 = take_bit 2 a" "(a :: octet) AND 0x0F = take_bit 4 a" "(a :: octet) AND 0x3F = take_bit 6 a"
  by (simp_all add: take_bit_eq_mask mask_eq_exp_minus_1)

lemma int_masks: "(k :: int) AND 0x03 = take_bit 2 k" "(k :: int) AND 0x0F = take_bit 4 k"
  by (simp_all add: take_bit_eq_mask mask_eq_exp_minus_1)

lemma join_add:
  "push_bit 4 (take_bit 2 a) + drop_bit 4 b = push_bit 4 (take_bit 2 a) OR drop_bit 4 b"
  "push_bit 2 (take_bit 4 a) + drop_bit 6 b = push_bit 2 (take_bit 4 a) OR drop_bit 6 b" for a b :: octet
proof -
  have "push_bit 4 (take_bit 2 a) AND drop_bit 4 b = 0" by (rule bit_word_eqI) (auto simp: bit_simps dest: bit_imp_le_length)
  then show "push_bit 4 (take_bit 2 a) + drop_bit 4 b = push_bit 4 (take_bit 2 a) OR drop_bit 4 b"
    by (rule disjunctive_add_eq_or)
  have "push_bit 2 (take_bit 4 a) AND drop_bit 6 b = 0" by (rule bit_word_eqI) (auto simp: bit_simps dest: bit_imp_le_length)
  then show "push_bit 2 (take_bit 4 a) + drop_bit 6 b = push_bit 2 (take_bit 4 a) OR drop_bit 6 b"
    by (rule disjunctive_add_eq_or)
qed

lemma sextet_less: "x = take_bit 6 x \<Longrightarrow> x < 64" for x :: octet
proof -
  assume "x = take_bit 6 x"
  then have "uint x = take_bit 6 (uint x)" by (metis unsigned_take_bit_eq)
  also have "\<dots> < 2 ^ 6" by (rule take_bit_int_less_exp)
  finally show ?thesis by (simp add: word_less_def)
qed

lemma sextets:
  fixes a b c :: octet
  shows "drop_bit 2 a < 64" "push_bit 4 (take_bit 2 a) OR drop_bit 4 b < 64" "push_bit 2 (take_bit 4 b) OR drop_bit 6 c < 64"
    "take_bit 6 c < 64" "push_bit 4 (take_bit 2 a) < 64" "push_bit 2 (take_bit 4 b) < 64"
  by (rule sextet_less, rule bit_word_eqI, force simp: bit_simps dest: bit_imp_le_length)+

lemma byte_eqI:
  fixes v w :: octet
  assumes "bit v 0 = bit w 0" "bit v 1 = bit w 1" "bit v 2 = bit w 2" "bit v 3 = bit w 3" "bit v 4 = bit w 4" "bit v 5 = bit w 5"
    "bit v 6 = bit w 6" "bit v 7 = bit w 7"
  shows "v = w"
proof (rule bit_word_eqI)
  fix n assume "n < LENGTH(8)"
  then have "n \<in> {0, 1, 2, 3, 4, 5, 6, 7}" by auto
  then show "bit v n = bit w n" using assms by auto
qed

lemma octets:
  fixes a b c :: octet
  defines "x1 \<equiv> drop_bit 2 a" and "x2 \<equiv> push_bit 4 (take_bit 2 a) OR drop_bit 4 b"
    and "x3 \<equiv> push_bit 2 (take_bit 4 b) OR drop_bit 6 c" and "x4 \<equiv> take_bit 6 c"
  shows "push_bit 2 x1 OR drop_bit 4 x2 = a" "push_bit 4 (take_bit 4 x2) OR drop_bit 2 x3 = b" "push_bit 6 (take_bit 2 x3) OR x4 = c"
proof -
  show "push_bit 2 x1 OR drop_bit 4 x2 = a"
    unfolding x1_def x2_def by (rule byte_eqI) (simp_all add: bit_simps)
  show "push_bit 4 (take_bit 4 x2) OR drop_bit 2 x3 = b"
    unfolding x2_def x3_def by (rule byte_eqI) (simp_all add: bit_simps)
  show "push_bit 6 (take_bit 2 x3) OR x4 = c"
    unfolding x3_def x4_def by (rule byte_eqI) (simp_all add: bit_simps)
qed

lemma int_bits:
  fixes x :: octet
  shows "word_of_int (push_bit 2 (uint x)) = push_bit 2 x" "word_of_int (drop_bit 4 (uint x)) = drop_bit 4 x"
    "word_of_int (push_bit 4 (take_bit 4 (uint x))) = push_bit 4 (take_bit 4 x)" "word_of_int (drop_bit 2 (uint x)) = drop_bit 2 x"
    "word_of_int (push_bit 6 (take_bit 2 (uint x))) = push_bit 6 (take_bit 2 x)" "word_of_int (uint x) = x"
  by (rule bit_word_eqI, auto simp: bit_simps bit_word_of_int_iff dest: bit_imp_le_length)+

section \<open>The decoder stays inside its buffer\<close>

text \<open>Where the decoder writes after \<open>i\<close> sextets.\<close>

definition jpos :: "nat \<Rightarrow> nat" where
  "jpos i = 3 * (i div 4) + (i mod 4 - 1)"

lemma jpos_0 [simp]: "jpos 0 = 0"
  by (simp add: jpos_def)

lemma jpos_le: "jpos i \<le> i"
  using mult_div_mod_eq [of 4 i] unfolding jpos_def by linarith

lemma jpos_less: "i mod 4 \<noteq> 0 \<Longrightarrow> jpos i < i"
  using mult_div_mod_eq [of 4 i] unfolding jpos_def by linarith

lemma jpos_step: "i mod 4 = 0 \<Longrightarrow> jpos (i + 1) = jpos i" "i mod 4 \<noteq> 0 \<Longrightarrow> jpos (i + 1) = jpos i + 1"
proof -
  define q r where "q = i div 4" and "r = i mod 4"
  have s: "(i + 1) mod 4 = (if r = 3 then 0 else r + 1)" "(i + 1) div 4 = (if r = 3 then q + 1 else q)"
    by (simp_all add: q_def r_def mod_Suc div_Suc)
  have "r < 4" by (simp add: r_def)
  then show "i mod 4 = 0 \<Longrightarrow> jpos (i + 1) = jpos i" "i mod 4 \<noteq> 0 \<Longrightarrow> jpos (i + 1) = jpos i + 1"
    unfolding jpos_def s q_def [symmetric] r_def [symmetric] by auto
qed

lemma put_sextet_safe:
  assumes "i < length out"
  shows "\<exists>out'. put_sextet ch i (jpos i) out = Ret (jpos (i + 1), out') \<and> length out' = length out"
proof (cases "i mod 4 = 0")
  case True
  then show ?thesis using assms jpos_le [of i] jpos_step(1) [OF True] by (simp add: put_sextet_def out_store_def)
next
  case False
  then show ?thesis using assms jpos_less [OF False] jpos_step(2) [OF False] by (simp add: put_sextet_def out_store_def or_store_def)
qed

lemma decode_loop_safe:
  assumes "i + length inp < length out"
  shows "\<exists>r. decode_loop strict inp i padding (jpos i) out = Ret r \<and> (\<not> strict \<longrightarrow> r \<noteq> None) \<and>
    (\<forall>i' p' j' out'. r = Some (i', p', j', out') \<longrightarrow> j' = jpos i' \<and> i' \<le> i + length inp \<and> length out' = length out)"
  using assms
proof (induction inp arbitrary: i padding out)
  case (Cons c inp)
  have skip: ?case if "decode_loop strict (c # inp) i padding (jpos i) out = decode_loop strict inp i p (jpos i) out" for p
    using Cons.IH [of i out p] Cons.prems that by fastforce
  obtain out' where put: "put_sextet (base64_reverse_table ! unat c) i (jpos i) out = Ret (jpos (i + 1), out')" "length out' = length out"
    using put_sextet_safe [of i out] Cons.prems by auto
  have step: ?case if "decode_loop strict (c # inp) i padding (jpos i) out = decode_loop strict inp (i + 1) padding (jpos (i + 1)) out'"
    using Cons.IH [of "i + 1" out' padding] Cons.prems put(2) that by fastforce
  consider "c = base64_pad"
    | "c \<noteq> base64_pad" "\<not> strict \<and> base64_reverse_table ! unat c < 0 \<or> strict \<and> base64_reverse_table ! unat c = - 1"
    | "c \<noteq> base64_pad" "strict" "base64_reverse_table ! unat c = - 2 \<or> padding \<noteq> 0" "base64_reverse_table ! unat c \<noteq> - 1"
    | "c \<noteq> base64_pad" "\<not> (\<not> strict \<and> base64_reverse_table ! unat c < 0)" "\<not> (strict \<and> base64_reverse_table ! unat c = - 1)"
      "\<not> (strict \<and> (base64_reverse_table ! unat c = - 2 \<or> padding \<noteq> 0))" by blast
  then show ?case
  proof cases
    case 1
    then show ?thesis by (intro skip) simp
  next
    case 2
    then show ?thesis by (intro skip) (auto simp: Let_def)
  next
    case 3
    then show ?thesis by (auto simp: Let_def)
  next
    case 4
    then show ?thesis using put(1) by (intro step) (auto simp: Let_def)
  qed
qed simp

section \<open>Decoding what was encoded\<close>

lemma sextet_step:
  fixes x :: octet
  assumes "x < 64"
  shows "decode_loop strict (base64_table ! unat x # inp) i 0 j out =
    run_bind (put_sextet (uint x) i j out) (\<lambda>(j, out). decode_loop strict inp (i + 1) 0 j out)"
proof -
  define k where "k = uint x"
  have "0 \<le> k" by (simp add: k_def)
  then show ?thesis using reverse_table [OF assms, folded k_def] unfolding k_def [symmetric] by (auto simp: Let_def)
qed

lemma put_at:
  "i mod 4 = 0 \<Longrightarrow> j < length out \<Longrightarrow> put_sextet (uint x) i j out = Ret (j, out[j := push_bit 2 x])"
  "i mod 4 = 1 \<Longrightarrow> j + 1 < length out \<Longrightarrow> put_sextet (uint x) i j out =
     Ret (j + 1, out[j := out ! j OR drop_bit 4 x, j + 1 := push_bit 4 (take_bit 4 x)])"
  "i mod 4 = 2 \<Longrightarrow> j + 1 < length out \<Longrightarrow> put_sextet (uint x) i j out =
     Ret (j + 1, out[j := out ! j OR drop_bit 2 x, j + 1 := push_bit 6 (take_bit 2 x)])"
  "i mod 4 = 3 \<Longrightarrow> j < length out \<Longrightarrow> put_sextet (uint x) i j out = Ret (j + 1, out[j := out ! j OR x])"
  by (simp_all add: put_sextet_def out_store_def or_store_def int_masks int_bits)

lemma mod4_next: "i mod 4 = 0 \<Longrightarrow> (i + 1) mod 4 = 1" "i mod 4 = 0 \<Longrightarrow> (i + 1 + 1) mod 4 = 2"
  "i mod 4 = 0 \<Longrightarrow> (i + 1 + 1 + 1) mod 4 = 3" "i mod 4 = 0 \<Longrightarrow> (i + 4) mod 4 = 0" for i :: nat
  by presburger+

text \<open>The two first sextets of a group write a byte and begin the next one.\<close>

lemma pair_step:
  fixes a b :: octet
  assumes i: "i mod 4 = 0" and j: "j + 1 < length out"
  defines "x2 \<equiv> push_bit 4 (take_bit 2 a) OR drop_bit 4 b"
  shows "decode_loop strict (base64_table ! unat (drop_bit 2 a) # base64_table ! unat x2 # inp) i 0 j out =
    decode_loop strict inp (i + 1 + 1) 0 (j + 1) (out[j := a, j + 1 := push_bit 4 (take_bit 4 x2)])"
proof -
  have x: "drop_bit 2 a < 64" "x2 < 64" using sextets(1) [of a] sextets(2) [of a b] by (simp_all add: x2_def)
  have "push_bit 2 (drop_bit 2 a) OR drop_bit 4 x2 = a" unfolding x2_def by (rule octets(1))
  then have "put_sextet (uint x2) (i + 1) j (out[j := push_bit 2 (drop_bit 2 a)]) =
      Ret (j + 1, out[j := a, j + 1 := push_bit 4 (take_bit 4 x2)])"
    using put_at(2) [OF mod4_next(1) [OF i], of j] j by simp
  moreover have "put_sextet (uint (drop_bit 2 a)) i j out = Ret (j, out[j := push_bit 2 (drop_bit 2 a)])"
    using put_at(1) [OF i, of j] j by simp
  ultimately show ?thesis by (simp only: sextet_step [OF x(1)] sextet_step [OF x(2)] run_bind.simps prod.case)
qed

lemma group_step:
  fixes a b c :: octet
  assumes i: "i mod 4 = 0" and j: "j + 2 < length out"
  shows "decode_loop strict (php_base64_encode_impl (a # b # c # inp)) i 0 j out =
    decode_loop strict (php_base64_encode_impl inp) (i + 4) 0 (j + 3) (out[j := a, j + 1 := b, j + 2 := c])"
proof -
  define x2 where "x2 = push_bit 4 (take_bit 2 a) OR drop_bit 4 b"
  define x3 where "x3 = push_bit 2 (take_bit 4 b) OR drop_bit 6 c"
  have x: "x3 < 64" "take_bit 6 c < 64" using sextets(3) [of b c] sextets(4) [of c] by (simp_all add: x3_def)
  have o: "push_bit 4 (take_bit 4 x2) OR drop_bit 2 x3 = b" "push_bit 6 (take_bit 2 x3) OR take_bit 6 c = c"
    unfolding x2_def x3_def by (rule octets(2), rule octets(3))
  have p: "put_sextet (uint x3) (i + 1 + 1) (j + 1) (out[j := a, j + 1 := push_bit 4 (take_bit 4 x2)]) =
      Ret (j + 1 + 1, out[j := a, j + 1 := b, j + 1 + 1 := push_bit 6 (take_bit 2 x3)])"
    using put_at(3) [OF mod4_next(2) [OF i], of "j + 1"] j o(1) by simp
  have p': "put_sextet (uint (take_bit 6 c)) (i + 1 + 1 + 1) (j + 1 + 1) (out[j := a, j + 1 := b, j + 1 + 1 := push_bit 6 (take_bit 2 x3)]) =
      Ret (j + 3, out[j := a, j + 1 := b, j + 2 := c])"
    using put_at(4) [OF mod4_next(3) [OF i], of "j + 1 + 1"] j o(2) by simp
  have "php_base64_encode_impl (a # b # c # inp) = base64_table ! unat (drop_bit 2 a) # base64_table ! unat x2 #
      base64_table ! unat x3 # base64_table ! unat (take_bit 6 c) # php_base64_encode_impl inp"
    by (simp add: masks join_add x2_def x3_def)
  then show ?thesis
    using pair_step [OF i, of j out strict a b, folded x2_def] j
    by (simp only: sextet_step [OF x(1)] sextet_step [OF x(2)] p p' run_bind.simps prod.case) (simp add: numeral_eq_Suc)
qed

lemma take_store3:
  assumes "j + 2 < length out"
  shows "take (j + 3) (out[j := a, j + 1 := b, j + 2 := c]) = take j out @ [a, b, c]"
  using assms by (simp add: numeral_3_eq_3 numeral_2_eq_2 take_Suc_conv_app_nth)

text \<open>The bytes come back, behind what the buffer had; the counts of sextets and paddings fit together.\<close>

lemma decode_encode:
  assumes "i mod 4 = 0" "j + length s < length out"
  shows "\<exists>i' p out'. decode_loop strict (php_base64_encode_impl s) i 0 j out = Ret (Some (i', p, j + length s, out')) \<and>
    length out' = length out \<and> take (j + length s) out' = take j out @ s \<and> i' mod 4 \<noteq> 1 \<and> p \<le> 2 \<and> (p \<noteq> 0 \<longrightarrow> (i' + p) mod 4 = 0)"
  using assms
proof (induction s arbitrary: i j out rule: php_base64_encode_impl.induct)
  case (1 a b c inp)
  have "(i + 4) mod 4 = 0" using 1(2) by simp
  moreover have "j + 3 + length inp < length (out[j := a, j + 1 := b, j + 2 := c])" using 1(3) by simp
  ultimately obtain i' p out' where r: "decode_loop strict (php_base64_encode_impl inp) (i + 4) 0 (j + 3) (out[j := a, j + 1 := b, j + 2 := c]) =
      Ret (Some (i', p, j + 3 + length inp, out'))" "length out' = length out"
    "take (j + 3 + length inp) out' = take (j + 3) (out[j := a, j + 1 := b, j + 2 := c]) @ inp"
    "i' mod 4 \<noteq> 1" "p \<le> 2" "p \<noteq> 0 \<longrightarrow> (i' + p) mod 4 = 0"
    using 1(1) [of "i + 4" "j + 3" "out[j := a, j + 1 := b, j + 2 := c]"] by auto
  have "j + 2 < length out" using 1(3) by simp
  note g = group_step [OF 1(2) this, of strict a b c inp] and t = take_store3 [OF this, of a b c]
  have l: "j + length (a # b # c # inp) = j + 3 + length inp" by simp
  show ?case unfolding g r(1) l t using r(2-6) t by simp
next
  case (2 a b)
  define x2 where "x2 = push_bit 4 (take_bit 2 a) OR drop_bit 4 b"
  define x3 where "x3 = push_bit 2 (take_bit 4 b)"
  have x: "x3 < 64" using sextets(6) [of b] by (simp add: x3_def)
  have j: "j + 1 < length out" "j + 2 < length out" using 2 by simp_all
  have o: "push_bit 4 (take_bit 4 x2) OR drop_bit 2 x3 = b" using octets(2) [of a b 0] by (simp add: x2_def x3_def)
  have p: "put_sextet (uint x3) (i + 1 + 1) (j + 1) (out[j := a, j + 1 := push_bit 4 (take_bit 4 x2)]) =
      Ret (j + 1 + 1, out[j := a, j + 1 := b, j + 1 + 1 := push_bit 6 (take_bit 2 x3)])"
    using put_at(3) [OF mod4_next(2) [OF 2(1)], of "j + 1"] j o by simp
  have e: "php_base64_encode_impl [a, b] = base64_table ! unat (drop_bit 2 a) # base64_table ! unat x2 # base64_table ! unat x3 # [base64_pad]"
    by (simp add: masks join_add x2_def x3_def)
  have "decode_loop strict (php_base64_encode_impl [a, b]) i 0 j out =
      decode_loop strict [base64_pad] (i + 1 + 1 + 1) 0 (j + 1 + 1) (out[j := a, j + 1 := b, j + 1 + 1 := push_bit 6 (take_bit 2 x3)])"
    unfolding e x2_def pair_step [OF 2(1) j(1)] unfolding x2_def [symmetric] sextet_step [OF x] p by simp
  then show ?case using j mod4_next(3) [OF 2(1)] mod4_next(4) [OF 2(1)]
    by (simp add: numeral_2_eq_2 take_Suc_conv_app_nth)
next
  case (3 a)
  define x2 where "x2 = push_bit 4 (take_bit 2 a)"
  have j: "j + 1 < length out" using 3 by simp
  have e: "php_base64_encode_impl [a] = base64_table ! unat (drop_bit 2 a) # base64_table ! unat (x2 OR drop_bit 4 0) # [base64_pad, base64_pad]"
    by (simp add: masks x2_def)
  have "decode_loop strict (php_base64_encode_impl [a]) i 0 j out =
      decode_loop strict [base64_pad, base64_pad] (i + 1 + 1) 0 (j + 1) (out[j := a, j + 1 := push_bit 4 (take_bit 4 (x2 OR drop_bit 4 0))])"
    unfolding e x2_def pair_step [OF 3(1) j] ..
  then show ?case using j mod4_next(2) [OF 3(1)] mod4_next(4) [OF 3(1)] by (simp add: take_Suc_conv_app_nth)
next
  case 4
  then show ?case by simp
qed

lemma encode_length: "length (php_base64_encode_impl s) = (length s + 2) div 3 * 4"
proof (induction s rule: php_base64_encode_impl.induct)
  case (1 a b c inp)
  have l: "length (a # b # c # inp) + 2 = (length inp + 2) + 3" by simp
  have d: "(length inp + 2 + 3) div 3 = (length inp + 2) div 3 + 1" by (rule div_add_self2) simp
  show ?case unfolding l d using 1 by simp
qed simp_all

lemma encode_longer: "length s \<le> length (php_base64_encode_impl s)"
  unfolding encode_length using mult_div_mod_eq [of 3 "length s + 2"] mod_less_divisor [of 3 "length s + 2"] by linarith

lemma base64_codec:
  "\<exists>e. base64_encode s = Ret e \<and> length e = (length s + 2) div 3 * 4 \<and>
    (\<forall>buf strict. length buf = length e + 1 \<longrightarrow> base64_decode buf e strict = Ret (Some s))"
proof -
  define e where "e = php_base64_encode_impl s"
  have l: "length e = (length s + 2) div 3 * 4" "length s \<le> length e"
    unfolding e_def by (rule encode_length, rule encode_longer)
  have "base64_decode buf e strict = Ret (Some s)" if "length buf = length e + 1" for buf strict
  proof -
    have b: "length s < length buf" using that l(2) by simp
    obtain i p out where "decode_loop strict e 0 0 0 buf = Ret (Some (i, p, length s, out))" "length out = length buf"
      "take (length s) out = s" "i mod 4 \<noteq> 1" "p \<le> 2" "p \<noteq> 0 \<longrightarrow> (i + p) mod 4 = 0"
      using decode_encode [of 0 0 s buf strict] b by (auto simp: e_def)
    then show ?thesis using that b
      by (cases "p = 0") (simp_all add: base64_decode_def php_base64_decode_ex_def php_base64_decode_impl_def out_store_def)
  qed
  then show ?thesis using l by (intro exI [of _ e]) (simp add: base64_encode_def php_base64_encode_def e_def Let_def)
qed

interpretation base64: codec base64_encode "\<lambda>e. base64_decode (replicate (length e + 1) 0) e True"
proof unfold_locales
  fix s
  obtain e where "base64_encode s = Ret e" "\<forall>buf strict. length buf = length e + 1 \<longrightarrow> base64_decode buf e strict = Ret (Some s)"
    using base64_codec [of s] by blast
  then show "\<exists>e. base64_encode s = Ret e \<and> base64_decode (replicate (length e + 1) 0) e True = Ret (Some s)" by auto
qed

section \<open>Properties\<close>

text \<open>C28. Base64 is decoded to what was encoded: the encoder fills exactly the four characters for every three bytes it
  has allocated, and the decoder returns the bytes, strict or not, whatever its buffer holds before; different
  strings are encoded differently.\<close>

theorem base64_roundtrip:
  "(\<exists>e. base64_encode s = Ret e \<and> length e = (length s + 2) div 3 * 4 \<and>
     (\<forall>buf strict. length buf = length e + 1 \<longrightarrow> base64_decode buf e strict = Ret (Some s))) \<and>
   (base64_encode s = base64_encode t \<longleftrightarrow> s = t)"
  using base64_codec [of s] base64.enc_inj by auto

theorem base64_roundtrip_witness:
  "\<exists>e. base64_encode [80, 72, 80, 33] = Ret e \<and> base64_decode (replicate 9 7) e True = Ret (Some [80, 72, 80, 33])"
  using base64_roundtrip [of "[80, 72, 80, 33]" "[]"] by auto

text \<open>C30. The decoder never writes outside of a buffer that is a byte longer than its input, for any input; without
  \<open>strict\<close> it accepts every input.\<close>

theorem base64_decode_safe:
  assumes "length buf = length str + 1"
  shows "\<exists>r. base64_decode buf str strict = Ret r \<and> (\<not> strict \<longrightarrow> r \<noteq> None) \<and> (\<forall>s. r = Some s \<longrightarrow> length s \<le> length str)"
proof -
  obtain r where r: "decode_loop strict str 0 0 0 buf = Ret r" "\<not> strict \<longrightarrow> r \<noteq> None"
    "\<forall>i' p' j' out'. r = Some (i', p', j', out') \<longrightarrow> j' = jpos i' \<and> i' \<le> length str \<and> length out' = length buf"
    using decode_loop_safe [of 0 str buf strict 0] assms by auto
  show ?thesis
  proof (cases r)
    case None
    then show ?thesis using r by (simp add: base64_decode_def php_base64_decode_ex_def php_base64_decode_impl_def)
  next
    case (Some t)
    then obtain i p j out where t: "r = Some (i, p, j, out)" by (cases t) auto
    then have "j \<le> length str" "length out = length buf" using r(3) jpos_le [of i] by auto
    then show ?thesis using r(1) t assms
      by (auto simp: base64_decode_def php_base64_decode_ex_def php_base64_decode_impl_def out_store_def)
  qed
qed

theorem base64_decode_safe_witness:
  "\<exists>r. base64_decode [0, 0, 0, 0, 0, 0] [61, 200, 65, 66, 67] False = Ret r \<and> r \<noteq> None"
  using base64_decode_safe [of "[0, 0, 0, 0, 0, 0]" "[61, 200, 65, 66, 67]" False] by auto

end
