(* ===== verification/Std_Url.thy ===== *)
theory Std_Url
  imports Std_Base64
begin

text \<open>
  URL encoding of \<open>ext/standard/url.c\<close>: the encoder with the SSE2 loop over blocks of 16 bytes and the scalar loop for
  the rest, and the two decoders. A register of 16 bytes is a list; each intrinsic is a function on lists.
  The decoders work in place and never write ahead of what they read, so they are functions on lists too.
\<close>

section \<open>SSE2 intrinsics\<close>

definition mm_set1_epi8 :: "octet \<Rightarrow> octet list" where
  "mm_set1_epi8 b = replicate 16 b"

definition mm_cmpgt_epi8 :: "octet list \<Rightarrow> octet list \<Rightarrow> octet list" where
  "mm_cmpgt_epi8 a b = map2 (\<lambda>x y. if sint x > sint y then 0xFF else 0) a b"

definition mm_cmplt_epi8 :: "octet list \<Rightarrow> octet list \<Rightarrow> octet list" where
  "mm_cmplt_epi8 a b = map2 (\<lambda>x y. if sint x < sint y then 0xFF else 0) a b"

definition mm_cmpeq_epi8 :: "octet list \<Rightarrow> octet list \<Rightarrow> octet list" where
  "mm_cmpeq_epi8 a b = map2 (\<lambda>x y. if x = y then 0xFF else 0) a b"

definition mm_and_si128 :: "octet list \<Rightarrow> octet list \<Rightarrow> octet list" where
  "mm_and_si128 a b = map2 (\<lambda>x y. x AND y) a b"

definition mm_or_si128 :: "octet list \<Rightarrow> octet list \<Rightarrow> octet list" where
  "mm_or_si128 a b = map2 (\<lambda>x y. x OR y) a b"

definition mm_add_epi8 :: "octet list \<Rightarrow> octet list \<Rightarrow> octet list" where
  "mm_add_epi8 a b = map2 (\<lambda>x y. x + y) a b"

text \<open>The highest bits of the bytes.\<close>

definition mm_movemask_epi8 :: "octet list \<Rightarrow> 32 word" where
  "mm_movemask_epi8 a = horner_sum of_bool 2 (map (\<lambda>x. bit x 7) a)"

section \<open>Encoding\<close>

definition hexchars :: "octet list" where
  "hexchars = map of_char ''0123456789ABCDEF''"

definition escape :: "octet \<Rightarrow> octet list" where
  "escape c = [37, hexchars ! unat (drop_bit 4 c), hexchars ! unat (c AND 0xF)]"

definition between :: "octet list \<Rightarrow> octet \<Rightarrow> octet \<Rightarrow> octet list" where
  "between inp lo hi = mm_and_si128 (mm_cmplt_epi8 inp (mm_set1_epi8 hi)) (mm_cmpgt_epi8 inp (mm_set1_epi8 lo))"

text \<open>One round of the loop over blocks, for the 16 bytes at \<open>from\<close>; the result is what it stores.\<close>

definition url_encode_block :: "bool \<Rightarrow> octet list \<Rightarrow> octet list" where
  "url_encode_block raw inp =
     (let mask = between inp 64 91;
          mask = mm_or_si128 mask (between inp 96 123);
          mask = mm_or_si128 mask (between inp 47 58);
          mask = mm_or_si128 mask (mm_cmpeq_epi8 inp (mm_set1_epi8 46));
          mask = mm_or_si128 mask (mm_cmpeq_epi8 inp (mm_set1_epi8 45));
          mask = mm_or_si128 mask (mm_cmpeq_epi8 inp (mm_set1_epi8 95));
          eq = mm_cmpeq_epi8 inp (mm_set1_epi8 32);
          (inp, mask) =
            (if \<not> raw \<and> mm_movemask_epi8 eq \<noteq> 0
             then (mm_add_epi8 inp (mm_and_si128 eq (mm_set1_epi8 (43 - 32))), mm_or_si128 mask eq)
             else (inp, mask));
          mask = (if raw then mm_or_si128 mask (mm_cmpeq_epi8 inp (mm_set1_epi8 126)) else mask);
          bits = mm_movemask_epi8 mask
      in if bits AND 0xFFFF = 0xFFFF then inp
         else concat (map (\<lambda>i. if bits AND push_bit i 1 \<noteq> 0 then [inp ! i] else escape (inp ! i)) [0..<16]))"

definition url_unsafe :: "bool \<Rightarrow> octet \<Rightarrow> bool" where
  "url_unsafe raw c \<longleftrightarrow> c < 48 \<and> c \<noteq> 45 \<and> c \<noteq> 46 \<or> c < 65 \<and> c > 57 \<or> c > 90 \<and> c < 97 \<and> c \<noteq> 95 \<or> c > 122 \<and> (\<not> raw \<or> c \<noteq> 126)"

primrec url_encode_loop :: "bool \<Rightarrow> octet list \<Rightarrow> octet list" where
  "url_encode_loop raw [] = []"
| "url_encode_loop raw (c # from) =
     (if \<not> raw \<and> c = 32 then [43] else if url_unsafe raw c then escape c else [c]) @ url_encode_loop raw from"

function url_encode_blocks :: "bool \<Rightarrow> octet list \<Rightarrow> octet list" where
  "url_encode_blocks raw from =
     (if 16 < length from then url_encode_block raw (take 16 from) @ url_encode_blocks raw (drop 16 from)
      else url_encode_loop raw from)"
  by pat_completeness auto

termination
  by (relation "measure (\<lambda>(raw, from). length from)") auto

declare url_encode_blocks.simps [simp del]

text \<open>The buffer has three bytes for each byte, and one for the terminator.\<close>

definition php_url_encode_impl :: "bool \<Rightarrow> octet list \<Rightarrow> octet list run" where
  "php_url_encode_impl raw s =
     (let start = url_encode_blocks raw s in if length start + 1 > 3 * length s + 1 then Undef else Ret start)"

definition php_url_encode :: "octet list \<Rightarrow> octet list run" where
  "php_url_encode s = php_url_encode_impl False s"

definition php_raw_url_encode :: "octet list \<Rightarrow> octet list run" where
  "php_raw_url_encode s = php_url_encode_impl True s"

section \<open>Decoding\<close>

text \<open>The character classes of the C library in the C locale.\<close>

definition isupper :: "octet \<Rightarrow> bool" where
  "isupper c \<longleftrightarrow> 65 \<le> c \<and> c \<le> 90"

definition tolower :: "octet \<Rightarrow> octet" where
  "tolower c = (if isupper c then c + 32 else c)"

definition isxdigit :: "octet \<Rightarrow> bool" where
  "isxdigit c \<longleftrightarrow> 48 \<le> c \<and> c \<le> 57 \<or> 65 \<le> c \<and> c \<le> 70 \<or> 97 \<le> c \<and> c \<le> 102"

definition htoi_digit :: "octet \<Rightarrow> int" where
  "htoi_digit c =
     (let c = (if isupper c then tolower c else c) in if c \<ge> 48 \<and> c \<le> 57 then uint c - 48 else uint c - 97 + 10)"

definition php_htoi :: "octet \<Rightarrow> octet \<Rightarrow> int" where
  "php_htoi s\<^sub>0 s\<^sub>1 = htoi_digit s\<^sub>0 * 16 + htoi_digit s\<^sub>1"

function php_url_decode :: "octet list \<Rightarrow> octet list" where
  "php_url_decode [] = []"
| "php_url_decode (c # data) =
     (if c = 43 then 32 # php_url_decode data
      else if c = 37 \<and> length data \<ge> 2 \<and> isxdigit (data ! 0) \<and> isxdigit (data ! 1)
      then word_of_int (php_htoi (data ! 0) (data ! 1)) # php_url_decode (drop 2 data)
      else c # php_url_decode data)"
  by pat_completeness auto

termination
  by (relation "measure length") auto

function php_raw_url_decode :: "octet list \<Rightarrow> octet list" where
  "php_raw_url_decode [] = []"
| "php_raw_url_decode (c # data) =
     (if c = 37 \<and> length data \<ge> 2 \<and> isxdigit (data ! 0) \<and> isxdigit (data ! 1)
      then word_of_int (php_htoi (data ! 0) (data ! 1)) # php_raw_url_decode (drop 2 data)
      else c # php_raw_url_decode data)"
  by pat_completeness auto

termination
  by (relation "measure length") auto

section \<open>Hexadecimal digits\<close>

lemma hexchars_bytes: "hexchars = [48, 49, 50, 51, 52, 53, 54, 55, 56, 57, 65, 66, 67, 68, 69, 70]"
  by (simp add: hexchars_def)

lemma hexchars_all: "list_all (\<lambda>k. isxdigit (hexchars ! k) \<and> htoi_digit (hexchars ! k) = int k \<and> hexchars ! k \<noteq> 43) [0..<16]"
proof -
  have u: "[0..<16] = [0, 1, 2, 3, 4, 5, 6, 7, 8, 9, 10, 11, 12, 13, 14, 15]" by (simp add: upt_rec)
  show ?thesis unfolding u by (simp add: hexchars_bytes isxdigit_def htoi_digit_def isupper_def tolower_def Let_def)
qed

lemma hexchars_digit:
  assumes "k < 16"
  shows "isxdigit (hexchars ! k)" "htoi_digit (hexchars ! k) = int k"
proof -
  have "k \<in> set [0..<16]" using assms by simp
  then show "isxdigit (hexchars ! k)" "htoi_digit (hexchars ! k) = int k"
    using hexchars_all [unfolded list_all_iff] by blast+
qed

lemma nibbles:
  fixes c :: octet
  shows "unat (drop_bit 4 c) < 16" "unat (c AND 0xF) < 16" "word_of_int (int (unat (drop_bit 4 c)) * 16 + int (unat (c AND 0xF))) = c"
proof -
  have m: "c AND 0xF = take_bit 4 c" by (simp add: take_bit_eq_mask mask_eq_exp_minus_1)
  have u: "unat (drop_bit 4 c) = unat c div 16" "unat (c AND 0xF) = unat c mod 16"
    unfolding m by (simp_all add: unsigned_drop_bit_eq unsigned_take_bit_eq drop_bit_eq_div take_bit_eq_mod take_bit_nat_eq_self unat_div unat_mod)
  have "unat c < 256" using unsigned_less [of c, where ?'a = nat] by simp
  then show "unat (drop_bit 4 c) < 16" "unat (c AND 0xF) < 16" unfolding u by simp_all
  have "int (unat c div 16 * 16 + unat c mod 16) = int (unat c)" by (simp only: div_mult_mod_eq)
  then have "int (unat c div 16) * 16 + int (unat c mod 16) = int (unat c)"
    by (simp only: of_nat_add of_nat_mult of_nat_numeral)
  then show "word_of_int (int (unat (drop_bit 4 c)) * 16 + int (unat (c AND 0xF))) = c" unfolding u by simp
qed

section \<open>The vector loop agrees with the scalar loop\<close>

text \<open>Every mask of the block is of this form, so a property of bytes describes it.\<close>

definition lanes :: "(octet \<Rightarrow> bool) \<Rightarrow> octet list \<Rightarrow> octet list" where
  "lanes f inp = map (\<lambda>x. if f x then 0xFF else 0) inp"

definition encode_byte :: "bool \<Rightarrow> octet \<Rightarrow> octet list" where
  "encode_byte raw c = (if \<not> raw \<and> c = 32 then [43] else if url_unsafe raw c then escape c else [c])"

lemma url_encode_loop_concat: "url_encode_loop raw s = concat (map (encode_byte raw) s)"
  by (induction s) (simp_all add: encode_byte_def)

lemma url_encode_loop_append: "url_encode_loop raw (s @ t) = url_encode_loop raw s @ url_encode_loop raw t"
  by (simp add: url_encode_loop_concat)

lemma map2_map: "map2 g (map f xs) (map h xs) = map (\<lambda>x. g (f x) (h x)) xs"
  by (induction xs) simp_all

lemma map2_replicate: "length xs = n \<Longrightarrow> map2 g xs (replicate n c) = map (\<lambda>x. g x c) xs"
  by (induction xs arbitrary: n) auto

lemma lanes_cong: "(\<And>x. f x = g x) \<Longrightarrow> lanes f inp = lanes g inp"
  by (simp add: lanes_def)

lemma lanes_or: "mm_or_si128 (lanes f inp) (lanes g inp) = lanes (\<lambda>x. f x \<or> g x) inp"
  by (auto simp: mm_or_si128_def lanes_def map2_map)

lemma lanes_eq: "length inp = 16 \<Longrightarrow> mm_cmpeq_epi8 inp (mm_set1_epi8 c) = lanes (\<lambda>x. x = c) inp"
  by (simp add: mm_cmpeq_epi8_def mm_set1_epi8_def map2_replicate lanes_def)

lemma lanes_between:
  "length inp = 16 \<Longrightarrow> between inp lo hi = lanes (\<lambda>x. sint x < sint hi \<and> sint lo < sint x) inp"
  by (auto simp: between_def mm_cmplt_epi8_def mm_cmpgt_epi8_def mm_and_si128_def mm_set1_epi8_def map2_replicate map2_map lanes_def)

lemma movemask_bit:
  assumes "length inp = 16"
  shows "bit (mm_movemask_epi8 (lanes f inp)) i \<longleftrightarrow> i < 16 \<and> f (inp ! i)"
proof -
  have "map (\<lambda>x. bit x 7) (lanes f inp) = map f inp" by (simp add: lanes_def bit_simps)
  then show ?thesis using assms by (auto simp: mm_movemask_epi8_def bit_horner_sum_bit_iff)
qed

lemma movemask_zero:
  assumes "length inp = 16"
  shows "mm_movemask_epi8 (lanes f inp) = 0 \<longleftrightarrow> (\<forall>x \<in> set inp. \<not> f x)"
proof -
  have "mm_movemask_epi8 (lanes f inp) = 0 \<longleftrightarrow> (\<forall>i. \<not> bit (mm_movemask_epi8 (lanes f inp)) i)"
    by (metis bit_0_eq bot_apply bot_bool_def bit_eqI)
  then show ?thesis using assms by (simp add: movemask_bit all_set_conv_all_nth)
qed

lemma bit_ffff: "bit (0xFFFF :: 32 word) i \<longleftrightarrow> i < 16"
proof -
  have m: "(0xFFFF :: 32 word) = mask 16" by (simp add: mask_eq_exp_minus_1)
  show ?thesis unfolding m bit_mask_iff by auto
qed

text \<open>The last step of the block: what the mask selects is stored, the rest is escaped.\<close>

lemma block_store:
  assumes "length inp = 16" "length v = 16"
  shows "(let bits = mm_movemask_epi8 (lanes f inp)
          in if bits AND 0xFFFF = 0xFFFF then v
             else concat (map (\<lambda>i. if bits AND push_bit i 1 \<noteq> 0 then [v ! i] else escape (v ! i)) [0..<16])) =
         concat (map (\<lambda>i. if f (inp ! i) then [v ! i] else escape (v ! i)) [0..<16])"
proof -
  define bits where "bits = mm_movemask_epi8 (lanes f inp)"
  have b: "bits AND push_bit i 1 \<noteq> 0 \<longleftrightarrow> f (inp ! i)" if "i < 16" for i
    using movemask_bit [OF assms(1), of f i] that by (simp add: bits_def bit_iff_and_push_bit_not_eq_0)
  have v: "concat (map (\<lambda>i. [v ! i]) [0..<16]) = v"
    using map_nth [of v] assms(2) by (simp add: concat_map_singleton)
  have all: "f (inp ! i)" if "bits AND 0xFFFF = 0xFFFF" "i < 16" for i
  proof -
    have "bit (bits AND 0xFFFF) i" unfolding that(1) bit_ffff by (rule that(2))
    then show ?thesis using movemask_bit [OF assms(1), of f i] by (simp add: bits_def bit_and_iff)
  qed
  have "concat (map (\<lambda>i. if f (inp ! i) then [v ! i] else escape (v ! i)) [0..<16]) = v"
    if "bits AND 0xFFFF = 0xFFFF"
  proof -
    have "map (\<lambda>i. if f (inp ! i) then [v ! i] else escape (v ! i)) [0..<16] = map (\<lambda>i. [v ! i]) [0..<16]"
      using all [OF that] by (intro map_cong) auto
    then show ?thesis using v by (simp only:)
  qed
  moreover have "map (\<lambda>i. if bits AND push_bit i 1 \<noteq> 0 then [v ! i] else escape (v ! i)) [0..<16] =
      map (\<lambda>i. if f (inp ! i) then [v ! i] else escape (v ! i)) [0..<16]" using b by simp
  ultimately show ?thesis unfolding Let_def bits_def [symmetric]
    by (cases "bits AND 0xFFFF = 0xFFFF") (simp_all only: if_True if_False simp_thms)
qed

text \<open>The comparisons of the block are signed: a byte above 127 is negative and belongs to no range.\<close>

lemma sint_byte:
  fixes c :: octet
  shows "sint c = (if uint c < 128 then uint c else uint c - 256)"
proof -
  have r: "0 \<le> uint c" "uint c < 256" using unsigned_less [of c, where ?'a = int] by simp_all
  have b: "bit (uint c) 7 \<longleftrightarrow> 128 \<le> uint c"
  proof (cases "uint c < 128")
    case True
    then have "uint c div 128 = 0" using r by simp
    then show ?thesis using True by (simp add: bit_iff_odd)
  next
    case False
    then have "uint c div 128 = 1" using r int_div_pos_eq [of "uint c" 128 1 "uint c - 128"] by simp
    then show ?thesis using False by (simp add: bit_iff_odd)
  qed
  have "sint c = take_bit 8 (uint c) - 256 * of_bool (bit (uint c) 7)"
    by (simp add: sint_uint signed_take_bit_eq_take_bit_minus)
  then show ?thesis using r b by (simp add: take_bit_int_eq_self)
qed

lemma range_byte:
  fixes x :: octet
  shows "sint x < 91 \<and> 64 < sint x \<longleftrightarrow> 64 < x \<and> x < 91" "sint x < 123 \<and> 96 < sint x \<longleftrightarrow> 96 < x \<and> x < 123"
    "sint x < 58 \<and> 47 < sint x \<longleftrightarrow> 47 < x \<and> x < 58"
  using unsigned_less [of x, where ?'a = int] by (auto simp: sint_byte word_less_def)

definition block_safe :: "bool \<Rightarrow> octet \<Rightarrow> bool" where
  "block_safe raw x \<longleftrightarrow> 64 < x \<and> x < 91 \<or> 96 < x \<and> x < 123 \<or> 47 < x \<and> x < 58 \<or> x = 46 \<or> x = 45 \<or> x = 95 \<or> raw \<and> x = 126"

lemma block_safe_unsafe: "block_safe raw x \<longleftrightarrow> \<not> url_unsafe raw x"
proof -
  have "uint x < 256" using unsigned_less [of x, where ?'a = int] by simp
  then show ?thesis unfolding block_safe_def url_unsafe_def word_less_def word_uint_eq_iff by auto
qed

lemma map2_self: "map2 g xs (map h xs) = map (\<lambda>x. g x (h x)) xs"
  by (induction xs) simp_all

lemma block_mask:
  assumes "length inp = 16"
  shows "mm_or_si128 (mm_or_si128 (mm_or_si128 (mm_or_si128 (mm_or_si128 (between inp 64 91) (between inp 96 123)) (between inp 47 58))
      (mm_cmpeq_epi8 inp (mm_set1_epi8 46))) (mm_cmpeq_epi8 inp (mm_set1_epi8 45))) (mm_cmpeq_epi8 inp (mm_set1_epi8 95)) =
    lanes (block_safe False) inp"
  unfolding lanes_between [OF assms] lanes_eq [OF assms] lanes_or
  by (rule lanes_cong) (simp add: range_byte block_safe_def)

lemma url_encode_block_loop:
  assumes l: "length inp = 16"
  shows "url_encode_block raw inp = url_encode_loop raw inp"
proof -
  define v where "v = map (\<lambda>x. if \<not> raw \<and> x = 32 then 43 else x) inp"
  define f where "f x \<longleftrightarrow> block_safe raw x \<or> \<not> raw \<and> x = 32" for x
  have e: "url_encode_loop raw inp = concat (map (\<lambda>i. if f (inp ! i) then [v ! i] else escape (v ! i)) [0..<16])"
  proof -
    have "map (encode_byte raw) inp = map (\<lambda>i. encode_byte raw (inp ! i)) [0..<16]" using l by (simp add: list_eq_iff_nth_eq)
    also have "\<dots> = map (\<lambda>i. if f (inp ! i) then [v ! i] else escape (v ! i)) [0..<16]"
      using l by (auto simp: encode_byte_def f_def v_def block_safe_unsafe)
    finally show ?thesis by (simp add: url_encode_loop_concat)
  qed
  have "url_encode_block raw inp =
      (let bits = mm_movemask_epi8 (lanes f inp)
       in if bits AND 0xFFFF = 0xFFFF then v
          else concat (map (\<lambda>i. if bits AND push_bit i 1 \<noteq> 0 then [v ! i] else escape (v ! i)) [0..<16]))"
    (is "_ = ?store v")
  proof (cases raw)
    case True
    then have "v = inp" by (simp add: v_def)
    moreover have "lanes (\<lambda>x. block_safe False x \<or> x = 126) inp = lanes f inp"
      using True by (intro lanes_cong) (auto simp: f_def block_safe_def)
    ultimately show ?thesis using True
      unfolding url_encode_block_def Let_def block_mask [OF l] unfolding lanes_eq [OF l] by (simp only: lanes_eq [OF l] lanes_or if_True if_False simp_thms prod.case)
  next
    case False
    then have f: "lanes (\<lambda>x. block_safe False x \<or> x = 32) inp = lanes f inp" by (intro lanes_cong) (auto simp: f_def)
    have a: "mm_add_epi8 inp (mm_and_si128 (lanes (\<lambda>x. x = 32) inp) (mm_set1_epi8 (43 - 32))) = v"
      using l False by (simp add: mm_add_epi8_def mm_and_si128_def mm_set1_epi8_def lanes_def map2_replicate map2_self v_def)
    show ?thesis
    proof (cases "mm_movemask_epi8 (lanes (\<lambda>x. x = 32) inp) = 0")
      case True
      then have "v = inp" "lanes (block_safe False) inp = lanes f inp"
        using False movemask_zero [OF l] by (auto simp: v_def f_def lanes_def map_idI)
      then show ?thesis using False True
        unfolding url_encode_block_def Let_def block_mask [OF l] unfolding lanes_eq [OF l]
        by (simp only: if_True if_False simp_thms prod.case)
    next
      case blank: False
      then show ?thesis using False
        unfolding url_encode_block_def Let_def block_mask [OF l] unfolding lanes_eq [OF l] a lanes_or f
        by (simp only: if_True if_False simp_thms prod.case)
    qed
  qed
  then show ?thesis using block_store [OF l, of v f] l e by (simp add: v_def)
qed

lemma url_encode_blocks_loop: "url_encode_blocks raw s = url_encode_loop raw s"
proof (induction raw s rule: url_encode_blocks.induct)
  case (1 raw inp)
  show ?case
  proof (cases "16 < length inp")
    case True
    then have "url_encode_blocks raw inp = url_encode_loop raw (take 16 inp) @ url_encode_loop raw (drop 16 inp)"
      using 1 url_encode_blocks.simps [of raw inp] by (simp add: url_encode_block_loop)
    then show ?thesis unfolding url_encode_loop_append [symmetric] by simp
  qed (simp add: url_encode_blocks.simps)
qed

lemma encode_byte_length: "length (encode_byte raw c) \<le> 3"
  by (simp add: encode_byte_def escape_def)

lemma url_encode_loop_length: "length (url_encode_loop raw s) \<le> 3 * length s"
proof (induction s)
  case (Cons c s)
  then show ?case using encode_byte_length [of raw c] by (simp add: url_encode_loop_concat)
qed simp

lemma php_url_encode_impl_loop: "php_url_encode_impl raw s = Ret (url_encode_loop raw s)"
  using url_encode_loop_length [of raw s] by (simp add: php_url_encode_impl_def url_encode_blocks_loop)

section \<open>Decoding what was encoded\<close>

lemma escape_decode:
  "php_url_decode (escape c @ rest) = c # php_url_decode rest" "php_raw_url_decode (escape c @ rest) = c # php_raw_url_decode rest"
  using nibbles(3) [of c] by (simp_all add: escape_def php_htoi_def hexchars_digit nibbles)

lemma safe_not_reserved:
  assumes "\<not> url_unsafe raw c"
  shows "c \<noteq> 43" "c \<noteq> 37" "c \<noteq> 32"
  using assms by (auto simp: url_unsafe_def)

lemma encode_byte_decode:
  "php_url_decode (encode_byte raw c @ rest) = c # php_url_decode rest"
  "php_raw_url_decode (encode_byte True c @ rest) = c # php_raw_url_decode rest"
proof -
  have "php_url_decode (encode_byte raw c @ rest) = c # php_url_decode rest" if "url_unsafe raw c"
    using that by (cases "\<not> raw \<and> c = 32") (simp_all only: encode_byte_def if_True if_False escape_decode, simp)
  moreover have "php_url_decode (encode_byte raw c @ rest) = c # php_url_decode rest" if "\<not> url_unsafe raw c"
    using that safe_not_reserved [OF that] by (simp add: encode_byte_def)
  ultimately show "php_url_decode (encode_byte raw c @ rest) = c # php_url_decode rest" by blast
  show "php_raw_url_decode (encode_byte True c @ rest) = c # php_raw_url_decode rest"
  proof (cases "url_unsafe True c")
    case True
    then show ?thesis by (simp only: encode_byte_def if_True if_False simp_thms escape_decode)
  next
    case False
    then show ?thesis using safe_not_reserved [OF False] by (simp add: encode_byte_def)
  qed
qed

lemma url_decode_encode:
  "php_url_decode (url_encode_loop raw s) = s" "php_raw_url_decode (url_encode_loop True s) = s"
  by (induction s) (simp_all add: url_encode_loop_concat encode_byte_decode)

lemma url_decode_length: "length (php_url_decode s) \<le> length s"
proof (induction s rule: php_url_decode.induct)
  case (2 c data)
  then show ?case by (cases "c = 43") (auto intro: le_SucI)
qed simp

lemma raw_url_decode_length: "length (php_raw_url_decode s) \<le> length s"
proof (induction s rule: php_raw_url_decode.induct)
  case (2 c data)
  then show ?case by (auto intro: le_SucI)
qed simp

section \<open>Properties\<close>

text \<open>The bytes that a URL may contain unescaped, as the comment above the encoder names them, and those the encoder adds.\<close>

definition url_byte :: "bool \<Rightarrow> octet \<Rightarrow> bool" where
  "url_byte raw c \<longleftrightarrow> 48 \<le> c \<and> c \<le> 57 \<or> 65 \<le> c \<and> c \<le> 90 \<or> 97 \<le> c \<and> c \<le> 122 \<or> c = 45 \<or> c = 46 \<or> c = 95 \<or>
     c = 37 \<or> (if raw then c = 126 else c = 43)"

lemma block_ranges:
  fixes x :: octet
  shows "64 < x \<and> x < 91 \<longleftrightarrow> 65 \<le> x \<and> x \<le> 90" "96 < x \<and> x < 123 \<longleftrightarrow> 97 \<le> x \<and> x \<le> 122" "47 < x \<and> x < 58 \<longleftrightarrow> 48 \<le> x \<and> x \<le> 57"
  by (auto simp: word_less_def word_le_def)

lemma url_byte_block: "url_byte raw c \<longleftrightarrow> block_safe raw c \<or> c = 37 \<or> \<not> raw \<and> c = 43"
  unfolding url_byte_def block_safe_def block_ranges by argo

lemma hexchars_url:
  assumes "k < 16"
  shows "url_byte raw (hexchars ! k)"
proof -
  have x: "isxdigit x \<Longrightarrow> 48 \<le> x \<and> x \<le> 57 \<or> 65 \<le> x \<and> x \<le> 90 \<or> 97 \<le> x \<and> x \<le> 122" for x
    by (auto simp: isxdigit_def word_le_def)
  show ?thesis using x [OF hexchars_digit(1) [OF assms]] unfolding url_byte_def by blast
qed

lemma encode_byte_url: "list_all (url_byte raw) (encode_byte raw c)"
proof (cases "url_unsafe raw c")
  case True
  have "list_all (url_byte raw) (escape c)" using url_byte_block [of raw 37] by (simp add: escape_def hexchars_url nibbles)
  then show ?thesis using True by (simp add: encode_byte_def url_byte_block)
next
  case False
  then show ?thesis by (simp add: encode_byte_def url_byte_block block_safe_unsafe)
qed

lemma url_encode_loop_url: "list_all (url_byte raw) (url_encode_loop raw s)"
  by (induction s) (simp_all add: url_encode_loop_concat encode_byte_url)


lemma url_codec:
  "\<exists>e. php_url_encode s = Ret e \<and> php_url_decode e = s"
  "\<exists>e. php_raw_url_encode s = Ret e \<and> php_raw_url_decode e = s \<and> php_url_decode e = s"
  by (simp_all add: php_url_encode_def php_raw_url_encode_def php_url_encode_impl_loop url_decode_encode)

interpretation url: codec php_url_encode "\<lambda>e. Ret (Some (php_url_decode e))"
  by unfold_locales (use url_codec(1) in auto)

interpretation raw_url: codec php_raw_url_encode "\<lambda>e. Ret (Some (php_raw_url_decode e))"
  by unfold_locales (use url_codec(2) in auto)

text \<open>C29. URL encoding is undone by the decoder of the same kind, and raw encoding by both decoders; no two strings are encoded
  alike; no decoder gives more bytes than it is given, so the work in place stays inside of the string.\<close>

theorem url_roundtrip:
  "(\<exists>e. php_url_encode s = Ret e \<and> php_url_decode e = s) \<and>
    (\<exists>e. php_raw_url_encode s = Ret e \<and> php_raw_url_decode e = s \<and> php_url_decode e = s) \<and>
    (php_url_encode s = php_url_encode t \<longleftrightarrow> s = t) \<and> (php_raw_url_encode s = php_raw_url_encode t \<longleftrightarrow> s = t) \<and>
    length (php_url_decode s) \<le> length s \<and> length (php_raw_url_decode s) \<le> length s"
  using url_codec [of s] url.enc_inj raw_url.enc_inj url_decode_length [of s] raw_url_decode_length [of s] by blast

end
