(* ===== verification/Std_Qp.thy ===== *)
theory Std_Qp
  imports Std_Url
begin

text \<open>
  Quoted-printable of \<open>ext/standard/quot_print.c\<close>: the encoder with its soft line breaks and both decoders. A list holds
  the bytes that a loop has still to read; every look ahead is guarded in the code by the count or by a test for
  the terminating NUL, which the lists do not hold. A write outside of the allocated string is \<open>Undef\<close>.
\<close>

section \<open>Encoding\<close>

definition iscntrl :: "octet \<Rightarrow> bool" where
  "iscntrl c \<longleftrightarrow> c < 32 \<or> c = 127"

text \<open>The byte after the current one, which is NUL at the end.\<close>

definition next_byte :: "octet list \<Rightarrow> octet" where
  "next_byte str = (case str of [] \<Rightarrow> 0 | d # _ \<Rightarrow> d)"

abbreviation PHP_QPRINT_MAXL :: nat where "PHP_QPRINT_MAXL \<equiv> 75"

definition qp_special :: "octet \<Rightarrow> octet list \<Rightarrow> bool" where
  "qp_special c str \<longleftrightarrow> iscntrl c \<or> c = 0x7F \<or> c AND 0x80 \<noteq> 0 \<or> c = 61 \<or> c = 32 \<and> next_byte str = 13"

text \<open>Whether a line is full before an escaped byte; it has to leave room for the bytes of a UTF-8 sequence.\<close>

definition qp_full :: "octet \<Rightarrow> nat \<Rightarrow> bool" where
  "qp_full c lp \<longleftrightarrow>
     lp > PHP_QPRINT_MAXL \<and> c \<le> 0x7F \<or> c > 0x7F \<and> c \<le> 0xDF \<and> lp + 3 > PHP_QPRINT_MAXL \<or>
     c > 0xDF \<and> c \<le> 0xEF \<and> lp + 6 > PHP_QPRINT_MAXL \<or> c > 0xEF \<and> c \<le> 0xF4 \<and> lp + 9 > PHP_QPRINT_MAXL"

function qp_encode_loop :: "nat \<Rightarrow> octet list \<Rightarrow> octet list" where
  "qp_encode_loop lp [] = []"
| "qp_encode_loop lp (c # str) =
     (if c = 13 \<and> next_byte str = 10 \<and> length str > 0 then [13, next_byte str] @ qp_encode_loop 0 (drop 1 str)
      else if qp_special c str
      then if qp_full c (lp + 3)
           then [61, 13, 10] @ [61, hexchars ! unat (drop_bit 4 c), hexchars ! unat (c AND 0xF)] @ qp_encode_loop 3 str
           else [61, hexchars ! unat (drop_bit 4 c), hexchars ! unat (c AND 0xF)] @ qp_encode_loop (lp + 3) str
      else if lp + 1 > PHP_QPRINT_MAXL then [61, 13, 10] @ [c] @ qp_encode_loop 1 str
      else [c] @ qp_encode_loop (lp + 1) str)"
  by pat_completeness auto

termination
  by (relation "measure (\<lambda>(lp, str). length str)") auto

definition php_quot_print_encode :: "octet list \<Rightarrow> octet list run" where
  "php_quot_print_encode str =
     (let ret = qp_encode_loop 0 str
      in if length ret > 3 * (length str + (3 * length str div (PHP_QPRINT_MAXL - 9) + 1)) then Undef else Ret ret)"

definition quoted_printable_encode :: "octet list \<Rightarrow> octet list run" where
  "quoted_printable_encode str = (if length str = 0 then Ret [] else php_quot_print_encode str)"

section \<open>Decoding with errors\<close>

definition hexval_tbl :: "nat list" where
  "hexval_tbl =
    [64, 64, 64, 64, 64, 64, 64, 64, 64, 32, 16, 64, 64, 16, 64, 64,
     64, 64, 64, 64, 64, 64, 64, 64, 64, 64, 64, 64, 64, 64, 64, 64,
     32, 64, 64, 64, 64, 64, 64, 64, 64, 64, 64, 64, 64, 64, 64, 64,
      0,  1,  2,  3,  4,  5,  6,  7,  8,  9, 64, 64, 64, 64, 64, 64,
     64, 10, 11, 12, 13, 14, 15, 64, 64, 64, 64, 64, 64, 64, 64, 64,
     64, 64, 64, 64, 64, 64, 64, 64, 64, 64, 64, 64, 64, 64, 64, 64,
     64, 10, 11, 12, 13, 14, 15, 64, 64, 64, 64, 64, 64, 64, 64, 64,
     64, 64, 64, 64, 64, 64, 64, 64, 64, 64, 64, 64, 64, 64, 64, 64] @ replicate 128 64"

abbreviation hexval :: "octet \<Rightarrow> nat" where "hexval c \<equiv> hexval_tbl ! unat c"

text \<open>The first loop: by how much \<open>buf_size\<close> is reduced.\<close>

fun qp_saved :: "octet list \<Rightarrow> nat" where
  "qp_saved (c # d # str) = (if c = 0 then 0 else if c = 61 then 2 + qp_saved str else qp_saved (d # str))"
| "qp_saved str = 0"

text \<open>The spaces of a soft line break; \<open>None\<close> is the error.\<close>

fun qp_skip :: "octet list \<Rightarrow> octet list option" where
  "qp_skip (c # str) =
     (if hexval c = 32
      then case str of [] \<Rightarrow> None | d # _ \<Rightarrow> if hexval d = 64 then None else qp_skip str
      else Some (c # str))"
| "qp_skip [] = None"

declare qp_skip.simps [simp del]

lemma qp_skip_length: "qp_skip str = Some str' \<Longrightarrow> length str' \<le> length str"
proof (induction str arbitrary: str')
  case (Cons c str)
  have "str' = c # str \<or> qp_skip str = Some str'"
    using Cons(2) qp_skip.simps(1) [of c str] by (cases str) (simp_all split: if_splits)
  then show ?case using Cons(1) by (auto intro: le_SucI)
qed (simp add: qp_skip.simps)

function qp_decode_loop :: "bool \<Rightarrow> nat \<Rightarrow> octet list \<Rightarrow> octet list \<Rightarrow> octet list option run" where
  "qp_decode_loop replace_us buf_size [] out = Ret (Some out)"
| "qp_decode_loop replace_us buf_size (c # p1) out =
     (if c = 0 then Ret (Some out)
      else if c = 61
      then case p1 of
             [] \<Rightarrow> Ret (Some out)
           | h # p1' \<Rightarrow>
               if h = 0 then Ret (Some out)
               else if hexval h < 16
               then case p1' of
                      [] \<Rightarrow> Ret None
                    | l # p2 \<Rightarrow>
                        if hexval l \<ge> 16 then Ret None
                        else if length out + 1 > buf_size then Undef
                        else qp_decode_loop replace_us buf_size p2 (out @ [push_bit 4 (of_nat (hexval h)) OR of_nat (hexval l)])
               else if hexval h < 64
               then case qp_skip p1 of
                      None \<Rightarrow> Ret None
                    | Some p2 \<Rightarrow>
                        qp_decode_loop replace_us buf_size
                          (if next_byte p2 = 13 \<and> length p2 \<ge> 2 \<and> p2 ! 1 = 10 then drop 2 p2 else drop 1 p2) out
               else Ret None
      else if length out + 1 > buf_size then Undef
      else qp_decode_loop replace_us buf_size p1 (out @ [if replace_us \<and> c = 95 then 32 else c]))"
  by pat_completeness auto

termination
  by (relation "measure (\<lambda>(replace_us, buf_size, p1, out). length p1)") (auto dest!: qp_skip_length)

definition php_quot_print_decode :: "octet list \<Rightarrow> bool \<Rightarrow> octet list option run" where
  "php_quot_print_decode str replace_us_by_ws =
     (if qp_saved str > length str then Undef else qp_decode_loop replace_us_by_ws (length str - qp_saved str) str [])"

section \<open>Decoding without errors\<close>

definition isdigit :: "octet \<Rightarrow> bool" where
  "isdigit c \<longleftrightarrow> 48 \<le> c \<and> c \<le> 57"

definition php_hex2int :: "octet \<Rightarrow> octet" where
  "php_hex2int c =
     (if isdigit c then c - 48 else if c \<ge> 65 \<and> c \<le> 70 then c - 65 + 10 else if c \<ge> 97 \<and> c \<le> 102 then c - 97 + 10 else - 1)"

text \<open>The bytes before the first NUL.\<close>

function qp_lines :: "octet list \<Rightarrow> octet list" where
  "qp_lines [] = []"
| "qp_lines (c # str) =
     (if c = 61
      then if length str \<ge> 2 \<and> isxdigit (str ! 0) \<and> isxdigit (str ! 1)
           then (push_bit 4 (php_hex2int (str ! 0)) + php_hex2int (str ! 1)) # qp_lines (drop 2 str)
           else let rest = dropWhile (\<lambda>c. c = 32 \<or> c = 9) str
                in if rest = [] then []
                   else if rest ! 0 = 13 \<and> length rest \<ge> 2 \<and> rest ! 1 = 10 then qp_lines (drop 2 rest)
                   else if rest ! 0 = 13 \<or> rest ! 0 = 10 then qp_lines (drop 1 rest)
                   else c # qp_lines str
      else c # qp_lines str)"
  by pat_completeness auto

termination
  by (relation "measure length") (auto simp: le_imp_less_Suc length_dropWhile_le le_SucI less_Suc_eq_le intro: le_trans [OF diff_le_self length_dropWhile_le])

definition quoted_printable_decode :: "octet list \<Rightarrow> octet list run" where
  "quoted_printable_decode str =
     (if length str = 0 then Ret []
      else let out = qp_lines (takeWhile (\<lambda>c. c \<noteq> 0) str) in if length out > length str then Undef else Ret out)"

section \<open>The encoder stays in bounds\<close>

lemma qp_full_long: "qp_full c lp \<Longrightarrow> 66 < lp"
  by (auto simp: qp_full_def)

text \<open>A line that is ended holds at least 22 bytes, and each of them takes at most three characters.\<close>

lemma qp_encode_length: "22 * length (qp_encode_loop lp str) \<le> 69 * length str + 3 * ((lp + 2) div 3)"
proof (induction lp str rule: qp_encode_loop.induct)
  case (2 lp c str)
  have d: "(lp + 3 + 2) div 3 = (lp + 2) div 3 + 1" using div_add_self2 [of 3 "lp + 2"] by (simp add: algebra_simps)
  have m: "(lp + 1 + 2) div 3 \<le> (lp + 2) div 3 + 1" unfolding d [symmetric] by (rule div_le_mono) simp
  consider (crlf) "c = 13 \<and> next_byte str = 10 \<and> length str > 0"
    | (esc) "\<not> (c = 13 \<and> next_byte str = 10 \<and> length str > 0)" "qp_special c str"
    | (lit) "\<not> (c = 13 \<and> next_byte str = 10 \<and> length str > 0)" "\<not> qp_special c str" by blast
  then show ?case
  proof cases
    case crlf
    have e: "qp_encode_loop lp (c # str) = [13, next_byte str] @ qp_encode_loop 0 (drop 1 str)" unfolding qp_encode_loop.simps if_P [OF crlf] ..
    have "22 * length (qp_encode_loop 0 (drop 1 str)) \<le> 69 * length (drop 1 str) + 3 * ((0 + 2) div 3)" using 2(1) crlf by blast
    then show ?thesis unfolding e using crlf by simp
  next
    case esc
    show ?thesis
    proof (cases "qp_full c (lp + 3)")
      case True
      have e: "length (qp_encode_loop lp (c # str)) = 6 + length (qp_encode_loop 3 str)"
        unfolding qp_encode_loop.simps if_not_P [OF esc(1)] if_P [OF esc(2)] if_P [OF True] by simp
      have "(64 + 2) div 3 \<le> (lp + 2) div 3" using qp_full_long [OF True] by (intro div_le_mono) simp
      then show ?thesis unfolding e using 2(2) [OF esc True] by simp
    next
      case False
      have e: "length (qp_encode_loop lp (c # str)) = 3 + length (qp_encode_loop (lp + 3) str)"
        unfolding qp_encode_loop.simps if_not_P [OF esc(1)] if_P [OF esc(2)] if_not_P [OF False] by simp
      show ?thesis unfolding e using 2(3) [OF esc False] d by simp
    qed
  next
    case lit
    show ?thesis
    proof (cases "lp + 1 > PHP_QPRINT_MAXL")
      case True
      have e: "length (qp_encode_loop lp (c # str)) = 4 + length (qp_encode_loop 1 str)"
        unfolding qp_encode_loop.simps if_not_P [OF lit(1)] if_not_P [OF lit(2)] if_P [OF True] by simp
      have "(64 + 2) div 3 \<le> (lp + 2) div 3" using True by (intro div_le_mono) simp
      then show ?thesis unfolding e using 2(4) [OF lit True] by simp
    next
      case False
      have e: "length (qp_encode_loop lp (c # str)) = 1 + length (qp_encode_loop (lp + 1) str)"
        unfolding qp_encode_loop.simps if_not_P [OF lit(1)] if_not_P [OF lit(2)] if_not_P [OF False] by simp
      show ?thesis unfolding e using 2(5) [OF lit False] m by simp
    qed
  qed
qed simp

lemma php_quot_print_encode_Ret: "php_quot_print_encode str = Ret (qp_encode_loop 0 str)"
proof -
  define q where "q = 3 * length str div 66"
  have "3 * length str < 66 * q + 66" unfolding q_def
    using mult_div_mod_eq [of 66 "3 * length str"] mod_less_divisor [of 66 "3 * length str"] by linarith
  then have "length (qp_encode_loop 0 str) \<le> 3 * (length str + (q + 1))" using qp_encode_length [of 0 str] by simp
  then show ?thesis by (simp add: php_quot_print_encode_def q_def)
qed

section \<open>The decoders stay in bounds\<close>

definition qp_room :: "octet list \<Rightarrow> nat" where
  "qp_room str = length str - qp_saved str"

lemma qp_saved_le: "qp_saved str \<le> length str"
  by (induction str rule: qp_saved.induct) auto

lemma qp_room_lit: "c \<noteq> 0 \<Longrightarrow> c \<noteq> 61 \<Longrightarrow> qp_room (c # str) = Suc (qp_room str)"
  using qp_saved_le [of str] by (cases str) (simp_all add: qp_room_def Suc_diff_le)

lemma qp_room_soft: "qp_room (61 # h # str) = qp_room str"
  by (simp add: qp_room_def)

lemma hexval_64: "hexval c \<noteq> 64 \<Longrightarrow> c \<noteq> 0 \<and> c \<noteq> 61"
  by (auto simp: hexval_tbl_def)

lemma qp_skip_room: "qp_skip (c # str) = Some str' \<Longrightarrow> qp_room (drop 1 str') \<le> qp_room str"
proof (induction str arbitrary: c)
  case (Cons d str)
  show ?case
  proof (cases "hexval c = 32")
    case True
    then have d: "hexval d \<noteq> 64" "qp_skip (d # str) = Some str'"
      using Cons(2) qp_skip.simps(1) [of c "d # str"] by (simp_all split: if_splits)
    then show ?thesis using Cons(1) [OF d(2)] qp_room_lit [of d str] hexval_64 [OF d(1)] by simp
  next
    case False
    then show ?thesis using Cons(2) qp_skip.simps(1) [of c "d # str"] by auto
  qed
qed (auto simp: qp_skip.simps split: if_splits)

lemma qp_decode_loop_safe:
  "length out + qp_room str \<le> buf_size \<Longrightarrow>
    \<exists>r. qp_decode_loop us buf_size str out = Ret r \<and> (case r of None \<Rightarrow> True | Some d \<Rightarrow> length d \<le> buf_size)"
proof (induction us buf_size str out rule: qp_decode_loop.induct)
  case (2 us buf_size c p1 out)
  consider "c = 0" | (lit) "c \<noteq> 0" "c \<noteq> 61" | "c = 61" "p1 = []" | (esc) h p where "c = 61" "p1 = h # p" by (cases p1) auto
  then show ?case
  proof cases
    case lit
    then show ?thesis using 2(3) [OF lit] 2(4) qp_room_lit [OF lit, of p1] by simp
  next
    case esc
    consider "h = 0" | "hexval h < 16" "h \<noteq> 0" "p = []" | (hex) l p' where "h \<noteq> 0" "hexval h < 16" "p = l # p'"
      | (soft) "h \<noteq> 0" "\<not> hexval h < 16" "hexval h < 64" | "h \<noteq> 0" "\<not> hexval h < 64" by (metis list.exhaust)
    then show ?thesis
    proof cases
      case hex
      have "c \<noteq> 0" using esc by simp
      have r: "hexval l < 16 \<Longrightarrow> qp_room (c # p1) = Suc (qp_room p')"
        unfolding esc hex qp_room_soft using hexval_64 [of l] by (intro qp_room_lit) auto
      show ?thesis
      proof (cases "hexval l \<ge> 16")
        case True
        then show ?thesis using esc hex by simp
      next
        case False
        then show ?thesis using 2(1) [OF \<open>c \<noteq> 0\<close> esc hex(1,2,3) False] r 2(4) esc hex by simp
      qed
    next
      case soft
      show ?thesis
      proof (cases "qp_skip p1")
        case None
        then show ?thesis using esc soft by simp
      next
        case (Some p2)
        have "c \<noteq> 0" using esc by simp
        define p3 where "p3 = (if next_byte p2 = 13 \<and> length p2 \<ge> 2 \<and> p2 ! 1 = 10 then drop 2 p2 else drop 1 p2)"
        have "qp_room p3 \<le> qp_room (drop 1 p2)"
        proof (cases "next_byte p2 = 13 \<and> length p2 \<ge> 2 \<and> p2 ! 1 = 10")
          case True
          then have "drop 1 p2 = 10 # drop 2 p2" using Cons_nth_drop_Suc [of 1 p2] by (simp add: numeral_2_eq_2)
          then show ?thesis using True qp_room_lit [of 10 "drop 2 p2"] by (simp add: p3_def)
        next
          case False
          then show ?thesis unfolding p3_def if_not_P [OF False] by simp
        qed
        also have "\<dots> \<le> qp_room p" using qp_skip_room [of h p p2] Some esc by simp
        finally have "length out + qp_room p3 \<le> buf_size" using 2(4) unfolding esc qp_room_soft by simp
        then show ?thesis using 2(2) [OF \<open>c \<noteq> 0\<close> esc soft Some] Some esc soft by (simp add: p3_def)
      qed
    qed (use esc 2(4) in auto)
  qed (use 2(4) in auto)
qed simp

section \<open>Decoding what was encoded\<close>

lemma hexchars_val: "k < 16 \<Longrightarrow> hexval (hexchars ! k) = k \<and> php_hex2int (hexchars ! k) = of_nat k"
proof -
  have "list_all (\<lambda>k. hexval (hexchars ! k) = k \<and> php_hex2int (hexchars ! k) = of_nat k) [0..<16]"
  proof -
    have u: "[0..<16] = [0, 1, 2, 3, 4, 5, 6, 7, 8, 9, 10, 11, 12, 13, 14, 15]" by (simp add: upt_rec)
    show ?thesis unfolding u by (simp add: hexchars_bytes hexval_tbl_def php_hex2int_def isdigit_def)
  qed
  moreover assume "k < 16"
  then have "k \<in> set [0..<16]" by simp
  ultimately show ?thesis unfolding list_all_iff by blast
qed

lemma nibbles_or: "push_bit 4 (drop_bit 4 c) OR (c AND 0xF) = c" for c :: octet
  unfolding masks by (rule byte_eqI) (simp_all add: bit_simps)

lemma nibbles_add: "push_bit 4 (drop_bit 4 c) + (c AND 0xF) = c" for c :: octet
proof -
  have "push_bit 4 (drop_bit 4 c) AND (c AND 0xF) = 0" unfolding masks by (rule byte_eqI) (simp_all add: bit_simps)
  then show ?thesis using disjunctive_add_eq_or nibbles_or by metis
qed

definition qp_escape :: "octet \<Rightarrow> octet list" where
  "qp_escape c = [61, hexchars ! unat (drop_bit 4 c), hexchars ! unat (c AND 0xF)]"

lemma hex_not_nul: "k < 16 \<Longrightarrow> hexchars ! k \<noteq> 0"
  using hexchars_val [of k] hexval_64 [of "hexchars ! k"] by auto

lemma qp_lines_escape: "qp_lines (qp_escape c @ str) = c # qp_lines str"
  using nibbles_add [of c] by (simp add: qp_escape_def hexchars_digit nibbles hexchars_val)

lemma qp_lines_soft: "qp_lines ([61, 13, 10] @ str) = qp_lines str"
  by (simp add: isxdigit_def)

lemma qp_loop_escape:
  "length out < buf_size \<Longrightarrow> qp_decode_loop False buf_size (qp_escape c @ str) out = qp_decode_loop False buf_size str (out @ [c])"
  using nibbles_or [of c] hex_not_nul [of "unat (drop_bit 4 c)"] nibbles(1,2) [of c]
  by (simp add: qp_escape_def hexchars_val not_le [symmetric])

lemma qp_loop_soft: "qp_decode_loop False buf_size ([61, 13, 10] @ str) out = qp_decode_loop False buf_size str out"
proof -
  have "hexval 13 = 16" "hexval 13 \<noteq> 32" by (simp_all add: hexval_tbl_def)
  then show ?thesis by (simp add: qp_skip.simps next_byte_def)
qed

lemma qp_loop_lit:
  "c \<noteq> 0 \<Longrightarrow> c \<noteq> 61 \<Longrightarrow> length out < buf_size \<Longrightarrow>
    qp_decode_loop False buf_size (c # str) out = qp_decode_loop False buf_size str (out @ [c])"
  by simp

text \<open>The encoded text is a sequence of escapes, soft line breaks and other bytes that are neither NUL nor an equals sign.\<close>

inductive qp_encoded :: "octet list \<Rightarrow> octet list \<Rightarrow> bool" where
  qp_end: "qp_encoded [] []"
| qp_esc: "qp_encoded str e \<Longrightarrow> qp_encoded (c # str) (qp_escape c @ e)"
| qp_brk: "qp_encoded str e \<Longrightarrow> qp_encoded str ([61, 13, 10] @ e)"
| qp_lit: "qp_encoded str e \<Longrightarrow> c \<noteq> 0 \<Longrightarrow> c \<noteq> 61 \<Longrightarrow> qp_encoded (c # str) (c # e)"

lemma qp_encode_encoded: "qp_encoded str (qp_encode_loop lp str)"
proof (induction lp str rule: qp_encode_loop.induct)
  case (2 lp c str)
  consider (crlf) "c = 13 \<and> next_byte str = 10 \<and> length str > 0"
    | (esc) "\<not> (c = 13 \<and> next_byte str = 10 \<and> length str > 0)" "qp_special c str"
    | (lit) "\<not> (c = 13 \<and> next_byte str = 10 \<and> length str > 0)" "\<not> qp_special c str" by blast
  then show ?case
  proof cases
    case crlf
    then have s: "str = 10 # drop 1 str" by (cases str) (simp_all add: next_byte_def)
    have "qp_encoded (13 # 10 # drop 1 str) (13 # 10 # qp_encode_loop 0 (drop 1 str))" using 2(1) [OF crlf] by (intro qp_lit) simp_all
    then have "qp_encoded (13 # str) (13 # 10 # qp_encode_loop 0 (drop 1 str))" using s by simp
    then show ?thesis unfolding qp_encode_loop.simps if_P [OF crlf] using crlf by simp
  next
    case esc
    show ?thesis unfolding qp_encode_loop.simps if_not_P [OF esc(1)] if_P [OF esc(2)] qp_escape_def [symmetric]
      using 2(2) [OF esc] 2(3) [OF esc] qp_brk [OF qp_esc] qp_esc by (cases "qp_full c (lp + 3)") auto
  next
    case lit
    then have "c \<noteq> 0" "c \<noteq> 61" by (auto simp: qp_special_def iscntrl_def)
    then show ?thesis unfolding qp_encode_loop.simps if_not_P [OF lit(1)] if_not_P [OF lit(2)]
      using 2(4) [OF lit] 2(5) [OF lit] qp_brk [OF qp_lit] qp_lit by (cases "lp + 1 > PHP_QPRINT_MAXL") auto
  qed
qed (simp add: qp_end)

lemma qp_encoded_lines: "qp_encoded str e \<Longrightarrow> qp_lines e = str \<and> 0 \<notin> set e \<and> length str \<le> length e"
proof (induction rule: qp_encoded.induct)
  case (qp_esc str e c)
  have "0 \<notin> set (qp_escape c)" using hex_not_nul [of "unat (drop_bit 4 c)"] hex_not_nul [of "unat (c AND 0xF)"] nibbles [of c]
    by (simp add: qp_escape_def)
  then show ?case using qp_esc qp_lines_escape [of c e] by (simp add: qp_escape_def)
next
  case (qp_brk str e)
  then show ?case using qp_lines_soft [of e] by simp
qed simp_all

lemma qp_encoded_loop:
  "qp_encoded str e \<Longrightarrow> length out + length str \<le> buf_size \<Longrightarrow> qp_decode_loop False buf_size e out = Ret (Some (out @ str))"
proof (induction arbitrary: out rule: qp_encoded.induct)
  case (qp_esc str e c)
  then show ?case using qp_loop_escape [of out buf_size c e] by simp
next
  case (qp_brk str e)
  then show ?case using qp_loop_soft [of buf_size e out] by simp
next
  case (qp_lit str e c)
  then show ?case using qp_loop_lit [of c out buf_size e] by simp
qed simp

lemma qp_encoded_room: "qp_encoded str e \<Longrightarrow> length str \<le> qp_room e"
proof (induction rule: qp_encoded.induct)
  case (qp_esc str e c)
  have "hexchars ! unat (c AND 0xF) \<noteq> 0" "hexchars ! unat (c AND 0xF) \<noteq> 61"
    using hexchars_val [of "unat (c AND 0xF)"] nibbles(2) [of c] hexval_64 [of "hexchars ! unat (c AND 0xF)"] by auto
  then show ?case using qp_esc by (simp add: qp_escape_def qp_room_soft qp_room_lit)
qed (simp_all add: qp_room_soft qp_room_lit)

section \<open>Line lengths\<close>

text \<open>No line of the text is longer than 76 characters, when \<open>k\<close> characters stand before it on the line.\<close>

fun short_lines :: "nat \<Rightarrow> octet list \<Rightarrow> bool" where
  "short_lines k [] = (k \<le> 76)"
| "short_lines k (c # e) = (if c = 13 \<and> next_byte e = 10 then k \<le> 76 \<and> short_lines 0 (drop 1 e) else short_lines (k + 1) e)"

lemma short_lines_soft: "short_lines k ([61, 13, 10] @ e) \<longleftrightarrow> k + 1 \<le> 76 \<and> short_lines 0 e"
  by (simp add: next_byte_def)

lemma short_lines_lit: "c \<noteq> 13 \<Longrightarrow> short_lines k (c # e) \<longleftrightarrow> short_lines (k + 1) e"
  by simp

lemma short_lines_escape: "short_lines k (qp_escape c @ e) \<longleftrightarrow> short_lines (k + 3) e"
proof -
  have "hexval 13 = 16" by (simp add: hexval_tbl_def)
  then have "hexchars ! n \<noteq> 13" if "n < 16" for n using hexchars_val [OF that] that by (metis less_irrefl)
  from this [OF nibbles(1)] this [OF nibbles(2)] show ?thesis by (simp add: qp_escape_def numeral_3_eq_3)
qed

lemma qp_encode_short:
  "lp \<le> 75 \<Longrightarrow> list_all (\<lambda>c. c \<le> 0xF4) str \<Longrightarrow> short_lines lp (qp_encode_loop lp str)"
proof (induction lp str rule: qp_encode_loop.induct)
  case (2 lp c str)
  have str: "list_all (\<lambda>c. c \<le> 0xF4) str" "c \<le> 0xF4" using 2(7) by simp_all
  consider (crlf) "c = 13 \<and> next_byte str = 10 \<and> length str > 0"
    | (esc) "\<not> (c = 13 \<and> next_byte str = 10 \<and> length str > 0)" "qp_special c str"
    | (lit) "\<not> (c = 13 \<and> next_byte str = 10 \<and> length str > 0)" "\<not> qp_special c str" by blast
  then show ?case
  proof cases
    case crlf
    have "list_all (\<lambda>c. c \<le> 0xF4) (drop 1 str)" using str by (cases str) simp_all
    then show ?thesis unfolding qp_encode_loop.simps if_P [OF crlf] using 2(1) [OF crlf] 2(6) crlf by (simp add: next_byte_def)
  next
    case esc
    show ?thesis
    proof (cases "qp_full c (lp + 3)")
      case True
      then show ?thesis unfolding qp_encode_loop.simps if_not_P [OF esc(1)] if_P [OF esc(2)] if_P [OF True] qp_escape_def [symmetric]
        using 2(2) [OF esc True] str 2(6) by (simp only: short_lines_soft short_lines_escape) simp
    next
      case False
      then have "lp + 3 \<le> 75" using str(2) by (auto simp: qp_full_def not_le not_less)
      then show ?thesis unfolding qp_encode_loop.simps if_not_P [OF esc(1)] if_P [OF esc(2)] if_not_P [OF False] qp_escape_def [symmetric]
        using 2(3) [OF esc False] str by (simp only: short_lines_escape)
    qed
  next
    case lit
    then have c: "c \<noteq> 13" by (auto simp: qp_special_def iscntrl_def)
    show ?thesis
    proof (cases "lp + 1 > PHP_QPRINT_MAXL")
      case True
      have "short_lines 1 (qp_encode_loop 1 str)" using 2(4) [OF lit True] str by simp
      then show ?thesis unfolding qp_encode_loop.simps if_not_P [OF lit(1)] if_not_P [OF lit(2)] if_P [OF True] short_lines_soft
        using 2(6) c by simp
    next
      case False
      then show ?thesis unfolding qp_encode_loop.simps if_not_P [OF lit(1)] if_not_P [OF lit(2)] if_not_P [OF False]
        using 2(5) [OF lit False] str c by simp
    qed
  qed
qed simp

lemma qp_encode_ff: "qp_encode_loop lp (replicate n 0xFF) = concat (replicate n [61, 70, 70])"
proof (induction n arbitrary: lp)
  case (Suc n)
  have "qp_special 0xFF str" "\<not> qp_full 0xFF lp" for str lp by (simp_all add: qp_special_def qp_full_def)
  then show ?case using Suc by (simp add: hexchars_bytes)
qed simp

lemma qp_codec:
  "\<exists>e. quoted_printable_encode s = Ret e \<and> quoted_printable_decode e = Ret s \<and> php_quot_print_decode e False = Ret (Some s)"
proof -
  define e where "e = qp_encode_loop 0 s"
  have e: "qp_encoded s e" unfolding e_def by (rule qp_encode_encoded)
  have "quoted_printable_encode s = Ret e"
    by (simp add: quoted_printable_encode_def php_quot_print_encode_Ret e_def)
  moreover have t: "takeWhile (\<lambda>c. c \<noteq> 0) e = e" using qp_encoded_lines [OF e] by (metis (mono_tags) takeWhile_eq_all_conv)
  have "quoted_printable_decode e = Ret s"
    unfolding quoted_printable_decode_def t Let_def using qp_encoded_lines [OF e] by auto
  moreover have "php_quot_print_decode e False = Ret (Some s)"
    using qp_encoded_loop [OF e, of "[]" "length e - qp_saved e"] qp_encoded_room [OF e] qp_saved_le [of e]
    by (simp add: php_quot_print_decode_def qp_room_def)
  ultimately show ?thesis by blast
qed

interpretation qp: codec quoted_printable_encode "\<lambda>e. php_quot_print_decode e False"
  by unfold_locales (use qp_codec in blast)

section \<open>Properties\<close>

text \<open>C23. Quoted-printable text is decoded to what was encoded, by both decoders, and no two strings are encoded
  alike; the encoder stays inside of the string it has
  allocated, whose size allows one soft line break for 22 bytes.\<close>

theorem quoted_printable_roundtrip:
  "(\<exists>e. quoted_printable_encode s = Ret e \<and> quoted_printable_decode e = Ret s \<and> php_quot_print_decode e False = Ret (Some s)) \<and>
   (quoted_printable_encode s = quoted_printable_encode t \<longleftrightarrow> s = t)"
  using qp_codec [of s] qp.enc_inj by auto

text \<open>C25. For any input the decoder with errors stays inside of the string whose size its first loop computes, and ends with
  a string or with an error.\<close>

theorem quot_print_decode_safe:
  "\<exists>r. php_quot_print_decode str replace_us_by_ws = Ret r \<and> (case r of None \<Rightarrow> True | Some d \<Rightarrow> length d \<le> length str - qp_saved str)"
  using qp_decode_loop_safe [of "[]" str "length str - qp_saved str" replace_us_by_ws] qp_saved_le [of str]
  by (simp add: php_quot_print_decode_def qp_room_def)

text \<open>C26. The lines of the encoded text are at most 76 characters long, as RFC 2045 demands, for a string whose bytes are at
  most \<open>0xF4\<close>, the largest that occurs in UTF-8.\<close>

theorem quoted_printable_lines:
  assumes "list_all (\<lambda>c. c \<le> 0xF4) s"
  shows "\<exists>e. quoted_printable_encode s = Ret e \<and> short_lines 0 e"
  using qp_encode_short [of 0 s] assms by (simp add: quoted_printable_encode_def php_quot_print_encode_Ret)

theorem quoted_printable_lines_witness: "\<exists>e. quoted_printable_encode (replicate 30 0xE2) = Ret e \<and> short_lines 0 e"
  using quoted_printable_lines [of "replicate 30 0xE2"] by (simp add: list_all_iff)


end
