(* ===== verification/Std_Uu.thy ===== *)
theory Std_Uu
  imports Std_Base64
begin

text \<open>
  The encoding of \<open>ext/standard/uuencode.c\<close>. The encoder walks over the string and its terminating NUL as a list; the
  decoder works with positions, since it may step over the end of its input. A read behind the
  terminator and a write outside of the allocated string are \<open>Undef\<close>.
\<close>

section \<open>Encoding\<close>

definition PHP_UU_ENC :: "octet \<Rightarrow> octet" where
  "PHP_UU_ENC c = (if c \<noteq> 0 then (c AND 0x3F) + 32 else 96)"

definition PHP_UU_ENC_C2 :: "octet \<Rightarrow> octet \<Rightarrow> octet" where
  "PHP_UU_ENC_C2 c\<^sub>0 c\<^sub>1 = PHP_UU_ENC ((push_bit 4 c\<^sub>0 AND 0x30) OR (drop_bit 4 c\<^sub>1 AND 0x0F))"

definition PHP_UU_ENC_C3 :: "octet \<Rightarrow> octet \<Rightarrow> octet" where
  "PHP_UU_ENC_C3 c\<^sub>1 c\<^sub>2 = PHP_UU_ENC ((push_bit 2 c\<^sub>1 AND 0x3C) OR (drop_bit 6 c\<^sub>2 AND 0x03))"

text \<open>The inner loop for \<open>n\<close> bytes; the result is what it writes and where it stops.\<close>

fun uuencode_groups :: "nat \<Rightarrow> octet list \<Rightarrow> (octet list \<times> octet list) run" where
  "uuencode_groups 0 s = Ret ([], s)"
| "uuencode_groups (Suc n) (a # b # c # s) =
     (case uuencode_groups (n - 2) s of
        Ret (p, s) \<Rightarrow> Ret ([PHP_UU_ENC (drop_bit 2 a), PHP_UU_ENC_C2 a b, PHP_UU_ENC_C3 b c, PHP_UU_ENC (c AND 0x3F)] @ p, s)
      | Fatal e \<Rightarrow> Fatal e
      | Undef \<Rightarrow> Undef)"
| "uuencode_groups (Suc n) s = Undef"

lemma uuencode_groups_less: "uuencode_groups n s = Ret (p, s') \<Longrightarrow> length s' \<le> length s \<and> (0 < n \<longrightarrow> length s' < length s)"
  by (induction n s arbitrary: p s' rule: uuencode_groups.induct) (fastforce split: run.splits)+

text \<open>The loop over lines: \<open>s\<close> is what is left of the string, with its terminator. A line of no bytes would be repeated
  forever.\<close>

function uuencode_lines :: "octet list \<Rightarrow> nat \<Rightarrow> (octet list \<times> octet list \<times> nat) run" where
  "uuencode_lines s len =
     (let rest = length s - 1
      in if 3 < rest
         then let (ee, len) = (if rest < len then (if rest mod 3 \<noteq> 0 then rest div 3 * 3 else rest, rest) else (len, len))
              in if ee = 0 then Undef
                 else case uuencode_groups ee s of
                   Ret (p, s) \<Rightarrow>
                     (case uuencode_lines s len of
                        Ret (q, s, len') \<Rightarrow> Ret (PHP_UU_ENC (of_nat len) # p @ (if len = 45 then [10] else []) @ q, s, len')
                      | Fatal e \<Rightarrow> Fatal e
                      | Undef \<Rightarrow> Undef)
                 | Fatal e \<Rightarrow> Fatal e
                 | Undef \<Rightarrow> Undef
         else Ret ([], s, len))"
  by pat_completeness auto

termination
  by (relation "measure (\<lambda>(s, len). length s)") (auto dest: uuencode_groups_less split: if_splits)

declare uuencode_lines.simps [simp del]

definition php_uuencode :: "octet list \<Rightarrow> octet list run" where
  "php_uuencode src =
     (case uuencode_lines (src @ [0]) 45 of
        Ret (p, s, len) \<Rightarrow>
          (let rest = length s - 1;
               (q, len) =
                 (if 0 < rest
                  then ((if len = 45 then [PHP_UU_ENC (of_nat rest)] else []) @
                        [PHP_UU_ENC (drop_bit 2 (s ! 0)), PHP_UU_ENC_C2 (s ! 0) (s ! 1),
                         (if rest > 1 then PHP_UU_ENC_C3 (s ! 1) (s ! 2) else PHP_UU_ENC 0),
                         (if rest > 2 then PHP_UU_ENC (s ! 2 AND 0x3F) else PHP_UU_ENC 0)],
                        if len = 45 then 0 else len)
                  else ([], len));
               dest = p @ q @ (if len < 45 then [10] else []) @ [PHP_UU_ENC 0, 10]
           in if length dest > length src div 2 * 3 + 46 then Undef else Ret dest)
      | Fatal e \<Rightarrow> Fatal e
      | Undef \<Rightarrow> Undef)"

section \<open>Decoding\<close>

definition PHP_UU_DEC :: "octet \<Rightarrow> octet" where
  "PHP_UU_DEC c = (c - 32) AND 0x3F"

definition uu_at :: "octet list \<Rightarrow> nat \<Rightarrow> octet run" where
  "uu_at src i = (if i < length src then Ret (src ! i) else if i = length src then Ret 0 else Undef)"

text \<open>The bytes that the four characters \<open>c\<^sub>0\<close> to \<open>c\<^sub>3\<close> stand for.\<close>

definition uu_bytes :: "octet \<Rightarrow> octet \<Rightarrow> octet \<Rightarrow> octet \<Rightarrow> octet list" where
  "uu_bytes c\<^sub>0 c\<^sub>1 c\<^sub>2 c\<^sub>3 =
     [push_bit 2 (PHP_UU_DEC c\<^sub>0) OR drop_bit 4 (PHP_UU_DEC c\<^sub>1), push_bit 4 (PHP_UU_DEC c\<^sub>1) OR drop_bit 2 (PHP_UU_DEC c\<^sub>2),
      push_bit 6 (PHP_UU_DEC c\<^sub>2) OR PHP_UU_DEC c\<^sub>3]"

text \<open>\<open>cap\<close> is the length the string \<open>dest\<close> is allocated with, \<open>out\<close> what has been written to it.\<close>

function uudecode_groups :: "nat \<Rightarrow> octet list \<Rightarrow> nat \<Rightarrow> nat \<Rightarrow> octet list \<Rightarrow> (nat \<times> octet list) option run" where
  "uudecode_groups cap src s ee out =
     (if s < ee
      then if s + 4 > length src then Ret None
           else if length out + 3 > cap + 1 then Undef
           else uudecode_groups cap src (s + 4) ee (out @ uu_bytes (src ! s) (src ! (s + 1)) (src ! (s + 2)) (src ! (s + 3)))
      else Ret (Some (s, out)))"
  by pat_completeness auto

termination
  by (relation "measure (\<lambda>(cap, src, s, ee, out). ee - s)") auto

declare uudecode_groups.simps [simp del]

lemma uudecode_groups_mono: "uudecode_groups cap src s ee out = Ret (Some (s', out')) \<Longrightarrow> s \<le> s'"
proof (induction cap src s ee out rule: uudecode_groups.induct)
  case (1 cap src s ee out)
  then show ?case using uudecode_groups.simps [of cap src s ee out] by (auto split: if_splits)
qed

text \<open>\<open>floor(len * 1.33)\<close> is computed with a \<open>double\<close>; \<open>len\<close> is at most 63, so the product is never near an integer from below.\<close>

function uudecode_lines :: "nat \<Rightarrow> octet list \<Rightarrow> nat \<Rightarrow> nat \<Rightarrow> octet list \<Rightarrow> (nat \<times> nat \<times> octet list) option run" where
  "uudecode_lines cap src s total_len out =
     (if s < length src
      then let len = unat (PHP_UU_DEC (src ! s))
           in if len = 0 then Ret (Some (s + 1, total_len, out))
              else if len > length src then Ret None
              else let ee = s + 1 + (if len = 45 then 60 else len * 133 div 100)
                   in if ee > length src then Ret None
                      else case uudecode_groups cap src (s + 1) ee out of
                             Ret None \<Rightarrow> Ret None
                           | Ret (Some (s', out)) \<Rightarrow>
                               if len < 45 then Ret (Some (s', total_len + len, out))
                               else uudecode_lines cap src (s' + 1) (total_len + len) out
                           | Fatal e \<Rightarrow> Fatal e
                           | Undef \<Rightarrow> Undef
      else Ret (Some (s, total_len, out)))"
  by pat_completeness auto

termination
proof (relation "measure (\<lambda>(cap, src, s, total_len, out). length src + 1 - s)", goal_cases)
  case (2 cap src s total_len out len ee r x s' out')
  then show ?case using uudecode_groups_mono [of cap src "s + 1" ee out s' out'] by simp
qed simp

declare uudecode_lines.simps [simp del]

text \<open>The bytes written after the loop when it has written less than the lines announce.\<close>

definition uudecode_rest :: "nat \<Rightarrow> octet list \<Rightarrow> nat \<Rightarrow> nat \<Rightarrow> octet list \<Rightarrow> octet list run" where
  "uudecode_rest cap src s len out =
     run_bind (uu_at src s) (\<lambda>c\<^sub>0. run_bind (uu_at src (s + 1)) (\<lambda>c\<^sub>1.
     let out = out @ [uu_bytes c\<^sub>0 c\<^sub>1 0 0 ! 0]
     in if length out > cap + 1 then Undef
        else if len > 1
        then run_bind (uu_at src (s + 2)) (\<lambda>c\<^sub>2.
             let out = out @ [uu_bytes c\<^sub>0 c\<^sub>1 c\<^sub>2 0 ! 1]
             in if length out > cap + 1 then Undef
                else if len > 2
                then run_bind (uu_at src (s + 3)) (\<lambda>c\<^sub>3.
                     let out = out @ [uu_bytes c\<^sub>0 c\<^sub>1 c\<^sub>2 c\<^sub>3 ! 2] in if length out > cap + 1 then Undef else Ret out)
                else Ret out)
        else Ret out))"

text \<open>The string ends at \<open>total_len\<close>; it must have been written up to there, and the terminator is in the allocated space.\<close>

definition php_uudecode :: "octet list \<Rightarrow> octet list option run" where
  "php_uudecode src =
     (if length src = 0 then Ret None
      else let cap = (length src * 3 + 3) div 4
           in case uudecode_lines cap src 0 0 [] of
                Ret None \<Rightarrow> Ret None
              | Ret (Some (s, total_len, out)) \<Rightarrow>
                  run_bind (if total_len > length out then uudecode_rest cap src s total_len out else Ret out) (\<lambda>out.
                  if total_len > length out \<or> total_len > cap then Undef else Ret (Some (take total_len out)))
              | Fatal e \<Rightarrow> Fatal e
              | Undef \<Rightarrow> Undef)"

definition convert_uuencode :: "octet list \<Rightarrow> octet list run" where
  "convert_uuencode src = php_uuencode src"

text \<open>\<open>None\<close> is the warning with the result \<open>false\<close>.\<close>

definition convert_uudecode :: "octet list \<Rightarrow> octet list option run" where
  "convert_uudecode src = php_uudecode src"

section \<open>The decoder stays in bounds\<close>

primrec ungroups :: "nat \<Rightarrow> octet list \<Rightarrow> nat \<Rightarrow> octet list" where
  "ungroups 0 src s = []"
| "ungroups (Suc k) src s = uu_bytes (src ! s) (src ! (s + 1)) (src ! (s + 2)) (src ! (s + 3)) @ ungroups k src (s + 4)"

lemma ungroups_length [simp]: "length (ungroups k src s) = 3 * k"
  by (induction k arbitrary: s) (simp_all add: uu_bytes_def)

lemma uudecode_groups_form:
  assumes "ee \<le> s + 4 * k" "0 < k \<longrightarrow> s + 4 * k < ee + 4" "4 * length out \<le> 3 * s" "cap = (length src * 3 + 3) div 4"
  shows "uudecode_groups cap src s ee out =
    (if k = 0 \<or> s + 4 * k \<le> length src then Ret (Some (s + 4 * k, out @ ungroups k src s)) else Ret None)"
  using assms(1-3)
proof (induction k arbitrary: s out)
  case 0
  then show ?case by (simp add: uudecode_groups.simps)
next
  case (Suc k)
  have se: "s < ee" using Suc(3) by simp
  show ?case
  proof (cases "s + 4 \<le> length src")
    case True
    have "4 * ((length src * 3 + 3) div 4) + 3 \<ge> length src * 3 + 3"
      using mult_div_mod_eq [of 4 "length src * 3 + 3"] mod_less_divisor [of 4 "length src * 3 + 3"] by linarith
    then have c: "length out + 3 \<le> cap + 1" using Suc(4) True assms(4) by linarith
    have "uudecode_groups cap src (s + 4) ee (out @ uu_bytes (src ! s) (src ! (s + 1)) (src ! (s + 2)) (src ! (s + 3))) =
      (if k = 0 \<or> s + 4 + 4 * k \<le> length src
       then Ret (Some (s + 4 + 4 * k, (out @ uu_bytes (src ! s) (src ! (s + 1)) (src ! (s + 2)) (src ! (s + 3))) @ ungroups k src (s + 4))) else Ret None)"
      by (rule Suc(1)) (use Suc(2,3,4) in \<open>auto simp: uu_bytes_def\<close>)
    then show ?thesis using uudecode_groups.simps [of cap src s ee out] se True c by (auto simp: add.assoc)
  next
    case False
    then show ?thesis using uudecode_groups.simps [of cap src s ee out] se by simp
  qed
qed

text \<open>The number of groups the decoder reads for a line of \<open>len\<close> bytes.\<close>

definition line_chars :: "nat \<Rightarrow> nat" where
  "line_chars len = (if len = 45 then 60 else len * 133 div 100)"

lemma line_groups_all:
  "list_all (\<lambda>len. line_chars len \<le> 4 * ((len + 2) div 3) \<and> (0 < len \<longrightarrow> 4 * ((len + 2) div 3) < line_chars len + 4)) [0..<64]"
  by (simp add: upt_rec line_chars_def)

lemma line_groups:
  assumes "len < 64"
  shows "line_chars len \<le> 4 * ((len + 2) div 3)" "0 < len \<longrightarrow> 4 * ((len + 2) div 3) < line_chars len + 4"
proof -
  have "len \<in> set [0..<64]" using assms by simp
  then show "line_chars len \<le> 4 * ((len + 2) div 3)" "0 < len \<longrightarrow> 4 * ((len + 2) div 3) < line_chars len + 4"
    using line_groups_all unfolding list_all_iff by blast+
qed

lemma dec_less: "unat (PHP_UU_DEC c) < 64"
proof -
  have "PHP_UU_DEC c \<le> 0x3F" unfolding PHP_UU_DEC_def by (rule word_and_le1)
  then show ?thesis by (simp add: word_le_nat_alt)
qed

text \<open>One round of the loop over lines, with the groups computed.\<close>

lemma uudecode_lines_step:
  assumes "s < length src" "len = unat (PHP_UU_DEC (src ! s))" "0 < len" "4 * length out \<le> 3 * s"
    "cap = (length src * 3 + 3) div 4" "k = (len + 2) div 3"
  shows "uudecode_lines cap src s tot out =
    (if len > length src \<or> s + 1 + line_chars len > length src \<or> s + 1 + 4 * k > length src then Ret None
     else if len < 45 then Ret (Some (s + 1 + 4 * k, tot + len, out @ ungroups k src (s + 1)))
     else uudecode_lines cap src (s + 1 + 4 * k + 1) (tot + len) (out @ ungroups k src (s + 1)))"
proof -
  have k: "0 < k" using assms(3,6) by (simp add: div_greater_zero_iff)
  have l: "len < 64" using assms(2) dec_less by simp
  have g: "uudecode_groups cap src (s + 1) (s + 1 + line_chars len) out =
      (if k = 0 \<or> s + 1 + 4 * k \<le> length src then Ret (Some (s + 1 + 4 * k, out @ ungroups k src (s + 1))) else Ret None)"
    by (rule uudecode_groups_form) (use line_groups [OF l] assms in auto)
  show ?thesis
    unfolding uudecode_lines.simps [of cap src s tot out] Let_def assms(2) [symmetric] line_chars_def [symmetric] g
    using assms(1,3) k by simp
qed

lemma uudecode_lines_safe:
  assumes "cap = (length src * 3 + 3) div 4" "4 * length out \<le> 3 * s" "length out \<le> cap" "tot \<le> length out"
  shows "uudecode_lines cap src s tot out = Ret None \<or>
    (\<exists>s' tot' out'. uudecode_lines cap src s tot out = Ret (Some (s', tot', out')) \<and> tot' \<le> length out' \<and> length out' \<le> cap)"
  using assms(2-4)
proof (induction "length src + 1 - s" arbitrary: s tot out rule: less_induct)
  case less
  define len where "len = unat (PHP_UU_DEC (src ! s))"
  define k where "k = (len + 2) div 3"
  consider "\<not> s < length src" | "s < length src" "len = 0" | "s < length src" "0 < len" by blast
  then show ?case
  proof cases
    case 3
    have k: "len \<le> 3 * k" unfolding k_def
      using mult_div_mod_eq [of 3 "len + 2"] mod_less_divisor [of 3 "len + 2"] by linarith
    note st = uudecode_lines_step [OF 3(1) len_def 3(2) less(2) assms(1) k_def, of tot]
    show ?thesis
    proof (cases "len > length src \<or> s + 1 + line_chars len > length src \<or> s + 1 + 4 * k > length src")
      case True
      then show ?thesis using st by (simp only: if_True simp_thms)
    next
      case False
      define out' where "out' = out @ ungroups k src (s + 1)"
      have o: "length out' = length out + 3 * k" by (simp add: out'_def)
      have "4 * length out' \<le> 3 * length src" using o less(2) False by simp
      moreover have "length src * 3 \<le> 4 * cap"
        unfolding assms(1) using mult_div_mod_eq [of 4 "length src * 3 + 3"] mod_less_divisor [of 4 "length src * 3 + 3"] by linarith
      ultimately have c: "length out' \<le> cap" by linarith
      have t: "tot + len \<le> length out'" using o k less(4) by simp
      have u: "4 * length out' \<le> 3 * (s + 1 + 4 * k + 1)" using o less(2) by simp
      have m: "length src + 1 - (s + 1 + 4 * k + 1) < length src + 1 - s" using 3(1) by simp
      show ?thesis
      proof (cases "len < 45")
        case True
        then show ?thesis using st False t c by (simp add: out'_def)
      next
        case F: False
        then have "uudecode_lines cap src s tot out = uudecode_lines cap src (s + 1 + 4 * k + 1) (tot + len) out'"
          unfolding st out'_def using False by (simp only: if_False simp_thms)
        then show ?thesis using less(1) [OF m u c t] by simp
      qed
    qed
  qed (use less(3,4) in \<open>auto simp: uudecode_lines.simps [of cap src s] len_def\<close>)
qed

section \<open>What the encoder writes\<close>

definition uu_group :: "octet \<Rightarrow> octet \<Rightarrow> octet \<Rightarrow> octet list" where
  "uu_group a b c = [PHP_UU_ENC (drop_bit 2 a), PHP_UU_ENC_C2 a b, PHP_UU_ENC_C3 b c, PHP_UU_ENC (c AND 0x3F)]"

fun pad_groups :: "octet list \<Rightarrow> octet list" where
  "pad_groups (a # b # c # s) = uu_group a b c @ pad_groups s"
| "pad_groups [a, b] = uu_group a b 0"
| "pad_groups [a] = uu_group a 0 0"
| "pad_groups [] = []"

definition uu_line :: "octet list \<Rightarrow> octet list" where
  "uu_line s = PHP_UU_ENC (of_nat (length s)) # pad_groups s @ [10]"

function uu_text :: "octet list \<Rightarrow> octet list" where
  "uu_text s = (if s = [] then [] else uu_line (take 45 s) @ uu_text (drop 45 s))"
  by pat_completeness auto

termination
  by (relation "measure length") auto

declare uu_text.simps [simp del]

lemma uu_text_Nil [simp]: "uu_text [] = []"
  by (simp add: uu_text.simps)

lemma uu_text_line: "s \<noteq> [] \<Longrightarrow> length s \<le> 45 \<Longrightarrow> uu_text s = uu_line s"
  using uu_text.simps [of s] by simp

lemma pad_groups_append: "length xs mod 3 = 0 \<Longrightarrow> pad_groups (xs @ ys) = pad_groups xs @ pad_groups ys"
proof (induction xs rule: pad_groups.induct)
  case (1 a b c s)
  have "length (a # b # c # s) = length s + 3" by simp
  then have "length s mod 3 = 0" using 1(2) mod_add_self2 [of "length s" 3] by (simp only:)
  then show ?case using 1(1) by simp
qed simp_all

lemma pad_groups_length: "length (pad_groups s) = 4 * ((length s + 2) div 3)"
proof (induction s rule: pad_groups.induct)
  case (1 a b c s)
  have l: "length (a # b # c # s) + 2 = (length s + 2) + 3" by simp
  have d: "(length s + 2 + 3) div 3 = (length s + 2) div 3 + 1" by (rule div_add_self2) simp
  show ?case unfolding l d using 1 by (simp add: uu_group_def)
qed (simp_all add: uu_group_def)

lemma uuencode_groups_pad:
  "3 * k \<le> length s \<Longrightarrow> uuencode_groups (3 * k) s = Ret (pad_groups (take (3 * k) s), drop (3 * k) s)"
proof (induction k arbitrary: s)
  case (Suc k)
  then obtain a b c s' where s: "s = a # b # c # s'" by (cases s rule: pad_groups.cases) auto
  have e: "3 * Suc k = Suc (Suc (Suc (3 * k)))" by simp
  show ?case using Suc(1) [of s'] Suc(2) unfolding s e by (simp add: uu_group_def)
qed simp

text \<open>What the function writes after its loops, before the last line.\<close>

definition uu_tail :: "octet list \<Rightarrow> nat \<Rightarrow> octet list" where
  "uu_tail s len = (if s = [] then if len < 45 then [10] else []
     else (if len = 45 then [PHP_UU_ENC (of_nat (length s))] else []) @ pad_groups s @ (if len \<le> 45 then [10] else []))"

lemma C3_zero: "PHP_UU_ENC_C3 0 0 = PHP_UU_ENC 0" "PHP_UU_ENC (0 AND x) = PHP_UU_ENC 0"
  by (simp_all add: PHP_UU_ENC_C3_def)

lemma small_cases:
  fixes s :: "octet list"
  assumes "length s \<le> 3"
  obtains "s = []" | a where "s = [a]" | a b where "s = [a, b]" | a b c where "s = [a, b, c]"
proof (cases s rule: pad_groups.cases)
  case (1 a b c t)
  then have "t = []" using assms by simp
  then show ?thesis using 1 that(4) by simp
qed (use that in auto)

lemma php_uuencode_tail:
  assumes "uuencode_lines (src @ [0]) 45 = Ret (p, s @ [0], len)" "length s \<le> 3" "len \<le> 45"
  shows "php_uuencode src =
    (let dest = p @ uu_tail s len @ [96, 10] in if length dest > length src div 2 * 3 + 46 then Undef else Ret dest)"
proof -
  have z: "PHP_UU_ENC 0 = 96" by (simp add: PHP_UU_ENC_def)
  show ?thesis using assms(2)
  proof (cases rule: small_cases)
    case 1
    then show ?thesis unfolding php_uuencode_def assms(1) by (simp add: uu_tail_def z)
  next
    case (2 a)
    then show ?thesis unfolding php_uuencode_def assms(1) using assms(3) by (simp add: uu_tail_def uu_group_def C3_zero z Let_def)
  next
    case (3 a b)
    then show ?thesis unfolding php_uuencode_def assms(1) using assms(3) by (simp add: uu_tail_def uu_group_def C3_zero z Let_def)
  next
    case (4 a b c)
    then show ?thesis unfolding php_uuencode_def assms(1) using assms(3) by (simp add: uu_tail_def uu_group_def C3_zero z Let_def)
  qed
qed

lemma uuencode_lines_short: "length s \<le> 3 \<Longrightarrow> uuencode_lines (s @ [0]) len = Ret ([], s @ [0], len)"
  by (simp add: uuencode_lines.simps)

lemma uuencode_lines_form:
  "\<exists>p s' len. uuencode_lines (s @ [0]) 45 = Ret (p, s' @ [0], len) \<and> length s' \<le> 3 \<and> len \<le> 45 \<and> p @ uu_tail s' len = uu_text s"
proof (induction "length s" arbitrary: s rule: less_induct)
  case less
  consider "length s \<le> 3" | "3 < length s" "length s < 45" | "45 \<le> length s" by linarith
  then show ?case
  proof cases
    case 1
    then have "uuencode_lines (s @ [0]) 45 = Ret ([], s @ [0], 45)" by (rule uuencode_lines_short)
    moreover have "uu_tail s 45 = uu_text s" using 1 by (simp add: uu_tail_def uu_text_line uu_line_def)
    ultimately show ?thesis using 1 by simp
  next
    case 2
    define k where "k = length s div 3"
    have k: "3 * k \<le> length s" "0 < k" "length s - 3 * k \<le> 2"
      using 2 mult_div_mod_eq [of 3 "length s"] mod_less_divisor [of 3 "length s"] unfolding k_def by linarith+
    have e: "(if length s mod 3 \<noteq> 0 then length s div 3 * 3 else length s) = 3 * k"
      unfolding k_def by (simp add: mult.commute mod_eq_0_iff_dvd dvd_mult_div_cancel)
    have l: "length (s @ [0]) - 1 = length s" by simp
    have g: "uuencode_groups (3 * k) (s @ [0]) = Ret (pad_groups (take (3 * k) s), drop (3 * k) s @ [0])"
      using uuencode_groups_pad [of k "s @ [0]"] k by simp
    have "uuencode_lines (s @ [0]) 45 = Ret (PHP_UU_ENC (of_nat (length s)) # pad_groups (take (3 * k) s), drop (3 * k) s @ [0], length s)"
      unfolding uuencode_lines.simps [of "s @ [0]" 45] Let_def l e
      using 2 k g uuencode_lines_short [of "drop (3 * k) s" "length s"] by simp
    moreover have p: "pad_groups (take (3 * k) s) @ pad_groups (drop (3 * k) s) = pad_groups s"
      using pad_groups_append [of "take (3 * k) s" "drop (3 * k) s"] k(1) by (simp only: length_take min_absorb2 mod_mult_self1_is_0 append_take_drop_id)
    moreover have "(PHP_UU_ENC (of_nat (length s)) # pad_groups (take (3 * k) s)) @ uu_tail (drop (3 * k) s) (length s) = uu_text s"
    proof (cases "drop (3 * k) s = []")
      case True
      then have "uu_tail (drop (3 * k) s) (length s) = [10]" "pad_groups (take (3 * k) s) = pad_groups s"
        using 2 p by (simp_all add: uu_tail_def)
      moreover have "uu_text s = uu_line s" using 2 by (intro uu_text_line) auto
      ultimately show ?thesis by (simp add: uu_line_def)
    next
      case False
      then have "uu_tail (drop (3 * k) s) (length s) = pad_groups (drop (3 * k) s) @ [10]" using 2 by (simp add: uu_tail_def)
      moreover have "uu_text s = uu_line s" using 2 by (intro uu_text_line) auto
      ultimately show ?thesis unfolding uu_line_def p [symmetric] by simp
    qed
    ultimately show ?thesis using 2 k
      by (intro exI [of _ "PHP_UU_ENC (of_nat (length s)) # pad_groups (take (3 * k) s)"] exI [of _ "drop (3 * k) s"] exI [of _ "length s"]) simp
  next
    case 3
    then have lt: "length (drop 45 s) < length s" by simp
    obtain p s' len where r: "uuencode_lines (drop 45 s @ [0]) 45 = Ret (p, s' @ [0], len)" "length s' \<le> 3" "len \<le> 45"
      "p @ uu_tail s' len = uu_text (drop 45 s)"
      using less [OF lt] by blast
    have g: "uuencode_groups 45 (s @ [0]) = Ret (pad_groups (take 45 s), drop 45 s @ [0])"
      using uuencode_groups_pad [of 15 "s @ [0]"] 3 by simp
    have "uuencode_lines (s @ [0]) 45 = Ret (PHP_UU_ENC 45 # pad_groups (take 45 s) @ [10] @ p, s' @ [0], len)"
      unfolding uuencode_lines.simps [of "s @ [0]" 45] Let_def using 3 g r(1) by simp
    moreover have "uu_text s = uu_line (take 45 s) @ uu_text (drop 45 s)" using uu_text.simps [of s] 3 by auto
    ultimately show ?thesis using r 3
      by (intro exI [of _ "PHP_UU_ENC 45 # pad_groups (take 45 s) @ [10] @ p"] exI [of _ s'] exI [of _ len])
        (simp add: uu_line_def min_absorb2)
  qed
qed

lemma uu_line_length: "length (uu_line s) = 4 * ((length s + 2) div 3) + 2"
  by (simp add: uu_line_def pad_groups_length)

lemma uu_text_length: "2 * length (uu_text s) \<le> 3 * length s + 10"
proof (induction s rule: uu_text.induct)
  case (1 s)
  show ?case
  proof (cases "45 \<le> length s")
    case True
    then have "uu_text s = uu_line (take 45 s) @ uu_text (drop 45 s)" "s \<noteq> []" using uu_text.simps [of s] by auto
    then show ?thesis using 1 True by (simp add: uu_line_length min_absorb2)
  next
    case False
    define q where "q = (length s + 2) div 3"
    have "3 * q \<le> length s + 2" unfolding q_def by (rule times_div_less_eq_dividend)
    then have "2 * (4 * q + 2) \<le> 3 * length s + 10" by arith
    then have "2 * (4 * ((length s + 2) div 3) + 2) \<le> 3 * length s + 10" unfolding q_def .
    then show ?thesis using False by (cases "s = []") (simp_all add: uu_text_line uu_line_length)
  qed
qed

lemma php_uuencode_text: "php_uuencode s = Ret (uu_text s @ [96, 10])"
proof -
  obtain p s' len where r: "uuencode_lines (s @ [0]) 45 = Ret (p, s' @ [0], len)" "length s' \<le> 3" "len \<le> 45" "p @ uu_tail s' len = uu_text s"
    using uuencode_lines_form by blast
  have e: "p @ uu_tail s' len @ [96, 10] = uu_text s @ [96, 10]" using r(4) by (metis append_assoc)
  have "length (uu_text s @ [96, 10]) \<le> length s div 2 * 3 + 46"
    using uu_text_length [of s] mult_div_mod_eq [of 2 "length s"] mod_less_divisor [of 2 "length s"] by simp
  then show ?thesis unfolding php_uuencode_tail [OF r(1-3)] e Let_def by simp
qed

section \<open>Decoding what was encoded\<close>

lemma dec_enc: "PHP_UU_DEC (PHP_UU_ENC c) = c AND 0x3F"
  by (simp add: PHP_UU_DEC_def PHP_UU_ENC_def and.assoc)

lemma uu_masks:
  "(0x30 :: octet) = push_bit 4 (mask 2)" "(0x3C :: octet) = push_bit 2 (mask 4)" "(0x3F :: octet) = mask 6"
  "(0x0F :: octet) = mask 4" "(0x03 :: octet) = mask 2"
  by (simp_all add: mask_eq_exp_minus_1)

lemma uu_bytes_group: "uu_group a b c = [w, x, y, z] \<Longrightarrow> uu_bytes w x y z = [a, b, c]"
proof -
  assume g: "uu_group a b c = [w, x, y, z]"
  have d: "PHP_UU_DEC w = drop_bit 2 a AND 0x3F" "PHP_UU_DEC x = ((push_bit 4 a AND 0x30) OR (drop_bit 4 b AND 0x0F)) AND 0x3F"
    "PHP_UU_DEC y = ((push_bit 2 b AND 0x3C) OR (drop_bit 6 c AND 0x03)) AND 0x3F" "PHP_UU_DEC z = (c AND 0x3F) AND 0x3F"
    using g by (auto simp: uu_group_def PHP_UU_ENC_C2_def PHP_UU_ENC_C3_def dec_enc)
  have "push_bit 2 (PHP_UU_DEC w) OR drop_bit 4 (PHP_UU_DEC x) = a"
    unfolding d uu_masks by (rule byte_eqI) (simp_all add: bit_simps)
  moreover have "push_bit 4 (PHP_UU_DEC x) OR drop_bit 2 (PHP_UU_DEC y) = b"
    unfolding d uu_masks by (rule byte_eqI) (simp_all add: bit_simps)
  moreover have "push_bit 6 (PHP_UU_DEC y) OR PHP_UU_DEC z = c"
    unfolding d uu_masks by (rule byte_eqI) (simp_all add: bit_simps)
  ultimately show ?thesis by (simp add: uu_bytes_def)
qed

lemma ungroups_group:
  assumes "src = pre @ uu_group a b c @ post"
  shows "ungroups (Suc k) src (length pre) = [a, b, c] @ ungroups k src (length (pre @ uu_group a b c))"
proof -
  obtain w x y z where g: "uu_group a b c = [w, x, y, z]" by (simp add: uu_group_def)
  then have "src ! length pre = w" "src ! (length pre + 1) = x" "src ! (length pre + 2) = y" "src ! (length pre + 3) = z"
    using assms by (simp_all add: nth_append)
  moreover have "length (pre @ uu_group a b c) = length pre + 4" using g by simp
  ultimately show ?thesis using uu_bytes_group [OF g] unfolding ungroups.simps by (simp only:)
qed

lemma ungroups_pad:
  "src = pre @ pad_groups s @ post \<Longrightarrow> take (length s) (ungroups ((length s + 2) div 3) src (length pre)) = s"
proof (induction s arbitrary: pre rule: pad_groups.induct)
  case (1 a b c s)
  have l: "length (a # b # c # s) + 2 = (length s + 2) + 3" by simp
  have d: "(length s + 2 + 3) div 3 = Suc ((length s + 2) div 3)" using div_add_self2 [of 3 "length s + 2"] by simp
  have "src = (pre @ uu_group a b c) @ pad_groups s @ post" using 1(2) by simp
  then have "take (length s) (ungroups ((length s + 2) div 3) src (length (pre @ uu_group a b c))) = s" by (rule 1(1))
  then show ?case unfolding l d using ungroups_group [of src pre a b c "pad_groups s @ post"] 1(2) by simp
next
  case (2 a b)
  then show ?case using ungroups_group [of src pre a b 0 post 0] by simp
next
  case (3 a)
  then show ?case using ungroups_group [of src pre a 0 0 post 0] by simp
qed simp

lemma dec_enc_length: "n < 64 \<Longrightarrow> unat (PHP_UU_DEC (PHP_UU_ENC (of_nat n))) = n"
  by (simp add: dec_enc masks unsigned_take_bit_eq unat_of_nat take_bit_nat_eq_self)

lemma uudecode_lines_text:
  assumes "src = pre @ uu_text s @ [96, 10]" "length out = tot" "4 * tot \<le> 3 * length pre" "cap = (length src * 3 + 3) div 4"
  shows "\<exists>s' out'. uudecode_lines cap src (length pre) tot out = Ret (Some (s', tot + length s, out')) \<and>
    take (tot + length s) out' = out @ s"
  using assms(1-3)
proof (induction "length s" arbitrary: s pre tot out rule: less_induct)
  case less
  show ?case
  proof (cases "s = []")
    case True
    then have "src ! length pre = 96" "length pre < length src" using less(2) by simp_all
    then show ?thesis using True less(3) by (simp add: uudecode_lines.simps PHP_UU_DEC_def)
  next
    case False
    define m where "m = take 45 s"
    define k where "k = (length m + 2) div 3"
    have m: "0 < length m" "length m \<le> 45" using False by (simp_all add: m_def)
    have src: "src = pre @ uu_line m @ uu_text (drop 45 s) @ [96, 10]"
      using less(2) False uu_text.simps [of s] by (simp add: m_def)
    have at: "length pre < length src" "length m = unat (PHP_UU_DEC (src ! length pre))"
      using m dec_enc_length [of "length m"] unfolding src by (simp_all add: uu_line_def)
    have l: "length pre + 4 * k + 4 \<le> length src" unfolding src k_def by (simp add: uu_line_length)
    have k: "length m \<le> 4 * k" "line_chars (length m) \<le> 4 * k"
      using line_groups(1) [of "length m"] m mult_div_mod_eq [of 3 "length m + 2"] mod_less_divisor [of 3 "length m + 2"]
      unfolding k_def by linarith+
    have u: "take (length m) (ungroups k src (length pre + 1)) = m"
      using ungroups_pad [of src "pre @ [PHP_UU_ENC (of_nat (length m))]" m "[10] @ uu_text (drop 45 s) @ [96, 10]"]
      unfolding k_def src by (simp add: uu_line_def)
    have o: "4 * length out \<le> 3 * length pre" using less(3,4) by simp
    note st = uudecode_lines_step [OF at m(1) o assms(4) k_def, of tot]
    show ?thesis
    proof (cases "length m < 45")
      case True
      then have "s = m" by (simp add: m_def)
      then show ?thesis using st True k l u less(3) by simp
    next
      case f: False
      then have m45: "length m = 45" "k = 15" "45 \<le> length s" using m unfolding k_def m_def by simp_all
      have lt: "length (drop 45 s) < length s" using m45 by simp
      have u': "ungroups k src (length pre + 1) = m" using u m45 by simp
      have pre': "length (pre @ uu_line m) = length pre + 1 + 4 * k + 1" using m45 by (simp add: uu_line_length)
      have "uudecode_lines cap src (length pre) tot out = uudecode_lines cap src (length (pre @ uu_line m)) (tot + 45) (out @ m)"
        unfolding st pre' u' using f k l m45 by simp
      moreover have "\<exists>s' out'. uudecode_lines cap src (length (pre @ uu_line m)) (tot + 45) (out @ m) =
          Ret (Some (s', tot + 45 + length (drop 45 s), out')) \<and> take (tot + 45 + length (drop 45 s)) out' = (out @ m) @ drop 45 s"
        by (rule less(1) [OF lt]) (use src m45 less(3,4) in \<open>simp_all add: uu_line_length\<close>)
      ultimately show ?thesis using m45 by (simp add: m_def)
    qed
  qed
qed

lemma uu_codec: "\<exists>e. convert_uuencode s = Ret e \<and> convert_uudecode e = Ret (Some s)"
proof -
  define e where "e = uu_text s @ [96, 10]"
  define cap where "cap = (length e * 3 + 3) div 4"
  obtain s' out where r: "uudecode_lines cap e 0 0 [] = Ret (Some (s', length s, out))" "take (length s) out = s"
    using uudecode_lines_text [of e "[]" s "[]" 0 cap] by (auto simp: e_def cap_def)
  have "length s \<le> length out" using r(2) by (metis length_take min.cobounded1)
  moreover have "length s \<le> cap" using uudecode_lines_safe [of cap e "[]" 0 0] r(1) \<open>length s \<le> length out\<close> by (auto simp: cap_def)
  moreover have "e \<noteq> []" by (simp add: e_def)
  ultimately have "php_uudecode e = Ret (Some s)"
    unfolding php_uudecode_def Let_def cap_def [symmetric] r(1) using r(2) by simp
  then show ?thesis by (simp add: convert_uuencode_def convert_uudecode_def php_uuencode_text e_def)
qed

interpretation uu: codec convert_uuencode convert_uudecode
  by unfold_locales (rule uu_codec)

section \<open>Properties\<close>

text \<open>C22. Every string is decoded to itself after it was encoded, and no two strings are encoded alike; the encoder
  stays inside of the string it has allocated.\<close>

theorem uuencode_roundtrip:
  "(\<exists>e. convert_uuencode s = Ret e \<and> convert_uudecode e = Ret (Some s)) \<and> (convert_uuencode s = convert_uuencode t \<longleftrightarrow> s = t)"
  using uu.roundtrip uu.enc_inj by auto


end
