(* ===== verification/Std_Crc.thy ===== *)
theory Std_Crc
  imports Std_Base64
begin

text \<open>
  The checksum of \<open>ext/standard/crc32.c\<close> with the table of \<open>crc32.h\<close>, in the build without the instructions for it. The
  function that reads a stream has the stream as a parameter.
\<close>

section \<open>The checksum\<close>

definition crc32tab :: "32 word list" where
  "crc32tab =
    [0x00000000, 0x77073096, 0xee0e612c, 0x990951ba, 0x076dc419, 0x706af48f, 0xe963a535, 0x9e6495a3,
     0x0edb8832, 0x79dcb8a4, 0xe0d5e91e, 0x97d2d988, 0x09b64c2b, 0x7eb17cbd, 0xe7b82d07, 0x90bf1d91,
     0x1db71064, 0x6ab020f2, 0xf3b97148, 0x84be41de, 0x1adad47d, 0x6ddde4eb, 0xf4d4b551, 0x83d385c7,
     0x136c9856, 0x646ba8c0, 0xfd62f97a, 0x8a65c9ec, 0x14015c4f, 0x63066cd9, 0xfa0f3d63, 0x8d080df5,
     0x3b6e20c8, 0x4c69105e, 0xd56041e4, 0xa2677172, 0x3c03e4d1, 0x4b04d447, 0xd20d85fd, 0xa50ab56b,
     0x35b5a8fa, 0x42b2986c, 0xdbbbc9d6, 0xacbcf940, 0x32d86ce3, 0x45df5c75, 0xdcd60dcf, 0xabd13d59,
     0x26d930ac, 0x51de003a, 0xc8d75180, 0xbfd06116, 0x21b4f4b5, 0x56b3c423, 0xcfba9599, 0xb8bda50f,
     0x2802b89e, 0x5f058808, 0xc60cd9b2, 0xb10be924, 0x2f6f7c87, 0x58684c11, 0xc1611dab, 0xb6662d3d,
     0x76dc4190, 0x01db7106, 0x98d220bc, 0xefd5102a, 0x71b18589, 0x06b6b51f, 0x9fbfe4a5, 0xe8b8d433,
     0x7807c9a2, 0x0f00f934, 0x9609a88e, 0xe10e9818, 0x7f6a0dbb, 0x086d3d2d, 0x91646c97, 0xe6635c01,
     0x6b6b51f4, 0x1c6c6162, 0x856530d8, 0xf262004e, 0x6c0695ed, 0x1b01a57b, 0x8208f4c1, 0xf50fc457,
     0x65b0d9c6, 0x12b7e950, 0x8bbeb8ea, 0xfcb9887c, 0x62dd1ddf, 0x15da2d49, 0x8cd37cf3, 0xfbd44c65,
     0x4db26158, 0x3ab551ce, 0xa3bc0074, 0xd4bb30e2, 0x4adfa541, 0x3dd895d7, 0xa4d1c46d, 0xd3d6f4fb,
     0x4369e96a, 0x346ed9fc, 0xad678846, 0xda60b8d0, 0x44042d73, 0x33031de5, 0xaa0a4c5f, 0xdd0d7cc9,
     0x5005713c, 0x270241aa, 0xbe0b1010, 0xc90c2086, 0x5768b525, 0x206f85b3, 0xb966d409, 0xce61e49f,
     0x5edef90e, 0x29d9c998, 0xb0d09822, 0xc7d7a8b4, 0x59b33d17, 0x2eb40d81, 0xb7bd5c3b, 0xc0ba6cad,
     0xedb88320, 0x9abfb3b6, 0x03b6e20c, 0x74b1d29a, 0xead54739, 0x9dd277af, 0x04db2615, 0x73dc1683,
     0xe3630b12, 0x94643b84, 0x0d6d6a3e, 0x7a6a5aa8, 0xe40ecf0b, 0x9309ff9d, 0x0a00ae27, 0x7d079eb1,
     0xf00f9344, 0x8708a3d2, 0x1e01f268, 0x6906c2fe, 0xf762575d, 0x806567cb, 0x196c3671, 0x6e6b06e7,
     0xfed41b76, 0x89d32be0, 0x10da7a5a, 0x67dd4acc, 0xf9b9df6f, 0x8ebeeff9, 0x17b7be43, 0x60b08ed5,
     0xd6d6a3e8, 0xa1d1937e, 0x38d8c2c4, 0x4fdff252, 0xd1bb67f1, 0xa6bc5767, 0x3fb506dd, 0x48b2364b,
     0xd80d2bda, 0xaf0a1b4c, 0x36034af6, 0x41047a60, 0xdf60efc3, 0xa867df55, 0x316e8eef, 0x4669be79,
     0xcb61b38c, 0xbc66831a, 0x256fd2a0, 0x5268e236, 0xcc0c7795, 0xbb0b4703, 0x220216b9, 0x5505262f,
     0xc5ba3bbe, 0xb2bd0b28, 0x2bb45a92, 0x5cb36a04, 0xc2d7ffa7, 0xb5d0cf31, 0x2cd99e8b, 0x5bdeae1d,
     0x9b64c2b0, 0xec63f226, 0x756aa39c, 0x026d930a, 0x9c0906a9, 0xeb0e363f, 0x72076785, 0x05005713,
     0x95bf4a82, 0xe2b87a14, 0x7bb12bae, 0x0cb61b38, 0x92d28e9b, 0xe5d5be0d, 0x7cdcefb7, 0x0bdbdf21,
     0x86d3d2d4, 0xf1d4e242, 0x68ddb3f8, 0x1fda836e, 0x81be16cd, 0xf6b9265b, 0x6fb077e1, 0x18b74777,
     0x88085ae6, 0xff0f6a70, 0x66063bca, 0x11010b5c, 0x8f659eff, 0xf862ae69, 0x616bffd3, 0x166ccf45,
     0xa00ae278, 0xd70dd2ee, 0x4e048354, 0x3903b3c2, 0xa7672661, 0xd06016f7, 0x4969474d, 0x3e6e77db,
     0xaed16a4a, 0xd9d65adc, 0x40df0b66, 0x37d83bf0, 0xa9bcae53, 0xdebb9ec5, 0x47b2cf7f, 0x30b5ffe9,
     0xbdbdf21c, 0xcabac28a, 0x53b39330, 0x24b4a3a6, 0xbad03605, 0xcdd70693, 0x54de5729, 0x23d967bf,
     0xb3667a2e, 0xc4614ab8, 0x5d681b02, 0x2a6f2b94, 0xb40bbe37, 0xc30c8ea1, 0x5a05df1b, 0x2d02ef8d]"

text \<open>A byte of the string is a \<open>char\<close>, so it is extended with its sign.\<close>

definition crc_update :: "32 word \<Rightarrow> octet \<Rightarrow> 32 word" where
  "crc_update crc b = (drop_bit 8 crc AND 0x00FFFFFF) XOR crc32tab ! unat ((crc XOR signed b) AND 0xFF)"

definition php_crc32_bulk_update :: "32 word \<Rightarrow> octet list \<Rightarrow> 32 word" where
  "php_crc32_bulk_update crc p = foldl crc_update crc p"

definition php_crc32_bulk_init :: "32 word" where
  "php_crc32_bulk_init = 0 XOR 0xFFFFFFFF"

definition php_crc32_bulk_end :: "32 word \<Rightarrow> 32 word" where
  "php_crc32_bulk_end c = c XOR 0xFFFFFFFF"

definition crc32 :: "octet list \<Rightarrow> int" where
  "crc32 p = uint (php_crc32_bulk_end (php_crc32_bulk_update php_crc32_bulk_init p))"

text \<open>\<open>php_stream_read\<close> gives the bytes it has put into the buffer, or fails; its result, negative after a failure, is stored
  in a variable of type \<open>size_t\<close>, so after a failure the code goes on with a length far beyond its buffer.\<close>

function php_crc32_stream_bulk_update ::
    "('s \<Rightarrow> nat \<Rightarrow> octet list option \<times> 's) \<Rightarrow> 32 word \<Rightarrow> 's \<Rightarrow> nat \<Rightarrow> nat \<Rightarrow> (bool \<times> 32 word \<times> 's) run" where
  "php_crc32_stream_bulk_update php_stream_read crc fp nr handled =
     (if handled < nr
      then let n = nr - handled; n = (if n < 1024 then n else 1024)
           in case php_stream_read fp n of
                (None, fp) \<Rightarrow> Undef
              | (Some buf, fp) \<Rightarrow>
                  if length buf > 1024 then Undef
                  else if length buf > 0
                  then php_crc32_stream_bulk_update php_stream_read (php_crc32_bulk_update crc buf) fp nr (handled + length buf)
                  else Ret (False, crc, fp)
      else Ret (True, crc, fp))"
  by pat_completeness auto

termination
  by (relation "measure (\<lambda>(php_stream_read, crc, fp, nr, handled). nr - handled)") (auto intro!: diff_less_mono2)

declare php_crc32_stream_bulk_update.simps [simp del]

section \<open>The reference: one bit at a time\<close>

text \<open>The polynomial that the comment above the table names, without \<open>x ^ 32\<close> and with the coefficient of \<open>x ^ 0\<close> at the top.\<close>

definition autodin :: "32 word" where
  "autodin = foldr (\<lambda>e w. push_bit (31 - e) 1 OR w) [26, 23, 22, 16, 12, 11, 10, 8, 7, 5, 4, 2, 1, 0] 0"

definition crc_bit :: "32 word \<Rightarrow> 32 word" where
  "crc_bit c = (if bit c 0 then drop_bit 1 c XOR autodin else drop_bit 1 c)"

lemma autodin_value: "autodin = 0xEDB88320"
  by (simp add: autodin_def)

lemma eight: "(f ^^ 8) x = f (f (f (f (f (f (f (f x)))))))"
  by (simp add: eval_nat_numeral)

primrec tab_check :: "32 word list \<Rightarrow> nat \<Rightarrow> bool" where
  "tab_check [] i = True"
| "tab_check (t # ts) i = ((crc_bit ^^ 8) (of_nat i) = t \<and> tab_check ts (Suc i))"

lemma crc32tab_check: "tab_check crc32tab 0"
  unfolding crc32tab_def by (simp add: crc_bit_def autodin_value eight)

lemma tab_check_nth: "tab_check ts i \<Longrightarrow> k < length ts \<Longrightarrow> ts ! k = (crc_bit ^^ 8) (of_nat (i + k))"
proof (induction ts arbitrary: i k)
  case (Cons t ts)
  then show ?case using Cons(1) [of "Suc i" "k - 1"] by (cases k) auto
qed simp

lemma crc32tab_nth: "k < 256 \<Longrightarrow> crc32tab ! k = (crc_bit ^^ 8) (of_nat k)"
  using tab_check_nth [OF crc32tab_check, of k] by (simp add: crc32tab_def)

section \<open>The table does eight steps at once\<close>

lemma crc_bit_xor: "crc_bit (a XOR b) = crc_bit a XOR crc_bit b"
  by (rule bit_word_eqI) (auto simp: crc_bit_def bit_simps)

lemma crc_bits_xor: "(crc_bit ^^ n) (a XOR b) = (crc_bit ^^ n) a XOR (crc_bit ^^ n) b"
  by (induction n) (simp_all add: crc_bit_xor)

lemma crc_bit_push:
  assumes "\<And>i. 32 - Suc n \<le> i \<Longrightarrow> \<not> bit y i"
  shows "crc_bit (push_bit (Suc n) y) = push_bit n y"
proof -
  have "\<not> bit (push_bit (Suc n) y) 0" unfolding bit_push_bit_iff by simp
  moreover have "drop_bit 1 (push_bit (Suc n) y) = push_bit n y"
  proof (rule bit_word_eqI)
    fix i :: nat assume "i < LENGTH(32)"
    then show "bit (drop_bit 1 (push_bit (Suc n) y)) i \<longleftrightarrow> bit (push_bit n y) i"
      using assms [of "i - n"] unfolding bit_drop_bit_eq o_apply bit_push_bit_iff
      by (cases "i = 31") auto
  qed
  ultimately show ?thesis by (simp add: crc_bit_def)
qed

lemma crc_bits_push: "(\<And>i. 32 - n \<le> i \<Longrightarrow> \<not> bit y i) \<Longrightarrow> (crc_bit ^^ n) (push_bit n y) = y"
proof (induction n)
  case (Suc n)
  have "(crc_bit ^^ Suc n) (push_bit (Suc n) y) = (crc_bit ^^ n) (push_bit n y)"
    unfolding funpow_Suc_right o_apply using crc_bit_push [OF Suc(2)] by simp
  then show ?case using Suc by simp
qed simp

lemma crc_update_bits: "crc_update crc b = (crc_bit ^^ 8) (crc XOR ucast b)"
proof -
  define x where "x = crc XOR ucast b"
  have "x = push_bit 8 (drop_bit 8 x) XOR take_bit 8 x" by (rule bit_word_eqI) (auto simp: bit_simps)
  then have "(crc_bit ^^ 8) x = (crc_bit ^^ 8) (push_bit 8 (drop_bit 8 x)) XOR (crc_bit ^^ 8) (take_bit 8 x)"
    by (metis crc_bits_xor)
  also have "(crc_bit ^^ 8) (push_bit 8 (drop_bit 8 x)) = drop_bit 8 x"
    by (rule crc_bits_push) (auto simp: bit_simps dest: bit_imp_le_length)
  also have "drop_bit 8 x = drop_bit 8 crc AND 0x00FFFFFF"
  proof -
    have m: "(0x00FFFFFF :: 32 word) = mask 24" by (simp add: mask_eq_exp_minus_1)
    show ?thesis unfolding m x_def by (rule bit_word_eqI) (auto simp: bit_simps dest: bit_imp_le_length)
  qed
  also have "take_bit 8 x = (crc XOR signed b) AND 0xFF"
  proof -
    have m: "(0xFF :: 32 word) = mask 8" by (simp add: mask_eq_exp_minus_1)
    show ?thesis unfolding m x_def by (rule bit_word_eqI) (auto simp: bit_simps)
  qed
  also have "(crc_bit ^^ 8) ((crc XOR signed b) AND 0xFF) = crc32tab ! unat ((crc XOR signed b) AND 0xFF)"
  proof -
    define w where "w = (crc XOR signed b) AND 0xFF"
    have "w \<le> 0xFF" unfolding w_def by (rule word_and_le1)
    then have "unat w < 256" by (simp add: word_le_nat_alt)
    then show ?thesis unfolding w_def [symmetric] by (simp add: crc32tab_nth)
  qed
  finally show ?thesis by (simp add: crc_update_def x_def)
qed

section \<open>Differences within four bytes are detected\<close>

lemma crc_bit_zero: "crc_bit c = 0 \<Longrightarrow> c = 0"
proof -
  assume z: "crc_bit c = 0"
  have top: "bit autodin 31" by (simp add: autodin_value)
  have "\<not> bit c 0"
  proof
    assume "bit c 0"
    then have "bit (crc_bit c) 31" using top by (auto simp: crc_bit_def bit_simps dest: bit_imp_le_length)
    then show False using z by simp
  qed
  then have "drop_bit 1 c = 0" using z by (simp add: crc_bit_def)
  moreover have "bit c (Suc i) \<longleftrightarrow> bit (drop_bit 1 c) i" for i unfolding bit_drop_bit_eq o_apply by simp
  ultimately have "\<not> bit c (Suc i)" for i by simp
  then have "\<not> bit c i" for i using \<open>\<not> bit c 0\<close> by (cases i) auto
  then show "c = 0" by (intro bit_word_eqI) simp
qed

lemma crc_bits_inj: "(crc_bit ^^ n) a = (crc_bit ^^ n) b \<Longrightarrow> a = b"
proof (induction n)
  case (Suc n)
  have "crc_bit ((crc_bit ^^ n) a XOR (crc_bit ^^ n) b) = 0" using Suc(2) by (simp add: crc_bit_xor)
  then have "(crc_bit ^^ n) a XOR (crc_bit ^^ n) b = 0" by (rule crc_bit_zero)
  then have "((crc_bit ^^ n) a XOR (crc_bit ^^ n) b) XOR (crc_bit ^^ n) b = (crc_bit ^^ n) b" by simp
  then have "(crc_bit ^^ n) a = (crc_bit ^^ n) b" by (simp only: xor.assoc xor_self_eq xor.right_neutral)
  then show ?case by (rule Suc(1))
qed simp

text \<open>Up to four bytes as one word.\<close>

primrec join_bytes :: "octet list \<Rightarrow> 32 word" where
  "join_bytes [] = 0"
| "join_bytes (b # bs) = ucast b XOR push_bit 8 (join_bytes bs)"

lemma join_bytes_bit: "bit (join_bytes bs) i \<Longrightarrow> i < 8 * length bs"
proof (induction bs arbitrary: i)
  case (Cons b bs)
  have "bit b i \<Longrightarrow> i < 8" using bit_imp_le_length [of b i] by simp
  then show ?case using Cons(1) [of "i - 8"] Cons(2) by (auto simp: bit_simps)
qed simp

lemma join_bytes_parts:
  assumes "length bs \<le> 3"
  shows "take_bit 8 (join_bytes (b # bs)) = ucast b" "drop_bit 8 (join_bytes (b # bs)) = join_bytes bs"
proof -
  show "take_bit 8 (join_bytes (b # bs)) = ucast b"
    by (rule bit_word_eqI) (auto simp: bit_simps dest: bit_imp_le_length)
  have "i < 24" if "bit (join_bytes bs) i" for i using join_bytes_bit [OF that] assms by simp
  then show "drop_bit 8 (join_bytes (b # bs)) = join_bytes bs"
    by (intro bit_word_eqI) (auto simp: bit_simps dest: bit_imp_le_length)
qed

lemma take_uint: "take_bit 32 (uint (b :: octet)) = uint b"
  using unsigned_less [of b, where ?'a = int] by (intro take_bit_int_eq_self) simp_all

lemma join_bytes_inj: "join_bytes a = join_bytes b \<Longrightarrow> length a = length b \<Longrightarrow> length a \<le> 4 \<Longrightarrow> a = b"
proof (induction a arbitrary: b)
  case (Cons x a)
  then obtain y b' where b: "b = y # b'" "length a = length b'" by (cases b) auto
  have l: "length a \<le> 3" "length b' \<le> 3" using Cons(4) b by simp_all
  have "ucast x = (ucast y :: 32 word)" "join_bytes a = join_bytes b'"
    using Cons(2) join_bytes_parts [OF l(1), of x] join_bytes_parts [OF l(2), of y] unfolding b by metis+
  moreover have "x = y" if "ucast x = (ucast y :: 32 word)"
  proof -
    have "uint (ucast x :: 32 word) = uint (ucast y :: 32 word)" using that by simp
    then show ?thesis by (simp add: unsigned_ucast_eq take_uint word_uint_eq_iff)
  qed
  ultimately show ?case using Cons(1) [of b'] b l by simp
qed simp

lemma crc_update_join:
  "length bs \<le> 4 \<Longrightarrow> foldl crc_update crc bs = (crc_bit ^^ (8 * length bs)) (crc XOR join_bytes bs)"
proof (induction bs arbitrary: crc)
  case (Cons b bs)
  have "(crc_bit ^^ 8) (push_bit 8 (join_bytes bs)) = join_bytes bs"
    using join_bytes_bit [of bs] Cons(2) by (intro crc_bits_push) fastforce
  then have "crc_update crc b XOR join_bytes bs = (crc_bit ^^ 8) (crc XOR join_bytes (b # bs))"
    by (simp add: crc_update_bits crc_bits_xor xor.assoc)
  then have "(crc_bit ^^ (8 * length bs)) (crc_update crc b XOR join_bytes bs) =
      (crc_bit ^^ (8 * length bs + 8)) (crc XOR join_bytes (b # bs))" by (simp only: funpow_add o_apply)
  then show ?case using Cons by (simp add: add.commute)
qed simp

lemma crc_update_inj: "foldl crc_update c p = foldl crc_update d p \<Longrightarrow> c = d"
proof (induction p arbitrary: c d)
  case (Cons b p)
  then have "(crc_bit ^^ 8) (c XOR ucast b) = (crc_bit ^^ 8) (d XOR ucast b)" by (simp add: crc_update_bits)
  then have "(c XOR ucast b) XOR ucast b = (d XOR ucast b) XOR ucast b" using crc_bits_inj by metis
  then show ?case by (simp add: xor.assoc)
qed simp

lemma crc_update_burst:
  assumes "length a = length b" "length a \<le> 4" "foldl crc_update c (p @ a @ q) = foldl crc_update c (p @ b @ q)"
  shows "a = b"
proof -
  define d where "d = foldl crc_update c p"
  have "foldl crc_update (foldl crc_update d a) q = foldl crc_update (foldl crc_update d b) q" using assms(3) by (simp add: d_def)
  then have "foldl crc_update d a = foldl crc_update d b" by (rule crc_update_inj)
  then have "(crc_bit ^^ (8 * length a)) (d XOR join_bytes a) = (crc_bit ^^ (8 * length a)) (d XOR join_bytes b)"
    using assms(1,2) by (simp add: crc_update_join)
  then have "d XOR (d XOR join_bytes a) = d XOR (d XOR join_bytes b)" using crc_bits_inj by metis
  then have "join_bytes a = join_bytes b" by simp
  then show ?thesis using assms(1,2) by (rule join_bytes_inj)
qed

lemma crc32_inj: "crc32 p = crc32 q \<Longrightarrow> foldl crc_update 0xFFFFFFFF p = foldl crc_update 0xFFFFFFFF q"
proof -
  assume "crc32 p = crc32 q"
  then have "foldl crc_update 0xFFFFFFFF p XOR 0xFFFFFFFF = foldl crc_update 0xFFFFFFFF q XOR 0xFFFFFFFF"
    by (simp add: crc32_def php_crc32_bulk_end_def php_crc32_bulk_update_def php_crc32_bulk_init_def word_uint_eq_iff)
  then have "(foldl crc_update 0xFFFFFFFF p XOR 0xFFFFFFFF) XOR 0xFFFFFFFF = (foldl crc_update 0xFFFFFFFF q XOR 0xFFFFFFFF) XOR 0xFFFFFFFF"
    by (simp only:)
  then show ?thesis by (simp only: xor.assoc xor_self_eq xor.right_neutral)
qed

section \<open>Properties\<close>

text \<open>C20. The checksum with the table of 256 words is the remainder computed one bit at a time with the polynomial that the
  comment above the table names.\<close>

theorem crc32_table_correct:
  "php_crc32_bulk_update crc p = foldl (\<lambda>crc b. (crc_bit ^^ 8) (crc XOR ucast b)) crc p \<and>
    crc32 p = uint (foldl (\<lambda>crc b. (crc_bit ^^ 8) (crc XOR ucast b)) 0xFFFFFFFF p XOR 0xFFFFFFFF)"
  by (simp add: php_crc32_bulk_update_def crc32_def php_crc32_bulk_init_def php_crc32_bulk_end_def crc_update_bits [abs_def])

text \<open>C21. The checksum detects every change that is confined to four successive bytes, anywhere in a string.\<close>

theorem crc32_detects_bursts:
  assumes "length a = length b" "length a \<le> 4" "a \<noteq> b"
  shows "crc32 (p @ a @ q) \<noteq> crc32 (p @ b @ q)"
  using crc_update_burst [OF assms(1,2)] crc32_inj assms(3) by blast

theorem crc32_detects_bursts_witness: "crc32 ([80] @ [72, 80, 33] @ [10]) \<noteq> crc32 ([80] @ [72, 81, 33] @ [10])"
  by (rule crc32_detects_bursts) simp_all

text \<open>The checksum of a stream of at least \<open>nr\<close> bytes is that of its first \<open>nr\<close> bytes, whatever the portions are in which the
  stream gives them; of a shorter stream the function takes all bytes and reports the failure.\<close>

theorem crc32_stream_correct:
  assumes contract: "\<And>fp n. 0 < n \<Longrightarrow> \<exists>buf fp'. php_stream_read fp n = (Some buf, fp') \<and> rest fp = buf @ rest fp' \<and> length buf \<le> n \<and> (buf = [] \<longrightarrow> rest fp = [])"
  shows "handled \<le> nr \<Longrightarrow> \<exists>fp'. php_crc32_stream_bulk_update php_stream_read crc fp nr handled =
      Ret (nr - handled \<le> length (rest fp), php_crc32_bulk_update crc (take (nr - handled) (rest fp)), fp') \<and>
    rest fp' = drop (nr - handled) (rest fp)"
proof (induction "nr - handled" arbitrary: crc fp handled rule: less_induct)
  case less
  show ?case
  proof (cases "handled < nr")
    case True
    define n where "n = (if nr - handled < 1024 then nr - handled else 1024)"
    have n: "0 < n" "n \<le> 1024" "n \<le> nr - handled" using True by (auto simp: n_def)
    obtain buf fp' where r: "php_stream_read fp n = (Some buf, fp')" "rest fp = buf @ rest fp'" "length buf \<le> n" "buf = [] \<longrightarrow> rest fp = []"
      using contract [OF n(1)] by blast
    note s = php_crc32_stream_bulk_update.simps [of php_stream_read crc fp nr handled, unfolded Let_def, folded n_def, unfolded r(1)]
    show ?thesis
    proof (cases "buf = []")
      case empty: True
      then show ?thesis using r n True unfolding s by (simp add: php_crc32_bulk_update_def)
    next
      case False
      have h: "handled + length buf \<le> nr" "nr - (handled + length buf) < nr - handled" using r(3) n False True
        by (auto intro!: diff_less_mono2)
      obtain fp2 where f: "php_crc32_stream_bulk_update php_stream_read (php_crc32_bulk_update crc buf) fp' nr (handled + length buf) =
          Ret (nr - (handled + length buf) \<le> length (rest fp'),
            php_crc32_bulk_update (php_crc32_bulk_update crc buf) (take (nr - (handled + length buf)) (rest fp')), fp2)"
        "rest fp2 = drop (nr - (handled + length buf)) (rest fp')"
        using less(1) [OF h(2) h(1)] by blast
      show ?thesis using False True r(2,3) n f h(1) unfolding s
        by (intro exI [of _ fp2]) (simp add: php_crc32_bulk_update_def diff_diff_left le_diff_conv2 add.commute; linarith)
    qed
  next
    case False
    then show ?thesis using less(2)
      by (intro exI [of _ fp]) (simp add: php_crc32_stream_bulk_update.simps php_crc32_bulk_update_def)
  qed
qed

end
