(* ===== verification/Std_Lev.thy ===== *)
theory Std_Lev
  imports Std_Base64
begin

text \<open>
  The edit distance of \<open>ext/standard/levenshtein.c\<close>. The two rows of the table are buffers of \<open>zend_long\<close>; an access
  outside of them and a sum that overflows are \<open>Undef\<close>. The second row is not initialised when it is
  allocated, so its content is an argument. The specification is the least cost of an edit script.
\<close>

section \<open>The distance\<close>

text \<open>A product of a \<open>size_t\<close> and a \<open>zend_long\<close> is taken modulo \<open>2 ^ 64\<close> and converted back to \<open>zend_long\<close>.\<close>

definition size_times :: "nat \<Rightarrow> int \<Rightarrow> int" where
  "size_times n c = (int n * c + 9223372036854775808) mod 18446744073709551616 - 9223372036854775808"

definition long_at :: "int list \<Rightarrow> nat \<Rightarrow> int run" where
  "long_at p i = (if i < length p then Ret (p ! i) else Undef)"

definition set_long :: "int list \<Rightarrow> nat \<Rightarrow> int \<Rightarrow> int list run" where
  "set_long p i x = (if i < length p then Ret (p[i := x]) else Undef)"

text \<open>The sum of a cell and a cost.\<close>

definition cell_plus :: "int list \<Rightarrow> nat \<Rightarrow> int \<Rightarrow> int run" where
  "cell_plus p i c = run_bind (long_at p i) (\<lambda>x. c_long (x + c))"

function levdist_row :: "int \<Rightarrow> int \<Rightarrow> int \<Rightarrow> octet \<Rightarrow> octet list \<Rightarrow> int list \<Rightarrow> nat \<Rightarrow> int list \<Rightarrow> int list run" where
  "levdist_row cost_ins cost_rep cost_del c string2 p1 i2 p2 =
     (if i2 < length string2
      then run_bind (cell_plus p1 i2 (if c = string2 ! i2 then 0 else cost_rep)) (\<lambda>c0.
           run_bind (cell_plus p1 (i2 + 1) cost_del) (\<lambda>c1.
           let c0 = if c1 < c0 then c1 else c0
           in run_bind (cell_plus p2 i2 cost_ins) (\<lambda>c2.
              let c0 = if c2 < c0 then c2 else c0
              in run_bind (set_long p2 (i2 + 1) c0) (\<lambda>p2. levdist_row cost_ins cost_rep cost_del c string2 p1 (i2 + 1) p2))))
      else Ret p2)"
  by pat_completeness auto

termination
  by (relation "measure (\<lambda>(cost_ins, cost_rep, cost_del, c, string2, p1, i2, p2). length string2 - i2)") auto

declare levdist_row.simps [simp del]

primrec levdist_rows :: "int \<Rightarrow> int \<Rightarrow> int \<Rightarrow> octet list \<Rightarrow> octet list \<Rightarrow> int list \<Rightarrow> int list \<Rightarrow> int run" where
  "levdist_rows cost_ins cost_rep cost_del string2 [] p1 p2 = long_at p1 (length string2)"
| "levdist_rows cost_ins cost_rep cost_del string2 (c # string1) p1 p2 =
     run_bind (cell_plus p1 0 cost_del) (\<lambda>x.
     run_bind (set_long p2 0 x) (\<lambda>p2.
     run_bind (levdist_row cost_ins cost_rep cost_del c string2 p1 0 p2) (\<lambda>p2.
     levdist_rows cost_ins cost_rep cost_del string2 string1 p2 p1)))"

text \<open>\<open>p2\<close> is the content of the second row when it is allocated.\<close>

definition reference_levdist :: "int list \<Rightarrow> octet list \<Rightarrow> octet list \<Rightarrow> int \<Rightarrow> int \<Rightarrow> int \<Rightarrow> int run" where
  "reference_levdist p2 string1 string2 cost_ins cost_rep cost_del =
     (if length string1 = 0 then Ret (size_times (length string2) cost_ins)
      else if length string2 = 0 then Ret (size_times (length string1) cost_del)
      else levdist_rows cost_ins cost_rep cost_del string2 string1
        (map (\<lambda>i2. size_times i2 cost_ins) [0..<length string2 + 1]) p2)"

definition levenshtein :: "int list \<Rightarrow> octet list \<Rightarrow> octet list \<Rightarrow> int option \<Rightarrow> int option \<Rightarrow> int option \<Rightarrow> int run" where
  "levenshtein p2 string1 string2 cost_ins cost_rep cost_del =
     reference_levdist p2 string1 string2 (case cost_ins of None \<Rightarrow> 1 | Some c \<Rightarrow> c) (case cost_rep of None \<Rightarrow> 1 | Some c \<Rightarrow> c)
       (case cost_del of None \<Rightarrow> 1 | Some c \<Rightarrow> c)"

section \<open>Edit scripts\<close>

text \<open>\<open>edits i r d s t n\<close>: a script that keeps, replaces, inserts and deletes bytes turns \<open>s\<close> into \<open>t\<close> at the cost \<open>n\<close>.\<close>

inductive edits :: "int \<Rightarrow> int \<Rightarrow> int \<Rightarrow> octet list \<Rightarrow> octet list \<Rightarrow> int \<Rightarrow> bool" for i r d where
  edits_done: "edits i r d [] [] 0"
| edits_keep: "edits i r d s t n \<Longrightarrow> edits i r d (s @ [x]) (t @ [x]) n"
| edits_replace: "edits i r d s t n \<Longrightarrow> x \<noteq> y \<Longrightarrow> edits i r d (s @ [x]) (t @ [y]) (n + r)"
| edits_insert: "edits i r d s t n \<Longrightarrow> edits i r d s (t @ [y]) (n + i)"
| edits_delete: "edits i r d s t n \<Longrightarrow> edits i r d (s @ [x]) t (n + d)"

inductive_cases edits_Nil_snocE: "edits i r d [] (t @ [y]) n"
inductive_cases edits_snoc_NilE: "edits i r d (s @ [x]) [] n"
inductive_cases edits_snoc_snocE: "edits i r d (s @ [x]) (t @ [y]) n"
inductive_cases edits_NilE: "edits i r d [] [] n"

definition cheapest :: "int \<Rightarrow> int \<Rightarrow> int \<Rightarrow> octet list \<Rightarrow> octet list \<Rightarrow> int \<Rightarrow> bool" where
  "cheapest i r d s t n \<longleftrightarrow> edits i r d s t n \<and> (\<forall>k. edits i r d s t k \<longrightarrow> n \<le> k)"

lemma cheapest_insert_all: "cheapest i r d [] t (int (length t) * i)"
proof (induction t rule: rev_induct)
  case Nil
  show ?case by (auto simp: cheapest_def intro: edits_done elim: edits_NilE)
next
  case (snoc y t)
  have e: "int (length (t @ [y])) * i = int (length t) * i + i" by (simp add: algebra_simps)
  show ?case unfolding e
    using snoc by (auto simp: cheapest_def intro: edits_insert elim!: edits_Nil_snocE)
qed

lemma cheapest_delete_all: "cheapest i r d s [] (int (length s) * d)"
proof (induction s rule: rev_induct)
  case Nil
  show ?case by (auto simp: cheapest_def intro: edits_done elim: edits_NilE)
next
  case (snoc y t)
  have e: "int (length (t @ [y])) * d = int (length t) * d + d" by (simp add: algebra_simps)
  show ?case unfolding e
    using snoc by (auto simp: cheapest_def intro: edits_delete elim!: edits_snoc_NilE)
qed

lemma cheapest_delete_one: "cheapest i r d s [] n \<Longrightarrow> cheapest i r d (s @ [x]) [] (n + d)"
  by (auto simp: cheapest_def intro: edits_delete elim!: edits_snoc_NilE)

text \<open>The recurrence of the table.\<close>

lemma cheapest_step:
  assumes "cheapest i r d s t a" "cheapest i r d s (t @ [y]) b" "cheapest i r d (s @ [x]) t c"
  shows "cheapest i r d (s @ [x]) (t @ [y]) (min (c + i) (min (b + d) (a + (if x = y then 0 else r))))"
proof -
  have "edits i r d (s @ [x]) (t @ [y]) (a + (if x = y then 0 else r))"
    using assms(1) by (auto simp: cheapest_def intro: edits_keep edits_replace)
  moreover have "edits i r d (s @ [x]) (t @ [y]) (b + d)" "edits i r d (s @ [x]) (t @ [y]) (c + i)"
    using assms(2,3) by (auto simp: cheapest_def intro: edits_insert edits_delete)
  ultimately have e: "edits i r d (s @ [x]) (t @ [y]) (min (c + i) (min (b + d) (a + (if x = y then 0 else r))))"
    by (auto simp: min_def)
  have "min (c + i) (min (b + d) (a + (if x = y then 0 else r))) \<le> k" if "edits i r d (s @ [x]) (t @ [y]) k" for k
    using that assms by (elim edits_snoc_snocE) (auto simp: cheapest_def min_le_iff_disj)
  then show ?thesis using e by (simp add: cheapest_def)
qed

lemma edits_bound:
  assumes "edits i r d s t n" "\<bar>i\<bar> \<le> m" "\<bar>r\<bar> \<le> m" "\<bar>d\<bar> \<le> m"
  shows "\<bar>n\<bar> \<le> int (length s + length t) * m"
  using assms by (induction rule: edits.induct) (auto simp: algebra_simps)

section \<open>The rows hold cheapest scripts\<close>

definition costs_ok :: "int \<Rightarrow> int \<Rightarrow> int \<Rightarrow> nat \<Rightarrow> bool" where
  "costs_ok i r d len \<longleftrightarrow> int len * max \<bar>i\<bar> (max \<bar>r\<bar> \<bar>d\<bar>) \<le> ZEND_LONG_MAX"

definition row_ok :: "int \<Rightarrow> int \<Rightarrow> int \<Rightarrow> octet list \<Rightarrow> octet list \<Rightarrow> nat \<Rightarrow> int list \<Rightarrow> bool" where
  "row_ok i r d s string2 k p \<longleftrightarrow>
     length p = length string2 + 1 \<and> (\<forall>j \<le> k. cheapest i r d s (take j string2) (p ! j))"

lemma costs_ok_mono:
  assumes "costs_ok i r d len" "n \<le> len"
  shows "costs_ok i r d n"
proof -
  have "int n * max \<bar>i\<bar> (max \<bar>r\<bar> \<bar>d\<bar>) \<le> int len * max \<bar>i\<bar> (max \<bar>r\<bar> \<bar>d\<bar>)" using assms(2) by (intro mult_right_mono) auto
  then show ?thesis using assms(1) by (simp add: costs_ok_def)
qed

lemma cell_plus_Ret:
  assumes "costs_ok i r d len" "cheapest i r d s t (p ! j)" "length s + length t < len" "j < length p" "c \<in> {i, r, d, 0}"
  shows "cell_plus p j c = Ret (p ! j + c)"
proof -
  define m where "m = max \<bar>i\<bar> (max \<bar>r\<bar> \<bar>d\<bar>)"
  have "\<bar>p ! j\<bar> \<le> int (length s + length t) * m" 
    by (rule edits_bound [of i r d]) (use assms(2) in \<open>auto simp: cheapest_def m_def\<close>)
  moreover have "\<bar>c\<bar> \<le> m" using assms(5) by (auto simp: m_def)
  moreover have "int (length s + length t + 1) * m \<le> ZEND_LONG_MAX"
    using costs_ok_mono [OF assms(1), of "length s + length t + 1"] assms(3) by (simp add: costs_ok_def m_def)
  ultimately have "\<bar>p ! j + c\<bar> \<le> ZEND_LONG_MAX" by (simp add: distrib_right)
  then show ?thesis using assms(4) by (simp add: cell_plus_def long_at_def)
qed

lemma levdist_row_ok:
  assumes "costs_ok i r d len" "length s + length string2 < len" "row_ok i r d s string2 (length string2) p1"
    "row_ok i r d (s @ [c]) string2 i2 p2" "i2 \<le> length string2"
  shows "\<exists>p. levdist_row i r d c string2 p1 i2 p2 = Ret p \<and> row_ok i r d (s @ [c]) string2 (length string2) p"
  using assms(4,5)
proof (induction "length string2 - i2" arbitrary: i2 p2)
  case 0
  then show ?case by (simp add: levdist_row.simps)
next
  case (Suc k)
  let ?t = "take i2 string2"
  let ?y = "string2 ! i2"
  have l: "i2 < length string2" using Suc(2) by simp
  then have t: "take (i2 + 1) string2 = ?t @ [?y]" by (simp add: take_Suc_conv_app_nth)
  have len: "length p1 = length string2 + 1" "length p2 = length string2 + 1" using assms(3) Suc(3) by (simp_all add: row_ok_def)
  have c: "cheapest i r d s ?t (p1 ! i2)" "cheapest i r d s (?t @ [?y]) (p1 ! (i2 + 1))" "cheapest i r d (s @ [c]) ?t (p2 ! i2)"
    using assms(3) Suc(3) l unfolding t [symmetric] row_ok_def by auto
  define n where "n = min (p2 ! i2 + i) (min (p1 ! (i2 + 1) + d) (p1 ! i2 + (if c = ?y then 0 else r)))"
  have plus: "cell_plus p1 i2 (if c = ?y then 0 else r) = Ret (p1 ! i2 + (if c = ?y then 0 else r))"
    "cell_plus p1 (i2 + 1) d = Ret (p1 ! (i2 + 1) + d)" "cell_plus p2 i2 i = Ret (p2 ! i2 + i)"
    using cell_plus_Ret [OF assms(1) c(1)] cell_plus_Ret [OF assms(1) c(2)] cell_plus_Ret [OF assms(1) c(3)] l len assms(2) by auto
  have "levdist_row i r d c string2 p1 i2 p2 = levdist_row i r d c string2 p1 (i2 + 1) (p2[i2 + 1 := n])"
    unfolding levdist_row.simps [of i r d c string2 p1 i2 p2] plus
    using l len by (simp add: Let_def set_long_def n_def min_def)
  moreover have "row_ok i r d (s @ [c]) string2 (i2 + 1) (p2[i2 + 1 := n])"
    using Suc(3) l len cheapest_step [OF c] unfolding row_ok_def by (auto simp: le_Suc_eq t [simplified] n_def)
  ultimately show ?case using Suc(1) [of "i2 + 1" "p2[i2 + 1 := n]"] Suc(2) l by simp
qed

lemma levdist_rows_ok:
  assumes "costs_ok i r d len" "length s + length string1 + length string2 \<le> len"
    "row_ok i r d s string2 (length string2) p1" "length p2 = length string2 + 1"
  shows "\<exists>n. levdist_rows i r d string2 string1 p1 p2 = Ret n \<and> cheapest i r d (s @ string1) string2 n"
  using assms(2-4)
proof (induction string1 arbitrary: s p1 p2)
  case Nil
  then have "cheapest i r d s (take (length string2) string2) (p1 ! length string2)" unfolding row_ok_def by blast
  then show ?case using Nil by (simp add: row_ok_def long_at_def)
next
  case (Cons c string1)
  have c: "cheapest i r d s [] (p1 ! 0)" "length p1 = length string2 + 1" using Cons(3) by (auto simp: row_ok_def)
  have x: "cell_plus p1 0 d = Ret (p1 ! 0 + d)" using cell_plus_Ret [OF assms(1) c(1)] Cons(2) c(2) by auto
  have z: "set_long p2 0 (p1 ! 0 + d) = Ret (p2[0 := p1 ! 0 + d])" using Cons(4) by (simp add: set_long_def)
  have "row_ok i r d (s @ [c]) string2 0 (p2[0 := p1 ! 0 + d])"
    using Cons(4) cheapest_delete_one [OF c(1), of c] by (simp add: row_ok_def)
  moreover have "length s + length string2 < len" using Cons(2) by simp
  ultimately obtain p where p: "levdist_row i r d c string2 p1 0 (p2[0 := p1 ! 0 + d]) = Ret p"
    "row_ok i r d (s @ [c]) string2 (length string2) p"
    using levdist_row_ok [OF assms(1) _ Cons(3)] by blast
  have "\<exists>n. levdist_rows i r d string2 string1 p p1 = Ret n \<and> cheapest i r d ((s @ [c]) @ string1) string2 n"
    by (rule Cons(1)) (use Cons(2) p(2) c(2) in simp_all)
  then show ?case by (simp add: x z p(1))
qed

lemma size_times_id:
  assumes "costs_ok i r d len" "n \<le> len" "c \<in> {i, d}"
  shows "size_times n c = int n * c"
proof -
  have "\<bar>int n * c\<bar> \<le> int n * max \<bar>i\<bar> (max \<bar>r\<bar> \<bar>d\<bar>)" unfolding abs_mult using assms(3) by (auto intro!: mult_left_mono)
  then have "\<bar>int n * c\<bar> \<le> ZEND_LONG_MAX" using costs_ok_mono [OF assms(1,2)] by (simp add: costs_ok_def)
  then show ?thesis unfolding size_times_def by simp
qed

lemma reference_levdist_ok:
  assumes "costs_ok i r d (length string1 + length string2)" "length p2 = length string2 + 1"
  shows "\<exists>n. reference_levdist p2 string1 string2 i r d = Ret n \<and> cheapest i r d string1 string2 n"
proof -
  have "row_ok i r d [] string2 (length string2) (map (\<lambda>i2. size_times i2 i) [0..<length string2 + 1])"
    unfolding row_ok_def
  proof (intro conjI allI impI)
    fix j assume j: "j \<le> length string2"
    have "size_times j i = int j * i" using size_times_id [OF assms(1), of j i] j by simp
    then show "cheapest i r d [] (take j string2) (map (\<lambda>i2. size_times i2 i) [0..<length string2 + 1] ! j)"
      using cheapest_insert_all [of i r d "take j string2"] j by (simp add: min_absorb2 del: upt_Suc)
  qed simp
  then have "\<exists>n. levdist_rows i r d string2 string1 (map (\<lambda>i2. size_times i2 i) [0..<length string2 + 1]) p2 = Ret n \<and>
      cheapest i r d string1 string2 n"
    using levdist_rows_ok [OF assms(1), of "[]"] assms(2) by simp
  moreover have "size_times (length string2) i = int (length string2) * i" "size_times (length string1) d = int (length string1) * d"
    using size_times_id [OF assms(1)] by auto
  ultimately show ?thesis unfolding reference_levdist_def
    using cheapest_insert_all [of i r d string2] cheapest_delete_all [of i r d string1] by simp
qed

section \<open>Properties\<close>

text \<open>C19. The edit distance is the least cost of a script of insertions, replacements and deletions, for any costs, also
  negative ones, whose products with the lengths are in range; the rows are never accessed out of bounds,
  and the result does not depend on what the uninitialised row holds.\<close>

theorem levenshtein_minimal:
  assumes "length p2 = length string2 + 1"
    "int (length string1 + length string2) * max \<bar>cost_ins\<bar> (max \<bar>cost_rep\<bar> \<bar>cost_del\<bar>) \<le> ZEND_LONG_MAX"
  shows "\<exists>n. levenshtein p2 string1 string2 (Some cost_ins) (Some cost_rep) (Some cost_del) = Ret n \<and>
    edits cost_ins cost_rep cost_del string1 string2 n \<and> (\<forall>k. edits cost_ins cost_rep cost_del string1 string2 k \<longrightarrow> n \<le> k)"
  using reference_levdist_ok [of cost_ins cost_rep cost_del string1 string2 p2] assms
  by (simp add: levenshtein_def costs_ok_def cheapest_def)

theorem levenshtein_minimal_witness:
  "\<exists>n. levenshtein [7, 7, 7] [97, 98, 99] [98, 100] (Some 1) (Some 3) (Some 1) = Ret n \<and> edits 1 3 1 [97, 98, 99] [98, 100] n"
  using levenshtein_minimal [of "[7, 7, 7]" "[98, 100]" "[97, 98, 99]" 1 3 1] by auto

end
