(* ===== verification/Spec2Isabelle.thy ===== *)
theory Spec2Isabelle
  imports BC_Math Zend_LList Zend_Stack Zend_Hash_Cmp Cal_Main Std_Qp Std_Uu Std_Crc Std_Lev
begin

text \<open>
  A verification library for the C code of the PHP 8.2.28 interpreter in \<open>src/php-8.2.28\<close>. Around the
  interpreter the repository holds a web application in PHP, which is not modelled.

  \<^bold>\<open>The program.\<close> The interpreter is a compiler to opcodes and a virtual machine (\<open>Zend\<close>), request
  handling and I/O (\<open>main\<close>, \<open>sapi\<close>, \<open>TSRM\<close>) and extensions (\<open>ext\<close>) that implement the functions of the
  language. All of them stand on a few containers of \<open>Zend\<close>: the hash table behind every PHP array,
  symbol table and class table, the hybrid sort behind every array sort, the linked list and the two
  stacks. This library models these containers and one complete extension, the arbitrary precision
  decimal arithmetic of \<open>ext/bcmath\<close>.

  \<^bold>\<open>Theories.\<close>

  \<^item> \<open>Prelude\<close>: fact collections, C strings, the value of a digit string, truncation of a rational to a
    number of decimal places, list facts.

  \<^item> \<open>BC_Num\<close>, \<open>BC_AddSub\<close>, \<open>BC_Mul\<close>, \<open>BC_Div\<close>, \<open>BC_Raise\<close>, \<open>BC_Str\<close>: \<open>ext/bcmath/libbcmath/src\<close>, one
    definition per C function and per loop. A number is the record \<open>bc_num\<close>; its abstract value \<open>bc_val\<close>
    is a rational. The digit loops run over the digits, most of them over the reversed digits because the
    code walks its pointers downwards. \<open>bc_wf\<close> is the invariant of a number. Results: addition,
    subtraction and comparison are exact or truncated as the scale asks; the divide and conquer product
    \<open>bc_rec_mul\<close> writes only inside its accumulator and equals the schoolbook product \<open>bc_simp_mul\<close>; the
    long division with guessed digits yields the truncated quotient; powers and modular powers; decimal
    strings are read and printed as the reference functions \<open>parse_dec\<close> and \<open>print_dec\<close> say.

  \<^item> \<open>BC_Math\<close>: the PHP functions of \<open>ext/bcmath/bcmath.c\<close>, with the argument checks in the order of the
    code; an exception is a value of \<open>bc_error\<close>. The functions of two operands are instances of the
    locale \<open>bc_routine\<close>, interpreted for the five of them.

  \<^item> \<open>Zend_Sort\<close>: \<open>zend_sort\<close>, \<open>zend_insert_sort\<close> and the sorting networks of \<open>Zend/zend_sort.c\<close> over an
    arbitrary comparison function. Every access checks its index. Results: the sort never leaves the array
    and always ends, whatever the comparison function answers; with a comparison that comes from a total
    preorder the result is a sorted permutation.

  \<^item> \<open>Zend_LList\<close>: \<open>Zend/zend_llist.c\<close> on an explicit heap of cells with null and freed pointers as
    failures; each operation refines an operation on lists, and other cells of the heap stay as they are.

  \<^item> \<open>Zend_Stack\<close>: \<open>zend_stack.c\<close> and \<open>zend_ptr_stack.c\<close> with their growing buffers, both interpretations
    of the locale \<open>lifo\<close>.

  \<^item> \<open>Zend_Hash\<close>: the data structure and operations of \<open>Zend/zend_hash.c\<close> with the macros of
    \<open>zend_types.h\<close> and the string hash of \<open>zend_string.h\<close>. \<open>Zend_Hash_Inv\<close> has the invariant \<open>hash_wf\<close>, the
    abstract value \<open>ht_elems\<close> (the list of keys and values in insertion order) and the theory of collision
    chains and of \<open>zend_hash_rehash\<close>; \<open>Zend_Hash_Ops\<close> proves lookups, growth, conversions and insertions
    against association lists, \<open>Zend_Hash_Del\<close> deletions; \<open>Zend_Hash_Map\<close> states the interface as the
    locale \<open>ordered_map\<close>, interprets it for the table and holds the properties.

  \<^item> \<open>Zend_Hash_Iter\<close>: positions and the internal pointer, the \<open>zend_hash_apply\<close> functions with callbacks that
    change, remove and stop, cleaning and the four ways of destroying a table. The proofs read a table as
    the row of its cells. \<open>Zend_Hash_Sort\<close>: \<open>zend_hash_sort\<close> and \<open>zend_array_sort\<close>, for any sort function that
    satisfies the locale \<open>array_sort\<close> (interpreted for the two sorts of \<open>zend_sort.c\<close>), with the
    stability of the comparison functions of \<open>ext/standard/array.c\<close>. \<open>Zend_Numeric\<close>: which strings are
    integer keys, how integers are printed, and the \<open>zend_symtable\<close> functions on top of both.
    \<open>Zend_Hash_Copy\<close>: copying, merging and duplication, and the conversion between symbol tables and
    property tables. \<open>Zend_Hash_Cmp\<close>: comparison, minimum and maximum, list arrays, elements that refer to
    variables.

  \<^bold>\<open>Failures, bounds and fuel.\<close> A routine that could access memory outside a buffer, follow a dangling
  pointer or loop forever returns a failure value (\<open>None\<close>, \<open>Undef\<close>, \<open>OutOfBounds\<close>) in the model; the
  properties show that this value does not occur. Nothing runs on fuel: loops are structural
  recursions, functions with a termination measure, or \<open>partial_function (option)\<close> with a proof that the
  result is \<open>Some\<close>. Hash values, keys and table masks are machine words, with wrap-around; lengths of
  digit strings and element counts are natural numbers, whose bounds in the hash table are part of
  \<open>hash_wf\<close>.

  \<^bold>\<open>Idealisations.\<close> Memory allocation succeeds. Values that are shared by reference counting are values
  of the logic, so reference counts, interned strings, copy on write and the order of releases are not
  visible, and the single-owner references that a duplicate unwraps do not occur. The build is the 64-bit one without \<open>ZEND_DEBUG\<close>. The lists \<open>arData\<close> and \<open>arPacked\<close> hold the
  used part of the bucket array, the capacity is \<open>nTableSize\<close>. Destructors and callbacks do not change the
  container they are called from, except through the result they return.

  \<^bold>\<open>Not modelled.\<close> The compiler, the virtual machine, objects, the cycle collector, the optimizer and the
  JIT need a semantics of PHP itself; \<open>main\<close>, \<open>sapi\<close>, \<open>TSRM\<close> and most extensions are I/O or bindings of
  external libraries; PCRE2, libmagic, libgd, libmbfl and timelib are vendored libraries. Of the hash table
  the registry of external iterators (\<open>zend_hash_iterator_add\<close> and its relatives) and
  \<open>zend_hash_set_bucket_key\<close> are left out, of bcmath the square root and the printing in other bases.
\<close>

end
